(* ===== verification/Prelude.thy ===== *)
theory Prelude
  imports Main "HOL-Library.Word"
begin

text \<open>
  Shared vocabulary of the development: the machine types of \<open>inttypes.h\<close>, the
  outcome of a kernel operation, the cell memory in which the kernel's intrusive data
  structures live, paths through linked nodes, and the arithmetic facts on 64-bit
  addresses that every component needs.
\<close>

unbundle bit_operations_syntax

section \<open>Machine types and outcomes\<close>

type_synonym u8 = "8 word"
type_synonym u16 = "16 word"
type_synonym u32 = "32 word"
type_synonym u64 = "64 word"
type_synonym addr = u64

text \<open>
  A kernel operation ends normally or stops the machine: by \<open>panic(message)\<close>, by a
  failed \<open>ASSERT\<close> (file and line), by a page fault at an address (an access through
  NULL, whose handler panics), by the general protection fault of an access through an address that
  is not canonical, by a division by zero, or by a loop that never ends.  Where the
  code does what the C language leaves undefined (an index outside an array, a missing
  argument), the outcome is \<open>Undefined\<close>.
\<close>

datatype kerror =
    Panic string
  | Assert_failed string nat
  | Page_fault addr
  | General_protection addr
  | Divide_error
  | Hang
  | Undefined string

type_synonym 'a res = "kerror + 'a"

definition and_then :: "'a res \<Rightarrow> ('a \<Rightarrow> 'b res) \<Rightarrow> 'b res" where
  "and_then r f = (case r of Inl e \<Rightarrow> Inl e | Inr x \<Rightarrow> f x)"

text \<open>The \<open>ASSERT\<close> macro of \<open>safety.h\<close>.\<close>

definition kassert :: "string \<Rightarrow> nat \<Rightarrow> bool \<Rightarrow> 'a res \<Rightarrow> 'a res" where
  "kassert file line b r = (if b then r else Inl (Assert_failed file line))"

lemma and_then_simps [simp]:
  "and_then (Inl e) f = Inl e"
  "and_then (Inr x) f = f x"
  by (simp_all add: and_then_def)

lemma and_then_eq_Inr:
  "and_then r f = Inr y \<longleftrightarrow> (\<exists>x. r = Inr x \<and> f x = Inr y)"
  by (cases r) simp_all

lemma and_then_eq_InrE [elim!]:
  assumes "and_then r f = Inr y"
  obtains x where "r = Inr x" and "f x = Inr y"
  using assms by (auto simp: and_then_eq_Inr)

lemma and_then_assoc: "and_then (and_then r f) g = and_then r (\<lambda>x. and_then (f x) g)"
  by (cases r) simp_all

lemma kassert_simps [simp]:
  "kassert file line True r = r"
  "kassert file line False r = Inl (Assert_failed file line)"
  by (simp_all add: kassert_def)

lemma kassert_eq_Inr [simp]: "kassert file line b r = Inr x \<longleftrightarrow> b \<and> r = Inr x"
  by (simp add: kassert_def)

text \<open>The value of a loop that may not end.\<close>

definition returned_by :: "'a option \<Rightarrow> 'a res" where
  "returned_by r = (case r of None \<Rightarrow> Inl Hang | Some x \<Rightarrow> Inr x)"

lemma returned_by_simps [simp]: "returned_by (Some x) = Inr x" "returned_by None = Inl Hang"
  by (simp_all add: returned_by_def)

text \<open>A counting loop whose body may stop the machine: over the indices in a list.\<close>

primrec for_each :: "'i list \<Rightarrow> ('i \<Rightarrow> 's \<Rightarrow> 's res) \<Rightarrow> 's \<Rightarrow> 's res" where
  "for_each [] f s = Inr s"
| "for_each (i # is) f s = and_then (f i s) (\<lambda>s. for_each is f s)"

lemma for_each_append: "for_each (xs @ ys) f s = and_then (for_each xs f s) (for_each ys f)"
  by (induction xs arbitrary: s) (simp_all add: and_then_assoc)

lemma for_each_invariant:
  assumes "for_each xs f s = Inr s'" and "I s"
    and "\<And>i s s'. i \<in> set xs \<Longrightarrow> I s \<Longrightarrow> f i s = Inr s' \<Longrightarrow> I s'"
  shows "I s'"
  using assms by (induction xs arbitrary: s) auto

section \<open>Cell memory and linked nodes\<close>

text \<open>
  Memory as the kernel's structures use it: a value of at most 64 bits at the address of
  each field. Every field is accessed at one width and fields do not overlap partially,
  so an update of one address leaves every other one alone.
\<close>

type_synonym mem = "addr \<Rightarrow> u64"

text \<open>A path from \<open>p\<close> to \<open>q\<close> along the link stored in the first cell of each node.\<close>

primrec path :: "mem \<Rightarrow> addr \<Rightarrow> addr list \<Rightarrow> addr \<Rightarrow> bool" where
  "path m p [] q \<longleftrightarrow> p = q"
| "path m p (x # xs) q \<longleftrightarrow> p = x \<and> x \<noteq> 0 \<and> path m (m x) xs q"

abbreviation chain :: "mem \<Rightarrow> addr \<Rightarrow> addr list \<Rightarrow> bool" where
  "chain m p xs \<equiv> path m p xs 0"

lemma path_append: "path m p (xs @ ys) q \<longleftrightarrow> (\<exists>r. path m p xs r \<and> path m r ys q)"
  by (induction xs arbitrary: p) auto

lemma path_cong: "(\<And>x. x \<in> set xs \<Longrightarrow> m x = m' x) \<Longrightarrow> path m p xs q = path m' p xs q"
  by (induction xs arbitrary: p) auto

lemma path_upd [simp]: "a \<notin> set xs \<Longrightarrow> path (m(a := v)) p xs q = path m p xs q"
  by (rule path_cong) auto

lemma path_nonzero: "path m p xs q \<Longrightarrow> 0 \<notin> set xs"
  by (induction xs arbitrary: p) auto

lemma chain_0 [simp]: "chain m 0 xs \<longleftrightarrow> xs = []"
  by (cases xs) auto

lemma chain_unique: "chain m p xs \<Longrightarrow> chain m p ys \<Longrightarrow> xs = ys"
proof (induction xs arbitrary: p ys)
  case Nil
  then show ?case by simp
next
  case (Cons x xs)
  then show ?case by (cases ys) auto
qed

lemma chain_distinct: "chain m p xs \<Longrightarrow> distinct xs"
proof (induction xs arbitrary: p)
  case Nil
  then show ?case by simp
next
  case (Cons x xs)
  have "x \<notin> set xs"
  proof
    assume "x \<in> set xs"
    then obtain as bs where xs: "xs = as @ x # bs" by (auto simp: in_set_conv_decomp)
    with Cons.prems have "chain m (m x) (as @ x # bs)" and "chain m (m x) bs"
      by (auto simp: path_append)
    then have "as @ x # bs = bs" by (rule chain_unique)
    then show False by (metis append_self_conv2 list.distinct(1) append_Cons append_assoc
          append_Nil append_same_eq)
  qed
  with Cons show ?case by auto
qed

lemma distinct_length_word:
  fixes xs :: "u64 list"
  assumes "distinct xs" and "0 \<notin> set xs"
  shows "length xs < 2 ^ 64"
proof -
  have "card (insert 0 (set xs)) \<le> card (UNIV :: u64 set)"
    by (rule card_mono) auto
  with assms show ?thesis by (simp add: distinct_card card_word)
qed

lemma chain_length: "chain m p xs \<Longrightarrow> length xs < 2 ^ 64"
  by (intro distinct_length_word chain_distinct path_nonzero)

lemma path_last_upd:
  assumes "path m p (xs @ [x]) q" and "x \<notin> set xs"
  shows "path (m(x := r)) p (xs @ [x]) r"
  using assms by (auto simp: path_append)

section \<open>Counters and addresses\<close>

lemma unat_of_nat_u64: "n < 2 ^ 64 \<Longrightarrow> unat (of_nat n :: u64) = n"
  by (simp add: unsigned_of_nat take_bit_nat_eq_self)

lemma of_nat_u64_eq_0 [simp]:
  "n < 2 ^ 64 \<Longrightarrow> (of_nat n :: u64) = 0 \<longleftrightarrow> n = 0"
  using unat_of_nat_u64 [of n] by (simp flip: unat_eq_zero)

text \<open>Addresses at a nonnegative distance from a base, when the sum stays below \<open>2^64\<close>.\<close>

lemma unat_add_off:
  fixes b :: u64
  assumes "unat b + n < 2 ^ 64"
  shows "unat (b + of_nat n) = unat b + n"
proof -
  from assms have "unat (of_nat n :: u64) = n" by (simp add: unat_of_nat_u64)
  with assms show ?thesis by (simp add: unat_word_ariths)
qed

lemma add_off_eq_iff:
  fixes b :: u64
  assumes "unat b + i < 2 ^ 64" and "unat b + j < 2 ^ 64"
  shows "b + of_nat i = b + of_nat j \<longleftrightarrow> i = j"
  by (metis assms unat_add_off add_left_cancel)

lemma of_nat_u64_inject:
  "i < 2 ^ 64 \<Longrightarrow> j < 2 ^ 64 \<Longrightarrow> (of_nat i :: u64) = of_nat j \<longleftrightarrow> i = j"
  using add_off_eq_iff [of 0 i j] by simp

lemma add_off_less_iff:
  fixes b :: u64
  assumes "unat b + i < 2 ^ 64" and "unat b + j < 2 ^ 64"
  shows "b + of_nat i < b + of_nat j \<longleftrightarrow> i < j"
  using assms by (simp add: word_less_nat_alt unat_add_off)

text \<open>Clearing the low \<open>n\<close> bits of an address.\<close>

lemma unat_and_mask: "unat (x AND mask n :: 'a::len word) = unat x mod 2 ^ n"
proof -
  have "unat (x AND mask n) = unat (take_bit n x)" by (simp only: take_bit_eq_mask)
  also have "\<dots> = take_bit n (unat x)" by (rule unsigned_take_bit_eq)
  also have "\<dots> = unat x mod 2 ^ n" by (rule take_bit_eq_mod)
  finally show ?thesis .
qed

lemma and_not_mask_plus: "(x AND NOT (mask n)) + (x AND mask n) = (x :: 'a::len word)"
proof -
  have "(x AND NOT (mask n)) + (x AND mask n) = (x AND NOT (mask n)) OR (x AND mask n)"
    by (rule disjunctive_add) (auto simp: bit_simps)
  also have "\<dots> = x"
    by (rule bit_word_eqI) (auto simp: bit_simps)
  finally show ?thesis .
qed

lemma unat_and_not_mask: "unat (x AND NOT (mask n) :: 'a::len word) = unat x - unat x mod 2 ^ n"
proof -
  have "x AND NOT (mask n) = x - (x AND mask n)"
    using and_not_mask_plus [of x n] by (simp add: eq_diff_eq)
  moreover have "x AND mask n \<le> x" by (rule word_and_le2)
  ultimately show ?thesis by (simp add: unat_sub unat_and_mask)
qed

lemma and_not_mask_add_off:
  fixes b :: "'a::len word"
  assumes al: "b AND NOT (mask n) = b" and off: "unat d < 2 ^ n" and n: "n < LENGTH('a)"
  shows "(b + d) AND NOT (mask n) = b" and "unat (b + d) = unat b + unat d"
proof -
  have m: "unat b mod 2 ^ n = 0"
    using unat_and_not_mask [of b n] al
    by (metis diff_diff_cancel diff_self_eq_0 mod_less_eq_dividend)
  then obtain k where k: "unat b = 2 ^ n * k" by (auto simp: mod_eq_0_iff_dvd)
  have "(2::nat) ^ LENGTH('a) = 2 ^ n * 2 ^ (LENGTH('a) - n)"
    using n by (simp flip: power_add)
  have "unat b < 2 ^ LENGTH('a)" by (rule unsigned_less)
  then have "2 ^ n * k < (2::nat) ^ n * 2 ^ (LENGTH('a) - n)"
    by (simp only: k \<open>(2::nat) ^ LENGTH('a) = 2 ^ n * 2 ^ (LENGTH('a) - n)\<close>)
  then have "k < 2 ^ (LENGTH('a) - n)" by simp
  then have "2 ^ n * k + 2 ^ n \<le> 2 ^ n * 2 ^ (LENGTH('a) - n)"
    by (metis Suc_leI mult_Suc_right add.commute mult_le_mono2)
  with off k n have lt: "unat b + unat d < 2 ^ LENGTH('a)"
    by (simp flip: power_add)
  then show sum: "unat (b + d) = unat b + unat d"
    by (simp add: unat_word_ariths)
  have "unat ((b + d) AND NOT (mask n)) = unat b"
    using off by (simp add: unat_and_not_mask sum k)
  then show "(b + d) AND NOT (mask n) = b" by (simp add: word_unat_eq_iff)
qed

section \<open>Regions\<close>

text \<open>
  A region of \<open>n\<close> bytes from \<open>p\<close> is the set of addresses \<open>x\<close> with \<open>x - p < n\<close>; the
  subtraction wraps, so a region may run over the end of the address space.
\<close>

abbreviation in_region :: "addr \<Rightarrow> addr \<Rightarrow> u64 \<Rightarrow> bool" where
  "in_region x p n \<equiv> x - p < n"

lemma in_region_split:
  assumes "unat a + unat b < 2 ^ 64"
  shows "in_region x p (a + b) \<longleftrightarrow> in_region x p a \<or> in_region x (p + a) b"
proof -
  have "in_region x (p + a) b \<longleftrightarrow> (x - p) - a < b" by (simp add: diff_diff_eq)
  moreover have "y < a + b \<longleftrightarrow> y < a \<or> y - a < b" for y :: u64
  proof -
    have "unat (a + b) = unat a + unat b" using assms by (simp add: unat_word_ariths)
    moreover have "a \<le> y \<Longrightarrow> unat (y - a) = unat y - unat a" by (rule unat_sub)
    ultimately show ?thesis
      by (cases "a \<le> y") (auto simp: word_less_nat_alt word_le_nat_alt)
  qed
  ultimately show ?thesis by simp
qed

text \<open>Two regions of the same size without a common address.\<close>

definition disjoint_regions :: "addr \<Rightarrow> addr \<Rightarrow> u64 \<Rightarrow> bool" where
  "disjoint_regions p q n \<longleftrightarrow> n \<le> q - p \<and> n \<le> p - q"

section \<open>Sources of addresses\<close>

text \<open>Taking \<open>n\<close> addresses in a row from a state.\<close>

primrec draw :: "('s \<Rightarrow> addr \<times> 's) \<Rightarrow> nat \<Rightarrow> 's \<Rightarrow> addr list \<times> 's" where
  "draw get 0 s = ([], s)"
| "draw get (Suc n) s = (case get s of (x, s') \<Rightarrow> case draw get n s' of (xs, s'') \<Rightarrow> (x # xs, s''))"

text \<open>
  The contract stacks and queues share: \<open>repr s xs\<close> says that the state \<open>s\<close> holds the
  addresses \<open>xs\<close> in the order in which \<open>get\<close> hands them out, and NULL when there is none.
\<close>

locale source =
  fixes repr :: "'s \<Rightarrow> addr list \<Rightarrow> bool"
    and get :: "'s \<Rightarrow> addr \<times> 's"
  assumes repr_unique: "repr s xs \<Longrightarrow> repr s ys \<Longrightarrow> xs = ys"
    and get_Nil: "repr s [] \<Longrightarrow> get s = (0, s)"
    and get_Cons: "repr s (x # xs) \<Longrightarrow> fst (get s) = x \<and> repr (snd (get s)) xs"
begin

lemma draw_repr:
  "repr s (xs @ ys) \<Longrightarrow> fst (draw get (length xs) s) = xs \<and> repr (snd (draw get (length xs) s)) ys"
proof (induction xs arbitrary: s)
  case Nil
  then show ?case by simp
next
  case (Cons x xs)
  then have "fst (get s) = x" and "repr (snd (get s)) (xs @ ys)" by (simp_all add: get_Cons)
  then show ?case using Cons.IH [of "snd (get s)"] by (simp add: split_beta)
qed

lemma get_nonzero:
  assumes "repr s xs" and "get s = (x, s')" and "x \<noteq> 0"
  shows "xs = x # tl xs" and "repr s' (tl xs)"
proof -
  from assms get_Nil [of s] have "xs \<noteq> []" by auto
  then obtain z zs where xs: "xs = z # zs" by (cases xs) auto
  with assms get_Cons [of s z zs] show "xs = x # tl xs" and "repr s' (tl xs)" by simp_all
qed

end

end
