(* ===== verification/Klib.thy ===== *)
theory Klib
  imports Prelude
begin

text \<open>
  \<open>kernel/klib.c\<close> and \<open>klib.h\<close>: \<open>clamp\<close>, \<open>memclr\<close>, \<open>memset\<close> and \<open>memcpy\<close> over a byte
  memory, loop by loop (bytes until the destination is 8-aligned, then 64-bit words,
  then the remaining bytes), with the wrap-around of the \<open>uint64_t\<close> size.  The last
  section relates them to the cell memory of the other components.
\<close>

section \<open>Byte memory\<close>

type_synonym bmem = "addr \<Rightarrow> u8"

text \<open>Little-endian 64-bit load and store.\<close>

definition load64 :: "bmem \<Rightarrow> addr \<Rightarrow> u64" where
  "load64 b a =
     ucast (b a) OR push_bit 8 (ucast (b (a + 1))) OR push_bit 16 (ucast (b (a + 2)))
     OR push_bit 24 (ucast (b (a + 3))) OR push_bit 32 (ucast (b (a + 4)))
     OR push_bit 40 (ucast (b (a + 5))) OR push_bit 48 (ucast (b (a + 6)))
     OR push_bit 56 (ucast (b (a + 7)))"

definition byte_of :: "u64 \<Rightarrow> u64 \<Rightarrow> u8" where
  "byte_of v i = ucast (drop_bit (8 * unat i) v)"

definition store64 :: "bmem \<Rightarrow> addr \<Rightarrow> u64 \<Rightarrow> bmem" where
  "store64 b a v = (\<lambda>x. if in_region x a 8 then byte_of v (x - a) else b x)"

lemma less_8_cases:
  fixes i :: u64
  assumes "i < 8"
  obtains "i = 0" | "i = 1" | "i = 2" | "i = 3" | "i = 4" | "i = 5" | "i = 6" | "i = 7"
proof -
  have "unat i < 8" using assms by (simp add: word_less_nat_alt)
  then have "unat i = 0 \<or> unat i = 1 \<or> unat i = 2 \<or> unat i = 3 \<or> unat i = 4 \<or> unat i = 5
    \<or> unat i = 6 \<or> unat i = 7"
    by arith
  with that show ?thesis by (auto simp: word_unat_eq_iff)
qed

lemma bit_u8: "bit (w :: u8) n \<Longrightarrow> n < 8"
  by (drule bit_imp_le_length) simp

lemma byte_of_load64: "i < 8 \<Longrightarrow> byte_of (load64 b a) i = b (a + i)"
  by (erule less_8_cases; rule bit_word_eqI)
    (auto simp: byte_of_def load64_def bit_simps dest: bit_u8)

section \<open>clamp\<close>

definition clamp :: "u64 \<Rightarrow> u64 \<Rightarrow> u64 \<Rightarrow> u64" where
  "clamp val mn mx = (if val < mn then mn else if val > mx then mx else val)"

section \<open>The distance to the next multiple of 8\<close>

definition gap8 :: "addr \<Rightarrow> u64" where
  "gap8 p = (- p) AND 7"

lemma unat_and_7: "unat (p AND (7 :: u64)) = unat p mod 8"
  using unat_and_mask [of p 3] by (simp add: mask_eq_exp_minus_1)

lemma and_7_0_iff: "p AND (7 :: u64) = 0 \<longleftrightarrow> unat p mod 8 = 0"
  using unat_and_7 [of p] by (simp flip: unat_eq_zero)

lemma complement_mod_8: "(x + y) mod 8 = 0 \<Longrightarrow> y mod 8 = (8 - x mod 8) mod (8 :: nat)"
proof -
  assume "(x + y) mod 8 = 0"
  then have "(x mod 8 + y mod 8) mod 8 = 0" by (simp add: mod_simps)
  moreover have "x mod 8 < 8" and "y mod 8 < 8" by simp_all
  ultimately have "x mod 8 + y mod 8 = 0 \<or> x mod 8 + y mod 8 = 8" by auto
  then show ?thesis by auto
qed

lemma unat_gap8: "unat (gap8 p) = (8 - unat p mod 8) mod 8"
proof -
  have "unat (p + - p) = (unat p + unat (- p)) mod 2 ^ LENGTH(64)"
    by (rule unat_word_ariths)
  then have "(unat p + unat (- p)) mod 2 ^ 64 mod 8 = 0" by (simp only: add.right_inverse) simp
  then have "(unat p + unat (- p)) mod 8 = 0"
    by (subst (asm) mod_mod_cancel) simp_all
  then have "unat (- p) mod 8 = (8 - unat p mod 8) mod 8" by (rule complement_mod_8)
  then show ?thesis by (simp only: gap8_def unat_and_7)
qed

lemma gap8_less: "gap8 p < 8"
  by (simp add: word_less_nat_alt unat_gap8)

lemma gap8_0_iff: "gap8 p = 0 \<longleftrightarrow> p AND 7 = 0"
proof -
  have "gap8 p = 0 \<longleftrightarrow> (8 - unat p mod 8) mod 8 = 0"
    by (metis unat_gap8 unat_eq_zero)
  also have "\<dots> \<longleftrightarrow> unat p mod 8 = 0" by presburger
  finally show ?thesis by (simp add: and_7_0_iff)
qed

lemma mod_8_step:
  fixes n :: nat
  assumes "n mod 8 \<noteq> 0"
  shows "(8 - n mod 8) mod 8 = Suc ((8 - (n + 1) mod 8) mod 8)"
proof -
  have "n mod 8 < 8" by simp
  with assms have "n mod 8 \<in> {1, 2, 3, 4, 5, 6, 7}" by auto
  moreover have "(n + 1) mod 8 = (n mod 8 + 1) mod 8" by (simp add: mod_simps)
  ultimately show ?thesis by auto
qed

lemma unat_plus_1_mod_8: "unat (p + 1 :: u64) mod 8 = (unat p + 1) mod 8"
  using mod_mod_cancel [of 8 "2 ^ 64" "unat p + 1"] by (simp add: unat_word_ariths)

lemma unat_gap8_step: "p AND 7 \<noteq> 0 \<Longrightarrow> unat (gap8 p) = Suc (unat (gap8 (p + 1)))"
  unfolding and_7_0_iff unat_gap8 unat_plus_1_mod_8 by (rule mod_8_step)

lemma gap8_step: "p AND 7 \<noteq> 0 \<Longrightarrow> gap8 p = 1 + gap8 (p + 1)"
proof -
  assume "p AND 7 \<noteq> 0"
  from unat_gap8_step [OF this] have "unat (gap8 p) = unat (1 + gap8 (p + 1))"
    using gap8_less [of "p + 1"] by (simp add: unat_word_ariths word_less_nat_alt)
  then show ?thesis by (simp add: word_unat_eq_iff)
qed

section \<open>memclr and memset\<close>

text \<open>
  The three loops of \<open>memclr\<close> and \<open>memset\<close>, which differ in the byte and the word
  they store.  The size is decremented in every step, also where it is already 0.
\<close>

function fill_head :: "bmem \<Rightarrow> addr \<Rightarrow> u8 \<Rightarrow> u64 \<Rightarrow> bmem \<times> addr \<times> u64" where
  "fill_head b p8 val sz =
     (if p8 AND 7 \<noteq> 0 then fill_head (b(p8 := val)) (p8 + 1) val (sz - 1) else (b, p8, sz))"
  by pat_completeness auto
termination
  by (relation "measure (\<lambda>(b, p8, val, sz). unat (gap8 p8))") (auto simp: unat_gap8_step)

function fill_words :: "bmem \<Rightarrow> addr \<Rightarrow> u64 \<Rightarrow> u64 \<Rightarrow> bmem \<times> addr \<times> u64" where
  "fill_words b p64 val sz =
     (if sz \<ge> 8 then fill_words (store64 b p64 val) (p64 + 8) val (sz - 8) else (b, p64, sz))"
  by pat_completeness auto
termination
  by (relation "measure (\<lambda>(b, p64, val, sz). unat sz)")
    (auto simp: word_less_nat_alt word_le_nat_alt unat_sub)

function fill_tail :: "bmem \<Rightarrow> addr \<Rightarrow> u8 \<Rightarrow> u64 \<Rightarrow> bmem" where
  "fill_tail b p val sz =
     (if sz > 0 then fill_tail (b(p := val)) (p + 1) val (sz - 1) else b)"
  by pat_completeness auto
termination
  by (relation "measure (\<lambda>(b, p, val, sz). unat sz)") (auto intro: measure_unat)

declare fill_head.simps [simp del] fill_words.simps [simp del] fill_tail.simps [simp del]

definition memclr :: "bmem \<Rightarrow> addr \<Rightarrow> u64 \<Rightarrow> bmem" where
  "memclr b ptr sz =
     (case fill_head b ptr 0 sz of (b, p8, sz) \<Rightarrow>
      case fill_words b p8 0 sz of (b, p64, sz) \<Rightarrow>
      if sz > 0 then fill_tail b p64 0 sz else b)"

text \<open>The 64-bit pattern of \<open>memset\<close>.\<close>

definition memset_value :: "u8 \<Rightarrow> u64" where
  "memset_value val =
     (let v = push_bit 8 (ucast val) OR ucast val;
          v = v OR push_bit 16 v;
          v = v OR push_bit 32 v
      in v)"

definition memset :: "bmem \<Rightarrow> addr \<Rightarrow> u8 \<Rightarrow> u64 \<Rightarrow> bmem" where
  "memset b ptr val sz =
     (case fill_head b ptr val sz of (b, p8, sz) \<Rightarrow>
      case fill_words b p8 (memset_value val) sz of (b, p64, sz) \<Rightarrow>
      if sz > 0 then fill_tail b p64 val sz else b)"

text \<open>What each loop computes.\<close>

lemma in_region_1: "in_region x p 1 \<longleftrightarrow> x = p"
  by (simp add: word_less_nat_alt unat_eq_zero)

lemma in_region_0: "\<not> in_region x p 0"
  by simp

lemma fill_head_spec:
  "fill_head b p val sz =
     ((\<lambda>x. if in_region x p (gap8 p) then val else b x), p + gap8 p, sz - gap8 p)"
proof (induction b p val sz rule: fill_head.induct)
  case (1 b p val sz)
  show ?case
  proof (cases "p AND 7 = 0")
    case True
    then have "gap8 p = 0" by (simp add: gap8_0_iff)
    with True show ?thesis by (simp add: fill_head.simps)
  next
    case False
    have "unat (1 :: u64) + unat (gap8 (p + 1)) < 2 ^ 64"
      using gap8_less [of "p + 1"] by (simp add: word_less_nat_alt)
    from in_region_split [OF this] have
      "in_region x p (gap8 p) \<longleftrightarrow> x = p \<or> in_region x (p + 1) (gap8 (p + 1))" for x
      by (simp only: gap8_step [OF False] in_region_1)
    then have "(\<lambda>x. if in_region x p (gap8 p) then val else b x) =
      (\<lambda>x. if in_region x (p + 1) (gap8 (p + 1)) then val else (b(p := val)) x)"
      by (auto simp: fun_eq_iff)
    moreover have "fill_head b p val sz = fill_head (b(p := val)) (p + 1) val (sz - 1)"
      using False by (subst fill_head.simps) simp
    ultimately show ?thesis
      by (simp only: "1.IH" [OF False]) (simp add: gap8_step [OF False] algebra_simps)
  qed
qed

lemma store64_uniform:
  "(\<And>i. i < 8 \<Longrightarrow> byte_of v i = val) \<Longrightarrow>
   store64 b p v = (\<lambda>x. if in_region x p 8 then val else b x)"
  by (auto simp: store64_def)

lemma and_7_less: "sz AND 7 < (8 :: u64)"
  by (simp add: word_less_nat_alt unat_and_7)

lemma word_rounding:
  "unat (sz - (sz AND 7) :: u64) = unat sz - unat sz mod 8"
proof -
  have "sz AND 7 \<le> sz" by (simp add: word_le_nat_alt unat_and_7)
  then show ?thesis by (simp add: unat_sub unat_and_7)
qed

lemma fill_words_step:
  assumes "(8 :: u64) \<le> sz"
  shows "(sz - 8) AND 7 = sz AND 7"
    and "unat (8 :: u64) + unat (sz - 8 - (sz AND 7)) < 2 ^ 64"
    and "sz - (sz AND 7) = 8 + (sz - 8 - (sz AND 7))"
proof -
  have u: "unat (sz - 8) = unat sz - 8" using unat_sub [OF assms] by simp
  have ge: "8 \<le> unat sz" using assms by (simp add: word_le_nat_alt)
  have "unat ((sz - 8) AND 7) = unat (sz AND 7)"
    using ge by (simp add: unat_and_7 u mod_if [of "unat sz"])
  then show eq: "(sz - 8) AND 7 = sz AND 7" by (simp add: word_unat_eq_iff)
  have "unat (sz - 8 - (sz AND 7)) \<le> unat sz - 8"
    using word_rounding [of "sz - 8"] by (simp add: eq u)
  with ge unsigned_less [where ?'a = nat, of sz]
  show "unat (8 :: u64) + unat (sz - 8 - (sz AND 7)) < 2 ^ 64" by simp
  show "sz - (sz AND 7) = 8 + (sz - 8 - (sz AND 7))" by simp
qed

lemma fill_words_spec:
  assumes "\<And>i. i < 8 \<Longrightarrow> byte_of v i = val"
  shows "fill_words b p v sz =
    ((\<lambda>x. if in_region x p (sz - (sz AND 7)) then val else b x),
     p + (sz - (sz AND 7)), sz AND 7)"
  using assms
proof (induction b p v sz rule: fill_words.induct)
  case (1 b p v sz)
  show ?case
  proof (cases "8 \<le> sz")
    case False
    then have "unat sz mod 8 = unat sz" by (simp add: word_le_nat_alt)
    then have "sz AND 7 = sz" by (simp add: word_unat_eq_iff unat_and_7)
    with False show ?thesis by (simp add: fill_words.simps)
  next
    case True
    note st = fill_words_step [OF True]
    from in_region_split [OF st(2)] have
      "in_region x p (sz - (sz AND 7)) \<longleftrightarrow>
         in_region x p 8 \<or> in_region x (p + 8) (sz - 8 - (sz AND 7))" for x
      by (simp only: st(3))
    moreover have "fill_words b p v sz = fill_words (store64 b p v) (p + 8) v (sz - 8)"
      using True by (subst fill_words.simps) simp
    ultimately show ?thesis
      using "1.IH" [OF True] "1.prems"
      by (simp add: st(1) store64_uniform [OF "1.prems"] fun_eq_iff algebra_simps)
  qed
qed

lemma fill_tail_spec: "fill_tail b p val sz = (\<lambda>x. if in_region x p sz then val else b x)"
proof (induction b p val sz rule: fill_tail.induct)
  case (1 b p val sz)
  show ?case
  proof (cases "sz = 0")
    case True
    then show ?thesis by (simp add: fill_tail.simps)
  next
    case False
    then have u: "unat sz = Suc (unat (sz - 1))"
      by (simp add: unat_minus_one unat_gt_0)
    have "unat (1 :: u64) + unat (sz - 1) < 2 ^ 64"
      using unsigned_less [where ?'a = nat, of sz] u by simp
    from in_region_split [OF this] have
      "in_region x p sz \<longleftrightarrow> x = p \<or> in_region x (p + 1) (sz - 1)" for x
      by (simp add: in_region_1)
    then have "(\<lambda>x. if in_region x p sz then val else b x) =
      (\<lambda>x. if in_region x (p + 1) (sz - 1) then val else (b(p := val)) x)"
      by (auto simp: fun_eq_iff)
    moreover have "0 < sz" using False by (simp add: word_gt_0)
    then have "fill_tail b p val sz = fill_tail (b(p := val)) (p + 1) val (sz - 1)"
      by (subst fill_tail.simps) simp
    ultimately show ?thesis by (simp only: "1.IH" [OF \<open>0 < sz\<close>])
  qed
qed

text \<open>
  Together the loops write the bytes up to the alignment boundary and then as many as the
  remaining (possibly wrapped) size says.
\<close>

lemma fill_loops_spec:
  assumes "\<And>i. i < 8 \<Longrightarrow> byte_of v i = val"
  shows "(case fill_head b p val sz of (b, p8, sz) \<Rightarrow>
          case fill_words b p8 v sz of (b, p64, sz) \<Rightarrow>
          if sz > 0 then fill_tail b p64 val sz else b) =
    (\<lambda>x. if in_region x p (gap8 p) \<or> in_region x (p + gap8 p) (sz - gap8 p) then val else b x)"
proof -
  define n where "n = sz - gap8 p"
  have "unat (n - (n AND 7)) + unat (n AND 7) = unat n"
    by (simp add: word_rounding unat_and_7)
  then have "unat (n - (n AND 7)) + unat (n AND 7) < 2 ^ 64"
    using unsigned_less [where ?'a = nat, of n] by simp
  from in_region_split [OF this] have
    "in_region x q n \<longleftrightarrow> in_region x q (n - (n AND 7)) \<or> in_region x (q + (n - (n AND 7))) (n AND 7)"
    for x q by simp
  moreover have "(if 0 < k then fill_tail b' q val k else b') = fill_tail b' q val k" for k b' q
    by (simp add: fill_tail.simps [of b' q val k])
  ultimately show ?thesis
    by (simp add: fill_head_spec fill_words_spec [OF assms] fill_tail_spec n_def [symmetric] fun_eq_iff)
qed

lemma byte_of_0: "byte_of 0 i = 0"
  by (simp add: byte_of_def)

lemma byte_of_memset_value: "i < 8 \<Longrightarrow> byte_of (memset_value v) i = v"
  by (erule less_8_cases; rule bit_word_eqI)
    (auto simp: byte_of_def memset_value_def Let_def bit_simps dest: bit_u8)

lemma gap_region:
  "gap8 p \<le> sz \<Longrightarrow>
   in_region x p (gap8 p) \<or> in_region x (p + gap8 p) (sz - gap8 p) \<longleftrightarrow> in_region x p sz"
  using in_region_split [of "gap8 p" "sz - gap8 p" x p] unsigned_less [where ?'a = nat, of sz]
  by (simp add: unat_sub word_le_nat_alt)

lemma gap_region_wrap:
  assumes "sz < gap8 p"
  shows "in_region x p (gap8 p) \<or> in_region x (p + gap8 p) (sz - gap8 p)"
proof (cases "in_region x p (gap8 p)")
  case False
  define y where "y = x - p"
  have "gap8 p \<le> y" using False by (simp add: y_def)
  then have u: "unat (y - gap8 p) = unat y - unat (gap8 p)" by (rule unat_sub)
  have "unat (sz - gap8 p) = 2 ^ 64 + unat sz - unat (gap8 p)"
    using assms unat_sub_if' [of sz "gap8 p"] by (simp add: word_less_nat_alt)
  with u assms unsigned_less [where ?'a = nat, of y] \<open>gap8 p \<le> y\<close>
  have "y - gap8 p < sz - gap8 p"
    by (simp add: word_less_nat_alt word_le_nat_alt)
  then show ?thesis by (simp add: y_def diff_diff_eq)
qed simp

lemma memclr_region:
  assumes "gap8 ptr \<le> sz"
  shows "memclr b ptr sz = (\<lambda>x. if in_region x ptr sz then 0 else b x)"
  unfolding memclr_def fill_loops_spec [OF byte_of_0]
  by (simp only: gap_region [OF assms])

text \<open>\<open>memset\<close> writes the value to every byte of the region and to no other one, by its
  three loops (single bytes up to an 8-byte boundary, eight at a time, the rest singly),
  whenever the region reaches that boundary.\<close>

lemma memset_fills_region:
  assumes "gap8 ptr \<le> sz"
  shows "memset b ptr val sz = (\<lambda>x. if in_region x ptr sz then val else b x)"
  using fill_loops_spec [where v = "memset_value val" and val = val, OF byte_of_memset_value]
  by (simp only: memset_def gap_region [OF assms])

lemma memset_fills_region_witness:
  "memset (\<lambda>_. 1) 5 9 20 24 = 9 \<and> memset (\<lambda>_. 1) 5 9 20 25 = 1"
  using memset_fills_region [of 5 20 "\<lambda>_. 1" 9] by (simp add: gap8_def)

text \<open>C36. \<open>memclr\<close> of a region that ends before the next 8-byte boundary does not clear
  that region but all of memory: the alignment loop decrements \<open>size\<close> below zero, it
  wraps, and the word loop runs over the whole address space.\<close>

theorem memclr_short_unaligned_clears_everything:
  assumes "sz < gap8 ptr"
  shows "memclr b ptr sz = (\<lambda>_. 0)"
  unfolding memclr_def fill_loops_spec [OF byte_of_0]
  by (simp only: gap_region_wrap [OF assms] if_True)

theorem memclr_short_unaligned_clears_everything_witness:
  "memclr (\<lambda>_. 1) 4097 4 0xFFFF800000000000 = 0"
  using memclr_short_unaligned_clears_everything [of 4 4097 "\<lambda>_. 1"]
  by (simp add: gap8_def)

section \<open>memcpy\<close>

function copy_head :: "bmem \<Rightarrow> addr \<Rightarrow> addr \<Rightarrow> u64 \<Rightarrow> bmem \<times> addr \<times> addr \<times> u64" where
  "copy_head b d8 s8 sz =
     (if d8 AND 7 \<noteq> 0 then copy_head (b(d8 := b s8)) (d8 + 1) (s8 + 1) (sz - 1)
      else (b, d8, s8, sz))"
  by pat_completeness auto
termination
  by (relation "measure (\<lambda>(b, d8, s8, sz). unat (gap8 d8))") (auto simp: unat_gap8_step)

function copy_words :: "bmem \<Rightarrow> addr \<Rightarrow> addr \<Rightarrow> u64 \<Rightarrow> bmem \<times> addr \<times> addr \<times> u64" where
  "copy_words b d64 s64 sz =
     (if sz \<ge> 8 then copy_words (store64 b d64 (load64 b s64)) (d64 + 8) (s64 + 8) (sz - 8)
      else (b, d64, s64, sz))"
  by pat_completeness auto
termination
  by (relation "measure (\<lambda>(b, d64, s64, sz). unat sz)")
    (auto simp: word_less_nat_alt word_le_nat_alt unat_sub)

function copy_tail :: "bmem \<Rightarrow> addr \<Rightarrow> addr \<Rightarrow> u64 \<Rightarrow> bmem" where
  "copy_tail b d8 s8 sz =
     (if sz > 0 then copy_tail (b(d8 := b s8)) (d8 + 1) (s8 + 1) (sz - 1) else b)"
  by pat_completeness auto
termination
  by (relation "measure (\<lambda>(b, d8, s8, sz). unat sz)") (auto intro: measure_unat)

declare copy_head.simps [simp del] copy_words.simps [simp del] copy_tail.simps [simp del]

definition memcpy :: "bmem \<Rightarrow> addr \<Rightarrow> addr \<Rightarrow> u64 \<Rightarrow> addr \<times> bmem" where
  "memcpy b dst src sz =
     (case copy_head b dst src sz of (b, d8, s8, sz) \<Rightarrow>
      case copy_words b d8 s8 sz of (b, d64, s64, sz) \<Rightarrow>
      (dst, if sz > 0 then copy_tail b d64 s64 sz else b))"

text \<open>The effect of copying a region, byte by byte or cell by cell.\<close>

definition copy_region :: "(addr \<Rightarrow> 'v) \<Rightarrow> addr \<Rightarrow> addr \<Rightarrow> u64 \<Rightarrow> (addr \<Rightarrow> 'v)" where
  "copy_region m d s n = (\<lambda>x. if in_region x d n then m (s + (x - d)) else m x)"

lemma disjoint_regions_shift:
  "disjoint_regions d s n \<Longrightarrow> k \<le> n \<Longrightarrow> disjoint_regions (d + a) (s + a) k"
  by (auto simp: disjoint_regions_def)

lemma disjoint_regions_notin:
  assumes dj: "disjoint_regions d s n" and i: "i < n"
  shows "\<not> in_region (s + i) d n"
proof -
  define y where "y = s - d"
  have 1: "n \<le> y" and 2: "n \<le> - y" using dj by (simp_all add: disjoint_regions_def y_def)
  have "(unat y + unat (- y)) mod 2 ^ LENGTH(64) = unat (y + - y)"
    by (rule unat_word_ariths(1) [symmetric])
  then have "unat y + unat (- y) = 0 \<or> unat y + unat (- y) = 2 ^ 64"
    using unsigned_less [where ?'a = nat, of y] unsigned_less [where ?'a = nat, of "- y"]
    by auto
  then have "unat (y + i) = unat y + unat i"
    using 1 2 i by (auto simp: unat_word_ariths word_less_nat_alt word_le_nat_alt)
  then have "n \<le> y + i" using 1 by (simp add: word_le_nat_alt)
  then show ?thesis by (simp add: y_def algebra_simps)
qed

lemma copy_region_append:
  assumes dj: "disjoint_regions d s (a + c)" and sum: "unat a + unat c < 2 ^ 64"
  shows "copy_region (copy_region m d s a) (d + a) (s + a) c = copy_region m d s (a + c)"
proof
  fix x
  note split = in_region_split [OF sum, of x d]
  show "copy_region (copy_region m d s a) (d + a) (s + a) c x = copy_region m d s (a + c) x"
  proof (cases "in_region x (d + a) c")
    case True
    with split have "in_region x d (a + c)" by simp
    with disjoint_regions_notin [OF dj] have "\<not> in_region (s + (x - d)) d (a + c)" by blast
    then have "\<not> in_region (s + (x - d)) d a"
      using in_region_split [OF sum] by blast
    with True split show ?thesis by (simp add: copy_region_def)
  next
    case False
    with split show ?thesis by (simp add: copy_region_def)
  qed
qed

lemma copy_region_1: "b(d := b s) = copy_region b d s 1"
  by (simp add: copy_region_def in_region_1 fun_eq_iff)

lemma copy_region_8: "store64 b d (load64 b s) = copy_region b d s 8"
  by (simp add: store64_def copy_region_def byte_of_load64 fun_eq_iff)

lemma copy_region_0: "copy_region b d s 0 = b"
  by (simp add: copy_region_def)

lemma copy_head_spec:
  assumes "gap8 d \<le> sz" and "disjoint_regions d s sz"
  shows "copy_head b d s sz = (copy_region b d s (gap8 d), d + gap8 d, s + gap8 d, sz - gap8 d)"
  using assms
proof (induction b d s sz rule: copy_head.induct)
  case (1 b d s sz)
  show ?case
  proof (cases "d AND 7 = 0")
    case True
    then have "gap8 d = 0" by (simp add: gap8_0_iff)
    with True show ?thesis by (simp add: copy_head.simps copy_region_0)
  next
    case False
    note st = gap8_step [OF False]
    have sum: "unat (1 :: u64) + unat (gap8 (d + 1)) < 2 ^ 64"
      using gap8_less [of "d + 1"] by (simp add: word_less_nat_alt)
    have sz: "unat sz \<ge> Suc (unat (gap8 (d + 1)))"
      using "1.prems"(1) unat_gap8_step [OF False] by (simp add: word_le_nat_alt)
    then have "sz \<noteq> 0" by auto
    then have u: "unat (sz - 1) = unat sz - 1" by (simp add: unat_minus_one)
    have 1: "gap8 (d + 1) \<le> sz - 1" using sz by (simp add: word_le_nat_alt u)
    have 2: "disjoint_regions (d + 1) (s + 1) (sz - 1)"
      using "1.prems"(2) by (rule disjoint_regions_shift) (simp add: word_le_nat_alt u)
    have dj: "disjoint_regions d s (1 + gap8 (d + 1))"
      using "1.prems" st by (metis disjoint_regions_shift add.right_neutral)
    have "copy_head b d s sz = copy_head (b(d := b s)) (d + 1) (s + 1) (sz - 1)"
      using False by (subst copy_head.simps) simp
    also have "\<dots> = (copy_region (copy_region b d s 1) (d + 1) (s + 1) (gap8 (d + 1)),
        d + 1 + gap8 (d + 1), s + 1 + gap8 (d + 1), sz - 1 - gap8 (d + 1))"
      using "1.IH" [OF False 1 2] by (simp only: copy_region_1)
    finally show ?thesis
      by (simp only: copy_region_append [OF dj sum] st) (simp add: algebra_simps)
  qed
qed

lemma copy_words_spec:
  assumes "disjoint_regions d s sz"
  shows "copy_words b d s sz = (copy_region b d s (sz - (sz AND 7)),
    d + (sz - (sz AND 7)), s + (sz - (sz AND 7)), sz AND 7)"
  using assms
proof (induction b d s sz rule: copy_words.induct)
  case (1 b d s sz)
  show ?case
  proof (cases "8 \<le> sz")
    case False
    then have "unat sz mod 8 = unat sz" by (simp add: word_le_nat_alt)
    then have "sz AND 7 = sz" by (simp add: word_unat_eq_iff unat_and_7)
    with False show ?thesis by (simp add: copy_words.simps copy_region_0)
  next
    case True
    note st = fill_words_step [OF True]
    let ?k = "sz - 8 - (sz AND 7)"
    have "disjoint_regions (d + 8) (s + 8) (sz - 8)"
      using "1.prems" True by (intro disjoint_regions_shift) (auto intro: word_sub_le)
    note IH = "1.IH" [OF True this]
    have "8 + ?k \<le> sz"
      using word_rounding [of sz] by (simp add: word_le_nat_alt flip: st(3))
    then have dj: "disjoint_regions d s (8 + ?k)"
      using disjoint_regions_shift [OF "1.prems", of "8 + ?k" 0] by simp
    have "copy_words b d s sz
      = copy_words (copy_region b d s 8) (d + 8) (s + 8) (sz - 8)"
      using True by (subst copy_words.simps) (simp only: copy_region_8 if_True)
    also have "\<dots> = (copy_region (copy_region b d s 8) (d + 8) (s + 8) ?k,
        d + 8 + ?k, s + 8 + ?k, sz AND 7)"
      using IH by (simp only: copy_region_8 st(1))
    finally show ?thesis
      by (simp only: copy_region_append [OF dj st(2)] st(3)) (simp add: algebra_simps)
  qed
qed

lemma copy_tail_spec:
  assumes "disjoint_regions d s sz"
  shows "copy_tail b d s sz = copy_region b d s sz"
  using assms
proof (induction b d s sz rule: copy_tail.induct)
  case (1 b d s sz)
  show ?case
  proof (cases "sz = 0")
    case True
    then show ?thesis by (simp add: copy_tail.simps copy_region_0)
  next
    case False
    then have u: "unat sz = Suc (unat (sz - 1))" by (simp add: unat_minus_one unat_gt_0)
    have sum: "unat (1 :: u64) + unat (sz - 1) < 2 ^ 64"
      using unsigned_less [where ?'a = nat, of sz] u by simp
    have pos: "0 < sz" using False by (simp add: word_gt_0)
    have "disjoint_regions (d + 1) (s + 1) (sz - 1)"
      using "1.prems" by (rule disjoint_regions_shift) (simp add: word_le_nat_alt u)
    note IH = "1.IH" [OF pos this]
    have dj: "disjoint_regions d s (1 + (sz - 1))" using "1.prems" by simp
    have "copy_tail b d s sz = copy_tail (copy_region b d s 1) (d + 1) (s + 1) (sz - 1)"
      using pos by (subst copy_tail.simps) (simp only: copy_region_1 if_True)
    also have "\<dots> = copy_region (copy_region b d s 1) (d + 1) (s + 1) (sz - 1)"
      using IH by (simp only: copy_region_1)
    finally show ?thesis by (simp only: copy_region_append [OF dj sum]) simp
  qed
qed

lemma memcpy_region:
  assumes "gap8 dst \<le> sz" and "disjoint_regions dst src sz"
  shows "memcpy b dst src sz = (dst, copy_region b dst src sz)"
proof -
  define g where "g = gap8 dst"
  define n where "n = sz - g"
  define k where "k = n - (n AND 7)"
  have un: "unat n = unat sz - unat g" using assms(1) by (simp add: n_def g_def unat_sub)
  have uk: "unat k + unat (n AND 7) = unat n"
    by (simp add: k_def word_rounding unat_and_7)
  have sz: "g + n = sz" and nk: "k + (n AND 7) = n" by (simp_all add: n_def k_def)
  have sum1: "unat g + unat n < 2 ^ 64" and sum2: "unat k + unat (n AND 7) < 2 ^ 64"
    using assms(1) un uk unsigned_less [where ?'a = nat, of sz] unsigned_less [where ?'a = nat, of n]
    by (auto simp: word_le_nat_alt g_def)
  have le: "n \<le> sz" "n AND 7 \<le> n"
    using un uk by (auto simp: word_le_nat_alt)
  have dj1: "disjoint_regions (dst + g) (src + g) n"
    using assms(2) le(1) by (rule disjoint_regions_shift)
  have dj2: "disjoint_regions (dst + g + k) (src + g + k) (n AND 7)"
    using dj1 le(2) by (rule disjoint_regions_shift)
  have dj1': "disjoint_regions (dst + g) (src + g) (k + (n AND 7))" using dj1 nk by simp
  have dj': "disjoint_regions dst src (g + n)" using assms(2) sz by simp
  have tail: "(if 0 < j then copy_tail b' d s j else b') = copy_tail b' d s j" for j b' d s
    by (simp add: copy_tail.simps [of b' d s j])
  have "copy_head b dst src sz = (copy_region b dst src g, dst + g, src + g, n)"
    by (simp only: copy_head_spec [OF assms] g_def n_def)
  moreover have "copy_words b' (dst + g) (src + g) n =
      (copy_region b' (dst + g) (src + g) k, dst + g + k, src + g + k, n AND 7)" for b'
    by (simp only: copy_words_spec [OF dj1] k_def)
  ultimately have "memcpy b dst src sz = (dst,
      copy_region (copy_region (copy_region b dst src g) (dst + g) (src + g) k)
        (dst + g + k) (src + g + k) (n AND 7))"
    by (simp only: memcpy_def prod.case tail copy_tail_spec [OF dj2])
  then show ?thesis
    by (simp only: copy_region_append [OF dj1' sum2] nk copy_region_append [OF dj' sum1] sz)
qed

text \<open>C34. For regions that do not overlap and reach the destination's next 8-byte boundary (\<open>gap8\<close>, at most
  seven bytes), \<open>memcpy\<close> makes the destination a copy of the source, leaves every other byte alone and
  returns the destination; the alignment of the pointers does not matter then.  For a shorter region at
  an unaligned destination the head loop makes the size wrap around, as it does in \<open>memclr\<close>, and nothing of
  this holds.\<close>

theorem memcpy_copies_region:
  assumes "gap8 dst \<le> sz" and "disjoint_regions dst src sz"
  shows "memcpy b dst src sz =
    (dst, \<lambda>x. if in_region x dst sz then b (src + (x - dst)) else b x)"
  using memcpy_region [OF assms] by (simp add: copy_region_def)

theorem memcpy_copies_region_witness:
  "snd (memcpy (\<lambda>x. ucast x) 100 3 20) 105 = 8"
  using memcpy_copies_region [of 100 20 3 "\<lambda>x. ucast x"]
  by (simp add: gap8_def disjoint_regions_def)

section \<open>The cell view\<close>

text \<open>
  The other components keep memory as cells.  On 8-aligned addresses a cell is the 64-bit
  load, and clearing or copying a whole number of cells is the following update.
\<close>

definition clear_cells :: "mem \<Rightarrow> addr \<Rightarrow> u64 \<Rightarrow> mem" where
  "clear_cells m p n = (\<lambda>x. if in_region x p n then 0 else m x)"

lemma aligned_add_less_8:
  fixes y :: u64
  assumes "y AND 7 = 0" and "i < 8"
  shows "unat (y + i) = unat y + unat i"
proof -
  have "y AND NOT (mask 3) = y"
    using and_not_mask_plus [of y 3] assms(1) by (simp add: mask_eq_exp_minus_1)
  then show ?thesis
    using and_not_mask_add_off(2) [of y 3 i] assms(2) by (simp add: word_less_nat_alt)
qed

lemma and_7_diff:
  fixes a p :: u64
  assumes "a AND 7 = 0" and "p AND 7 = 0"
  shows "(a - p) AND 7 = 0"
proof -
  have "(unat (a - p) + unat p) mod 2 ^ LENGTH(64) = unat (a - p + p)"
    by (rule unat_word_ariths(1) [symmetric])
  then have "(unat (a - p) + unat p) mod 2 ^ 64 mod 8 = unat a mod 8" by simp
  then have "(unat (a - p) + unat p) mod 8 = unat a mod 8"
    by (subst (asm) mod_mod_cancel) simp_all
  with assms show ?thesis by (metis and_7_0_iff mod_add_eq add.right_neutral mod_mod_trivial)
qed

lemma in_region_cell:
  assumes "a AND 7 = 0" "p AND 7 = 0" "n AND 7 = 0" "i < 8"
  shows "in_region (a + i) p n \<longleftrightarrow> in_region a p n"
proof -
  let ?y = "a - p"
  have al: "?y AND 7 = 0" using assms(1,2) by (rule and_7_diff)
  have "unat (?y + i) = unat ?y + unat i" using al assms(4) by (rule aligned_add_less_8)
  moreover obtain q r where "unat ?y = 8 * q" and "unat n = 8 * r"
    using al assms(3) by (metis and_7_0_iff mod_0_imp_dvd dvdE)
  moreover have "unat i < 8" using assms(4) by (simp add: word_less_nat_alt)
  ultimately have "?y + i < n \<longleftrightarrow> ?y < n" by (simp add: word_less_nat_alt) arith
  then show ?thesis by (simp add: algebra_simps)
qed

lemma load64_shift:
  assumes "\<And>i. i < 8 \<Longrightarrow> b (a + i) = b' (c + i)"
  shows "load64 b a = load64 b' c"
  using assms [of 0] assms [of 1] assms [of 2] assms [of 3] assms [of 4] assms [of 5]
    assms [of 6] assms [of 7]
  by (simp add: load64_def)

lemma memclr_cells:
  assumes al: "p AND 7 = 0" "sz AND 7 = 0" and a: "a AND 7 = 0"
  shows "load64 (memclr b p sz) a = clear_cells (load64 b) p sz a"
proof -
  have "gap8 p \<le> sz" using al(1) by (simp add: gap8_0_iff [THEN iffD2])
  then have "memclr b p sz (a + i) = (if in_region a p sz then 0 else b (a + i))" if "i < 8" for i
    using that in_region_cell [OF a al that] by (simp add: memclr_region)
  then have "load64 (memclr b p sz) a = load64 (if in_region a p sz then (\<lambda>_. 0) else b) a"
    by (intro load64_shift) simp
  then show ?thesis by (simp add: clear_cells_def load64_def)
qed

lemma memcpy_cells:
  assumes al: "d AND 7 = 0" "s AND 7 = 0" "sz AND 7 = 0" and dj: "disjoint_regions d s sz"
    and a: "a AND 7 = 0"
  shows "load64 (snd (memcpy b d s sz)) a = copy_region (load64 b) d s sz a"
proof -
  have "gap8 d \<le> sz" using al(1) by (simp add: gap8_0_iff [THEN iffD2])
  then have m: "snd (memcpy b d s sz) = copy_region b d s sz"
    using dj by (simp add: memcpy_region)
  have byte: "copy_region b d s sz (a + i)
      = (if in_region a d sz then b (s + (a - d) + i) else b (a + i))" if "i < 8" for i
    using in_region_cell [OF a al(1,3) that] by (simp add: copy_region_def algebra_simps)
  have "load64 (copy_region b d s sz) a
    = (if in_region a d sz then load64 b (s + (a - d)) else load64 b a)"
  proof (cases "in_region a d sz")
    case True
    then have "load64 (copy_region b d s sz) a = load64 b (s + (a - d))"
      by (intro load64_shift) (simp only: byte if_True)
    with True show ?thesis by simp
  next
    case False
    then have "load64 (copy_region b d s sz) a = load64 b a"
      by (intro load64_shift) (simp only: byte if_False)
    with False show ?thesis by simp
  qed
  then show ?thesis by (simp add: m copy_region_def)
qed

end
