(* ===== verification/Stack.thy ===== *)
theory Stack
  imports Prelude
begin

text \<open>
  \<open>kernel/data_structures/stack.c\<close> and \<open>stack.h\<close>: the intrusive stack whose nodes are
  the free blocks themselves.  A \<open>Stack\<close> at address \<open>s\<close> has its \<open>size\<close> in the cell
  \<open>s\<close> and its \<open>top\<close> in the cell \<open>s + 8\<close>; a \<open>StackNode\<close> has its \<open>next\<close> in its first cell.
  The locale states what a last-in first-out store of addresses promises.
\<close>

section \<open>Operations\<close>

definition stack_init :: "mem \<Rightarrow> addr \<Rightarrow> mem" where
  "stack_init m stack = m(stack := 0, stack + 8 := 0)"

definition stack_empty :: "mem \<Rightarrow> addr \<Rightarrow> bool" where
  "stack_empty m stack \<longleftrightarrow> m stack = 0"

definition stack_size :: "mem \<Rightarrow> addr \<Rightarrow> u64" where
  "stack_size m stack = m stack"

definition stack_push :: "mem \<Rightarrow> addr \<Rightarrow> addr \<Rightarrow> mem" where
  "stack_push m stack node =
     (let m = (if stack_empty m stack
               then let m = m(node := 0) in m(stack := 1)
               else let m = m(node := m (stack + 8)) in m(stack := m stack + 1))
      in m(stack + 8 := node))"

definition stack_pop :: "mem \<Rightarrow> addr \<Rightarrow> addr \<times> mem" where
  "stack_pop m stack =
     (if stack_empty m stack then (0, m)
      else let returnVal = m (stack + 8);
               m = m(stack + 8 := m returnVal);
               m = m(stack := m stack - 1)
           in (returnVal, m))"

section \<open>What a last-in first-out store promises\<close>

text \<open>
  \<open>repr s xs\<close>: the store \<open>s\<close> holds the addresses \<open>xs\<close>, top first.  \<open>fits s x\<close>: the
  address \<open>x\<close> can be made a node of \<open>s\<close>.
\<close>

locale lifo = source repr pop
  for repr :: "'s \<Rightarrow> addr list \<Rightarrow> bool" and pop :: "'s \<Rightarrow> addr \<times> 's" +
  fixes fits :: "'s \<Rightarrow> addr \<Rightarrow> bool"
    and push :: "'s \<Rightarrow> addr \<Rightarrow> 's"
  assumes push_repr: "repr s xs \<Longrightarrow> fits s x \<Longrightarrow> x \<notin> set xs \<Longrightarrow> repr (push s x) (x # xs)"
    and push_fits: "fits s y \<Longrightarrow> fits (push s x) y"
begin

text \<open>Pushing many nodes and popping them again.\<close>

lemma foldl_push_repr:
  assumes "repr s xs" and "\<forall>y\<in>set ys. fits s y" and "distinct (ys @ xs)"
  shows "repr (foldl push s ys) (rev ys @ xs)"
  using assms
proof (induction ys arbitrary: s xs)
  case Nil
  then show ?case by simp
next
  case (Cons y ys)
  then have "repr (push s y) (y # xs)" by (simp add: push_repr)
  moreover have "\<forall>z\<in>set ys. fits (push s y) z" using Cons.prems by (simp add: push_fits)
  ultimately have "repr (foldl push (push s y) ys) (rev ys @ y # xs)"
    using Cons.prems by (intro Cons.IH) auto
  then show ?case by simp
qed

lemma draw_foldl_push:
  assumes "repr s xs" and "\<forall>y\<in>set ys. fits s y" and "distinct (ys @ xs)"
  shows "fst (draw pop (length ys) (foldl push s ys)) = rev ys"
    and "repr (snd (draw pop (length ys) (foldl push s ys))) xs"
  using draw_repr [of "foldl push s ys" "rev ys" xs] foldl_push_repr [OF assms] by simp_all

end

section \<open>The stack is one\<close>

definition stack_at :: "mem \<Rightarrow> addr \<Rightarrow> addr list \<Rightarrow> bool" where
  "stack_at m s xs \<longleftrightarrow>
     m s = of_nat (length xs) \<and> (xs \<noteq> [] \<longrightarrow> chain m (m (s + 8)) xs) \<and>
     0 \<notin> set xs \<and> distinct xs \<and> s \<notin> set xs \<and> s + 8 \<notin> set xs"

definition stack_fits :: "addr \<Rightarrow> addr \<Rightarrow> bool" where
  "stack_fits s x \<longleftrightarrow> x \<noteq> 0 \<and> x \<noteq> s \<and> x \<noteq> s + 8"

lemma stack_at_distinct: "stack_at m s xs \<Longrightarrow> distinct xs"
  and stack_at_nonzero: "stack_at m s xs \<Longrightarrow> 0 \<notin> set xs"
  by (simp_all add: stack_at_def)

lemma stack_at_length: "stack_at m s xs \<Longrightarrow> length xs < 2 ^ 64"
  by (intro distinct_length_word) (simp_all add: stack_at_def)

lemma stack_at_empty: "stack_at m s xs \<Longrightarrow> stack_empty m s \<longleftrightarrow> xs = []"
  using stack_at_length [of m s xs] by (auto simp: stack_at_def stack_empty_def)

lemma stack_at_size: "stack_at m s xs \<Longrightarrow> unat (stack_size m s) = length xs"
  using stack_at_length [of m s xs] by (simp add: stack_at_def stack_size_def unat_of_nat_u64)

lemma stack_at_fits: "stack_at m s xs \<Longrightarrow> x \<in> set xs \<Longrightarrow> stack_fits s x"
  by (auto simp: stack_at_def stack_fits_def)

lemma stack_at_unique: "stack_at m s xs \<Longrightarrow> stack_at m s ys \<Longrightarrow> xs = ys"
  using stack_at_empty [of m s xs] stack_at_empty [of m s ys]
  by (auto simp: stack_at_def intro: chain_unique)

lemma stack_at_cong:
  assumes "\<And>x. x = s \<or> x = s + 8 \<or> x \<in> set xs \<Longrightarrow> m x = m' x"
  shows "stack_at m s xs = stack_at m' s xs"
proof -
  have "m s = m' s" and "m (s + 8) = m' (s + 8)" using assms by auto
  moreover have "chain m p xs = chain m' p xs" for p by (rule path_cong) (use assms in auto)
  ultimately show ?thesis by (simp add: stack_at_def)
qed

lemma stack_init_at: "stack_at (stack_init m s) s []"
  by (simp add: stack_at_def stack_init_def)

lemma stack_push_at:
  assumes st: "stack_at m s xs" and "stack_fits s x" and "x \<notin> set xs"
  shows "stack_at (stack_push m s x) s (x # xs)"
  using assms stack_at_empty [OF st]
  by (auto simp: stack_at_def stack_fits_def stack_push_def Let_def fun_upd_twist)

lemma stack_pop_Nil: "stack_at m s [] \<Longrightarrow> stack_pop m s = (0, m)"
  using stack_at_empty [of m s "[]"] by (simp add: stack_pop_def)

lemma stack_pop_Cons:
  assumes st: "stack_at m s (x # xs)"
  shows "fst (stack_pop m s) = x" and "stack_at (snd (stack_pop m s)) s xs"
  using assms stack_at_empty [OF st]
  by (auto simp: stack_at_def stack_pop_def Let_def)

text \<open>Which cells the operations write.\<close>

lemma stack_push_other: "a \<noteq> s \<Longrightarrow> a \<noteq> s + 8 \<Longrightarrow> a \<noteq> x \<Longrightarrow> stack_push m s x a = m a"
  by (simp add: stack_push_def Let_def)

lemma stack_pop_other: "a \<noteq> s \<Longrightarrow> a \<noteq> s + 8 \<Longrightarrow> snd (stack_pop m s) a = m a"
  by (simp add: stack_pop_def Let_def)

lemma stack_init_other: "a \<noteq> s \<Longrightarrow> a \<noteq> s + 8 \<Longrightarrow> stack_init m s a = m a"
  by (simp add: stack_init_def)

interpretation st: lifo "\<lambda>m. stack_at m s" "\<lambda>m. stack_pop m s" "\<lambda>_. stack_fits s"
    "\<lambda>m. stack_push m s" for s
  by unfold_locales
    (auto intro: stack_at_unique stack_push_at stack_pop_Nil stack_pop_Cons simp: stack_pop_Nil)

text \<open>C33. Nodes come off a stack in the reverse of the order in which they were pushed, and
  popping them all leaves the stack that was there before: for distinct nodes outside the
  stack's own two cells, pushed on a stack that holds \<open>xs\<close>.\<close>

theorem stack_pops_reverse_pushes:
  assumes "stack_at m s xs" and "\<forall>y\<in>set ys. stack_fits s y" and "distinct (ys @ xs)"
  shows "fst (draw (\<lambda>m. stack_pop m s) (length ys) (foldl (\<lambda>m. stack_push m s) m ys)) = rev ys \<and>
    stack_at (snd (draw (\<lambda>m. stack_pop m s) (length ys) (foldl (\<lambda>m. stack_push m s) m ys))) s xs"
  using st.draw_foldl_push [OF assms] by simp

theorem stack_pops_reverse_pushes_witness:
  "fst (draw (\<lambda>m. stack_pop m 8) 3
      (foldl (\<lambda>m. stack_push m 8) (stack_init (\<lambda>_. 7) 8) [32, 64, 48])) = [48, 64, 32]"
  using stack_pops_reverse_pushes [OF stack_init_at, of "[32, 64, 48]" 8 "\<lambda>_. 7"]
  by (simp add: stack_fits_def numeral_3_eq_3)

end
