(* ===== verification/Queue.thy ===== *)
theory Queue
  imports Prelude
begin

text \<open>
  \<open>kernel/data_structures/queue.c\<close> and \<open>queue.h\<close>: singly linked FIFO queues with a
  priority insertion.  A \<open>Queue\<close> at address \<open>q\<close> has its \<open>size\<close>, \<open>head\<close> and \<open>tail\<close> in
  the cells \<open>q\<close>, \<open>q + 8\<close>, \<open>q + 16\<close>; a \<open>QueueNode\<close> has its \<open>next\<close> in its first cell
  and its \<open>data\<close> in the second.  The comparison passed to \<open>queue_enqueue_prio\<close> may have
  side effects (the scheduler's has), so it takes and returns a state of its own.
\<close>

section \<open>Operations\<close>

definition queue_init :: "mem \<Rightarrow> addr \<Rightarrow> mem" where
  "queue_init m queue = m(queue := 0, queue + 8 := 0, queue + 16 := 0)"

definition queue_enqueue :: "mem \<Rightarrow> addr \<Rightarrow> addr \<Rightarrow> mem" where
  "queue_enqueue m q node =
     (let m = m(node := 0);
          m = (if m q = 0
               then let m = m(q + 16 := node) in m(q + 8 := node)
               else let m = m(m (q + 16) := node) in m(q + 16 := node))
      in m(q := m q + 1))"

text \<open>
  The scan of \<open>queue_enqueue_prio\<close> for the first node whose data do not compare below
  the new node's; \<open>None\<close> is a scan that never ends (a cyclic list).
\<close>

partial_function (option) prio_scan ::
  "('p \<Rightarrow> addr \<Rightarrow> addr \<Rightarrow> int \<times> 'p) \<Rightarrow> mem \<Rightarrow> addr \<Rightarrow> addr \<Rightarrow> 'p \<Rightarrow> (addr \<times> 'p) option" where
  "prio_scan cmp m node_data other p =
     (if other = 0 then Some (0, p)
      else case cmp p node_data (m (other + 8)) of (c, p') \<Rightarrow>
        if c > 0 then prio_scan cmp m node_data (m other) p' else Some (other, p'))"

definition queue_enqueue_prio ::
  "('p \<Rightarrow> addr \<Rightarrow> addr \<Rightarrow> int \<times> 'p) \<Rightarrow> mem \<Rightarrow> 'p \<Rightarrow> addr \<Rightarrow> addr \<Rightarrow> (mem \<times> 'p) option" where
  "queue_enqueue_prio cmp m p queue node =
     (if m queue = 0 then Some (queue_enqueue m queue node, p)
      else case prio_scan cmp m (m (node + 8)) (m (queue + 8)) p of
        None \<Rightarrow> None
      | Some (other, p) \<Rightarrow>
          (let m = (if other = 0
                    then let m = m(node := 0);
                             m = m(m (queue + 16) := node)
                         in m(queue + 16 := node)
                    else if other = m (queue + 8)
                    then let m = m(node := m (queue + 8)) in m(queue + 8 := node)
                    else let m = m(node := m other) in m(other := node))
           in Some (m(queue := m queue + 1), p)))"

definition queue_dequeue :: "mem \<Rightarrow> addr \<Rightarrow> addr \<times> mem" where
  "queue_dequeue m q =
     (if m q = 0 then (0, m)
      else let returnVal = m (q + 8);
               m = m(q + 8 := m (m (q + 8)));
               m = m(q := m q - 1)
           in (returnVal, m))"

definition queue_empty :: "mem \<Rightarrow> addr \<Rightarrow> bool" where
  "queue_empty m q \<longleftrightarrow> m q = 0"

definition queue_size :: "mem \<Rightarrow> addr \<Rightarrow> u64" where
  "queue_size m q = m q"

definition queue_peek :: "mem \<Rightarrow> addr \<Rightarrow> addr" where
  "queue_peek m queue = (if m queue = 0 then 0 else m (queue + 8))"

section \<open>Runs of operations\<close>

text \<open>
  What the users of a queue do with it: an arbitrary interleaving of operations.  A run
  collects what the dequeue operations return; \<open>list_run\<close> is the same run on a list.  A run
  is legal when each node put on the queue can be a node of it and is not on it already, so
  a node may come back once it has been dequeued.
\<close>

datatype queue_op = Enqueue addr | Dequeue

fun run_ops :: "('s \<Rightarrow> addr \<times> 's) \<Rightarrow> ('s \<Rightarrow> addr \<Rightarrow> 's) \<Rightarrow> queue_op list \<Rightarrow> 's \<Rightarrow> addr list \<times> 's" where
  "run_ops deq enq [] s = ([], s)"
| "run_ops deq enq (Enqueue x # ops) s = run_ops deq enq ops (enq s x)"
| "run_ops deq enq (Dequeue # ops) s =
     (case deq s of (x, s') \<Rightarrow> case run_ops deq enq ops s' of (rs, s'') \<Rightarrow> (x # rs, s''))"

fun list_run :: "queue_op list \<Rightarrow> addr list \<Rightarrow> addr list \<times> addr list" where
  "list_run [] xs = ([], xs)"
| "list_run (Enqueue x # ops) xs = list_run ops (xs @ [x])"
| "list_run (Dequeue # ops) [] = (case list_run ops [] of (rs, ys) \<Rightarrow> (0 # rs, ys))"
| "list_run (Dequeue # ops) (x # xs) = (case list_run ops xs of (rs, ys) \<Rightarrow> (x # rs, ys))"

fun legal_run :: "(addr \<Rightarrow> bool) \<Rightarrow> queue_op list \<Rightarrow> addr list \<Rightarrow> bool" where
  "legal_run fits [] xs \<longleftrightarrow> True"
| "legal_run fits (Enqueue x # ops) xs \<longleftrightarrow> fits x \<and> x \<notin> set xs \<and> legal_run fits ops (xs @ [x])"
| "legal_run fits (Dequeue # ops) xs \<longleftrightarrow> legal_run fits ops (tl xs)"

definition queue_run :: "addr \<Rightarrow> queue_op list \<Rightarrow> mem \<Rightarrow> addr list \<times> mem" where
  "queue_run q = run_ops (\<lambda>m. queue_dequeue m q) (\<lambda>m. queue_enqueue m q)"

section \<open>What a FIFO queue promises\<close>

text \<open>
  \<open>repr s xs\<close>: the queue in state \<open>s\<close> holds the nodes \<open>xs\<close>, oldest first.  \<open>fits s x\<close>:
  the address \<open>x\<close> can be made a node of it.
\<close>

locale fifo = source repr deq
  for repr :: "'s \<Rightarrow> addr list \<Rightarrow> bool" and deq :: "'s \<Rightarrow> addr \<times> 's" +
  fixes fits :: "addr \<Rightarrow> bool"
    and enq :: "'s \<Rightarrow> addr \<Rightarrow> 's"
    and peek :: "'s \<Rightarrow> addr"
  assumes repr_distinct: "repr s xs \<Longrightarrow> distinct xs"
    and enq_repr: "repr s xs \<Longrightarrow> fits x \<Longrightarrow> x \<notin> set xs \<Longrightarrow> repr (enq s x) (xs @ [x])"
    and peek_hd: "repr s xs \<Longrightarrow> peek s = (case xs of [] \<Rightarrow> 0 | x # _ \<Rightarrow> x)"
begin

lemma foldl_enq_repr:
  assumes "repr s xs" and "\<forall>y\<in>set ys. fits y" and "distinct (xs @ ys)"
  shows "repr (foldl enq s ys) (xs @ ys)"
  using assms
proof (induction ys arbitrary: s xs)
  case Nil
  then show ?case by simp
next
  case (Cons y ys)
  then have "repr (enq s y) (xs @ [y])" by (simp add: enq_repr)
  moreover have "distinct ((xs @ [y]) @ ys)" using Cons.prems by simp
  ultimately have "repr (foldl enq (enq s y) ys) ((xs @ [y]) @ ys)"
    using Cons.prems by (intro Cons.IH) simp_all
  then show ?case by simp
qed

lemma draw_foldl_enq:
  assumes "repr s []" and "\<forall>y\<in>set ys. fits y" and "distinct ys"
  shows "fst (draw deq (length ys) (foldl enq s ys)) = ys"
  using draw_repr [of "foldl enq s ys" ys "[]"] foldl_enq_repr [of s "[]" ys] assms by simp

text \<open>Every legal run does on the queue what it does on the list.\<close>

lemma run_ops_refines_list:
  assumes "repr s xs" and "legal_run fits ops xs"
  shows "fst (run_ops deq enq ops s) = fst (list_run ops xs)
    \<and> repr (snd (run_ops deq enq ops s)) (snd (list_run ops xs))"
  using assms
proof (induction ops xs arbitrary: s rule: list_run.induct)
  case (2 x ops xs)
  then show ?case by (simp add: enq_repr)
next
  case (3 ops)
  then show ?case by (simp add: get_Nil split_beta)
next
  case (4 ops x xs)
  then have "fst (deq s) = x" and "repr (snd (deq s)) xs" by (simp_all add: get_Cons)
  with 4 show ?case by (simp add: split_beta)
qed simp

lemma enq_deq_commute:
  assumes "repr s (x # xs)" and "fits y" and "y \<notin> set (x # xs)"
  shows "repr (snd (deq (enq s y))) (xs @ [y])" and "repr (enq (snd (deq s)) y) (xs @ [y])"
    and "fst (deq (enq s y)) = x"
proof -
  have "repr (enq s y) (x # (xs @ [y]))" using enq_repr [OF assms] by simp
  then show "repr (snd (deq (enq s y))) (xs @ [y])" and "fst (deq (enq s y)) = x"
    by (simp_all add: get_Cons)
  have "repr (snd (deq s)) xs" using assms(1) by (simp add: get_Cons)
  then show "repr (enq (snd (deq s)) y) (xs @ [y])" using assms by (simp add: enq_repr)
qed

end

section \<open>The queue is one\<close>

definition queue_at :: "mem \<Rightarrow> addr \<Rightarrow> addr list \<Rightarrow> bool" where
  "queue_at m q xs \<longleftrightarrow>
     m q = of_nat (length xs) \<and>
     (xs \<noteq> [] \<longrightarrow> chain m (m (q + 8)) xs \<and> m (q + 16) = last xs) \<and>
     distinct xs \<and> {0, q, q + 8, q + 16} \<inter> set xs = {}"

definition queue_fits :: "addr \<Rightarrow> addr \<Rightarrow> bool" where
  "queue_fits q x \<longleftrightarrow> x \<notin> {0, q, q + 8, q + 16}"

lemma queue_at_length: "queue_at m q xs \<Longrightarrow> length xs < 2 ^ 64"
  by (intro distinct_length_word) (auto simp: queue_at_def)

lemma queue_at_empty: "queue_at m q xs \<Longrightarrow> m q = 0 \<longleftrightarrow> xs = []"
  using queue_at_length [of m q xs] by (auto simp: queue_at_def)

lemma queue_at_size: "queue_at m q xs \<Longrightarrow> unat (queue_size m q) = length xs"
  using queue_at_length [of m q xs] by (simp add: queue_at_def queue_size_def unat_of_nat_u64)

lemma queue_at_distinct: "queue_at m q xs \<Longrightarrow> distinct xs"
  by (simp add: queue_at_def)

lemma queue_at_fits: "queue_at m q xs \<Longrightarrow> x \<in> set xs \<Longrightarrow> queue_fits q x"
  by (auto simp: queue_at_def queue_fits_def)

lemma queue_at_unique: "queue_at m q xs \<Longrightarrow> queue_at m q ys \<Longrightarrow> xs = ys"
  using queue_at_empty [of m q xs] queue_at_empty [of m q ys]
  by (auto simp: queue_at_def intro: chain_unique)

lemma queue_at_cong:
  assumes "\<And>x. x \<in> {q, q + 8, q + 16} \<union> set xs \<Longrightarrow> m x = m' x"
  shows "queue_at m q xs = queue_at m' q xs"
proof -
  have "m q = m' q" "m (q + 8) = m' (q + 8)" "m (q + 16) = m' (q + 16)" using assms by auto
  moreover have "chain m p xs = chain m' p xs" for p by (rule path_cong) (use assms in auto)
  ultimately show ?thesis by (simp add: queue_at_def)
qed

lemma queue_init_at: "queue_at (queue_init m q) q []"
  by (simp add: queue_at_def queue_init_def)

lemma queue_peek_at: "queue_at m q xs \<Longrightarrow> queue_peek m q = (case xs of [] \<Rightarrow> 0 | x # _ \<Rightarrow> x)"
  using queue_at_empty [of m q xs] by (auto simp: queue_peek_def queue_at_def split: list.splits)

text \<open>Linking a node behind the last one.\<close>

lemma chain_snoc:
  assumes "chain m p xs" and "xs \<noteq> []" and "distinct xs" and "x \<notin> set xs" and "x \<noteq> 0"
  shows "chain (m(last xs := x, x := 0)) p (xs @ [x])"
proof -
  obtain ys y where xs: "xs = ys @ [y]" using assms(2) by (metis append_butlast_last_id)
  with assms have "path m p ys y" and "x \<notin> set ys" "y \<notin> set ys" "x \<noteq> y" "y \<noteq> 0"
    by (auto simp: path_append)
  then show ?thesis using assms(5) by (simp add: xs path_append)
qed

lemma queue_enqueue_at:
  assumes q: "queue_at m q xs" and x: "queue_fits q x" "x \<notin> set xs"
  shows "queue_at (queue_enqueue m q x) q (xs @ [x])"
proof (cases "xs = []")
  case True
  then have "m q = 0" using queue_at_empty [OF q] by simp
  with True x show ?thesis by (auto simp: queue_enqueue_def Let_def queue_at_def queue_fits_def)
next
  case False
  then have nz: "m q \<noteq> 0" using queue_at_empty [OF q] by simp
  have last: "last xs \<in> set xs" "m (q + 16) = last xs" using False q by (simp_all add: queue_at_def)
  have sep: "last xs \<noteq> q" "last xs \<noteq> q + 8" "last xs \<noteq> q + 16" "x \<noteq> q" "x \<noteq> q + 8" "x \<noteq> q + 16"
    "last xs \<noteq> x" "x \<noteq> 0"
    using last(1) q x by (auto simp: queue_at_def queue_fits_def)
  have "chain (m(last xs := x, x := 0)) (m (q + 8)) (xs @ [x])"
    using q False x sep by (intro chain_snoc) (simp_all add: queue_at_def)
  moreover have "queue_enqueue m q x = (m(last xs := x, x := 0))(q + 16 := x, q := m q + 1)"
    using nz sep last by (simp add: queue_enqueue_def Let_def fun_upd_twist)
  ultimately show ?thesis
    using q x sep False by (auto simp: queue_at_def)
qed

lemma queue_dequeue_Nil: "queue_at m q [] \<Longrightarrow> queue_dequeue m q = (0, m)"
  using queue_at_empty [of m q "[]"] by (simp add: queue_dequeue_def)

lemma queue_dequeue_Cons:
  assumes q: "queue_at m q (x # xs)"
  shows "fst (queue_dequeue m q) = x" and "queue_at (snd (queue_dequeue m q)) q xs"
  using assms queue_at_empty [OF q]
  by (auto simp: queue_at_def queue_dequeue_def Let_def)

text \<open>Which cells the operations write.\<close>

lemma queue_enqueue_other:
  "a \<notin> {q, q + 8, q + 16, x, m (q + 16)} \<Longrightarrow> queue_fits q x \<Longrightarrow> queue_enqueue m q x a = m a"
  by (auto simp: queue_enqueue_def Let_def queue_fits_def)

lemma queue_dequeue_other: "a \<noteq> q \<Longrightarrow> a \<noteq> q + 8 \<Longrightarrow> snd (queue_dequeue m q) a = m a"
  by (simp add: queue_dequeue_def Let_def)

interpretation qu: fifo "\<lambda>m. queue_at m q" "\<lambda>m. queue_dequeue m q" "queue_fits q"
    "\<lambda>m. queue_enqueue m q" "\<lambda>m. queue_peek m q" for q
  by unfold_locales
    (auto intro: queue_at_unique queue_at_distinct queue_enqueue_at queue_dequeue_Cons
      simp: queue_dequeue_Nil queue_peek_at)

section \<open>Priority insertion\<close>

text \<open>The scan over the data of the queued nodes: how many compare below the new one.\<close>

fun scan_list :: "('p \<Rightarrow> addr \<Rightarrow> addr \<Rightarrow> int \<times> 'p) \<Rightarrow> addr \<Rightarrow> addr list \<Rightarrow> 'p \<Rightarrow> nat \<times> 'p" where
  "scan_list cmp d [] p = (0, p)"
| "scan_list cmp d (e # es) p =
     (case cmp p d e of (c, p') \<Rightarrow>
      if c > 0 then (case scan_list cmp d es p' of (i, p'') \<Rightarrow> (Suc i, p'')) else (0, p'))"

definition node_data :: "mem \<Rightarrow> addr list \<Rightarrow> addr list" where
  "node_data m xs = map (\<lambda>n. m (n + 8)) xs"

lemma scan_list_le: "fst (scan_list cmp d ds p) \<le> length ds"
  by (induction ds arbitrary: p) (auto split: prod.splits dest: eq_fst_iff [THEN iffD1] simp: split_beta)

lemma prio_scan_chain:
  "chain m a xs \<Longrightarrow> prio_scan cmp m d a p =
     (case scan_list cmp d (node_data m xs) p of
        (i, p') \<Rightarrow> Some (if i < length xs then xs ! i else 0, p'))"
proof (induction xs arbitrary: a p)
  case Nil
  then show ?case by (simp add: prio_scan.simps node_data_def)
next
  case (Cons x xs)
  then have a: "a = x" "x \<noteq> 0" "chain m (m x) xs" by simp_all
  obtain c p' where c: "cmp p d (m (x + 8)) = (c, p')" by (cases "cmp p d (m (x + 8))")
  have "prio_scan cmp m d a p =
      (if c > 0 then prio_scan cmp m d (m x) p' else Some (x, p'))"
    by (subst prio_scan.simps) (simp add: a c)
  moreover have "prio_scan cmp m d (m x) p' =
     (case scan_list cmp d (node_data m xs) p' of
        (i, p') \<Rightarrow> Some (if i < length xs then xs ! i else 0, p'))"
    by (rule Cons.IH [OF a(3)])
  ultimately show ?case by (simp add: node_data_def c split_beta)
qed

text \<open>On a well-formed queue the insertion always ends.\<close>

lemma queue_enqueue_prio_total:
  assumes q: "queue_at m q xs"
  shows "\<exists>r. queue_enqueue_prio cmp m p q x = Some r"
proof (cases "xs = []")
  case True
  then show ?thesis using queue_at_empty [OF q] by (simp add: queue_enqueue_prio_def)
next
  case False
  then have "chain m (m (q + 8)) xs" using q by (simp add: queue_at_def)
  then show ?thesis
    by (simp add: queue_enqueue_prio_def prio_scan_chain split_beta)
qed

text \<open>The insertion, with the position found by the scan.\<close>

lemma queue_enqueue_prio_eq:
  assumes q: "queue_at m q xs" "xs \<noteq> []"
    and scan: "scan_list cmp (m (x + 8)) (node_data m xs) p = (i, p')"
  shows "queue_enqueue_prio cmp m p q x = Some
     (let m = (if i = length xs
               then let m = m(x := 0); m = m(m (q + 16) := x) in m(q + 16 := x)
               else if i = 0 then let m = m(x := m (q + 8)) in m(q + 8 := x)
               else let m = m(x := m (xs ! i)) in m(xs ! i := x))
      in m(q := m q + 1), p')"
proof -
  have ch: "chain m (m (q + 8)) xs" and nz: "m q \<noteq> 0" and hd: "m (q + 8) = hd xs"
    using q queue_at_empty [OF q(1)] by (auto simp: queue_at_def neq_Nil_conv)
  have i: "i \<le> length xs" using scan_list_le [of cmp "m (x + 8)" "node_data m xs" p] scan
    by (simp add: node_data_def)
  have ne0: "i < length xs \<Longrightarrow> xs ! i \<noteq> 0"
    using path_nonzero [OF ch] by (metis nth_mem)
  have eq_hd: "i < length xs \<Longrightarrow> xs ! i = hd xs \<longleftrightarrow> i = 0"
    using q by (metis hd_conv_nth length_greater_0_conv nth_eq_iff_index_eq queue_at_distinct)
  have ps: "prio_scan cmp m (m (x + 8)) (m (q + 8)) p
      = Some (if i < length xs then xs ! i else 0, p')"
    by (simp only: prio_scan_chain [OF ch] scan prod.case)
  show ?thesis
  proof (cases "i = length xs")
    case True
    with ps show ?thesis by (simp add: queue_enqueue_prio_def nz)
  next
    case False
    with i have "i < length xs" by simp
    with ps ne0 eq_hd False show ?thesis by (simp add: queue_enqueue_prio_def nz hd)
  qed
qed

lemma queue_enqueue_prio_front:
  assumes q: "queue_at m q xs" and x: "queue_fits q x" "x \<notin> set xs"
    and scan: "scan_list cmp (m (x + 8)) (node_data m xs) p = (0, p')"
  shows "\<exists>m'. queue_enqueue_prio cmp m p q x = Some (m', p') \<and> queue_at m' q (x # xs)"
proof (cases "xs = []")
  case True
  with assms queue_enqueue_at [OF q x] queue_at_empty [OF q] show ?thesis
    by (simp add: queue_enqueue_prio_def node_data_def)
next
  case False
  then show ?thesis
    using q x by (auto simp: queue_enqueue_prio_eq [OF q False scan] Let_def queue_at_def queue_fits_def)
qed

lemma queue_enqueue_prio_back_eq:
  assumes q: "queue_at m q xs" and x: "queue_fits q x"
    and scan: "scan_list cmp (m (x + 8)) (node_data m xs) p = (length xs, p')"
  shows "queue_enqueue_prio cmp m p q x = Some (queue_enqueue m q x, p')"
proof (cases "xs = []")
  case True
  with assms queue_at_empty [OF q] show ?thesis
    by (simp add: queue_enqueue_prio_def node_data_def)
next
  case False
  have "m q \<noteq> 0" using queue_at_empty [OF q] False by simp
  moreover have "x \<noteq> q" "x \<noteq> q + 16" using x by (auto simp: queue_fits_def)
  ultimately show ?thesis
    using q False by (simp add: queue_enqueue_prio_eq [OF q False scan] queue_enqueue_def Let_def)
qed

lemma queue_enqueue_prio_back:
  assumes q: "queue_at m q xs" and x: "queue_fits q x" "x \<notin> set xs"
    and scan: "scan_list cmp (m (x + 8)) (node_data m xs) p = (length xs, p')"
  shows "\<exists>m'. queue_enqueue_prio cmp m p q x = Some (m', p') \<and> queue_at m' q (xs @ [x])"
  using queue_enqueue_prio_back_eq [OF q x(1) scan] queue_enqueue_at [OF q x] by simp

text \<open>
  Between the ends the node is linked behind the first node that does not compare below it,
  where it belongs in front of that node.
\<close>

lemma chain_insert_after:
  assumes "chain m p xs" and "distinct xs" and "i < length xs" and "x \<notin> set xs" and "x \<noteq> 0"
  shows "chain (m(x := m (xs ! i), xs ! i := x)) p (take (Suc i) xs @ x # drop (Suc i) xs)"
proof -
  let ?y = "xs ! i"
  have xs: "xs = take i xs @ ?y # drop (Suc i) xs" using assms(3) by (rule id_take_nth_drop)
  then have d: "?y \<notin> set (take i xs)" "?y \<notin> set (drop (Suc i) xs)"
    using assms(2) by (metis distinct.simps(2) distinct_append disjoint_iff list.set_intros(1))+
  have x: "x \<notin> set (take i xs)" "x \<notin> set (drop (Suc i) xs)" "x \<noteq> ?y"
    using assms(3,4) by (auto dest: in_set_takeD in_set_dropD)
  have "path m p (take i xs) ?y" and "?y \<noteq> 0" and "chain m (m ?y) (drop (Suc i) xs)"
    using assms(1) by (subst (asm) xs; simp add: path_append)+
  with d x assms(5) show ?thesis
    by (simp add: take_Suc_conv_app_nth [OF assms(3)] path_append)
qed

lemma queue_enqueue_prio_inner:
  assumes q: "queue_at m q xs" and x: "queue_fits q x" "x \<notin> set xs"
    and scan: "scan_list cmp (m (x + 8)) (node_data m xs) p = (i, p')"
    and i: "0 < i" "i < length xs"
  shows "\<exists>m'. queue_enqueue_prio cmp m p q x = Some (m', p') \<and>
     m' q = of_nat (Suc (length xs)) \<and> m' (q + 16) = last xs \<and>
     chain m' (m' (q + 8)) (take (Suc i) xs @ x # drop (Suc i) xs)"
proof -
  have ne: "xs \<noteq> []" using i by auto
  have y: "xs ! i \<in> set xs" using i by simp
  then have sep: "xs ! i \<notin> {q, q + 8, q + 16}" "x \<notin> {q, q + 8, q + 16}" "x \<noteq> 0"
    using q x by (auto simp: queue_at_def queue_fits_def)
  have "chain (m(x := m (xs ! i), xs ! i := x)) (m (q + 8)) (take (Suc i) xs @ x # drop (Suc i) xs)"
    using q ne x i sep by (intro chain_insert_after) (simp_all add: queue_at_def)
  moreover have "q \<notin> set (take (Suc i) xs @ x # drop (Suc i) xs)"
    using q sep by (auto simp: queue_at_def dest: in_set_takeD in_set_dropD)
  ultimately show ?thesis
    using q ne i sep
    by (simp add: queue_enqueue_prio_eq [OF q ne scan] Let_def) (auto simp: queue_at_def)
qed

lemma queue_enqueue_stale_tail:
  assumes ch: "chain m (m (q + 8)) (xs @ [x])" and tail: "m (q + 16) = last xs" and ne: "xs \<noteq> []"
    and size: "m q \<noteq> 0" and d: "distinct (xs @ [x, y])"
    and sep: "{0, q, q + 8, q + 16} \<inter> set (xs @ [x, y]) = {}"
  shows "chain (queue_enqueue m q y) (queue_enqueue m q y (q + 8)) (xs @ [y])"
    and "queue_enqueue m q y q = m q + 1"
proof -
  obtain ys z where xs: "xs = ys @ [z]" using ne by (metis append_butlast_last_id)
  have eq: "queue_enqueue m q y = (m(z := y, y := 0))(q + 16 := y, q := m q + 1)"
    using size tail sep d xs by (auto simp: queue_enqueue_def Let_def fun_upd_twist)
  show "queue_enqueue m q y q = m q + 1" by (simp add: eq)
  have "path m (m (q + 8)) ys z" using ch by (auto simp: xs path_append)
  then have "chain (m(z := y, y := 0)) (m (q + 8)) (xs @ [y])"
    using d sep by (auto simp: xs path_append)
  moreover have "q \<notin> set (xs @ [y])" "q + 16 \<notin> set (xs @ [y])" "q + 8 \<notin> {q, q + 16, z, y}"
    using sep xs by auto
  ultimately show "chain (queue_enqueue m q y) (queue_enqueue m q y (q + 8)) (xs @ [y])"
    by (simp add: eq)
qed

section \<open>Properties\<close>

text \<open>C32. A queue is first-in first-out under every interleaving of its operations: from
  \<open>queue_init\<close> on, an arbitrary legal sequence of \<open>queue_enqueue\<close> and \<open>queue_dequeue\<close> (a node
  may come back after it was dequeued, and an empty queue may be asked) returns what the
  same sequence returns on a list, NULL where the list is empty, and ends in a well-formed
  queue of the nodes left, whose \<open>queue_size\<close> and \<open>queue_peek\<close> are the list's.\<close>

theorem queue_fifo_order:
  assumes "legal_run (queue_fits q) ops []"
  shows "fst (queue_run q ops (queue_init m q)) = fst (list_run ops [])
    \<and> queue_at (snd (queue_run q ops (queue_init m q))) q (snd (list_run ops []))
    \<and> unat (queue_size (snd (queue_run q ops (queue_init m q))) q) = length (snd (list_run ops []))
    \<and> queue_peek (snd (queue_run q ops (queue_init m q))) q
        = (case snd (list_run ops []) of [] \<Rightarrow> 0 | x # _ \<Rightarrow> x)"
proof -
  note run = qu.run_ops_refines_list [OF queue_init_at [of m q] assms, folded queue_run_def]
  with queue_at_size queue_peek_at show ?thesis by blast
qed

theorem queue_fifo_order_witness:
  "fst (queue_run 8 [Dequeue, Enqueue 96, Enqueue 64, Dequeue, Enqueue 32, Enqueue 96, Dequeue]
      (queue_init (\<lambda>_. 7) 8)) = [0, 96, 64]
    \<and> queue_at (snd (queue_run 8 [Dequeue, Enqueue 96, Enqueue 64, Dequeue, Enqueue 32, Enqueue 96, Dequeue]
      (queue_init (\<lambda>_. 7) 8))) 8 [32, 96]"
  using queue_fifo_order [of 8 "[Dequeue, Enqueue 96, Enqueue 64, Dequeue, Enqueue 32, Enqueue 96, Dequeue]" "\<lambda>_. 7"]
  by (simp add: queue_fits_def)

text \<open>The priority insertion never loops on a well-formed queue, and where the new
  node belongs in front of all queued nodes or behind all of them (its position \<open>i\<close> in the
  scan is an end) it is placed there and the queue stays well-formed.\<close>

lemma queue_enqueue_prio_at_ends:
  assumes q: "queue_at m q xs" and x: "queue_fits q x" "x \<notin> set xs"
    and scan: "scan_list cmp (m (x + 8)) (node_data m xs) p = (i, p')"
    and i: "i = 0 \<or> i = length xs"
  shows "\<exists>m'. queue_enqueue_prio cmp m p q x = Some (m', p') \<and>
    queue_at m' q (take i xs @ x # drop i xs)"
  using i
proof
  assume "i = 0"
  with queue_enqueue_prio_front [OF q x] scan show ?thesis by simp
next
  assume "i = length xs"
  with queue_enqueue_prio_back [OF q x] scan show ?thesis by simp
qed

text \<open>Concrete queues for the witnesses: nodes at 100, 200 and 300 with the data 5, 9, 7, at 8
  a queue that holds the first two, and a comparison of the data as numbers.\<close>

definition sample_cmp :: "unit \<Rightarrow> addr \<Rightarrow> addr \<Rightarrow> int \<times> unit" where
  "sample_cmp u d e = (if d > e then 1 else -1, u)"

definition sample_mem :: "addr \<Rightarrow> mem" where
  "sample_mem d = (\<lambda>_. 0)(108 := 5, 208 := 9, 308 := d, 8 := 2, 16 := 100, 24 := 200, 100 := 200)"

lemma sample_mem_queue: "queue_at (sample_mem d) 8 [100, 200]"
  by (simp add: queue_at_def sample_mem_def)

lemma queue_enqueue_prio_at_ends_witness:
  "\<exists>m'. queue_enqueue_prio sample_cmp (sample_mem 11) () 8 300 = Some (m', ()) \<and>
     queue_at m' 8 [100, 200, 300]"
  using queue_enqueue_prio_at_ends [OF sample_mem_queue [of 11], where x = 300 and cmp = sample_cmp
      and p = "()" and i = 2 and p' = "()"]
  by (simp add: queue_fits_def node_data_def sample_cmp_def sample_mem_def)

text \<open>C37. Where the new node belongs directly in front of the last of several nodes, the
  insertion links it behind that node and leaves the tail pointer on the old last node:
  the next enqueued node \<open>y\<close> overwrites the link, so the inserted node is no longer on the
  list, while the size counts both.\<close>

theorem queue_enqueue_prio_loses_node:
  assumes q: "queue_at m q xs" and fits: "queue_fits q x" "queue_fits q y"
    and d: "distinct (xs @ [x, y])"
    and scan: "scan_list cmp (m (x + 8)) (node_data m xs) p = (length xs - 1, p')"
    and len: "2 \<le> length xs" "length xs < 2 ^ 64 - 2"
  shows "\<exists>m'. queue_enqueue_prio cmp m p q x = Some (m', p') \<and>
    chain (queue_enqueue m' q y) (queue_enqueue m' q y (q + 8)) (xs @ [y]) \<and>
    unat (queue_size (queue_enqueue m' q y) q) = length xs + 2"
proof -
  have i: "0 < length xs - 1" "length xs - 1 < length xs" "Suc (length xs - 1) = length xs"
    and ne: "xs \<noteq> []" and "x \<notin> set xs"
    using len d by auto
  from queue_enqueue_prio_inner [OF q fits(1) this(5) scan i(1,2)] i(3)
  obtain m' where m': "queue_enqueue_prio cmp m p q x = Some (m', p')"
    "m' q = of_nat (Suc (length xs))" "m' (q + 16) = last xs"
    "chain m' (m' (q + 8)) (xs @ [x])"
    by auto
  have "m' q \<noteq> 0" using m'(2) len by (simp del: of_nat_Suc)
  moreover have "{0, q, q + 8, q + 16} \<inter> set (xs @ [x, y]) = {}"
    using q fits by (auto simp: queue_at_def queue_fits_def)
  ultimately have "chain (queue_enqueue m' q y) (queue_enqueue m' q y (q + 8)) (xs @ [y])"
    and sz: "queue_enqueue m' q y q = m' q + 1"
    using queue_enqueue_stale_tail [OF m'(4,3) ne _ d] by auto
  moreover have "queue_enqueue m' q y q = of_nat (length xs + 2)" using sz m'(2) by simp
  then have "unat (queue_size (queue_enqueue m' q y) q) = length xs + 2"
    unfolding queue_size_def using len unat_of_nat_u64 [of "length xs + 2"] by presburger
  ultimately show ?thesis using m'(1) by blast
qed

theorem queue_enqueue_prio_loses_node_witness:
  "\<exists>m'. queue_enqueue_prio sample_cmp (sample_mem 7) () 8 300 = Some (m', ()) \<and>
    chain (queue_enqueue m' 8 400) (queue_enqueue m' 8 400 16) [100, 200, 400] \<and>
    unat (queue_size (queue_enqueue m' 8 400) 8) = length [100, 200 :: addr] + 2"
  using queue_enqueue_prio_loses_node [OF sample_mem_queue [of 7], where x = 300 and y = 400
      and cmp = sample_cmp and p = "()" and p' = "()"]
  by (simp add: queue_fits_def node_data_def sample_cmp_def sample_mem_def)

end
