(* ===== verification/LinkedList.thy ===== *)
theory LinkedList
  imports Prelude
begin

text \<open>
  \<open>kernel/data_structures/linkedlist.c\<close> and \<open>linkedlist.h\<close>: the doubly linked list of the PCI
  and sound drivers.  Lists are embedded in other structures and copied by value, so a list is a
  record; its nodes live in a heap of \<open>list_element_t\<close>.  The two function pointers of a list are
  arguments of the operations that call them: \<open>ram_alloc\<close> works on a state of its own, and
  \<open>destroy\<close> is \<open>None\<close> for NULL.  The abstraction of a list is the list of its nodes.
\<close>

section \<open>Operations\<close>

record list_element =
  list_data :: u64
  list_next :: addr
  list_prev :: addr

type_synonym nodes = "addr \<Rightarrow> list_element"

record linked_list =
  list_size :: u32
  list_head :: addr
  list_tail :: addr

abbreviation set_next :: "addr \<Rightarrow> addr \<Rightarrow> nodes \<Rightarrow> nodes" where
  "set_next p v h \<equiv> h(p := (h p) \<lparr> list_next := v \<rparr>)"

abbreviation set_prev :: "addr \<Rightarrow> addr \<Rightarrow> nodes \<Rightarrow> nodes" where
  "set_prev p v h \<equiv> h(p := (h p) \<lparr> list_prev := v \<rparr>)"

definition list_init :: linked_list where
  "list_init = \<lparr> list_size = 0, list_head = 0, list_tail = 0 \<rparr>"

text \<open>The two ways to link a new node: at the head, and after an element.\<close>

definition insert_head :: "addr \<Rightarrow> linked_list \<Rightarrow> nodes \<Rightarrow> linked_list \<times> nodes" where
  "insert_head new_element l h =
     (let l = (if list_size l = 0 then l \<lparr> list_tail := new_element \<rparr> else l);
          h = (if list_head l \<noteq> 0 then set_prev (list_head l) new_element h else h);
          h = set_next new_element (list_head l) h;
          l = l \<lparr> list_head := new_element \<rparr>;
          h = set_prev new_element 0 h
      in (l, h))"

definition insert_after :: "addr \<Rightarrow> addr \<Rightarrow> linked_list \<Rightarrow> nodes \<Rightarrow> (linked_list \<times> nodes) res" where
  "insert_after element new_element l h =
     (let l = (if list_next (h element) = 0 then l \<lparr> list_tail := new_element \<rparr> else l);
          h = set_prev new_element element h
      in if list_next (h element) = 0 then Inl (Page_fault 16)
         else let h = set_prev (list_next (h element)) new_element h;
                  h = set_next new_element (list_next (h element)) h;
                  h = set_next element new_element h
              in Inr (l, h))"

definition list_insert_next ::
  "(u64 \<Rightarrow> 's \<Rightarrow> (addr \<times> 's) res) \<Rightarrow> linked_list \<Rightarrow> addr \<Rightarrow> u64 \<Rightarrow> nodes \<Rightarrow> 's \<Rightarrow>
    (int \<times> linked_list \<times> nodes \<times> 's) res" where
  "list_insert_next ram_alloc l element dat h s =
     and_then (ram_alloc 24 s) (\<lambda>(new_element, s).
       if new_element = 0 then Inr (-1, l, h, s)
       else let h = h(new_element := (h new_element) \<lparr> list_data := dat \<rparr>) in
         and_then (if element = 0 then Inr (insert_head new_element l h)
                   else insert_after element new_element l h) (\<lambda>(l, h).
         Inr (0, l \<lparr> list_size := list_size l + 1 \<rparr>, h, s)))"

text \<open>A call through the pointer \<open>destroy\<close>.\<close>

definition call_destroy :: "(u64 \<Rightarrow> 's \<Rightarrow> 's res) option \<Rightarrow> u64 \<Rightarrow> 's \<Rightarrow> 's res" where
  "call_destroy destroy p s = (case destroy of None \<Rightarrow> Inl (Page_fault 0) | Some f \<Rightarrow> f p s)"

text \<open>The result carries the value stored through \<open>data\<close>, which is 0 when nothing was stored.\<close>

definition list_remove_next ::
  "(u64 \<Rightarrow> 's \<Rightarrow> 's res) option \<Rightarrow> linked_list \<Rightarrow> addr \<Rightarrow> nodes \<Rightarrow> 's \<Rightarrow>
    (int \<times> u64 \<times> linked_list \<times> nodes \<times> 's) res" where
  "list_remove_next destroy l element h s =
     (if list_size l = 0 then Inr (-1, 0, l, h, s)
      else if element = 0 then
        if list_head l = 0 then Inl (Page_fault 0)
        else let dat = list_data (h (list_head l));
                 old_element = list_head l;
                 l = l \<lparr> list_head := list_next (h (list_head l)) \<rparr>;
                 l = (if list_size l = 1 then l \<lparr> list_tail := 0 \<rparr> else l)
             in and_then (call_destroy destroy old_element s) (\<lambda>s.
                  Inr (0, dat, l \<lparr> list_size := list_size l - 1 \<rparr>, h, s))
      else if list_next (h element) = 0 then Inr (-1, 0, l, h, s)
      else let dat = list_data (h (list_next (h element)));
               old_element = list_next (h element);
               h = set_next element (list_next (h (list_next (h element)))) h;
               l = (if list_next (h element) = 0 then l \<lparr> list_tail := element \<rparr> else l)
           in and_then (call_destroy destroy old_element s) (\<lambda>s.
                Inr (0, dat, l \<lparr> list_size := list_size l - 1 \<rparr>, h, s)))"

partial_function (option) destroy_all ::
  "(u64 \<Rightarrow> 's \<Rightarrow> 's res) option \<Rightarrow> linked_list \<Rightarrow> nodes \<Rightarrow> 's \<Rightarrow> (linked_list \<times> nodes \<times> 's) res option" where
  "destroy_all destroy l h s =
     (if 0 <s list_size l
      then (case list_remove_next destroy l 0 h s of
              Inl e \<Rightarrow> Some (Inl e)
            | Inr (r, dat, l, h, s) \<Rightarrow>
                (case (if r = 0 \<and> destroy \<noteq> None then call_destroy destroy dat s else Inr s) of
                   Inl e \<Rightarrow> Some (Inl e)
                 | Inr s \<Rightarrow> destroy_all destroy l h s))
      else Some (Inr (l, h, s)))"

definition list_destroy ::
  "(u64 \<Rightarrow> 's \<Rightarrow> 's res) option \<Rightarrow> linked_list \<Rightarrow> nodes \<Rightarrow> 's \<Rightarrow> (linked_list \<times> nodes \<times> 's) res" where
  "list_destroy destroy l h s =
     and_then (returned_by (destroy_all destroy l h s)) (\<lambda>r.
     and_then r (\<lambda>(l, h, s). Inr (list_init, h, s)))"

text \<open>
  The drivers walk lists with one loop, from \<open>list_head\<close> along \<open>list_next\<close> until NULL: to find
  the first element with a property, and to do something for every element.
\<close>

partial_function (option) find_node :: "(u64 \<Rightarrow> bool) \<Rightarrow> nodes \<Rightarrow> addr \<Rightarrow> u64 option" where
  "find_node found h node =
     (if node = 0 then Some 0
      else if found (list_data (h node)) then Some (list_data (h node))
      else find_node found h (list_next (h node)))"

partial_function (option) each_node ::
  "(u64 \<Rightarrow> 's \<Rightarrow> 's res) \<Rightarrow> nodes \<Rightarrow> addr \<Rightarrow> 's \<Rightarrow> 's res option" where
  "each_node f h node s =
     (if node = 0 then Some (Inr s)
      else (case f (list_data (h node)) s of
              Inl e \<Rightarrow> Some (Inl e)
            | Inr s \<Rightarrow> each_node f h (list_next (h node)) s))"

section \<open>The nodes of a list\<close>

abbreviation links :: "nodes \<Rightarrow> addr \<Rightarrow> addr list \<Rightarrow> bool" where
  "links h p xs \<equiv> chain (\<lambda>x. list_next (h x)) p xs"

primrec back_links :: "nodes \<Rightarrow> addr \<Rightarrow> addr list \<Rightarrow> bool" where
  "back_links h p [] \<longleftrightarrow> True"
| "back_links h p (x # xs) \<longleftrightarrow> list_prev (h x) = p \<and> back_links h x xs"

definition list_at :: "nodes \<Rightarrow> linked_list \<Rightarrow> addr list \<Rightarrow> bool" where
  "list_at h l xs \<longleftrightarrow>
     links h (list_head l) xs \<and> back_links h 0 xs \<and>
     list_tail l = (if xs = [] then 0 else last xs) \<and>
     list_size l = of_nat (length xs) \<and> length xs < 2 ^ 31"

definition list_contents :: "nodes \<Rightarrow> addr list \<Rightarrow> u64 list" where
  "list_contents h xs = map (\<lambda>x. list_data (h x)) xs"

lemma list_at_init [simp]: "list_at h list_init xs \<longleftrightarrow> xs = []"
  by (auto simp: list_at_def list_init_def)

lemma list_at_distinct: "list_at h l xs \<Longrightarrow> distinct xs"
  by (auto simp: list_at_def intro: chain_distinct)

lemma list_at_nonzero: "list_at h l xs \<Longrightarrow> 0 \<notin> set xs"
  by (auto simp: list_at_def dest: path_nonzero)

lemma list_at_unique: "list_at h l xs \<Longrightarrow> list_at h l ys \<Longrightarrow> xs = ys"
  by (auto simp: list_at_def intro: chain_unique)

lemma of_nat_u32_eq_0: "n < 2 ^ 31 \<Longrightarrow> (of_nat n :: u32) = 0 \<longleftrightarrow> n = 0"
  by (simp add: word_unat_eq_iff unsigned_of_nat take_bit_nat_eq_self)

lemma list_at_size: "list_at h l xs \<Longrightarrow> list_size l = 0 \<longleftrightarrow> xs = []"
  by (auto simp: list_at_def of_nat_u32_eq_0)

lemma node_links_cong:
  "(\<And>x. x \<in> set xs \<Longrightarrow> list_next (h x) = list_next (h' x)) \<Longrightarrow> links h p xs = links h' p xs"
  by (rule path_cong) simp

lemma back_links_cong:
  "(\<And>x. x \<in> set xs \<Longrightarrow> list_prev (h x) = list_prev (h' x)) \<Longrightarrow> back_links h p xs = back_links h' p xs"
  by (induction xs arbitrary: p) auto

lemma back_links_append:
  "back_links h p (xs @ ys) \<longleftrightarrow> back_links h p xs \<and> back_links h (if xs = [] then p else last xs) ys"
  by (induction xs arbitrary: p) auto

lemma list_contents_cong:
  "(\<And>x. x \<in> set xs \<Longrightarrow> list_data (h x) = list_data (h' x)) \<Longrightarrow> list_contents h xs = list_contents h' xs"
  by (simp add: list_contents_def)

lemma list_contents_simps [simp]:
  "list_contents h [] = []"
  "list_contents h (x # xs) = list_data (h x) # list_contents h xs"
  "list_contents h (xs @ ys) = list_contents h xs @ list_contents h ys"
  by (simp_all add: list_contents_def)

section \<open>Insertion\<close>

lemma insert_head_list_at:
  assumes l: "list_at h l xs" and new: "x \<notin> set xs" "x \<noteq> 0" and len: "Suc (length xs) < 2 ^ 31"
    and ins: "insert_head x l (h(x := (h x) \<lparr> list_data := d \<rparr>)) = (l', h')"
  shows "list_at h' (l' \<lparr> list_size := list_size l' + 1 \<rparr>) (x # xs)"
    and "list_contents h' (x # xs) = d # list_contents h xs"
proof -
  have z: "list_size l = 0 \<longleftrightarrow> xs = []" by (rule list_at_size [OF l])
  have dist: "distinct xs" by (rule list_at_distinct [OF l])
  have hd: "list_head l = 0 \<longleftrightarrow> xs = []" "xs \<noteq> [] \<Longrightarrow> list_head l = hd xs"
    using l by (cases xs; simp add: list_at_def)+
  have nx: "list_next (h' y) = list_next (h y)" if "y \<in> set xs" for y
    using ins that new by (auto simp: insert_head_def Let_def split: if_splits)
  have dt: "list_data (h' y) = list_data (h y)" if "y \<in> set xs" for y
    using ins that new by (auto simp: insert_head_def Let_def split: if_splits)
  have x: "list_next (h' x) = list_head l" "list_prev (h' x) = 0" "list_data (h' x) = d"
    "list_head l' = x" "list_size l' = list_size l"
    "list_tail l' = (if xs = [] then x else list_tail l)"
    using ins z by (auto simp: insert_head_def Let_def split: if_splits)
  have bl: "back_links h' x xs"
  proof (cases xs)
    case Nil
    then show ?thesis by simp
  next
    case (Cons y ys)
    have "list_prev (h' y) = x" using ins hd Cons new by (auto simp: insert_head_def Let_def split: if_splits)
    moreover have "back_links h' y ys = back_links h y ys"
      using ins hd Cons new dist
      by (intro back_links_cong) (auto simp: insert_head_def Let_def split: if_splits)
    ultimately show ?thesis using l Cons by (simp add: list_at_def)
  qed
  have "links h' (list_head l) xs" using l nx by (simp add: list_at_def cong: node_links_cong)
  then show "list_at h' (l' \<lparr> list_size := list_size l' + 1 \<rparr>) (x # xs)"
    using l x bl new len by (auto simp: list_at_def)
  show "list_contents h' (x # xs) = d # list_contents h xs"
    using x dt by (simp add: list_contents_def)
qed

lemma insert_after_list_at:
  assumes l: "list_at h l (as @ e # b # bs)" and new: "x \<notin> set (as @ e # b # bs)" "x \<noteq> 0"
    and len: "length as + length bs + 3 < 2 ^ 31"
  shows "\<exists>l' h'. insert_after e x l (h(x := (h x) \<lparr> list_data := d \<rparr>)) = Inr (l', h') \<and>
    list_at h' (l' \<lparr> list_size := list_size l' + 1 \<rparr>) (as @ e # x # b # bs) \<and>
    list_contents h' (as @ e # x # b # bs) = list_contents h (as @ [e]) @ d # list_contents h (b # bs)"
proof -
  have dist: "distinct (as @ e # b # bs)" by (rule list_at_distinct [OF l])
  have eb: "list_next (h e) = b" "b \<noteq> 0" using l by (auto simp: list_at_def path_append)
  define h' where "h' = set_next e x (set_next x b (set_prev b x (set_prev x e
      (h(x := (h x) \<lparr> list_data := d \<rparr>)))))"
  have ne: "x \<noteq> e" "x \<noteq> b" "e \<noteq> b" using new dist by auto
  have ins: "insert_after e x l (h(x := (h x) \<lparr> list_data := d \<rparr>)) = Inr (l, h')"
    using eb ne by (simp add: insert_after_def Let_def h'_def)
  have nx: "list_next (h' y) = (if y = e then x else if y = x then b else list_next (h y))" for y
    using ne by (simp add: h'_def)
  have pv: "list_prev (h' y) = (if y = b then x else if y = x then e else list_prev (h y))" for y
    using ne by (simp add: h'_def)
  have dt: "list_data (h' y) = (if y = x then d else list_data (h y))" for y
    using ne by (simp add: h'_def)
  have f: "path (\<lambda>y. list_next (h' y)) p as q = path (\<lambda>y. list_next (h y)) p as q" for p q
    using new dist by (intro path_cong) (auto simp: nx)
  have g: "links h' b (b # bs) = links h b (b # bs)"
    using new dist by (intro node_links_cong) (auto simp: nx)
  have pf: "back_links h' p (as @ [e]) = back_links h p (as @ [e])"
    "back_links h' b bs = back_links h b bs" for p
    using new dist by (intro back_links_cong; auto simp: pv)+
  have "links h' (list_head l) (as @ e # x # b # bs)"
    using l f g new(2) ne by (auto simp: list_at_def path_append nx)
  moreover have "back_links h' 0 (as @ e # x # b # bs)"
    using l pf(1) [of 0] pf(2) by (auto simp: list_at_def back_links_append pv ne)
  ultimately have "list_at h' (l \<lparr> list_size := list_size l + 1 \<rparr>) (as @ e # x # b # bs)"
    using l len by (auto simp: list_at_def)
  moreover have "list_contents h' (as @ e # x # b # bs) = list_contents h (as @ [e]) @ d # list_contents h (b # bs)"
    using new by (auto simp: list_contents_def dt)
  ultimately show ?thesis using ins by blast
qed

lemma list_insert_next_head:
  assumes "list_at h l xs" and "x \<notin> set xs" "x \<noteq> 0" and "Suc (length xs) < 2 ^ 31"
    and "ram_alloc 24 s = Inr (x, s')"
  shows "\<exists>l' h'. list_insert_next ram_alloc l 0 d h s = Inr (0, l', h', s') \<and>
    list_at h' l' (x # xs) \<and> list_contents h' (x # xs) = d # list_contents h xs"
proof -
  obtain l' h' where ins: "insert_head x l (h(x := (h x) \<lparr> list_data := d \<rparr>)) = (l', h')" by fastforce
  show ?thesis using insert_head_list_at [OF assms(1-4) ins] ins assms(3,5)
    by (simp add: list_insert_next_def Let_def)
qed

lemma list_insert_next_no_memory:
  "ram_alloc 24 s = Inr (0, s') \<Longrightarrow> list_insert_next ram_alloc l e d h s = Inr (-1, l, h, s')"
  by (simp add: list_insert_next_def)

section \<open>Removal\<close>

text \<open>Removing the head leaves a forward list, but the back link of the new head still leads to
  the node that was destroyed.\<close>

lemma list_remove_next_head:
  assumes l: "list_at h l (x # xs)" and d: "f x s = Inr s'"
  shows "\<exists>l'. list_remove_next (Some f) l 0 h s = Inr (0, list_data (h x), l', h, s') \<and>
    links h (list_head l') xs \<and> list_size l' = of_nat (length xs) \<and>
    list_tail l' = (if xs = [] then 0 else last xs) \<and> back_links h x xs"
proof -
  have nz: "list_size l \<noteq> 0" using list_at_size [OF l] by simp
  have one: "list_size l = 1 \<longleftrightarrow> xs = []"
    using l by (auto simp: list_at_def of_nat_u32_eq_0)
  show ?thesis
    using l d nz one by (auto simp: list_remove_next_def Let_def call_destroy_def list_at_def)
qed

lemma list_remove_next_without_destroy:
  assumes "list_at h l (x # xs)"
  shows "list_remove_next None l 0 h s = Inl (Page_fault 0)"
proof -
  have "list_size l \<noteq> 0" using list_at_size [OF assms] by simp
  then show ?thesis using assms by (simp add: list_remove_next_def Let_def call_destroy_def list_at_def)
qed

lemma dangling_back_link:
  assumes "list_at h l (x # y # ys)" and "f x s = Inr s'"
    and "list_remove_next (Some f) l 0 h s = Inr (r, d, l', h', s'')"
  shows "list_head l' = y \<and> list_prev (h' (list_head l')) = x \<and> \<not> list_at h' l' (y # ys)"
  using list_remove_next_head [of h l x "y # ys" f s s'] list_at_nonzero [OF assms(1)] assms
  by (auto simp: list_at_def)

section \<open>Walking a list\<close>

lemma find_node_links:
  "links h p xs \<Longrightarrow>
   find_node found h p = Some (case List.find found (list_contents h xs) of None \<Rightarrow> 0 | Some d \<Rightarrow> d)"
proof (induction xs arbitrary: p)
  case Nil
  then show ?case by (subst find_node.simps) simp
next
  case (Cons x xs)
  then show ?case by (subst find_node.simps) simp
qed

lemma each_node_links:
  "links h p xs \<Longrightarrow> each_node f h p s = Some (for_each (list_contents h xs) f s)"
proof (induction xs arbitrary: p s)
  case Nil
  then show ?case by (subst each_node.simps) simp
next
  case (Cons x xs)
  then show ?case by (subst each_node.simps) (simp split: sum.splits)
qed

section \<open>Properties\<close>

text \<open>C16. With memory for a node, inserting behind the element at position \<open>k - 1\<close> (at the head for
  NULL) puts the new value at position \<open>k\<close> of the list and keeps the links, both back links
  included; only behind the last element the code follows a NULL pointer and faults.\<close>

theorem list_insert_next_refines_list:
  assumes l: "list_at h l xs" and k: "k \<le> length xs"
    and e: "element = (if k = 0 then 0 else xs ! (k - 1))"
    and new: "ram_alloc 24 s = Inr (x, s')" "x \<noteq> 0" "x \<notin> set xs" and len: "Suc (length xs) < 2 ^ 31"
  shows "if k = 0 \<or> k < length xs
    then \<exists>l' h'. list_insert_next ram_alloc l element d h s = Inr (0, l', h', s') \<and>
      list_at h' l' (take k xs @ x # drop k xs) \<and>
      list_contents h' (take k xs @ x # drop k xs) = take k (list_contents h xs) @ d # drop k (list_contents h xs)
    else list_insert_next ram_alloc l element d h s = Inl (Page_fault 16)"
proof (cases "k = 0")
  case True
  then show ?thesis using list_insert_next_head [where ram_alloc = ram_alloc and s = s and s' = s', OF l new(3,2) len new(1)] e by simp
next
  case False
  then obtain as y bs where xs: "xs = as @ y # bs" and as: "length as = k - 1"
    using k by (metis Suc_diff_1 id_take_nth_drop Suc_le_lessD length_take min.absorb4 neq0_conv)
  have "xs ! (k - 1) = y" using xs as by (metis nth_append_length)
  then have el: "element = y" "y \<noteq> 0" using e False xs list_at_nonzero [OF l] by auto
  show ?thesis
  proof (cases bs)
    case Nil
    have "list_next (h y) = 0" "x \<noteq> y" using l xs Nil new(3) by (auto simp: list_at_def path_append)
    then show ?thesis using False xs Nil el new(1,2) as
      by (simp add: list_insert_next_def insert_after_def Let_def)
  next
    case (Cons b bs')
    have tk: "take k xs = as @ [y]" "drop k xs = b # bs'" "k < length xs"
      "take k (list_contents h xs) = list_contents h (as @ [y])"
      "drop k (list_contents h xs) = list_contents h (b # bs')"
      using False as xs Cons by (auto simp: take_Cons' drop_Cons' list_contents_def)
    have "length as + length bs' + 3 < 2 ^ 31" using len xs Cons by simp
    from insert_after_list_at [OF l [unfolded xs Cons] new(3,2) [unfolded xs Cons] this, of d]
    obtain l' h' where ins: "insert_after y x l (h(x := (h x) \<lparr> list_data := d \<rparr>)) = Inr (l', h')"
      and r: "list_at h' (l' \<lparr> list_size := list_size l' + 1 \<rparr>) (take k xs @ x # drop k xs)"
        "list_contents h' (take k xs @ x # drop k xs) =
          take k (list_contents h xs) @ d # drop k (list_contents h xs)"
      unfolding tk(1,2,4,5) by auto
    have "list_insert_next ram_alloc l element d h s =
        Inr (0, l' \<lparr> list_size := list_size l' + 1 \<rparr>, h', s')"
      using el new(1,2) ins by (simp add: list_insert_next_def Let_def)
    with r tk(3) show ?thesis by auto
  qed
qed

definition sample_nodes :: nodes where
  "sample_nodes =
     (\<lambda>_. \<lparr> list_data = 0, list_next = 0, list_prev = 0 \<rparr>)
       (0x100 := \<lparr> list_data = 7, list_next = 0x200, list_prev = 0 \<rparr>,
        0x200 := \<lparr> list_data = 8, list_next = 0, list_prev = 0x100 \<rparr>)"

abbreviation sample_list :: linked_list where
  "sample_list \<equiv> \<lparr> list_size = 2, list_head = 0x100, list_tail = 0x200 \<rparr>"

lemma sample_list_at: "list_at sample_nodes sample_list [0x100, 0x200]"
  by (simp add: list_at_def sample_nodes_def)

theorem list_insert_next_refines_list_witness:
  "\<exists>l h. list_insert_next (\<lambda>_ s. Inr (0x300, s)) sample_list 0x100 9 sample_nodes () = Inr (0, l, h, ()) \<and>
    list_contents h [0x100, 0x300, 0x200] = [7, 9, 8]"
  using list_insert_next_refines_list
      [OF sample_list_at, of 1 "0x100" "\<lambda>_ s. Inr (0x300, s)" "()" "0x300" "()" 9]
  by (auto simp: sample_nodes_def)

end
