(* ===== verification/Allocator.thy ===== *)
theory Allocator
  imports Prelude
begin

text \<open>
  The contract of the kernel's allocators of equal-sized blocks, as a locale: which
  blocks are available, what one allocation and one release do to that set.  It is
  provided by the block allocator and by the two physical page allocators.
\<close>

text \<open>Allocating \<open>n\<close> blocks in a row.\<close>

primrec alloc_many :: "('s \<Rightarrow> (addr \<times> 's) res) \<Rightarrow> nat \<Rightarrow> 's \<Rightarrow> (addr list \<times> 's) res" where
  "alloc_many alloc 0 s = Inr ([], s)"
| "alloc_many alloc (Suc n) s =
     and_then (alloc s) (\<lambda>(p, s).
     and_then (alloc_many alloc n s) (\<lambda>(ps, s). Inr (p # ps, s)))"

text \<open>\<open>inv s A\<close>: the allocator's state is well-formed and \<open>A\<close> are the available blocks.\<close>

locale allocator =
  fixes inv :: "'s \<Rightarrow> addr set \<Rightarrow> bool"
    and alloc :: "'s \<Rightarrow> (addr \<times> 's) res"
  assumes finite_avail: "inv s A \<Longrightarrow> finite A"
    and nonzero: "inv s A \<Longrightarrow> 0 \<notin> A"
    and alloc_some: "inv s A \<Longrightarrow> A \<noteq> {} \<Longrightarrow>
          \<exists>p s'. alloc s = Inr (p, s') \<and> p \<in> A \<and> inv s' (A - {p})"
begin

lemma alloc_many_distinct:
  assumes "inv s A" and "n \<le> card A"
  shows "\<exists>ps s'. alloc_many alloc n s = Inr (ps, s') \<and> length ps = n \<and> distinct ps \<and>
    set ps \<subseteq> A \<and> inv s' (A - set ps)"
  using assms
proof (induction n arbitrary: s A)
  case 0
  then show ?case by simp
next
  case (Suc n)
  have fin: "finite A" and "A \<noteq> {}" using finite_avail [OF Suc.prems(1)] Suc.prems(2) by auto
  from alloc_some [OF Suc.prems(1) this(2)] obtain p s' where
    p: "alloc s = Inr (p, s')" "p \<in> A" "inv s' (A - {p})" by blast
  have "n \<le> card (A - {p})" using Suc.prems(2) p(2) fin by simp
  from Suc.IH [OF p(3) this] obtain ps s'' where
    "alloc_many alloc n s' = Inr (ps, s'')" "length ps = n" "distinct ps"
    "set ps \<subseteq> A - {p}" "inv s'' (A - {p} - set ps)" by blast
  then show ?case
    using p(1,2) by (intro exI [of _ "p # ps"] exI [of _ s'']) (auto simp: Diff_insert set_diff_eq)
qed

lemma alloc_all:
  assumes "inv s A"
  shows "\<exists>ps s'. alloc_many alloc (card A) s = Inr (ps, s') \<and> set ps = A \<and> distinct ps \<and> inv s' {}"
proof -
  from alloc_many_distinct [OF assms order.refl] obtain ps s' where
    ps: "alloc_many alloc (card A) s = Inr (ps, s')" "length ps = card A" "distinct ps"
      "set ps \<subseteq> A" "inv s' (A - set ps)" by blast
  have "set ps = A"
    using ps(2-4) finite_avail [OF assms] by (metis card_subset_eq distinct_card)
  with ps show ?thesis by auto
qed

end

text \<open>An allocator whose blocks can be given back.\<close>

locale freeing_allocator = allocator inv alloc
  for inv :: "'s \<Rightarrow> addr set \<Rightarrow> bool" and alloc :: "'s \<Rightarrow> (addr \<times> 's) res" +
  fixes blocks :: "addr set"
    and free :: "'s \<Rightarrow> addr \<Rightarrow> 's res"
  assumes avail_blocks: "inv s A \<Longrightarrow> A \<subseteq> blocks"
    and free_some: "inv s A \<Longrightarrow> p \<in> blocks \<Longrightarrow> p \<notin> A \<Longrightarrow>
          \<exists>s'. free s p = Inr s' \<and> inv s' (insert p A)"
begin

lemma alloc_free:
  assumes "inv s A" and "A \<noteq> {}"
  shows "\<exists>p s' s''. alloc s = Inr (p, s') \<and> free s' p = Inr s'' \<and> inv s'' A"
proof -
  from alloc_some [OF assms] obtain p s' where
    p: "alloc s = Inr (p, s')" "p \<in> A" "inv s' (A - {p})" by blast
  with avail_blocks [OF assms(1)] free_some [OF p(3), of p] obtain s'' where
    "free s' p = Inr s''" "inv s'' (insert p (A - {p}))" by blast
  with p show ?thesis by (auto simp: insert_absorb)
qed

lemma free_many:
  assumes "inv s A" and "distinct ps" and "set ps \<subseteq> blocks - A"
  shows "\<exists>s'. fold (\<lambda>p r. and_then r (\<lambda>s. free s p)) ps (Inr s) = Inr s' \<and> inv s' (set ps \<union> A)"
  using assms
proof (induction ps arbitrary: s A)
  case Nil
  then show ?case by simp
next
  case (Cons p ps)
  then obtain s' where s': "free s p = Inr s'" "inv s' (insert p A)"
    using free_some [of s A p] by auto
  have "set ps \<subseteq> blocks - insert p A" using Cons.prems by auto
  from Cons.IH [OF s'(2) _ this] Cons.prems(2) s'(1) show ?case by auto
qed

end

end
