(* ===== verification/Block.thy ===== *)
theory Block
  imports Stack Allocator
begin

text \<open>
  \<open>kernel/data_structures/block.c\<close> and \<open>block.h\<close>: the allocator of equal-sized blocks
  that the scheduler keeps its PCBs and queue nodes in.  A \<open>BlockAllocator\<close> at \<open>ba\<close> has
  its \<open>base\<close>, \<open>max_address\<close>, \<open>implicit_next\<close> and \<open>block_size\<close> in the cells \<open>ba\<close>,
  \<open>ba + 8\<close>, \<open>ba + 16\<close>, \<open>ba + 24\<close> and its \<open>free_stack\<close> at \<open>ba + 32\<close>; it takes 48 bytes.
\<close>

section \<open>Operations\<close>

abbreviation sizeof_BlockAllocator :: u64 where "sizeof_BlockAllocator \<equiv> 48"
abbreviation sizeof_StackNode :: u64 where "sizeof_StackNode \<equiv> 8"

definition block_init :: "mem \<Rightarrow> addr \<Rightarrow> u64 \<Rightarrow> u64 \<Rightarrow> (addr \<times> mem) res" where
  "block_init m address len block_size =
     (if len < sizeof_BlockAllocator \<or> block_size < sizeof_StackNode
      then Inl (Panic ''BlockAllocator - Init: Region of memory too small'')
      else
        let ba = address;
            m = m(ba := address + sizeof_BlockAllocator);
            adjusted_size = len - sizeof_BlockAllocator;
            max_blocks = adjusted_size div block_size;
            m = m(ba + 24 := block_size);
            m = m(ba + 8 := m ba + max_blocks * block_size);
            m = m(ba + 16 := m ba);
            m = stack_init m (ba + 32)
        in Inr (ba, m))"

definition block_alloc :: "mem \<Rightarrow> addr \<Rightarrow> addr \<times> mem" where
  "block_alloc m ba =
     (if \<not> stack_empty m (ba + 32) then stack_pop m (ba + 32)
      else if m (ba + 16) < m (ba + 8)
      then let returnVal = m (ba + 16);
               m = m(ba + 16 := m (ba + 16) + m (ba + 24))
           in (returnVal, m)
      else (0, m))"

definition block_free :: "mem \<Rightarrow> addr \<Rightarrow> addr \<Rightarrow> mem res" where
  "block_free m ba ptr =
     kassert ''block.c'' 56 (ptr \<ge> ba + sizeof_BlockAllocator \<and> ptr < m (ba + 8))
       (Inr (stack_push m (ba + 32) ptr))"

section \<open>Well-formed block allocators\<close>

text \<open>The \<open>i\<close>-th block of an allocator with blocks of \<open>bs\<close> bytes.\<close>

definition blk :: "addr \<Rightarrow> nat \<Rightarrow> nat \<Rightarrow> addr" where
  "blk ba bs i = ba + of_nat (48 + i * bs)"

definition block_addrs :: "addr \<Rightarrow> nat \<Rightarrow> nat \<Rightarrow> addr set" where
  "block_addrs ba bs n = blk ba bs ` {..<n}"

text \<open>
  \<open>block_at m ba bs n k fs\<close>: an allocator of \<open>n\<close> blocks of \<open>bs\<close> bytes, of which the
  first \<open>k\<close> have been handed out at least once and \<open>fs\<close> are back on the free stack.
\<close>

definition block_at :: "mem \<Rightarrow> addr \<Rightarrow> nat \<Rightarrow> nat \<Rightarrow> nat \<Rightarrow> addr list \<Rightarrow> bool" where
  "block_at m ba bs n k fs \<longleftrightarrow>
     8 \<le> bs \<and> k \<le> n \<and> unat ba + 48 + n * bs < 2 ^ 64 \<and>
     m ba = blk ba bs 0 \<and> m (ba + 8) = blk ba bs n \<and> m (ba + 16) = blk ba bs k \<and>
     m (ba + 24) = of_nat bs \<and> stack_at m (ba + 32) fs \<and> set fs \<subseteq> block_addrs ba bs k"

definition block_avail :: "addr \<Rightarrow> nat \<Rightarrow> nat \<Rightarrow> nat \<Rightarrow> addr list \<Rightarrow> addr set" where
  "block_avail ba bs n k fs = set fs \<union> blk ba bs ` {k..<n}"

definition block_inv :: "addr \<Rightarrow> nat \<Rightarrow> nat \<Rightarrow> mem \<Rightarrow> addr set \<Rightarrow> bool" where
  "block_inv ba bs n m A \<longleftrightarrow>
     (\<exists>k fs. block_at m ba bs n k fs \<and> A = block_avail ba bs n k fs)"

abbreviation block_bound :: "addr \<Rightarrow> nat \<Rightarrow> nat \<Rightarrow> bool" where
  "block_bound ba bs n \<equiv> unat ba + 48 + n * bs < 2 ^ 64"

lemma unat_blk:
  assumes "block_bound ba bs n" and "i \<le> n"
  shows "unat (blk ba bs i) = unat ba + 48 + i * bs"
proof -
  have "i * bs \<le> n * bs" using assms(2) by simp
  with assms(1) have "unat ba + (48 + i * bs) < 2 ^ 64" by linarith
  from unat_add_off [OF this] show ?thesis by (simp only: blk_def add.assoc)
qed

lemma blk_inject:
  assumes b: "block_bound ba bs n" and "0 < bs" and i: "i \<le> n" and j: "j \<le> n"
  shows "blk ba bs i = blk ba bs j \<longleftrightarrow> i = j"
proof
  assume "blk ba bs i = blk ba bs j"
  then have "unat (blk ba bs i) = unat (blk ba bs j)" by simp
  then have "i * bs = j * bs" by (simp only: unat_blk [OF b i] unat_blk [OF b j] add_left_cancel)
  with assms(2) show "i = j" by simp
qed simp

lemma inj_on_blk: "block_bound ba bs n \<Longrightarrow> 0 < bs \<Longrightarrow> inj_on (blk ba bs) {..n}"
  by (rule inj_onI) (simp add: blk_inject)

lemma blk_in_image:
  assumes "block_bound ba bs n" and "0 < bs" and "i \<le> n" and "S \<subseteq> {..n}"
  shows "blk ba bs i \<in> blk ba bs ` S \<longleftrightarrow> i \<in> S"
  using inj_on_image_mem_iff [OF inj_on_blk [OF assms(1,2)], of i S] assms(3,4) by simp

lemma blk_less_iff:
  assumes b: "block_bound ba bs n" and "0 < bs" and i: "i \<le> n" and j: "j \<le> n"
  shows "blk ba bs i < blk ba bs j \<longleftrightarrow> i < j"
  unfolding word_less_nat_alt unat_blk [OF b i] unat_blk [OF b j] using assms(2) by simp

lemma blk_Suc: "blk ba bs i + of_nat bs = blk ba bs (Suc i)"
  by (simp add: blk_def)

lemma unat_plus_small:
  "unat (b :: u64) + c < 2 ^ 64 \<Longrightarrow> d = of_nat c \<Longrightarrow> unat (b + d) = unat b + c"
  by (simp only: unat_add_off)

lemma blk_above_header:
  assumes b: "block_bound ba bs n" and i: "i \<le> n"
  shows "blk ba bs i \<noteq> 0" and "blk ba bs i \<notin> {ba, ba + 8, ba + 16, ba + 24, ba + 32, ba + 40}"
    and "ba + 48 \<le> blk ba bs i"
proof -
  have u: "unat (blk ba bs i) \<ge> unat ba + 48" using unat_blk [OF b i] by simp
  then show "blk ba bs i \<noteq> 0" by auto
  have "unat (ba + 8) = unat ba + 8" "unat (ba + 16) = unat ba + 16" "unat (ba + 24) = unat ba + 24"
    "unat (ba + 32) = unat ba + 32" "unat (ba + 40) = unat ba + 40" "unat (ba + 48) = unat ba + 48"
    using b by (simp_all add: unat_plus_small)
  with u show "blk ba bs i \<notin> {ba, ba + 8, ba + 16, ba + 24, ba + 32, ba + 40}"
    and "ba + 48 \<le> blk ba bs i"
    by (auto simp: word_le_nat_alt)
qed

lemma block_stack_fits:
  "block_bound ba bs n \<Longrightarrow> i \<le> n \<Longrightarrow> stack_fits (ba + 32) (blk ba bs i)"
  using blk_above_header [where ba = ba and bs = bs and n = n and i = i] by (auto simp: stack_fits_def add.assoc)

text \<open>\<open>block_init\<close> makes a well-formed allocator with all its blocks available.\<close>

lemma block_init_inv:
  assumes len: "48 \<le> len" and bs: "8 \<le> block_size" and fit: "unat address + unat len < 2 ^ 64"
  shows "\<exists>m'. block_init m address len block_size = Inr (address, m') \<and>
     block_at m' address (unat block_size) ((unat len - 48) div unat block_size) 0 []"
proof -
  define n where "n = (unat len - 48) div unat block_size"
  have ulen: "unat (len - 48) = unat len - 48" using len by (simp add: unat_sub)
  have nb: "n * unat block_size \<le> unat len - 48" unfolding n_def by (rule div_times_less_eq_dividend)
  have ge: "48 \<le> unat len" using len by (simp add: word_le_nat_alt)
  have bound: "block_bound address (unat block_size) n" using nb ge fit by linarith
  have mb: "(len - 48) div block_size = of_nat n"
  proof -
    have "unat ((len - 48) div block_size) = n" by (simp add: unat_div ulen n_def)
    then show ?thesis by (metis of_nat_unat ucast_id)
  qed
  define m' where "m' = m(address := address + 48, address + 24 := block_size,
        address + 8 := address + 48 + of_nat n * block_size,
        address + 16 := address + 48, address + 32 := 0, address + 40 := 0)"
  have "block_init m address len block_size = Inr (address, m')"
    using len bs by (simp add: block_init_def Let_def not_less mb stack_init_def add.assoc m'_def)
  moreover have "m' address = blk address (unat block_size) 0"
    "m' (address + 8) = blk address (unat block_size) n"
    "m' (address + 16) = blk address (unat block_size) 0"
    "m' (address + 24) = of_nat (unat block_size)"
    by (simp_all add: m'_def blk_def add.assoc)
  moreover have "stack_at m' (address + 32) []" by (simp add: m'_def stack_at_def add.assoc)
  moreover have "8 \<le> unat block_size" using bs by (simp add: word_le_nat_alt)
  ultimately show ?thesis
    using bound by (simp only: block_at_def n_def [symmetric]) simp
qed

text \<open>Allocation: the most recently freed block, else the next unused one, else NULL.\<close>

lemma block_alloc_free_stack:
  assumes at: "block_at m ba bs n k (p # fs)"
  shows "fst (block_alloc m ba) = p" and "block_at (snd (block_alloc m ba)) ba bs n k fs"
proof -
  have st: "stack_at m (ba + 32) (p # fs)" using at by (simp add: block_at_def)
  then have eq: "block_alloc m ba = stack_pop m (ba + 32)"
    using stack_at_empty [OF st] by (simp add: block_alloc_def)
  show "fst (block_alloc m ba) = p" by (simp add: eq stack_pop_Cons(1) [OF st])
  have "snd (stack_pop m (ba + 32)) a = m a" if "a \<in> {ba, ba + 8, ba + 16, ba + 24}" for a
    using that by (intro stack_pop_other) (auto simp: add.assoc)
  then show "block_at (snd (block_alloc m ba)) ba bs n k fs"
    using at stack_pop_Cons(2) [OF st] by (simp add: block_at_def eq)
qed

lemma block_alloc_fresh:
  assumes at: "block_at m ba bs n k []" and k: "k < n"
  shows "fst (block_alloc m ba) = blk ba bs k" and "block_at (snd (block_alloc m ba)) ba bs n (Suc k) []"
proof -
  have b: "block_bound ba bs n" and "0 < bs" and st: "stack_at m (ba + 32) []"
    using at by (simp_all add: block_at_def)
  then have lt: "m (ba + 16) < m (ba + 8)"
    using at k blk_less_iff [OF b, of k n] by (simp add: block_at_def)
  have eq: "block_alloc m ba = (m (ba + 16), m(ba + 16 := m (ba + 16) + m (ba + 24)))"
    using lt stack_at_empty [OF st] by (simp add: block_alloc_def Let_def)
  show "fst (block_alloc m ba) = blk ba bs k" using at by (simp add: eq block_at_def)
  have "stack_at (m(ba + 16 := v)) (ba + 32) []" for v
    using st by (simp add: stack_at_def)
  then show "block_at (snd (block_alloc m ba)) ba bs n (Suc k) []"
    using at k by (simp add: block_at_def eq blk_Suc)
qed

lemma block_alloc_none:
  assumes at: "block_at m ba bs n n []"
  shows "block_alloc m ba = (0, m)"
  using at stack_at_empty [of m "ba + 32" "[]"] by (simp add: block_at_def block_alloc_def)

text \<open>Release.\<close>

lemma block_free_at:
  assumes at: "block_at m ba bs n k fs" and p: "p \<in> block_addrs ba bs k" "p \<notin> set fs"
  shows "\<exists>m'. block_free m ba p = Inr m' \<and> block_at m' ba bs n k (p # fs)"
proof -
  have b: "block_bound ba bs n" and "0 < bs" and kn: "k \<le> n" and st: "stack_at m (ba + 32) fs"
    and max: "m (ba + 8) = blk ba bs n"
    using at by (simp_all add: block_at_def)
  obtain i where i: "p = blk ba bs i" "i < k" using p(1) by (auto simp: block_addrs_def)
  then have "ba + 48 \<le> p" "p < m (ba + 8)" "stack_fits (ba + 32) p"
    and hdr: "p \<notin> {ba, ba + 8, ba + 16, ba + 24, ba + 32, ba + 40}"
    using blk_above_header [OF b, of i] blk_less_iff [OF b \<open>0 < bs\<close>, of i n] kn
      block_stack_fits [OF b, of i] max by auto
  then have free: "block_free m ba p = Inr (stack_push m (ba + 32) p)"
    by (simp add: block_free_def)
  have "stack_push m (ba + 32) p a = m a" if "a \<in> {ba, ba + 8, ba + 16, ba + 24}" for a
    using that hdr by (intro stack_push_other) (auto simp: add.assoc)
  moreover have "stack_at (stack_push m (ba + 32) p) (ba + 32) (p # fs)"
    by (rule stack_push_at [OF st \<open>stack_fits (ba + 32) p\<close> p(2)])
  ultimately show ?thesis using free at p(1) by (simp add: block_at_def)
qed

section \<open>The block allocator keeps the contract\<close>

lemma block_avail_cases:
  assumes "block_at m ba bs n k fs" and "block_avail ba bs n k fs \<noteq> {}"
  obtains p fs' where "fs = p # fs'" | "fs = []" and "k < n"
  using assms by (cases fs) (auto simp: block_avail_def)

lemma block_at_bounds:
  "block_at m ba bs n k fs \<Longrightarrow> block_bound ba bs n \<and> 0 < bs \<and> k \<le> n"
  by (auto simp: block_at_def)

lemma block_inv_nonzero:
  assumes "block_inv ba bs n m A"
  shows "0 \<notin> A"
proof -
  obtain k fs where at: "block_at m ba bs n k fs" and A: "A = block_avail ba bs n k fs"
    using assms by (auto simp: block_inv_def)
  have b: "block_bound ba bs n" using block_at_bounds [OF at] by simp
  have "0 \<notin> set fs" using at by (simp add: block_at_def stack_at_def)
  moreover have "0 \<notin> blk ba bs ` {k..<n}"
  proof
    assume "0 \<in> blk ba bs ` {k..<n}"
    then obtain i where "blk ba bs i = 0" "i < n" by auto
    with blk_above_header(1) [OF b, of i] show False by simp
  qed
  ultimately show ?thesis by (simp add: A block_avail_def)
qed

lemma block_addrs_mono: "k \<le> n \<Longrightarrow> block_addrs ba bs k \<subseteq> block_addrs ba bs n"
  by (auto simp: block_addrs_def)

lemma block_fresh_notin:
  assumes at: "block_at m ba bs n k fs" and p: "p \<in> block_addrs ba bs k"
  shows "p \<notin> blk ba bs ` {k..<n}"
proof -
  have b: "block_bound ba bs n" "0 < bs" "k \<le> n" using block_at_bounds [OF at] by auto
  from p obtain i where "p = blk ba bs i" "i < k" by (auto simp: block_addrs_def)
  moreover have "{k..<n} \<subseteq> {..n}" by auto
  ultimately show ?thesis using blk_in_image [OF b(1,2), of i "{k..<n}"] b(3) by simp
qed

lemma block_alloc_inv:
  assumes inv: "block_inv ba bs n m A" and ne: "A \<noteq> {}"
  shows "fst (block_alloc m ba) \<in> A"
    and "block_inv ba bs n (snd (block_alloc m ba)) (A - {fst (block_alloc m ba)})"
proof -
  obtain k fs where at: "block_at m ba bs n k fs" and A: "A = block_avail ba bs n k fs"
    using inv by (auto simp: block_inv_def)
  have ne': "block_avail ba bs n k fs \<noteq> {}" using ne A by simp
  show "fst (block_alloc m ba) \<in> A"
    and "block_inv ba bs n (snd (block_alloc m ba)) (A - {fst (block_alloc m ba)})"
  proof (atomize (full), cases rule: block_avail_cases [OF at ne'])
    case (1 p fs')
    note al = block_alloc_free_stack [OF at [unfolded 1]]
    have "p \<notin> set fs'" and "p \<in> block_addrs ba bs k"
      using at 1 by (auto simp: block_at_def stack_at_def)
    with block_fresh_notin [OF at] have "A - {p} = block_avail ba bs n k fs'"
      by (auto simp: A 1 block_avail_def)
    with al 1 show "fst (block_alloc m ba) \<in> A \<and>
        block_inv ba bs n (snd (block_alloc m ba)) (A - {fst (block_alloc m ba)})"
      by (auto simp: block_inv_def A block_avail_def)
  next
    case 2
    note al = block_alloc_fresh [OF at [unfolded 2(1)] 2(2)]
    have b: "block_bound ba bs n" "0 < bs" using block_at_bounds [OF at] by auto
    have "{k..<n} = insert k {Suc k..<n}" using 2(2) by auto
    moreover have "{Suc k..<n} \<subseteq> {..n}" by auto
    then have "blk ba bs k \<notin> blk ba bs ` {Suc k..<n}"
      using blk_in_image [OF b, of k "{Suc k..<n}"] 2(2) by simp
    ultimately have "A - {blk ba bs k} = block_avail ba bs n (Suc k) []"
      by (auto simp: A 2 block_avail_def)
    then have "block_inv ba bs n (snd (block_alloc m ba)) (A - {fst (block_alloc m ba)})"
      unfolding block_inv_def al(1) using al(2) by blast
    moreover have "fst (block_alloc m ba) \<in> A" using 2(2) by (auto simp: al(1) A block_avail_def)
    ultimately show "fst (block_alloc m ba) \<in> A \<and>
        block_inv ba bs n (snd (block_alloc m ba)) (A - {fst (block_alloc m ba)})"
      by (rule conjI [rotated])
  qed
qed

lemma block_alloc_null: "block_inv ba bs n m {} \<Longrightarrow> block_alloc m ba = (0, m)"
proof -
  assume "block_inv ba bs n m {}"
  then obtain k fs where at: "block_at m ba bs n k fs" and A: "block_avail ba bs n k fs = {}"
    by (auto simp: block_inv_def)
  then have "fs = []" "k = n" using block_at_bounds [OF at] by (auto simp: block_avail_def)
  with at block_alloc_none show ?thesis by simp
qed

lemma block_free_inv:
  assumes inv: "block_inv ba bs n m A" and p: "p \<in> block_addrs ba bs n" "p \<notin> A"
  shows "\<exists>m'. block_free m ba p = Inr m' \<and> block_inv ba bs n m' (insert p A)"
proof -
  obtain k fs where at: "block_at m ba bs n k fs" and A: "A = block_avail ba bs n k fs"
    using inv by (auto simp: block_inv_def)
  have "p \<in> block_addrs ba bs k" "p \<notin> set fs"
    using p unfolding A block_avail_def block_addrs_def by (force, simp)
  from block_free_at [OF at this] obtain m' where
    m': "block_free m ba p = Inr m'" "block_at m' ba bs n k (p # fs)" by blast
  have "insert p A = block_avail ba bs n k (p # fs)" by (simp add: A block_avail_def)
  with m' show ?thesis by (auto simp: block_inv_def)
qed

lemma block_inv_blocks:
  assumes "block_inv ba bs n m A"
  shows "A \<subseteq> block_addrs ba bs n"
proof -
  obtain k fs where at: "block_at m ba bs n k fs" and A: "A = block_avail ba bs n k fs"
    using assms by (auto simp: block_inv_def)
  then have "set fs \<subseteq> block_addrs ba bs n"
    using block_addrs_mono [of k n ba bs] by (auto simp: block_at_def)
  then show ?thesis by (auto simp: A block_avail_def block_addrs_def)
qed

interpretation ba: freeing_allocator "block_inv ba bs n" "\<lambda>m. Inr (block_alloc m ba)"
    "block_addrs ba bs n" "\<lambda>m p. block_free m ba p" for ba bs n
proof unfold_locales
  fix m A
  assume inv: "block_inv ba bs n m A"
  show "finite A" using inv by (auto simp: block_inv_def block_avail_def)
  show "0 \<notin> A" using inv by (rule block_inv_nonzero)
  show "A \<subseteq> block_addrs ba bs n" using inv by (rule block_inv_blocks)
  show "\<exists>p m'. Inr (block_alloc m ba) = Inr (p, m') \<and> p \<in> A \<and> block_inv ba bs n m' (A - {p})"
    if "A \<noteq> {}"
    using block_alloc_inv [OF inv that]
    by (intro exI [of _ "fst (block_alloc m ba)"] exI [of _ "snd (block_alloc m ba)"]) simp
  show "\<exists>m'. block_free m ba p = Inr m' \<and> block_inv ba bs n m' (insert p A)"
    if "p \<in> block_addrs ba bs n" "p \<notin> A" for p
    using inv that by (rule block_free_inv)
qed

section \<open>Properties\<close>

lemma block_init_all:
  assumes "48 \<le> len" and "8 \<le> block_size" and "unat address + unat len < 2 ^ 64"
  shows "\<exists>m'. block_init m address len block_size = Inr (address, m') \<and>
     block_inv address (unat block_size) ((unat len - 48) div unat block_size) m'
       (block_addrs address (unat block_size) ((unat len - 48) div unat block_size))"
  using block_init_inv [OF assms]
  by (fastforce simp: block_inv_def block_avail_def block_addrs_def atLeast0LessThan)

lemma card_block_addrs:
  assumes "block_inv ba bs n m A"
  shows "card (block_addrs ba bs n) = n"
proof -
  have b: "block_bound ba bs n" "0 < bs" using assms by (auto simp: block_inv_def block_at_def)
  have "inj_on (blk ba bs) {..<n}" by (rule inj_onI) (simp add: blk_inject [OF b])
  then show ?thesis by (simp add: block_addrs_def card_image)
qed

text \<open>C14. A freshly initialised block allocator hands out every block of its region exactly
  once: \<open>(length - 48) div block_size\<close> allocations give pairwise distinct blocks, all
  of them at \<open>base + i * block_size\<close>, and the next one gives NULL.\<close>

theorem block_alloc_hands_out_all_blocks:
  assumes "48 \<le> len" and "8 \<le> block_size" and "unat address + unat len < 2 ^ 64"
    and n: "n = (unat len - 48) div unat block_size"
  shows "\<exists>m1 ps m2. block_init m address len block_size = Inr (address, m1) \<and>
    alloc_many (\<lambda>m. Inr (block_alloc m address)) n m1 = Inr (ps, m2) \<and>
    distinct ps \<and> set ps = block_addrs address (unat block_size) n \<and>
    block_alloc m2 address = (0, m2)"
proof -
  obtain m1 where m1: "block_init m address len block_size = Inr (address, m1)"
    "block_inv address (unat block_size) n m1 (block_addrs address (unat block_size) n)"
    using block_init_all [OF assms(1-3)] by (auto simp: n)
  from ba.alloc_all [OF m1(2)] card_block_addrs [OF m1(2)] obtain ps m2 where
    "alloc_many (\<lambda>m. Inr (block_alloc m address)) n m1 = Inr (ps, m2)"
    "set ps = block_addrs address (unat block_size) n" "distinct ps"
    "block_inv address (unat block_size) n m2 {}"
    by auto
  with m1(1) block_alloc_null show ?thesis by blast
qed

theorem block_alloc_hands_out_all_blocks_witness:
  "\<exists>m1 ps m2. block_init (\<lambda>_. 0) 4096 100 16 = Inr (4096, m1) \<and>
    alloc_many (\<lambda>m. Inr (block_alloc m 4096)) 3 m1 = Inr (ps, m2) \<and>
    distinct ps \<and> set ps = block_addrs 4096 16 3 \<and> block_alloc m2 4096 = (0, m2)"
  using block_alloc_hands_out_all_blocks [of 100 16 4096 3 "\<lambda>_. 0"] by simp

text \<open>C38. Freeing is the inverse of allocating for a well-formed block allocator with
  available blocks \<open>A\<close>: the block just allocated passes the ASSERT of \<open>block_free\<close>, and
  after it the available blocks are \<open>A\<close> again.\<close>

theorem block_alloc_free_restores:
  assumes "block_inv ba bs n m A" and "A \<noteq> {}"
  shows "\<exists>p m1 m2. block_alloc m ba = (p, m1) \<and> p \<in> A \<and> block_free m1 ba p = Inr m2 \<and>
    block_inv ba bs n m2 A"
  using ba.alloc_free [OF assms] block_alloc_inv(1) [OF assms] by force

lemma block_sample: "block_inv 4096 16 2
    ((\<lambda>_. 0)(4096 := 4144, 4104 := 4176, 4112 := 4160, 4120 := 16)) {4160}"
proof -
  have "{Suc 0..<2} = {1}" by auto
  then have "block_avail 4096 16 2 1 [] = {4160}" by (simp add: block_avail_def blk_def)
  moreover have "block_at ((\<lambda>_. 0)(4096 := 4144, 4104 := 4176, 4112 := 4160, 4120 := 16))
      4096 16 2 1 []"
    by (simp add: block_at_def blk_def stack_at_def)
  ultimately show ?thesis unfolding block_inv_def by metis
qed

theorem block_alloc_free_restores_witness:
  "\<exists>p m1 m2. block_alloc ((\<lambda>_. 0)(4096 := 4144, 4104 := 4176, 4112 := 4160, 4120 := 16)) 4096
      = (p, m1) \<and> p \<in> {4160} \<and> block_free m1 4096 p = Inr m2 \<and> block_inv 4096 16 2 m2 {4160}"
  using block_alloc_free_restores [OF block_sample] by simp

end
