(* ===== verification/Addr.thy ===== *)
theory Addr
  imports Prelude
begin

text \<open>
  The address macros of \<open>paging.h\<close>, \<open>physical.h\<close> and \<open>inttypes.h\<close>: the window in which
  all of physical memory is mapped at \<open>KERNEL_BASE\<close>, rounding to pages of 2 MiB and
  4 KiB, and the facts on 2 MiB blocks of addresses the allocators and the page tables
  rest on.
\<close>

section \<open>Macros\<close>

abbreviation KERNEL_BASE :: u64 where "KERNEL_BASE \<equiv> 0xFFFF800000000000"
abbreviation size_2MiB :: u64 where "size_2MiB \<equiv> 0x200000"
abbreviation size_4KiB :: u64 where "size_4KiB \<equiv> 0x1000"

definition PHYS_TO_VIRT :: "addr \<Rightarrow> addr" where
  "PHYS_TO_VIRT x = x + KERNEL_BASE"

definition VIRT_TO_PHYS :: "addr \<Rightarrow> addr" where
  "VIRT_TO_PHYS x = x - KERNEL_BASE"

definition MASK_2MIB :: "addr \<Rightarrow> addr" where
  "MASK_2MIB x = x AND 0xFFFFFFFFFFE00000"

definition MASK_4KIB :: "addr \<Rightarrow> addr" where
  "MASK_4KIB x = x AND 0xFFFFFFFFFFFFF000"

definition ALIGN_2MIB :: "addr \<Rightarrow> addr" where
  "ALIGN_2MIB x = (x AND 0xFFFFFFFFFFE00000) + (if 0 < x AND 0x1FFFFF then 1 else 0) * size_2MiB"

definition ALIGN_4KIB :: "addr \<Rightarrow> addr" where
  "ALIGN_4KIB x = (x AND 0xFFFFFFFFFFFFF000) + (if 0 < x AND 0xFFF then 1 else 0) * size_4KiB"

definition ALIGN :: "addr \<Rightarrow> u64 \<Rightarrow> addr" where
  "ALIGN x p2 = (x + p2 - 1) AND NOT (p2 - 1)"

lemma virt_phys [simp]: "VIRT_TO_PHYS (PHYS_TO_VIRT x) = x" "PHYS_TO_VIRT (VIRT_TO_PHYS x) = x"
  by (simp_all add: PHYS_TO_VIRT_def VIRT_TO_PHYS_def)

lemma PHYS_TO_VIRT_inject [simp]: "PHYS_TO_VIRT x = PHYS_TO_VIRT y \<longleftrightarrow> x = y"
  by (simp add: PHYS_TO_VIRT_def)

lemma VIRT_TO_PHYS_inject [simp]: "VIRT_TO_PHYS x = VIRT_TO_PHYS y \<longleftrightarrow> x = y"
  by (simp add: VIRT_TO_PHYS_def)

lemma VIRT_TO_PHYS_eq_0: "VIRT_TO_PHYS x = 0 \<longleftrightarrow> x = KERNEL_BASE"
  by (simp add: VIRT_TO_PHYS_def)

lemma mask_21: "0xFFFFFFFFFFE00000 = (NOT (mask 21) :: u64)" and mask_12: "0xFFFFFFFFFFFFF000 = (NOT (mask 12) :: u64)"
  and low_21: "0x1FFFFF = (mask 21 :: u64)" and low_12: "0xFFF = (mask 12 :: u64)"
  by (simp_all add: mask_eq_exp_minus_1)

lemma unat_MASK_2MIB: "unat (MASK_2MIB x) = unat x - unat x mod 2 ^ 21"
  unfolding MASK_2MIB_def mask_21 by (rule unat_and_not_mask)

lemma unat_MASK_4KIB: "unat (MASK_4KIB x) = unat x - unat x mod 2 ^ 12"
  unfolding MASK_4KIB_def mask_12 by (rule unat_and_not_mask)

lemma MASK_2MIB_id_iff: "MASK_2MIB x = x \<longleftrightarrow> unat x mod 2 ^ 21 = 0"
proof -
  have "unat x mod 2 ^ 21 \<le> unat x" by (rule mod_less_eq_dividend)
  then show ?thesis unfolding word_unat_eq_iff unat_MASK_2MIB by arith
qed

lemma MASK_4KIB_id_iff: "MASK_4KIB x = x \<longleftrightarrow> unat x mod 2 ^ 12 = 0"
proof -
  have "unat x mod 2 ^ 12 \<le> unat x" by (rule mod_less_eq_dividend)
  then show ?thesis unfolding word_unat_eq_iff unat_MASK_4KIB by arith
qed

lemma MASK_2MIB_idem [simp]: "MASK_2MIB (MASK_2MIB x) = MASK_2MIB x"
  by (simp add: MASK_2MIB_def and.assoc)

section \<open>Blocks of 2 MiB\<close>

text \<open>
  An address lies in the block \<open>b\<close> when \<open>MASK_2MIB\<close> takes it there; \<open>block_base\<close> are the
  addresses of whole blocks below the end of the address space.
\<close>

definition block_base :: "addr \<Rightarrow> bool" where
  "block_base b \<longleftrightarrow> MASK_2MIB b = b \<and> b \<noteq> 0 \<and> unat b + 2 ^ 21 < 2 ^ 64"

lemma MASK_2MIB_off:
  assumes "MASK_2MIB b = b" and "unat d < 2 ^ 21"
  shows "MASK_2MIB (b + d) = b" and "unat (b + d) = unat b + unat d"
  using and_not_mask_add_off [of b 21 d] assms by (simp_all add: MASK_2MIB_def mask_21)

lemma MASK_4KIB_off:
  assumes "MASK_4KIB b = b" and "unat d < 2 ^ 12"
  shows "MASK_4KIB (b + d) = b" and "unat (b + d) = unat b + unat d"
  using and_not_mask_add_off [of b 12 d] assms by (simp_all add: MASK_4KIB_def mask_12)

lemma MASK_2MIB_cell: "MASK_2MIB b = b \<Longrightarrow> d < size_2MiB \<Longrightarrow> MASK_2MIB (b + d) = b"
  by (rule MASK_2MIB_off) (simp_all add: word_less_nat_alt)

lemma other_block_neq:
  "MASK_2MIB b = b \<Longrightarrow> MASK_2MIB c = c \<Longrightarrow> b \<noteq> c \<Longrightarrow> d < size_2MiB \<Longrightarrow> e < size_2MiB \<Longrightarrow> b + d \<noteq> c + e"
  by (metis MASK_2MIB_cell)

lemma MASK_4KIB_2MIB: "MASK_2MIB b = b \<Longrightarrow> MASK_4KIB b = b"
proof -
  assume "MASK_2MIB b = b"
  then have "(2 :: nat) ^ 21 dvd unat b" by (simp add: MASK_2MIB_id_iff dvd_eq_mod_eq_0)
  then have "(2 :: nat) ^ 12 dvd unat b" by (rule power_le_dvd) simp
  then show ?thesis by (simp add: MASK_4KIB_id_iff dvd_eq_mod_eq_0)
qed

text \<open>The window keeps alignment.\<close>

lemma unat_add_aligned_mod:
  fixes x k :: u64
  assumes k: "unat k mod 2 ^ n = 0" and n: "n \<le> 64"
  shows "unat (x + k) mod 2 ^ n = unat x mod 2 ^ n"
proof -
  have "(2 :: nat) ^ n dvd 2 ^ LENGTH(64)" using n by (intro le_imp_power_dvd) simp
  then have "unat (x + k) mod 2 ^ n = (unat x + unat k) mod 2 ^ n"
    by (simp only: unat_word_ariths mod_mod_cancel)
  then show ?thesis using k by (metis mod_add_right_eq add.right_neutral)
qed

lemma MASK_2MIB_virt: "MASK_2MIB (PHYS_TO_VIRT b) = PHYS_TO_VIRT b \<longleftrightarrow> MASK_2MIB b = b"
  unfolding MASK_2MIB_id_iff PHYS_TO_VIRT_def by (subst unat_add_aligned_mod) simp_all

lemma MASK_2MIB_phys: "MASK_2MIB (VIRT_TO_PHYS b) = VIRT_TO_PHYS b \<longleftrightarrow> MASK_2MIB b = b"
  using MASK_2MIB_virt [of "VIRT_TO_PHYS b"] by simp

lemma MASK_4KIB_virt: "MASK_4KIB (PHYS_TO_VIRT b) = PHYS_TO_VIRT b \<longleftrightarrow> MASK_4KIB b = b"
  unfolding MASK_4KIB_id_iff PHYS_TO_VIRT_def by (subst unat_add_aligned_mod) simp_all

lemma MASK_4KIB_phys: "MASK_4KIB (VIRT_TO_PHYS b) = VIRT_TO_PHYS b \<longleftrightarrow> MASK_4KIB b = b"
  using MASK_4KIB_virt [of "VIRT_TO_PHYS b"] by simp

lemma MASK_plus_low: "x = MASK_2MIB x + (x AND mask 21)" "x = MASK_4KIB x + (x AND mask 12)"
  by (simp_all add: MASK_2MIB_def MASK_4KIB_def mask_21 mask_12 and_not_mask_plus)

lemma unat_low: "unat (x AND mask 21 :: u64) < 2 ^ 21" "unat (x AND mask 12 :: u64) < 2 ^ 12"
  by (simp_all add: unat_and_mask)

lemma MASK_2MIB_PHYS_TO_VIRT: "MASK_2MIB (PHYS_TO_VIRT x) = PHYS_TO_VIRT (MASK_2MIB x)"
proof -
  have "PHYS_TO_VIRT (y + l) = PHYS_TO_VIRT y + l" for y l by (simp add: PHYS_TO_VIRT_def)
  from this [of "MASK_2MIB x" "x AND mask 21"]
  have "PHYS_TO_VIRT x = PHYS_TO_VIRT (MASK_2MIB x) + (x AND mask 21)"
    by (simp only: MASK_plus_low(1) [symmetric])
  moreover have "MASK_2MIB (PHYS_TO_VIRT (MASK_2MIB x) + (x AND mask 21)) = PHYS_TO_VIRT (MASK_2MIB x)"
    using unat_low(1) by (intro MASK_2MIB_off(1)) (simp_all add: MASK_2MIB_virt)
  ultimately show ?thesis by simp
qed

lemma MASK_2MIB_VIRT_TO_PHYS: "MASK_2MIB (VIRT_TO_PHYS x) = VIRT_TO_PHYS (MASK_2MIB x)"
  using MASK_2MIB_PHYS_TO_VIRT [of "VIRT_TO_PHYS x"] by (metis virt_phys)

lemma block_base_nonzero: "block_base b \<Longrightarrow> b \<noteq> 0"
  and block_base_aligned: "block_base b \<Longrightarrow> MASK_2MIB b = b"
  by (simp_all add: block_base_def)

end
