(* ===== verification/PhysAlloc.thy ===== *)
theory PhysAlloc
  imports Addr Stack Allocator
begin

text \<open>
  \<open>arch/x86_64/virt_memory/phys_alloc.c\<close>: the physical page allocators.  Free 2 MiB
  blocks are the nodes of the stack \<open>stack_2MIB\<close>; a block split into 4 KiB pages has a
  \<open>Pool\<close> in its first page, with \<open>free_stack\<close> at offset 0, \<open>implicit_next\<close>,
  \<open>max_address\<close>, \<open>next\<close>, \<open>prev\<close> and \<open>on_list\<close> at 16, 24, 32, 40 and 48.  The state
  is the memory, the head \<open>pool_4KIB\<close> of the list of pools with free pages, and the
  (constant) address of the static \<open>stack_2MIB\<close>.  Allocators work on the window at
  \<open>KERNEL_BASE\<close> and return physical addresses.
\<close>

section \<open>State and operations\<close>

record phys =
  pmem :: mem
  pool_4KIB :: addr
  stack_2MIB :: addr

record mmap_entry =
  mm_base :: u64
  mm_length :: u64
  mm_type :: u32
  mm_ACPI :: u32

abbreviation TYPE_USABLE :: u32 where "TYPE_USABLE \<equiv> 1"

text \<open>
  Setting up: the \<open>do ... while\<close> loop over the blocks of one region is entered only when
  its condition holds; the counters of wasted and usable RAM are never read.
\<close>

function push_region :: "mem \<Rightarrow> addr \<Rightarrow> u64 \<Rightarrow> u64 \<Rightarrow> mem" where
  "push_region m s base len =
     (if size_2MiB \<le> len
      then let m = stack_push m s (base + KERNEL_BASE)
           in push_region m s (base + size_2MiB) (len - size_2MiB)
      else m)"
  by pat_completeness auto
termination
  by (relation "measure (\<lambda>(m, s, base, len). unat len)")
    (auto simp: unat_sub word_le_nat_alt)

declare push_region.simps [simp del]

definition setup_entry :: "addr \<Rightarrow> mem \<Rightarrow> mmap_entry \<Rightarrow> mem" where
  "setup_entry s m e =
     (if mm_type e \<noteq> TYPE_USABLE then m
      else
        let base_orig = mm_base e;
            length_orig = mm_length e
        in if length_orig < size_2MiB then m
           else
             let base = ALIGN_2MIB base_orig;
                 len = length_orig - (base - base_orig)
             in if len < size_2MiB then m else push_region m s base len)"

definition setup_physical_allocator :: "phys \<Rightarrow> mmap_entry list \<Rightarrow> phys" where
  "setup_physical_allocator st mmap =
     st \<lparr> pmem := foldl (setup_entry (stack_2MIB st)) (stack_init (pmem st) (stack_2MIB st)) mmap,
          pool_4KIB := 0 \<rparr>"

definition phys_alloc_2MIB :: "phys \<Rightarrow> addr \<times> phys" where
  "phys_alloc_2MIB st =
     (case stack_pop (pmem st) (stack_2MIB st) of (retVal, m) \<Rightarrow>
        if retVal = 0 then (0, st \<lparr> pmem := m \<rparr>)
        else (VIRT_TO_PHYS retVal, st \<lparr> pmem := m \<rparr>))"

definition phys_alloc_2MIB_safe :: "phys \<Rightarrow> string \<Rightarrow> (addr \<times> phys) res" where
  "phys_alloc_2MIB_safe st error =
     (case phys_alloc_2MIB st of (alloc_ptr, st) \<Rightarrow>
        if alloc_ptr = 0 then Inl (Panic error) else Inr (alloc_ptr, st))"

text \<open>
  An address is canonical if bits 47 to 63 are equal; the processor faults on every other one.  The
  pointers of the allocator come from the window at \<open>KERNEL_BASE\<close> and are canonical, but for the one
  \<open>phys_free_2MIB\<close> computes from its argument: the push writes to the block.
\<close>

definition canonical :: "addr \<Rightarrow> bool" where
  "canonical a \<longleftrightarrow> a < 2 ^ 47 \<or> KERNEL_BASE \<le> a"

definition phys_free_2MIB :: "phys \<Rightarrow> addr \<Rightarrow> phys res" where
  "phys_free_2MIB st ptr =
     (let address = PHYS_TO_VIRT ptr
      in if canonical (MASK_2MIB address)
         then Inr (st \<lparr> pmem := stack_push (pmem st) (stack_2MIB st) (MASK_2MIB address) \<rparr>)
         else Inl (General_protection (MASK_2MIB address)))"

definition pool_init :: "mem \<Rightarrow> addr \<Rightarrow> mem" where
  "pool_init m pool =
     (let m = stack_init m pool;
          m = m(pool + 16 := pool + size_4KiB);
          m = m(pool + 24 := pool + size_2MiB)
      in m(pool + 32 := 0, pool + 40 := 0, pool + 48 := 0))"

definition pool_empty :: "mem \<Rightarrow> addr \<Rightarrow> bool" where
  "pool_empty m pool \<longleftrightarrow> stack_empty m pool \<and> m (pool + 16) \<ge> m (pool + 24)"

definition pool_full :: "mem \<Rightarrow> addr \<Rightarrow> bool res" where
  "pool_full m pool =
     (let entries_free = stack_size m pool
      in if entries_free = 511
         then kassert ''phys_alloc.c'' 209 (m (pool + 16) \<ge> m (pool + 24))
                (Inr (stack_size m pool = 511))
         else Inr (stack_size m pool = 511))"

definition pool_free :: "mem \<Rightarrow> addr \<Rightarrow> addr \<Rightarrow> mem res" where
  "pool_free m pool ptr =
     (if ptr \<le> pool \<or> ptr \<ge> m (pool + 24) then Inl (Panic ''Pool freeing bad ptr'')
      else Inr (stack_push m pool (MASK_4KIB ptr)))"

definition pool_alloc :: "mem \<Rightarrow> addr \<Rightarrow> (addr \<times> mem) res" where
  "pool_alloc m pool =
     (if pool_empty m pool then Inl (Panic ''Trying to allocate from empty pool!'')
      else if \<not> stack_empty m pool then Inr (stack_pop m pool)
      else let retVal = m (pool + 16)
           in Inr (retVal, m(pool + 16 := m (pool + 16) + size_4KiB)))"

text \<open>The head of the pool list, taken from the 2 MiB blocks when the list is empty.\<close>

definition ensure_pool :: "phys \<Rightarrow> phys res" where
  "ensure_pool st =
     (if pool_4KIB st = 0
      then case phys_alloc_2MIB st of (pool, st) \<Rightarrow>
        kassert ''phys_alloc.c'' 251 (pool \<noteq> 0)
          (let pool = PHYS_TO_VIRT pool;
               m = pool_init (pmem st) pool
           in Inr (st \<lparr> pmem := m(pool + 48 := 1), pool_4KIB := pool \<rparr>))
      else Inr st)"

definition phys_alloc_4KIB :: "phys \<Rightarrow> (addr \<times> phys) res" where
  "phys_alloc_4KIB st =
     and_then (ensure_pool st) (\<lambda>st.
     and_then (pool_alloc (pmem st) (pool_4KIB st)) (\<lambda>(retVal, m).
       let pool = pool_4KIB st;
           st = st \<lparr> pmem := m \<rparr>;
           st = (if pool_empty m pool
                 then let p_next = m (pool + 32);
                          m = m(pool + 48 := 0);
                          m = m(pool + 32 := 0);
                          m = m(pool + 40 := 0)
                      in st \<lparr> pmem := m, pool_4KIB := p_next \<rparr>
                 else st)
       in Inr (VIRT_TO_PHYS retVal, st)))"

definition phys_alloc_4KIB_safe :: "phys \<Rightarrow> string \<Rightarrow> (addr \<times> phys) res" where
  "phys_alloc_4KIB_safe st error =
     and_then (phys_alloc_4KIB st) (\<lambda>(alloc_ptr, st).
       if alloc_ptr = 0 then Inl (Panic error) else Inr (alloc_ptr, st))"

text \<open>Taking a pool off the list, wherever it is.\<close>

definition unlink_pool :: "phys \<Rightarrow> addr \<Rightarrow> phys" where
  "unlink_pool st pool =
     (let m = pmem st
      in if pool_4KIB st = pool
         then let head = m (pool_4KIB st + 32);
                  m = (if head \<noteq> 0 then m(head + 40 := 0) else m)
              in st \<lparr> pmem := m, pool_4KIB := head \<rparr>
         else let p_next = m (pool + 32);
                  p_prev = m (pool + 40);
                  m = (if p_next \<noteq> 0 then m(p_next + 40 := p_prev) else m);
                  m = (if p_prev \<noteq> 0 then m(p_prev + 32 := p_next) else m)
              in st \<lparr> pmem := m \<rparr>)"

definition link_pool :: "phys \<Rightarrow> addr \<Rightarrow> phys" where
  "link_pool st pool =
     (let m = pmem st;
          m = m(pool_4KIB st + 40 := pool);
          m = m(pool + 32 := pool_4KIB st);
          m = m(pool + 40 := 0);
          m = m(pool + 48 := 1)
      in st \<lparr> pmem := m, pool_4KIB := pool \<rparr>)"

definition phys_free_4KIB :: "phys \<Rightarrow> addr \<Rightarrow> phys res" where
  "phys_free_4KIB st ptr =
     (let address = PHYS_TO_VIRT ptr;
          pool = MASK_2MIB address
      in and_then (pool_free (pmem st) pool address) (\<lambda>m.
           let st = st \<lparr> pmem := m \<rparr>
           in if pool_4KIB st = 0 then Inl (Panic ''phys_free_4KIB bad free'')
              else if m (pool + 48) \<noteq> 0
              then and_then (pool_full m pool) (\<lambda>full.
                if full
                then let st = unlink_pool st pool;
                         st = st \<lparr> pmem := pool_init (pmem st) pool \<rparr>
                     in phys_free_2MIB st pool
                else Inr st)
              else Inr (link_pool st pool)))"

section \<open>The blocks of a memory map\<close>

definition nth_block :: "addr \<Rightarrow> nat \<Rightarrow> addr" where
  "nth_block b i = b + of_nat (i * 2 ^ 21)"

lemma nth_block_0 [simp]: "nth_block b 0 = b"
  and nth_block_Suc: "nth_block (b + size_2MiB) i = nth_block b (Suc i)"
  by (simp_all add: nth_block_def add.assoc)

text \<open>The physical addresses of the 2 MiB blocks the set-up finds in an entry, in order.\<close>

definition blocks_of :: "mmap_entry \<Rightarrow> addr list" where
  "blocks_of e =
     (let base = ALIGN_2MIB (mm_base e);
          len = mm_length e - (base - mm_base e)
      in if mm_type e = TYPE_USABLE \<and> size_2MiB \<le> mm_length e
         then map (nth_block base) [0..<unat len div 2 ^ 21] else [])"

definition within_entry :: "mmap_entry \<Rightarrow> addr \<Rightarrow> bool" where
  "within_entry e b \<longleftrightarrow> mm_type e = TYPE_USABLE \<and> unat (mm_base e) \<le> unat b \<and>
     unat b + 2 ^ 21 \<le> unat (mm_base e) + unat (mm_length e)"

definition entry_ok :: "mmap_entry \<Rightarrow> bool" where
  "entry_ok e \<longleftrightarrow> unat (mm_base e) + unat (mm_length e) < 2 ^ 47"

definition entries_disjoint :: "mmap_entry \<Rightarrow> mmap_entry \<Rightarrow> bool" where
  "entries_disjoint e f \<longleftrightarrow> mm_type e = TYPE_USABLE \<and> mm_type f = TYPE_USABLE \<longrightarrow>
     unat (mm_base e) + unat (mm_length e) \<le> unat (mm_base f) \<or>
     unat (mm_base f) + unat (mm_length f) \<le> unat (mm_base e)"

lemma push_region_foldl:
  "push_region m s b len =
     foldl (\<lambda>m. stack_push m s) m
       (map (\<lambda>i. PHYS_TO_VIRT (nth_block b i)) [0..<unat len div 2 ^ 21])"
proof (induction m s b len rule: push_region.induct)
  case (1 m s b len)
  show ?case
  proof (cases "size_2MiB \<le> len")
    case False
    then have "unat len div 2 ^ 21 = 0" by (simp add: word_le_nat_alt)
    with False show ?thesis by (simp add: push_region.simps)
  next
    case True
    then have "unat len = unat (len - size_2MiB) + 2 ^ 21"
      by (simp add: unat_sub word_le_nat_alt)
    then have "unat len div 2 ^ 21 = Suc (unat (len - size_2MiB) div 2 ^ 21)" by simp
    then show ?thesis
      using True 1 by (subst push_region.simps)
        (simp add: map_upt_Suc nth_block_Suc PHYS_TO_VIRT_def Let_def del: upt_Suc)
  qed
qed

lemma setup_entry_foldl:
  "setup_entry s m e = foldl (\<lambda>m. stack_push m s) m (map PHYS_TO_VIRT (blocks_of e))"
proof -
  have "[0..<unat len div 2 ^ 21] = []" if "len < size_2MiB" for len :: u64
    using that by (simp add: word_less_nat_alt)
  then show ?thesis
    by (auto simp: setup_entry_def blocks_of_def Let_def push_region_foldl comp_def)
qed

lemma foldl_setup_entry:
  "foldl (setup_entry s) m es =
     foldl (\<lambda>m. stack_push m s) m (map PHYS_TO_VIRT (concat (map blocks_of es)))"
  by (induction es arbitrary: m) (simp_all add: setup_entry_foldl)

lemma unat_ALIGN_2MIB:
  assumes "unat x \<le> 2 ^ 47"
  shows "\<exists>k. unat (ALIGN_2MIB x) = 2 ^ 21 * k \<and> unat x \<le> 2 ^ 21 * k \<and> 2 ^ 21 * k < unat x + 2 ^ 21"
proof -
  define q r where "q = unat x div 2 ^ 21" and "r = unat x mod 2 ^ 21"
  have x: "unat x = 2 ^ 21 * q + r" and r: "r < 2 ^ 21" by (simp_all add: q_def r_def)
  have base: "unat (MASK_2MIB x) = 2 ^ 21 * q" using r by (simp add: unat_MASK_2MIB x)
  have low: "0 < x AND 0x1FFFFF \<longleftrightarrow> r \<noteq> 0"
    unfolding low_21 word_less_nat_alt unat_and_mask by (simp add: r_def)
  show ?thesis
  proof (cases "r = 0")
    case True
    then have "ALIGN_2MIB x = MASK_2MIB x" using low by (simp add: ALIGN_2MIB_def MASK_2MIB_def)
    with True base x show ?thesis by (intro exI [of _ q]) simp
  next
    case False
    then have "ALIGN_2MIB x = MASK_2MIB x + size_2MiB"
      using low by (simp add: ALIGN_2MIB_def MASK_2MIB_def)
    moreover have "2 ^ 21 * q + 2 ^ 21 < (2::nat) ^ 64" using assms x by simp
    ultimately have "unat (ALIGN_2MIB x) = 2 ^ 21 * q + 2 ^ 21"
      using base by (simp add: unat_word_ariths)
    with False x r show ?thesis by (intro exI [of _ "Suc q"]) simp
  qed
qed

lemma unat_nth_block:
  "unat b + i * 2 ^ 21 < 2 ^ 64 \<Longrightarrow> unat (nth_block b i) = unat b + i * 2 ^ 21"
  unfolding nth_block_def by (rule unat_add_off)

text \<open>They are exactly the aligned blocks that lie wholly inside a usable entry.\<close>

lemma blocks_of_props:
  assumes ok: "entry_ok e"
  shows "set (blocks_of e) = {b. MASK_2MIB b = b \<and> within_entry e b}" and "distinct (blocks_of e)"
proof -
  define B L where "B = unat (mm_base e)" and "L = unat (mm_length e)"
  have BL: "B + L < 2 ^ 47" using ok by (simp add: entry_ok_def B_def L_def)
  obtain k where A: "unat (ALIGN_2MIB (mm_base e)) = 2 ^ 21 * k" "B \<le> 2 ^ 21 * k" "2 ^ 21 * k < B + 2 ^ 21"
    using unat_ALIGN_2MIB [of "mm_base e"] BL by (auto simp: B_def)
  let ?A = "ALIGN_2MIB (mm_base e)"
  have within: "within_entry e b \<longleftrightarrow> mm_type e = TYPE_USABLE \<and> B \<le> unat b \<and> unat b + 2 ^ 21 \<le> B + L" for b
    by (simp add: within_entry_def B_def L_def)
  have short: "set (blocks_of e) = {b. MASK_2MIB b = b \<and> within_entry e b} \<and> distinct (blocks_of e)"
    if "\<not> (mm_type e = TYPE_USABLE \<and> size_2MiB \<le> mm_length e)"
    using that by (auto simp: blocks_of_def Let_def within word_le_nat_alt L_def)
  have long: "set (blocks_of e) = {b. MASK_2MIB b = b \<and> within_entry e b} \<and> distinct (blocks_of e)"
    if c: "mm_type e = TYPE_USABLE" "size_2MiB \<le> mm_length e"
  proof -
    define n where "n = (L - (2 ^ 21 * k - B)) div 2 ^ 21"
    have L: "2 ^ 21 \<le> L" using c(2) by (simp add: word_le_nat_alt L_def)
    have "unat (mm_length e - (?A - mm_base e)) = L - (2 ^ 21 * k - B)"
    proof -
      have d: "unat (?A - mm_base e) = 2 ^ 21 * k - B"
        using A by (subst unat_sub) (simp_all add: word_le_nat_alt B_def)
      then have "?A - mm_base e \<le> mm_length e"
        unfolding word_le_nat_alt using A L by (simp flip: L_def)
      then show ?thesis by (simp add: unat_sub d L_def)
    qed
    then have bl: "blocks_of e = map (nth_block ?A) [0..<n]"
      using c by (simp add: blocks_of_def Let_def n_def)
    have n: "i < n \<longleftrightarrow> 2 ^ 21 * (k + i) + 2 ^ 21 \<le> B + L" for i
    proof -
      have "i < n \<longleftrightarrow> Suc i * 2 ^ 21 \<le> L - (2 ^ 21 * k - B)"
        unfolding n_def Suc_le_eq [symmetric] by (rule less_eq_div_iff_mult_less_eq) simp
      also have "\<dots> \<longleftrightarrow> 2 ^ 21 * (k + i) + 2 ^ 21 \<le> B + L"
        using A(2,3) L by simp arith
      finally show ?thesis .
    qed
    have u: "unat (nth_block ?A i) = 2 ^ 21 * (k + i)" if "i < n" for i
    proof -
      have "2 ^ 21 * k + i * 2 ^ 21 < (2::nat) ^ 64" using n [of i] that BL by simp
      then show ?thesis using unat_nth_block [of ?A i] A(1) by simp
    qed
    have "inj_on (nth_block ?A) {0..<n}"
      by (rule inj_onI) (use u in \<open>metis (no_types) add_left_cancel atLeastLessThan_iff mult_left_cancel power_not_zero zero_neq_numeral\<close>)
    moreover have "nth_block ?A ` {0..<n} = {b. MASK_2MIB b = b \<and> within_entry e b}" (is "?X = ?Y")
    proof (intro equalityI subsetI)
      fix b assume "b \<in> ?X"
      then obtain i where i: "b = nth_block ?A i" "i < n" by auto
      with u n [of i] A(2) c(1) show "b \<in> ?Y" by (simp add: within MASK_2MIB_id_iff)
    next
      fix b assume "b \<in> ?Y"
      then obtain j where j: "unat b = 2 ^ 21 * j" "B \<le> unat b" "unat b + 2 ^ 21 \<le> B + L"
        unfolding within MASK_2MIB_id_iff by (auto simp: mod_eq_0_iff_dvd elim: dvdE)
      then have "2 ^ 21 * k < 2 ^ 21 * (j + 1)" using A(3) by simp
      then have "k \<le> j" by simp
      then have "j - k < n" using j by (simp add: n)
      then have "unat (nth_block ?A (j - k)) = unat b" using u \<open>k \<le> j\<close> j by simp
      then have "b = nth_block ?A (j - k)" by (simp add: word_unat_eq_iff)
      with \<open>j - k < n\<close> show "b \<in> ?X" by auto
    qed
    ultimately show ?thesis by (simp add: bl distinct_map)
  qed
  show "set (blocks_of e) = {b. MASK_2MIB b = b \<and> within_entry e b}" and "distinct (blocks_of e)"
    using short long by blast+
qed

lemma blocks_of_disjoint:
  assumes "entry_ok e" "entry_ok f" "entries_disjoint e f"
  shows "set (blocks_of e) \<inter> set (blocks_of f) = {}"
  using assms by (auto simp: blocks_of_props within_entry_def entries_disjoint_def)

lemma concat_blocks_distinct:
  assumes "\<forall>e\<in>set es. entry_ok e" and "sorted_wrt entries_disjoint es"
  shows "distinct (concat (map blocks_of es))"
  using assms
proof (induction es)
  case Nil
  then show ?case by simp
next
  case (Cons e es)
  then have "set (blocks_of e) \<inter> set (blocks_of f) = {}" if "f \<in> set es" for f
    using that by (intro blocks_of_disjoint) auto
  with Cons show ?case by (auto simp: blocks_of_props(2))
qed

text \<open>Neither physical page 0 nor the allocator's static data lie in usable RAM.\<close>

definition kernel_excluded :: "phys \<Rightarrow> mmap_entry list \<Rightarrow> bool" where
  "kernel_excluded st mmap \<longleftrightarrow> (\<forall>e\<in>set mmap. \<not> within_entry e 0 \<and>
     \<not> within_entry e (MASK_2MIB (VIRT_TO_PHYS (stack_2MIB st))) \<and>
     \<not> within_entry e (MASK_2MIB (VIRT_TO_PHYS (stack_2MIB st + 8))))"

lemma setup_stack:
  assumes ok: "\<forall>e\<in>set mmap. entry_ok e" and dj: "sorted_wrt entries_disjoint mmap"
    and ex: "kernel_excluded st mmap"
  shows "stack_at (pmem (setup_physical_allocator st mmap)) (stack_2MIB st)
    (rev (map PHYS_TO_VIRT (concat (map blocks_of mmap))))"
proof -
  have fits: "stack_fits (stack_2MIB st) (PHYS_TO_VIRT b)"
    if "e \<in> set mmap" and "b \<in> set (blocks_of e)" for e b
  proof -
    have b: "MASK_2MIB b = b" "within_entry e b" and e: "entry_ok e"
      using that ok blocks_of_props(1) [of e] by auto
    have "PHYS_TO_VIRT b \<noteq> stack_2MIB st" "PHYS_TO_VIRT b \<noteq> stack_2MIB st + 8"
      using ex that(1) b unfolding kernel_excluded_def by (metis virt_phys(1))+
    moreover have "b \<noteq> - KERNEL_BASE"
    proof
      assume "b = - KERNEL_BASE"
      then have "unat b = 2 ^ 47" by simp
      with b e show False by (simp add: within_entry_def entry_ok_def)
    qed
    then have "PHYS_TO_VIRT b \<noteq> 0" by (simp add: PHYS_TO_VIRT_def eq_neg_iff_add_eq_0)
    ultimately show ?thesis by (simp add: stack_fits_def)
  qed
  have "distinct (map PHYS_TO_VIRT (concat (map blocks_of mmap)) @ [])"
    using concat_blocks_distinct [OF ok dj] by (simp add: distinct_map inj_on_def)
  from st.foldl_push_repr [OF stack_init_at _ this] fits show ?thesis
    by (force simp: setup_physical_allocator_def foldl_setup_entry)
qed

section \<open>Pools\<close>

definition page :: "addr \<Rightarrow> nat \<Rightarrow> addr" where
  "page p i = p + of_nat (i * 4096)"

lemma unat_page: "block_base p \<Longrightarrow> i \<le> 512 \<Longrightarrow> unat (page p i) = unat p + i * 4096"
  unfolding page_def by (rule unat_add_off) (simp add: block_base_def)

lemma page_inject:
  assumes "block_base p" "i \<le> 512" "j \<le> 512"
  shows "page p i = page p j \<longleftrightarrow> i = j"
  using assms by (simp add: word_unat_eq_iff unat_page)

lemma page_Suc: "page p i + size_4KiB = page p (Suc i)"
  and page_1: "page p (Suc 0) = p + size_4KiB"
  and page_512: "page p 512 = p + size_2MiB"
  by (simp_all add: page_def)

lemma page_le_iff: "block_base p \<Longrightarrow> i \<le> 512 \<Longrightarrow> j \<le> 512 \<Longrightarrow> page p i \<le> page p j \<longleftrightarrow> i \<le> j"
  by (simp add: word_le_nat_alt unat_page)

lemma page_in_image:
  assumes "block_base p" "i \<le> 512" "I \<subseteq> {..512}"
  shows "page p i \<in> page p ` I \<longleftrightarrow> i \<in> I"
proof
  assume "page p i \<in> page p ` I"
  then obtain j where "j \<in> I" "page p i = page p j" by auto
  with assms page_inject [of p i j] show "i \<in> I" by auto
qed simp

lemma page_block:
  assumes "block_base p" "i < 512"
  shows "MASK_2MIB (page p i) = p" and "MASK_4KIB (page p i) = page p i"
proof -
  have "unat (of_nat (i * 4096) :: u64) = i * 4096" using assms(2) by (subst unat_of_nat_u64) auto
  then show "MASK_2MIB (page p i) = p"
    using assms unfolding page_def by (intro MASK_2MIB_off) (auto simp: block_base_def)
  have "(2::nat) ^ 12 dvd unat p"
    using MASK_4KIB_2MIB [of p] assms by (simp add: block_base_def MASK_4KIB_id_iff dvd_eq_mod_eq_0)
  then show "MASK_4KIB (page p i) = page p i"
    unfolding MASK_4KIB_id_iff using assms by (simp add: unat_page dvd_eq_mod_eq_0 [symmetric])
qed

lemma page_above_header:
  assumes p: "block_base p" and i: "0 < i" "i < 512" and d: "d < size_4KiB"
  shows "page p i \<noteq> p + d" and "p < page p i" and "page p i \<noteq> 0"
proof -
  have "unat d < 4096" using d by (simp add: word_less_nat_alt)
  moreover from this p have "unat (p + d) = unat p + unat d"
    by (intro MASK_2MIB_off) (auto simp: block_base_def)
  ultimately show "page p i \<noteq> p + d"
    using unat_page [OF p, of i] i by (auto simp: word_unat_eq_iff)
  show "p < page p i" using unat_page [OF p, of i] i by (simp add: word_less_nat_alt)
  then show "page p i \<noteq> 0" by auto
qed

lemma page_stack_fits: "block_base p \<Longrightarrow> 0 < i \<Longrightarrow> i < 512 \<Longrightarrow> stack_fits p (page p i)"
  using page_above_header(1) [of p i 0] page_above_header(1) [of p i 8] page_above_header(3) [of p i 0]
  by (simp add: stack_fits_def)

text \<open>
  \<open>pool_at m p k fs\<close>: a pool at \<open>p\<close> whose pages from number \<open>k\<close> on have never been handed
  out and whose free stack holds \<open>fs\<close>; page 0 is the pool itself.
\<close>

definition pool_at :: "mem \<Rightarrow> addr \<Rightarrow> nat \<Rightarrow> addr list \<Rightarrow> bool" where
  "pool_at m p k fs \<longleftrightarrow> block_base p \<and> 1 \<le> k \<and> k \<le> 512 \<and>
     m (p + 16) = page p k \<and> m (p + 24) = p + size_2MiB \<and>
     stack_at m p fs \<and> set fs \<subseteq> page p ` {1..<k}"

definition pool_avail :: "addr \<Rightarrow> nat \<Rightarrow> addr list \<Rightarrow> addr set" where
  "pool_avail p k fs = set fs \<union> page p ` {k..<512}"

definition pool_pages :: "addr \<Rightarrow> addr set" where
  "pool_pages p = page p ` {1..<512}"

lemma pool_at_base: "pool_at m p k fs \<Longrightarrow> block_base p"
  by (simp add: pool_at_def)

lemma pool_avail_pages: "pool_at m p k fs \<Longrightarrow> pool_avail p k fs \<subseteq> pool_pages p"
  by (auto simp: pool_at_def pool_avail_def pool_pages_def)

lemma pool_pages_block: "block_base p \<Longrightarrow> q \<in> pool_pages p \<Longrightarrow> MASK_2MIB q = p"
  by (auto simp: pool_pages_def page_block)

lemma pool_at_cong:
  assumes "pool_at m p k fs" and "\<And>a. MASK_2MIB a = p \<Longrightarrow> a \<notin> {p + 32, p + 40, p + 48} \<Longrightarrow> m' a = m a"
  shows "pool_at m' p k fs"
proof -
  have base: "block_base p" and fs: "set fs \<subseteq> page p ` {1..<k}" and k: "k \<le> 512"
    and st: "stack_at m p fs"
    using assms(1) by (auto simp: pool_at_def)
  have cell: "m' (p + d) = m (p + d)" if "d < 32" for d
    using that base by (intro assms(2) MASK_2MIB_cell) (auto simp: block_base_def word_less_nat_alt)
  have eq: "m' x = m x" if x: "x \<in> set fs" for x
  proof -
    obtain i where "x = page p i" "0 < i" "i < 512" using x fs k by fastforce
    then show ?thesis
      using base page_above_header(1) [of p i] by (intro assms(2)) (auto simp: page_block)
  qed
  have "m x = m' x" if "x = p \<or> x = p + 8 \<or> x \<in> set fs" for x
    using that cell [of 0] cell [of 8] eq by auto
  then have "stack_at m' p fs" using st stack_at_cong [of p fs m m'] by blast
  then show ?thesis using assms(1) cell [of 16] cell [of 24] by (simp add: pool_at_def)
qed

lemma pool_empty_iff:
  assumes at: "pool_at m p k fs"
  shows "pool_empty m p \<longleftrightarrow> pool_avail p k fs = {}"
proof -
  have "m (p + 16) \<ge> m (p + 24) \<longleftrightarrow> k = 512"
    using at page_le_iff [of p 512 k] by (auto simp: pool_at_def page_512)
  then show ?thesis
    using at stack_at_empty [of m p fs] by (auto simp: pool_empty_def pool_avail_def pool_at_def)
qed

text \<open>What an operation on the pool \<open>p\<close> leaves alone: every other block, and the list fields.\<close>

definition pool_frame :: "addr \<Rightarrow> mem \<Rightarrow> mem \<Rightarrow> bool" where
  "pool_frame p m m' \<longleftrightarrow> (\<forall>a. MASK_2MIB a \<noteq> p \<or> a \<in> {p + 32, p + 40, p + 48} \<longrightarrow> m' a = m a)"

lemma pool_cells_block:
  assumes "block_base p" and "d < size_4KiB"
  shows "MASK_2MIB (p + d) = p"
  using assms by (intro MASK_2MIB_cell) (auto simp: block_base_def word_less_nat_alt)

lemma pool_alloc_at:
  assumes at: "pool_at m p k fs" and ne: "pool_avail p k fs \<noteq> {}"
  shows "\<exists>q m' k' fs'. pool_alloc m p = Inr (q, m') \<and> q \<in> pool_avail p k fs \<and>
    pool_at m' p k' fs' \<and> pool_avail p k' fs' = pool_avail p k fs - {q} \<and> pool_frame p m m'"
proof (cases fs)
  case Nil
  have base: "block_base p" and st: "stack_at m p []" using at Nil by (simp_all add: pool_at_def)
  have k: "k < 512" using ne Nil by (auto simp: pool_avail_def)
  let ?m = "m(p + 16 := m (p + 16) + size_4KiB)"
  have eq: "pool_alloc m p = Inr (page p k, ?m)"
    using pool_empty_iff [OF at] ne stack_at_empty [OF st] at by (simp add: pool_alloc_def pool_at_def)
  have "pool_at ?m p (Suc k) []"
    using at k Nil page_Suc [of p k] by (auto simp: pool_at_def stack_at_def)
  moreover have "pool_avail p (Suc k) [] = pool_avail p k [] - {page p k}"
  proof -
    have "{k..<512} = insert k {Suc k..<512}" using k by auto
    moreover have "page p k \<notin> page p ` {Suc k..<512}"
      using k page_in_image [OF base, of k "{Suc k..<512}"] by fastforce
    ultimately show ?thesis by (auto simp: pool_avail_def)
  qed
  moreover have "pool_frame p m ?m"
    using pool_cells_block [OF base, of 16] by (auto simp: pool_frame_def word_less_nat_alt)
  moreover have "page p k \<in> pool_avail p k fs" using k by (auto simp: pool_avail_def)
  ultimately show ?thesis using eq Nil
    by (intro exI [of _ "page p k"] exI [of _ ?m] exI [of _ "Suc k"] exI [of _ "[]"] conjI) simp_all
next
  case (Cons q fs')
  have base: "block_base p" and st: "stack_at m p (q # fs')" using at Cons by (simp_all add: pool_at_def)
  let ?m = "snd (stack_pop m p)"
  have eq: "pool_alloc m p = Inr (q, ?m)"
    using pool_empty_iff [OF at] ne stack_at_empty [OF st] stack_pop_Cons(1) [OF st]
    by (cases "stack_pop m p") (simp add: pool_alloc_def)
  have "?m (p + 16) = m (p + 16)" "?m (p + 24) = m (p + 24)"
    by (rule stack_pop_other; simp)+
  then have "pool_at ?m p k fs'"
    using at Cons stack_pop_Cons(2) [OF st] by (simp add: pool_at_def)
  moreover have "pool_avail p k fs' = pool_avail p k fs - {q}"
  proof -
    have "q \<notin> set fs'" using stack_at_distinct [OF st] by simp
    moreover obtain i where i: "q = page p i" "0 < i" "i < k" using at Cons by (auto simp: pool_at_def)
    then have "q \<notin> page p ` {k..<512}"
      using at page_in_image [OF base, of i "{k..<512}"] by (fastforce simp: pool_at_def)
    ultimately show ?thesis by (auto simp: pool_avail_def Cons)
  qed
  moreover have "pool_frame p m ?m"
  proof -
    have "MASK_2MIB p = p" "MASK_2MIB (p + 8) = p"
      using base pool_cells_block [of p 8] by (simp_all add: block_base_def word_less_nat_alt)
    then show ?thesis unfolding pool_frame_def by (auto intro!: stack_pop_other)
  qed
  moreover have "q \<in> pool_avail p k fs" by (simp add: pool_avail_def Cons)
  ultimately show ?thesis using eq
    by (intro exI [of _ q] exI [of _ ?m] exI [of _ k] exI [of _ fs'] conjI)
qed

text \<open>A page given back to its pool.\<close>

lemma pool_free_at:
  assumes at: "pool_at m p k fs" and q: "q \<in> page p ` {1..<k}" "q \<notin> set fs"
  shows "\<exists>m'. pool_free m p q = Inr m' \<and> pool_at m' p k (q # fs) \<and> pool_frame p m m'"
proof -
  have base: "block_base p" and st: "stack_at m p fs" and k: "k \<le> 512" and max: "m (p + 24) = page p 512"
    using at by (simp_all add: pool_at_def page_512)
  obtain i where i: "q = page p i" "0 < i" "i < 512" "i < k" using q k by fastforce
  have fits: "stack_fits p q" using page_stack_fits [OF base i(2,3)] i(1) by simp
  have "p < q" using page_above_header(2) [OF base i(2,3), of 0] i(1) by simp
  moreover have "q < m (p + 24)"
    using page_le_iff [OF base, of 512 i] i unfolding max by (meson not_le order.refl less_imp_le)
  moreover have "MASK_4KIB q = q" using page_block(2) [OF base i(3)] i(1) by simp
  ultimately have eq: "pool_free m p q = Inr (stack_push m p q)"
    by (simp add: pool_free_def not_le)
  have hdr: "q \<noteq> p + d" if "d < size_4KiB" for d
    using page_above_header(1) [OF base i(2,3) that] i(1) by simp
  have "stack_push m p q (p + 16) = m (p + 16)" "stack_push m p q (p + 24) = m (p + 24)"
    by (rule stack_push_other; use hdr [of 16] hdr [of 24] in \<open>simp add: word_less_nat_alt\<close>)+
  then have "pool_at (stack_push m p q) p k (q # fs)"
    using at q stack_push_at [OF st fits q(2)] by (simp add: pool_at_def)
  moreover have "pool_frame p m (stack_push m p q)"
  proof -
    have "MASK_2MIB p = p" "MASK_2MIB (p + 8) = p" "MASK_2MIB q = p"
      using base pool_cells_block [of p 8] page_block(1) [OF base i(3)] i(1)
      by (simp_all add: block_base_def word_less_nat_alt)
    moreover have "q \<notin> {p + 32, p + 40, p + 48}"
      using hdr [of 32] hdr [of 40] hdr [of 48] by (simp add: word_less_nat_alt)
    ultimately show ?thesis unfolding pool_frame_def by (auto intro!: stack_push_other)
  qed
  ultimately show ?thesis using eq by blast
qed

lemma pool_init_at:
  assumes "block_base p"
  shows "pool_at (pool_init m p) p 1 []" and "\<And>a. MASK_2MIB a \<noteq> p \<Longrightarrow> pool_init m p a = m a"
proof -
  show "pool_at (pool_init m p) p 1 []"
    using assms by (simp add: pool_at_def pool_init_def stack_init_def stack_at_def page_def Let_def)
  fix a assume "MASK_2MIB a \<noteq> p"
  then have "a \<noteq> p + d" if "d < size_4KiB" for d using pool_cells_block [OF assms that] by auto
  from this [of 0] this [of 8] this [of 16] this [of 24] this [of 32] this [of 40] this [of 48]
  show "pool_init m p a = m a"
    by (simp add: pool_init_def stack_init_def Let_def word_less_nat_alt)
qed

section \<open>The list of pools\<close>

text \<open>
  The doubly linked list from \<open>x\<close> through the \<open>next\<close> fields; every pool but the first
  has its \<open>prev\<close> set (the first one's may be stale and is never read).
\<close>

primrec links :: "mem \<Rightarrow> addr \<Rightarrow> addr list \<Rightarrow> bool" where
  "links m x [] \<longleftrightarrow> x = 0"
| "links m x (p # ps) \<longleftrightarrow> x = p \<and> p \<noteq> 0 \<and> (ps \<noteq> [] \<longrightarrow> m (hd ps + 40) = p) \<and> links m (m (p + 32)) ps"

lemma links_0 [simp]: "links m 0 ps \<longleftrightarrow> ps = []"
  by (cases ps) auto

lemma links_cong:
  assumes "links m x ps" and "\<And>p. p \<in> set ps \<Longrightarrow> m' (p + 32) = m (p + 32)"
    and "\<And>p. p \<in> set (tl ps) \<Longrightarrow> m' (p + 40) = m (p + 40)"
  shows "links m' x ps"
  using assms
proof (induction ps arbitrary: x)
  case Nil
  then show ?case by simp
next
  case (Cons p ps)
  have "m' (hd ps + 40) = m (hd ps + 40)" if "ps \<noteq> []" using that Cons.prems(3) by simp
  moreover have "links m' (m (p + 32)) ps"
    using Cons.prems list.set_sel(2) [of ps] by (intro Cons.IH) (auto, metis tl_Nil)
  ultimately show ?case using Cons.prems(1,2) by simp
qed

text \<open>A pool as the address, the first unused page and the free stack.\<close>

type_synonym pool_view = "addr \<times> nat \<times> addr list"

definition listed :: "mem \<Rightarrow> pool_view \<Rightarrow> bool" where
  "listed m = (\<lambda>(p, k, fs). pool_at m p k fs \<and> m (p + 48) = 1 \<and> pool_avail p k fs \<noteq> {})"

definition exhausted :: "mem \<Rightarrow> addr \<Rightarrow> bool" where
  "exhausted m p \<longleftrightarrow> pool_at m p 512 [] \<and> m (p + 48) = 0"

definition usable_block :: "phys \<Rightarrow> addr \<Rightarrow> bool" where
  "usable_block st b \<longleftrightarrow> block_base b \<and> b \<noteq> KERNEL_BASE \<and>
     MASK_2MIB (stack_2MIB st) \<noteq> b \<and> MASK_2MIB (stack_2MIB st + 8) \<noteq> b"

text \<open>
  \<open>phys_rep st S Ps E\<close>: \<open>S\<close> are the free 2 MiB blocks, \<open>Ps\<close> the pools on the list and \<open>E\<close>
  the pools all of whose pages are handed out.
\<close>

definition phys_rep :: "phys \<Rightarrow> addr list \<Rightarrow> pool_view list \<Rightarrow> addr list \<Rightarrow> bool" where
  "phys_rep st S Ps E \<longleftrightarrow>
     stack_at (pmem st) (stack_2MIB st) S \<and>
     (\<forall>b\<in>set (S @ map fst Ps @ E). usable_block st b) \<and>
     distinct (S @ map fst Ps @ E) \<and>
     links (pmem st) (pool_4KIB st) (map fst Ps) \<and>
     (\<forall>v\<in>set Ps. listed (pmem st) v) \<and> (\<forall>p\<in>set E. exhausted (pmem st) p)"

lemma usable_blockD:
  assumes "usable_block st b"
  shows "block_base b" "MASK_2MIB b = b" "b \<noteq> 0"
  using assms by (simp_all add: usable_block_def block_base_def)

text \<open>Writes inside one block keep everything about the other ones.\<close>

lemma list_cell:
  assumes "block_base p" "d \<in> {32, 40, 48}"
  shows "MASK_2MIB (p + d) = p"
  using assms pool_cells_block [of p d] by (auto simp: word_less_nat_alt)

lemma list_cells_distinct:
  assumes "block_base p" "block_base h" "p \<noteq> h" "d \<in> {32, 40, 48}" "e \<in> {32, 40, 48}"
  shows "p + d \<noteq> h + e"
  using list_cell [OF assms(1,4)] list_cell [OF assms(2,5)] assms(3) by metis

lemma listed_cong:
  assumes "listed m v" and "\<And>a. MASK_2MIB a = fst v \<Longrightarrow> a \<notin> {fst v + 32, fst v + 40} \<Longrightarrow> m' a = m a"
  shows "listed m' v"
proof -
  obtain p k fs where v: "v = (p, k, fs)" by (cases v)
  have at: "pool_at m p k fs" "m (p + 48) = 1" "pool_avail p k fs \<noteq> {}"
    using assms(1) by (simp_all add: listed_def v)
  have "MASK_2MIB (p + 48) = p" using list_cell [of p 48] pool_at_base [OF at(1)] by simp
  then have "m' (p + 48) = 1" using assms(2) [of "p + 48"] at(2) by (simp add: v)
  moreover have "pool_at m' p k fs" using at(1) by (rule pool_at_cong) (use assms(2) in \<open>auto simp: v\<close>)
  ultimately show ?thesis using at(3) by (simp add: listed_def v)
qed

lemma exhausted_cong:
  assumes "exhausted m p" and "\<And>a. MASK_2MIB a = p \<Longrightarrow> a \<notin> {p + 32, p + 40} \<Longrightarrow> m' a = m a"
  shows "exhausted m' p"
proof -
  have at: "pool_at m p 512 []" "m (p + 48) = 0" using assms(1) by (simp_all add: exhausted_def)
  have "MASK_2MIB (p + 48) = p" using list_cell [of p 48] pool_at_base [OF at(1)] by simp
  then have "m' (p + 48) = 0" using assms(2) [of "p + 48"] at(2) by simp
  moreover have "pool_at m' p 512 []" using at(1) by (rule pool_at_cong) (use assms(2) in auto)
  ultimately show ?thesis by (simp add: exhausted_def)
qed

lemma stack_2MIB_cong:
  assumes "stack_at m s S" and "\<forall>b\<in>set S. MASK_2MIB b = b"
    and "\<And>a. a \<in> {s, s + 8} \<union> set S \<Longrightarrow> m' a = m a"
  shows "stack_at m' s S"
  using assms(1) stack_at_cong [of s S m m'] assms(3) by auto

lemma outside_block:
  assumes "usable_block st p" and out: "\<forall>a. MASK_2MIB a \<noteq> p \<longrightarrow> m' a = m a"
  shows "stack_at m (stack_2MIB st) S \<Longrightarrow> \<forall>b\<in>set S. usable_block st b \<Longrightarrow> p \<notin> set S \<Longrightarrow>
      stack_at m' (stack_2MIB st) S"
    and "listed m v \<Longrightarrow> fst v \<noteq> p \<Longrightarrow> listed m' v"
    and "exhausted m e \<Longrightarrow> e \<noteq> p \<Longrightarrow> exhausted m' e"
proof -
  assume st: "stack_at m (stack_2MIB st) S" "\<forall>b\<in>set S. usable_block st b" "p \<notin> set S"
  have "m' a = m a" if "a \<in> {stack_2MIB st, stack_2MIB st + 8} \<union> set S" for a
    using that st(2,3) assms(1) usable_blockD(2) [of st a] by (intro out [rule_format]) (auto simp: usable_block_def)
  with st show "stack_at m' (stack_2MIB st) S"
    using usable_blockD(2) by (intro stack_2MIB_cong [of m _ S m']) auto
next
  assume "listed m v" "fst v \<noteq> p"
  show "listed m' v" by (rule listed_cong [OF \<open>listed m v\<close>]) (use \<open>fst v \<noteq> p\<close> out in auto)
next
  assume "exhausted m e" "e \<noteq> p"
  show "exhausted m' e" by (rule exhausted_cong [OF \<open>exhausted m e\<close>]) (use \<open>e \<noteq> p\<close> out in auto)
qed

lemma links_outside:
  assumes "links m x ps" and "\<forall>q\<in>set ps. block_base q" and "p \<notin> set ps"
    and out: "\<forall>a. MASK_2MIB a \<noteq> p \<longrightarrow> m' a = m a"
  shows "links m' x ps"
proof (rule links_cong [OF assms(1)])
  fix q assume "q \<in> set ps"
  with assms(2,3) list_cell [of q 32] show "m' (q + 32) = m (q + 32)" by (intro out [rule_format]) auto
next
  fix q assume "q \<in> set (tl ps)"
  then have "q \<in> set ps" by (cases ps) auto
  with assms(2,3) list_cell [of q 40] show "m' (q + 40) = m (q + 40)" by (intro out [rule_format]) auto
qed

lemma usable_block_update [simp]:
  "usable_block (st \<lparr> pmem := m \<rparr>) b = usable_block st b"
  "usable_block (st \<lparr> pool_4KIB := p \<rparr>) b = usable_block st b"
  by (simp_all add: usable_block_def)

lemma alloc_listed:
  assumes rep: "phys_rep st S ((p, k, fs) # Ps) E"
  shows "\<exists>q st'. phys_alloc_4KIB st = Inr (VIRT_TO_PHYS q, st') \<and> q \<in> pool_avail p k fs \<and>
    stack_2MIB st' = stack_2MIB st \<and>
    (if pool_avail p k fs = {q} then phys_rep st' S Ps (p # E)
     else \<exists>k' fs'. phys_rep st' S ((p, k', fs') # Ps) E \<and> pool_avail p k' fs' = pool_avail p k fs - {q})"
proof -
  have head: "pool_4KIB st = p" "p \<noteq> 0" and links: "links (pmem st) p (p # map fst Ps)"
    and at: "pool_at (pmem st) p k fs" "pmem st (p + 48) = 1" "pool_avail p k fs \<noteq> {}"
    and stk: "stack_at (pmem st) (stack_2MIB st) S"
    and ub: "usable_block st p" "\<forall>b\<in>set S. usable_block st b" "\<forall>b\<in>set (map fst Ps). usable_block st b"
      "\<forall>b\<in>set E. usable_block st b"
    and d: "p \<notin> set S" "p \<notin> set (map fst Ps)" "p \<notin> set E"
      "distinct (S @ map fst Ps @ E)"
    and Ps: "\<forall>v\<in>set Ps. listed (pmem st) v" and E: "\<forall>e\<in>set E. exhausted (pmem st) e"
    using rep by (auto simp: phys_rep_def listed_def)
  from pool_alloc_at [OF at(1,3)] obtain q m' k' fs' where
    al: "pool_alloc (pmem st) p = Inr (q, m')" "q \<in> pool_avail p k fs" "pool_at m' p k' fs'"
      "pool_avail p k' fs' = pool_avail p k fs - {q}" "pool_frame p (pmem st) m'" by blast
  have ens: "ensure_pool st = Inr st" using head by (simp add: ensure_pool_def)
  have lf: "m' (p + 32) = pmem st (p + 32)" "m' (p + 40) = pmem st (p + 40)" "m' (p + 48) = 1"
    using al(5) at(2) by (simp_all add: pool_frame_def)
  have out: "\<forall>a. MASK_2MIB a \<noteq> p \<longrightarrow> m' a = pmem st a" using al(5) by (simp add: pool_frame_def)
  have bases: "\<forall>b\<in>set (map fst Ps). block_base b" using ub(3) usable_blockD(1) by blast
  have mem: "v \<in> set Ps \<Longrightarrow> fst v \<noteq> p" "e \<in> set E \<Longrightarrow> e \<noteq> p" for v e using d(2,3) by force+
  show ?thesis
  proof (cases "pool_avail p k fs = {q}")
    case False
    define st' where "st' = st \<lparr> pmem := m' \<rparr>"
    have ne: "pool_avail p k' fs' \<noteq> {}" using False al(2,4) by blast
    then have "phys_alloc_4KIB st = Inr (VIRT_TO_PHYS q, st')"
      using pool_empty_iff [OF al(3)] by (simp add: phys_alloc_4KIB_def ens head al(1) st'_def Let_def)
    moreover have "links m' (pmem st (p + 32)) (map fst Ps)"
      by (rule links_outside [OF _ bases d(2) out]) (use links in simp)
    moreover have "m' (hd (map fst Ps) + 40) = p" if ne: "map fst Ps \<noteq> []"
    proof -
      have hd: "hd (map fst Ps) \<in> set (map fst Ps)" using ne by (rule hd_in_set)
      then have "MASK_2MIB (hd (map fst Ps) + 40) \<noteq> p"
        using list_cell [of "hd (map fst Ps)" 40] bspec [OF bases hd] d(2) hd by (metis insert_iff)
      then show ?thesis using out links ne by simp
    qed
    ultimately have "phys_alloc_4KIB st = Inr (VIRT_TO_PHYS q, st')" and "links m' p (p # map fst Ps)"
      using head(2) by (simp_all add: lf)
    moreover from this(2) have "phys_rep st' S ((p, k', fs') # Ps) E"
    proof -
      have "stack_at m' (stack_2MIB st) S" using stk ub(2) d(1) by (rule outside_block(1) [OF ub(1) out])
      moreover have "\<forall>v\<in>set Ps. listed m' v" using Ps mem(1) outside_block(2) [OF ub(1) out] by blast
      moreover have "\<forall>e\<in>set E. exhausted m' e" using E mem(2) outside_block(3) [OF ub(1) out] by blast
      moreover have "listed m' (p, k', fs')" using al(3) lf(3) ne by (simp add: listed_def)
      ultimately show ?thesis
        using ub d \<open>links m' p (p # map fst Ps)\<close> head by (auto simp: phys_rep_def st'_def)
    qed
    ultimately show ?thesis using False al(2,4) by (auto simp: st'_def)
  next
    case True
    define m'' where "m'' = m'(p + 48 := 0, p + 32 := 0, p + 40 := 0)"
    define st' where "st' = st \<lparr> pmem := m'', pool_4KIB := m' (p + 32) \<rparr>"
    have none: "pool_avail p k' fs' = {}" using True al(4) by simp
    then have k': "k' = 512" "fs' = []" using al(3) by (auto simp: pool_avail_def pool_at_def)
    have eq: "phys_alloc_4KIB st = Inr (VIRT_TO_PHYS q, st')"
      using pool_empty_iff [OF al(3)] none
      by (simp add: phys_alloc_4KIB_def ens head al(1) st'_def m''_def Let_def)
    have out': "\<forall>a. MASK_2MIB a \<noteq> p \<longrightarrow> m'' a = pmem st a"
      using out list_cell [of p] usable_blockD(1) [OF ub(1)] by (auto simp: m''_def)
    have "pool_at m'' p 512 []"
      by (rule pool_at_cong [OF al(3) [unfolded k']]) (simp add: m''_def)
    then have "exhausted m'' p" by (simp add: exhausted_def m''_def)
    moreover have "links m'' (m' (p + 32)) (map fst Ps)"
      unfolding lf by (rule links_outside [OF _ bases d(2) out']) (use links in simp)
    moreover have "stack_at m'' (stack_2MIB st) S" using stk ub(2) d(1) by (rule outside_block(1) [OF ub(1) out'])
    moreover have "\<forall>v\<in>set Ps. listed m'' v" using Ps mem(1) outside_block(2) [OF ub(1) out'] by blast
    moreover have "\<forall>e\<in>set E. exhausted m'' e" using E mem(2) outside_block(3) [OF ub(1) out'] by blast
    ultimately have "phys_rep st' S Ps (p # E)"
      using ub d by (auto simp: phys_rep_def st'_def)
    then show ?thesis using True eq al(2) by (auto simp: st'_def)
  qed
qed

text \<open>An empty list takes the top 2 MiB block as its pool; without one the ASSERT fails.\<close>

lemma ensure_pool_new:
  assumes rep: "phys_rep st (b # S) [] E"
  shows "\<exists>st'. ensure_pool st = Inr st' \<and> phys_rep st' S [(b, 1, [])] E \<and>
    pool_4KIB st' = b \<and> stack_2MIB st' = stack_2MIB st"
proof -
  have stk: "stack_at (pmem st) (stack_2MIB st) (b # S)" and p0: "pool_4KIB st = 0"
    and ub: "usable_block st b" "\<forall>c\<in>set S. usable_block st c" "\<forall>c\<in>set E. usable_block st c"
    and d: "b \<notin> set S" "b \<notin> set E" "distinct (S @ E)"
    and E: "\<forall>e\<in>set E. exhausted (pmem st) e"
    using rep by (auto simp: phys_rep_def)
  define m where "m = snd (stack_pop (pmem st) (stack_2MIB st))"
  have pop: "stack_pop (pmem st) (stack_2MIB st) = (b, m)"
    using stack_pop_Cons(1) [OF stk] by (simp add: m_def prod_eq_iff)
  have b: "b \<noteq> 0" "VIRT_TO_PHYS b \<noteq> 0" "block_base b"
    using ub(1) by (auto simp: usable_block_def block_base_def VIRT_TO_PHYS_eq_0)
  define m' where "m' = (pool_init m b)(b + 48 := 1)"
  define st' where "st' = st \<lparr> pmem := m', pool_4KIB := b \<rparr>"
  have eq: "ensure_pool st = Inr st'"
    using p0 b by (simp add: ensure_pool_def phys_alloc_2MIB_def pop Let_def st'_def m'_def)
  have out: "\<forall>a. MASK_2MIB a \<noteq> b \<longrightarrow> m' a = m a"
    using pool_init_at(2) [OF b(3)] list_cell [OF b(3), of 48] by (auto simp: m'_def)
  have "exhausted m e" if "e \<in> set E" for e
  proof -
    have e: "exhausted (pmem st) e" and "usable_block st e" using that E ub(3) by auto
    then have "m a = pmem st a" if "MASK_2MIB a = e" for a
      using that unfolding m_def by (intro stack_pop_other) (auto simp: usable_block_def)
    then show ?thesis by (intro exhausted_cong [OF e]) simp
  qed
  then have "\<forall>e\<in>set E. exhausted m' e" using d(2) outside_block(3) [OF ub(1) out] by blast
  moreover have "stack_at m' (stack_2MIB st) S"
    using stack_pop_Cons(2) [OF stk] ub(2) d(1) unfolding m_def [symmetric]
    by (rule outside_block(1) [OF ub(1) out])
  moreover have "pool_at m' b 1 []"
    by (rule pool_at_cong [OF pool_init_at(1) [OF b(3), of m]]) (simp add: m'_def)
  then have "listed m' (b, 1, [])" by (simp add: listed_def m'_def pool_avail_def)
  moreover have "m' (b + 32) = 0" by (simp add: m'_def pool_init_def Let_def)
  ultimately have "phys_rep st' S [(b, 1, [])] E"
    using ub d b(1) by (auto simp: phys_rep_def st'_def)
  with eq show ?thesis by (auto simp: st'_def)
qed

lemma phys_alloc_4KIB_ensured:
  "ensure_pool st = Inr st' \<Longrightarrow> pool_4KIB st' \<noteq> 0 \<Longrightarrow> phys_alloc_4KIB st = phys_alloc_4KIB st'"
  by (simp add: phys_alloc_4KIB_def ensure_pool_def [of st'])

lemma phys_alloc_4KIB_exhausted:
  assumes "phys_rep st [] [] E"
  shows "phys_alloc_4KIB st = Inl (Assert_failed ''phys_alloc.c'' 251)"
  using assms stack_pop_Nil [of "pmem st" "stack_2MIB st"]
  by (simp add: phys_rep_def phys_alloc_4KIB_def ensure_pool_def phys_alloc_2MIB_def)

section \<open>The 4 KiB allocator keeps the contract\<close>

definition avail_pages :: "addr list \<Rightarrow> pool_view list \<Rightarrow> addr set" where
  "avail_pages S Ps = (\<Union>(p, k, fs)\<in>set Ps. pool_avail p k fs) \<union> (\<Union>b\<in>set S. pool_pages b)"

definition phys_inv :: "phys \<Rightarrow> addr set \<Rightarrow> bool" where
  "phys_inv st A \<longleftrightarrow> (\<exists>S Ps E. phys_rep st S Ps E \<and> A = VIRT_TO_PHYS ` avail_pages S Ps)"

lemma avail_new_pool: "avail_pages (b # S) [] = avail_pages S [(b, 1, [])]"
  by (auto simp: avail_pages_def pool_avail_def pool_pages_def)

lemma pool_pages_disjoint:
  "block_base b \<Longrightarrow> block_base c \<Longrightarrow> b \<noteq> c \<Longrightarrow> pool_pages b \<inter> pool_pages c = {}"
  using pool_pages_block by blast

lemma finite_avail_pages: "finite (avail_pages S Ps)"
  by (auto simp: avail_pages_def pool_avail_def pool_pages_def)

lemma listed_avail_pages:
  assumes "listed m (p, k, fs)"
  shows "pool_avail p k fs \<subseteq> pool_pages p"
proof -
  have "pool_at m p k fs" using assms by (simp add: listed_def)
  then show ?thesis by (rule pool_avail_pages)
qed

lemma avail_pages_elim:
  assumes rep: "phys_rep st S Ps E" and q: "q \<in> avail_pages S Ps"
  obtains b where "b \<in> set (S @ map fst Ps)" "usable_block st b" "q \<in> pool_pages b"
proof -
  consider (pool) p k fs where "(p, k, fs) \<in> set Ps" "q \<in> pool_avail p k fs"
    | (block) b where "b \<in> set S" "q \<in> pool_pages b"
    using q by (auto simp: avail_pages_def)
  then show ?thesis
  proof cases
    case pool
    then have "q \<in> pool_pages p" using rep listed_avail_pages by (fastforce simp: phys_rep_def)
    moreover have "p \<in> set (S @ map fst Ps)" using pool(1) by force
    ultimately show ?thesis using rep that by (auto simp: phys_rep_def)
  next
    case block
    then show ?thesis using rep that by (auto simp: phys_rep_def)
  qed
qed

lemma avail_pages_head:
  assumes rep: "phys_rep st S ((p, k, fs) # Ps) E"
  shows "pool_avail p k fs \<inter> avail_pages S Ps = {}"
proof -
  have lst: "listed (pmem st) (p, k, fs)" and ub: "usable_block st p"
    and new: "p \<notin> set (S @ map fst Ps)"
    using rep by (auto simp: phys_rep_def)
  have own: "pool_avail p k fs \<subseteq> pool_pages p" using lst by (rule listed_avail_pages)
  have "q \<notin> pool_pages b" if "q \<in> pool_pages p" "b \<in> set (S @ map fst Ps)" for q b
  proof -
    have "usable_block st b" using rep that(2) by (auto simp: phys_rep_def)
    then show ?thesis
      using that new usable_blockD(1) [OF ub] usable_blockD(1) [of st b] pool_pages_block by metis
  qed
  moreover have "pool_avail p' k' fs' \<subseteq> pool_pages p'" if "(p', k', fs') \<in> set Ps" for p' k' fs'
    by (rule listed_avail_pages [of "pmem st"]) (use rep that in \<open>auto simp: phys_rep_def\<close>)
  moreover have "q \<in> (\<Union>b\<in>set (S @ map fst Ps). pool_pages b)" if "q \<in> avail_pages S Ps" for q
    using that calculation(2) unfolding avail_pages_def by fastforce
  ultimately show ?thesis using own by blast
qed

lemma avail_pages_Cons: "avail_pages S ((p, k, fs) # Ps) = pool_avail p k fs \<union> avail_pages S Ps"
  by (auto simp: avail_pages_def)

lemma alloc_listed_avail:
  assumes rep: "phys_rep st S ((p, k, fs) # Ps) E"
  shows "\<exists>q st' Ps' E'. phys_alloc_4KIB st = Inr (VIRT_TO_PHYS q, st') \<and>
    q \<in> avail_pages S ((p, k, fs) # Ps) \<and> phys_rep st' S Ps' E' \<and>
    avail_pages S Ps' = avail_pages S ((p, k, fs) # Ps) - {q} \<and> stack_2MIB st' = stack_2MIB st \<and>
    set (map fst Ps' @ E') = set (map fst ((p, k, fs) # Ps) @ E)"
proof -
  from alloc_listed [OF rep] obtain q st' where
    al: "phys_alloc_4KIB st = Inr (VIRT_TO_PHYS q, st')" "q \<in> pool_avail p k fs" "stack_2MIB st' = stack_2MIB st"
    and rep': "if pool_avail p k fs = {q} then phys_rep st' S Ps (p # E)
      else \<exists>k' fs'. phys_rep st' S ((p, k', fs') # Ps) E \<and> pool_avail p k' fs' = pool_avail p k fs - {q}"
    by blast
  have rest: "q \<notin> avail_pages S Ps" using avail_pages_head [OF rep] al(2) by blast
  show ?thesis
  proof (cases "pool_avail p k fs = {q}")
    case True
    with rest have "avail_pages S Ps = avail_pages S ((p, k, fs) # Ps) - {q}"
      by (auto simp: avail_pages_Cons)
    moreover have "q \<in> avail_pages S ((p, k, fs) # Ps)" using al(2) by (simp add: avail_pages_Cons)
    moreover have "set (map fst Ps @ p # E) = set (map fst ((p, k, fs) # Ps) @ E)" by auto
    ultimately show ?thesis using True rep' al(1,3) by metis
  next
    case False
    then obtain k' fs' where r: "phys_rep st' S ((p, k', fs') # Ps) E"
      "pool_avail p k' fs' = pool_avail p k fs - {q}" using rep' by auto
    with rest have "avail_pages S ((p, k', fs') # Ps) = avail_pages S ((p, k, fs) # Ps) - {q}"
      by (auto simp: avail_pages_Cons)
    moreover have "q \<in> avail_pages S ((p, k, fs) # Ps)" using al(2) by (simp add: avail_pages_Cons)
    moreover have "set (map fst ((p, k', fs') # Ps) @ E) = set (map fst ((p, k, fs) # Ps) @ E)" by simp
    ultimately show ?thesis using r(1) al(1,3) by metis
  qed
qed

lemma alloc_rep:
  assumes rep: "phys_rep st S Ps E" and ne: "avail_pages S Ps \<noteq> {}"
  shows "\<exists>q st' S' Ps' E'. phys_alloc_4KIB st = Inr (VIRT_TO_PHYS q, st') \<and> q \<in> avail_pages S Ps \<and>
    phys_rep st' S' Ps' E' \<and> avail_pages S' Ps' = avail_pages S Ps - {q} \<and>
    stack_2MIB st' = stack_2MIB st \<and> set (S' @ map fst Ps' @ E') = set (S @ map fst Ps @ E) \<and>
    length S \<le> Suc (length S')"
proof (cases Ps)
  case (Cons v Ps')
  obtain p k fs where "v = (p, k, fs)" by (cases v)
  with Cons have Ps: "Ps = (p, k, fs) # Ps'" by simp
  from alloc_listed_avail [OF rep [unfolded Ps]] obtain q st' Ps1 E' where
    al: "phys_alloc_4KIB st = Inr (VIRT_TO_PHYS q, st')" "q \<in> avail_pages S Ps" "phys_rep st' S Ps1 E'"
      "avail_pages S Ps1 = avail_pages S Ps - {q}" "stack_2MIB st' = stack_2MIB st"
      "set (map fst Ps1 @ E') = set (map fst Ps @ E)" unfolding Ps by blast
  from al(6) have "set (S @ map fst Ps1 @ E') = set (S @ map fst Ps @ E)" by simp
  moreover have "length S \<le> Suc (length S)" by simp
  ultimately show ?thesis using al(1-5) by blast
next
  case Nil
  with ne obtain b S' where S: "S = b # S'" by (cases S) (auto simp: avail_pages_def)
  have "phys_rep st (b # S') [] E" using rep Nil S by simp
  from ensure_pool_new [OF this] obtain st1 where
    st1: "ensure_pool st = Inr st1" "phys_rep st1 S' [(b, 1, [])] E" "pool_4KIB st1 = b"
      "stack_2MIB st1 = stack_2MIB st" by blast
  have "b \<noteq> 0" using rep S by (auto simp: phys_rep_def dest: usable_blockD)
  then have "phys_alloc_4KIB st = phys_alloc_4KIB st1" using st1 by (intro phys_alloc_4KIB_ensured) auto
  moreover from alloc_listed_avail [OF st1(2)] obtain q st' Ps1 E' where
    al: "phys_alloc_4KIB st1 = Inr (VIRT_TO_PHYS q, st')" "q \<in> avail_pages S' [(b, 1, [])]"
      "phys_rep st' S' Ps1 E'" "avail_pages S' Ps1 = avail_pages S' [(b, 1, [])] - {q}"
      "stack_2MIB st' = stack_2MIB st1" "set (map fst Ps1 @ E') = set (map fst [(b, 1 :: nat, [] :: addr list)] @ E)" by blast
  moreover from al(6) have "set (S' @ map fst Ps1 @ E') = set (S @ map fst Ps @ E)"
    by (auto simp: S Nil)
  moreover have "length S \<le> Suc (length S')" by (simp add: S)
  ultimately show ?thesis using st1(4) unfolding Nil S avail_new_pool by metis
qed

lemma phys_inv_nonzero: "phys_inv st A \<Longrightarrow> 0 \<notin> A"
proof
  assume "phys_inv st A" and "0 \<in> A"
  then obtain S Ps E q where rep: "phys_rep st S Ps E" and q: "q \<in> avail_pages S Ps" "VIRT_TO_PHYS q = 0"
    by (auto simp: phys_inv_def)
  from avail_pages_elim [OF rep q(1)] obtain b where b: "usable_block st b" "q \<in> pool_pages b" by blast
  then have "MASK_2MIB KERNEL_BASE = b"
    using pool_pages_block [of b q] usable_blockD q(2) by (auto simp: VIRT_TO_PHYS_eq_0)
  then show False using b(1) by (simp add: usable_block_def MASK_2MIB_def)
qed

interpretation pa: allocator phys_inv phys_alloc_4KIB
proof unfold_locales
  fix st A
  assume inv: "phys_inv st A"
  show "finite A" using inv by (auto simp: phys_inv_def finite_avail_pages)
  show "0 \<notin> A" using inv by (rule phys_inv_nonzero)
  assume "A \<noteq> {}"
  obtain S Ps E where rep: "phys_rep st S Ps E" and A: "A = VIRT_TO_PHYS ` avail_pages S Ps"
    using inv by (auto simp: phys_inv_def)
  from \<open>A \<noteq> {}\<close> have "avail_pages S Ps \<noteq> {}" by (simp add: A)
  from alloc_rep [OF rep this] obtain q st' S' Ps' E' where
    al: "phys_alloc_4KIB st = Inr (VIRT_TO_PHYS q, st')" "q \<in> avail_pages S Ps"
      "phys_rep st' S' Ps' E'" "avail_pages S' Ps' = avail_pages S Ps - {q}" by blast
  have "A - {VIRT_TO_PHYS q} = VIRT_TO_PHYS ` avail_pages S' Ps'"
    by (auto simp: A al(4))
  then have "phys_inv st' (A - {VIRT_TO_PHYS q})" using al(3) unfolding phys_inv_def by blast
  then show "\<exists>p s'. phys_alloc_4KIB st = Inr (p, s') \<and> p \<in> A \<and> phys_inv s' (A - {p})"
    using al(1,2) by (auto simp: A)
qed

section \<open>Freeing\<close>

lemma free_address:
  assumes "usable_block st b" and "q \<in> pool_pages b"
  shows "MASK_2MIB (PHYS_TO_VIRT (VIRT_TO_PHYS q)) = b"
  using assms by (simp add: pool_pages_block usable_blockD)

text \<open>A page of an exhausted pool: the pool becomes the head of the list.\<close>

lemma free_exhausted:
  assumes rep: "phys_rep st S Ps (E1 @ b # E2)" and ne: "Ps \<noteq> []" and q: "q \<in> pool_pages b"
  shows "\<exists>st'. phys_free_4KIB st (VIRT_TO_PHYS q) = Inr st' \<and>
    phys_rep st' S ((b, 512, [q]) # Ps) (E1 @ E2)"
proof -
  have at: "pool_at (pmem st) b 512 []" "pmem st (b + 48) = 0"
    and ub: "usable_block st b" "\<forall>c\<in>set S. usable_block st c" "\<forall>c\<in>set (map fst Ps). usable_block st c"
      "\<forall>c\<in>set (E1 @ E2). usable_block st c"
    and d: "b \<notin> set S" "b \<notin> set (map fst Ps)" "b \<notin> set (E1 @ E2)" "distinct (S @ map fst Ps @ E1 @ E2)"
    and stk: "stack_at (pmem st) (stack_2MIB st) S"
    and links: "links (pmem st) (pool_4KIB st) (map fst Ps)"
    and Ps: "\<forall>v\<in>set Ps. listed (pmem st) v" and E: "\<forall>e\<in>set (E1 @ E2). exhausted (pmem st) e"
    using rep by (auto simp: phys_rep_def exhausted_def)
  let ?h = "pool_4KIB st"
  have h: "?h \<noteq> 0" "?h = hd (map fst Ps)" "?h \<in> set (map fst Ps)" using ne links by (cases Ps; auto)+
  have base: "block_base b" "block_base ?h" using ub(1,3) h(3) usable_blockD(1) by blast+
  from pool_free_at [OF at(1), of q] q obtain m where
    m: "pool_free (pmem st) b q = Inr m" "pool_at m b 512 [q]" "pool_frame b (pmem st) m"
    by (auto simp: pool_pages_def)
  have lst: "m (b + 48) = 0" using m(3) at(2) by (simp add: pool_frame_def)
  define m' where "m' = m(?h + 40 := b, b + 32 := ?h, b + 40 := 0, b + 48 := 1)"
  define st' where "st' = st \<lparr> pmem := m', pool_4KIB := b \<rparr>"
  have eq: "phys_free_4KIB st (VIRT_TO_PHYS q) = Inr st'"
    using h(1) lst by (simp add: phys_free_4KIB_def free_address [OF ub(1) q, simplified] m(1) link_pool_def
        Let_def st'_def m'_def)
  have hb: "?h \<noteq> b" using d(2) h(3) by metis
  have out: "m' a = pmem st a" if "MASK_2MIB a \<noteq> b" "a \<noteq> ?h + 40" for a
    using that m(3) list_cell [OF base(1)] by (auto simp: m'_def pool_frame_def)
  have out_block: "m' a = pmem st a" if "MASK_2MIB a \<noteq> b" "MASK_2MIB a \<noteq> ?h" for a
    using out that list_cell [OF base(2), of 40] by auto
  have "m' a = pmem st a" if "a \<in> {stack_2MIB st, stack_2MIB st + 8} \<union> set S" for a
  proof (rule out_block)
    show "MASK_2MIB a \<noteq> b" using that ub(1,2) d(1) usable_blockD(2) [of st a] by (auto simp: usable_block_def)
    have "?h \<notin> set S" "usable_block st ?h" using d(4) h(3) ub(3) by (auto simp del: h(3))
    then show "MASK_2MIB a \<noteq> ?h"
      using that ub(2) usable_blockD(2) [of st a] by (auto simp: usable_block_def)
  qed
  then have "stack_at m' (stack_2MIB st) S"
    using stk ub(2) usable_blockD(2) by (intro stack_2MIB_cong [of "pmem st" _ S m']) auto
  moreover have "listed m' v" if v: "v \<in> set Ps" for v
  proof (rule listed_cong)
    show "listed (pmem st) v" using Ps v by blast
    fix a assume a: "MASK_2MIB a = fst v" "a \<notin> {fst v + 32, fst v + 40}"
    have "fst v \<noteq> b" using d(2) v by auto
    moreover have "a \<noteq> ?h + 40"
      using a list_cell [OF base(2), of 40] by auto
    ultimately show "m' a = pmem st a" using a(1) by (intro out) auto
  qed
  moreover have "exhausted m' e" if e: "e \<in> set (E1 @ E2)" for e
  proof (rule exhausted_cong)
    show "exhausted (pmem st) e" using E e by blast
    fix a assume a: "MASK_2MIB a = e" "a \<notin> {e + 32, e + 40}"
    have "e \<noteq> b" "e \<noteq> ?h" using d(3,4) e h(3) by auto
    then show "m' a = pmem st a" using a(1) by (intro out_block) auto
  qed
  moreover have "pool_at m' b 512 [q]"
  proof (rule pool_at_cong [OF m(2)])
    fix a assume "MASK_2MIB a = b" "a \<notin> {b + 32, b + 40, b + 48}"
    then show "m' a = m a" using list_cell [OF base(2), of 40] hb by (auto simp: m'_def)
  qed
  then have "listed m' (b, 512, [q])" by (simp add: listed_def m'_def pool_avail_def)
  moreover have "links m' b (b # map fst Ps)"
  proof -
    have "links m' ?h (map fst Ps)"
    proof (rule links_cong [OF links])
      fix p assume p: "p \<in> set (map fst Ps)"
      have pb: "block_base p" "p \<noteq> b" using p ub(3) usable_blockD(1) d(2) by blast+
      have "p + 32 \<noteq> ?h + 40"
      proof
        assume e: "p + 32 = ?h + 40"
        have "MASK_2MIB (p + 32) = p" "MASK_2MIB (?h + 40) = ?h"
          using list_cell [OF pb(1), of 32] list_cell [OF base(2), of 40] by simp_all
        then have "p = ?h" by (simp only: e)
        with e show False by simp
      qed
      then show "m' (p + 32) = pmem st (p + 32)"
        using pb list_cell [of p 32] by (intro out) auto
    next
      fix p assume p: "p \<in> set (tl (map fst Ps))"
      have "p \<in> set (map fst Ps)" using p ne by (cases Ps) auto
      then have pb: "block_base p" "p \<noteq> b" using ub(3) usable_blockD(1) d(2) by blast+
      have "distinct (map fst Ps)" using d(4) by simp
      then have "p \<noteq> ?h" using p h(2) by (cases "map fst Ps") auto
      then show "m' (p + 40) = pmem st (p + 40)"
        using pb list_cell [of p 40] by (intro out) auto
    qed
    moreover have "m' (?h + 40) = b" "m' (b + 32) = ?h"
      using list_cells_distinct [OF base(2,1) hb, of 40] hb by (simp_all add: m'_def)
    ultimately have "links m' b (b # map fst Ps)"
      using h(2) usable_blockD(3) [OF ub(1)] by simp
    then show ?thesis .
  qed
  ultimately have "phys_rep st' S ((b, 512, [q]) # Ps) (E1 @ E2)"
    using ub d by (auto simp: phys_rep_def st'_def)
  with eq show ?thesis by blast
qed

text \<open>A page of a listed pool that does not become whole again: it goes on its free stack.\<close>

lemma pool_full_at:
  assumes "pool_at m p k fs"
  shows "pool_full m p = (if length fs = 511 then pool_full m p else Inr False)"
proof -
  have "stack_size m p = 511 \<longleftrightarrow> length fs = 511"
    using stack_at_size [of m p fs] assms by (auto simp: pool_at_def word_unat_eq_iff)
  then show ?thesis by (auto simp: pool_full_def)
qed

lemma free_listed:
  assumes rep: "phys_rep st S (Ps1 @ (b, k, fs) # Ps2) E" and q: "q \<in> pool_pages b"
    and new: "q \<notin> pool_avail b k fs" and part: "length fs \<noteq> 510"
  shows "\<exists>st'. phys_free_4KIB st (VIRT_TO_PHYS q) = Inr st' \<and>
    phys_rep st' S (Ps1 @ (b, k, q # fs) # Ps2) E"
proof -
  let ?Ps = "Ps1 @ (b, k, fs) # Ps2"
  have at: "pool_at (pmem st) b k fs" "pmem st (b + 48) = 1"
    and ub: "usable_block st b" "\<forall>c\<in>set S. usable_block st c" "\<forall>c\<in>set E. usable_block st c"
      "\<forall>c\<in>set (map fst ?Ps). usable_block st c"
    and d: "b \<notin> set S" "b \<notin> set (map fst (Ps1 @ Ps2))" "b \<notin> set E" "distinct (S @ map fst ?Ps @ E)"
    and stk: "stack_at (pmem st) (stack_2MIB st) S"
    and links: "links (pmem st) (pool_4KIB st) (map fst ?Ps)"
    and Ps: "\<forall>v\<in>set (Ps1 @ Ps2). listed (pmem st) v" and E: "\<forall>e\<in>set E. exhausted (pmem st) e"
    using rep by (auto simp: phys_rep_def listed_def)
  have h: "pool_4KIB st \<noteq> 0" using links by (cases Ps1) auto
  obtain i where i: "q = page b i" "i \<in> {1..<512}" using q by (auto simp: pool_pages_def)
  then have "i < k" using new by (cases "k \<le> i") (auto simp: pool_avail_def)
  with i new have "q \<in> page b ` {1..<k}" "q \<notin> set fs"
    by (auto simp: pool_avail_def)
  from pool_free_at [OF at(1) this] obtain m where
    m: "pool_free (pmem st) b q = Inr m" "pool_at m b k (q # fs)" "pool_frame b (pmem st) m" by blast
  have lst: "m (b + 48) = 1" using m(3) at(2) by (simp add: pool_frame_def)
  have out: "\<forall>a. MASK_2MIB a \<noteq> b \<longrightarrow> m a = pmem st a" using m(3) by (simp add: pool_frame_def)
  define st' where "st' = st \<lparr> pmem := m \<rparr>"
  have "phys_free_4KIB st (VIRT_TO_PHYS q) = Inr st'"
    using h lst pool_full_at [OF m(2)] part
    by (simp add: phys_free_4KIB_def free_address [OF ub(1) q, simplified] m(1) Let_def st'_def)
  moreover have "phys_rep st' S (Ps1 @ (b, k, q # fs) # Ps2) E"
  proof -
    have "stack_at m (stack_2MIB st) S" using stk ub(2) d(1) by (rule outside_block(1) [OF ub(1) out])
    moreover have "\<forall>v\<in>set (Ps1 @ Ps2). listed m v"
    proof
      fix v assume v: "v \<in> set (Ps1 @ Ps2)"
      then have "fst v \<noteq> b" using d(2) by auto
      with v show "listed m v" using Ps outside_block(2) [OF ub(1) out] by blast
    qed
    moreover have "\<forall>e\<in>set E. exhausted m e" using E d(3) outside_block(3) [OF ub(1) out] by blast
    moreover have "listed m (b, k, q # fs)" using m(2) lst by (simp add: listed_def pool_avail_def)
    moreover have "links m (pool_4KIB st) (map fst ?Ps)"
    proof (rule links_cong [OF links])
      fix p assume p: "p \<in> set (map fst ?Ps)"
      show "m (p + 32) = pmem st (p + 32)"
      proof (cases "p = b")
        case True
        then show ?thesis using m(3) by (simp add: pool_frame_def)
      next
        case False
        with p ub(4) show ?thesis using out list_cell [of p 32] usable_blockD(1) by (metis insertI1)
      qed
    next
      fix p assume "p \<in> set (tl (map fst ?Ps))"
      then have p: "p \<in> set (map fst ?Ps)" by (rule list.set_sel(2) [rotated]) simp
      show "m (p + 40) = pmem st (p + 40)"
      proof (cases "p = b")
        case True
        then show ?thesis using m(3) by (simp add: pool_frame_def)
      next
        case False
        with p ub(4) show ?thesis using out list_cell [of p 40] usable_blockD(1) by (metis insertI1 insertI2)
      qed
    qed
    ultimately show ?thesis
      using ub d(4) by (auto simp: phys_rep_def st'_def)
  qed
  ultimately show ?thesis by blast
qed

text \<open>The only page out of a pool list that has become empty.\<close>

lemma free_no_pool:
  assumes rep: "phys_rep st S [] E" and b: "b \<in> set E" and q: "q \<in> pool_pages b"
  shows "phys_free_4KIB st (VIRT_TO_PHYS q) = Inl (Panic ''phys_free_4KIB bad free'')"
proof -
  have at: "pool_at (pmem st) b 512 []" and ub: "usable_block st b" and h: "pool_4KIB st = 0"
    using rep b by (auto simp: phys_rep_def exhausted_def)
  from pool_free_at [OF at, of q] q obtain m where "pool_free (pmem st) b q = Inr m"
    by (auto simp: pool_pages_def)
  with h show ?thesis by (simp add: phys_free_4KIB_def free_address [OF ub q, simplified] Let_def)
qed

text \<open>The last page of a pool: the pool is taken off the list, and giving it back faults.\<close>

lemma pool_full_all:
  assumes at: "pool_at m p k fs" and len: "length fs = 511"
  shows "pool_full m p = Inr True"
proof -
  have st: "stack_at m p fs" and base: "block_base p" and k: "1 \<le> k" "k \<le> 512"
    and fs: "set fs \<subseteq> page p ` {1..<k}" using at by (auto simp: pool_at_def)
  have "511 = card (set fs)" using len stack_at_distinct [OF st] by (simp add: distinct_card)
  also have "\<dots> \<le> card {1..<k}" using fs by (meson card_image_le card_mono finite_atLeastLessThan finite_imageI order.trans)
  finally have "k = 512" using k by simp
  then have "m (p + 16) \<ge> m (p + 24)" using at by (simp add: pool_at_def page_512)
  moreover have "stack_size m p = 511" using stack_at_size [OF st] len by (simp add: word_unat_eq_iff)
  ultimately show ?thesis by (simp add: pool_full_def)
qed

lemma not_canonical:
  assumes "KERNEL_BASE \<le> b"
  shows "\<not> canonical (PHYS_TO_VIRT b)"
proof -
  have "unat b + 0xFFFF800000000000 = (unat b - 2 ^ 47) + 2 ^ 64"
    using assms by (simp add: word_le_nat_alt)
  then have "(unat b + 0xFFFF800000000000) mod 2 ^ 64 = (unat b - 2 ^ 47) mod 2 ^ 64"
    by (simp only: mod_add_self2)
  moreover have "unat b - 2 ^ 47 < 2 ^ 64" using unsigned_less [where ?'a = nat, of b] by simp
  ultimately have "unat (PHYS_TO_VIRT b) = unat b - 2 ^ 47"
    by (simp add: PHYS_TO_VIRT_def unat_word_ariths)
  then show ?thesis
    using assms unsigned_less [where ?'a = nat, of b]
    by (auto simp: canonical_def word_le_nat_alt word_less_nat_alt)
qed

lemma free_last_page:
  assumes rep: "phys_rep st S (Ps1 @ (b, k, fs) # Ps2) E" and q: "q \<in> pool_pages b" "q \<notin> pool_avail b k fs"
    and len: "length fs = 510" and win: "KERNEL_BASE \<le> b"
  shows "phys_free_4KIB st (VIRT_TO_PHYS q) = Inl (General_protection (PHYS_TO_VIRT b))"
proof -
  have at: "pool_at (pmem st) b k fs" "pmem st (b + 48) = 1" and ub: "usable_block st b"
    and links: "links (pmem st) (pool_4KIB st) (map fst (Ps1 @ (b, k, fs) # Ps2))"
    using rep by (auto simp: phys_rep_def listed_def)
  have h: "pool_4KIB st \<noteq> 0" using links by (cases Ps1) auto
  obtain i where i: "q = page b i" "i \<in> {1..<512}" using q(1) by (auto simp: pool_pages_def)
  then have "i < k" using q(2) by (cases "k \<le> i") (auto simp: pool_avail_def)
  with i q(2) have "q \<in> page b ` {1..<k}" "q \<notin> set fs" by (auto simp: pool_avail_def)
  from pool_free_at [OF at(1) this] obtain m where
    m: "pool_free (pmem st) b q = Inr m" "pool_at m b k (q # fs)" "pool_frame b (pmem st) m" by blast
  have lst: "m (b + 48) = 1" using m(3) at(2) by (simp add: pool_frame_def)
  have "MASK_2MIB (PHYS_TO_VIRT b) = PHYS_TO_VIRT b" using usable_blockD(2) [OF ub] by (simp add: MASK_2MIB_virt)
  then show ?thesis
    using h lst pool_full_all [OF m(2)] len not_canonical [OF win]
    by (simp add: phys_free_4KIB_def phys_free_2MIB_def free_address [OF ub q(1), simplified] m(1) Let_def)
qed

text \<open>A page freed twice: it is its own successor on the free stack of its pool, which then hands it
  out again and again.\<close>

lemma free_push:
  assumes base: "block_base b" and q: "q \<in> pool_pages b" and mx: "pmem st (b + 24) = b + size_2MiB"
    and h: "pool_4KIB st \<noteq> 0" and on: "pmem st (b + 48) = 1"
    and sz: "stack_size (stack_push (pmem st) b q) b \<noteq> 511"
  shows "phys_free_4KIB st (VIRT_TO_PHYS q) = Inr (st \<lparr> pmem := stack_push (pmem st) b q \<rparr>)"
proof -
  obtain i where i: "q = page b i" "0 < i" "i < 512" using q by (auto simp: pool_pages_def)
  have pg: "MASK_2MIB q = b" "MASK_4KIB q = q" using page_block [OF base i(3)] i(1) by simp_all
  have "b < q" using page_above_header(2) [OF base i(2,3), of 0] i(1) by simp
  moreover have "q < b + size_2MiB"
  proof -
    have "\<not> page b 512 \<le> page b i" using page_le_iff [OF base, of 512 i] i(3) by simp
    then show ?thesis by (simp add: i(1) page_512 not_le)
  qed
  ultimately have "pool_free (pmem st) b q = Inr (stack_push (pmem st) b q)"
    by (simp add: pool_free_def pg(2) mx not_le)
  moreover have "b + 48 \<noteq> q"
  proof
    assume "b + 48 = q"
    moreover have "(48 :: u64) < size_4KiB" by (simp add: word_less_nat_alt)
    ultimately show False using page_above_header(1) [OF base i(2,3)] i(1) by metis
  qed
  moreover from this have "stack_push (pmem st) b q (b + 48) = 1" using stack_push_other [of "b + 48" b q "pmem st"] on by simp
  moreover have "MASK_2MIB (PHYS_TO_VIRT (VIRT_TO_PHYS q)) = b" using pg by simp
  ultimately show ?thesis using h sz by (simp add: phys_free_4KIB_def pool_full_def Let_def)
qed

lemma double_free:
  assumes rep: "phys_rep st S ((b, k, fs) # Ps) E" and q: "q \<in> pool_pages b" "q \<notin> pool_avail b k fs"
    and len: "length fs < 509"
  obtains m1 m2 where "phys_free_4KIB st (VIRT_TO_PHYS q) = Inr (st \<lparr> pmem := m1 \<rparr>)"
    and "phys_free_4KIB (st \<lparr> pmem := m1 \<rparr>) (VIRT_TO_PHYS q) = Inr (st \<lparr> pmem := m2 \<rparr>)"
    and "\<forall>a. a \<notin> {b, b + 8, q} \<longrightarrow> m1 a = pmem st a \<and> m2 a = pmem st a" and "MASK_4KIB (m1 q) = m1 q"
    and "\<exists>st3 st4. phys_alloc_4KIB (st \<lparr> pmem := m2 \<rparr>) = Inr (VIRT_TO_PHYS q, st3) \<and>
      phys_alloc_4KIB st3 = Inr (VIRT_TO_PHYS q, st4)"
proof -
  have at: "pool_at (pmem st) b k fs" "pmem st (b + 48) = 1" and ub: "usable_block st b" and h: "pool_4KIB st = b"
    using rep by (auto simp: phys_rep_def listed_def)
  have base: "block_base b" and mx: "pmem st (b + 24) = b + size_2MiB" and stk: "stack_at (pmem st) b fs"
    and fs: "set fs \<subseteq> page b ` {1..<k}" and k: "k \<le> 512" using at(1) by (simp_all add: pool_at_def)
  have b0: "b \<noteq> 0" using usable_blockD(3) [OF ub] .
  obtain i where i: "q = page b i" "0 < i" "i < 512" using q(1) by (auto simp: pool_pages_def)
  have qh: "q \<noteq> b + d" if "d < size_4KiB" for d
    using page_above_header(1) [OF base i(2,3) that] i(1) by simp
  have ne: "q \<noteq> b" "q \<noteq> b + 8" "q \<noteq> b + 24" "q \<noteq> b + 48"
    using qh [of 0] qh [of 8] qh [of 24] qh [of 48] by (simp_all add: word_less_nat_alt)
  define m1 where "m1 = stack_push (pmem st) b q"
  define m2 where "m2 = stack_push m1 b q"
  have fits: "stack_fits b q" using page_stack_fits [OF base i(2,3)] i(1) by simp
  have "q \<notin> set fs" using q(2) by (simp add: pool_avail_def)
  then have stk1: "stack_at m1 b (q # fs)" unfolding m1_def using stk fits by (intro stack_push_at)
  have s1: "unat (m1 b) = Suc (length fs)" using stack_at_size [OF stk1] by (simp add: stack_size_def)
  then have ne1: "\<not> stack_empty m1 b" by (auto simp: stack_empty_def)
  have m2: "m2 = m1(q := m1 (b + 8), b := m1 b + 1, b + 8 := q)"
    using ne1 ne by (simp add: m2_def stack_push_def Let_def fun_upd_twist)
  have "m1 (b + 8) = q" using stk1 by (simp add: stack_at_def)
  then have m2q: "m2 q = q" "m2 (b + 8) = q" "m2 b = m1 b + 1" using ne by (simp_all add: m2)
  have s2: "unat (m2 b) = length fs + 2" using s1 len by (simp add: m2q(3) unat_word_ariths)
  have oth: "m1 a = pmem st a" "m2 a = pmem st a" if "a \<notin> {b, b + 8, q}" for a
    using that by (simp_all add: m1_def m2_def stack_push_other)
  have f1: "phys_free_4KIB st (VIRT_TO_PHYS q) = Inr (st \<lparr> pmem := m1 \<rparr>)"
    unfolding m1_def
  proof (rule free_push [OF base q(1) mx _ at(2)])
    show "stack_size (stack_push (pmem st) b q) b \<noteq> 511"
      using s1 len unfolding m1_def stack_size_def by auto
  qed (simp add: h b0)
  have "phys_free_4KIB (st \<lparr> pmem := m1 \<rparr>) (VIRT_TO_PHYS q) =
      Inr ((st \<lparr> pmem := m1 \<rparr>) \<lparr> pmem := stack_push (pmem (st \<lparr> pmem := m1 \<rparr>)) b q \<rparr>)"
  proof (rule free_push [OF base q(1)])
    show "pmem (st \<lparr> pmem := m1 \<rparr>) (b + 24) = b + size_2MiB" "pmem (st \<lparr> pmem := m1 \<rparr>) (b + 48) = 1"
      using oth(1) [of "b + 24"] oth(1) [of "b + 48"] ne mx at(2) by auto
    show "stack_size (stack_push (pmem (st \<lparr> pmem := m1 \<rparr>)) b q) b \<noteq> 511"
      using s2 len unfolding m2_def stack_size_def by auto
  qed (simp add: h b0)
  then have f2: "phys_free_4KIB (st \<lparr> pmem := m1 \<rparr>) (VIRT_TO_PHYS q) = Inr (st \<lparr> pmem := m2 \<rparr>)"
    by (simp add: m2_def)
  have al: "MASK_4KIB (m1 q) = m1 q"
  proof (cases fs)
    case Nil
    then show ?thesis using stk1 by (simp add: stack_at_def MASK_4KIB_def)
  next
    case (Cons x xs)
    then obtain j where "x = page b j" "j < 512" using fs k by auto
    then have "MASK_4KIB x = x" using page_block(2) [OF base] by simp
    moreover have "m1 q = x" using stk1 Cons by (simp add: stack_at_def)
    ultimately show ?thesis by simp
  qed
  have pop: "stack_pop m b = (q, m(b + 8 := q, b := m b - 1))" if "m b \<noteq> 0" "m (b + 8) = q" "m q = q" for m
    using that ne by (simp add: stack_pop_def stack_empty_def Let_def)
  have alloc: "\<exists>st'. phys_alloc_4KIB t = Inr (VIRT_TO_PHYS q, st') \<and>
      (1 < unat (pmem t b) \<longrightarrow> st' = t \<lparr> pmem := (pmem t)(b + 8 := q, b := pmem t b - 1) \<rparr>)"
    if t: "pool_4KIB t = b" "pmem t b \<noteq> 0" "pmem t (b + 8) = q" "pmem t q = q" for t
  proof -
    have en: "ensure_pool t = Inr t" using t(1) b0 by (simp add: ensure_pool_def)
    have pa: "pool_alloc (pmem t) b = Inr (q, (pmem t)(b + 8 := q, b := pmem t b - 1))"
      using t(2) pop [OF t(2-4)] by (simp add: pool_alloc_def pool_empty_def stack_empty_def)
    have "pmem t b - 1 \<noteq> 0" if "1 < unat (pmem t b)" using that by (auto simp: unat_gt_0)
    then show ?thesis
      using t(1) b0 by (auto simp: phys_alloc_4KIB_def en pa Let_def pool_empty_def stack_empty_def)
  qed
  have "\<exists>st3 st4. phys_alloc_4KIB (st \<lparr> pmem := m2 \<rparr>) = Inr (VIRT_TO_PHYS q, st3) \<and>
      phys_alloc_4KIB st3 = Inr (VIRT_TO_PHYS q, st4)"
  proof -
    define t where "t = st \<lparr> pmem := m2 \<rparr>"
    have t: "pool_4KIB t = b" "pmem t b \<noteq> 0" "pmem t (b + 8) = q" "pmem t q = q" "1 < unat (pmem t b)"
      using h m2q s2 by (auto simp: t_def)
    define t' where "t' = t \<lparr> pmem := (pmem t)(b + 8 := q, b := pmem t b - 1) \<rparr>"
    have a1: "phys_alloc_4KIB t = Inr (VIRT_TO_PHYS q, t')" using alloc [OF t(1-4)] t(5) by (auto simp: t'_def)
    have "pool_4KIB t' = b" "pmem t' b \<noteq> 0" "pmem t' (b + 8) = q" "pmem t' q = q"
      using t ne by (auto simp: t'_def)
    from alloc [OF this] a1 show ?thesis unfolding t_def by blast
  qed
  then show thesis using that [of m1 m2, OF f1 f2 _ al] oth by blast
qed

section \<open>From the memory map to the pages\<close>

lemma MASK_4KIB_page_in_block:
  assumes "block_base b" and "MASK_4KIB q = q" and "MASK_2MIB q = b" and "q \<noteq> b"
  shows "q \<in> pool_pages b"
proof -
  have u: "unat q = unat b + unat q mod 2 ^ 21"
    using assms(3) unat_MASK_2MIB [of q] mod_less_eq_dividend [of "unat q" "2 ^ 21"] by auto
  have "(2::nat) ^ 12 dvd unat q" using assms(2) by (simp add: MASK_4KIB_id_iff dvd_eq_mod_eq_0)
  then have "(2::nat) ^ 12 dvd unat q mod 2 ^ 21" by (rule dvd_mod) (simp add: le_imp_power_dvd)
  then obtain i where i: "unat q mod 2 ^ 21 = i * 4096" by (auto simp: dvd_def)
  have "i * 4096 < (2::nat) ^ 21" using mod_less_divisor [of "2 ^ 21" "unat q"] by (simp flip: i)
  then have "i < 512" by simp
  moreover have "i \<noteq> 0"
  proof
    assume "i = 0"
    then have "unat q = unat b" using u i by simp
    with assms(4) show False by (simp add: word_unat_eq_iff)
  qed
  moreover have "unat q = unat (page b i)"
    using u i unat_page [OF assms(1), of i] \<open>i < 512\<close> by simp
  then have "q = page b i" by (simp add: word_unat_eq_iff)
  ultimately show ?thesis by (auto simp: pool_pages_def)
qed

lemma pool_pages_iff:
  assumes "block_base b"
  shows "q \<in> pool_pages b \<longleftrightarrow> MASK_4KIB q = q \<and> MASK_2MIB q = b \<and> q \<noteq> b"
proof
  assume "q \<in> pool_pages b"
  then obtain i where "q = page b i" "0 < i" "i < 512" by (auto simp: pool_pages_def)
  with assms page_block page_above_header(1) [of b i 0]
  show "MASK_4KIB q = q \<and> MASK_2MIB q = b \<and> q \<noteq> b" by auto
qed (use MASK_4KIB_page_in_block [OF assms] in blast)

text \<open>The physical pages the 4 KiB allocator gets out of a memory map.\<close>

definition usable_pages :: "mmap_entry list \<Rightarrow> addr set" where
  "usable_pages mmap = {q. MASK_4KIB q = q \<and> MASK_2MIB q \<noteq> q \<and> (\<exists>e\<in>set mmap. within_entry e (MASK_2MIB q))}"

lemma within_usable_block:
  assumes ok: "entry_ok e" and e: "e \<in> set mmap" and ex: "kernel_excluded st mmap"
    and b: "MASK_2MIB b = b" "within_entry e b"
  shows "usable_block st (PHYS_TO_VIRT b)"
proof -
  have le: "unat b + 2 ^ 21 < 2 ^ 47" using ok b(2) by (auto simp: entry_ok_def within_entry_def)
  then have u: "unat (PHYS_TO_VIRT b) = unat b + 0xFFFF800000000000"
    by (simp add: PHYS_TO_VIRT_def unat_word_ariths)
  have "b \<noteq> 0" using ex e b(2) by (auto simp: kernel_excluded_def)
  then have "PHYS_TO_VIRT b \<noteq> KERNEL_BASE" by (simp add: PHYS_TO_VIRT_def)
  moreover have "PHYS_TO_VIRT b \<noteq> 0" using u by auto
  then have "block_base (PHYS_TO_VIRT b)" using b(1) le u by (simp add: block_base_def MASK_2MIB_virt)
  moreover have "MASK_2MIB (stack_2MIB st) \<noteq> PHYS_TO_VIRT b" "MASK_2MIB (stack_2MIB st + 8) \<noteq> PHYS_TO_VIRT b"
    using ex e b(2) unfolding kernel_excluded_def MASK_2MIB_VIRT_TO_PHYS by (metis virt_phys(1))+
  ultimately show ?thesis by (simp add: usable_block_def)
qed

text \<open>After the set-up every 4 KiB page of a usable block but its first is available.\<close>

definition free_blocks :: "mmap_entry list \<Rightarrow> addr list" where
  "free_blocks mmap = concat (map blocks_of mmap)"

lemma setup_rep:
  assumes ok: "\<forall>e\<in>set mmap. entry_ok e" and dj: "sorted_wrt entries_disjoint mmap"
    and ex: "kernel_excluded st mmap"
  shows "phys_rep (setup_physical_allocator st mmap) (rev (map PHYS_TO_VIRT (free_blocks mmap))) [] []"
proof -
  have "usable_block st (PHYS_TO_VIRT b)" if "b \<in> set (free_blocks mmap)" for b
  proof -
    from that obtain e where e: "e \<in> set mmap" "b \<in> set (blocks_of e)" by (auto simp: free_blocks_def)
    then show ?thesis
      using within_usable_block [OF _ e(1) ex, of b] blocks_of_props(1) [of e] ok by auto
  qed
  moreover have "distinct (map PHYS_TO_VIRT (free_blocks mmap))"
    using concat_blocks_distinct [OF ok dj] by (simp add: distinct_map inj_on_def free_blocks_def)
  moreover have "stack_2MIB (setup_physical_allocator st mmap) = stack_2MIB st"
    "pool_4KIB (setup_physical_allocator st mmap) = 0"
    by (simp_all add: setup_physical_allocator_def)
  ultimately show ?thesis
    using setup_stack [OF ok dj ex] by (auto simp: phys_rep_def free_blocks_def usable_block_def)
qed

lemma setup_pages:
  assumes ok: "\<forall>e\<in>set mmap. entry_ok e" and ex: "kernel_excluded st mmap"
  shows "VIRT_TO_PHYS ` avail_pages (rev (map PHYS_TO_VIRT (free_blocks mmap))) [] = usable_pages mmap"
    (is "?L = ?R")
proof -
  have iff: "VIRT_TO_PHYS q \<in> usable_pages mmap \<longleftrightarrow>
      (\<exists>b\<in>set (free_blocks mmap). q \<in> pool_pages (PHYS_TO_VIRT b))" for q
  proof
    assume "VIRT_TO_PHYS q \<in> usable_pages mmap"
    then obtain e where e: "e \<in> set mmap" "within_entry e (VIRT_TO_PHYS (MASK_2MIB q))"
      and q: "MASK_4KIB q = q" "MASK_2MIB q \<noteq> q"
      by (auto simp: usable_pages_def MASK_4KIB_phys MASK_2MIB_phys MASK_2MIB_VIRT_TO_PHYS)
    let ?b = "VIRT_TO_PHYS (MASK_2MIB q)"
    have b: "MASK_2MIB ?b = ?b" by (simp add: MASK_2MIB_phys)
    then have "?b \<in> set (free_blocks mmap)"
      using e ok blocks_of_props(1) [of e] by (auto simp: free_blocks_def)
    moreover have "block_base (MASK_2MIB q)"
      using within_usable_block [OF _ e(1) ex b e(2)] ok e(1) usable_blockD(1) [of st "MASK_2MIB q"] by simp
    then have "q \<in> pool_pages (MASK_2MIB q)" using q by (simp add: pool_pages_iff)
    ultimately show "\<exists>b\<in>set (free_blocks mmap). q \<in> pool_pages (PHYS_TO_VIRT b)"
      by (intro bexI [of _ ?b]) simp_all
  next
    assume "\<exists>b\<in>set (free_blocks mmap). q \<in> pool_pages (PHYS_TO_VIRT b)"
    then obtain b e where b: "q \<in> pool_pages (PHYS_TO_VIRT b)" "e \<in> set mmap" "b \<in> set (blocks_of e)"
      by (auto simp: free_blocks_def)
    then have w: "MASK_2MIB b = b" "within_entry e b" using ok blocks_of_props(1) [of e] by auto
    then have "block_base (PHYS_TO_VIRT b)"
      using within_usable_block [OF _ b(2) ex w] ok b(2) usable_blockD(1) by blast
    then have "MASK_4KIB q = q" "MASK_2MIB q = PHYS_TO_VIRT b" "q \<noteq> PHYS_TO_VIRT b"
      using b(1) pool_pages_iff by blast+
    then show "VIRT_TO_PHYS q \<in> usable_pages mmap"
      using b(2) w(2)
      by (auto simp: usable_pages_def MASK_4KIB_phys MASK_2MIB_phys MASK_2MIB_VIRT_TO_PHYS)
  qed
  have "avail_pages (rev (map PHYS_TO_VIRT (free_blocks mmap))) [] =
      (\<Union>b\<in>set (free_blocks mmap). pool_pages (PHYS_TO_VIRT b))"
    by (auto simp: avail_pages_def)
  then have "q \<in> avail_pages (rev (map PHYS_TO_VIRT (free_blocks mmap))) [] \<longleftrightarrow> VIRT_TO_PHYS q \<in> ?R" for q
    using iff by auto
  note member = this
  show ?thesis
  proof (intro equalityI subsetI)
    fix x assume "x \<in> ?R"
    with member [of "PHYS_TO_VIRT x"] show "x \<in> ?L" by (intro image_eqI [of _ _ "PHYS_TO_VIRT x"]) simp_all
  qed (use member in auto)
qed

lemma phys_inv_empty:
  assumes "phys_inv st {}"
  shows "phys_alloc_4KIB st = Inl (Assert_failed ''phys_alloc.c'' 251)"
proof -
  obtain S Ps E where rep: "phys_rep st S Ps E" and "avail_pages S Ps = {}"
    using assms by (auto simp: phys_inv_def)
  then have "Ps = []" "S = []"
    by (cases Ps; cases S; auto simp: avail_pages_def phys_rep_def listed_def pool_pages_def)+
  with rep phys_alloc_4KIB_exhausted show ?thesis by blast
qed

section \<open>Properties\<close>

text \<open>The set-up of the physical allocator finds exactly the RAM it can use: the stack of
  2 MiB blocks holds, each once, the aligned blocks that lie wholly inside a usable entry of
  the BIOS memory map, and nothing else.\<close>

lemma setup_finds_usable_blocks:
  assumes "\<forall>e\<in>set mmap. entry_ok e" and "sorted_wrt entries_disjoint mmap"
    and "kernel_excluded st mmap"
  shows "\<exists>S. stack_at (pmem (setup_physical_allocator st mmap)) (stack_2MIB st) S \<and> distinct S \<and>
    VIRT_TO_PHYS ` set S = {b. MASK_2MIB b = b \<and> (\<exists>e\<in>set mmap. within_entry e b)}"
proof -
  let ?S = "rev (map PHYS_TO_VIRT (free_blocks mmap))"
  have st: "stack_at (pmem (setup_physical_allocator st mmap)) (stack_2MIB st) ?S"
    using setup_stack [OF assms] by (simp add: free_blocks_def)
  moreover have "VIRT_TO_PHYS ` set ?S = set (free_blocks mmap)"
    by (simp add: image_image)
  moreover have "set (free_blocks mmap) = {b. MASK_2MIB b = b \<and> (\<exists>e\<in>set mmap. within_entry e b)}"
    using assms(1) blocks_of_props(1) by (auto simp: free_blocks_def)
  ultimately show ?thesis using stack_at_distinct [OF st] by (metis (no_types))
qed

text \<open>The machine of the witnesses: 8 MiB of RAM above 4 MiB, two regions below that no block
  fits in, and the static data of the kernel in the hole between 1 and 4 MiB.\<close>

definition sample_mmap :: "mmap_entry list" where
  "sample_mmap = [\<lparr> mm_base = 0, mm_length = 0x9FC00, mm_type = 1, mm_ACPI = 1 \<rparr>,
     \<lparr> mm_base = 0x9FC00, mm_length = 0x400, mm_type = 2, mm_ACPI = 1 \<rparr>,
     \<lparr> mm_base = 0x400000, mm_length = 0x7FF000, mm_type = 1, mm_ACPI = 1 \<rparr>]"

definition sample_phys :: phys where
  "sample_phys = \<lparr> pmem = (\<lambda>_. 0), pool_4KIB = 0, stack_2MIB = 0xFFFF800000110008 \<rparr>"

lemma sample_mmap_ok:
  "\<forall>e\<in>set sample_mmap. entry_ok e" "sorted_wrt entries_disjoint sample_mmap"
  "kernel_excluded sample_phys sample_mmap"
  by (simp_all add: sample_mmap_def entry_ok_def entries_disjoint_def kernel_excluded_def
      sample_phys_def within_entry_def VIRT_TO_PHYS_def MASK_2MIB_def)

lemma setup_finds_usable_blocks_witness:
  "\<exists>S. stack_at (pmem (setup_physical_allocator sample_phys sample_mmap)) (stack_2MIB sample_phys) S \<and>
    distinct S \<and>
    VIRT_TO_PHYS ` set S = {b. MASK_2MIB b = b \<and> (\<exists>e\<in>set sample_mmap. within_entry e b)}"
  by (rule setup_finds_usable_blocks [OF sample_mmap_ok])

text \<open>C1. From the memory map to the pages: after the set-up, \<open>phys_alloc_4KIB\<close> can be called
  once for every page of the usable blocks except the page that holds the block's pool; the
  calls return those pages, each exactly once and never NULL, and the next call stops in the
  ASSERT.\<close>

theorem page_allocator_hands_out_usable_ram:
  assumes "\<forall>e\<in>set mmap. entry_ok e" and "sorted_wrt entries_disjoint mmap"
    and "kernel_excluded st mmap"
  shows "\<exists>ps st'. alloc_many phys_alloc_4KIB (card (usable_pages mmap)) (setup_physical_allocator st mmap) =
      Inr (ps, st') \<and> distinct ps \<and> set ps = usable_pages mmap \<and> 0 \<notin> set ps \<and>
    phys_alloc_4KIB st' = Inl (Assert_failed ''phys_alloc.c'' 251)"
proof -
  have inv: "phys_inv (setup_physical_allocator st mmap) (usable_pages mmap)"
    unfolding phys_inv_def using setup_rep [OF assms] setup_pages [OF assms(1,3)] by metis
  from pa.alloc_all [OF inv] phys_inv_empty phys_inv_nonzero [OF inv] show ?thesis by metis
qed

theorem page_allocator_hands_out_usable_ram_witness:
  "\<exists>ps st'. alloc_many phys_alloc_4KIB (card (usable_pages sample_mmap))
      (setup_physical_allocator sample_phys sample_mmap) =
      Inr (ps, st') \<and> distinct ps \<and> set ps = usable_pages sample_mmap \<and> 0 \<notin> set ps \<and>
    phys_alloc_4KIB st' = Inl (Assert_failed ''phys_alloc.c'' 251)"
  by (rule page_allocator_hands_out_usable_ram [OF sample_mmap_ok])

text \<open>C19. Giving a page back makes exactly that page available again, when the pool list is not
  empty and the page is not the last one its pool was missing: no ASSERT or panic, the
  allocator stays well-formed, and an exhausted pool is put back on the list.\<close>

theorem phys_free_4KIB_returns_page:
  assumes rep: "phys_rep st S Ps E" and ne: "Ps \<noteq> []"
    and b: "b \<in> set (map fst Ps @ E)" and q: "q \<in> pool_pages b" "q \<notin> avail_pages S Ps"
    and part: "\<forall>k fs. (b, k, fs) \<in> set Ps \<longrightarrow> length fs \<noteq> 510"
  shows "\<exists>st'. phys_free_4KIB st (VIRT_TO_PHYS q) = Inr st' \<and>
    phys_inv st' (VIRT_TO_PHYS ` insert q (avail_pages S Ps))"
proof (cases "b \<in> set E")
  case True
  then obtain E1 E2 where E: "E = E1 @ b # E2" by (auto simp: in_set_conv_decomp)
  from free_exhausted [OF rep [unfolded E] ne q(1)] obtain st' where
    st': "phys_free_4KIB st (VIRT_TO_PHYS q) = Inr st'" "phys_rep st' S ((b, 512, [q]) # Ps) (E1 @ E2)"
    by blast
  have "avail_pages S ((b, 512, [q]) # Ps) = insert q (avail_pages S Ps)"
    by (simp add: avail_pages_Cons pool_avail_def)
  with st' show ?thesis unfolding phys_inv_def by metis
next
  case False
  then obtain k fs Ps1 Ps2 where Ps: "Ps = Ps1 @ (b, k, fs) # Ps2"
    using b by (auto simp: in_set_conv_decomp)
  have "q \<notin> pool_avail b k fs" using q(2) by (auto simp: avail_pages_def Ps)
  from free_listed [OF rep [unfolded Ps] q(1) this] part obtain st' where
    st': "phys_free_4KIB st (VIRT_TO_PHYS q) = Inr st'" "phys_rep st' S (Ps1 @ (b, k, q # fs) # Ps2) E"
    by (auto simp: Ps)
  have "avail_pages S (Ps1 @ (b, k, q # fs) # Ps2) = insert q (avail_pages S Ps)"
    by (auto simp: Ps avail_pages_def pool_avail_def)
  with st' show ?thesis unfolding phys_inv_def by metis
qed

text \<open>Concrete pools at \<open>0xFFFF800000400000\<close>: of the first one page is handed out, of the
  second all are, and of the third all but one are back on its free stack.\<close>

abbreviation sample_pool :: addr where "sample_pool \<equiv> 0xFFFF800000400000"

definition pool_mem :: "nat \<Rightarrow> u64 \<Rightarrow> mem" where
  "pool_mem k on = (\<lambda>_. 0)(sample_pool + 16 := page sample_pool k,
     sample_pool + 24 := sample_pool + 0x200000, sample_pool + 48 := on)"

definition one_page_out :: phys where
  "one_page_out = sample_phys \<lparr> pmem := pool_mem 2 1, pool_4KIB := sample_pool \<rparr>"

definition all_pages_out :: phys where
  "all_pages_out = sample_phys \<lparr> pmem := pool_mem 512 0 \<rparr>"

definition returned :: "addr list" where
  "returned = map (page sample_pool) [2..<512]"

definition one_page_left :: phys where
  "one_page_left = sample_phys \<lparr> pmem := foldl (\<lambda>m. stack_push m sample_pool) (pool_mem 512 1) returned,
     pool_4KIB := sample_pool \<rparr>"

lemma sample_pool_usable: "usable_block sample_phys sample_pool" and sample_pool_base: "block_base sample_pool"
  by (simp_all add: usable_block_def block_base_def MASK_2MIB_def sample_phys_def)

lemma sample_page_1: "page sample_pool (Suc 0) \<notin> page sample_pool ` {2..<512}"
  by (subst page_in_image [OF sample_pool_base]) auto

lemma pool_mem_at: "1 \<le> k \<Longrightarrow> k \<le> 512 \<Longrightarrow> pool_at (pool_mem k on) sample_pool k []"
  using sample_pool_base by (simp add: pool_at_def stack_at_def pool_mem_def)

lemma one_page_out_rep: "phys_rep one_page_out [] [(sample_pool, 2, [])] []"
  using sample_pool_usable pool_mem_at [of 2 1]
  by (simp add: phys_rep_def one_page_out_def listed_def pool_avail_def)
    (simp add: stack_at_def sample_phys_def pool_mem_def)

lemma all_pages_out_rep: "phys_rep all_pages_out [] [] [sample_pool]"
  using sample_pool_usable pool_mem_at [of 512 0]
  by (simp add: phys_rep_def all_pages_out_def exhausted_def)
    (simp add: stack_at_def sample_phys_def pool_mem_def)

theorem phys_free_4KIB_returns_page_witness:
  "\<exists>st'. phys_free_4KIB one_page_out (VIRT_TO_PHYS (page sample_pool 1)) = Inr st' \<and>
    phys_inv st' (VIRT_TO_PHYS ` insert (page sample_pool 1) (avail_pages [] [(sample_pool, 2, [])]))"
proof (rule phys_free_4KIB_returns_page [OF one_page_out_rep, of sample_pool])
  show "page sample_pool 1 \<in> pool_pages sample_pool" by (auto simp: pool_pages_def)
  show "page sample_pool 1 \<notin> avail_pages [] [(sample_pool, 2, [])]"
    using sample_page_1 by (simp add: avail_pages_def pool_avail_def)
qed simp_all

text \<open>Once every page of every pool is handed out, no page can be given back:
  \<open>phys_free_4KIB\<close> stops the machine for a page that was properly allocated, because it takes
  the empty pool list for a bad free before it would put the page's own pool on it.\<close>

lemma phys_free_4KIB_panics_when_all_allocated:
  assumes "phys_rep st S [] E" and "b \<in> set E" and "q \<in> pool_pages b"
  shows "phys_free_4KIB st (VIRT_TO_PHYS q) = Inl (Panic ''phys_free_4KIB bad free'')"
  by (rule free_no_pool [OF assms])

lemma phys_free_4KIB_panics_when_all_allocated_witness:
  "phys_free_4KIB all_pages_out (VIRT_TO_PHYS (page sample_pool 7)) = Inl (Panic ''phys_free_4KIB bad free'')"
  by (rule phys_free_4KIB_panics_when_all_allocated [OF all_pages_out_rep, of sample_pool])
    (simp_all add: pool_pages_def)

text \<open>C39. When the last page of a pool in the window at \<open>KERNEL_BASE\<close> comes back, wherever the pool is on the list, the allocator hands
  the pool's virtual address to \<open>phys_free_2MIB\<close>, which takes a physical one: the address it writes
  to is not canonical, and the kernel stops with a general protection fault.\<close>

theorem freeing_last_page_of_pool_faults:
  assumes "phys_rep st S (Ps1 @ (b, k, fs) # Ps2) E" and "q \<in> pool_pages b" and "q \<notin> pool_avail b k fs"
    and "length fs = 510" and "KERNEL_BASE \<le> b"
  shows "phys_free_4KIB st (VIRT_TO_PHYS q) = Inl (General_protection (PHYS_TO_VIRT b)) \<and> \<not> canonical (PHYS_TO_VIRT b)"
  using free_last_page [OF assms] not_canonical [OF assms(5)] by simp

lemma set_returned: "set returned = page sample_pool ` {2..<512}"
  and length_returned: "length returned = 510"
  unfolding returned_def by (simp_all only: set_map set_upt length_map length_upt)

lemma distinct_returned: "distinct returned"
  unfolding returned_def distinct_map set_upt
  using page_inject [OF sample_pool_base] by (intro conjI distinct_upt inj_onI) simp

lemma foldl_push_other:
  "a \<noteq> s \<Longrightarrow> a \<noteq> s + 8 \<Longrightarrow> a \<notin> set xs \<Longrightarrow> foldl (\<lambda>m. stack_push m s) m xs a = m a"
  by (induction xs arbitrary: m) (simp_all add: stack_push_other)

lemma one_page_left_rep: "phys_rep one_page_left [] [(sample_pool, 512, rev returned)] []"
proof -
  define m where "m = foldl (\<lambda>m. stack_push m sample_pool) (pool_mem 512 1) returned"
  have low: "sample_pool + d \<notin> set returned" if "d < size_4KiB" for d
  proof
    assume "sample_pool + d \<in> set returned"
    then obtain i where "sample_pool + d = page sample_pool i" "2 \<le> i" "i < 512"
      by (auto simp: set_returned)
    with page_above_header(1) [OF sample_pool_base _ _ that, of i] show False by simp
  qed
  have cell: "m (sample_pool + d) = pool_mem 512 1 (sample_pool + d)" if "d \<in> {16, 24, 32, 48}" for d
    unfolding m_def
  proof (rule foldl_push_other)
    show "sample_pool + d \<notin> set returned" using that by (intro low) (auto simp: word_less_nat_alt)
  qed (use that in auto)
  have stk: "m 0xFFFF800000110008 = 0"
  proof -
    have in_block: "MASK_2MIB x = sample_pool" if "x \<in> set returned" for x
      using that page_block(1) [OF sample_pool_base] by (auto simp: set_returned)
    have "MASK_2MIB 0xFFFF800000110008 \<noteq> sample_pool" by (simp add: MASK_2MIB_def)
    with in_block have "(0xFFFF800000110008 :: addr) \<notin> set returned" by blast
    then have "m 0xFFFF800000110008 = pool_mem 512 1 0xFFFF800000110008"
      unfolding m_def by (intro foldl_push_other) simp_all
    then show ?thesis by (simp add: pool_mem_def)
  qed
  have "stack_at (pool_mem 512 1) sample_pool []" using pool_mem_at [of 512 1] by (simp add: pool_at_def)
  moreover have "\<forall>y\<in>set returned. stack_fits sample_pool y"
    using page_stack_fits [OF sample_pool_base] by (auto simp: set_returned)
  moreover have "distinct (returned @ [])" by (simp add: distinct_returned)
  ultimately have "stack_at m sample_pool (rev returned @ [])"
    unfolding m_def by (rule st.foldl_push_repr)
  moreover have "set returned \<subseteq> page sample_pool ` {1..<512}" by (auto simp: set_returned)
  ultimately have "pool_at m sample_pool 512 (rev returned)"
    using pool_mem_at [of 512 1] cell [of 16] cell [of 24] by (simp add: pool_at_def)
  moreover have "returned \<noteq> []" using length_returned by auto
  moreover have "m (sample_pool + 48) = 1" "m (sample_pool + 32) = 0"
    using cell [of 48] cell [of 32] by (simp_all add: pool_mem_def)
  ultimately have "listed m (sample_pool, 512, rev returned)" and "links m sample_pool [sample_pool]"
    by (simp_all add: listed_def pool_avail_def)
  moreover have "stack_at m 0xFFFF800000110008 []" using stk by (simp add: stack_at_def)
  ultimately show ?thesis
    using sample_pool_usable unfolding one_page_left_def m_def [symmetric]
    by (simp add: phys_rep_def) (simp add: sample_phys_def)
qed

theorem freeing_last_page_of_pool_faults_witness:
  "phys_free_4KIB one_page_left (VIRT_TO_PHYS (page sample_pool 1)) = Inl (General_protection 0xFFFF000000400000)"
proof -
  have "phys_free_4KIB one_page_left (VIRT_TO_PHYS (page sample_pool 1)) =
      Inl (General_protection (PHYS_TO_VIRT sample_pool)) \<and> \<not> canonical (PHYS_TO_VIRT sample_pool)"
  proof (rule freeing_last_page_of_pool_faults [of one_page_left "[]" "[]" sample_pool 512 "rev returned" "[]" "[]"])
    show "phys_rep one_page_left [] ([] @ (sample_pool, 512, rev returned) # []) []"
      using one_page_left_rep by simp
    show "page sample_pool 1 \<in> pool_pages sample_pool" by (auto simp: pool_pages_def)
    show "page sample_pool 1 \<notin> pool_avail sample_pool 512 (rev returned)"
      using sample_page_1 by (simp add: pool_avail_def set_returned)
    show "length (rev returned) = 510" by (simp add: length_returned)
  qed simp
  then show ?thesis by (simp add: PHYS_TO_VIRT_def)
qed

end
