(* ===== verification/Frames.thy ===== *)
theory Frames
  imports PhysAlloc Klib
begin

text \<open>
  What the paging code relies on in the page allocator, as a locale: which cells of memory
  belong to the allocator, that an allocation writes only those, and that everyone else
  may write all others.  The 4 KiB allocator of \<open>phys_alloc.c\<close> provides it.
\<close>

section \<open>Pages as sets of cells\<close>

lemma MASK_4KIB_idem [simp]: "MASK_4KIB (MASK_4KIB x) = MASK_4KIB x"
  by (simp add: MASK_4KIB_def and.assoc)

lemma in_page_iff:
  assumes "MASK_4KIB p = p"
  shows "in_region a p 0x1000 \<longleftrightarrow> MASK_4KIB a = p"
proof
  assume "in_region a p 0x1000"
  then have "unat (a - p) < 2 ^ 12" by (simp add: word_less_nat_alt)
  from MASK_4KIB_off(1) [OF assms this] show "MASK_4KIB a = p" by simp
next
  assume "MASK_4KIB a = p"
  then have "a - p = a AND mask 12" using MASK_plus_low(2) [of a] by (simp add: algebra_simps)
  then show "in_region a p 0x1000" using unat_low(2) [of a] by (simp add: word_less_nat_alt)
qed

section \<open>The interface\<close>

text \<open>
  \<open>own A a\<close>: with the pages \<open>A\<close> available, the cell \<open>a\<close> belongs to the allocator.  The state
  has the memory inside, which a client writes with \<open>with_mem\<close>.
\<close>

locale frame_allocator = allocator inv alloc
  for inv :: "'s \<Rightarrow> addr set \<Rightarrow> bool" and alloc :: "'s \<Rightarrow> (addr \<times> 's) res" +
  fixes mem_of :: "'s \<Rightarrow> mem" and with_mem :: "'s \<Rightarrow> mem \<Rightarrow> 's"
    and own :: "addr set \<Rightarrow> addr \<Rightarrow> bool"
  assumes mem_with: "mem_of (with_mem s m) = m"
    and page_aligned: "inv s A \<Longrightarrow> p \<in> A \<Longrightarrow> MASK_4KIB p = p"
    and own_page: "inv s A \<Longrightarrow> p \<in> A \<Longrightarrow> MASK_4KIB a = PHYS_TO_VIRT p \<Longrightarrow> \<not> own (A - {p}) a"
    and own_avail: "inv s A \<Longrightarrow> p \<in> A \<Longrightarrow> MASK_4KIB a = PHYS_TO_VIRT p \<Longrightarrow> own A a"
    and own_mono: "B \<subseteq> A \<Longrightarrow> own B a \<Longrightarrow> own A a"
    and alloc_frame: "inv s A \<Longrightarrow> A \<noteq> {} \<Longrightarrow> alloc s = Inr (p, s') \<Longrightarrow> \<not> own A a \<Longrightarrow> mem_of s' a = mem_of s a"
    and write_other: "inv s A \<Longrightarrow> (\<And>a. own A a \<Longrightarrow> m a = mem_of s a) \<Longrightarrow> inv (with_mem s m) A"
begin

text \<open>A page allocated and cleared: nothing but the allocator's cells has changed, the new
  page is all zero and the client's from now on.\<close>

lemma alloc_cleared:
  assumes inv: "inv s A" and ne: "A \<noteq> {}"
  shows "\<exists>p s'. alloc s = Inr (p, s') \<and> p \<in> A \<and> p \<noteq> 0 \<and>
    (\<forall>m. (\<forall>a. own (A - {p}) a \<longrightarrow> m a = mem_of s' a) \<longrightarrow> inv (with_mem s' m) (A - {p})) \<and>
    (\<forall>a. own (A - {p}) a \<longrightarrow> clear_cells (mem_of s') (PHYS_TO_VIRT p) 0x1000 a = mem_of s' a) \<and>
    (\<forall>a. \<not> own A a \<longrightarrow> clear_cells (mem_of s') (PHYS_TO_VIRT p) 0x1000 a = mem_of s a) \<and>
    (\<forall>a. MASK_4KIB a = PHYS_TO_VIRT p \<longrightarrow> clear_cells (mem_of s') (PHYS_TO_VIRT p) 0x1000 a = 0)"
proof -
  from alloc_some [OF assms] obtain p s' where
    p: "alloc s = Inr (p, s')" "p \<in> A" "inv s' (A - {p})" by blast
  have "MASK_4KIB p = p" using inv p(2) by (rule page_aligned)
  then have "MASK_4KIB (PHYS_TO_VIRT p) = PHYS_TO_VIRT p" by (simp add: MASK_4KIB_virt)
  note clear = in_page_iff [OF this]
  have "clear_cells (mem_of s') (PHYS_TO_VIRT p) 0x1000 a = mem_of s' a" if "\<not> MASK_4KIB a = PHYS_TO_VIRT p" for a
    using that by (simp add: clear_cells_def clear)
  moreover have "clear_cells (mem_of s') (PHYS_TO_VIRT p) 0x1000 a = 0" if "MASK_4KIB a = PHYS_TO_VIRT p" for a
    using that by (simp add: clear_cells_def clear)
  moreover have "p \<noteq> 0" using nonzero [OF inv] p(2) by auto
  ultimately show ?thesis
    using p own_page [OF inv p(2)] own_avail [OF inv p(2)] alloc_frame [OF inv ne p(1)]
      write_other [OF p(3)]
    by (intro exI [of _ p] exI [of _ s']) metis
qed

end

section \<open>The 4 KiB allocator provides it\<close>

definition own_cells :: "addr \<Rightarrow> addr set \<Rightarrow> addr set \<Rightarrow> addr \<Rightarrow> bool" where
  "own_cells s B A a \<longleftrightarrow> a \<in> {s, s + 8} \<or> MASK_4KIB a \<in> B \<or> VIRT_TO_PHYS (MASK_4KIB a) \<in> A"

text \<open>\<open>frames_inv s B st A\<close>: the well-formed allocator with its static stack at \<open>s\<close>, the 2 MiB
  blocks \<open>B\<close> under its management and the pages \<open>A\<close> available.\<close>

definition frames_inv :: "addr \<Rightarrow> addr set \<Rightarrow> phys \<Rightarrow> addr set \<Rightarrow> bool" where
  "frames_inv s B st A \<longleftrightarrow> stack_2MIB st = s \<and>
     (\<exists>S Ps E. phys_rep st S Ps E \<and> A = VIRT_TO_PHYS ` avail_pages S Ps \<and> B = set (S @ map fst Ps @ E))"

lemma frames_inv_phys_inv: "frames_inv s B st A \<Longrightarrow> phys_inv st A"
  by (auto simp: frames_inv_def phys_inv_def)

lemma header_cell: "block_base b \<Longrightarrow> d < size_4KiB \<Longrightarrow> MASK_4KIB (b + d) = b"
  using MASK_4KIB_off(1) [of b d] MASK_4KIB_2MIB [of b] by (simp add: block_base_def word_less_nat_alt)

lemma pool_at_own:
  assumes at: "pool_at m p k fs" and hdr: "\<And>d. d < size_4KiB \<Longrightarrow> m' (p + d) = m (p + d)"
    and fs: "\<And>a. a \<in> set fs \<Longrightarrow> m' a = m a"
  shows "pool_at m' p k fs"
proof -
  have "m x = m' x" if "x = p \<or> x = p + 8 \<or> x \<in> set fs" for x
    using that hdr [of 0] hdr [of 8] fs by (auto simp: word_less_nat_alt)
  then have "stack_at m p fs = stack_at m' p fs" by (rule stack_at_cong)
  with at hdr [of 16] hdr [of 24] show ?thesis by (simp add: pool_at_def word_less_nat_alt)
qed

lemma phys_rep_own:
  assumes rep: "phys_rep st S Ps E"
    and own: "\<And>a. own_cells (stack_2MIB st) (set (S @ map fst Ps @ E)) (VIRT_TO_PHYS ` avail_pages S Ps) a \<Longrightarrow>
      m a = pmem st a"
  shows "phys_rep (st \<lparr> pmem := m \<rparr>) S Ps E"
proof -
  let ?B = "set (S @ map fst Ps @ E)"
  have ub: "usable_block st b" if "b \<in> ?B" for b using rep that by (auto simp: phys_rep_def)
  have hdr: "m (b + d) = pmem st (b + d)" if "b \<in> ?B" "d < size_4KiB" for b d
    using that header_cell [of b d] usable_blockD(1) [OF ub] by (intro own) (auto simp: own_cells_def)
  have page: "m q = pmem st q" if q: "q \<in> avail_pages S Ps" for q
  proof (rule own)
    from avail_pages_elim [OF rep q] obtain b where "usable_block st b" "q \<in> pool_pages b" by blast
    then have "MASK_4KIB q = q" using usable_blockD(1) by (auto simp: pool_pages_def page_block)
    then show "own_cells (stack_2MIB st) ?B (VIRT_TO_PHYS ` avail_pages S Ps) q"
      using q by (simp add: own_cells_def)
  qed
  have lst: "listed m v" if v: "v \<in> set Ps" for v
  proof -
    obtain p k fs where [simp]: "v = (p, k, fs)" by (cases v)
    have "listed (pmem st) v" using rep v by (simp add: phys_rep_def)
    then have at: "pool_at (pmem st) p k fs" "pmem st (p + 48) = 1" "pool_avail p k fs \<noteq> {}"
      by (simp_all add: listed_def)
    have p: "p \<in> ?B" using v by force
    have "set fs \<subseteq> avail_pages S Ps" using v by (auto simp: avail_pages_def pool_avail_def)
    then have "pool_at m p k fs" using pool_at_own [OF at(1)] hdr [OF p] page by blast
    then show ?thesis using at hdr [OF p, of 48] by (simp add: listed_def word_less_nat_alt)
  qed
  moreover have "exhausted m e" if e: "e \<in> set E" for e
  proof -
    have "exhausted (pmem st) e" using rep e by (simp add: phys_rep_def)
    then show ?thesis
      using pool_at_own [of "pmem st" e 512 "[]" m] hdr [of e] e
      by (simp add: exhausted_def word_less_nat_alt)
  qed
  moreover have "stack_at m (stack_2MIB st) S"
  proof -
    have "pmem st a = m a" if "a = stack_2MIB st \<or> a = stack_2MIB st + 8 \<or> a \<in> set S" for a
    proof (cases "a \<in> set S")
      case True
      then show ?thesis using hdr [of a 0] by (simp add: word_less_nat_alt)
    next
      case False
      then show ?thesis using that own [of a] by (auto simp: own_cells_def)
    qed
    then have "stack_at (pmem st) (stack_2MIB st) S = stack_at m (stack_2MIB st) S" by (rule stack_at_cong)
    then show ?thesis using rep by (simp add: phys_rep_def)
  qed
  moreover have "links m (pool_4KIB st) (map fst Ps)"
  proof (rule links_cong)
    show "links (pmem st) (pool_4KIB st) (map fst Ps)" using rep by (simp add: phys_rep_def)
    show "m (p + 32) = pmem st (p + 32)" if "p \<in> set (map fst Ps)" for p
      using that by (intro hdr) (auto simp: word_less_nat_alt)
    show "m (p + 40) = pmem st (p + 40)" if "p \<in> set (tl (map fst Ps))" for p
      using that list.set_sel(2) [of "map fst Ps"]
      by (intro hdr) (cases Ps, auto simp: word_less_nat_alt)
  qed
  ultimately show ?thesis using rep by (simp add: phys_rep_def)
qed

lemma phys_rep_size: "phys_rep st S Ps E \<Longrightarrow> unat (pmem st (stack_2MIB st)) = length S"
  using stack_at_size [of "pmem st" "stack_2MIB st" S] by (simp add: phys_rep_def stack_size_def)

text \<open>An allocation writes the static stack and the header of the pool it takes the page from.\<close>

abbreviation header_cells :: "addr \<Rightarrow> addr set" where
  "header_cells p \<equiv> {p, p + 8, p + 16, p + 24, p + 32, p + 40, p + 48}"

lemma ensure_pool_writes:
  assumes "ensure_pool st = Inr st1" and "a \<notin> {stack_2MIB st, stack_2MIB st + 8}"
    and "a \<notin> header_cells (pool_4KIB st1)"
  shows "pmem st1 a = pmem st a" and "stack_2MIB st1 = stack_2MIB st"
  using assms stack_pop_other [of a "stack_2MIB st" "pmem st"]
  by (auto simp: ensure_pool_def phys_alloc_2MIB_def pool_init_def stack_init_def Let_def
      split: if_splits prod.splits)

lemma pool_alloc_writes:
  assumes "pool_alloc m p = Inr (q, m')" and "a \<notin> header_cells p"
  shows "m' a = m a"
proof (cases "stack_empty m p")
  case True
  with assms show ?thesis by (auto simp: pool_alloc_def Let_def split: if_splits)
next
  case False
  with assms(1) have "m' = snd (stack_pop m p)" by (auto simp: pool_alloc_def split: if_splits)
  with assms(2) show ?thesis by (simp add: stack_pop_other)
qed

lemma phys_alloc_4KIB_writes:
  assumes ens: "ensure_pool st = Inr st1" and al: "phys_alloc_4KIB st = Inr (q, st')"
    and a: "a \<notin> {stack_2MIB st, stack_2MIB st + 8}" "a \<notin> header_cells (pool_4KIB st1)"
  shows "pmem st' a = pmem st a"
proof -
  from al ens obtain r m where m: "pool_alloc (pmem st1) (pool_4KIB st1) = Inr (r, m)"
    and st': "pmem st' = m \<or> pmem st' = m(pool_4KIB st1 + 48 := 0, pool_4KIB st1 + 32 := 0, pool_4KIB st1 + 40 := 0)"
    by (auto simp: phys_alloc_4KIB_def and_then_eq_Inr Let_def split: if_splits)
  have "m a = pmem st a"
    using pool_alloc_writes [OF m a(2)] ensure_pool_writes(1) [OF ens a] by simp
  with st' a(2) show ?thesis by auto
qed

lemma frames_alloc:
  assumes inv: "frames_inv s B st A" and ne: "A \<noteq> {}"
  shows "\<exists>p st'. phys_alloc_4KIB st = Inr (p, st') \<and> p \<in> A \<and> frames_inv s B st' (A - {p}) \<and>
    (\<forall>a. \<not> own_cells s B A a \<longrightarrow> pmem st' a = pmem st a) \<and> unat (pmem st s) \<le> Suc (unat (pmem st' s))"
proof -
  from inv obtain S Ps E where rep: "phys_rep st S Ps E" and A: "A = VIRT_TO_PHYS ` avail_pages S Ps"
    and B: "B = set (S @ map fst Ps @ E)" and s: "stack_2MIB st = s" by (auto simp: frames_inv_def)
  from ne have "avail_pages S Ps \<noteq> {}" by (simp add: A)
  from alloc_rep [OF rep this] obtain q st' S' Ps' E' where
    al: "phys_alloc_4KIB st = Inr (VIRT_TO_PHYS q, st')" "q \<in> avail_pages S Ps"
      "phys_rep st' S' Ps' E'" "avail_pages S' Ps' = avail_pages S Ps - {q}"
      "stack_2MIB st' = stack_2MIB st" "set (S' @ map fst Ps' @ E') = B" "length S \<le> Suc (length S')"
    unfolding B by blast
  have "unat (pmem st s) = length S" "unat (pmem st' s) = length S'"
    using phys_rep_size [OF rep] phys_rep_size [OF al(3)] al(5) s by simp_all
  then have blocks: "unat (pmem st s) \<le> Suc (unat (pmem st' s))" using al(7) by simp
  have "A - {VIRT_TO_PHYS q} = VIRT_TO_PHYS ` avail_pages S' Ps'" by (auto simp: A al(4))
  then have inv': "frames_inv s B st' (A - {VIRT_TO_PHYS q})"
    unfolding frames_inv_def using al(3,5,6) s by metis
  obtain st1 where ens: "ensure_pool st = Inr st1" "pool_4KIB st1 \<in> B"
  proof (cases Ps)
    case (Cons v Ps')
    then have "pool_4KIB st = fst v" "pool_4KIB st \<noteq> 0" using rep by (auto simp: phys_rep_def)
    then show ?thesis using that [of st] Cons by (simp add: ensure_pool_def B)
  next
    case Nil
    then obtain b S'' where "S = b # S''" using al(2) by (cases S) (auto simp: avail_pages_def)
    then show ?thesis using that rep Nil ensure_pool_new [of st b S'' E] by (auto simp: B)
  qed
  have base: "block_base (pool_4KIB st1)"
    using ens(2) rep usable_blockD(1) unfolding B phys_rep_def by blast
  have "pmem st' a = pmem st a" if a: "\<not> own_cells s B A a" for a
  proof (rule phys_alloc_4KIB_writes [OF ens(1) al(1)])
    show "a \<notin> {stack_2MIB st, stack_2MIB st + 8}" using a s by (simp add: own_cells_def)
    have "MASK_4KIB a \<noteq> pool_4KIB st1" using a ens(2) by (auto simp: own_cells_def)
    then have "a \<noteq> pool_4KIB st1 + d" if "d < size_4KiB" for d using header_cell [OF base that] by auto
    from this [of 0] this [of 8] this [of 16] this [of 24] this [of 32] this [of 40] this [of 48]
    show "a \<notin> header_cells (pool_4KIB st1)" by (simp add: word_less_nat_alt)
  qed
  with al(1,2) inv' blocks show ?thesis by (auto simp: A)
qed

lemma frames_alloc_blocks:
  assumes "frames_inv s B st A" and "A \<noteq> {}" and "phys_alloc_4KIB st = Inr (p, st')"
  shows "unat (pmem st s) \<le> Suc (unat (pmem st' s))"
  using frames_alloc [OF assms(1,2)] assms(3) by auto

text \<open>A 2 MiB block: the top one of the stack leaves the management with all its pages.\<close>

lemma frames_alloc_2MIB:
  assumes inv: "frames_inv s B st A" and blocks: "0 < unat (pmem st s)"
  shows "\<exists>b st'. phys_alloc_2MIB st = (VIRT_TO_PHYS b, st') \<and> b \<in> B \<and> usable_block st b \<and>
    VIRT_TO_PHYS ` pool_pages b \<subseteq> A \<and>
    frames_inv s (B - {b}) st' (A - VIRT_TO_PHYS ` pool_pages b) \<and>
    (\<forall>a. a \<notin> {s, s + 8} \<longrightarrow> pmem st' a = pmem st a) \<and> unat (pmem st s) = Suc (unat (pmem st' s))"
proof -
  from inv obtain S Ps E where rep: "phys_rep st S Ps E" and A: "A = VIRT_TO_PHYS ` avail_pages S Ps"
    and B: "B = set (S @ map fst Ps @ E)" and s: "stack_2MIB st = s" by (auto simp: frames_inv_def)
  have "unat (pmem st s) = length S" using phys_rep_size [OF rep] s by simp
  with blocks obtain b S' where S: "S = b # S'" by (cases S) auto
  have d: "distinct (b # S' @ map fst Ps @ E)" and ub: "usable_block st b" using rep by (simp_all add: phys_rep_def S)
  have stk: "stack_at (pmem st) s (b # S')" using rep S s by (simp add: phys_rep_def)
  define m where "m = snd (stack_pop (pmem st) s)"
  define st' where "st' = st \<lparr> pmem := m \<rparr>"
  have pop: "stack_pop (pmem st) s = (b, m)" and stk': "stack_at m s S'"
    using stack_pop_Cons [OF stk] by (simp_all add: m_def prod_eq_iff)
  have al: "phys_alloc_2MIB st = (VIRT_TO_PHYS b, st')"
    using usable_blockD(3) [OF ub] by (simp add: phys_alloc_2MIB_def s pop st'_def)
  have oth: "m a = pmem st a" if "a \<notin> {s, s + 8}" for a
    unfolding m_def using that by (intro stack_pop_other) auto
  have cell: "m a = pmem st a" if "MASK_2MIB a = c" "c \<in> set (map fst Ps @ E)" for a c
  proof (rule oth)
    have "usable_block st c" using rep that(2) by (simp add: phys_rep_def)
    then show "a \<notin> {s, s + 8}" using that(1) s by (auto simp: usable_block_def)
  qed
  have "links m (pool_4KIB st) (map fst Ps)"
  proof (rule links_cong)
    show "links (pmem st) (pool_4KIB st) (map fst Ps)" using rep by (simp add: phys_rep_def)
    have base: "block_base p" if "p \<in> set (map fst Ps)" for p
      using rep that usable_blockD(1) by (auto simp: phys_rep_def)
    show "m (p + 32) = pmem st (p + 32)" if "p \<in> set (map fst Ps)" for p
      using that list_cell [OF base [OF that], of 32] by (intro cell [of _ p]) auto
    show "m (p + 40) = pmem st (p + 40)" if "p \<in> set (tl (map fst Ps))" for p
    proof -
      have "p \<in> set (map fst Ps)" using that by (rule list.set_sel(2) [rotated]) (use that in auto)
      then show ?thesis using list_cell [OF base, of p 40] by (intro cell [of _ p]) auto
    qed
  qed
  moreover have "listed m v" if v: "v \<in> set Ps" for v
  proof -
    obtain p k fs where [simp]: "v = (p, k, fs)" by (cases v)
    have l: "listed (pmem st) (p, k, fs)" using rep v by (simp add: phys_rep_def)
    have "p \<in> set (map fst Ps @ E)" using v by force
    then have "m a = pmem st a" if "MASK_2MIB a = p" for a using cell [OF that] by blast
    then show ?thesis using listed_cong [OF l] by simp
  qed
  moreover have "exhausted m e" if e: "e \<in> set E" for e
  proof (rule exhausted_cong)
    show "exhausted (pmem st) e" using rep e by (simp add: phys_rep_def)
    show "m a = pmem st a" if "MASK_2MIB a = e" for a using cell [OF that] e by simp
  qed
  ultimately have rep': "phys_rep st' S' Ps E"
    using rep stk' s by (simp add: phys_rep_def st'_def S usable_block_def)
  have av: "avail_pages S Ps = pool_pages b \<union> avail_pages S' Ps" by (auto simp: avail_pages_def S)
  have "pool_pages b \<inter> avail_pages S' Ps = {}"
  proof -
    have "q \<notin> avail_pages S' Ps" if q: "q \<in> pool_pages b" for q
    proof
      assume "q \<in> avail_pages S' Ps"
      from avail_pages_elim [OF rep' this] obtain c where
        c: "c \<in> set (S' @ map fst Ps)" "usable_block st' c" "q \<in> pool_pages c" by blast
      then have "c = b" using q pool_pages_block usable_blockD(1) ub by metis
      with c(1) d show False by auto
    qed
    then show ?thesis by blast
  qed
  then have "A - VIRT_TO_PHYS ` pool_pages b = VIRT_TO_PHYS ` avail_pages S' Ps"
    by (auto simp: A av)
  moreover have "B - {b} = set (S' @ map fst Ps @ E)" using d by (auto simp: B S)
  ultimately have "frames_inv s (B - {b}) st' (A - VIRT_TO_PHYS ` pool_pages b)"
    unfolding frames_inv_def using rep' s by (intro conjI exI [of _ S'] exI [of _ Ps] exI [of _ E]) (simp_all add: st'_def)
  moreover have "unat (pmem st s) = Suc (unat (pmem st' s))"
    using stack_at_size [OF stk] stack_at_size [OF stk'] by (simp add: stack_size_def st'_def)
  moreover have "VIRT_TO_PHYS ` pool_pages b \<subseteq> A" by (auto simp: A av)
  moreover have "b \<in> B" by (simp add: B S)
  moreover have "pmem st' a = pmem st a" if "a \<notin> {s, s + 8}" for a using oth [OF that] by (simp add: st'_def)
  ultimately show ?thesis using al ub by (intro exI [of _ b] exI [of _ st']) simp
qed

lemma frames_avail_aligned:
  assumes "frames_inv s B st A" and "p \<in> A"
  shows "MASK_4KIB p = p"
proof -
  from assms obtain S Ps E q where rep: "phys_rep st S Ps E" and q: "p = VIRT_TO_PHYS q" "q \<in> avail_pages S Ps"
    by (auto simp: frames_inv_def)
  from avail_pages_elim [OF rep q(2)] obtain b where b: "usable_block st b" "q \<in> pool_pages b" by blast
  then have "MASK_4KIB q = q" using pool_pages_iff usable_blockD(1) by blast
  then show ?thesis by (simp add: q(1) MASK_4KIB_phys)
qed

lemma frames_avail_page:
  assumes "frames_inv s B st A" and "p \<in> A" and "MASK_4KIB a = PHYS_TO_VIRT p"
  shows "MASK_4KIB a \<notin> B" and "a \<notin> {s, s + 8}"
proof -
  from assms(1,2) obtain S Ps E q where rep: "phys_rep st S Ps E" and q: "p = VIRT_TO_PHYS q" "q \<in> avail_pages S Ps"
    and B: "B = set (S @ map fst Ps @ E)" and s: "stack_2MIB st = s" by (auto simp: frames_inv_def)
  from avail_pages_elim [OF rep q(2)] obtain b where b: "usable_block st b" "q \<in> pool_pages b" by blast
  have base: "block_base b" using usable_blockD(1) [OF b(1)] .
  have pg: "MASK_4KIB q = q" "MASK_2MIB q = b" "q \<noteq> b" using b(2) pool_pages_iff [OF base] by auto
  have a: "MASK_4KIB a = q" using assms(3) q(1) by simp
  have "MASK_2MIB q \<noteq> q" using pg by simp
  moreover have "MASK_2MIB c = c" if "c \<in> B" for c
    using rep that usable_blockD(2) unfolding B phys_rep_def by blast
  ultimately show "MASK_4KIB a \<notin> B" using a by auto
  have "MASK_2MIB a = MASK_2MIB (MASK_4KIB a)"
    by (simp add: MASK_2MIB_def MASK_4KIB_def and.assoc)
  then have "MASK_2MIB a = b" using a pg by simp
  then show "a \<notin> {s, s + 8}" using b(1) s by (auto simp: usable_block_def)
qed

lemma own_cells_mono: "A' \<subseteq> A \<Longrightarrow> own_cells s B A' a \<Longrightarrow> own_cells s B A a"
  by (auto simp: own_cells_def)

interpretation fa: frame_allocator "frames_inv s B" phys_alloc_4KIB pmem "\<lambda>st m. st \<lparr> pmem := m \<rparr>" "own_cells s B"
  for s B
proof unfold_locales
  fix st A p st' a m
  show "finite A" "0 \<notin> A" if "frames_inv s B st A"
    using frames_inv_phys_inv [OF that] pa.finite_avail pa.nonzero by blast+
  show "\<exists>p s'. phys_alloc_4KIB st = Inr (p, s') \<and> p \<in> A \<and> frames_inv s B s' (A - {p})"
    if "frames_inv s B st A" "A \<noteq> {}"
    using frames_alloc [OF that] by blast
  show "pmem st' a = pmem st a"
    if "frames_inv s B st A" "A \<noteq> {}" "phys_alloc_4KIB st = Inr (p, st')" "\<not> own_cells s B A a"
    using frames_alloc [OF that(1,2)] that(3,4) by auto
  show "frames_inv s B (st \<lparr> pmem := m \<rparr>) A"
    if inv: "frames_inv s B st A" and own: "\<And>a. own_cells s B A a \<Longrightarrow> m a = pmem st a"
  proof -
    from inv obtain S Ps E where rep: "phys_rep st S Ps E" "A = VIRT_TO_PHYS ` avail_pages S Ps"
      "B = set (S @ map fst Ps @ E)" "stack_2MIB st = s" by (auto simp: frames_inv_def)
    then have "phys_rep (st \<lparr> pmem := m \<rparr>) S Ps E" using own by (intro phys_rep_own) auto
    with rep(2-4) show ?thesis unfolding frames_inv_def by force
  qed
  show "MASK_4KIB p = p" if "frames_inv s B st A" "p \<in> A"
    using that by (rule frames_avail_aligned)
  show "\<not> own_cells s B (A - {p}) a" if "frames_inv s B st A" "p \<in> A" "MASK_4KIB a = PHYS_TO_VIRT p"
    using frames_avail_page [OF that] that(3) by (simp add: own_cells_def)
  show "own_cells s B A a" if "frames_inv s B st A" "p \<in> A" "MASK_4KIB a = PHYS_TO_VIRT p"
    using that(2,3) by (simp add: own_cells_def)
qed (auto intro: own_cells_mono)

end
