(* ===== verification/Paging.thy ===== *)
theory Paging
  imports Frames
begin

text \<open>
  \<open>arch/x86_64/virt_memory/paging.c\<close>: the four-level page tables of x86-64.  A table is a
  4 KiB page of 512 entries; entry \<open>i\<close> of the table at the physical address \<open>T\<close> is the cell
  \<open>PHYS_TO_VIRT T + 8 * i\<close>.  The state is the one of the page allocator, whose memory holds
  the tables; the TLB (\<open>invlpg\<close>) is not modelled and \<open>kprintf\<close> is compiled out.
\<close>

section \<open>Entries and indices\<close>

definition ENTRY_TO_ADDR :: "u64 \<Rightarrow> addr" where
  "ENTRY_TO_ADDR x = x AND 0x7FFFFFFFFFFFF000"

definition PML4_INDEX :: "u64 \<Rightarrow> u64" where "PML4_INDEX x = drop_bit 39 x AND 0x1FF"
definition PDPT_INDEX :: "u64 \<Rightarrow> u64" where "PDPT_INDEX x = drop_bit 30 x AND 0x1FF"
definition PDT_INDEX :: "u64 \<Rightarrow> u64" where "PDT_INDEX x = drop_bit 21 x AND 0x1FF"
definition PT_INDEX :: "u64 \<Rightarrow> u64" where "PT_INDEX x = drop_bit 12 x AND 0x1FF"

text \<open>\<open>PML4E_TO_PDPT\<close>, \<open>PDPTE_TO_PDT\<close> and \<open>PDTE_TO_PT\<close> are the same mask.\<close>

definition entry_table :: "u64 \<Rightarrow> addr" where
  "entry_table x = x AND 0x7FFFFFF000"

abbreviation PRESENT :: u64 where "PRESENT \<equiv> 1"
abbreviation WRITABLE :: u64 where "WRITABLE \<equiv> 2"
abbreviation PDT_PAGE_SIZE :: u64 where "PDT_PAGE_SIZE \<equiv> 0x80"
abbreviation PG_FLAG_RW :: u64 where "PG_FLAG_RW \<equiv> 0x2"
abbreviation PG_FLAG_USER :: u64 where "PG_FLAG_USER \<equiv> 0x4"
abbreviation PG_FLAG_PWT :: u64 where "PG_FLAG_PWT \<equiv> 0x8"
abbreviation PG_FLAG_PCD :: u64 where "PG_FLAG_PCD \<equiv> 0x10"
abbreviation PG_SAFE_FLAGS :: u64 where "PG_SAFE_FLAGS \<equiv> 0x800000000000001E"
abbreviation PAGE_COPY_FLAGS :: u64 where "PAGE_COPY_FLAGS \<equiv> 0x800000000000001F"
abbreviation PAGE_SMALL :: u64 where "PAGE_SMALL \<equiv> 1"
abbreviation PAGE_LARGE :: u64 where "PAGE_LARGE \<equiv> 2"
abbreviation PAGE_SMALL_SIZE :: u64 where "PAGE_SMALL_SIZE \<equiv> 0x1000"
abbreviation PAGE_LARGE_SIZE :: u64 where "PAGE_LARGE_SIZE \<equiv> 0x200000"
abbreviation newline :: string where "newline \<equiv> [CHR 0x0A]"

abbreviation entries :: "mem \<Rightarrow> addr \<Rightarrow> u64 \<Rightarrow> u64" where
  "entries m table i \<equiv> m (table + 8 * i)"

abbreviation present :: "u64 \<Rightarrow> bool" where "present e \<equiv> e AND PRESENT \<noteq> 0"
abbreviation large :: "u64 \<Rightarrow> bool" where "large e \<equiv> e AND PDT_PAGE_SIZE \<noteq> 0"

section \<open>Mapping\<close>

text \<open>
  The step of \<open>virt_map_phys\<close> that is written three times: a table for an absent entry is
  allocated, cleared and entered.  False is the early return with 0.
\<close>

definition ensure_table :: "phys \<Rightarrow> addr \<Rightarrow> u64 \<Rightarrow> u64 \<Rightarrow> (bool \<times> phys) res" where
  "ensure_table st table index safe_flags =
     (if \<not> present (entries (pmem st) table index)
      then and_then (phys_alloc_4KIB st) (\<lambda>(p, st).
        let new_table = PHYS_TO_VIRT p
        in if new_table = 0 then Inr (False, st)
           else
             let m = clear_cells (pmem st) new_table 0x1000;
                 m = m(table + 8 * index := VIRT_TO_PHYS new_table OR WRITABLE OR PRESENT OR safe_flags)
             in Inr (True, st \<lparr> pmem := m \<rparr>))
      else Inr (True, st))"

text \<open>The end of \<open>virt_map_phys\<close>, once the page directory has been found.\<close>

definition map_in_pd :: "phys \<Rightarrow> addr \<Rightarrow> u64 \<Rightarrow> u64 \<Rightarrow> u64 \<Rightarrow> u64 \<Rightarrow> (u8 \<times> phys) res" where
  "map_in_pd st pd_table virt_addr phys_addr safe_flags page_size =
     (let pdt_index = PDT_INDEX virt_addr;
          pt_index = PT_INDEX virt_addr;
          e = entries (pmem st) pd_table pdt_index
      in if large e \<and> present e then Inl (Panic (''Address already mapped!'' @ newline))
         else if page_size = PAGE_LARGE
         then
           let m = pmem st;
               m = m(pd_table + 8 * pdt_index := MASK_2MIB phys_addr OR PDT_PAGE_SIZE OR PRESENT OR safe_flags);
               m = m(pd_table + 8 * pdt_index := m (pd_table + 8 * pdt_index) OR safe_flags)
           in Inr (1, st \<lparr> pmem := m \<rparr>)
         else if page_size = PAGE_SMALL
         then and_then (ensure_table st pd_table pdt_index safe_flags) (\<lambda>(ok, st).
           if \<not> ok then Inr (0, st)
           else
             let p_table = PHYS_TO_VIRT (entry_table (entries (pmem st) pd_table pdt_index))
             in if present (entries (pmem st) p_table pt_index)
                then Inl (Panic (''Address already mapped!'' @ newline))
                else Inr (1, st \<lparr> pmem := (pmem st)
                  (p_table + 8 * pt_index := MASK_4KIB phys_addr OR PRESENT OR safe_flags) \<rparr>))
         else Inl (Panic ''virt_map_page: Invalid page size specified''))"

definition virt_map_phys :: "phys \<Rightarrow> addr \<Rightarrow> u64 \<Rightarrow> u64 \<Rightarrow> u64 \<Rightarrow> u64 \<Rightarrow> (u8 \<times> phys) res" where
  "virt_map_phys st tbl virt_addr phys_addr flags page_size =
     (let table = PHYS_TO_VIRT tbl;
          pml4_index = PML4_INDEX virt_addr;
          pdpt_index = PDPT_INDEX virt_addr;
          safe_flags = flags AND PG_SAFE_FLAGS
      in and_then (ensure_table st table pml4_index safe_flags) (\<lambda>(ok, st).
         if \<not> ok then Inr (0, st)
         else
           let pdp_table = PHYS_TO_VIRT (entry_table (entries (pmem st) table pml4_index))
           in and_then (ensure_table st pdp_table pdpt_index safe_flags) (\<lambda>(ok, st).
              if \<not> ok then Inr (0, st)
              else
                let pd_table = PHYS_TO_VIRT (entry_table (entries (pmem st) pdp_table pdpt_index))
                in map_in_pd st pd_table virt_addr phys_addr safe_flags page_size)))"

text \<open>\<open>phys_addr\<close> is the pointer through which the allocated address is returned, or NULL.\<close>

definition virt_map_page :: "phys \<Rightarrow> addr \<Rightarrow> u64 \<Rightarrow> u64 \<Rightarrow> u64 \<Rightarrow> addr \<Rightarrow> (u8 \<times> phys) res" where
  "virt_map_page st tbl virt_addr flags page_size phys_addr =
     and_then
       (if page_size = PAGE_LARGE then Inr (phys_alloc_2MIB st)
        else if page_size = PAGE_SMALL then phys_alloc_4KIB st
        else Inl (Panic (''virt_map_page: Invalid page size'' @ newline)))
       (\<lambda>(a, st).
         let st = (if phys_addr \<noteq> 0 then st \<lparr> pmem := (pmem st)(phys_addr := a) \<rparr> else st)
         in if a = 0 then Inr (0, st) else virt_map_phys st tbl virt_addr a flags page_size)"

fun map_range_loop :: "nat \<Rightarrow> phys \<Rightarrow> addr \<Rightarrow> u64 \<Rightarrow> u64 \<Rightarrow> u64 \<Rightarrow> u64 \<Rightarrow> u64 \<Rightarrow> (u8 \<times> phys) res" where
  "map_range_loop 0 st table cur_virt cur_phys flags page_size addr_inc = Inr (0, st)"
| "map_range_loop (Suc n) st table cur_virt cur_phys flags page_size addr_inc =
     and_then (virt_map_phys st table cur_virt cur_phys flags page_size) (\<lambda>(retVal, st).
       if retVal = 0 then Inr (retVal, st)
       else map_range_loop n st table (cur_virt + addr_inc) (cur_phys + addr_inc) flags page_size addr_inc)"

definition virt_map_phys_range ::
  "phys \<Rightarrow> addr \<Rightarrow> u64 \<Rightarrow> u64 \<Rightarrow> u64 \<Rightarrow> u64 \<Rightarrow> u64 \<Rightarrow> (u8 \<times> phys) res" where
  "virt_map_phys_range st table virt_addr phys_addr flags page_size num_pages =
     kassert ''paging.c'' 123 (page_size = PAGE_LARGE \<or> page_size = PAGE_SMALL)
       (let addr_inc = (if page_size = PAGE_LARGE then PAGE_LARGE_SIZE else PAGE_SMALL_SIZE)
        in map_range_loop (unat num_pages) st table virt_addr phys_addr flags page_size addr_inc)"

section \<open>Looking up and unmapping\<close>

text \<open>\<open>Some x\<close> is a return of 1 with \<open>x\<close> stored through \<open>out_phys\<close>, None a return of 0.\<close>

definition virt_lookup_phys :: "mem \<Rightarrow> addr \<Rightarrow> u64 \<Rightarrow> u64 option" where
  "virt_lookup_phys m table virt_addr =
     (let pml4_entry = entries m (PHYS_TO_VIRT table) (PML4_INDEX virt_addr)
      in if present pml4_entry
         then
           let pdpt_entry = entries m (PHYS_TO_VIRT (entry_table pml4_entry)) (PDPT_INDEX virt_addr)
           in if present pdpt_entry
              then
                let pdt_entry = entries m (PHYS_TO_VIRT (entry_table pdpt_entry)) (PDT_INDEX virt_addr)
                in if present pdt_entry
                   then Some
                     (if large pdt_entry then ENTRY_TO_ADDR pdt_entry + (virt_addr AND 0xFFF)
                      else
                        let pt_entry = entries m (PHYS_TO_VIRT (entry_table pdt_entry)) (PT_INDEX virt_addr)
                        in if present pt_entry then ENTRY_TO_ADDR pt_entry + (virt_addr AND 0xFFF) else 0)
                   else None
              else None
         else None)"

definition virt_unmap_page :: "phys \<Rightarrow> addr \<Rightarrow> u64 \<Rightarrow> phys res" where
  "virt_unmap_page st tbl virt_addr =
     (let table = PHYS_TO_VIRT tbl;
          m = pmem st
      in if \<not> present (entries m table (PML4_INDEX virt_addr))
         then Inl (Panic ''Can't unmap non-present page (1)'')
         else
           let pdp_table = PHYS_TO_VIRT (entry_table (entries m table (PML4_INDEX virt_addr)))
           in if \<not> present (entries m pdp_table (PDPT_INDEX virt_addr))
              then Inl (Panic ''Can't unmap non-present page (2)'')
              else
                let pd_table = PHYS_TO_VIRT (entry_table (entries m pdp_table (PDPT_INDEX virt_addr)));
                    pdt_index = PDT_INDEX virt_addr
                in if \<not> present (entries m pd_table pdt_index)
                   then Inl (Panic ''Can't unmap non-present page (3)'')
                   else if large (entries m pd_table pdt_index)
                   then
                     and_then (phys_free_2MIB st (ENTRY_TO_ADDR (entries m pd_table pdt_index))) (\<lambda>st.
                       Inr (st \<lparr> pmem := (pmem st)(pd_table + 8 * pdt_index := 0) \<rparr>))
                   else
                     let pt_index = PT_INDEX virt_addr;
                         p_table = PHYS_TO_VIRT (entry_table (entries m pd_table pdt_index))
                     in if \<not> present (entries m p_table pt_index)
                        then Inl (Panic ''Can't unmap non-present page (4)'')
                        else and_then (phys_free_4KIB st (ENTRY_TO_ADDR (entries m p_table pt_index))) (\<lambda>st.
                          Inr (st \<lparr> pmem := (pmem st)(p_table + 8 * pt_index := 0) \<rparr>)))"

section \<open>Deleting tables\<close>

text \<open>Tables are walked by index; the arguments are virtual addresses of tables.\<close>

definition cleanup_page_table :: "addr \<Rightarrow> phys \<Rightarrow> phys res" where
  "cleanup_page_table p_table st =
     and_then (for_each [0..<512] (\<lambda>pt_index st.
         let entry = entries (pmem st) p_table (of_nat pt_index)
         in if present entry then phys_free_4KIB st (ENTRY_TO_ADDR entry) else Inr st) st)
       (\<lambda>st. phys_free_4KIB st (VIRT_TO_PHYS p_table))"

definition cleanup_page_directory_table :: "addr \<Rightarrow> phys \<Rightarrow> phys res" where
  "cleanup_page_directory_table pd_table st =
     and_then (for_each [0..<512] (\<lambda>pdt_index st.
         let entry = entries (pmem st) pd_table (of_nat pdt_index)
         in if present entry
            then if large entry then phys_free_2MIB st (ENTRY_TO_ADDR entry)
                 else cleanup_page_table (PHYS_TO_VIRT (entry_table entry)) st
            else Inr st) st)
       (\<lambda>st. phys_free_4KIB st (VIRT_TO_PHYS pd_table))"

definition cleanup_page_directory_pointer_table :: "addr \<Rightarrow> phys \<Rightarrow> phys res" where
  "cleanup_page_directory_pointer_table pdp_table st =
     and_then (for_each [0..<512] (\<lambda>pdpt_index st.
         let entry = entries (pmem st) pdp_table (of_nat pdpt_index)
         in if present entry
            then cleanup_page_directory_table (PHYS_TO_VIRT (entry_table entry)) st
            else Inr st) st)
       (\<lambda>st. phys_free_4KIB st (VIRT_TO_PHYS pdp_table))"

definition virt_cleanup_table :: "phys \<Rightarrow> addr \<Rightarrow> phys res" where
  "virt_cleanup_table st tbl =
     (let table = PHYS_TO_VIRT tbl
      in and_then (for_each [0..<256] (\<lambda>pml4_index st.
             let entry = entries (pmem st) table (of_nat pml4_index)
             in if present entry
                then cleanup_page_directory_pointer_table (PHYS_TO_VIRT (entry_table entry)) st
                else Inr st) st)
           (\<lambda>st. phys_free_4KIB st tbl))"

definition virt_reset_table :: "addr \<Rightarrow> phys \<Rightarrow> addr \<Rightarrow> phys res" where
  "virt_reset_table kernel_table st table =
     (if table = kernel_table
      then Inl (Panic ''virt_reset_table: Bad param - kernel's page table'')
      else
        let pml4_table = PHYS_TO_VIRT table
        in for_each [0..<256] (\<lambda>pml4_index st.
             let entry = entries (pmem st) pml4_table (of_nat pml4_index)
             in and_then
                  (if present entry
                   then cleanup_page_directory_pointer_table (PHYS_TO_VIRT (entry_table entry)) st
                   else Inr st)
                  (\<lambda>st. Inr (st \<lparr> pmem := (pmem st)(pml4_table + 8 * of_nat pml4_index := 0) \<rparr>))) st)"

section \<open>Cloning\<close>

definition put :: "phys \<Rightarrow> addr \<Rightarrow> u64 \<Rightarrow> phys" where
  "put st a v = st \<lparr> pmem := (pmem st)(a := v) \<rparr>"

definition clone_page_table :: "addr \<Rightarrow> phys \<Rightarrow> (u64 \<times> phys) res" where
  "clone_page_table p_table st =
     and_then (phys_alloc_4KIB_safe st ''clone_page_table: No memory'') (\<lambda>(p, st).
       let new_table = PHYS_TO_VIRT p
       in and_then (for_each [0..<512] (\<lambda>i st.
              let entry = entries (pmem st) p_table (of_nat i)
              in if present entry
                 then and_then (phys_alloc_4KIB_safe st ''clone_page_table: No memory (loop)'') (\<lambda>(p, st).
                   let dst = PHYS_TO_VIRT p;
                       src = PHYS_TO_VIRT (ENTRY_TO_ADDR entry);
                       st = st \<lparr> pmem := copy_region (pmem st) dst src PAGE_SMALL_SIZE \<rparr>
                   in Inr (put st (new_table + 8 * of_nat i) (VIRT_TO_PHYS dst OR (entry AND PAGE_COPY_FLAGS))))
                 else Inr (put st (new_table + 8 * of_nat i) 0)) st) (\<lambda>st.
          let retVal = VIRT_TO_PHYS new_table
          in Inr (retVal OR (VIRT_TO_PHYS p_table AND PAGE_COPY_FLAGS), st)))"

definition clone_page_directory :: "addr \<Rightarrow> phys \<Rightarrow> (u64 \<times> phys) res" where
  "clone_page_directory pd_table st =
     and_then (phys_alloc_4KIB_safe st ''clone_page_directory: No memory'') (\<lambda>(p, st).
       let new_table = PHYS_TO_VIRT p
       in and_then (for_each [0..<512] (\<lambda>i st.
              let entry = entries (pmem st) pd_table (of_nat i)
              in if present entry
                 then if large entry
                      then and_then (phys_alloc_2MIB_safe st ''clone_page_directory: Failed to alloc 2MIB'')
                        (\<lambda>(p, st).
                          let dst = PHYS_TO_VIRT p;
                              src = PHYS_TO_VIRT (ENTRY_TO_ADDR entry);
                              st = st \<lparr> pmem := copy_region (pmem st) dst src PAGE_LARGE_SIZE \<rparr>
                          in Inr (put st (new_table + 8 * of_nat i)
                               (VIRT_TO_PHYS dst OR (entry AND PAGE_COPY_FLAGS) OR PDT_PAGE_SIZE)))
                      else and_then (clone_page_table (PHYS_TO_VIRT (entry_table entry)) st) (\<lambda>(e, st).
                          Inr (put st (new_table + 8 * of_nat i) (e OR (entry AND PAGE_COPY_FLAGS))))
                 else Inr (put st (new_table + 8 * of_nat i) 0)) st) (\<lambda>st.
          let retVal = VIRT_TO_PHYS new_table
          in Inr (retVal OR (VIRT_TO_PHYS pd_table AND PAGE_COPY_FLAGS), st)))"

definition clone_page_directory_pointer :: "addr \<Rightarrow> phys \<Rightarrow> (u64 \<times> phys) res" where
  "clone_page_directory_pointer pdp_table st =
     and_then (phys_alloc_4KIB_safe st ''clone_page_directory_pointer: No memory'') (\<lambda>(p, st).
       let new_table = PHYS_TO_VIRT p
       in and_then (for_each [0..<512] (\<lambda>i st.
              let entry = entries (pmem st) pdp_table (of_nat i)
              in if present entry
                 then and_then (clone_page_directory (PHYS_TO_VIRT (entry_table entry)) st) (\<lambda>(e, st).
                        Inr (put st (new_table + 8 * of_nat i) (e OR (entry AND PAGE_COPY_FLAGS))))
                 else Inr (put st (new_table + 8 * of_nat i) 0)) st) (\<lambda>st.
          let retVal = VIRT_TO_PHYS new_table
          in Inr (retVal OR (VIRT_TO_PHYS pdp_table AND PAGE_COPY_FLAGS), st)))"

definition virt_clone_mapping :: "phys \<Rightarrow> addr \<Rightarrow> (addr \<times> phys) res" where
  "virt_clone_mapping st orig =
     (let other = PHYS_TO_VIRT orig
      in and_then (phys_alloc_4KIB_safe st ''virt_clone_mapping: No memory'') (\<lambda>(p, st).
         let new_table = PHYS_TO_VIRT p;
             st = st \<lparr> pmem := clear_cells (pmem st) new_table 0x1000 \<rparr>
         in and_then (for_each [0..<256] (\<lambda>i st.
                let entry = entries (pmem st) other (of_nat i)
                in if present entry
                   then and_then (clone_page_directory_pointer (PHYS_TO_VIRT (entry_table entry)) st)
                     (\<lambda>(e, st).
                       let st = put st (new_table + 8 * of_nat i) e
                       in Inr (put st (new_table + 8 * of_nat i)
                            (entries (pmem st) new_table (of_nat i) OR (entry AND PAGE_COPY_FLAGS))))
                   else Inr (put st (new_table + 8 * of_nat i) 0)) st) (\<lambda>st.
            and_then (for_each [256..<512] (\<lambda>i st.
                Inr (put st (new_table + 8 * of_nat i) (entries (pmem st) other (of_nat i)))) st) (\<lambda>st.
              Inr (VIRT_TO_PHYS new_table, st)))))"

section \<open>Walking the tables\<close>

text \<open>
  The tables as the processor walks them: \<open>walk m T is\<close> follows the indices \<open>is\<close> from the
  table \<open>T\<close> through present entries to the next table; \<open>entry_at\<close> is the entry with index
  \<open>i\<close> of that table, 0 when there is none.
\<close>

abbreviation is_table :: "u64 \<Rightarrow> bool" where "is_table e \<equiv> present e \<and> \<not> large e"

fun walk :: "mem \<Rightarrow> addr \<Rightarrow> u64 list \<Rightarrow> addr option" where
  "walk m T [] = Some T"
| "walk m T (i # is) =
     (let e = entries m (PHYS_TO_VIRT T) i in if is_table e then walk m (entry_table e) is else None)"

definition entry_at :: "mem \<Rightarrow> addr \<Rightarrow> u64 list \<Rightarrow> u64 \<Rightarrow> u64" where
  "entry_at m T is i = (case walk m T is of None \<Rightarrow> 0 | Some X \<Rightarrow> entries m (PHYS_TO_VIRT X) i)"

lemma walk_append:
  "walk m T (is @ js) = (case walk m T is of None \<Rightarrow> None | Some X \<Rightarrow> walk m X js)"
  by (induction "is" arbitrary: T) (auto simp: Let_def)

lemma walk_snoc:
  "walk m T (is @ [i]) = (let e = entry_at m T is i in if is_table e then Some (entry_table e) else None)"
  by (auto simp: walk_append entry_at_def Let_def split: option.splits)

text \<open>The address a table structure translates a virtual one to.\<close>

definition translate :: "mem \<Rightarrow> addr \<Rightarrow> u64 \<Rightarrow> addr option" where
  "translate m T v =
     (let pd = entry_at m T [PML4_INDEX v, PDPT_INDEX v] (PDT_INDEX v);
          pt = entry_at m T [PML4_INDEX v, PDPT_INDEX v, PDT_INDEX v] (PT_INDEX v)
      in if \<not> present pd then None
         else if large pd then Some (ENTRY_TO_ADDR pd + (v AND 0x1FFFFF))
         else if present pt then Some (ENTRY_TO_ADDR pt + (v AND 0xFFF)) else None)"

section \<open>Entries as bit patterns\<close>

lemma and_pow2_iff_bit: "x AND push_bit n 1 \<noteq> 0 \<longleftrightarrow> bit (x :: u64) n" if "n < 64"
proof
  assume "bit x n"
  then have "bit (x AND push_bit n 1) n" using that by (simp add: bit_simps)
  then show "x AND push_bit n 1 \<noteq> 0" by auto
next
  assume "x AND push_bit n 1 \<noteq> 0"
  then obtain k where "bit (x AND push_bit n 1) k" by (auto simp: bit_eq_iff)
  then show "bit x n" by (auto simp: bit_simps)
qed

lemma present_iff_bit: "present x \<longleftrightarrow> bit x 0" and large_iff_bit: "large x \<longleftrightarrow> bit x 7"
  using and_pow2_iff_bit [of 0 x] and_pow2_iff_bit [of 7 x] by simp_all

lemma aligned_bits:
  assumes "MASK_4KIB p = p" and "n < 12"
  shows "\<not> bit p n"
proof -
  have "\<not> bit (p AND NOT (mask 12)) n" using assms(2) by (simp add: bit_simps)
  with assms(1) show ?thesis unfolding MASK_4KIB_def mask_12 by simp
qed

lemma mask_39_12: "0x7FFFFFF000 = (mask 39 AND NOT (mask 12) :: u64)"
  and mask_63_12: "0x7FFFFFFFFFFFF000 = (mask 63 AND NOT (mask 12) :: u64)"
  by (simp_all add: mask_eq_exp_minus_1)

lemma new_entry:
  assumes p: "MASK_4KIB p = p" "p < 2 ^ 39" and e: "e = p OR WRITABLE OR PRESENT OR (flags AND PG_SAFE_FLAGS)"
  shows "is_table e" and "entry_table e = p"
proof -
  have p': "p AND 0x7FFFFFF000 = p"
  proof -
    have "p AND mask 39 = p"
      using p(2) unfolding word_unat_eq_iff unat_and_mask by (simp add: word_less_nat_alt)
    moreover have "p AND NOT (mask 12) = p" using p(1) unfolding MASK_4KIB_def mask_12 .
    ultimately show ?thesis unfolding mask_39_12 by (simp flip: and.assoc)
  qed
  have p_80: "p AND 0x80 = 0" using aligned_bits [OF p(1), of 7] large_iff_bit [of p] by auto
  have "flags AND PG_SAFE_FLAGS AND 0x80 = 0" "flags AND PG_SAFE_FLAGS AND 0x7FFFFFF000 = 0" by simp_all
  then show "is_table e" and "entry_table e = p"
    using p' p_80 unfolding e entry_table_def
    by (simp_all add: bit.conj_disj_distrib2 and.assoc)
qed

lemma new_leaf:
  assumes "p = p AND 0x7FFFFFFFFFFFF000" and "MASK_4KIB p = p" and e: "e = p OR PRESENT OR (flags AND PG_SAFE_FLAGS)"
  shows "present e" and "ENTRY_TO_ADDR e = p"
proof -
  have "flags AND PG_SAFE_FLAGS AND 0x7FFFFFFFFFFFF000 = 0" by simp
  with assms(1) show "ENTRY_TO_ADDR e = p"
    unfolding e ENTRY_TO_ADDR_def by (simp add: bit.conj_disj_distrib2 and.assoc)
  show "present e" unfolding e present_iff_bit by (simp add: bit_simps)
qed

lemma index_less:
  "PML4_INDEX v < 512" "PDPT_INDEX v < 512" "PDT_INDEX v < 512" "PT_INDEX v < 512"
proof -
  have "x AND 0x1FF < 512" for x :: u64
  proof -
    have "x AND 0x1FF = x AND mask 9" by (simp add: mask_eq_exp_minus_1)
    then show ?thesis by (simp add: word_less_nat_alt unat_and_mask)
  qed
  then show "PML4_INDEX v < 512" "PDPT_INDEX v < 512" "PDT_INDEX v < 512" "PT_INDEX v < 512"
    by (simp_all add: PML4_INDEX_def PDPT_INDEX_def PDT_INDEX_def PT_INDEX_def)
qed

text \<open>The cell of an entry determines the table and the index.\<close>

lemma entry_cell:
  assumes "MASK_4KIB X = X" and "i < (512 :: u64)"
  shows "MASK_4KIB (PHYS_TO_VIRT X + 8 * i) = PHYS_TO_VIRT X" and "unat (8 * i) = 8 * unat i"
proof -
  have i: "unat i < 512" using assms(2) by (simp add: word_less_nat_alt)
  then show "unat (8 * i) = 8 * unat i" by (simp add: unat_word_ariths)
  with i show "MASK_4KIB (PHYS_TO_VIRT X + 8 * i) = PHYS_TO_VIRT X"
    using assms(1) by (intro MASK_4KIB_off) (simp_all add: MASK_4KIB_virt)
qed

lemma entry_cell_inject:
  assumes "MASK_4KIB X = X" "MASK_4KIB Y = Y" "i < 512" "j < (512 :: u64)"
  shows "PHYS_TO_VIRT X + 8 * i = PHYS_TO_VIRT Y + 8 * j \<longleftrightarrow> X = Y \<and> i = j"
proof
  assume eq: "PHYS_TO_VIRT X + 8 * i = PHYS_TO_VIRT Y + 8 * j"
  then have "X = Y" using entry_cell(1) [OF assms(1,3)] entry_cell(1) [OF assms(2,4)] by simp
  with eq have "unat (8 * i) = unat (8 * j)" by simp
  with \<open>X = Y\<close> show "X = Y \<and> i = j"
    using entry_cell(2) [OF assms(1,3)] entry_cell(2) [OF assms(2,4)] by (simp add: word_unat_eq_iff)
qed simp

section \<open>Well-formed table structures\<close>

definition is_path :: "u64 list \<Rightarrow> bool" where
  "is_path is \<longleftrightarrow> length is \<le> 3 \<and> (\<forall>i\<in>set is. i < 512)"

text \<open>
  \<open>pt_inv s B A st T\<close>: the allocator is well-formed with the pages \<open>A\<close> available, all below
  512 GiB; the tables reached from \<open>T\<close> are pages of their own, each reached by one path only
  and none in the hands of the allocator; entries of the two upper levels are never large.
\<close>

definition table_ok :: "addr \<Rightarrow> addr set \<Rightarrow> addr set \<Rightarrow> addr \<Rightarrow> bool" where
  "table_ok s B A X \<longleftrightarrow> MASK_4KIB X = X \<and> (\<forall>i<512. \<not> own_cells s B A (PHYS_TO_VIRT X + 8 * i))"

definition tables_inv :: "addr \<Rightarrow> addr set \<Rightarrow> addr set \<Rightarrow> mem \<Rightarrow> addr \<Rightarrow> bool" where
  "tables_inv s B A m T \<longleftrightarrow>
     (\<forall>is X. is_path is \<and> walk m T is = Some X \<longrightarrow> table_ok s B A X) \<and>
     (\<forall>is js X. is_path is \<and> is_path js \<and> walk m T is = Some X \<and> walk m T js = Some X \<longrightarrow> is = js) \<and>
     (\<forall>is i. is_path is \<and> length is \<le> 1 \<and> i < 512 \<longrightarrow> \<not> (present (entry_at m T is i) \<and> large (entry_at m T is i)))"

definition pt_inv :: "addr \<Rightarrow> addr set \<Rightarrow> addr set \<Rightarrow> phys \<Rightarrow> addr \<Rightarrow> bool" where
  "pt_inv s B A st T \<longleftrightarrow> frames_inv s B st A \<and> (\<forall>p\<in>A. p < 2 ^ 39) \<and> tables_inv s B A (pmem st) T"

lemma tables_ok: "tables_inv s B A m T \<Longrightarrow> is_path is \<Longrightarrow> walk m T is = Some X \<Longrightarrow> table_ok s B A X"
  and tables_unique: "tables_inv s B A m T \<Longrightarrow> is_path is \<Longrightarrow> is_path js \<Longrightarrow> walk m T is = Some X \<Longrightarrow>
    walk m T js = Some X \<Longrightarrow> is = js"
  and tables_upper: "tables_inv s B A m T \<Longrightarrow> is_path is \<Longrightarrow> length is \<le> 1 \<Longrightarrow> i < 512 \<Longrightarrow>
    \<not> (present (entry_at m T is i) \<and> large (entry_at m T is i))"
  unfolding tables_inv_def by blast+

text \<open>A memory that agrees on every entry but one has the same walks, except through it.\<close>

definition agree_but :: "mem \<Rightarrow> mem \<Rightarrow> addr \<Rightarrow> u64 list \<Rightarrow> u64 \<Rightarrow> bool" where
  "agree_but m m' T xs i \<longleftrightarrow> (\<forall>ys X j. is_path ys \<and> walk m T ys = Some X \<and> j < 512 \<and> (ys, j) \<noteq> (xs, i) \<longrightarrow>
     entries m' (PHYS_TO_VIRT X) j = entries m (PHYS_TO_VIRT X) j)"

lemma is_path_snoc: "is_path (ys @ [j]) \<longleftrightarrow> length ys \<le> 2 \<and> is_path ys \<and> j < 512"
  by (auto simp: is_path_def)

lemma walk_agree:
  assumes ag: "agree_but m m' T xs i" and "is_path ys" and "\<nexists>zs. ys = xs @ i # zs"
  shows "walk m' T ys = walk m T ys"
  using assms(2,3)
proof (induction ys rule: rev_induct)
  case Nil
  then show ?case by simp
next
  case (snoc j ys)
  have p: "is_path ys" "j < 512" using snoc.prems(1) by (simp_all add: is_path_snoc)
  have "\<nexists>zs. ys = xs @ i # zs" using snoc.prems(2) by auto
  with snoc.IH p have IH: "walk m' T ys = walk m T ys" by blast
  have "(ys, j) \<noteq> (xs, i)" using snoc.prems(2) by auto
  then have "entry_at m' T ys j = entry_at m T ys j"
    using ag p IH by (auto simp: entry_at_def agree_but_def split: option.splits)
  then show ?case by (simp add: walk_snoc)
qed

section \<open>Hanging a new table into the structure\<close>

text \<open>\<open>grafted m m' T xs i e C\<close>: in \<open>m'\<close> the absent entry \<open>i\<close> of the table at \<open>xs\<close> has become
  \<open>e\<close>, which leads to the empty table \<open>C\<close> no path led to before.\<close>

definition grafted :: "mem \<Rightarrow> mem \<Rightarrow> addr \<Rightarrow> u64 list \<Rightarrow> u64 \<Rightarrow> u64 \<Rightarrow> addr \<Rightarrow> bool" where
  "grafted m m' T xs i e C \<longleftrightarrow> is_path (xs @ [i]) \<and> agree_but m m' T xs i \<and>
     (\<exists>P. walk m T xs = Some P \<and> \<not> present (entries m (PHYS_TO_VIRT P) i) \<and> entries m' (PHYS_TO_VIRT P) i = e) \<and>
     is_table e \<and> entry_table e = C \<and> (\<forall>j<512. entries m' (PHYS_TO_VIRT C) j = 0) \<and>
     (\<forall>ys. is_path ys \<longrightarrow> walk m T ys \<noteq> Some C)"

lemma walk_grafted:
  assumes g: "grafted m m' T xs i e C" and ys: "is_path ys"
  shows "walk m' T ys = (if ys = xs @ [i] then Some C else walk m T ys)"
proof (cases "\<exists>zs. ys = xs @ i # zs")
  case False
  then show ?thesis using g ys walk_agree [of m m' T xs i ys] by (auto simp: grafted_def)
next
  case True
  then obtain zs where zs: "ys = xs @ i # zs" by blast
  obtain P where P: "walk m T xs = Some P" "\<not> present (entries m (PHYS_TO_VIRT P) i)"
    "entries m' (PHYS_TO_VIRT P) i = e"
    and e: "is_table e" "entry_table e = C" and z: "\<forall>j<512. entries m' (PHYS_TO_VIRT C) j = 0"
    using g by (auto simp: grafted_def)
  have "is_path xs" using g by (simp add: grafted_def is_path_snoc)
  then have P': "walk m' T xs = Some P"
    using walk_agree [of m m' T xs i xs] g P(1) by (simp add: grafted_def)
  have "walk m T ys = None" using P by (simp add: zs walk_append)
  moreover have "walk m' T ys = walk m' C zs" using P' P(3) e by (simp add: zs walk_append Let_def)
  moreover have "walk m' C zs = None" if "zs \<noteq> []"
    using that z ys by (cases zs) (auto simp: zs is_path_def Let_def)
  ultimately show ?thesis using zs by (cases "zs = []") auto
qed

lemma entry_at_grafted:
  assumes g: "grafted m m' T xs i e C" and ys: "is_path ys" "j < 512"
  shows "entry_at m' T ys j = (if ys = xs \<and> j = i then e else entry_at m T ys j)"
proof (cases "ys = xs @ [i]")
  case True
  obtain P where "walk m T xs = Some P" "\<not> present (entries m (PHYS_TO_VIRT P) i)"
    "\<forall>j<512. entries m' (PHYS_TO_VIRT C) j = 0" using g by (auto simp: grafted_def)
  then show ?thesis
    using walk_grafted [OF g ys(1)] ys(2) True by (simp add: entry_at_def walk_append)
next
  case False
  then have w: "walk m' T ys = walk m T ys" using walk_grafted [OF g ys(1)] by simp
  show ?thesis
  proof (cases "ys = xs \<and> j = i")
    case True
    then show ?thesis using w g by (auto simp: grafted_def entry_at_def)
  next
    case False
    then have "(ys, j) \<noteq> (xs, i)" by auto
    then have "entries m' (PHYS_TO_VIRT X) j = entries m (PHYS_TO_VIRT X) j" if "walk m T ys = Some X" for X
      using g ys that unfolding grafted_def agree_but_def by blast
    then show ?thesis using w False by (auto simp: entry_at_def split: option.splits)
  qed
qed

lemma translate_grafted:
  assumes g: "grafted m m' T xs i e C"
  shows "translate m' T v = translate m T v"
proof -
  let ?pd = "[PML4_INDEX v, PDPT_INDEX v]" and ?pt = "[PML4_INDEX v, PDPT_INDEX v, PDT_INDEX v]"
  have paths: "is_path ?pd" "is_path ?pt" by (simp_all add: is_path_def index_less)
  have len: "length xs \<le> 2" using g by (simp add: grafted_def is_path_snoc)
  have pt: "entry_at m' T ?pt (PT_INDEX v) = entry_at m T ?pt (PT_INDEX v)"
    using entry_at_grafted [OF g paths(2) index_less(4)] len by auto
  have pd: "entry_at m' T ?pd (PDT_INDEX v) = (if ?pd = xs \<and> PDT_INDEX v = i then e else entry_at m T ?pd (PDT_INDEX v))"
    by (rule entry_at_grafted [OF g paths(1) index_less(3)])
  show ?thesis
  proof (cases "?pd = xs \<and> PDT_INDEX v = i")
    case False
    then have "entry_at m' T ?pd (PDT_INDEX v) = entry_at m T ?pd (PDT_INDEX v)" using pd by auto
    with pt show ?thesis by (simp add: translate_def)
  next
    case True
    then have e: "is_table e" "\<not> present (entry_at m T ?pd (PDT_INDEX v))"
      using g by (auto simp: grafted_def entry_at_def)
    then have "walk m T ?pt = None" using walk_snoc [of m T ?pd "PDT_INDEX v"] by (simp add: Let_def)
    then have "entry_at m T ?pt (PT_INDEX v) = 0" by (simp add: entry_at_def)
    with True pt pd e show ?thesis by (simp add: translate_def)
  qed
qed

lemma table_ok_mono: "table_ok s B A X \<Longrightarrow> A' \<subseteq> A \<Longrightarrow> table_ok s B A' X"
  unfolding table_ok_def using own_cells_mono by blast

lemma tables_inv_grafted:
  assumes inv: "tables_inv s B A m T" and g: "grafted m m' T xs i e C" and "A' \<subseteq> A" and C: "table_ok s B A' C"
  shows "tables_inv s B A' m' T"
  unfolding tables_inv_def
proof (intro conjI allI impI, goal_cases)
  case (1 "is" X)
  then show ?case
    using walk_grafted [OF g, of "is"] tables_ok [OF inv, of "is" X] table_ok_mono [OF _ \<open>A' \<subseteq> A\<close>] C
    by (auto split: if_splits)
next
  case (2 "is" js X)
  have new: "walk m T zs \<noteq> Some C" if "is_path zs" for zs using g that by (simp add: grafted_def)
  from 2 show ?case
    using walk_grafted [OF g, of "is"] walk_grafted [OF g, of js] tables_unique [OF inv, of "is" js X] new
    by (auto split: if_splits)
next
  case (3 "is" i')
  then show ?case
    using entry_at_grafted [OF g, of "is" i'] tables_upper [OF inv, of "is" i'] g
    by (auto simp: grafted_def split: if_splits)
qed

lemma frames_page_below: "pt_inv s B A st T \<Longrightarrow> p \<in> A \<Longrightarrow> p < 2 ^ 39"
  by (simp add: pt_inv_def)

lemma ensure_table_new:
  assumes inv: "pt_inv s B A st T" and path: "is_path (xs @ [i])" and P: "walk (pmem st) T xs = Some P"
    and absent: "\<not> present (entries (pmem st) (PHYS_TO_VIRT P) i)" and ne: "A \<noteq> {}"
  shows "\<exists>st' p e. ensure_table st (PHYS_TO_VIRT P) i (flags AND PG_SAFE_FLAGS) = Inr (True, st') \<and> p \<in> A \<and>
    frames_inv s B st' (A - {p}) \<and> table_ok s B (A - {p}) p \<and> grafted (pmem st) (pmem st') T xs i e p \<and>
    (\<forall>a. \<not> own_cells s B A a \<and> a \<noteq> PHYS_TO_VIRT P + 8 * i \<longrightarrow> pmem st' a = pmem st a) \<and>
    unat (pmem st s) \<le> Suc (unat (pmem st' s))"
proof -
  have fr: "frames_inv s B st A" and tb: "tables_inv s B A (pmem st) T" using inv by (simp_all add: pt_inv_def)
  have ixs: "is_path xs" "i < 512" using path by (simp_all add: is_path_snoc)
  from fa.alloc_cleared [OF fr ne] obtain p st1 where
    al: "phys_alloc_4KIB st = Inr (p, st1)" "p \<in> A" "p \<noteq> 0" and
    wr: "\<And>m. (\<forall>a. own_cells s B (A - {p}) a \<longrightarrow> m a = pmem st1 a) \<Longrightarrow> frames_inv s B (st1 \<lparr> pmem := m \<rparr>) (A - {p})" and
    own: "\<And>a. own_cells s B (A - {p}) a \<Longrightarrow> clear_cells (pmem st1) (PHYS_TO_VIRT p) 0x1000 a = pmem st1 a" and
    other: "\<And>a. \<not> own_cells s B A a \<Longrightarrow> clear_cells (pmem st1) (PHYS_TO_VIRT p) 0x1000 a = pmem st a" and
    zero: "\<And>a. MASK_4KIB a = PHYS_TO_VIRT p \<Longrightarrow> clear_cells (pmem st1) (PHYS_TO_VIRT p) 0x1000 a = 0"
    by metis
  define e where "e = p OR WRITABLE OR PRESENT OR (flags AND PG_SAFE_FLAGS)"
  define m' where "m' = (clear_cells (pmem st1) (PHYS_TO_VIRT p) 0x1000)(PHYS_TO_VIRT P + 8 * i := e)"
  define st' where "st' = st1 \<lparr> pmem := m' \<rparr>"
  have okY: "table_ok s B A Y" if "is_path ys" "walk (pmem st) T ys = Some Y" for ys Y
    using tables_ok [OF tb that] .
  have okP: "MASK_4KIB P = P" "\<not> own_cells s B A (PHYS_TO_VIRT P + 8 * i)"
    using okY [OF ixs(1) P] ixs(2) by (simp_all add: table_ok_def)
  have pal: "MASK_4KIB p = p" using fr al(2) by (rule fa.page_aligned)
  have avail: "own_cells s B A (PHYS_TO_VIRT p + 8 * j)" if "j < 512" for j
    using fa.own_avail [OF fr al(2)] entry_cell(1) [OF pal that] by blast
  have fresh: "walk (pmem st) T ys \<noteq> Some p" if "is_path ys" for ys
  proof
    assume "walk (pmem st) T ys = Some p"
    then have "\<forall>j<512. \<not> own_cells s B A (PHYS_TO_VIRT p + 8 * j)"
      using okY [OF that, of p] unfolding table_ok_def by blast
    moreover have "(0 :: u64) < 512" by simp
    ultimately show False using avail by blast
  qed
  then have "P \<noteq> p" using P ixs(1) by auto
  have "ensure_table st (PHYS_TO_VIRT P) i (flags AND PG_SAFE_FLAGS) = Inr (True, st')"
  proof (cases "PHYS_TO_VIRT p = 0")
    case False
    then show ?thesis using absent al(1) by (simp add: ensure_table_def Let_def st'_def m'_def e_def or.assoc)
  next
    case True
    have "p < 2 ^ 39" using frames_page_below [OF inv al(2)] .
    then have "unat (PHYS_TO_VIRT p) = unat p + 0xFFFF800000000000"
      by (simp add: PHYS_TO_VIRT_def unat_word_ariths word_less_nat_alt)
    with True show ?thesis by simp
  qed
  moreover have "frames_inv s B st' (A - {p})"
    unfolding st'_def
  proof (rule wr, intro allI impI)
    fix a assume a: "own_cells s B (A - {p}) a"
    then have "a \<noteq> PHYS_TO_VIRT P + 8 * i" using okP(2) own_cells_mono [of "A - {p}" A] by auto
    with own [OF a] show "m' a = pmem st1 a" by (simp add: m'_def)
  qed
  moreover have "table_ok s B (A - {p}) p"
    unfolding table_ok_def using pal fa.own_page [OF fr al(2)] entry_cell(1) [OF pal] by blast
  moreover have "grafted (pmem st) m' T xs i e p"
    unfolding grafted_def
  proof (intro conjI)
    have "entries m' (PHYS_TO_VIRT Y) j = entries (pmem st) (PHYS_TO_VIRT Y) j"
      if "is_path ys" "walk (pmem st) T ys = Some Y" "j < 512" "(ys, j) \<noteq> (xs, i)" for ys Y j
    proof -
      have Y: "MASK_4KIB Y = Y" "\<not> own_cells s B A (PHYS_TO_VIRT Y + 8 * j)"
        using okY [OF that(1,2)] that(3) by (simp_all add: table_ok_def)
      have "\<not> (Y = P \<and> j = i)" using tables_unique [OF tb that(1) ixs(1) that(2)] P that(4) by auto
      then have "PHYS_TO_VIRT Y + 8 * j \<noteq> PHYS_TO_VIRT P + 8 * i"
        using entry_cell_inject [OF Y(1) okP(1) that(3) ixs(2)] by blast
      with other [OF Y(2)] show ?thesis by (simp add: m'_def)
    qed
    then show "agree_but (pmem st) m' T xs i" unfolding agree_but_def by blast
    show "\<exists>P. walk (pmem st) T xs = Some P \<and> \<not> present (entries (pmem st) (PHYS_TO_VIRT P) i) \<and>
        entries m' (PHYS_TO_VIRT P) i = e"
      using P absent by (simp add: m'_def)
    show "present e" "\<not> large e" "entry_table e = p"
      using new_entry [OF pal frames_page_below [OF inv al(2)] e_def] by simp_all
    show "\<forall>j<512. entries m' (PHYS_TO_VIRT p) j = 0"
    proof (intro allI impI)
      fix j :: u64 assume j: "j < 512"
      have "PHYS_TO_VIRT p + 8 * j \<noteq> PHYS_TO_VIRT P + 8 * i"
        using entry_cell_inject [OF pal okP(1) j ixs(2)] \<open>P \<noteq> p\<close> by auto
      then show "entries m' (PHYS_TO_VIRT p) j = 0" using zero entry_cell(1) [OF pal j] by (simp add: m'_def)
    qed
  qed (use path fresh in auto)
  moreover have "\<forall>a. \<not> own_cells s B A a \<and> a \<noteq> PHYS_TO_VIRT P + 8 * i \<longrightarrow> pmem st' a = pmem st a"
    using other by (simp add: st'_def m'_def)
  moreover have "unat (pmem st s) \<le> Suc (unat (pmem st' s))"
  proof -
    have "own_cells s B A' s" for A' by (simp add: own_cells_def)
    then have "pmem st' s = pmem st1 s" using own [of s] okP(2) by (auto simp: st'_def m'_def)
    then show ?thesis using frames_alloc_blocks [OF fr ne al(1)] by simp
  qed
  ultimately show ?thesis using al(2) by (intro exI [of _ st'] exI [of _ p] exI [of _ e]) (simp add: st'_def)
qed

text \<open>
  \<open>grown s B A m m' T\<close>: the tables reached in \<open>m'\<close> are those reached in \<open>m\<close> and pages of \<open>A\<close>,
  and all cells that belong to neither the tables nor the allocator are as before.
\<close>

definition table_cell :: "mem \<Rightarrow> addr \<Rightarrow> addr \<Rightarrow> bool" where
  "table_cell m T a \<longleftrightarrow> (\<exists>is X j. is_path is \<and> walk m T is = Some X \<and> j < 512 \<and> a = PHYS_TO_VIRT X + 8 * j)"

definition grown :: "addr \<Rightarrow> addr set \<Rightarrow> addr set \<Rightarrow> mem \<Rightarrow> mem \<Rightarrow> addr \<Rightarrow> bool" where
  "grown s B A m m' T \<longleftrightarrow>
     (\<forall>is X. is_path is \<and> walk m' T is = Some X \<longrightarrow> X \<in> A \<or> (\<exists>js. is_path js \<and> walk m T js = Some X)) \<and>
     (\<forall>a. \<not> own_cells s B A a \<and> \<not> table_cell m T a \<longrightarrow> m' a = m a)"

lemma grown_refl: "grown s B A m m T"
  unfolding grown_def by blast

lemma avail_cells:
  assumes fr: "frames_inv s B st A" and p: "p \<in> A" and j: "j < 512"
  shows "own_cells s B A (PHYS_TO_VIRT p + 8 * j)"
  using fa.own_avail [OF fr p] entry_cell(1) [OF fa.page_aligned [OF fr p] j] by blast

lemma grown_table_cell:
  assumes "grown s B A m m' T" and "frames_inv s B st A" and "table_cell m' T a"
  shows "table_cell m T a \<or> own_cells s B A a"
  using assms avail_cells [OF assms(2)] unfolding grown_def table_cell_def by blast

lemma grown_trans:
  assumes g: "grown s B A m m' T" "grown s B A' m' m'' T" and sub: "A' \<subseteq> A" and fr: "frames_inv s B st A"
  shows "grown s B A m m'' T"
proof -
  have "m'' a = m a" if a: "\<not> own_cells s B A a" "\<not> table_cell m T a" for a
  proof -
    have "\<not> own_cells s B A' a" using a(1) own_cells_mono [OF sub] by blast
    moreover have "\<not> table_cell m' T a" using grown_table_cell [OF g(1) fr] a by blast
    ultimately have "m'' a = m' a" using g(2) by (simp add: grown_def)
    also have "\<dots> = m a" using g(1) a by (simp add: grown_def)
    finally show ?thesis .
  qed
  moreover have "X \<in> A \<or> (\<exists>js. is_path js \<and> walk m T js = Some X)" if "is_path is" "walk m'' T is = Some X" for "is" X
    using g sub that unfolding grown_def by blast
  ultimately show ?thesis unfolding grown_def by blast
qed

lemma ensure_table_correct:
  assumes inv: "pt_inv s B A st T" and path: "is_path (xs @ [i])" and P: "walk (pmem st) T xs = Some P"
    and upper: "\<not> (present (entries (pmem st) (PHYS_TO_VIRT P) i) \<and> large (entries (pmem st) (PHYS_TO_VIRT P) i))"
    and ne: "A \<noteq> {}"
  shows "\<exists>st' A' C. ensure_table st (PHYS_TO_VIRT P) i (flags AND PG_SAFE_FLAGS) = Inr (True, st') \<and>
    A' \<subseteq> A \<and> card A \<le> Suc (card A') \<and> pt_inv s B A' st' T \<and>
    walk (pmem st') T (xs @ [i]) = Some C \<and> entry_table (entries (pmem st') (PHYS_TO_VIRT P) i) = C \<and>
    (\<forall>v. translate (pmem st') T v = translate (pmem st) T v) \<and>
    (\<forall>ys j. is_path ys \<and> j < 512 \<and> (ys, j) \<noteq> (xs, i) \<longrightarrow> entry_at (pmem st') T ys j = entry_at (pmem st) T ys j) \<and>
    grown s B A (pmem st) (pmem st') T \<and> unat (pmem st s) \<le> Suc (unat (pmem st' s))"
proof (cases "present (entries (pmem st) (PHYS_TO_VIRT P) i)")
  case True
  then have "walk (pmem st) T (xs @ [i]) = Some (entry_table (entries (pmem st) (PHYS_TO_VIRT P) i))"
    using P upper by (simp add: walk_append)
  moreover have "ensure_table st (PHYS_TO_VIRT P) i (flags AND PG_SAFE_FLAGS) = Inr (True, st)"
    using True by (simp add: ensure_table_def)
  ultimately show ?thesis
    using inv grown_refl by (intro exI [of _ st] exI [of _ A]) auto
next
  case False
  from ensure_table_new [OF inv path P False ne, of flags] obtain st' p e where
    en: "ensure_table st (PHYS_TO_VIRT P) i (flags AND PG_SAFE_FLAGS) = Inr (True, st')" "p \<in> A"
      "frames_inv s B st' (A - {p})" "table_ok s B (A - {p}) p" and g: "grafted (pmem st) (pmem st') T xs i e p"
      and oth: "\<forall>a. \<not> own_cells s B A a \<and> a \<noteq> PHYS_TO_VIRT P + 8 * i \<longrightarrow> pmem st' a = pmem st a"
      and blocks: "unat (pmem st s) \<le> Suc (unat (pmem st' s))"
    by blast
  have tb: "tables_inv s B A (pmem st) T" using inv by (simp add: pt_inv_def)
  have "pt_inv s B (A - {p}) st' T"
    using en(3) inv tables_inv_grafted [OF tb g _ en(4)] by (auto simp: pt_inv_def)
  moreover have "card A \<le> Suc (card (A - {p}))"
    by (metis card_Suc_Diff1 card.infinite en(2) le_Suc_eq order.refl finite_Diff_insert card_eq_0_iff zero_le)
  moreover have "walk (pmem st') T (xs @ [i]) = Some p" using walk_grafted [OF g path] by simp
  moreover have "entry_table (entries (pmem st') (PHYS_TO_VIRT P) i) = p"
    using g P by (auto simp: grafted_def)
  moreover have "entry_at (pmem st') T ys j = entry_at (pmem st) T ys j"
    if "is_path ys" "j < 512" "(ys, j) \<noteq> (xs, i)" for ys j
    using entry_at_grafted [OF g that(1,2)] that(3) by auto
  moreover have "grown s B A (pmem st) (pmem st') T"
  proof -
    have "table_cell (pmem st) T (PHYS_TO_VIRT P + 8 * i)"
      using P path unfolding table_cell_def by (auto simp: is_path_snoc)
    moreover have "X \<in> A \<or> (\<exists>js. is_path js \<and> walk (pmem st) T js = Some X)"
      if "is_path is" "walk (pmem st') T is = Some X" for "is" X
      using walk_grafted [OF g that(1)] that en(2) by (auto split: if_splits)
    ultimately show ?thesis using oth unfolding grown_def by metis
  qed
  ultimately show ?thesis using en(1) blocks translate_grafted [OF g] by (intro exI [of _ st'] exI [of _ "A - {p}"] exI [of _ p]) auto
qed

section \<open>Entering a page\<close>

lemma leaf_set:
  assumes inv: "pt_inv s B A st T" and xs: "is_path xs" and P: "walk (pmem st) T xs = Some P" and i: "i < 512"
    and leaf: "length xs = 3 \<or> length xs = 2 \<and> \<not> is_table (entry_at (pmem st) T xs i) \<and> \<not> is_table e"
  shows "pt_inv s B A (put st (PHYS_TO_VIRT P + 8 * i) e) T"
    and "is_path ys \<Longrightarrow> j < 512 \<Longrightarrow> entry_at (pmem (put st (PHYS_TO_VIRT P + 8 * i) e)) T ys j =
      (if ys = xs \<and> j = i then e else entry_at (pmem st) T ys j)"
    and "is_path ys \<Longrightarrow> walk (pmem (put st (PHYS_TO_VIRT P + 8 * i) e)) T ys = walk (pmem st) T ys"
proof -
  let ?m = "pmem st" and ?m' = "pmem (put st (PHYS_TO_VIRT P + 8 * i) e)"
  have fr: "frames_inv s B st A" and tb: "tables_inv s B A ?m T" using inv by (simp_all add: pt_inv_def)
  have okP: "MASK_4KIB P = P" "\<not> own_cells s B A (PHYS_TO_VIRT P + 8 * i)"
    using tables_ok [OF tb xs P] i by (simp_all add: table_ok_def)
  have ag: "agree_but ?m ?m' T xs i"
    unfolding agree_but_def
  proof (intro allI impI, elim conjE)
    fix ys Y j assume y: "is_path ys" "walk ?m T ys = Some Y" "j < (512 :: u64)" "(ys, j) \<noteq> (xs, i)"
    have "\<not> (Y = P \<and> j = i)" using tables_unique [OF tb y(1) xs y(2)] P y(4) by auto
    then have "PHYS_TO_VIRT Y + 8 * j \<noteq> PHYS_TO_VIRT P + 8 * i"
      using entry_cell_inject [of Y P j i] tables_ok [OF tb y(1,2)] okP(1) y(3) i by (auto simp: table_ok_def)
    then show "entries ?m' (PHYS_TO_VIRT Y) j = entries ?m (PHYS_TO_VIRT Y) j" by (simp add: put_def)
  qed
  have eP: "entries ?m' (PHYS_TO_VIRT P) i = e" by (simp add: put_def)
  show walks: "walk ?m' T ys = walk ?m T ys" if ys: "is_path ys" for ys
  proof (cases "\<exists>zs. ys = xs @ i # zs")
    case False
    then show ?thesis using walk_agree [OF ag ys] by blast
  next
    case True
    then obtain zs where zs: "ys = xs @ i # zs" by blast
    then have nt: "\<not> is_table (entry_at ?m T xs i)" "\<not> is_table e" using leaf ys by (auto simp: is_path_def)
    have "walk ?m' T xs = Some P" using walk_agree [OF ag xs] P by auto
    then show ?thesis using P eP nt by (auto simp: zs walk_append entry_at_def Let_def)
  qed
  show ent: "entry_at ?m' T ys j = (if ys = xs \<and> j = i then e else entry_at ?m T ys j)"
    if "is_path ys" "j < 512" for ys j
  proof (cases "ys = xs \<and> j = i")
    case True
    then show ?thesis using walks [OF xs] P eP by (simp add: entry_at_def)
  next
    case False
    then have "(ys, j) \<noteq> (xs, i)" by auto
    then have "entries ?m' (PHYS_TO_VIRT Y) j = entries ?m (PHYS_TO_VIRT Y) j" if "walk ?m T ys = Some Y" for Y
      using ag that \<open>is_path ys\<close> \<open>j < 512\<close> unfolding agree_but_def by blast
    then show ?thesis using walks [OF that(1)] False by (auto simp: entry_at_def split: option.splits)
  qed
  have "frames_inv s B (put st (PHYS_TO_VIRT P + 8 * i) e) A"
    unfolding put_def using okP(2) by (intro fa.write_other [OF fr]) auto
  moreover have "tables_inv s B A ?m' T"
    unfolding tables_inv_def
  proof (intro conjI allI impI, goal_cases)
    case (3 "is" k)
    then have "entry_at ?m' T is k = entry_at ?m T is k" using ent [of "is" k] leaf by auto
    with 3 tables_upper [OF tb] show ?case by metis
  qed (use walks tables_ok [OF tb] tables_unique [OF tb] in \<open>metis+\<close>)
  ultimately show "pt_inv s B A (put st (PHYS_TO_VIRT P + 8 * i) e) T"
    using inv by (simp add: pt_inv_def)
qed

text \<open>Addresses that share the four indices, and those that share the first three.\<close>

definition same_large_page :: "u64 \<Rightarrow> u64 \<Rightarrow> bool" where
  "same_large_page v w \<longleftrightarrow> PML4_INDEX w = PML4_INDEX v \<and> PDPT_INDEX w = PDPT_INDEX v \<and> PDT_INDEX w = PDT_INDEX v"

definition same_page :: "u64 \<Rightarrow> u64 \<Rightarrow> bool" where
  "same_page v w \<longleftrightarrow> same_large_page v w \<and> PT_INDEX w = PT_INDEX v"

abbreviation pd_path :: "u64 \<Rightarrow> u64 list" where "pd_path v \<equiv> [PML4_INDEX v, PDPT_INDEX v]"
abbreviation pt_path :: "u64 \<Rightarrow> u64 list" where "pt_path v \<equiv> [PML4_INDEX v, PDPT_INDEX v, PDT_INDEX v]"

lemma paths: "is_path []" "is_path [PML4_INDEX v]" "is_path (pd_path v)" "is_path (pt_path v)"
  by (simp_all add: is_path_def index_less)

lemma set_small_page:
  assumes inv: "pt_inv s B A st T" and P: "walk (pmem st) T (pt_path v) = Some P"
    and e: "present e" "ENTRY_TO_ADDR e = f"
  shows "pt_inv s B A (put st (PHYS_TO_VIRT P + 8 * PT_INDEX v) e) T"
    and "translate (pmem (put st (PHYS_TO_VIRT P + 8 * PT_INDEX v) e)) T w =
      (if same_page v w then Some (f + (w AND 0xFFF)) else translate (pmem st) T w)"
proof -
  note set = leaf_set [where e = e, OF inv paths(4) P index_less(4)]
  show "pt_inv s B A (put st (PHYS_TO_VIRT P + 8 * PT_INDEX v) e) T" by (rule set(1)) simp
  let ?m' = "pmem (put st (PHYS_TO_VIRT P + 8 * PT_INDEX v) e)"
  have pd: "entry_at ?m' T (pd_path w) (PDT_INDEX w) = entry_at (pmem st) T (pd_path w) (PDT_INDEX w)"
    by (subst set(2) [OF _ paths(3) index_less(3)]) auto
  have pt: "entry_at ?m' T (pt_path w) (PT_INDEX w) = (if same_page v w then e else entry_at (pmem st) T (pt_path w) (PT_INDEX w))"
    by (subst set(2) [OF _ paths(4) index_less(4)]) (auto simp: same_page_def same_large_page_def)
  have "is_table (entry_at (pmem st) T (pd_path w) (PDT_INDEX w))" if "same_page v w"
    using P walk_snoc [of "pmem st" T "pd_path w" "PDT_INDEX w"] that
    by (auto simp: same_page_def same_large_page_def Let_def split: if_splits)
  then show "translate ?m' T w = (if same_page v w then Some (f + (w AND 0xFFF)) else translate (pmem st) T w)"
    using e by (simp add: translate_def pd pt)
qed

lemma set_large_page:
  assumes inv: "pt_inv s B A st T" and P: "walk (pmem st) T (pd_path v) = Some P"
    and free: "\<not> present (entry_at (pmem st) T (pd_path v) (PDT_INDEX v))"
    and e: "present e" "large e" "ENTRY_TO_ADDR e = f"
  shows "pt_inv s B A (put st (PHYS_TO_VIRT P + 8 * PDT_INDEX v) e) T"
    and "translate (pmem (put st (PHYS_TO_VIRT P + 8 * PDT_INDEX v) e)) T w =
      (if same_large_page v w then Some (f + (w AND 0x1FFFFF)) else translate (pmem st) T w)"
proof -
  note set = leaf_set [where e = e, OF inv paths(3) P index_less(3)]
  have c: "length (pd_path v) = 3 \<or> length (pd_path v) = 2 \<and>
      \<not> is_table (entry_at (pmem st) T (pd_path v) (PDT_INDEX v)) \<and> \<not> is_table e"
    using free e by simp
  show "pt_inv s B A (put st (PHYS_TO_VIRT P + 8 * PDT_INDEX v) e) T" by (rule set(1) [OF c])
  let ?m' = "pmem (put st (PHYS_TO_VIRT P + 8 * PDT_INDEX v) e)"
  have pd: "entry_at ?m' T (pd_path w) (PDT_INDEX w) =
      (if same_large_page v w then e else entry_at (pmem st) T (pd_path w) (PDT_INDEX w))"
    by (subst set(2) [OF c paths(3) index_less(3)]) (auto simp: same_large_page_def)
  have pt: "entry_at ?m' T (pt_path w) (PT_INDEX w) = entry_at (pmem st) T (pt_path w) (PT_INDEX w)"
    by (subst set(2) [OF c paths(4) index_less(4)]) auto
  show "translate ?m' T w = (if same_large_page v w then Some (f + (w AND 0x1FFFFF)) else translate (pmem st) T w)"
    using e by (simp add: translate_def pd pt)
qed

section \<open>Mapping a page\<close>

text \<open>The two upper steps of \<open>virt_map_phys\<close>: the page directory is found or made.\<close>

lemma find_pd:
  assumes inv: "pt_inv s B A st T" and pages: "3 \<le> card A"
  shows "\<exists>st' A' P. virt_map_phys st T v pa flags page_size =
      map_in_pd st' (PHYS_TO_VIRT P) v pa (flags AND PG_SAFE_FLAGS) page_size \<and>
    A' \<subseteq> A \<and> A' \<noteq> {} \<and> pt_inv s B A' st' T \<and> walk (pmem st') T (pd_path v) = Some P \<and>
    (\<forall>w. translate (pmem st') T w = translate (pmem st) T w) \<and>
    (\<forall>w. entry_at (pmem st') T (pd_path w) (PDT_INDEX w) = entry_at (pmem st) T (pd_path w) (PDT_INDEX w)) \<and>
    grown s B A (pmem st) (pmem st') T \<and> card A \<le> card A' + 2 \<and> unat (pmem st s) \<le> unat (pmem st' s) + 2"
proof -
  have tb: "tables_inv s B A (pmem st) T" using inv by (simp add: pt_inv_def)
  have up0: "\<not> (present (entries (pmem st) (PHYS_TO_VIRT T) (PML4_INDEX v)) \<and> large (entries (pmem st) (PHYS_TO_VIRT T) (PML4_INDEX v)))"
    using tables_upper [OF tb paths(1) _ index_less(1)] by (simp add: entry_at_def)
  have p0: "is_path ([] @ [PML4_INDEX v])" by (simp add: paths)
  have "walk (pmem st) T [] = Some T" and "A \<noteq> {}" using pages by auto
  from ensure_table_correct [OF inv p0 this(1) up0 this(2), of flags] obtain st1 A1 C1 where
    s1: "ensure_table st (PHYS_TO_VIRT T) (PML4_INDEX v) (flags AND PG_SAFE_FLAGS) = Inr (True, st1)"
      "A1 \<subseteq> A" "card A \<le> Suc (card A1)" "pt_inv s B A1 st1 T" "walk (pmem st1) T [PML4_INDEX v] = Some C1"
      "entry_table (entries (pmem st1) (PHYS_TO_VIRT T) (PML4_INDEX v)) = C1"
      "\<forall>w. translate (pmem st1) T w = translate (pmem st) T w"
      "\<forall>ys j. is_path ys \<and> j < 512 \<and> (ys, j) \<noteq> ([], PML4_INDEX v) \<longrightarrow>
        entry_at (pmem st1) T ys j = entry_at (pmem st) T ys j" "grown s B A (pmem st) (pmem st1) T"
      "unat (pmem st s) \<le> Suc (unat (pmem st1 s))"
    unfolding append_Nil by blast
  have tb1: "tables_inv s B A1 (pmem st1) T" using s1(4) by (simp add: pt_inv_def)
  have up1: "\<not> (present (entries (pmem st1) (PHYS_TO_VIRT C1) (PDPT_INDEX v)) \<and> large (entries (pmem st1) (PHYS_TO_VIRT C1) (PDPT_INDEX v)))"
    using tables_upper [OF tb1 paths(2) _ index_less(2), of v v] s1(5) by (simp add: entry_at_def)
  have p1: "is_path ([PML4_INDEX v] @ [PDPT_INDEX v])" by (simp add: paths)
  have "A1 \<noteq> {}" using pages s1(3) by auto
  from ensure_table_correct [OF s1(4) p1 s1(5) up1 this, of flags] obtain st2 A2 C2 where
    s2: "ensure_table st1 (PHYS_TO_VIRT C1) (PDPT_INDEX v) (flags AND PG_SAFE_FLAGS) = Inr (True, st2)"
      "A2 \<subseteq> A1" "card A1 \<le> Suc (card A2)" "pt_inv s B A2 st2 T" "walk (pmem st2) T (pd_path v) = Some C2"
      "entry_table (entries (pmem st2) (PHYS_TO_VIRT C1) (PDPT_INDEX v)) = C2"
      "\<forall>w. translate (pmem st2) T w = translate (pmem st1) T w"
      "\<forall>ys j. is_path ys \<and> j < 512 \<and> (ys, j) \<noteq> ([PML4_INDEX v], PDPT_INDEX v) \<longrightarrow>
        entry_at (pmem st2) T ys j = entry_at (pmem st1) T ys j" "grown s B A1 (pmem st1) (pmem st2) T"
      "unat (pmem st1 s) \<le> Suc (unat (pmem st2 s))"
    unfolding append_Cons append_Nil by blast
  have "grown s B A (pmem st) (pmem st2) T" using grown_trans [OF s1(9) s2(9) s1(2)] inv unfolding pt_inv_def by blast
  moreover have "\<forall>w. entry_at (pmem st2) T (pd_path w) (PDT_INDEX w) = entry_at (pmem st) T (pd_path w) (PDT_INDEX w)"
    using s2(8) s1(8) paths(3) index_less(3) by simp
  moreover have "virt_map_phys st T v pa flags page_size =
      map_in_pd st2 (PHYS_TO_VIRT C2) v pa (flags AND PG_SAFE_FLAGS) page_size"
    by (simp add: virt_map_phys_def Let_def s1(1,6) s2(1,6))
  moreover have "card A \<le> card A2 + 2" using s1(3) s2(3) by simp
  moreover have "unat (pmem st s) \<le> unat (pmem st2 s) + 2" using s1(10) s2(10) by simp
  moreover have "A2 \<noteq> {}" using pages s1(3) s2(3) by auto
  moreover have "A2 \<subseteq> A" using s1(2) s2(2) by blast
  moreover have "\<forall>w. translate (pmem st2) T w = translate (pmem st) T w" using s1(7) s2(7) by simp
  ultimately show ?thesis using s2(4,5)
    by (intro exI [of _ st2] exI [of _ A2] exI [of _ C2] conjI)
qed

lemma map_small_page:
  assumes inv: "pt_inv s B A st T" and pages: "3 \<le> card A" and free: "translate (pmem st) T v = None"
    and pa: "pa < 2 ^ 63"
  shows "\<exists>st' A'. virt_map_phys st T v pa flags PAGE_SMALL = Inr (1, st') \<and> A' \<subseteq> A \<and> pt_inv s B A' st' T \<and>
    (\<forall>w. translate (pmem st') T w =
      (if same_page v w then Some (MASK_4KIB pa + (w AND 0xFFF)) else translate (pmem st) T w)) \<and>
    \<not> large (entry_at (pmem st') T (pd_path v) (PDT_INDEX v)) \<and> grown s B A (pmem st) (pmem st') T \<and>
    card A \<le> card A' + 3"
proof -
  let ?fl = "flags AND PG_SAFE_FLAGS" and ?leaf = "MASK_4KIB pa OR PRESENT OR (flags AND PG_SAFE_FLAGS)"
  from find_pd [OF inv pages, of v pa flags PAGE_SMALL] obtain st2 A2 P where
    m: "virt_map_phys st T v pa flags PAGE_SMALL = map_in_pd st2 (PHYS_TO_VIRT P) v pa ?fl PAGE_SMALL"
      "A2 \<subseteq> A" "A2 \<noteq> {}" "pt_inv s B A2 st2 T" "walk (pmem st2) T (pd_path v) = Some P"
      "\<forall>w. translate (pmem st2) T w = translate (pmem st) T w" "grown s B A (pmem st) (pmem st2) T"
      "card A \<le> card A2 + 2" by blast
  have pd: "\<not> (present (entries (pmem st2) (PHYS_TO_VIRT P) (PDT_INDEX v)) \<and> large (entries (pmem st2) (PHYS_TO_VIRT P) (PDT_INDEX v)))"
    using free m(6) [rule_format, of v] m(5) by (auto simp: translate_def entry_at_def Let_def split: if_splits)
  have "is_path (pd_path v @ [PDT_INDEX v])" by (simp add: paths)
  from ensure_table_correct [OF m(4) this m(5) pd m(3), of flags] obtain st3 A3 C where
    s3: "ensure_table st2 (PHYS_TO_VIRT P) (PDT_INDEX v) ?fl = Inr (True, st3)" "A3 \<subseteq> A2"
      "pt_inv s B A3 st3 T" "walk (pmem st3) T (pt_path v) = Some C"
      "entry_table (entries (pmem st3) (PHYS_TO_VIRT P) (PDT_INDEX v)) = C"
      "\<forall>w. translate (pmem st3) T w = translate (pmem st2) T w" "grown s B A2 (pmem st2) (pmem st3) T"
      "card A2 \<le> Suc (card A3)"
    unfolding append_Cons append_Nil by blast
  have tab: "is_table (entry_at (pmem st3) T (pd_path v) (PDT_INDEX v))"
    using s3(4) walk_snoc [of "pmem st3" T "pd_path v" "PDT_INDEX v"] by (auto simp: Let_def split: if_splits)
  have "translate (pmem st3) T v = None" using free m(6) s3(6) by simp
  then have unmapped: "\<not> present (entries (pmem st3) (PHYS_TO_VIRT C) (PT_INDEX v))"
    using tab s3(4) by (auto simp: translate_def Let_def entry_at_def split: if_splits)
  have al: "MASK_4KIB pa = MASK_4KIB pa AND 0x7FFFFFFFFFFFF000"
  proof -
    have "pa AND mask 63 = pa"
      using pa unfolding word_unat_eq_iff unat_and_mask by (simp add: word_less_nat_alt)
    moreover have "pa AND NOT (mask 12) AND (mask 63 AND NOT (mask 12)) = (pa AND mask 63) AND NOT (mask 12)"
      by (rule bit_word_eqI) (auto simp: bit_simps)
    ultimately have "pa AND NOT (mask 12) AND (mask 63 AND NOT (mask 12)) = pa AND NOT (mask 12)" by simp
    then show ?thesis unfolding MASK_4KIB_def mask_12 mask_63_12 by (simp only: and.assoc)
  qed
  note leaf = new_leaf [OF al _ refl, of flags]
  let ?st = "put st3 (PHYS_TO_VIRT C + 8 * PT_INDEX v) ?leaf"
  have "virt_map_phys st T v pa flags PAGE_SMALL = Inr (1, ?st)"
    using pd unmapped unfolding m(1)
    by (auto simp: map_in_pd_def Let_def s3(1,5) put_def or.assoc)
  moreover have "pt_inv s B A3 ?st T"
    by (rule set_small_page(1) [OF s3(3,4)]) (simp_all add: leaf)
  moreover have "translate (pmem ?st) T w =
      (if same_page v w then Some (MASK_4KIB pa + (w AND 0xFFF)) else translate (pmem st) T w)" for w
    using set_small_page(2) [OF s3(3,4), of ?leaf "MASK_4KIB pa" w] leaf m(6) s3(6) by simp
  moreover have "\<not> large (entry_at (pmem ?st) T (pd_path v) (PDT_INDEX v))"
    using tab by (subst leaf_set(2) [OF s3(3) paths(4) s3(4) index_less(4) _ paths(3) index_less(3)]) auto
  moreover have "grown s B A (pmem st) (pmem ?st) T"
  proof -
    have "table_cell (pmem st3) T (PHYS_TO_VIRT C + 8 * PT_INDEX v)"
      using s3(4) paths(4) index_less(4) unfolding table_cell_def by blast
    then have g3: "grown s B A2 (pmem st3) (pmem ?st) T"
      unfolding grown_def using leaf_set(3) [OF s3(3) paths(4) s3(4) index_less(4)]
      by (fastforce simp: put_def)
    have "frames_inv s B st2 A2" "frames_inv s B st A" using m(4) inv by (simp_all add: pt_inv_def)
    then show ?thesis
      using grown_trans [OF m(7) grown_trans [OF s3(7) g3 order.refl] m(2)] by blast
  qed
  ultimately show ?thesis using s3(2,8) m(2,8) by (intro exI [of _ ?st] exI [of _ A3]) auto
qed

lemma map_large_page:
  assumes inv: "pt_inv s B A st T" and pages: "3 \<le> card A" and pa: "pa < 2 ^ 63"
    and free: "\<not> present (entry_at (pmem st) T (pd_path v) (PDT_INDEX v))"
  shows "\<exists>st' A'. virt_map_phys st T v pa flags PAGE_LARGE = Inr (1, st') \<and> A' \<subseteq> A \<and> pt_inv s B A' st' T \<and>
    (\<forall>w. translate (pmem st') T w =
      (if same_large_page v w then Some (MASK_2MIB pa + (w AND 0x1FFFFF)) else translate (pmem st) T w)) \<and>
    present (entry_at (pmem st') T (pd_path v) (PDT_INDEX v)) \<and> large (entry_at (pmem st') T (pd_path v) (PDT_INDEX v)) \<and>
    (\<forall>w. \<not> same_large_page v w \<longrightarrow>
      entry_at (pmem st') T (pd_path w) (PDT_INDEX w) = entry_at (pmem st) T (pd_path w) (PDT_INDEX w)) \<and>
    unat (pmem st s) \<le> unat (pmem st' s) + 2"
proof -
  let ?fl = "flags AND PG_SAFE_FLAGS"
  define e where "e = (MASK_2MIB pa OR PDT_PAGE_SIZE OR PRESENT OR ?fl) OR ?fl"
  from find_pd [OF inv pages, of v pa flags PAGE_LARGE] obtain st2 A2 P where
    m: "virt_map_phys st T v pa flags PAGE_LARGE = map_in_pd st2 (PHYS_TO_VIRT P) v pa ?fl PAGE_LARGE"
      "A2 \<subseteq> A" "pt_inv s B A2 st2 T" "walk (pmem st2) T (pd_path v) = Some P"
      "\<forall>w. translate (pmem st2) T w = translate (pmem st) T w"
      "\<forall>w. entry_at (pmem st2) T (pd_path w) (PDT_INDEX w) = entry_at (pmem st) T (pd_path w) (PDT_INDEX w)"
      "unat (pmem st s) \<le> unat (pmem st2 s) + 2" by blast
  have free': "\<not> present (entry_at (pmem st2) T (pd_path v) (PDT_INDEX v))" using free m(6) by simp
  then have "\<not> present (entries (pmem st2) (PHYS_TO_VIRT P) (PDT_INDEX v))" using m(4) by (simp add: entry_at_def)
  then have eq: "virt_map_phys st T v pa flags PAGE_LARGE = Inr (1, put st2 (PHYS_TO_VIRT P + 8 * PDT_INDEX v) e)"
    unfolding m(1) by (auto simp: map_in_pd_def Let_def put_def e_def)
  have "ENTRY_TO_ADDR e = MASK_2MIB pa"
  proof -
    have "?fl AND 0x7FFFFFFFFFFFF000 = 0" by (simp add: and.assoc)
    moreover have "pa AND mask 63 = pa"
      using pa unfolding word_unat_eq_iff unat_and_mask by (simp add: word_less_nat_alt)
    moreover have "(pa AND NOT (mask 21)) AND (mask 63 AND NOT (mask 12)) = (pa AND mask 63) AND NOT (mask 21)"
      by (rule bit_word_eqI) (auto simp: bit_simps)
    ultimately show ?thesis
      unfolding e_def ENTRY_TO_ADDR_def MASK_2MIB_def mask_21 mask_63_12
      by (simp add: bit.conj_disj_distrib2 flip: mask_63_12)
  qed
  moreover have pl: "present e" "large e" unfolding present_iff_bit large_iff_bit e_def by (simp_all add: bit_simps)
  moreover have "entry_at (pmem (put st2 (PHYS_TO_VIRT P + 8 * PDT_INDEX v) e)) T (pd_path v) (PDT_INDEX v) = e"
    using free' pl by (subst leaf_set(2) [OF m(3) paths(3) m(4) index_less(3) _ paths(3) index_less(3)]) simp_all
  moreover have "entry_at (pmem (put st2 (PHYS_TO_VIRT P + 8 * PDT_INDEX v) e)) T (pd_path w) (PDT_INDEX w) =
      entry_at (pmem st) T (pd_path w) (PDT_INDEX w)" if "\<not> same_large_page v w" for w
    using free' pl that m(6)
    by (subst leaf_set(2) [OF m(3) paths(3) m(4) index_less(3) _ paths(3) index_less(3)]) (auto simp: same_large_page_def)
  moreover have "unat (pmem st s) \<le> unat (pmem (put st2 (PHYS_TO_VIRT P + 8 * PDT_INDEX v) e) s) + 2"
  proof -
    have "table_ok s B A2 P" using m(3,4) paths(3) tables_ok unfolding pt_inv_def by blast
    then have "\<not> own_cells s B A2 (PHYS_TO_VIRT P + 8 * PDT_INDEX v)" using index_less(3) by (simp add: table_ok_def)
    then have "PHYS_TO_VIRT P + 8 * PDT_INDEX v \<noteq> s" by (auto simp: own_cells_def)
    then show ?thesis using m(7) by (simp add: put_def)
  qed
  ultimately show ?thesis
    using eq set_large_page [OF m(3,4) free', of e] m(2,5)
    by (intro exI [of _ "put st2 (PHYS_TO_VIRT P + 8 * PDT_INDEX v) e"] exI [of _ A2]) auto
qed

text \<open>A look-up in terms of the entries.\<close>

lemma lookup_eq:
  assumes tb: "tables_inv s B A m T"
  shows "virt_lookup_phys m T v =
    (let pd = entry_at m T (pd_path v) (PDT_INDEX v); pt = entry_at m T (pt_path v) (PT_INDEX v)
     in if \<not> present pd then None
        else if large pd then Some (ENTRY_TO_ADDR pd + (v AND 0xFFF))
        else Some (if present pt then ENTRY_TO_ADDR pt + (v AND 0xFFF) else 0))"
proof -
  have up: "\<not> (present (entry_at m T [] (PML4_INDEX v)) \<and> large (entry_at m T [] (PML4_INDEX v)))"
    "\<not> (present (entry_at m T [PML4_INDEX v] (PDPT_INDEX v)) \<and> large (entry_at m T [PML4_INDEX v] (PDPT_INDEX v)))"
    using tables_upper [OF tb paths(1) _ index_less(1)] tables_upper [OF tb paths(2) _ index_less(2)] by auto
  show ?thesis
  proof (cases "present (entries m (PHYS_TO_VIRT T) (PML4_INDEX v))")
    case False
    then show ?thesis by (simp add: virt_lookup_phys_def entry_at_def Let_def)
  next
    case True
    define C where "C = entry_table (entries m (PHYS_TO_VIRT T) (PML4_INDEX v))"
    have C: "walk m T [PML4_INDEX v] = Some C" using True up(1) by (simp add: entry_at_def C_def Let_def)
    show ?thesis
    proof (cases "present (entries m (PHYS_TO_VIRT C) (PDPT_INDEX v))")
      case False
      then have "walk m T (pd_path v) = None" using C walk_snoc [of m T "[PML4_INDEX v]" "PDPT_INDEX v"]
        by (simp add: entry_at_def)
      with True False show ?thesis by (simp add: virt_lookup_phys_def entry_at_def Let_def C_def)
    next
      case present: True
      define D where "D = entry_table (entries m (PHYS_TO_VIRT C) (PDPT_INDEX v))"
      have D: "walk m T (pd_path v) = Some D"
        using walk_snoc [of m T "[PML4_INDEX v]" "PDPT_INDEX v"] present up(2) C by (simp add: entry_at_def D_def)
      then have "walk m T (pt_path v) = (let e = entries m (PHYS_TO_VIRT D) (PDT_INDEX v) in if is_table e then Some (entry_table e) else None)"
        using walk_snoc [of m T "pd_path v" "PDT_INDEX v"] by (simp add: entry_at_def)
      then show ?thesis
        using True present D unfolding virt_lookup_phys_def C_def [symmetric] D_def [symmetric]
        by (simp add: entry_at_def Let_def flip: C_def D_def)
    qed
  qed
qed

lemma lookup_small:
  assumes "tables_inv s B A m T" and "\<not> large (entry_at m T (pd_path v) (PDT_INDEX v))"
    and "translate m T v = Some x"
  shows "virt_lookup_phys m T v = Some x"
  using assms(2,3) by (auto simp: lookup_eq [OF assms(1)] translate_def Let_def split: if_splits)

section \<open>Properties\<close>

text \<open>C2. Mapping a 4 KiB page does to the address space what a partial function update does: in
  a well-formed structure with three pages to spare, for an address that is not mapped,
  \<open>virt_map_phys\<close> succeeds, every address of that page then translates to the physical page
  plus its offset, every other address translates as before, and the structure stays
  well-formed (whatever tables had to be allocated on the way).\<close>

theorem virt_map_phys_maps_page:
  assumes "pt_inv s B A st T" and "3 \<le> card A" and "translate (pmem st) T v = None" and "pa < 2 ^ 63"
  shows "\<exists>st' A'. virt_map_phys st T v pa flags PAGE_SMALL = Inr (1, st') \<and> A' \<subseteq> A \<and> pt_inv s B A' st' T \<and>
    (\<forall>w. translate (pmem st') T w =
      (if same_page v w then Some (MASK_4KIB pa + (w AND 0xFFF)) else translate (pmem st) T w))"
  using map_small_page [OF assms] by blast

text \<open>The witnesses: an empty PML4 table at \<open>0x101000\<close> beside the allocator with one pool.\<close>

abbreviation sample_avail :: "addr set" where
  "sample_avail \<equiv> VIRT_TO_PHYS ` avail_pages [] [(sample_pool, 2, [])]"

lemma sample_walk: "is_path is \<Longrightarrow> walk (pool_mem 2 1) 0x101000 is = Some X \<Longrightarrow> is = [] \<and> X = 0x101000"
proof -
  assume p: "is_path is" and w: "walk (pool_mem 2 1) 0x101000 is = Some X"
  have "entries (pool_mem 2 1) (PHYS_TO_VIRT 0x101000) i = 0" if "i < 512" for i
  proof -
    have "MASK_4KIB (PHYS_TO_VIRT 0x101000 + 8 * i) = PHYS_TO_VIRT 0x101000"
      by (rule entry_cell(1) [OF _ that]) (simp add: MASK_4KIB_def)
    then have "PHYS_TO_VIRT 0x101000 + 8 * i \<noteq> sample_pool + d" if "d < size_4KiB" for d
      using header_cell [OF sample_pool_base that] by (auto simp: PHYS_TO_VIRT_def)
    from this [of 16] this [of 24] this [of 48] show ?thesis
      by (simp add: pool_mem_def word_less_nat_alt)
  qed
  with p w show ?thesis by (cases "is") (auto simp: is_path_def Let_def)
qed

lemma sample_entry: "is_path is \<Longrightarrow> i < 512 \<Longrightarrow> entry_at (pool_mem 2 1) 0x101000 is i = 0"
proof -
  assume p: "is_path is" "i < 512"
  have "entry_at (pool_mem 2 1) 0x101000 [] i = 0"
  proof -
    have "MASK_4KIB (PHYS_TO_VIRT 0x101000 + 8 * i) = PHYS_TO_VIRT 0x101000"
      by (rule entry_cell(1) [OF _ p(2)]) (simp add: MASK_4KIB_def)
    then have "PHYS_TO_VIRT 0x101000 + 8 * i \<noteq> sample_pool + d" if "d < size_4KiB" for d
      using header_cell [OF sample_pool_base that] by (auto simp: PHYS_TO_VIRT_def)
    from this [of 16] this [of 24] this [of 48] show ?thesis
      by (simp add: pool_mem_def entry_at_def word_less_nat_alt)
  qed
  then show ?thesis using sample_walk [OF p(1)] by (cases "walk (pool_mem 2 1) 0x101000 is") (auto simp: entry_at_def)
qed

lemma sample_pages: "frames_inv 0xFFFF800000110008 {sample_pool} one_page_out sample_avail"
  "\<forall>p\<in>sample_avail. p < 2 ^ 39" "3 \<le> card sample_avail" "8 \<le> card sample_avail"
proof -
  show "frames_inv 0xFFFF800000110008 {sample_pool} one_page_out sample_avail"
    unfolding frames_inv_def using one_page_out_rep
    by (intro conjI exI [of _ "[]"] exI [of _ "[(sample_pool, 2, [])]"]) (simp_all add: one_page_out_def sample_phys_def)
  have av: "avail_pages [] [(sample_pool, 2, [])] = page sample_pool ` {2..<512}"
    by (simp add: avail_pages_def pool_avail_def)
  have "inj_on (page sample_pool) {2..<512}" by (rule inj_onI) (simp add: page_inject [OF sample_pool_base])
  then have "card (page sample_pool ` {2..<512}) = 510" by (simp add: card_image)
  moreover have "card sample_avail = card (page sample_pool ` {2..<512})"
    unfolding av by (rule card_image) (simp add: inj_on_def)
  ultimately show "3 \<le> card sample_avail" "8 \<le> card sample_avail" by simp_all
  show "\<forall>p\<in>sample_avail. p < 2 ^ 39"
  proof
    fix p assume "p \<in> sample_avail"
    then obtain i where i: "p = VIRT_TO_PHYS (page sample_pool i)" "i < 512" by (auto simp: av)
    have "p = 0x400000 + of_nat (i * 4096)" by (simp add: i(1) page_def VIRT_TO_PHYS_def)
    moreover have "unat (0x400000 + of_nat (i * 4096) :: u64) = 0x400000 + i * 4096"
      using unat_add_off [of "0x400000" "i * 4096"] i(2) by simp
    ultimately show "p < 2 ^ 39" using i(2) by (simp add: word_less_nat_alt)
  qed
qed

lemma sample_pt_inv: "pt_inv 0xFFFF800000110008 {sample_pool} sample_avail one_page_out 0x101000"
proof -
  have mem: "pmem one_page_out = pool_mem 2 1" by (simp add: one_page_out_def)
  have "\<not> own_cells 0xFFFF800000110008 {sample_pool} sample_avail (PHYS_TO_VIRT 0x101000 + 8 * i)" if "i < 512" for i
  proof -
    let ?a = "PHYS_TO_VIRT 0x101000 + 8 * i"
    have m: "MASK_4KIB ?a = PHYS_TO_VIRT 0x101000" by (rule entry_cell(1) [OF _ that]) (simp add: MASK_4KIB_def)
    have "MASK_2MIB q = sample_pool" if "q \<in> avail_pages [] [(sample_pool, 2, [])]" for q
      using that page_block(1) [OF sample_pool_base] by (auto simp: avail_pages_def pool_avail_def)
    moreover have "MASK_2MIB (PHYS_TO_VIRT 0x101000) \<noteq> sample_pool" by (simp add: MASK_2MIB_def PHYS_TO_VIRT_def)
    ultimately have "PHYS_TO_VIRT 0x101000 \<notin> avail_pages [] [(sample_pool, 2, [])]" by blast
    moreover have "MASK_4KIB 0xFFFF800000110008 \<noteq> MASK_4KIB ?a" "MASK_4KIB (0xFFFF800000110008 + 8) \<noteq> MASK_4KIB ?a"
      unfolding m by (simp_all add: MASK_4KIB_def PHYS_TO_VIRT_def)
    then have "?a \<notin> {0xFFFF800000110008, 0xFFFF800000110008 + 8}" by auto
    ultimately show ?thesis unfolding own_cells_def m by (auto simp: PHYS_TO_VIRT_def)
  qed
  then have "tables_inv 0xFFFF800000110008 {sample_pool} sample_avail (pool_mem 2 1) 0x101000"
    unfolding tables_inv_def
  proof (intro conjI allI impI, goal_cases)
    case (1 "is" X)
    then have "X = 0x101000" using sample_walk by blast
    then show ?case
      using \<open>\<And>i. i < 512 \<Longrightarrow> \<not> own_cells _ _ _ _\<close> by (simp add: table_ok_def MASK_4KIB_def)
  next
    case (2 "is" js X)
    then show ?case using sample_walk [of "is" X] sample_walk [of js X] by simp
  next
    case (3 "is" i)
    then show ?case using sample_entry by simp
  qed
  then show ?thesis using sample_pages by (simp add: pt_inv_def mem)
qed

lemma sample_unmapped: "translate (pmem one_page_out) 0x101000 v = None"
  "\<not> present (entry_at (pmem one_page_out) 0x101000 (pd_path v) (PDT_INDEX v))"
  using sample_entry [OF paths(3) index_less(3), of v] by (simp_all add: translate_def one_page_out_def)

theorem virt_map_phys_maps_page_witness:
  "\<exists>st' A'. virt_map_phys one_page_out 0x101000 0x8048123 0xB8000 PG_FLAG_RW PAGE_SMALL = Inr (1, st') \<and>
    A' \<subseteq> sample_avail \<and> pt_inv 0xFFFF800000110008 {sample_pool} A' st' 0x101000 \<and>
    (\<forall>w. translate (pmem st') 0x101000 w = (if same_page 0x8048123 w then Some (MASK_4KIB 0xB8000 + (w AND 0xFFF))
      else translate (pmem one_page_out) 0x101000 w))"
  by (rule virt_map_phys_maps_page [OF sample_pt_inv sample_pages(3) sample_unmapped(1)]) simp

text \<open>C13. The look-up inverts the mapping of a 4 KiB page: after mapping, \<open>virt_lookup_phys\<close> of
  every address of the page returns 1 and stores the physical page plus the offset.\<close>

theorem virt_lookup_inverts_map:
  assumes "pt_inv s B A st T" and "3 \<le> card A" and "translate (pmem st) T v = None" and "pa < 2 ^ 63"
  shows "\<exists>st'. virt_map_phys st T v pa flags PAGE_SMALL = Inr (1, st') \<and>
    (\<forall>w. same_page v w \<longrightarrow> virt_lookup_phys (pmem st') T w = Some (MASK_4KIB pa + (w AND 0xFFF)))"
proof -
  from map_small_page [OF assms, of flags] obtain st' A' where
    st': "virt_map_phys st T v pa flags PAGE_SMALL = Inr (1, st')" "pt_inv s B A' st' T"
      "\<forall>w. translate (pmem st') T w =
        (if same_page v w then Some (MASK_4KIB pa + (w AND 0xFFF)) else translate (pmem st) T w)"
      "\<not> large (entry_at (pmem st') T (pd_path v) (PDT_INDEX v))" by blast
  have "virt_lookup_phys (pmem st') T w = Some (MASK_4KIB pa + (w AND 0xFFF))" if "same_page v w" for w
  proof (rule lookup_small)
    show "tables_inv s B A' (pmem st') T" using st'(2) by (simp add: pt_inv_def)
    show "\<not> large (entry_at (pmem st') T (pd_path w) (PDT_INDEX w))"
      using st'(4) that by (simp add: same_page_def same_large_page_def)
    show "translate (pmem st') T w = Some (MASK_4KIB pa + (w AND 0xFFF))" using st'(3) that by simp
  qed
  with st'(1) show ?thesis by blast
qed

theorem virt_lookup_inverts_map_witness:
  "\<exists>st'. virt_map_phys one_page_out 0x101000 0x8048123 0xB8000 PG_FLAG_RW PAGE_SMALL = Inr (1, st') \<and>
    (\<forall>w. same_page 0x8048123 w \<longrightarrow> virt_lookup_phys (pmem st') 0x101000 w = Some (MASK_4KIB 0xB8000 + (w AND 0xFFF)))"
  by (rule virt_lookup_inverts_map [OF sample_pt_inv sample_pages(3) sample_unmapped(1)]) simp

text \<open>Mapping a 2 MiB page over an absent page-directory entry translates exactly the 2 MiB
  around the address, to the physical block plus the 21-bit offset.\<close>

lemma virt_map_phys_maps_large_page:
  assumes "pt_inv s B A st T" and "3 \<le> card A" and "pa < 2 ^ 63"
    and "\<not> present (entry_at (pmem st) T (pd_path v) (PDT_INDEX v))"
  shows "\<exists>st' A'. virt_map_phys st T v pa flags PAGE_LARGE = Inr (1, st') \<and> A' \<subseteq> A \<and> pt_inv s B A' st' T \<and>
    (\<forall>w. translate (pmem st') T w =
      (if same_large_page v w then Some (MASK_2MIB pa + (w AND 0x1FFFFF)) else translate (pmem st) T w))"
  using map_large_page [OF assms] by blast

lemma virt_map_phys_maps_large_page_witness:
  "\<exists>st' A'. virt_map_phys one_page_out 0x101000 0x600000 0xA00000 PG_FLAG_RW PAGE_LARGE = Inr (1, st') \<and>
    A' \<subseteq> sample_avail \<and> pt_inv 0xFFFF800000110008 {sample_pool} A' st' 0x101000 \<and>
    (\<forall>w. translate (pmem st') 0x101000 w = (if same_large_page 0x600000 w then Some (MASK_2MIB 0xA00000 + (w AND 0x1FFFFF))
      else translate (pmem one_page_out) 0x101000 w))"
  by (rule virt_map_phys_maps_large_page [OF sample_pt_inv sample_pages(3) _ sample_unmapped(2)]) simp

text \<open>The look-up of an address in a 2 MiB page adds the offset of a 4 KiB page only: it is
  wrong by bits 12 to 20 of the address, so it is right just for the first 4 KiB.\<close>

lemma virt_lookup_phys_truncates_large_offset:
  assumes "tables_inv s B A m T" and "present e" and "large e"
    and "e = entry_at m T (pd_path v) (PDT_INDEX v)"
  shows "translate m T v = Some (ENTRY_TO_ADDR e + (v AND 0x1FFFFF)) \<and>
    virt_lookup_phys m T v = Some (ENTRY_TO_ADDR e + (v AND 0xFFF)) \<and>
    (virt_lookup_phys m T v = translate m T v \<longleftrightarrow> v AND 0x1FF000 = 0)"
proof -
  have lk: "virt_lookup_phys m T v = Some (ENTRY_TO_ADDR e + (v AND 0xFFF))"
    using assms(2-4) by (simp add: lookup_eq [OF assms(1)] Let_def)
  have tr: "translate m T v = Some (ENTRY_TO_ADDR e + (v AND 0x1FFFFF))"
    using assms(2-4) by (simp add: translate_def Let_def)
  have mid: "0x1FF000 = (mask 21 AND NOT (mask 12) :: u64)" by (simp add: mask_eq_exp_minus_1)
  have "v AND 0x1FFFFF = (v AND 0x1FF000) OR (v AND 0xFFF)"
    unfolding mid low_21 low_12 by (rule bit_word_eqI) (auto simp: bit_simps)
  also have "\<dots> = (v AND 0x1FF000) + (v AND 0xFFF)"
    unfolding mid low_12 by (rule disjunctive_add [symmetric]) (auto simp: bit_simps)
  finally show ?thesis using lk tr by simp
qed

lemma virt_lookup_phys_truncates_large_offset_witness:
  "\<exists>st'. virt_map_phys one_page_out 0x101000 0x605000 0xA00000 PG_FLAG_RW PAGE_LARGE = Inr (1, st') \<and>
    virt_lookup_phys (pmem st') 0x101000 0x605000 \<noteq> translate (pmem st') 0x101000 0x605000"
proof -
  have "(0xA00000 :: u64) < 2 ^ 63" by simp
  from map_large_page [OF sample_pt_inv sample_pages(3) this sample_unmapped(2), of "0x605000" PG_FLAG_RW]
  obtain st' A' where st': "virt_map_phys one_page_out 0x101000 0x605000 0xA00000 PG_FLAG_RW PAGE_LARGE = Inr (1, st')"
    "pt_inv 0xFFFF800000110008 {sample_pool} A' st' 0x101000"
    "present (entry_at (pmem st') 0x101000 (pd_path 0x605000) (PDT_INDEX 0x605000))"
    "large (entry_at (pmem st') 0x101000 (pd_path 0x605000) (PDT_INDEX 0x605000))" by blast
  have "tables_inv 0xFFFF800000110008 {sample_pool} A' (pmem st') 0x101000" using st'(2) by (simp add: pt_inv_def)
  from virt_lookup_phys_truncates_large_offset [OF this st'(3,4) refl] st'(1) show ?thesis by auto
qed

text \<open>Where a page table exists but the page itself is not mapped, the look-up does not
  return 0, as its contract says, but 1 with the physical address 0.\<close>

lemma virt_lookup_phys_reports_unmapped_page:
  assumes "tables_inv s B A m T" and "is_table (entry_at m T (pd_path v) (PDT_INDEX v))"
    and "translate m T v = None"
  shows "virt_lookup_phys m T v = Some 0"
  using assms(2,3) by (auto simp: lookup_eq [OF assms(1)] translate_def Let_def split: if_splits)

lemma virt_lookup_phys_reports_unmapped_page_witness:
  "\<exists>st'. virt_map_phys one_page_out 0x101000 0x8048000 0xB8000 PG_FLAG_RW PAGE_SMALL = Inr (1, st') \<and>
    translate (pmem st') 0x101000 0x8049000 = None \<and> virt_lookup_phys (pmem st') 0x101000 0x8049000 = Some 0"
proof -
  have "(0xB8000 :: u64) < 2 ^ 63" by simp
  from map_small_page [OF sample_pt_inv sample_pages(3) sample_unmapped(1) this, of "0x8048000" PG_FLAG_RW]
  obtain st' A' where st': "virt_map_phys one_page_out 0x101000 0x8048000 0xB8000 PG_FLAG_RW PAGE_SMALL = Inr (1, st')"
    "pt_inv 0xFFFF800000110008 {sample_pool} A' st' 0x101000"
    "\<forall>w. translate (pmem st') 0x101000 w =
      (if same_page 0x8048000 w then Some (MASK_4KIB 0xB8000 + (w AND 0xFFF)) else translate (pmem one_page_out) 0x101000 w)"
    "\<not> large (entry_at (pmem st') 0x101000 (pd_path 0x8048000) (PDT_INDEX 0x8048000))" by blast
  have idx: "PML4_INDEX 0x8049000 = PML4_INDEX 0x8048000" "PDPT_INDEX 0x8049000 = PDPT_INDEX 0x8048000"
    "PDT_INDEX 0x8049000 = PDT_INDEX 0x8048000" "PT_INDEX 0x8049000 \<noteq> PT_INDEX 0x8048000"
    by (simp_all add: PML4_INDEX_def PDPT_INDEX_def PDT_INDEX_def PT_INDEX_def drop_bit_eq_div)
  have un: "translate (pmem st') 0x101000 0x8049000 = None"
    using st'(3) idx(4) sample_unmapped(1) by (simp add: same_page_def)
  have "translate (pmem st') 0x101000 0x8048000 \<noteq> None" using st'(3) by (simp add: same_page_def same_large_page_def)
  then have "is_table (entry_at (pmem st') 0x101000 (pd_path 0x8049000) (PDT_INDEX 0x8049000))"
    using st'(4) unfolding idx by (auto simp: translate_def Let_def split: if_splits)
  moreover have "tables_inv 0xFFFF800000110008 {sample_pool} A' (pmem st') 0x101000"
    using st'(2) by (simp add: pt_inv_def)
  ultimately show ?thesis using virt_lookup_phys_reports_unmapped_page un st'(1) by blast
qed

text \<open>\<open>virt_map_phys_range\<close> returns 0 on every path that returns: whether all pages were
  mapped or an allocation failed, so success cannot be told from failure.\<close>

lemma virt_map_phys_range_always_returns_0:
  assumes "virt_map_phys_range st T v pa flags page_size n = Inr (r, st')"
  shows "r = 0"
proof -
  have "map_range_loop k st T v pa flags page_size inc = Inr (r, st') \<Longrightarrow> r = 0" for k st v pa inc
    by (induction k arbitrary: st v pa) (auto simp: and_then_eq_Inr split: if_splits)
  with assms show ?thesis by (auto simp: virt_map_phys_range_def Let_def kassert_eq_Inr)
qed

lemma virt_map_phys_range_always_returns_0_witness:
  "\<exists>r st'. virt_map_phys_range one_page_out 0x101000 0x8048000 0xB8000 PG_FLAG_RW PAGE_SMALL 1 = Inr (r, st') \<and> r = 0"
proof -
  have "(0xB8000 :: u64) < 2 ^ 63" by simp
  from map_small_page [OF sample_pt_inv sample_pages(3) sample_unmapped(1) this, of "0x8048000" PG_FLAG_RW]
  obtain st' where "virt_map_phys one_page_out 0x101000 0x8048000 0xB8000 PG_FLAG_RW PAGE_SMALL = Inr (1, st')" by blast
  then have eq: "virt_map_phys_range one_page_out 0x101000 0x8048000 0xB8000 PG_FLAG_RW PAGE_SMALL 1 = Inr (0, st')"
    by (simp add: virt_map_phys_range_def kassert_def)
  with virt_map_phys_range_always_returns_0 [OF eq] show ?thesis by blast
qed

end
