(* ===== verification/MemMap.thy ===== *)
theory MemMap
  imports Paging
begin

text \<open>
  \<open>arch/x86_64/virt_memory/physical.c\<close>: what the kernel makes of the BIOS memory map, and
  the direct map of physical memory at \<open>KERNEL_BASE\<close>.  The map is an array of entries at
  \<open>MMAP_ADDRESS\<close> with its length at \<open>MMAP_COUNT\<close>.  The early code reaches RAM through the
  identity mapping of the first GiB that \<open>prekernel.s\<close> leaves: an access to the low address
  \<open>a\<close> is one to the cell \<open>PHYS_TO_VIRT a\<close> of the same physical memory.  The addresses of the
  static tables \<open>kernel_PML4\<close> and \<open>kernel_PDPTE\<close> are arguments.
\<close>

section \<open>The memory map\<close>

abbreviation KERNEL_START :: u64 where "KERNEL_START \<equiv> 0x100000"
abbreviation KERNEL_END :: u64 where "KERNEL_END \<equiv> 0x400000"
abbreviation MMAP_MAX_ENTRIES :: nat where "MMAP_MAX_ENTRIES \<equiv> (0x7C00 - 0x2D04) div 24"
abbreviation TYPE_RESERVED :: u32 where "TYPE_RESERVED \<equiv> 2"

record ram_info =
  total_usable_ram :: u64
  highest_address :: u64

type_synonym mmap_array = "nat \<Rightarrow> mmap_entry"

text \<open>The four cases of an entry that may overlap the kernel; \<open>add\<close> is \<open>mmap_add_index\<close>.\<close>

definition fix_entry :: "nat \<Rightarrow> mmap_array \<times> nat \<Rightarrow> mmap_array \<times> nat" where
  "fix_entry i = (\<lambda>(arr, add).
     let base = mm_base (arr i);
         len = mm_length (arr i);
         max_addr = base + len
     in if base < KERNEL_START \<and> max_addr > KERNEL_START
        then (arr(i := arr i \<lparr> mm_length := KERNEL_START - base \<rparr>), add)
        else if base < KERNEL_END \<and> max_addr > KERNEL_END
        then (arr(i := arr i \<lparr> mm_base := KERNEL_END, mm_length := max_addr - KERNEL_END \<rparr>), add)
        else if base \<ge> KERNEL_START \<and> max_addr \<le> KERNEL_END
        then (arr(i := arr i \<lparr> mm_type := TYPE_RESERVED \<rparr>), add)
        else if base < KERNEL_START \<and> max_addr > KERNEL_END
        then
          if add < MMAP_MAX_ENTRIES
          then
            let arr = arr(i := arr i \<lparr> mm_length := KERNEL_START - base \<rparr>);
                arr = arr(add := arr add \<lparr> mm_base := KERNEL_END, mm_length := max_addr - KERNEL_END,
                    mm_type := TYPE_USABLE \<rparr>)
            in (arr, add + 1)
          else if KERNEL_START - base > max_addr - KERNEL_END
          then (arr(i := arr i \<lparr> mm_length := KERNEL_START - base \<rparr>), add)
          else (arr(i := arr i \<lparr> mm_base := KERNEL_END, mm_length := max_addr - KERNEL_END \<rparr>), add)
        else (arr, add))"

definition count_entry :: "mmap_entry \<Rightarrow> u64 \<times> u64 \<Rightarrow> u64 \<times> u64" where
  "count_entry e = (\<lambda>(tot, highest).
     let tot = tot + mm_length e;
         address = mm_base e + mm_length e
     in (tot, if address > highest then address else highest))"

definition ram_step :: "nat \<Rightarrow> (mmap_array \<times> nat) \<times> u64 \<times> u64 \<Rightarrow> (mmap_array \<times> nat) \<times> u64 \<times> u64" where
  "ram_step i = (\<lambda>((arr, add), counts).
     if mm_type (arr i) \<noteq> TYPE_USABLE then ((arr, add), counts)
     else case fix_entry i (arr, add) of (arr, add) \<Rightarrow>
       ((arr, add), if mm_type (arr i) = TYPE_USABLE then count_entry (arr i) counts else counts))"

text \<open>Returns the updated array, the updated \<open>MMAP_COUNT\<close> and the RAM found.\<close>

definition get_total_usable_ram :: "mmap_array \<Rightarrow> nat \<Rightarrow> mmap_array \<times> nat \<times> ram_info" where
  "get_total_usable_ram arr mmap_size =
     (case fold ram_step [0..<mmap_size] ((arr, mmap_size), 0, 0) of ((arr, add), counts) \<Rightarrow>
        case fold (\<lambda>i. count_entry (arr i)) [mmap_size..<add] counts of (tot, highest) \<Rightarrow>
          (arr, add, \<lparr> total_usable_ram = tot, highest_address = highest \<rparr>))"

section \<open>The direct map\<close>

record page_struct_info =
  psi_base :: u64
  psi_length :: u64
  num_pds :: u64
  num_pdpts :: u64
  space_needed :: u64

abbreviation one_GiB :: u64 where "one_GiB \<equiv> 0x40000000"

text \<open>The 512 entries of 2 MiB pages of one page directory, from \<open>phys_address\<close> on.\<close>

primrec fill_pd :: "nat list \<Rightarrow> addr \<Rightarrow> mem \<times> u64 \<Rightarrow> mem \<times> u64" where
  "fill_pd [] pd_table s = s"
| "fill_pd (j # js) pd_table s = (case s of (m, phys_address) \<Rightarrow>
     fill_pd js pd_table
       (m(PHYS_TO_VIRT pd_table + 8 * of_nat j := phys_address OR PDT_PAGE_SIZE OR WRITABLE OR PRESENT),
        phys_address + PAGE_LARGE_SIZE))"

text \<open>The loop over the entries of a PDP table: state are the memory, \<open>alloc_ptr\<close>,
  \<open>phys_address\<close> and \<open>pds_left\<close>.\<close>

primrec fill_pdpt :: "nat list \<Rightarrow> addr \<Rightarrow> mem \<times> addr \<times> u64 \<times> u64 \<Rightarrow> mem \<times> addr \<times> u64 \<times> u64" where
  "fill_pdpt [] pdp_table s = s"
| "fill_pdpt (i # is) pdp_table s = (case s of (m, alloc_ptr, phys_address, pds_left) \<Rightarrow>
     if pds_left = 0 then s
     else
       let pd_table = alloc_ptr;
           m = clear_cells m (PHYS_TO_VIRT pd_table) 0x1000;
           m = m(PHYS_TO_VIRT pdp_table + 8 * of_nat i := pd_table OR WRITABLE OR PRESENT)
       in case fill_pd [0..<512] pd_table (m, phys_address) of (m, phys_address) \<Rightarrow>
         fill_pdpt is pdp_table (m, alloc_ptr + 0x1000, phys_address, pds_left - 1))"

primrec fill_pml4 :: "nat list \<Rightarrow> addr \<Rightarrow> u64 \<Rightarrow> mem \<times> addr \<times> u64 \<times> u64 \<Rightarrow> mem \<times> addr \<times> u64 \<times> u64" where
  "fill_pml4 [] pml4_table pdpts_left s = s"
| "fill_pml4 (k # ks) pml4_table pdpts_left s = (case s of (m, alloc_ptr, phys_address, pds_left) \<Rightarrow>
     if pdpts_left = 0 \<or> pds_left = 0 then s
     else
       let pdp_table = alloc_ptr;
           m = clear_cells m (PHYS_TO_VIRT pdp_table) 0x1000;
           m = m(PHYS_TO_VIRT pml4_table + 8 * of_nat k := pdp_table OR WRITABLE OR PRESENT)
       in fill_pml4 ks pml4_table (pdpts_left - 1)
            (fill_pdpt [0..<512] pdp_table (m, alloc_ptr + 0x1000, phys_address, pds_left)))"

definition create_paging_structures :: "addr \<Rightarrow> addr \<Rightarrow> mem \<Rightarrow> page_struct_info \<Rightarrow> mem" where
  "create_paging_structures kernel_PML4 kernel_PDPTE m psi =
     fst (fill_pml4 [1..<512] kernel_PML4 (num_pdpts psi)
       (fill_pdpt [1..<512] kernel_PDPTE (m, psi_base psi, one_GiB, num_pds psi)))"

section \<open>Initialisation\<close>

definition page_tables_for :: "u64 \<Rightarrow> u64 \<times> u64" where
  "page_tables_for highest =
     (let num_pds = (highest + 0x20000000) div one_GiB;
          num_pds = (if num_pds \<ge> 1 then num_pds - 1 else num_pds);
          num_pdpts = (num_pds + 1) div 512;
          num_pdpts = (if num_pdpts \<ge> 1 then num_pdpts - 1 else num_pdpts)
      in (num_pds, num_pdpts))"

text \<open>The search for a region for the tables: the index of the entry taken, its aligned base
  and its remaining length.\<close>

primrec find_region :: "nat list \<Rightarrow> mmap_array \<Rightarrow> u64 \<Rightarrow> (nat \<times> u64 \<times> u64) option" where
  "find_region [] arr needed = None"
| "find_region (i # is) arr needed =
     (if mm_type (arr i) \<noteq> TYPE_USABLE then find_region is arr needed
      else
        let base_before = mm_base (arr i);
            length_before = mm_length (arr i)
        in if length_before < size_4KiB then find_region is arr needed
           else
             let base = ALIGN_4KIB base_before;
                 len = length_before - (base - base_before)
             in if base \<ge> one_GiB then None
                else if base \<ge> KERNEL_END \<and> len \<ge> needed then Some (i, base, len)
                else find_region is arr needed)"

definition phys_memory_init :: "addr \<Rightarrow> addr \<Rightarrow> phys \<Rightarrow> mmap_array \<Rightarrow> nat \<Rightarrow> (phys \<times> mmap_array \<times> nat) res" where
  "phys_memory_init kernel_PML4 kernel_PDPTE st arr mmap_size =
     (case get_total_usable_ram arr mmap_size of (arr, mmap_size, info) \<Rightarrow>
      case page_tables_for (highest_address info) of (pds, pdpts) \<Rightarrow>
        let needed = 0x1000 * pds + 0x1000 * pdpts
        in case find_region [0..<mmap_size] arr needed of
             None \<Rightarrow> Inl (Panic (''Could not allocate paging structures'' @ newline))
           | Some (i, base, len) \<Rightarrow>
               let arr = arr(i := arr i \<lparr> mm_base := base + needed, mm_length := len - needed \<rparr>);
                   psi = \<lparr> psi_base = base, psi_length = len, num_pds = pds, num_pdpts = pdpts,
                     space_needed = needed \<rparr>;
                   m = create_paging_structures kernel_PML4 kernel_PDPTE (pmem st) psi;
                   st = setup_physical_allocator (st \<lparr> pmem := m \<rparr>) (map arr [0..<mmap_size]);
                   m = fold (\<lambda>i m. m(PHYS_TO_VIRT kernel_PML4 + 8 * of_nat i := 0)) [0..<256] (pmem st)
               in Inr (st \<lparr> pmem := m \<rparr>, arr, mmap_size))"

text \<open>\<open>virt_memory_init\<close> of \<open>paging.c\<close>, whose text-mode calls are modelled apart: the memory
  map is digested and the VGA text buffer mapped for user processes.\<close>

definition virt_memory_init :: "addr \<Rightarrow> addr \<Rightarrow> phys \<Rightarrow> mmap_array \<Rightarrow> nat \<Rightarrow> phys res" where
  "virt_memory_init kernel_PML4 kernel_PDPTE st arr mmap_size =
     (let kernel_table = kernel_PML4
      in and_then (phys_memory_init kernel_PML4 kernel_PDPTE st arr mmap_size) (\<lambda>(st, _).
         and_then (virt_map_phys st kernel_table 0xFFFFFFFFFFBFF000 0xB8000
             (PG_FLAG_RW OR PG_FLAG_USER OR PG_FLAG_PWT OR PG_FLAG_PCD) PAGE_SMALL) (\<lambda>(_, st). Inr st)))"

section \<open>What becomes of an entry\<close>

text \<open>An entry after \<open>get_total_usable_ram\<close>: the second region of case 4 never appears,
  because the condition of case 1 covers it.\<close>

definition clip :: "mmap_entry \<Rightarrow> mmap_entry" where
  "clip e =
     (let max_addr = mm_base e + mm_length e
      in if mm_type e \<noteq> TYPE_USABLE then e
         else if mm_base e < KERNEL_START \<and> max_addr > KERNEL_START
         then e \<lparr> mm_length := KERNEL_START - mm_base e \<rparr>
         else if mm_base e < KERNEL_END \<and> max_addr > KERNEL_END
         then e \<lparr> mm_base := KERNEL_END, mm_length := max_addr - KERNEL_END \<rparr>
         else if mm_base e \<ge> KERNEL_START \<and> max_addr \<le> KERNEL_END then e \<lparr> mm_type := TYPE_RESERVED \<rparr>
         else e)"

lemma fix_entry_clip:
  assumes "mm_type (arr i) = TYPE_USABLE"
  shows "fix_entry i (arr, add) = (arr(i := clip (arr i)), add)"
proof -
  have "KERNEL_START < x" if "KERNEL_END < x" for x :: u64
    using that by (simp add: word_less_nat_alt)
  then show ?thesis using assms by (auto simp: fix_entry_def clip_def Let_def)
qed

lemma ram_step_clip:
  "ram_step i ((arr, add), counts) = ((arr(i := clip (arr i)), add),
     if mm_type (clip (arr i)) = TYPE_USABLE then count_entry (clip (arr i)) counts else counts)"
proof (cases "mm_type (arr i) = TYPE_USABLE")
  case True
  then show ?thesis by (simp add: ram_step_def fix_entry_clip)
next
  case False
  then have "clip (arr i) = arr i" by (simp add: clip_def)
  with False show ?thesis by (simp add: ram_step_def)
qed

abbreviation count_usable :: "mmap_entry \<Rightarrow> u64 \<times> u64 \<Rightarrow> u64 \<times> u64" where
  "count_usable e c \<equiv> if mm_type e = TYPE_USABLE then count_entry e c else c"

lemma fold_ram_step:
  assumes "distinct is"
  shows "fold ram_step is ((arr, add), counts) =
    ((\<lambda>i. if i \<in> set is then clip (arr i) else arr i, add), fold (\<lambda>i. count_usable (clip (arr i))) is counts)"
  using assms
proof (induction "is" arbitrary: arr counts)
  case Nil
  then show ?case by simp
next
  case (Cons i "is")
  have eq: "fold (\<lambda>j. count_usable (clip ((arr(i := clip (arr i))) j))) is c = fold (\<lambda>j. count_usable (clip (arr j))) is c" for c
    using Cons.prems by (intro fold_cong) auto
  have fe: "(\<lambda>j. if j \<in> set is then clip ((arr(i := clip (arr i))) j) else (arr(i := clip (arr i))) j) =
      (\<lambda>j. if j \<in> set (i # is) then clip (arr j) else arr j)"
    using Cons.prems by (auto simp: fun_eq_iff)
  have "fold ram_step (i # is) ((arr, add), counts) =
      fold ram_step is ((arr(i := clip (arr i)), add), count_usable (clip (arr i)) counts)"
    by (simp add: ram_step_clip)
  also have "\<dots> = ((\<lambda>j. if j \<in> set (i # is) then clip (arr j) else arr j, add),
      fold (\<lambda>j. count_usable (clip (arr j))) is (count_usable (clip (arr i)) counts))"
    using Cons.IH [of "arr(i := clip (arr i))" "count_usable (clip (arr i)) counts"] Cons.prems
    by (simp only: fe eq distinct.simps)
  finally show ?case by simp
qed

lemma get_total_usable_ram_eq:
  "get_total_usable_ram arr n =
     (let arr' = (\<lambda>i. if i < n then clip (arr i) else arr i);
          (tot, highest) = fold (\<lambda>i. count_usable (clip (arr i))) [0..<n] (0, 0)
      in (arr', n, \<lparr> total_usable_ram = tot, highest_address = highest \<rparr>))"
  unfolding get_total_usable_ram_def fold_ram_step [OF distinct_upt] by (simp add: Let_def split: prod.splits)

text \<open>An entry that does not wrap around keeps the part of it that is clear of the kernel, except
  that a region around the whole kernel loses everything above it.\<close>

definition clear_of_kernel :: "mmap_entry \<Rightarrow> bool" where
  "clear_of_kernel e \<longleftrightarrow> unat (mm_base e) + unat (mm_length e) \<le> 0x100000 \<or> 0x400000 \<le> unat (mm_base e)"

definition inside_entry :: "mmap_entry \<Rightarrow> mmap_entry \<Rightarrow> bool" where
  "inside_entry e f \<longleftrightarrow> unat (mm_base f) \<le> unat (mm_base e) \<and>
     unat (mm_base e) + unat (mm_length e) \<le> unat (mm_base f) + unat (mm_length f)"

lemma clip_spec:
  assumes fit: "unat (mm_base e) + unat (mm_length e) < 2 ^ 64" and use: "mm_type (clip e) = TYPE_USABLE"
  shows "mm_type e = TYPE_USABLE" and "clear_of_kernel (clip e)" and "inside_entry (clip e) e"
proof -
  let ?b = "unat (mm_base e)" and ?l = "unat (mm_length e)"
  have max: "unat (mm_base e + mm_length e) = ?b + ?l" using fit by (simp add: unat_word_ariths)
  show t: "mm_type e = TYPE_USABLE" using use by (auto simp: clip_def Let_def split: if_splits)
  have 1: "unat (KERNEL_START - mm_base e) = 0x100000 - ?b" if "mm_base e < KERNEL_START"
    using that by (simp add: unat_sub word_less_nat_alt word_le_nat_alt)
  have 2: "unat (mm_base e + mm_length e - KERNEL_END) = ?b + ?l - 0x400000" if "mm_base e + mm_length e > KERNEL_END"
    using that max by (simp add: unat_sub word_less_nat_alt word_le_nat_alt)
  show "clear_of_kernel (clip e)" "inside_entry (clip e) e"
    using t use max 1 2
    by (auto simp: clip_def clear_of_kernel_def inside_entry_def Let_def word_less_nat_alt word_le_nat_alt
        split: if_splits)
qed

section \<open>What the loops fill in\<close>

lemma table_cell:
  assumes "MASK_4KIB X = X" and "j < 512"
  shows "MASK_4KIB (PHYS_TO_VIRT X + 8 * of_nat j) = PHYS_TO_VIRT X"
  using assms by (intro entry_cell(1)) (simp_all add: word_less_nat_alt unat_of_nat_u64)

lemma table_cell_inject:
  assumes "i < 512" "j < 512"
  shows "PHYS_TO_VIRT X + 8 * of_nat i = PHYS_TO_VIRT X + 8 * of_nat j \<longleftrightarrow> i = j"
proof -
  have "unat (8 * of_nat i :: u64) = 8 * i" "unat (8 * of_nat j :: u64) = 8 * j"
    using assms by (simp_all add: unat_word_ariths unat_of_nat_u64)
  then show ?thesis by (metis add_left_cancel mult_cancel_left zero_neq_numeral)
qed

lemma fill_pd_all:
  assumes "MASK_4KIB X = X" and "k + n = 512"
  shows "snd (fill_pd [k..<512] X (m, ph)) = ph + of_nat (n * 2 ^ 21) \<and>
    (\<forall>a. MASK_4KIB a \<noteq> PHYS_TO_VIRT X \<longrightarrow> fst (fill_pd [k..<512] X (m, ph)) a = m a) \<and>
    (\<forall>j<k. fst (fill_pd [k..<512] X (m, ph)) (PHYS_TO_VIRT X + 8 * of_nat j) = m (PHYS_TO_VIRT X + 8 * of_nat j)) \<and>
    (\<forall>j<512. k \<le> j \<longrightarrow> fst (fill_pd [k..<512] X (m, ph)) (PHYS_TO_VIRT X + 8 * of_nat j) =
      (ph + of_nat ((j - k) * 2 ^ 21)) OR PDT_PAGE_SIZE OR WRITABLE OR PRESENT)"
  using assms(2)
proof (induction n arbitrary: k m ph)
  case 0
  then show ?case by simp
next
  case (Suc n)
  let ?c = "PHYS_TO_VIRT X + 8 * of_nat k"
  let ?m = "m(?c := ph OR PDT_PAGE_SIZE OR WRITABLE OR PRESENT)"
  have k: "k < 512" "Suc k + n = 512" using Suc.prems by simp_all
  have step: "fill_pd [k..<512] X (m, ph) = fill_pd [Suc k..<512] X (?m, ph + PAGE_LARGE_SIZE)"
    using k by (simp add: upt_conv_Cons del: upt_Suc)
  define R where "R = fill_pd [Suc k..<512] X (?m, ph + PAGE_LARGE_SIZE)"
  from Suc.IH [OF k(2), of ?m "ph + PAGE_LARGE_SIZE"] have
    IH: "snd R = ph + PAGE_LARGE_SIZE + of_nat (n * 2 ^ 21)"
    "\<And>a. MASK_4KIB a \<noteq> PHYS_TO_VIRT X \<Longrightarrow> fst R a = ?m a"
    "\<And>j. j < Suc k \<Longrightarrow> fst R (PHYS_TO_VIRT X + 8 * of_nat j) = ?m (PHYS_TO_VIRT X + 8 * of_nat j)"
    "\<And>j. j < 512 \<Longrightarrow> Suc k \<le> j \<Longrightarrow> fst R (PHYS_TO_VIRT X + 8 * of_nat j) =
      (ph + PAGE_LARGE_SIZE + of_nat ((j - Suc k) * 2 ^ 21)) OR PDT_PAGE_SIZE OR WRITABLE OR PRESENT"
    unfolding R_def by blast+
  have add: "ph + PAGE_LARGE_SIZE + of_nat (d * 2 ^ 21) = ph + of_nat (Suc d * 2 ^ 21)" for d by simp
  show ?case
    unfolding step R_def [symmetric]
  proof (intro conjI allI impI)
    show "snd R = ph + of_nat (Suc n * 2 ^ 21)" using IH(1) by (simp only: add)
    show "fst R a = m a" if "MASK_4KIB a \<noteq> PHYS_TO_VIRT X" for a
      using IH(2) [OF that] that table_cell [OF assms(1) k(1)] by auto
    show "fst R (PHYS_TO_VIRT X + 8 * of_nat j) = m (PHYS_TO_VIRT X + 8 * of_nat j)" if "j < k" for j
      using IH(3) [of j] that table_cell_inject [of j k X] k(1) by simp
    show "fst R (PHYS_TO_VIRT X + 8 * of_nat j) =
        (ph + of_nat ((j - k) * 2 ^ 21)) OR PDT_PAGE_SIZE OR WRITABLE OR PRESENT" if j: "j < 512" "k \<le> j" for j
    proof (cases "j = k")
      case True
      then show ?thesis using IH(3) [of k] by simp
    next
      case False
      then have "Suc k \<le> j" and "j - k = Suc (j - Suc k)" using j(2) by simp_all
      then show ?thesis using IH(4) [OF j(1)] by (simp only: add)
    qed
  qed
qed

lemmas fill_pd_spec =
  fill_pd_all [where k = 0 and n = 512, simplified, THEN conjunct1]
  fill_pd_all [where k = 0 and n = 512, simplified, THEN conjunct2, THEN conjunct1, rule_format]
  fill_pd_all [where k = 0 and n = 512, simplified, THEN conjunct2, THEN conjunct2, rule_format]

definition nth_page :: "addr \<Rightarrow> nat \<Rightarrow> addr" where
  "nth_page p i = p + of_nat (i * 4096)"

lemma nth_page_0 [simp]: "nth_page p 0 = p"
  and nth_page_Suc: "nth_page (p + 0x1000) i = nth_page p (Suc i)"
  by (simp_all add: nth_page_def add.assoc)

lemma nth_page_props:
  assumes "MASK_4KIB p = p" and "unat p + n * 4096 < 2 ^ 64" and "i \<le> n"
  shows "unat (nth_page p i) = unat p + i * 4096" and "MASK_4KIB (nth_page p i) = nth_page p i"
proof -
  show u: "unat (nth_page p i) = unat p + i * 4096"
    unfolding nth_page_def using assms(2,3) by (intro unat_add_off) (meson add_left_mono le_less_trans mult_le_mono1)
  have "(2::nat) ^ 12 dvd unat p" using assms(1) by (simp add: MASK_4KIB_id_iff dvd_eq_mod_eq_0)
  then have "(2::nat) ^ 12 dvd unat p + i * 4096" by (rule dvd_add) (simp add: dvd_def)
  then show "MASK_4KIB (nth_page p i) = nth_page p i" by (simp add: MASK_4KIB_id_iff u dvd_eq_mod_eq_0)
qed

lemma nth_page_inject:
  assumes "MASK_4KIB p = p" and "unat p + n * 4096 < 2 ^ 64" and "i \<le> n" "j \<le> n"
  shows "nth_page p i = nth_page p j \<longleftrightarrow> i = j"
proof
  assume "nth_page p i = nth_page p j"
  then have "unat (nth_page p i) = unat (nth_page p j)" by simp
  then show "i = j"
    by (simp add: nth_page_props(1) [OF assms(1,2,3)] nth_page_props(1) [OF assms(1,2,4)])
qed simp

text \<open>\<open>gib_mapped m pdp i X ph\<close>: entry \<open>i\<close> of the PDP table leads to the page directory \<open>X\<close>,
  which maps the GiB from \<open>ph\<close> on.\<close>

definition gib_mapped :: "mem \<Rightarrow> addr \<Rightarrow> nat \<Rightarrow> addr \<Rightarrow> u64 \<Rightarrow> bool" where
  "gib_mapped m pdp i X ph \<longleftrightarrow> m (PHYS_TO_VIRT pdp + 8 * of_nat i) = X OR WRITABLE OR PRESENT \<and>
     (\<forall>j<512. m (PHYS_TO_VIRT X + 8 * of_nat j) = (ph + of_nat (j * 2 ^ 21)) OR PDT_PAGE_SIZE OR WRITABLE OR PRESENT)"

lemma fill_gib:
  assumes pdp: "MASK_4KIB pdp = pdp" and X: "MASK_4KIB X = X" "X \<noteq> pdp" and k: "k < 512"
  shows "\<exists>m'. fill_pdpt (k # ks) pdp (m, X, ph, left) =
      (if left = 0 then (m, X, ph, left) else fill_pdpt ks pdp (m', X + 0x1000, ph + of_nat (512 * 2 ^ 21), left - 1)) \<and>
    gib_mapped m' pdp k X ph \<and>
    (\<forall>a. MASK_4KIB a \<noteq> PHYS_TO_VIRT X \<longrightarrow> a \<noteq> PHYS_TO_VIRT pdp + 8 * of_nat k \<longrightarrow> m' a = m a)"
proof -
  define m1 where "m1 = (clear_cells m (PHYS_TO_VIRT X) 0x1000)(PHYS_TO_VIRT pdp + 8 * of_nat k := X OR WRITABLE OR PRESENT)"
  define m' where "m' = fst (fill_pd [0..<512] X (m1, ph))"
  have "fill_pd [0..<512] X (m1, ph) = (m', ph + of_nat (512 * 2 ^ 21))"
    using fill_pd_spec(1) [OF X(1), of m1 ph] by (simp add: m'_def prod_eq_iff del: upt_Suc)
  then have eq: "fill_pdpt (k # ks) pdp (m, X, ph, left) =
      (if left = 0 then (m, X, ph, left) else fill_pdpt ks pdp (m', X + 0x1000, ph + of_nat (512 * 2 ^ 21), left - 1))"
    by (simp add: Let_def m1_def del: upt_Suc)
  have cell: "MASK_4KIB (PHYS_TO_VIRT pdp + 8 * of_nat k) \<noteq> PHYS_TO_VIRT X"
    using table_cell [OF pdp k] X(2) by simp
  have "gib_mapped m' pdp k X ph"
    unfolding gib_mapped_def m'_def
    using fill_pd_spec(2) [OF X(1) cell] fill_pd_spec(3) [OF X(1)] by (simp add: m1_def del: upt_Suc)
  moreover have "m' a = m a" if "MASK_4KIB a \<noteq> PHYS_TO_VIRT X" "a \<noteq> PHYS_TO_VIRT pdp + 8 * of_nat k" for a
  proof -
    have "\<not> in_region a (PHYS_TO_VIRT X) 0x1000"
      using in_page_iff [of "PHYS_TO_VIRT X" a] that(1) X(1) by (simp add: MASK_4KIB_virt)
    then show ?thesis
      unfolding m'_def using fill_pd_spec(2) [OF X(1) that(1)] that(2) by (simp add: m1_def clear_cells_def)
  qed
  ultimately show ?thesis using eq by blast
qed

lemma gib_mapped_cong:
  assumes "gib_mapped m pdp i X ph" and "i < 512"
    and "m' (PHYS_TO_VIRT pdp + 8 * of_nat i) = m (PHYS_TO_VIRT pdp + 8 * of_nat i)"
    and "\<And>a. MASK_4KIB a = PHYS_TO_VIRT X \<Longrightarrow> m' a = m a" and "MASK_4KIB X = X"
  shows "gib_mapped m' pdp i X ph"
  using assms table_cell [OF assms(5)] by (simp add: gib_mapped_def)

lemma fill_pdpt_spec:
  assumes pdp: "MASK_4KIB pdp = pdp" and "MASK_4KIB X = X" and "unat X + N * 4096 < 2 ^ 64"
    and "\<forall>i<N. nth_page X i \<noteq> pdp" and "k + N \<le> 512" and "unat left = N"
  shows "\<exists>m'. fst (fill_pdpt [k..<512] pdp (m, X, ph, left)) = m' \<and>
    (\<forall>i<N. gib_mapped m' pdp (k + i) (nth_page X i) (ph + of_nat (i * 2 ^ 30))) \<and>
    (\<forall>a. (\<forall>i<N. MASK_4KIB a \<noteq> PHYS_TO_VIRT (nth_page X i)) \<longrightarrow>
      (\<forall>i<N. a \<noteq> PHYS_TO_VIRT pdp + 8 * of_nat (k + i)) \<longrightarrow> m' a = m a)"
  using assms(2-6)
proof (induction N arbitrary: k m X ph left)
  case 0
  then have "left = 0" by (simp add: unat_eq_zero)
  then have "fill_pdpt [k..<512] pdp (m, X, ph, left) = (m, X, ph, left)"
    by (cases "[k..<512]") simp_all
  then show ?case by simp
next
  case (Suc N)
  have k: "k < 512" and ne0: "left \<noteq> 0" using Suc.prems by auto
  then have ne: "left \<noteq> 0" "unat (left - 1) = N" using Suc.prems(5) by (simp_all add: unat_minus_one)
  have Xp: "X \<noteq> pdp" using Suc.prems(3) by (metis nth_page_0 zero_less_Suc)
  have upt: "[k..<512] = k # [Suc k..<512]" using k by (rule upt_conv_Cons)
  from fill_gib [OF pdp Suc.prems(1) Xp k, of "[Suc k..<512]" m ph left] obtain m1 where
    m1: "fill_pdpt [k..<512] pdp (m, X, ph, left) =
        fill_pdpt [Suc k..<512] pdp (m1, X + 0x1000, ph + of_nat (512 * 2 ^ 21), left - 1)"
      "gib_mapped m1 pdp k X ph"
      "\<And>a. MASK_4KIB a \<noteq> PHYS_TO_VIRT X \<Longrightarrow> a \<noteq> PHYS_TO_VIRT pdp + 8 * of_nat k \<Longrightarrow> m1 a = m a"
    unfolding upt if_not_P [OF ne(1)] by blast
  have X1: "X + 0x1000 = nth_page X 1" by (simp add: nth_page_def)
  have al: "MASK_4KIB (X + 0x1000) = X + 0x1000" "unat (X + 0x1000) = unat X + 4096"
    using nth_page_props [OF Suc.prems(1,2), of 1] unfolding X1 by simp_all
  have "unat (X + 0x1000) + N * 4096 < 2 ^ 64" using Suc.prems(2) al(2) by simp
  moreover have "\<forall>i<N. nth_page (X + 0x1000) i \<noteq> pdp" using Suc.prems(3) by (simp add: nth_page_Suc)
  ultimately obtain m' where
    m': "fst (fill_pdpt [Suc k..<512] pdp (m1, X + 0x1000, ph + of_nat (512 * 2 ^ 21), left - 1)) = m'"
      "\<And>i. i < N \<Longrightarrow> gib_mapped m' pdp (Suc k + i) (nth_page X (Suc i)) (ph + of_nat (512 * 2 ^ 21) + of_nat (i * 2 ^ 30))"
      "\<And>a. (\<forall>i<N. MASK_4KIB a \<noteq> PHYS_TO_VIRT (nth_page X (Suc i))) \<Longrightarrow>
        (\<forall>i<N. a \<noteq> PHYS_TO_VIRT pdp + 8 * of_nat (Suc k + i)) \<Longrightarrow> m' a = m1 a"
    using Suc.IH [OF al(1) _ _ _ ne(2), of "Suc k" m1 "ph + of_nat (512 * 2 ^ 21)"] Suc.prems(4)
    unfolding nth_page_Suc by auto
  have first: "gib_mapped m' pdp k X ph"
  proof (rule gib_mapped_cong [OF m1(2) k _ _ Suc.prems(1)])
    show "m' (PHYS_TO_VIRT pdp + 8 * of_nat k) = m1 (PHYS_TO_VIRT pdp + 8 * of_nat k)"
    proof (rule m'(3); intro allI impI)
      fix i assume i: "i < N"
      show "MASK_4KIB (PHYS_TO_VIRT pdp + 8 * of_nat k) \<noteq> PHYS_TO_VIRT (nth_page X (Suc i))"
        using Suc.prems(3) i table_cell [OF pdp k] by auto
      show "PHYS_TO_VIRT pdp + 8 * of_nat k \<noteq> PHYS_TO_VIRT pdp + 8 * of_nat (Suc k + i)"
        using table_cell_inject [of k "Suc k + i" pdp] k Suc.prems(4) i by (simp del: of_nat_Suc of_nat_add)
    qed
    show "m' a = m1 a" if a: "MASK_4KIB a = PHYS_TO_VIRT X" for a
    proof (rule m'(3); intro allI impI)
      fix i assume i: "i < N"
      show "MASK_4KIB a \<noteq> PHYS_TO_VIRT (nth_page X (Suc i))"
        using a i nth_page_inject [OF Suc.prems(1,2), of 0 "Suc i"] by simp
      show "a \<noteq> PHYS_TO_VIRT pdp + 8 * of_nat (Suc k + i)"
        using a Xp table_cell [OF pdp, of "Suc k + i"] Suc.prems(4) i by (auto simp del: of_nat_Suc of_nat_add)
    qed
  qed
  have gib: "(of_nat (512 * 2 ^ 21) :: u64) + of_nat (i * 2 ^ 30) = of_nat (Suc i * 2 ^ 30)" for i by simp
  show ?case
  proof (intro exI [of _ m'] conjI allI impI)
    show "fst (fill_pdpt [k..<512] pdp (m, X, ph, left)) = m'" using m1(1) m'(1) by simp
    show "gib_mapped m' pdp (k + i) (nth_page X i) (ph + of_nat (i * 2 ^ 30))" if i: "i < Suc N" for i
    proof (cases i)
      case 0
      then show ?thesis using first by simp
    next
      case (Suc j)
      then show ?thesis using m'(2) [of j] i unfolding add.assoc gib by simp
    qed
    fix a assume a: "\<forall>i<Suc N. MASK_4KIB a \<noteq> PHYS_TO_VIRT (nth_page X i)"
      "\<forall>i<Suc N. a \<noteq> PHYS_TO_VIRT pdp + 8 * of_nat (k + i)"
    have "MASK_4KIB a \<noteq> PHYS_TO_VIRT X" "a \<noteq> PHYS_TO_VIRT pdp + 8 * of_nat k"
      using a [rule_format, of 0] by auto
    then have "m1 a = m a" by (rule m1(3))
    moreover have "m' a = m1 a"
    proof (rule m'(3); intro allI impI)
      fix i assume "i < N"
      then show "MASK_4KIB a \<noteq> PHYS_TO_VIRT (nth_page X (Suc i))"
        and "a \<noteq> PHYS_TO_VIRT pdp + 8 * of_nat (Suc k + i)"
        using a(1) [rule_format, of "Suc i"] a(2) [rule_format, of "Suc i"] by simp_all
    qed
    ultimately show "m' a = m a" by simp
  qed
qed

lemma fill_pml4_none: "fill_pml4 ks pml4 0 s = s"
  by (cases ks) (simp_all split: prod.splits)

lemma unat_index: "unat (drop_bit n x AND 0x1FF :: u64) = unat x div 2 ^ n mod 512"
proof -
  have "drop_bit n x AND 0x1FF = drop_bit n x AND mask 9" by (simp add: mask_eq_exp_minus_1)
  moreover have "unat (drop_bit n x) = unat x div 2 ^ n"
    unfolding unat_drop_bit_eq by (rule drop_bit_eq_div)
  ultimately show ?thesis by (simp only: unat_and_mask) simp
qed

text \<open>The indices of a direct-map address.\<close>

lemma direct_map_indices:
  assumes "unat a < 2 ^ 39"
  shows "PML4_INDEX (PHYS_TO_VIRT a) = 256"
    and "PDPT_INDEX (PHYS_TO_VIRT a) = of_nat (unat a div 2 ^ 30)"
    and "PDT_INDEX (PHYS_TO_VIRT a) = of_nat (unat a div 2 ^ 21 mod 512)"
    and "unat (PHYS_TO_VIRT a AND 0x1FFFFF) = unat a mod 2 ^ 21"
proof -
  have u: "unat (PHYS_TO_VIRT a) = unat a + 2 ^ 39 * 0x1FFFF00"
    using assms by (simp add: PHYS_TO_VIRT_def unat_word_ariths)
  have "unat (PML4_INDEX (PHYS_TO_VIRT a)) = (0x1FFFF00 + unat a div 2 ^ 39) mod 512"
    unfolding PML4_INDEX_def unat_index u by (simp only: div_mult_self2 power_not_zero zero_neq_numeral not_False_eq_True)
  then have "unat (PML4_INDEX (PHYS_TO_VIRT a)) = 256" using assms by simp
  then show "PML4_INDEX (PHYS_TO_VIRT a) = 256" by (simp add: word_unat_eq_iff)
  have "unat (PDPT_INDEX (PHYS_TO_VIRT a)) = (unat a + 2 ^ 30 * (512 * 0x1FFFF00)) div 2 ^ 30 mod 512"
    unfolding PDPT_INDEX_def unat_index u by simp
  also have "\<dots> = unat a div 2 ^ 30 mod 512" by (simp only: div_mult_self2 power_not_zero zero_neq_numeral not_False_eq_True mod_mult_self4)
  also have "\<dots> = unat a div 2 ^ 30" using assms by (intro mod_less) (simp add: less_mult_imp_div_less)
  finally have "unat (PDPT_INDEX (PHYS_TO_VIRT a)) = unat a div 2 ^ 30" .
  then show "PDPT_INDEX (PHYS_TO_VIRT a) = of_nat (unat a div 2 ^ 30)" by (metis of_nat_unat ucast_id)
  have "unat (PDT_INDEX (PHYS_TO_VIRT a)) = (unat a + 2 ^ 21 * (512 * (512 * 0x1FFFF00))) div 2 ^ 21 mod 512"
    unfolding PDT_INDEX_def unat_index u by simp
  also have "\<dots> = unat a div 2 ^ 21 mod 512" by (simp only: div_mult_self2 power_not_zero zero_neq_numeral not_False_eq_True mod_mult_self4)
  finally show "PDT_INDEX (PHYS_TO_VIRT a) = of_nat (unat a div 2 ^ 21 mod 512)" by (metis of_nat_unat ucast_id)
  have "unat (PHYS_TO_VIRT a AND 0x1FFFFF) = (unat a + 2 ^ 21 * (2 ^ 18 * 0x1FFFF00)) mod 2 ^ 21"
    unfolding low_21 unat_and_mask u by simp
  then show "unat (PHYS_TO_VIRT a AND 0x1FFFFF) = unat a mod 2 ^ 21" by (simp only: mod_mult_self2)
qed

lemma large_leaf:
  assumes "unat p mod 2 ^ 21 = 0" and "unat p < 2 ^ 63"
  shows "present (p OR PDT_PAGE_SIZE OR WRITABLE OR PRESENT)" "large (p OR PDT_PAGE_SIZE OR WRITABLE OR PRESENT)"
    and "ENTRY_TO_ADDR (p OR PDT_PAGE_SIZE OR WRITABLE OR PRESENT) = p"
proof -
  show "present (p OR PDT_PAGE_SIZE OR WRITABLE OR PRESENT)" "large (p OR PDT_PAGE_SIZE OR WRITABLE OR PRESENT)"
    unfolding present_iff_bit large_iff_bit by (simp_all add: bit_simps)
  have "p AND NOT (mask 12) = p"
    using assms(1) MASK_4KIB_2MIB [of p] unfolding MASK_4KIB_def mask_12 by (simp add: MASK_2MIB_id_iff)
  moreover have "p AND mask 63 = p" using assms(2) unfolding word_unat_eq_iff unat_and_mask by simp
  ultimately have "p AND 0x7FFFFFFFFFFFF000 = p" unfolding mask_63_12 by (simp flip: and.assoc)
  then show "ENTRY_TO_ADDR (p OR PDT_PAGE_SIZE OR WRITABLE OR PRESENT) = p"
    by (simp add: ENTRY_TO_ADDR_def bit.conj_disj_distrib2)
qed

lemma direct_map:
  assumes psi: "unat (num_pds psi) = N" "N \<le> 511" "num_pdpts psi = 0" "MASK_4KIB (psi_base psi) = psi_base psi"
      "unat (psi_base psi) + N * 4096 < 2 ^ 39"
    and pdpt: "MASK_4KIB pdpt = pdpt" "\<forall>i<N. nth_page (psi_base psi) i \<noteq> pdpt"
    and pml4: "MASK_4KIB pml4 = pml4" "pml4 \<noteq> pdpt" "\<forall>i<N. nth_page (psi_base psi) i \<noteq> pml4"
    and top: "is_table (entries m (PHYS_TO_VIRT pml4) 256)" "entry_table (entries m (PHYS_TO_VIRT pml4) 256) = pdpt"
    and a: "2 ^ 30 \<le> unat a" "unat a < (N + 1) * 2 ^ 30"
  shows "translate (create_paging_structures pml4 pdpt m psi) pml4 (PHYS_TO_VIRT a) = Some a"
proof -
  let ?X = "psi_base psi"
  have "unat ?X + N * 4096 < 2 ^ 64" using psi(5) by simp
  from fill_pdpt_spec [OF pdpt(1) psi(4) this pdpt(2), of 1 "num_pds psi" m one_GiB] obtain m' where
    m': "create_paging_structures pml4 pdpt m psi = m'"
    "\<And>i. i < N \<Longrightarrow> gib_mapped m' pdpt (1 + i) (nth_page ?X i) (one_GiB + of_nat (i * 2 ^ 30))"
    "\<And>a. (\<forall>i<N. MASK_4KIB a \<noteq> PHYS_TO_VIRT (nth_page ?X i)) \<Longrightarrow>
      (\<forall>i<N. a \<noteq> PHYS_TO_VIRT pdpt + 8 * of_nat (1 + i)) \<Longrightarrow> m' a = m a"
    using psi(1,2) by (auto simp: create_paging_structures_def psi(3) fill_pml4_none simp del: upt_Suc)
  define i j where "i = unat a div 2 ^ 30 - 1" and "j = unat a div 2 ^ 21 mod 512"
  have "1 \<le> unat a div 2 ^ 30" using a(1) div_le_mono [OF a(1), of "2 ^ 30"] by simp
  then have i1: "1 + i = unat a div 2 ^ 30" by (simp add: i_def)
  have "unat a div 2 ^ 30 < N + 1" using a(2) by (intro less_mult_imp_div_less)
  then have i: "i < N" using i1 by simp
  have j: "j < 512" by (simp add: j_def)
  have a39: "unat a < 2 ^ 39"
  proof -
    have "(N + 1) * 2 ^ 30 \<le> 512 * (2::nat) ^ 30" using psi(2) by (intro mult_le_mono1) simp
    then show ?thesis using a(2) by simp
  qed
  note idx = direct_map_indices [OF a39]
  have X: "MASK_4KIB (nth_page ?X i) = nth_page ?X i" "unat (nth_page ?X i) = unat ?X + i * 4096"
    using nth_page_props [OF psi(4), of N i] psi(5) i by simp_all
  then have X39: "nth_page ?X i < 2 ^ 39" using psi(5) i by (simp add: word_less_nat_alt)
  have g: "m' (PHYS_TO_VIRT pdpt + 8 * of_nat (1 + i)) = nth_page ?X i OR WRITABLE OR PRESENT"
    "m' (PHYS_TO_VIRT (nth_page ?X i) + 8 * of_nat j) =
      (one_GiB + of_nat (i * 2 ^ 30) + of_nat (j * 2 ^ 21)) OR PDT_PAGE_SIZE OR WRITABLE OR PRESENT"
    using m'(2) [OF i] j unfolding gib_mapped_def by blast+
  have dir: "is_table (nth_page ?X i OR WRITABLE OR PRESENT)" "entry_table (nth_page ?X i OR WRITABLE OR PRESENT) = nth_page ?X i"
    using new_entry [OF X(1) X39, of _ 0] by simp_all
  have e4: "m' (PHYS_TO_VIRT pml4 + 8 * 256) = entries m (PHYS_TO_VIRT pml4) 256"
  proof (rule m'(3); intro allI impI)
    have c: "MASK_4KIB (PHYS_TO_VIRT pml4 + 8 * 256) = PHYS_TO_VIRT pml4"
      using table_cell [OF pml4(1), of 256] by simp
    fix k assume k: "k < N"
    show "MASK_4KIB (PHYS_TO_VIRT pml4 + 8 * 256) \<noteq> PHYS_TO_VIRT (nth_page ?X k)"
      unfolding c using pml4(3) k by (metis PHYS_TO_VIRT_inject)
    have "MASK_4KIB (PHYS_TO_VIRT pdpt + 8 * of_nat (1 + k)) = PHYS_TO_VIRT pdpt"
      using k psi(2) by (intro table_cell [OF pdpt(1)]) simp
    then show "PHYS_TO_VIRT pml4 + 8 * 256 \<noteq> PHYS_TO_VIRT pdpt + 8 * of_nat (1 + k)"
      using c pml4(2) by (metis PHYS_TO_VIRT_inject)
  qed
  have w: "walk m' pml4 [256, of_nat (1 + i)] = Some (nth_page ?X i)"
    using top dir by (simp only: walk.simps Let_def e4 g simp_thms if_True)
  define ph where "ph = one_GiB + of_nat (i * 2 ^ 30) + of_nat (j * 2 ^ 21)"
  have lt: "(1 + i) * 2 ^ 30 + j * 2 ^ 21 < (2::nat) ^ 40" using i psi(2) j by simp
  have ph: "unat ph = (1 + i) * 2 ^ 30 + j * 2 ^ 21"
  proof -
    have "ph = of_nat ((1 + i) * 2 ^ 30 + j * 2 ^ 21)" by (simp add: ph_def)
    moreover have "unat (of_nat ((1 + i) * 2 ^ 30 + j * 2 ^ 21) :: u64) = (1 + i) * 2 ^ 30 + j * 2 ^ 21"
      using lt by (intro unat_of_nat_u64) simp
    ultimately show ?thesis by simp
  qed
  have "unat ph = 2 ^ 21 * ((1 + i) * 2 ^ 9 + j)" by (simp add: ph)
  then have "unat ph mod 2 ^ 21 = 0" by (simp only: mod_mult_self1_is_0)
  note leaf = large_leaf [OF this]
  have "unat ph < 2 ^ 63" using ph lt by simp
  note leaf = leaf [OF this]
  have entry: "entry_at m' pml4 [256, of_nat (1 + i)] (of_nat j) = ph OR PDT_PAGE_SIZE OR WRITABLE OR PRESENT"
    by (simp only: entry_at_def w option.case g(2) ph_def)
  have "unat ph + unat (PHYS_TO_VIRT a AND 0x1FFFFF) = unat a"
  proof -
    have "unat a div 2 ^ 21 div 512 = unat a div 2 ^ 30" by (simp add: div_mult2_eq [symmetric])
    then have "unat a div 2 ^ 21 = (1 + i) * 512 + j" unfolding j_def i1
      by (metis mult.commute mult_div_mod_eq)
    then have "unat a = ((1 + i) * 512 + j) * 2 ^ 21 + unat a mod 2 ^ 21" by (metis div_mult_mod_eq)
    then show ?thesis by (simp add: ph idx(4))
  qed
  then have "ph + (PHYS_TO_VIRT a AND 0x1FFFFF) = a"
    using unsigned_less [where ?'a = nat, of a] by (simp add: word_unat_eq_iff unat_word_ariths)
  then show ?thesis
    using leaf entry unfolding m'(1) translate_def idx(1-3) Let_def i1 [symmetric] j_def [symmetric] by simp
qed

section \<open>The first GiB\<close>

text \<open>
  The static tables of \<open>prekernel.s\<close> (\<open>kernel_PML4\<close>, \<open>kernel_PDPTE\<close>, \<open>kernel_PDT\<close>): entries 0 and
  256 of the PML4 lead to the PDP table, whose entry 0 leads to a page directory of 512 pages of 2 MiB.
\<close>

definition boot_tables :: "mem \<Rightarrow> addr \<Rightarrow> addr \<Rightarrow> addr \<Rightarrow> bool" where
  "boot_tables m kernel_PML4 kernel_PDPTE kernel_PDT \<longleftrightarrow>
     entries m (PHYS_TO_VIRT kernel_PML4) 0 = kernel_PDPTE + 3 \<and>
     entries m (PHYS_TO_VIRT kernel_PML4) 256 = kernel_PDPTE + 3 \<and>
     entries m (PHYS_TO_VIRT kernel_PDPTE) 0 = kernel_PDT + 3 \<and>
     (\<forall>j<512. entries m (PHYS_TO_VIRT kernel_PDT) (of_nat j) = of_nat j * 0x200000 + 0x83)"

lemma aligned_plus:
  assumes "MASK_4KIB x = x"
  shows "x + 3 = x OR WRITABLE OR PRESENT" and "x + 0x83 = x OR PDT_PAGE_SIZE OR WRITABLE OR PRESENT"
proof -
  have d: "x + c = x OR c" if "c AND mask 12 = c" for c :: u64
  proof (rule disjunctive_add)
    fix n
    have "\<not> bit x n" if "n < 12"
      using that assms unfolding MASK_4KIB_def mask_12 by (metis bit_and_iff bit_not_iff bit_mask_iff possible_bit_def possible_bit_word)
    moreover have "n < 12" if "bit c n" using that \<open>c AND mask 12 = c\<close> by (metis bit_and_iff bit_mask_iff)
    ultimately show "\<not> bit x n \<or> \<not> bit c n" by blast
  qed
  have "x + 3 = x OR 3" "x + 0x83 = x OR 0x83" by (rule d; simp add: mask_eq_exp_minus_1)+
  moreover have "(3 :: u64) = WRITABLE OR PRESENT" "(0x83 :: u64) = PDT_PAGE_SIZE OR WRITABLE OR PRESENT" by simp_all
  ultimately show "x + 3 = x OR WRITABLE OR PRESENT" "x + 0x83 = x OR PDT_PAGE_SIZE OR WRITABLE OR PRESENT"
    by (simp_all only:)
qed

text \<open>Other cells than the new page directories and their entries are not written.\<close>

lemma create_paging_structures_other:
  assumes "unat (num_pds psi) = N" "N \<le> 511" "num_pdpts psi = 0" "MASK_4KIB (psi_base psi) = psi_base psi"
      "unat (psi_base psi) + N * 4096 < 2 ^ 39" "MASK_4KIB pdpt = pdpt" "\<forall>i<N. nth_page (psi_base psi) i \<noteq> pdpt"
    and "MASK_4KIB X = X" "\<forall>i<N. nth_page (psi_base psi) i \<noteq> X" "k < 512" "X \<noteq> pdpt \<or> k = 0"
  shows "create_paging_structures pml4 pdpt m psi (PHYS_TO_VIRT X + 8 * of_nat k) = m (PHYS_TO_VIRT X + 8 * of_nat k)"
proof -
  have "unat (psi_base psi) + N * 4096 < 2 ^ 64" using assms(5) by simp
  from fill_pdpt_spec [OF assms(6,4) this assms(7), of 1 "num_pds psi" m one_GiB] obtain m' where
    m': "create_paging_structures pml4 pdpt m psi = m'"
    "\<And>a. (\<forall>i<N. MASK_4KIB a \<noteq> PHYS_TO_VIRT (nth_page (psi_base psi) i)) \<Longrightarrow>
      (\<forall>i<N. a \<noteq> PHYS_TO_VIRT pdpt + 8 * of_nat (1 + i)) \<Longrightarrow> m' a = m a"
    using assms(1,2) by (auto simp: create_paging_structures_def assms(3) fill_pml4_none simp del: upt_Suc)
  have c: "MASK_4KIB (PHYS_TO_VIRT X + 8 * of_nat k) = PHYS_TO_VIRT X" by (rule table_cell [OF assms(8,10)])
  show ?thesis
    unfolding m'(1)
  proof (rule m'(2); intro allI impI)
    fix i assume i: "i < N"
    show "MASK_4KIB (PHYS_TO_VIRT X + 8 * of_nat k) \<noteq> PHYS_TO_VIRT (nth_page (psi_base psi) i)"
      unfolding c using assms(9) i by (metis PHYS_TO_VIRT_inject)
    show "PHYS_TO_VIRT X + 8 * of_nat k \<noteq> PHYS_TO_VIRT pdpt + 8 * of_nat (1 + i)"
    proof (cases "X = pdpt")
      case True
      then show ?thesis using assms(2,11) i table_cell_inject [of k "1 + i" pdpt] by (simp del: of_nat_add of_nat_Suc)
    next
      case False
      have "MASK_4KIB (PHYS_TO_VIRT pdpt + 8 * of_nat (1 + i)) = PHYS_TO_VIRT pdpt"
        using i assms(2) by (intro table_cell [OF assms(6)]) simp
      then show ?thesis using c False by (metis PHYS_TO_VIRT_inject)
    qed
  qed
qed

lemma direct_map_first_GiB:
  assumes "unat (num_pds psi) = N" "N \<le> 511" "num_pdpts psi = 0" "MASK_4KIB (psi_base psi) = psi_base psi"
      "unat (psi_base psi) + N * 4096 < 2 ^ 39" "MASK_4KIB pdpt = pdpt" "\<forall>i<N. nth_page (psi_base psi) i \<noteq> pdpt"
    and pml4: "MASK_4KIB pml4 = pml4" "pml4 \<noteq> pdpt" "\<forall>i<N. nth_page (psi_base psi) i \<noteq> pml4"
    and pdt: "MASK_4KIB pdt = pdt" "pdt \<noteq> pdpt" "\<forall>i<N. nth_page (psi_base psi) i \<noteq> pdt"
    and low: "pdpt < 2 ^ 39" "pdt < 2 ^ 39"
    and boot: "boot_tables m pml4 pdpt pdt" and a: "unat a < 2 ^ 30"
  shows "translate (create_paging_structures pml4 pdpt m psi) pml4 (PHYS_TO_VIRT a) = Some a"
proof -
  let ?m = "create_paging_structures pml4 pdpt m psi"
  note keep = create_paging_structures_other [OF assms(1-7), where m = m and ?pml4.0 = pml4]
  define j where "j = unat a div 2 ^ 21"
  have j: "j < 512" using a by (simp add: j_def less_mult_imp_div_less)
  have a39: "unat a < 2 ^ 39" using a by simp
  have "unat a div 2 ^ 30 = 0" using a by simp
  then have idx: "PML4_INDEX (PHYS_TO_VIRT a) = 256" "PDPT_INDEX (PHYS_TO_VIRT a) = 0"
    "PDT_INDEX (PHYS_TO_VIRT a) = of_nat j" "unat (PHYS_TO_VIRT a AND 0x1FFFFF) = unat a mod 2 ^ 21"
    using direct_map_indices [OF a39] j by (simp_all add: j_def)
  have e4: "?m (PHYS_TO_VIRT pml4 + 8 * 256) = pdpt OR WRITABLE OR PRESENT"
    using keep [OF pml4(1,3), of 256] pml4(2) boot aligned_plus(1) [OF assms(6)] by (simp add: boot_tables_def)
  have e3: "?m (PHYS_TO_VIRT pdpt + 8 * 0) = pdt OR WRITABLE OR PRESENT"
    using keep [OF assms(6,7), of 0] boot aligned_plus(1) [OF pdt(1)] by (simp add: boot_tables_def)
  define ph where "ph = (of_nat j * 0x200000 :: u64)"
  have ph: "unat ph = j * 2 ^ 21"
  proof -
    have "ph = of_nat (j * 2 ^ 21)" by (simp add: ph_def)
    then show ?thesis using j by (simp only:) (intro unat_of_nat_u64, simp)
  qed
  have al: "unat ph mod 2 ^ 21 = 0" by (simp add: ph)
  then have "MASK_4KIB ph = ph" by (intro MASK_4KIB_2MIB) (simp add: MASK_2MIB_id_iff)
  then have e2: "?m (PHYS_TO_VIRT pdt + 8 * of_nat j) = ph OR PDT_PAGE_SIZE OR WRITABLE OR PRESENT"
    using keep [OF pdt(1,3) j] pdt(2) boot j aligned_plus(2) [of ph] by (simp add: boot_tables_def ph_def)
  have "is_table (pdpt OR WRITABLE OR PRESENT)" "entry_table (pdpt OR WRITABLE OR PRESENT) = pdpt"
    "is_table (pdt OR WRITABLE OR PRESENT)" "entry_table (pdt OR WRITABLE OR PRESENT) = pdt"
    using new_entry [OF assms(6) low(1), of _ 0] new_entry [OF pdt(1) low(2), of _ 0] by simp_all
  then have w: "walk ?m pml4 [256, 0] = Some pdt" by (simp only: walk.simps Let_def e4 e3 simp_thms if_True)
  have "unat ph < 2 ^ 63" using ph j by simp
  note leaf = large_leaf [OF al this]
  have entry: "entry_at ?m pml4 [256, 0] (of_nat j) = ph OR PDT_PAGE_SIZE OR WRITABLE OR PRESENT"
    by (simp only: entry_at_def w option.case e2)
  have "unat ph + unat (PHYS_TO_VIRT a AND 0x1FFFFF) = unat a"
    by (simp only: ph idx(4) j_def div_mult_mod_eq)
  then have "ph + (PHYS_TO_VIRT a AND 0x1FFFFF) = a"
    using unsigned_less [where ?'a = nat, of a] by (simp add: word_unat_eq_iff unat_word_ariths)
  then show ?thesis using leaf entry unfolding translate_def idx(1-3) Let_def by simp
qed

section \<open>Properties\<close>

lemma fold_count_highest:
  "snd c \<le> snd (fold (\<lambda>i. count_usable (f i)) is c) \<and>
   (\<forall>i\<in>set is. mm_type (f i) = TYPE_USABLE \<longrightarrow>
      mm_base (f i) + mm_length (f i) \<le> snd (fold (\<lambda>i. count_usable (f i)) is c))"
proof (induction "is" arbitrary: c)
  case Nil
  then show ?case by simp
next
  case (Cons i "is")
  let ?c = "count_usable (f i) c"
  have "snd c \<le> snd ?c" "mm_type (f i) = TYPE_USABLE \<longrightarrow> mm_base (f i) + mm_length (f i) \<le> snd ?c"
    by (auto simp: count_entry_def Let_def split: prod.splits)
  with Cons.IH [of ?c] show ?case by (auto intro: order.trans)
qed

text \<open>C26. After \<open>get_total_usable_ram\<close> no usable entry overlaps the kernel at 1 MiB to 4 MiB:
  every entry that is still usable is part of an entry the BIOS called usable, lies below
  or above the kernel and ends at or below \<open>highest_address\<close>; the number of entries does
  not change.\<close>

theorem get_total_usable_ram_avoids_kernel:
  assumes fit: "\<forall>i<n. unat (mm_base (arr i)) + unat (mm_length (arr i)) < 2 ^ 64"
  shows "\<exists>arr' info. get_total_usable_ram arr n = (arr', n, info) \<and>
    (\<forall>i<n. mm_type (arr' i) = TYPE_USABLE \<longrightarrow>
      mm_type (arr i) = TYPE_USABLE \<and> clear_of_kernel (arr' i) \<and> inside_entry (arr' i) (arr i) \<and>
      unat (mm_base (arr' i)) + unat (mm_length (arr' i)) \<le> unat (highest_address info))"
proof -
  let ?arr = "\<lambda>i. if i < n then clip (arr i) else arr i"
  let ?c = "fold (\<lambda>i. count_usable (clip (arr i))) [0..<n] (0, 0)"
  have eq: "get_total_usable_ram arr n = (?arr, n, \<lparr> total_usable_ram = fst ?c, highest_address = snd ?c \<rparr>)"
    by (simp add: get_total_usable_ram_eq Let_def split_beta)
  have "mm_type (arr i) = TYPE_USABLE \<and> clear_of_kernel (clip (arr i)) \<and> inside_entry (clip (arr i)) (arr i) \<and>
      unat (mm_base (clip (arr i))) + unat (mm_length (clip (arr i))) \<le> unat (snd ?c)"
    if i: "i < n" and t: "mm_type (clip (arr i)) = TYPE_USABLE" for i
  proof -
    note cs = clip_spec [OF fit [rule_format, OF i] t]
    have "unat (mm_base (clip (arr i))) + unat (mm_length (clip (arr i))) < 2 ^ 64"
      using cs(3) fit [rule_format, OF i] by (simp add: inside_entry_def)
    then have "unat (mm_base (clip (arr i)) + mm_length (clip (arr i))) =
        unat (mm_base (clip (arr i))) + unat (mm_length (clip (arr i)))"
      by (simp add: unat_word_ariths)
    moreover have "mm_base (clip (arr i)) + mm_length (clip (arr i)) \<le> snd ?c"
      using fold_count_highest [of "(0, 0)" "\<lambda>i. clip (arr i)" "[0..<n]"] i t by auto
    ultimately show ?thesis using cs by (simp add: word_le_nat_alt)
  qed
  then show ?thesis unfolding eq by auto
qed

text \<open>A memory map whose second usable entry runs from inside the kernel to 256 MiB.\<close>

definition sample_array :: mmap_array where
  "sample_array = (\<lambda>_. \<lparr> mm_base = 0, mm_length = 0, mm_type = 2, mm_ACPI = 0 \<rparr>)
     (0 := \<lparr> mm_base = 0, mm_length = 0x9FC00, mm_type = 1, mm_ACPI = 0 \<rparr>,
      1 := \<lparr> mm_base = 0x100000, mm_length = 0xFF00000, mm_type = 1, mm_ACPI = 0 \<rparr>)"

theorem get_total_usable_ram_avoids_kernel_witness:
  "\<exists>arr' info. get_total_usable_ram sample_array 3 = (arr', 3, info) \<and>
    (\<forall>i<3. mm_type (arr' i) = TYPE_USABLE \<longrightarrow>
      mm_type (sample_array i) = TYPE_USABLE \<and> clear_of_kernel (arr' i) \<and> inside_entry (arr' i) (sample_array i) \<and>
      unat (mm_base (arr' i)) + unat (mm_length (arr' i)) \<le> unat (highest_address info))"
  by (rule get_total_usable_ram_avoids_kernel) (simp add: sample_array_def)

text \<open>A usable region around the whole kernel is not split in two, as the code means to do:
  the test for a region that reaches into the kernel comes first and keeps the part below
  1 MiB only, so all RAM of the region above the kernel is lost and no entry is added.\<close>

lemma region_around_kernel_loses_upper_part:
  assumes "i < n" and "mm_type (arr i) = TYPE_USABLE"
    and "mm_base (arr i) < KERNEL_START" and "KERNEL_END < mm_base (arr i) + mm_length (arr i)"
  shows "\<exists>arr' info. get_total_usable_ram arr n = (arr', n, info) \<and>
    arr' i = arr i \<lparr> mm_length := KERNEL_START - mm_base (arr i) \<rparr>"
proof -
  have "KERNEL_START < x" if "KERNEL_END < x" for x :: u64
    using that by (simp add: word_less_nat_alt)
  then have "clip (arr i) = arr i \<lparr> mm_length := KERNEL_START - mm_base (arr i) \<rparr>"
    using assms by (simp add: clip_def Let_def)
  with assms(1) show ?thesis by (simp add: get_total_usable_ram_eq Let_def split_beta)
qed

lemma region_around_kernel_loses_upper_part_witness:
  "\<exists>arr' info. get_total_usable_ram (\<lambda>_. \<lparr> mm_base = 0, mm_length = 0x10000000, mm_type = 1, mm_ACPI = 0 \<rparr>) 1 =
    (arr', 1, info) \<and> mm_base (arr' 0) = 0 \<and> mm_length (arr' 0) = 0x100000"
  using region_around_kernel_loses_upper_part
    [of 0 1 "\<lambda>_. \<lparr> mm_base = 0, mm_length = 0x10000000, mm_type = 1, mm_ACPI = 0 \<rparr>"]
  by auto

text \<open>C20. From the static tables of \<open>prekernel.s\<close>, \<open>create_paging_structures\<close> makes the window at
  \<open>KERNEL_BASE\<close> an identity map of physical memory as far as its page directories reach: with \<open>N \<le> 511\<close>
  new directories (and no further PDP table, so up to 512 GiB) placed from the page-aligned \<open>base\<close> on, apart from
  the three static tables, every physical address below \<open>N + 1\<close> GiB is translated from its address in the
  window to itself: the first GiB through the static directory, which is kept, the others through the new
  ones.  How far \<open>N + 1\<close> GiB reach is the subject of the lemma that follows: not always to the end of RAM.\<close>

theorem direct_map_is_identity:
  assumes "unat (num_pds psi) = N" and "N \<le> 511" and "num_pdpts psi = 0"
    and "MASK_4KIB (psi_base psi) = psi_base psi" and "unat (psi_base psi) + N * 4096 < 2 ^ 39"
    and "MASK_4KIB pdpt = pdpt" and "\<forall>i<N. nth_page (psi_base psi) i \<noteq> pdpt"
    and "MASK_4KIB pml4 = pml4" and "pml4 \<noteq> pdpt" and "\<forall>i<N. nth_page (psi_base psi) i \<noteq> pml4"
    and "MASK_4KIB pdt = pdt" and "pdt \<noteq> pdpt" and "\<forall>i<N. nth_page (psi_base psi) i \<noteq> pdt"
    and "pdpt < 2 ^ 39" and "pdt < 2 ^ 39" and "boot_tables m pml4 pdpt pdt"
    and "unat a < (N + 1) * 2 ^ 30"
  shows "translate (create_paging_structures pml4 pdpt m psi) pml4 (PHYS_TO_VIRT a) = Some a"
proof (cases "unat a < 2 ^ 30")
  case True
  show ?thesis by (rule direct_map_first_GiB [OF assms(1-16) True])
next
  case False
  have "entries m (PHYS_TO_VIRT pml4) 256 = pdpt OR WRITABLE OR PRESENT"
    using assms(16) aligned_plus(1) [OF assms(6)] by (simp add: boot_tables_def)
  then have "is_table (entries m (PHYS_TO_VIRT pml4) 256)" "entry_table (entries m (PHYS_TO_VIRT pml4) 256) = pdpt"
    using new_entry [OF assms(6,14), of _ 0] by simp_all
  moreover have "2 ^ 30 \<le> unat a" using False by simp
  ultimately show ?thesis using direct_map [OF assms(1-10)] assms(17) by blast
qed

text \<open>Static tables at 0x101000, 0x102000 and 0x103000, and three new directories.\<close>

definition boot_mem :: mem where
  "boot_mem a = (if MASK_4KIB a = PHYS_TO_VIRT 0x103000
     then drop_bit 3 (a - PHYS_TO_VIRT 0x103000) * 0x200000 + 0x83
     else if a = PHYS_TO_VIRT 0x101000 \<or> a = PHYS_TO_VIRT 0x101800 then 0x102003
     else if a = PHYS_TO_VIRT 0x102000 then 0x103003 else 0)"

lemma boot_mem_tables: "boot_tables boot_mem 0x101000 0x102000 0x103000"
proof -
  have "boot_mem (PHYS_TO_VIRT 0x103000 + 8 * of_nat j) = of_nat j * 0x200000 + 0x83" if "j < 512" for j
  proof -
    have "unat (8 * of_nat j :: u64) = 8 * j" using that by (simp add: unat_word_ariths unsigned_of_nat take_bit_nat_eq_self)
    then have "unat (drop_bit 3 (8 * of_nat j :: u64)) = 8 * j div 2 ^ 3"
      by (simp only: unat_drop_bit_eq drop_bit_eq_div [where ?'a = nat])
    then have "drop_bit 3 (8 * of_nat j :: u64) = of_nat j"
      using that by (simp add: word_unat_eq_iff unsigned_of_nat take_bit_nat_eq_self)
    moreover have "MASK_4KIB (PHYS_TO_VIRT 0x103000 + 8 * of_nat j) = PHYS_TO_VIRT 0x103000"
      by (rule table_cell [OF _ that]) (simp add: MASK_4KIB_def)
    ultimately show ?thesis by (simp add: boot_mem_def)
  qed
  then show ?thesis by (simp add: boot_tables_def) (simp add: boot_mem_def PHYS_TO_VIRT_def MASK_4KIB_def)
qed

theorem direct_map_is_identity_witness:
  "translate (create_paging_structures 0x101000 0x102000 boot_mem
    \<lparr> psi_base = 0x400000, psi_length = 0x100000, num_pds = 3, num_pdpts = 0, space_needed = 0x3000 \<rparr>)
    0x101000 (PHYS_TO_VIRT 0xFEDCBA98) = Some 0xFEDCBA98"
proof (rule direct_map_is_identity [where N = 3 and pdpt = "0x102000" and pdt = "0x103000"])
  have "nth_page 0x400000 i \<in> {0x400000, 0x401000, 0x402000}" if "i < 3" for i
  proof -
    have "i = 0 \<or> i = 1 \<or> i = 2" using that by auto
    then show ?thesis by (auto simp: nth_page_def)
  qed
  then show "\<forall>i<3. nth_page (psi_base \<lparr> psi_base = 0x400000, psi_length = 0x100000, num_pds = 3, num_pdpts = 0,
      space_needed = 0x3000 \<rparr>) i \<noteq> 0x102000"
    and "\<forall>i<3. nth_page (psi_base \<lparr> psi_base = 0x400000, psi_length = 0x100000, num_pds = 3, num_pdpts = 0,
      space_needed = 0x3000 \<rparr>) i \<noteq> 0x101000"
    and "\<forall>i<3. nth_page (psi_base \<lparr> psi_base = 0x400000, psi_length = 0x100000, num_pds = 3, num_pdpts = 0,
      space_needed = 0x3000 \<rparr>) i \<noteq> 0x103000"
    by force+
qed (simp_all add: MASK_4KIB_def boot_mem_tables)

text \<open>The number of page directories is rounded to the nearest GiB instead of up: above 1 GiB
  the direct map reaches the end of RAM exactly when the last GiB is absent or at least half
  full; otherwise RAM that the allocator hands out is not mapped.\<close>

lemma direct_map_reaches_end_of_ram_iff:
  assumes h: "2 ^ 30 \<le> unat h" "unat h < 2 ^ 63"
  shows "unat h \<le> (unat (fst (page_tables_for h)) + 1) * 2 ^ 30 \<longleftrightarrow>
    unat h mod 2 ^ 30 = 0 \<or> 2 ^ 29 \<le> unat h mod 2 ^ 30"
proof -
  define q r where "q = unat h div 2 ^ 30" and "r = unat h mod 2 ^ 30"
  have hq: "unat h = q * 2 ^ 30 + r" and r: "r < 2 ^ 30" by (simp_all add: q_def r_def div_mult_mod_eq)
  have q: "1 \<le> q" using div_le_mono [OF h(1), of "2 ^ 30"] by (simp add: q_def)
  have n: "unat ((h + 0x20000000) div one_GiB) = (unat h + 2 ^ 29) div 2 ^ 30"
    using h(2) by (simp add: unat_div unat_word_ariths)
  also have "\<dots> = (if 2 ^ 29 \<le> r then q + 1 else q)"
  proof (cases "2 ^ 29 \<le> r")
    case True
    then obtain d where d: "r = 2 ^ 29 + d" using le_Suc_ex by blast
    have "unat h + 2 ^ 29 = d + (q + 1) * 2 ^ 30" by (simp add: hq d)
    moreover have "d < 2 ^ 30" using r d by simp
    ultimately have "(unat h + 2 ^ 29) div 2 ^ 30 = q + 1" by (simp only: div_mult_self1 power_not_zero) simp
    with True show ?thesis by simp
  next
    case False
    have "unat h + 2 ^ 29 = (r + 2 ^ 29) + q * 2 ^ 30" by (simp add: hq)
    moreover have "r + 2 ^ 29 < 2 ^ 30" using False by simp
    ultimately have "(unat h + 2 ^ 29) div 2 ^ 30 = q" by (simp only: div_mult_self1 power_not_zero) simp
    with False show ?thesis by simp
  qed
  finally have u: "unat ((h + 0x20000000) div one_GiB) = (if 2 ^ 29 \<le> r then q + 1 else q)" .
  then have "1 \<le> unat ((h + 0x20000000) div one_GiB)" using q by simp
  then have ge: "1 \<le> (h + 0x20000000) div one_GiB" by (simp add: word_le_nat_alt)
  then have "unat (fst (page_tables_for h)) + 1 = (if 2 ^ 29 \<le> r then q + 1 else q)"
    using u q by (simp add: page_tables_for_def Let_def unat_sub del: unat_div)
  then show ?thesis using hq r q unfolding r_def [symmetric] by auto
qed

lemma direct_map_reaches_end_of_ram_iff_witness:
  "\<not> unat (0x50000000 :: u64) \<le> (unat (fst (page_tables_for 0x50000000)) + 1) * 2 ^ 30"
  using direct_map_reaches_end_of_ram_iff [of "0x50000000"] by simp

end
