(* ===== verification/NodePool.thy ===== *)
theory NodePool
  imports Queue Block
begin

text \<open>
  Several queues whose nodes come from one block allocator, as the scheduler keeps them:
  which nodes are in which queue, which are in hand between two steps, and which are back in
  the allocator.  Every step of the scheduler's bookkeeping moves one node between these
  places; the lemmas of this theory say so for each of the operations it calls.
\<close>

section \<open>Layout\<close>

definition header_of :: "addr \<Rightarrow> addr set" where
  "header_of ba = {ba, ba + 8, ba + 16, ba + 24, ba + 32, ba + 40}"

definition queue_cells :: "addr \<Rightarrow> addr set" where
  "queue_cells q = {q, q + 8, q + 16}"

definition node_cells :: "addr set \<Rightarrow> addr set" where
  "node_cells X = X \<union> (\<lambda>x. x + 8) ` X"

text \<open>The queues \<open>Q\<close> lie apart from each other and from the allocator at \<open>bn\<close> of \<open>n\<close> nodes.\<close>

definition pool_layout :: "addr \<Rightarrow> nat \<Rightarrow> addr set \<Rightarrow> bool" where
  "pool_layout bn n Q \<longleftrightarrow>
     block_bound bn 16 n \<and>
     (\<forall>q\<in>Q. queue_cells q \<inter> (header_of bn \<union> node_cells (block_addrs bn 16 n)) = {}) \<and>
     (\<forall>q\<in>Q. \<forall>q'\<in>Q. q \<noteq> q' \<longrightarrow> queue_cells q \<inter> queue_cells q' = {})"

lemma node_addr:
  assumes "block_bound bn 16 n" and "x \<in> block_addrs bn 16 n"
  obtains i where "i < n" and "unat x = unat bn + 48 + i * 16" and "unat (x + 8) = unat bn + 56 + i * 16"
proof -
  from assms(2) obtain i where i: "x = blk bn 16 i" "i < n" by (auto simp: block_addrs_def)
  have u: "unat x = unat bn + 48 + i * 16" using unat_blk [OF assms(1), of i] i by simp
  have "i * 16 + 16 \<le> n * 16" using i(2) by simp
  then have "unat x + 8 < 2 ^ 64" using u assms(1) by linarith
  then have "unat (x + 8) = unat x + 8" by (rule unat_plus_small) simp
  with u i(2) that show thesis by simp
qed

lemma node_apart:
  assumes b: "block_bound bn 16 n" and x: "x \<in> block_addrs bn 16 n"
  shows "y \<in> block_addrs bn 16 n \<Longrightarrow> x \<noteq> y + 8"
    and "x \<notin> header_of bn" and "x + 8 \<notin> header_of bn" and "x \<noteq> 0"
proof -
  obtain i where i: "i < n" "unat x = unat bn + 48 + i * 16" "unat (x + 8) = unat bn + 56 + i * 16"
    using node_addr [OF b x] .
  show "x \<noteq> y + 8" if y: "y \<in> block_addrs bn 16 n"
  proof
    assume eq: "x = y + 8"
    obtain j where "unat (y + 8) = unat bn + 56 + j * 16" using node_addr [OF b y] .
    then have "48 + i * 16 = 56 + j * 16" using eq i(2) by simp
    then show False by presburger
  qed
  have h: "unat a \<le> unat bn + 40" if "a \<in> header_of bn" for a
  proof -
    have "unat (bn + 8) = unat bn + 8" "unat (bn + 16) = unat bn + 16" "unat (bn + 24) = unat bn + 24"
      "unat (bn + 32) = unat bn + 32" "unat (bn + 40) = unat bn + 40"
      using b by (simp_all add: unat_plus_small)
    with that show ?thesis unfolding header_of_def by auto
  qed
  show "x \<notin> header_of bn" "x + 8 \<notin> header_of bn" "x \<noteq> 0"
    using h [of x] h [of "x + 8"] i by fastforce+
qed

section \<open>Frames of the operations\<close>

lemma stack_at_agree:
  assumes "stack_at m s xs" and "\<forall>a\<in>{s, s + 8} \<union> set xs. m' a = m a"
  shows "stack_at m' s xs"
proof -
  have "stack_at m s xs = stack_at m' s xs" by (rule stack_at_cong) (use assms(2) in auto)
  with assms(1) show ?thesis by simp
qed

lemma block_inv_agree:
  assumes "block_inv ba bs n m A" and "\<forall>a\<in>header_of ba \<union> A. m' a = m a"
  shows "block_inv ba bs n m' A"
proof -
  obtain k fs where at: "block_at m ba bs n k fs" and A: "A = block_avail ba bs n k fs"
    using assms(1) by (auto simp: block_inv_def)
  have "stack_at m' (ba + 32) fs"
  proof (rule stack_at_agree)
    show "stack_at m (ba + 32) fs" using at by (simp add: block_at_def)
    show "\<forall>a\<in>{ba + 32, ba + 32 + 8} \<union> set fs. m' a = m a"
      using assms(2) by (auto simp: A block_avail_def header_of_def add.assoc)
  qed
  then have "block_at m' ba bs n k fs"
    using at assms(2) by (simp add: block_at_def header_of_def)
  with A show ?thesis by (auto simp: block_inv_def)
qed

lemma block_alloc_other: "a \<notin> header_of ba \<Longrightarrow> snd (block_alloc m ba) a = m a"
  by (auto simp: block_alloc_def Let_def header_of_def add.assoc intro: stack_pop_other)

lemma block_free_other:
  "block_free m ba x = Inr m' \<Longrightarrow> a \<notin> header_of ba \<Longrightarrow> a \<noteq> x \<Longrightarrow> m' a = m a"
  by (auto simp: block_free_def header_of_def add.assoc intro!: stack_push_other)

lemma queue_enqueue_frame:
  assumes "queue_at m q xs" and "a \<notin> queue_cells q" and "a \<noteq> x" and "a \<notin> set xs"
    and "queue_fits q x"
  shows "queue_enqueue m q x a = m a"
proof (cases "xs = []")
  case True
  then have "m q = 0" using queue_at_empty [OF assms(1)] by simp
  then show ?thesis using assms by (auto simp: queue_enqueue_def Let_def queue_cells_def)
next
  case False
  then have "m (q + 16) \<in> set xs" and sep: "{0, q, q + 8, q + 16} \<inter> set xs = {}"
    using assms(1) by (simp_all add: queue_at_def)
  then have "m (q + 16) \<notin> {q, q + 8, q + 16}" by blast
  with \<open>m (q + 16) \<in> set xs\<close> assms show ?thesis
    by (auto simp: queue_enqueue_def Let_def queue_cells_def queue_fits_def)
qed

section \<open>A queue and the data of its nodes\<close>

definition queue_view :: "mem \<Rightarrow> addr \<Rightarrow> (addr \<times> addr) list \<Rightarrow> bool" where
  "queue_view m q v \<longleftrightarrow> queue_at m q (map fst v) \<and> (\<forall>p\<in>set v. m (fst p + 8) = snd p)"

lemma queue_view_agree:
  assumes "queue_view m q v" and "\<forall>a\<in>queue_cells q \<union> node_cells (fst ` set v). m' a = m a"
  shows "queue_view m' q v"
proof -
  have "queue_at m q (map fst v) = queue_at m' q (map fst v)"
  proof (rule queue_at_cong)
    fix x assume "x \<in> {q, q + 8, q + 16} \<union> set (map fst v)"
    then have "x \<in> queue_cells q \<union> node_cells (fst ` set v)"
      by (simp only: queue_cells_def node_cells_def set_map) blast
    with assms(2) show "m x = m' x" by simp
  qed
  moreover have "\<forall>p\<in>set v. m' (fst p + 8) = m (fst p + 8)"
    using assms(2) by (auto simp: node_cells_def)
  ultimately show ?thesis using assms(1) by (simp add: queue_view_def)
qed

section \<open>The pool\<close>

text \<open>
  \<open>pool_rep bn n Q m H V\<close>: in the memory \<open>m\<close> each queue \<open>q\<close> of \<open>Q\<close> holds the nodes and data
  \<open>V q\<close>, the nodes \<open>H\<close> are in hand, and all others are available in the allocator.
\<close>

definition used_nodes :: "addr set \<Rightarrow> addr set \<Rightarrow> (addr \<Rightarrow> (addr \<times> addr) list) \<Rightarrow> addr set" where
  "used_nodes Q H V = H \<union> (\<Union>q\<in>Q. fst ` set (V q))"

definition pool_rep ::
  "addr \<Rightarrow> nat \<Rightarrow> addr set \<Rightarrow> mem \<Rightarrow> addr set \<Rightarrow> (addr \<Rightarrow> (addr \<times> addr) list) \<Rightarrow> bool" where
  "pool_rep bn n Q m H V \<longleftrightarrow>
     pool_layout bn n Q \<and>
     block_inv bn 16 n m (block_addrs bn 16 n - used_nodes Q H V) \<and>
     used_nodes Q H V \<subseteq> block_addrs bn 16 n \<and>
     (\<forall>q\<in>Q. queue_view m q (V q)) \<and>
     (\<forall>q\<in>Q. H \<inter> fst ` set (V q) = {}) \<and>
     (\<forall>q\<in>Q. \<forall>q'\<in>Q. q \<noteq> q' \<longrightarrow> fst ` set (V q) \<inter> fst ` set (V q') = {})"

lemma UN_upd_insert: "q \<in> Q \<Longrightarrow> (\<Union>p\<in>Q. (f(q := insert x (f q))) p) = insert x (\<Union>p\<in>Q. f p)"
  by (auto split: if_splits)

lemma used_nodes_snoc:
  assumes "q \<in> Q"
  shows "used_nodes Q H (V(q := V q @ [(x, d)])) = used_nodes Q (insert x H) V"
proof -
  have "(\<lambda>p. fst ` set ((V(q := V q @ [(x, d)])) p)) =
      (\<lambda>p. fst ` set (V p))(q := insert x (fst ` set (V q)))"
    by (rule ext) simp
  then have "(\<Union>p\<in>Q. fst ` set ((V(q := V q @ [(x, d)])) p)) = insert x (\<Union>p\<in>Q. fst ` set (V p))"
    by (rule trans [OF arg_cong [where f = "\<lambda>f. \<Union> (f ` Q)"] UN_upd_insert [OF assms]])
  then show ?thesis by (simp only: used_nodes_def Un_insert_left Un_insert_right)
qed

lemma used_nodes_tail:
  assumes "q \<in> Q" and "V q = (x, d) # v"
  shows "used_nodes Q (insert x H) (V(q := v)) = used_nodes Q H V"
proof -
  have "(\<lambda>p. fst ` set (V p)) = (\<lambda>p. fst ` set ((V(q := v)) p))(q := insert x (fst ` set v))"
    using assms(2) by (intro ext) simp
  then have "(\<Union>p\<in>Q. fst ` set (V p)) = insert x (\<Union>p\<in>Q. fst ` set ((V(q := v)) p))"
  proof (rule trans [OF arg_cong [where f = "\<lambda>f. \<Union> (f ` Q)"]])
    show "\<Union> (((\<lambda>p. fst ` set ((V(q := v)) p))(q := insert x (fst ` set v))) ` Q) =
        insert x (\<Union>p\<in>Q. fst ` set ((V(q := v)) p))"
      using UN_upd_insert [OF assms(1), of "\<lambda>p. fst ` set ((V(q := v)) p)" x]
      by (simp only: fun_upd_same)
  qed
  then show ?thesis by (simp only: used_nodes_def Un_insert_left Un_insert_right)
qed

lemma pool_repD:
  assumes "pool_rep bn n Q m H V"
  shows "block_bound bn 16 n" and "H \<subseteq> block_addrs bn 16 n"
    and "q \<in> Q \<Longrightarrow> fst ` set (V q) \<subseteq> block_addrs bn 16 n"
    and "q \<in> Q \<Longrightarrow> queue_view m q (V q)"
    and "q \<in> Q \<Longrightarrow> H \<inter> fst ` set (V q) = {}"
    and "q \<in> Q \<Longrightarrow> q' \<in> Q \<Longrightarrow> q \<noteq> q' \<Longrightarrow> fst ` set (V q) \<inter> fst ` set (V q') = {}"
proof -
  have "used_nodes Q H V \<subseteq> block_addrs bn 16 n" using assms by (simp only: pool_rep_def)
  then show "H \<subseteq> block_addrs bn 16 n" and "q \<in> Q \<Longrightarrow> fst ` set (V q) \<subseteq> block_addrs bn 16 n"
    unfolding used_nodes_def by (blast, fast)
qed (use assms in \<open>simp_all add: pool_rep_def pool_layout_def\<close>)

text \<open>A cell of the nodes of one place is no cell of another.\<close>

lemma node_cells_disjoint:
  assumes b: "block_bound bn 16 n" and X: "X \<subseteq> block_addrs bn 16 n" and Y: "Y \<subseteq> block_addrs bn 16 n"
    and d: "X \<inter> Y = {}"
  shows "node_cells X \<inter> node_cells Y = {}"
  using node_apart(1) [OF b] X Y d unfolding node_cells_def by fastforce

lemma node_cells_header:
  "block_bound bn 16 n \<Longrightarrow> X \<subseteq> block_addrs bn 16 n \<Longrightarrow> node_cells X \<inter> header_of bn = {}"
  using node_apart(2,3) unfolding node_cells_def by fastforce

lemma node_cells_mono: "X \<subseteq> Y \<Longrightarrow> node_cells X \<subseteq> node_cells Y"
  by (auto simp: node_cells_def)

lemma pool_queue_cells:
  assumes rep: "pool_rep bn n Q m H V" and q: "q \<in> Q" and X: "X \<subseteq> block_addrs bn 16 n"
  shows "queue_cells q \<inter> header_of bn = {}" and "queue_cells q \<inter> node_cells X = {}"
    and "q' \<in> Q \<Longrightarrow> q \<noteq> q' \<Longrightarrow> queue_cells q \<inter> queue_cells q' = {}"
  using assms node_cells_mono [OF X] by (auto simp: pool_rep_def pool_layout_def)


lemma pool_fits:
  assumes rep: "pool_rep bn n Q m H V" and q: "q \<in> Q" and x: "x \<in> block_addrs bn 16 n"
  shows "queue_fits q x"
proof -
  have "queue_cells q \<inter> node_cells (block_addrs bn 16 n) = {}"
    by (rule pool_queue_cells(2) [OF rep q order.refl])
  then have "x \<notin> queue_cells q" using x by (auto simp: node_cells_def)
  then show ?thesis
    using node_apart(4) [OF pool_repD(1) [OF rep] x] by (simp add: queue_fits_def queue_cells_def)
qed

section \<open>What each operation moves\<close>

lemma pool_alloc:
  assumes rep: "pool_rep bn n Q m H V" and free: "used_nodes Q H V \<noteq> block_addrs bn 16 n"
  obtains x m' where "block_alloc m bn = (x, m')" and "x \<noteq> 0"
    and "x \<in> block_addrs bn 16 n" and "x \<notin> used_nodes Q H V"
    and "pool_rep bn n Q m' (insert x H) V" and "\<And>a. a \<notin> header_of bn \<Longrightarrow> m' a = m a"
proof -
  define A where "A = block_addrs bn 16 n - used_nodes Q H V"
  obtain x m' where al: "block_alloc m bn = (x, m')" by (cases "block_alloc m bn")
  have sub: "used_nodes Q H V \<subseteq> block_addrs bn 16 n" and inv: "block_inv bn 16 n m A"
    using rep by (simp_all add: pool_rep_def A_def)
  with free have "A \<noteq> {}" by (auto simp: A_def)
  from block_alloc_inv [OF inv this] al have x: "x \<in> A" "block_inv bn 16 n m' (A - {x})" by simp_all
  have oth: "m' a = m a" if "a \<notin> header_of bn" for a
    using block_alloc_other [OF that, of m] al by simp
  note b = pool_repD(1) [OF rep]
  have "queue_view m' q (V q)" if q: "q \<in> Q" for q
  proof (rule queue_view_agree [OF pool_repD(4) [OF rep q]], rule ballI)
    fix a assume "a \<in> queue_cells q \<union> node_cells (fst ` set (V q))"
    then have "a \<notin> header_of bn"
      using pool_queue_cells(1) [OF rep q order.refl] node_cells_header [OF b pool_repD(3) [OF rep q]]
      by blast
    then show "m' a = m a" by (rule oth)
  qed
  moreover have "used_nodes Q (insert x H) V = insert x (used_nodes Q H V)"
    by (simp add: used_nodes_def)
  moreover have "x \<notin> used_nodes Q H V" "x \<in> block_addrs bn 16 n" using x(1) by (simp_all add: A_def)
  moreover have "A - {x} = block_addrs bn 16 n - insert x (used_nodes Q H V)" by (auto simp: A_def)
  ultimately have "pool_rep bn n Q m' (insert x H) V"
    using rep x(2) sub unfolding pool_rep_def by (auto simp: used_nodes_def)
  moreover have "x \<noteq> 0" using block_inv_nonzero [OF inv] x(1) by auto
  ultimately show thesis
    using that al oth \<open>x \<in> block_addrs bn 16 n\<close> \<open>x \<notin> used_nodes Q H V\<close> by simp
qed

text \<open>Writing cells of nodes in hand only.\<close>

lemma pool_write:
  assumes rep: "pool_rep bn n Q m H V" and x: "x \<in> H"
  shows "pool_rep bn n Q (m(x + 8 := d)) H V"
proof -
  note b = pool_repD(1) [OF rep]
  have xn: "x \<in> block_addrs bn 16 n" using pool_repD(2) [OF rep] x by blast
  have "x + 8 \<in> node_cells {x}" by (simp add: node_cells_def)
  have "block_inv bn 16 n (m(x + 8 := d)) (block_addrs bn 16 n - used_nodes Q H V)"
  proof (rule block_inv_agree)
    show "block_inv bn 16 n m (block_addrs bn 16 n - used_nodes Q H V)"
      using rep by (simp add: pool_rep_def)
    show "\<forall>a\<in>header_of bn \<union> (block_addrs bn 16 n - used_nodes Q H V). (m(x + 8 := d)) a = m a"
      using node_apart(3) [OF b xn] node_apart(1) [OF b _ xn] by auto
  qed
  moreover have "queue_view (m(x + 8 := d)) q (V q)" if q: "q \<in> Q" for q
  proof (rule queue_view_agree [OF pool_repD(4) [OF rep q]], rule ballI)
    fix a assume a: "a \<in> queue_cells q \<union> node_cells (fst ` set (V q))"
    have "{x} \<inter> fst ` set (V q) = {}" using pool_repD(5) [OF rep q] x by blast
    then have "x + 8 \<notin> queue_cells q \<union> node_cells (fst ` set (V q))"
      using node_cells_disjoint [OF b _ pool_repD(3) [OF rep q], of "{x}"]
        pool_queue_cells(2) [OF rep q, of "{x}"] xn \<open>x + 8 \<in> node_cells {x}\<close> by blast
    with a show "(m(x + 8 := d)) a = m a" by auto
  qed
  ultimately show ?thesis using rep by (simp add: pool_rep_def)
qed

lemma pool_enqueue:
  assumes rep: "pool_rep bn n Q m (insert x H) V" and q: "q \<in> Q" and xH: "x \<notin> H"
    and d: "m (x + 8) = d"
  shows "pool_rep bn n Q (queue_enqueue m q x) H (V(q := V q @ [(x, d)]))"
    and "a \<notin> queue_cells q \<Longrightarrow> a \<notin> node_cells (block_addrs bn 16 n) \<Longrightarrow> queue_enqueue m q x a = m a"
proof -
  let ?m = "queue_enqueue m q x" and ?V = "V(q := V q @ [(x, d)])"
  note b = pool_repD(1) [OF rep]
  have xn: "x \<in> block_addrs bn 16 n" and xq: "x \<notin> fst ` set (V q)"
    using pool_repD(2) [OF rep] pool_repD(5) [OF rep q] by auto
  have fits: "queue_fits q x" by (rule pool_fits [OF rep q xn])
  have at: "queue_at m q (map fst (V q))" using pool_repD(4) [OF rep q] by (simp add: queue_view_def)
  have fr: "?m a = m a" if "a \<notin> queue_cells q" "a \<noteq> x" "a \<notin> fst ` set (V q)" for a
    by (rule queue_enqueue_frame [OF at]) (use that fits in auto)
  show "?m a = m a" if "a \<notin> queue_cells q" "a \<notin> node_cells (block_addrs bn 16 n)"
    using that xn pool_repD(3) [OF rep q] by (intro fr) (auto simp: node_cells_def)
  have used: "used_nodes Q H ?V = used_nodes Q (insert x H) V"
    using q by (rule used_nodes_snoc)
  have inv: "block_inv bn 16 n ?m (block_addrs bn 16 n - used_nodes Q H ?V)"
    unfolding used
  proof (rule block_inv_agree)
    show "block_inv bn 16 n m (block_addrs bn 16 n - used_nodes Q (insert x H) V)"
      using rep by (simp add: pool_rep_def)
    show "\<forall>a\<in>header_of bn \<union> (block_addrs bn 16 n - used_nodes Q (insert x H) V). ?m a = m a"
    proof
      fix a assume a: "a \<in> header_of bn \<union> (block_addrs bn 16 n - used_nodes Q (insert x H) V)"
      have "a \<notin> queue_cells q"
        using a pool_queue_cells(1,2) [OF rep q order.refl] by (auto simp: node_cells_def)
      moreover have "a \<noteq> x" "a \<notin> fst ` set (V q)"
        using a node_apart(2) [OF b] xn pool_repD(3) [OF rep q] q by (auto simp: used_nodes_def)
      ultimately show "?m a = m a" by (rule fr)
    qed
  qed
  have view_q: "queue_view ?m q (V q @ [(x, d)])"
  proof -
    have dat: "?m (y + 8) = m (y + 8)" if y: "y \<in> insert x (fst ` set (V q))" for y
    proof (rule fr)
      have yn: "y \<in> block_addrs bn 16 n" using y xn pool_repD(3) [OF rep q] by auto
      show "y + 8 \<notin> queue_cells q"
        using pool_queue_cells(2) [OF rep q order.refl] yn by (auto simp: node_cells_def)
      show "y + 8 \<noteq> x" "y + 8 \<notin> fst ` set (V q)"
        using node_apart(1) [OF b _ yn] xn pool_repD(3) [OF rep q] by (metis, blast)
    qed
    have "\<forall>p\<in>set (V q). ?m (fst p + 8) = snd p"
      using dat pool_repD(4) [OF rep q] by (simp add: queue_view_def)
    moreover have "?m (x + 8) = d" using dat d by simp
    moreover have "queue_at ?m q (map fst (V q) @ [x])"
      by (rule queue_enqueue_at [OF at fits]) (use xq in simp)
    ultimately show ?thesis by (simp add: queue_view_def)
  qed
  have "queue_view ?m q' (?V q')" if q': "q' \<in> Q" for q'
  proof (cases "q' = q")
    case True
    with view_q show ?thesis by simp
  next
    case False
    have "queue_view ?m q' (V q')"
    proof (rule queue_view_agree [OF pool_repD(4) [OF rep q']], rule ballI, rule fr)
      fix a assume a: "a \<in> queue_cells q' \<union> node_cells (fst ` set (V q'))"
      have dis: "node_cells (fst ` set (V q')) \<inter> node_cells (insert x (fst ` set (V q))) = {}"
        by (rule node_cells_disjoint [OF b pool_repD(3) [OF rep q']])
          (use xn pool_repD(3) [OF rep q] pool_repD(5) [OF rep q'] pool_repD(6) [OF rep q' q] False in auto)
      show "a \<notin> queue_cells q"
        using a pool_queue_cells(3) [OF rep q' order.refl q] False
          pool_queue_cells(2) [OF rep q pool_repD(3) [OF rep q']] by blast
      have "insert x (fst ` set (V q)) \<subseteq> block_addrs bn 16 n" using xn pool_repD(3) [OF rep q] by simp
      then have "queue_cells q' \<inter> node_cells (insert x (fst ` set (V q))) = {}"
        by (rule pool_queue_cells(2) [OF rep q'])
      with a dis have "a \<notin> node_cells (insert x (fst ` set (V q)))" by blast
      then show "a \<noteq> x" "a \<notin> fst ` set (V q)" by (auto simp: node_cells_def)
    qed
    with False show ?thesis by simp
  qed
  moreover have "used_nodes Q H ?V \<subseteq> block_addrs bn 16 n" using rep used by (simp add: pool_rep_def)
  moreover have "H \<inter> fst ` set (?V q') = {}" if "q' \<in> Q" for q'
    using pool_repD(5) [OF rep that] xH by (auto split: if_splits)
  moreover have "fst ` set (?V q1) \<inter> fst ` set (?V q2) = {}" if "q1 \<in> Q" "q2 \<in> Q" "q1 \<noteq> q2" for q1 q2
    using pool_repD(6) [OF rep that] pool_repD(5) [OF rep that(1)] pool_repD(5) [OF rep that(2)] that(3)
    by (auto simp del: disjoint_iff)
  ultimately show "pool_rep bn n Q ?m H ?V"
    using rep inv unfolding pool_rep_def by simp
qed


lemma pool_dequeue:
  assumes rep: "pool_rep bn n Q m H V" and q: "q \<in> Q" and v: "V q = (x, d) # v"
  obtains m' where "queue_dequeue m q = (x, m')" and "m' (x + 8) = d" and "x \<notin> H"
    and "x \<in> block_addrs bn 16 n"
    and "pool_rep bn n Q m' (insert x H) (V(q := v))" and "\<And>a. a \<notin> queue_cells q \<Longrightarrow> m' a = m a"
proof -
  let ?V = "V(q := v)"
  obtain y m' where de: "queue_dequeue m q = (y, m')" by (cases "queue_dequeue m q")
  note b = pool_repD(1) [OF rep]
  have at: "queue_at m q (x # map fst v)" using pool_repD(4) [OF rep q] by (simp add: queue_view_def v)
  from queue_dequeue_Cons [OF at] de have y: "y = x" "queue_at m' q (map fst v)" by simp_all
  have oth: "m' a = m a" if "a \<notin> queue_cells q" for a
    using queue_dequeue_other [of a q m] that de by (simp add: queue_cells_def)
  have xn: "x \<in> block_addrs bn 16 n" and xH: "x \<notin> H"
    using pool_repD(3) [OF rep q] pool_repD(5) [OF rep q] v by auto
  have xv: "x \<notin> fst ` set v" using queue_at_distinct [OF at] by simp
  have nq: "a \<notin> queue_cells q" if "a \<in> node_cells (block_addrs bn 16 n)" for a
    using pool_queue_cells(2) [OF rep q order.refl] that by blast
  have "x + 8 \<in> node_cells (block_addrs bn 16 n)" using xn by (simp add: node_cells_def)
  then have dat: "m' (x + 8) = d"
    using pool_repD(4) [OF rep q] v oth nq by (simp add: queue_view_def)
  have used: "used_nodes Q (insert x H) ?V = used_nodes Q H V" using q v by (rule used_nodes_tail)
  have "block_inv bn 16 n m' (block_addrs bn 16 n - used_nodes Q (insert x H) ?V)"
    unfolding used
  proof (rule block_inv_agree)
    show "block_inv bn 16 n m (block_addrs bn 16 n - used_nodes Q H V)"
      using rep by (simp add: pool_rep_def)
    show "\<forall>a\<in>header_of bn \<union> (block_addrs bn 16 n - used_nodes Q H V). m' a = m a"
      using pool_queue_cells(1) [OF rep q order.refl] nq by (auto intro!: oth simp: node_cells_def)
  qed
  moreover have "queue_view m' q' (?V q')" if q': "q' \<in> Q" for q'
  proof (cases "q' = q")
    case True
    have "m' (fst p + 8) = m (fst p + 8)" if "p \<in> set v" for p
    proof (rule oth, rule nq)
      have "fst p \<in> block_addrs bn 16 n" using pool_repD(3) [OF rep q] v that by auto
      then show "fst p + 8 \<in> node_cells (block_addrs bn 16 n)" by (simp add: node_cells_def)
    qed
    then show ?thesis using True y(2) pool_repD(4) [OF rep q] v by (simp add: queue_view_def)
  next
    case False
    have "queue_view m' q' (V q')"
    proof (rule queue_view_agree [OF pool_repD(4) [OF rep q']], rule ballI, rule oth)
      fix a assume "a \<in> queue_cells q' \<union> node_cells (fst ` set (V q'))"
      then show "a \<notin> queue_cells q"
        using pool_queue_cells(3) [OF rep q' order.refl q] False
          pool_queue_cells(2) [OF rep q pool_repD(3) [OF rep q']] by blast
    qed
    with False show ?thesis by simp
  qed
  moreover have "insert x H \<inter> fst ` set (?V q') = {}" if "q' \<in> Q" for q'
    using pool_repD(5) [OF rep that] pool_repD(6) [OF rep q that] xv v by (cases "q' = q") auto
  moreover have "fst ` set (?V q1) \<inter> fst ` set (?V q2) = {}" if "q1 \<in> Q" "q2 \<in> Q" "q1 \<noteq> q2" for q1 q2
  proof -
    have "fst ` set (?V q') \<subseteq> fst ` set (V q')" for q' using v by auto
    then show ?thesis using pool_repD(6) [OF rep that] by blast
  qed
  moreover have "used_nodes Q (insert x H) ?V \<subseteq> block_addrs bn 16 n"
    using rep used by (simp add: pool_rep_def)
  ultimately have "pool_rep bn n Q m' (insert x H) ?V"
    using rep unfolding pool_rep_def by simp
  with that de y(1) dat xH xn oth show thesis by simp
qed

lemma pool_free:
  assumes rep: "pool_rep bn n Q m (insert x H) V" and xH: "x \<notin> H"
  obtains m' where "block_free m bn x = Inr m'" and "pool_rep bn n Q m' H V"
    and "\<And>a. a \<notin> header_of bn \<Longrightarrow> a \<noteq> x \<Longrightarrow> m' a = m a"
proof -
  define U where "U = used_nodes Q (insert x H) V"
  note b = pool_repD(1) [OF rep]
  have xn: "x \<in> block_addrs bn 16 n" using pool_repD(2) [OF rep] by simp
  have inv: "block_inv bn 16 n m (block_addrs bn 16 n - U)" using rep by (simp add: pool_rep_def U_def)
  have "x \<notin> block_addrs bn 16 n - U" by (simp add: U_def used_nodes_def)
  from block_free_inv [OF inv xn this] obtain m' where m': "block_free m bn x = Inr m'"
    "block_inv bn 16 n m' (insert x (block_addrs bn 16 n - U))" by blast
  have oth: "m' a = m a" if "a \<notin> header_of bn" "a \<noteq> x" for a
    using block_free_other [OF m'(1) that] .
  have xV: "x \<notin> fst ` set (V q)" if "q \<in> Q" for q using pool_repD(5) [OF rep that] by blast
  have "U = insert x (used_nodes Q H V)" "x \<notin> used_nodes Q H V"
    using xH xV by (auto simp: U_def used_nodes_def simp del: image_iff)
  then have A: "insert x (block_addrs bn 16 n - U) = block_addrs bn 16 n - used_nodes Q H V"
    and sub: "used_nodes Q H V \<subseteq> block_addrs bn 16 n"
    using xn rep by (auto simp: pool_rep_def U_def)
  have "queue_view m' q (V q)" if q: "q \<in> Q" for q
  proof (rule queue_view_agree [OF pool_repD(4) [OF rep q]], rule ballI, rule oth)
    fix a assume a: "a \<in> queue_cells q \<union> node_cells (fst ` set (V q))"
    then show "a \<notin> header_of bn"
      using pool_queue_cells(1) [OF rep q order.refl] node_cells_header [OF b pool_repD(3) [OF rep q]]
      by blast
    have "{x} \<inter> fst ` set (V q) = {}" using xV [OF q] by blast
    then have "node_cells {x} \<inter> node_cells (fst ` set (V q)) = {}"
      by (intro node_cells_disjoint [OF b _ pool_repD(3) [OF rep q]]) (use xn in simp)
    moreover have "queue_cells q \<inter> node_cells {x} = {}"
      by (rule pool_queue_cells(2) [OF rep q]) (use xn in simp)
    ultimately show "a \<noteq> x" using a by (auto simp: node_cells_def)
  qed
  then have "pool_rep bn n Q m' H V"
    using rep m'(2) A sub unfolding pool_rep_def by simp
  with that m'(1) oth show thesis by simp
qed


section \<open>A fresh pool\<close>

lemma pool_rep_empty:
  assumes "pool_layout bn n Q" and "block_inv bn 16 n m (block_addrs bn 16 n)" and "\<forall>q\<in>Q. m q = 0"
  shows "pool_rep bn n Q m {} (\<lambda>_. [])"
  using assms by (simp add: pool_rep_def used_nodes_def queue_view_def queue_at_def)

lemma queue_inits_other:
  "\<forall>q\<in>set qs. a \<notin> queue_cells q \<Longrightarrow> foldl queue_init m qs a = m a"
  by (induction qs arbitrary: m) (auto simp: queue_init_def queue_cells_def)

lemma queue_inits_zero: "m a = 0 \<Longrightarrow> foldl queue_init m qs a = 0"
  by (induction qs arbitrary: m) (auto simp: queue_init_def)

lemma queue_inits_head: "q \<in> set qs \<Longrightarrow> foldl queue_init m qs q = 0"
proof (induction qs arbitrary: m)
  case (Cons x qs)
  then show ?case
  proof (cases "x = q")
    case True
    then have "queue_init m x q = 0" by (simp add: queue_init_def)
    then show ?thesis by (simp add: queue_inits_zero)
  qed simp
qed simp

lemma pool_rep_init:
  assumes lay: "pool_layout bn n (set qs)" and inv: "block_inv bn 16 n m (block_addrs bn 16 n)"
  shows "pool_rep bn n (set qs) (foldl queue_init m qs) {} (\<lambda>_. [])"
proof (rule pool_rep_empty [OF lay])
  show "block_inv bn 16 n (foldl queue_init m qs) (block_addrs bn 16 n)"
  proof (rule block_inv_agree [OF inv], rule ballI, rule queue_inits_other, rule ballI)
    fix a q assume "a \<in> header_of bn \<union> block_addrs bn 16 n" and "q \<in> set qs"
    moreover from this(2) lay have "queue_cells q \<inter> (header_of bn \<union> node_cells (block_addrs bn 16 n)) = {}"
      by (simp add: pool_layout_def)
    ultimately show "a \<notin> queue_cells q" by (auto simp: node_cells_def)
  qed
  show "\<forall>q\<in>set qs. foldl queue_init m qs q = 0" by (simp add: queue_inits_head)
qed

end
