(* ===== verification/MapPage.thy ===== *)
theory MapPage
  imports Paging
begin

text \<open>
  Mapping fresh pages one after the other through \<open>virt_map_page\<close>, as the ELF loader does: what
  a client may write between two mappings, that a fresh page belongs to nobody else, and that
  mapping an address twice stops the machine.
\<close>

text \<open>A memory that agrees with the old one on the cells of the tables gives the same translations.\<close>

lemma tables_agree:
  assumes tab: "\<And>a. table_cell m T a \<Longrightarrow> m' a = m a"
  shows "is_path ys \<Longrightarrow> walk m' T ys = walk m T ys"
    and "is_path ys \<Longrightarrow> j < 512 \<Longrightarrow> entry_at m' T ys j = entry_at m T ys j"
    and "translate m' T v = translate m T v" and "table_cell m' T a = table_cell m T a"
    and "tables_inv s B A m T \<Longrightarrow> tables_inv s B A m' T"
proof -
  have cell: "entries m' (PHYS_TO_VIRT X) j = entries m (PHYS_TO_VIRT X) j"
    if "is_path is" "walk m T is = Some X" "j < 512" for "is" X j
    using that by (intro tab) (auto simp: table_cell_def)
  have ag: "agree_but m m' T [0, 0, 0, 0] 0"
    unfolding agree_but_def using cell by blast
  show walks: "walk m' T ys = walk m T ys" if "is_path ys" for ys
    by (rule walk_agree [OF ag that]) (use that in \<open>auto simp: is_path_def\<close>)
  show ent: "entry_at m' T ys j = entry_at m T ys j" if "is_path ys" "j < 512" for ys j
    using walks [OF that(1)] cell [OF that(1) _ that(2)] by (auto simp: entry_at_def split: option.splits)
  show "translate m' T v = translate m T v"
    using ent [OF paths(3) index_less(3)] ent [OF paths(4) index_less(4)] by (simp add: translate_def)
  show "table_cell m' T a = table_cell m T a" unfolding table_cell_def using walks by metis
  show "tables_inv s B A m' T" if tb: "tables_inv s B A m T"
    unfolding tables_inv_def
  proof (intro conjI allI impI, goal_cases)
    case (3 "is" k)
    then have "entry_at m' T is k = entry_at m T is k" by (intro ent) auto
    with 3 tables_upper [OF tb] show ?case by metis
  qed (use walks tables_ok [OF tb] tables_unique [OF tb] in \<open>metis+\<close>)
qed

text \<open>If it agrees on the cells of the allocator too, the structure stays well-formed.\<close>

lemma pt_inv_agree:
  assumes inv: "pt_inv s B A st T"
    and own: "\<And>a. own_cells s B A a \<Longrightarrow> m' a = pmem st a"
    and tab: "\<And>a. table_cell (pmem st) T a \<Longrightarrow> m' a = pmem st a"
  shows "pt_inv s B A (st \<lparr> pmem := m' \<rparr>) T" and "translate m' T v = translate (pmem st) T v"
    and "is_path ys \<Longrightarrow> walk m' T ys = walk (pmem st) T ys"
proof -
  note ag = tables_agree [of "pmem st" T m', OF tab]
  show "translate m' T v = translate (pmem st) T v" and "is_path ys \<Longrightarrow> walk m' T ys = walk (pmem st) T ys"
    using ag(1,3) by blast+
  have "frames_inv s B (st \<lparr> pmem := m' \<rparr>) A"
    using inv own by (intro fa.write_other) (auto simp: pt_inv_def)
  then show "pt_inv s B A (st \<lparr> pmem := m' \<rparr>) T" using inv ag(5) by (simp add: pt_inv_def)
qed

text \<open>Mapping a page that is mapped already stops the machine.\<close>

lemma map_mapped_page:
  assumes inv: "pt_inv s B A st T" and pages: "3 \<le> card A" and mapped: "translate (pmem st) T v \<noteq> None"
  shows "virt_map_phys st T v pa flags PAGE_SMALL = Inl (Panic (''Address already mapped!'' @ newline))"
proof -
  let ?fl = "flags AND PG_SAFE_FLAGS"
  from find_pd [OF inv pages, of v pa flags PAGE_SMALL] obtain st2 A2 P where
    m: "virt_map_phys st T v pa flags PAGE_SMALL = map_in_pd st2 (PHYS_TO_VIRT P) v pa ?fl PAGE_SMALL"
      "pt_inv s B A2 st2 T" "walk (pmem st2) T (pd_path v) = Some P"
      "\<forall>w. translate (pmem st2) T w = translate (pmem st) T w" by blast
  define e where "e = entries (pmem st2) (PHYS_TO_VIRT P) (PDT_INDEX v)"
  have e: "entry_at (pmem st2) T (pd_path v) (PDT_INDEX v) = e" using m(3) by (simp add: entry_at_def e_def)
  have t: "translate (pmem st2) T v \<noteq> None" using mapped m(4) by simp
  then have pe: "present e" by (auto simp: translate_def e Let_def)
  show ?thesis
  proof (cases "large e")
    case True
    then show ?thesis using pe by (simp add: m(1) map_in_pd_def Let_def flip: e_def)
  next
    case False
    then have "walk (pmem st2) T (pt_path v) = Some (entry_table e)"
      using pe e walk_snoc [of "pmem st2" T "pd_path v" "PDT_INDEX v"] by (simp add: Let_def)
    then have "present (entries (pmem st2) (PHYS_TO_VIRT (entry_table e)) (PT_INDEX v))"
      using t pe False by (auto simp: translate_def e Let_def entry_at_def split: if_splits)
    then show ?thesis
      using pe False by (simp add: m(1) map_in_pd_def ensure_table_def Let_def flip: e_def)
  qed
qed


text \<open>A stack slot of the kernel: a cell of neither the allocator nor a table.\<close>

definition slot_ok :: "addr \<Rightarrow> addr set \<Rightarrow> addr set \<Rightarrow> phys \<Rightarrow> addr \<Rightarrow> addr \<Rightarrow> bool" where
  "slot_ok s B A st T slot \<longleftrightarrow> slot \<noteq> 0 \<and> \<not> own_cells s B A slot \<and> \<not> table_cell (pmem st) T slot"

lemma alloc_page_keeps_tables:
  assumes inv: "pt_inv s B A st T" and ne: "A \<noteq> {}"
  obtains p st1 where "phys_alloc_4KIB st = Inr (p, st1)" and "p \<in> A" and "p \<noteq> 0" and "MASK_4KIB p = p"
    and "pt_inv s B (A - {p}) st1 T" and "\<forall>a. \<not> own_cells s B A a \<longrightarrow> pmem st1 a = pmem st a"
    and "\<forall>v. translate (pmem st1) T v = translate (pmem st) T v"
    and "\<forall>ys. is_path ys \<longrightarrow> walk (pmem st1) T ys = walk (pmem st) T ys"
proof -
  have fr: "frames_inv s B st A" and tb: "tables_inv s B A (pmem st) T" using inv by (simp_all add: pt_inv_def)
  from fa.alloc_some [OF fr ne] obtain p st1 where
    al: "phys_alloc_4KIB st = Inr (p, st1)" "p \<in> A" "frames_inv s B st1 (A - {p})" by blast
  have oth: "pmem st1 a = pmem st a" if "\<not> own_cells s B A a" for a
    by (rule fa.alloc_frame [OF fr ne al(1) that])
  have p0: "p \<noteq> 0" using fa.nonzero [OF fr] al(2) by auto
  have tab: "\<not> own_cells s B A a" if "table_cell (pmem st) T a" for a
    using that tables_ok [OF tb] unfolding table_cell_def table_ok_def by blast
  define st0 where "st0 = st \<lparr> pmem := pmem st1 \<rparr>"
  have ag: "agree_but (pmem st) (pmem st1) T [0, 0, 0, 0] 0"
    unfolding agree_but_def using oth tab unfolding table_cell_def by blast
  have walks: "walk (pmem st1) T ys = walk (pmem st) T ys" if "is_path ys" for ys
    by (rule walk_agree [OF ag that]) (use that in \<open>auto simp: is_path_def\<close>)
  have ent: "entry_at (pmem st1) T ys j = entry_at (pmem st) T ys j" if y: "is_path ys" "j < 512" for ys j
  proof (cases "walk (pmem st) T ys")
    case None
    then show ?thesis using walks [OF y(1)] by (simp add: entry_at_def)
  next
    case (Some X)
    then have "table_cell (pmem st) T (PHYS_TO_VIRT X + 8 * j)" using y unfolding table_cell_def by blast
    then show ?thesis using walks [OF y(1)] Some oth tab by (simp add: entry_at_def)
  qed
  have tr: "translate (pmem st1) T v = translate (pmem st) T v" for v
    using ent [OF paths(3) index_less(3)] ent [OF paths(4) index_less(4)] by (simp add: translate_def)
  have "tables_inv s B (A - {p}) (pmem st1) T"
    unfolding tables_inv_def
  proof (intro conjI allI impI, goal_cases)
    case (1 "is" X)
    then have "table_ok s B A X" using walks tables_ok [OF tb] by metis
    then show ?case by (rule table_ok_mono) blast
  next
    case (2 "is" js X)
    then show ?case using walks tables_unique [OF tb] by metis
  next
    case (3 "is" k)
    then have "entry_at (pmem st1) T is k = entry_at (pmem st) T is k" by (intro ent) auto
    with 3 tables_upper [OF tb] show ?case by metis
  qed
  then have "pt_inv s B (A - {p}) st1 T" using al(3) inv by (simp add: pt_inv_def)
  moreover have "MASK_4KIB p = p" using fr al(2) by (rule fa.page_aligned)
  ultimately show thesis using that al(1,2) p0 oth tr walks by blast
qed

text \<open>
  One page mapped through \<open>virt_map_page\<close>: a page \<open>p\<close> of its own, whose address is in the slot
  and whose cells belong to neither the tables nor the allocator.
\<close>

lemma virt_map_page_small:
  assumes inv: "pt_inv s B A st T" and pages: "4 \<le> card A" and free: "translate (pmem st) T v = None"
    and slot: "slot_ok s B A st T slot"
  shows "\<exists>st' A' p. virt_map_page st T v flags PAGE_SMALL slot = Inr (1, st') \<and> p \<in> A \<and> A' \<subseteq> A - {p} \<and>
    MASK_4KIB p = p \<and> pmem st' slot = p \<and> pt_inv s B A' st' T \<and> slot_ok s B A' st' T slot \<and>
    (\<forall>a. MASK_4KIB a = PHYS_TO_VIRT p \<longrightarrow> \<not> own_cells s B A' a \<and> \<not> table_cell (pmem st') T a) \<and>
    (\<forall>w. same_page v w \<longrightarrow> translate (pmem st') T w = Some (p + (w AND 0xFFF))) \<and> card A \<le> card A' + 4"
proof -
  have ne: "A \<noteq> {}" using pages by auto
  have fr: "frames_inv s B st A" using inv by (simp add: pt_inv_def)
  obtain p st1 where al: "phys_alloc_4KIB st = Inr (p, st1)" "p \<in> A" "p \<noteq> 0" "MASK_4KIB p = p"
    "pt_inv s B (A - {p}) st1 T" and oth: "\<forall>a. \<not> own_cells s B A a \<longrightarrow> pmem st1 a = pmem st a"
    and tr: "\<forall>v. translate (pmem st1) T v = translate (pmem st) T v"
    and wk: "\<forall>ys. is_path ys \<longrightarrow> walk (pmem st1) T ys = walk (pmem st) T ys"
    by (rule alloc_page_keeps_tables [OF inv ne])
  have cells1: "table_cell (pmem st1) T a = table_cell (pmem st) T a" for a
    unfolding table_cell_def using wk by metis
  have slot1: "\<not> own_cells s B (A - {p}) slot" "\<not> table_cell (pmem st1) T slot" "slot \<noteq> 0"
    using slot own_cells_mono [of "A - {p}" A s B slot] by (auto simp: slot_ok_def cells1)
  define m2 where "m2 = (pmem st1)(slot := p)"
  define st2 where "st2 = st1 \<lparr> pmem := m2 \<rparr>"
  have inv2: "pt_inv s B (A - {p}) st2 T" and tr2: "translate m2 T w = translate (pmem st1) T w"
    and wk2: "is_path ys \<Longrightarrow> walk m2 T ys = walk (pmem st1) T ys" for w ys
    unfolding st2_def by (rule pt_inv_agree [OF al(5)]; use slot1 in \<open>auto simp: m2_def\<close>)+
  have cells2: "table_cell m2 T a = table_cell (pmem st) T a" for a
    unfolding table_cell_def using wk wk2 by metis
  have fin: "finite A" using pages by (metis card.infinite not_numeral_le_zero)
  have "3 \<le> card (A - {p})" using pages al(2) fin by simp
  moreover have "translate (pmem st2) T v = None" by (simp add: st2_def tr2 tr free)
  moreover have "p < 2 ^ 63" using frames_page_below [OF inv al(2)] by (simp add: word_less_nat_alt)
  ultimately obtain st3 A3 where s3: "virt_map_phys st2 T v p flags PAGE_SMALL = Inr (1, st3)" "A3 \<subseteq> A - {p}"
    "pt_inv s B A3 st3 T"
    "\<forall>w. translate (pmem st3) T w = (if same_page v w then Some (MASK_4KIB p + (w AND 0xFFF)) else translate (pmem st2) T w)"
    "grown s B (A - {p}) (pmem st2) (pmem st3) T" "card (A - {p}) \<le> card A3 + 3"
    using map_small_page [OF inv2, of v p flags] by blast
  have fr2: "frames_inv s B st2 (A - {p})" using inv2 by (simp add: pt_inv_def)
  have cells3: "\<not> own_cells s B A3 a \<and> \<not> table_cell (pmem st3) T a \<and> pmem st3 a = m2 a"
    if a: "\<not> own_cells s B (A - {p}) a" "\<not> table_cell (pmem st) T a" for a
  proof -
    have "\<not> table_cell (pmem st2) T a" using a(2) by (simp add: st2_def cells2)
    then have "\<not> table_cell (pmem st3) T a" "pmem st3 a = m2 a"
      using grown_table_cell [OF s3(5) fr2, of a] a(1) s3(5) by (auto simp: grown_def st2_def)
    then show ?thesis using own_cells_mono [OF s3(2)] a(1) by blast
  qed
  have "\<not> own_cells s B A3 a \<and> \<not> table_cell (pmem st3) T a" if "MASK_4KIB a = PHYS_TO_VIRT p" for a
  proof -
    have "\<not> table_cell (pmem st) T a"
    proof
      assume "table_cell (pmem st) T a"
      then have "\<not> own_cells s B A a"
        using inv unfolding pt_inv_def tables_inv_def table_cell_def table_ok_def by blast
      then show False using fa.own_avail [OF fr al(2) that] by simp
    qed
    then show ?thesis using cells3 fa.own_page [OF fr al(2) that] by blast
  qed
  moreover have "slot_ok s B A3 st3 T slot" "pmem st3 slot = p"
    using cells3 [OF slot1(1)] slot slot1(3) by (auto simp: slot_ok_def m2_def)
  moreover have "virt_map_page st T v flags PAGE_SMALL slot = Inr (1, st3)"
    using s3(1) al(1,3) slot1(3) by (simp add: virt_map_page_def st2_def m2_def Let_def)
  moreover have "\<forall>w. same_page v w \<longrightarrow> translate (pmem st3) T w = Some (p + (w AND 0xFFF))"
    using s3(4) al(4) by simp
  moreover have "card A \<le> card A3 + 4" using s3(6) al(2) fin by simp
  ultimately show ?thesis using al(2,4) s3(2,3) by (intro exI [of _ st3] exI [of _ A3] exI [of _ p]) auto
qed


lemma mask_9: "(0x1FF :: u64) = mask 9"
  by (simp add: mask_eq_exp_minus_1)

lemma table_cell_cong:
  "(\<And>ys. is_path ys \<Longrightarrow> walk m T ys = walk m' T ys) \<Longrightarrow> table_cell m T a = table_cell m' T a"
  unfolding table_cell_def by metis

lemma same_page_mask:
  assumes "MASK_4KIB v = MASK_4KIB w"
  shows "same_page v w"
proof -
  have "bit v n = bit w n" if "12 \<le> n" "n < 64" for n
  proof -
    have "bit (MASK_4KIB v) n = bit (MASK_4KIB w) n" using assms by simp
    with that show ?thesis unfolding MASK_4KIB_def mask_12 by (simp add: bit_simps)
  qed
  then show ?thesis
    unfolding same_page_def same_large_page_def PML4_INDEX_def PDPT_INDEX_def PDT_INDEX_def PT_INDEX_def
    by (simp only: mask_9) (auto intro!: bit_word_eqI simp: bit_simps)
qed

text \<open>Addresses of one page.\<close>

lemma page_offset_add:
  assumes "unat (v AND 0xFFF) + unat d < 2 ^ 12"
  shows "MASK_4KIB (v + d) = MASK_4KIB v" and "(v + d) AND 0xFFF = (v AND 0xFFF) + d"
proof -
  define l where "l = (v AND mask 12) + d"
  have l: "unat l < 2 ^ 12" using assms by (simp add: l_def unat_word_ariths mask_eq_exp_minus_1)
  have vd: "v + d = MASK_4KIB v + l" using MASK_plus_low(2) [of v] by (simp add: l_def add.assoc [symmetric])
  show m: "MASK_4KIB (v + d) = MASK_4KIB v" unfolding vd by (rule MASK_4KIB_off(1) [OF MASK_4KIB_idem l])
  have "MASK_4KIB (v + d) + ((v + d) AND mask 12) = v + d" by (rule MASK_plus_low(2) [symmetric])
  then have "(v + d) AND mask 12 = l" unfolding m by (simp add: vd)
  then show "(v + d) AND 0xFFF = (v AND 0xFFF) + d" by (simp add: l_def mask_eq_exp_minus_1)
qed

text \<open>Through \<open>virt_map_page\<close> too, a page that is mapped already stops the machine.\<close>

lemma virt_map_page_mapped:
  assumes inv: "pt_inv s B A st T" and pages: "4 \<le> card A" and slot: "slot_ok s B A st T slot"
    and mapped: "translate (pmem st) T v \<noteq> None"
  shows "virt_map_page st T v flags PAGE_SMALL slot = Inl (Panic (''Address already mapped!'' @ newline))"
proof -
  have A: "A \<noteq> {}" "finite A" using pages by (auto intro: card_ge_0_finite)
  obtain q st1 where al: "phys_alloc_4KIB st = Inr (q, st1)" "q \<in> A" "q \<noteq> 0" "pt_inv s B (A - {q}) st1 T"
    and tr1: "\<forall>v. translate (pmem st1) T v = translate (pmem st) T v"
    and wk1: "\<forall>ys. is_path ys \<longrightarrow> walk (pmem st1) T ys = walk (pmem st) T ys"
    by (rule alloc_page_keeps_tables [OF inv A(1)])
  have "table_cell (pmem st1) T slot = table_cell (pmem st) T slot" by (intro table_cell_cong) (simp add: wk1)
  then have slot1: "\<not> own_cells s B (A - {q}) slot" "\<not> table_cell (pmem st1) T slot" "slot \<noteq> 0"
    using slot own_cells_mono [of "A - {q}" A s B slot] by (auto simp: slot_ok_def)
  define st2 where "st2 = st1 \<lparr> pmem := (pmem st1)(slot := q) \<rparr>"
  have inv2: "pt_inv s B (A - {q}) st2 T" and tr2: "translate ((pmem st1)(slot := q)) T w = translate (pmem st1) T w" for w
    unfolding st2_def by (rule pt_inv_agree [OF al(4)]; use slot1 in auto)+
  have "virt_map_phys st2 T v q flags PAGE_SMALL = Inl (Panic (''Address already mapped!'' @ newline))"
  proof (rule map_mapped_page [OF inv2])
    show "3 \<le> card (A - {q})" using pages al(2) A(2) by simp
    show "translate (pmem st2) T v \<noteq> None" using mapped by (simp add: st2_def tr2 tr1)
  qed
  then show ?thesis using al(1,3) slot1(3) by (simp add: virt_map_page_def st2_def Let_def)
qed

end
