(* ===== verification/Watermark.thy ===== *)
theory Watermark
  imports MapPage
begin

text \<open>
  \<open>kernel/data_structures/watermark.c\<close> and \<open>kernel/alloc/alloc.c\<close>: the allocator that
  only grows, downwards, and maps a 2 MiB page whenever it runs below the last one.  The
  structure has no other user than \<open>kernel_WaterMark\<close>, so it is a record.
\<close>

section \<open>Operations\<close>

record WaterMarkAllocator =
  page_address :: u64
  current_address :: u64
  current_size :: u64
  max_size :: u64

definition water_mark_init :: "addr \<Rightarrow> u64 \<Rightarrow> WaterMarkAllocator" where
  "water_mark_init location mx =
     \<lparr> page_address = location, current_address = location, current_size = 0, max_size = mx \<rparr>"

definition alloc_init :: WaterMarkAllocator where
  "alloc_init = water_mark_init 0xFFFFFFFFFFE00000 0x400000"

text \<open>The loop that maps pages, as far down as the new mark.\<close>

partial_function (option) map_down ::
  "addr \<Rightarrow> phys \<Rightarrow> WaterMarkAllocator \<Rightarrow> (phys \<times> WaterMarkAllocator) res option" where
  "map_down kernel_table st wma =
     (if current_address wma < page_address wma
      then let location = page_address wma - PAGE_LARGE_SIZE
           in case virt_map_page st kernel_table location PG_FLAG_RW PAGE_LARGE 0 of
                Inl e \<Rightarrow> Some (Inl e)
              | Inr (r, st) \<Rightarrow>
                  (if r = 0 then Some (Inl (Panic ''WaterMark: Failed to allocate page!''))
                   else map_down kernel_table st
                          (wma \<lparr> page_address := page_address wma - PAGE_LARGE_SIZE \<rparr>))
      else Some (Inr (st, wma)))"

definition water_mark_alloc_align ::
  "addr \<Rightarrow> phys \<Rightarrow> WaterMarkAllocator \<Rightarrow> u64 \<Rightarrow> u64 \<Rightarrow> (addr \<times> phys \<times> WaterMarkAllocator) res" where
  "water_mark_alloc_align kernel_table st wma alignment sz =
     kassert ''watermark.c'' 22 (alignment \<noteq> 0 \<and> alignment AND (alignment - 1) = 0)
      (let new_address = ALIGN (current_address wma) alignment;
           adjusted_size = (new_address - current_address wma) + sz
       in if current_size wma + adjusted_size > max_size wma
          then Inl (Panic ''Watermark: Size exceeded!'')
          else
            let wma = wma \<lparr> current_address := current_address wma - adjusted_size,
                            current_size := current_size wma + adjusted_size \<rparr>
            in and_then (returned_by (map_down kernel_table st wma)) (\<lambda>r.
               and_then r (\<lambda>(st, wma). Inr (current_address wma, st, wma))))"

definition water_mark_alloc ::
  "addr \<Rightarrow> phys \<Rightarrow> WaterMarkAllocator \<Rightarrow> u64 \<Rightarrow> (addr \<times> phys \<times> WaterMarkAllocator) res" where
  "water_mark_alloc kernel_table st wma sz = water_mark_alloc_align kernel_table st wma 1 sz"

section \<open>What an allocation returns\<close>

lemma ALIGN_1 [simp]: "ALIGN x 1 = x"
  by (simp add: ALIGN_def)

lemma map_down_done:
  "page_address wma \<le> current_address wma \<Longrightarrow> map_down kernel_table st wma = Some (Inr (st, wma))"
  by (subst map_down.simps) (simp add: leD)

text \<open>The loop moves nothing but the page mark, and stops below the new mark.\<close>

lemma map_down_result:
  assumes "map_down kernel_table st wma = Some (Inr (st', wma'))"
  shows "page_address wma' \<le> current_address wma' \<and>
    wma' = wma \<lparr> page_address := page_address wma' \<rparr>"
proof -
  have "\<forall>st' wma'. r = Inr (st', wma') \<longrightarrow>
      page_address wma' \<le> current_address wma' \<and> wma' = wma \<lparr> page_address := page_address wma' \<rparr>"
    if ret: "map_down kernel_table st wma = Some r" for r
  proof (rule map_down.raw_induct [where P = "\<lambda>kt st wma r. \<forall>st' wma'. r = Inr (st', wma') \<longrightarrow>
      page_address wma' \<le> current_address wma' \<and> wma' = wma \<lparr> page_address := page_address wma' \<rparr>",
      OF _ ret])
    fix f :: "addr \<Rightarrow> phys \<Rightarrow> WaterMarkAllocator \<Rightarrow> (phys \<times> WaterMarkAllocator) res option"
    fix kt st wma r
    assume IH: "\<And>kt st wma r. f kt st wma = Some r \<Longrightarrow> \<forall>st' wma'. r = Inr (st', wma') \<longrightarrow>
        page_address wma' \<le> current_address wma' \<and> wma' = wma \<lparr> page_address := page_address wma' \<rparr>"
      and eq: "(if current_address wma < page_address wma
        then let location = page_address wma - PAGE_LARGE_SIZE
             in case virt_map_page st kt location PG_FLAG_RW PAGE_LARGE 0 of
                Inl e \<Rightarrow> Some (Inl e)
              | Inr (r, st) \<Rightarrow>
                  (if r = 0 then Some (Inl (Panic ''WaterMark: Failed to allocate page!''))
                   else f kt st (wma \<lparr> page_address := page_address wma - PAGE_LARGE_SIZE \<rparr>))
        else Some (Inr (st, wma))) = Some r"
    show "\<forall>st' wma'. r = Inr (st', wma') \<longrightarrow>
        page_address wma' \<le> current_address wma' \<and> wma' = wma \<lparr> page_address := page_address wma' \<rparr>"
      using eq by (auto simp: Let_def not_less split: if_splits sum.splits prod.splits dest!: IH)
  qed
  with assms show ?thesis by blast
qed

lemma water_mark_alloc_align_result:
  assumes "water_mark_alloc_align kernel_table st wma al sz = Inr (p, st', wma')"
  shows "p = current_address wma - (ALIGN (current_address wma) al - current_address wma + sz)"
    and "current_address wma' = p" and "page_address wma' \<le> p"
    and "current_size wma' = current_size wma + (ALIGN (current_address wma) al - current_address wma + sz)"
    and "current_size wma' \<le> max_size wma" and "max_size wma' = max_size wma"
proof -
  define d where "d = ALIGN (current_address wma) al - current_address wma + sz"
  define w where "w = wma \<lparr> current_address := current_address wma - d, current_size := current_size wma + d \<rparr>"
  have c: "current_size wma + d \<le> max_size wma" and "map_down kernel_table st w = Some (Inr (st', wma'))"
    and p: "p = current_address wma'"
    using assms
    by (auto simp: water_mark_alloc_align_def Let_def d_def [symmetric] w_def [symmetric]
        returned_by_def not_less split: if_splits option.splits)
  then have "page_address wma' \<le> current_address wma'" "wma' = w \<lparr> page_address := page_address wma' \<rparr>"
    using map_down_result by blast+
  moreover from this(2) have "current_address wma' = current_address wma - d"
    "current_size wma' = current_size wma + d" "max_size wma' = max_size wma"
    by (metis WaterMarkAllocator.select_convs WaterMarkAllocator.update_convs
        WaterMarkAllocator.surjective w_def)+
  ultimately show "p = current_address wma - (ALIGN (current_address wma) al - current_address wma + sz)"
    and "current_address wma' = p" and "page_address wma' \<le> p"
    and "current_size wma' = current_size wma + (ALIGN (current_address wma) al - current_address wma + sz)"
    and "current_size wma' \<le> max_size wma" and "max_size wma' = max_size wma"
    using c p by (simp_all add: d_def)
qed


section \<open>Large pages of the kernel half\<close>

text \<open>The indices ignore bits 48 to 63, so they tell pages apart among canonical addresses only.\<close>

lemma canonical_bit: "canonical a \<Longrightarrow> 47 \<le> n \<Longrightarrow> n < 64 \<Longrightarrow> bit a n = bit a 47"
proof -
  assume c: "canonical a" and n: "47 \<le> n" "n < 64"
  have div: "unat (drop_bit 47 a) = unat a div 2 ^ 47"
    by (simp only: unat_drop_bit_eq drop_bit_eq_div [where ?'a = nat])
  have "drop_bit 47 a = 0 \<or> drop_bit 47 a = mask 17"
  proof (cases "a < 2 ^ 47")
    case True
    then have "unat a div 2 ^ 47 = 0" by (simp add: word_less_nat_alt)
    then have "drop_bit 47 a = 0" unfolding word_unat_eq_iff div by simp
    then show ?thesis ..
  next
    case False
    with c have "0xFFFF800000000000 \<le> unat a" by (simp add: canonical_def word_le_nat_alt)
    moreover have "unat a < 2 ^ 64" using unsigned_less [of a] by simp
    ultimately have "unat a div 2 ^ 47 = 131071" by simp
    then have "drop_bit 47 a = mask 17" unfolding word_unat_eq_iff div by (simp add: mask_eq_exp_minus_1)
    then show ?thesis ..
  qed
  then have "bit (drop_bit 47 a) (n - 47) = bit (drop_bit 47 a) 0"
    using n by (auto simp: bit_mask_iff)
  with n show ?thesis by (simp add: bit_drop_bit_eq)
qed

lemma same_large_page_canonical:
  assumes "canonical v" and "canonical w"
  shows "same_large_page v w \<longleftrightarrow> MASK_2MIB w = MASK_2MIB v"
proof
  assume same: "same_large_page v w"
  have "bit w n = bit v n" if n: "21 \<le> n" "n < 48" for n
  proof -
    have "bit (PML4_INDEX w) (n - 39) = bit (PML4_INDEX v) (n - 39)"
      "bit (PDPT_INDEX w) (n - 30) = bit (PDPT_INDEX v) (n - 30)"
      "bit (PDT_INDEX w) (n - 21) = bit (PDT_INDEX v) (n - 21)"
      using same by (simp_all add: same_large_page_def)
    note bits = this [unfolded PML4_INDEX_def PDPT_INDEX_def PDT_INDEX_def mask_9]
    consider "n < 30" | "30 \<le> n" "n < 39" | "39 \<le> n" by linarith
    then show ?thesis
    proof cases
      case 1
      then have "n - 21 < 9" using n by simp
      then show ?thesis using bits(3) n by (simp add: bit_simps)
    next
      case 2
      then have "n - 30 < 9" by simp
      then show ?thesis using bits(2) 2 by (simp add: bit_simps)
    next
      case 3
      then have "n - 39 < 9" using n by simp
      then show ?thesis using bits(1) 3 by (simp add: bit_simps)
    qed
  qed
  then have "bit w n = bit v n" if "21 \<le> n" "n < 64" for n
    using that canonical_bit [OF assms(1), of n] canonical_bit [OF assms(2), of n]
    by (cases "n < 48") simp_all
  then show "MASK_2MIB w = MASK_2MIB v"
    unfolding MASK_2MIB_def mask_21 by (intro bit_word_eqI) (auto simp: bit_simps)
next
  assume eq: "MASK_2MIB w = MASK_2MIB v"
  have "bit w n = bit v n" if "21 \<le> n" "n < 64" for n
  proof -
    have "bit (MASK_2MIB w) n = bit (MASK_2MIB v) n" using eq by simp
    with that show ?thesis unfolding MASK_2MIB_def mask_21 by (simp add: bit_simps)
  qed
  then show "same_large_page v w"
    unfolding same_large_page_def PML4_INDEX_def PDPT_INDEX_def PDT_INDEX_def
    by (simp only: mask_9) (auto intro!: bit_word_eqI simp: bit_simps)
qed

lemma MASK_2MIB_eq_iff:
  assumes "MASK_2MIB b = b"
  shows "MASK_2MIB a = b \<longleftrightarrow> unat b \<le> unat a \<and> unat a < unat b + 2 ^ 21"
proof -
  have "unat b mod 2 ^ 21 = 0" using assms by (simp add: MASK_2MIB_id_iff)
  then obtain k where k: "unat b = 2 ^ 21 * k" by (metis mod_eq_0_iff_dvd dvd_def)
  have "unat (MASK_2MIB a) = 2 ^ 21 * (unat a div 2 ^ 21)"
    unfolding unat_MASK_2MIB by (simp add: minus_mod_eq_mult_div)
  moreover have "unat a div 2 ^ 21 = k \<longleftrightarrow> 2 ^ 21 * k \<le> unat a \<and> unat a < 2 ^ 21 * k + 2 ^ 21"
  proof -
    let ?x = "unat a"
    have "2 ^ 21 * (?x div 2 ^ 21) \<le> ?x" "?x < 2 ^ 21 * (?x div 2 ^ 21) + 2 ^ 21"
      using times_div_less_eq_dividend dividend_less_times_div [of "2 ^ 21" ?x] by simp_all
    moreover have "?x div 2 ^ 21 = k" if "2 ^ 21 * k \<le> ?x" "?x < 2 ^ 21 * k + 2 ^ 21"
      using that by (intro div_nat_eqI) simp_all
    ultimately show ?thesis by blast
  qed
  ultimately show ?thesis by (simp add: word_unat_eq_iff k)
qed

section \<open>A 2 MiB page of the allocator\<close>

lemma own_cells_blocks: "B' \<subseteq> B \<Longrightarrow> A' \<subseteq> A \<Longrightarrow> own_cells s B' A' a \<Longrightarrow> own_cells s B A a"
  by (auto simp: own_cells_def)

lemma tables_inv_mono: "tables_inv s B A m T \<Longrightarrow> B' \<subseteq> B \<Longrightarrow> A' \<subseteq> A \<Longrightarrow> tables_inv s B' A' m T"
  unfolding tables_inv_def table_ok_def using own_cells_blocks by blast

lemma frames_blocks_card:
  assumes inv: "frames_inv s B st A" and blocks: "0 < unat (pmem st s)"
  shows "3 \<le> card A"
proof -
  from inv obtain S Ps E where rep: "phys_rep st S Ps E" "A = VIRT_TO_PHYS ` avail_pages S Ps" "stack_2MIB st = s"
    by (auto simp: frames_inv_def)
  then have "length S = unat (pmem st s)" using phys_rep_size by metis
  with blocks obtain b S' where S: "S = b # S'" by (cases S) auto
  then have "usable_block st b" using rep(1) by (simp add: phys_rep_def)
  then have b: "block_base b" by (rule usable_blockD(1))
  have "inj_on (page b) {1..<512}" by (rule inj_onI) (simp add: page_inject [OF b])
  then have "card (pool_pages b) = 511" by (simp add: pool_pages_def card_image)
  then have "card (VIRT_TO_PHYS ` pool_pages b) = 511" by (subst card_image) (auto intro: inj_onI)
  moreover have "VIRT_TO_PHYS ` pool_pages b \<subseteq> A" by (auto simp: rep(2) S avail_pages_def)
  moreover have "finite A" using rep(2) finite_avail_pages by simp
  ultimately have "511 \<le> card A" by (metis card_mono)
  then show ?thesis by simp
qed

lemma block_below:
  assumes b: "usable_block st b" and low: "\<And>q. q \<in> pool_pages b \<Longrightarrow> VIRT_TO_PHYS q < 2 ^ 39"
  shows "VIRT_TO_PHYS b < 2 ^ 63"
proof -
  have al: "MASK_2MIB (VIRT_TO_PHYS b) = VIRT_TO_PHYS b" using usable_blockD(2) [OF b] by (simp add: MASK_2MIB_phys)
  have "page b 1 \<in> pool_pages b" by (auto simp: pool_pages_def)
  then have "VIRT_TO_PHYS (page b 1) < 2 ^ 39" by (rule low)
  moreover have "VIRT_TO_PHYS (page b 1) = VIRT_TO_PHYS b + 0x1000" by (simp add: page_def VIRT_TO_PHYS_def)
  moreover have "unat (VIRT_TO_PHYS b + 0x1000) = unat (VIRT_TO_PHYS b) + 0x1000"
    using MASK_2MIB_off(2) [OF al, of "0x1000"] by simp
  ultimately show ?thesis by (simp add: word_less_nat_alt)
qed

text \<open>
  One page mapped through \<open>virt_map_page\<close>: the top block \<open>b\<close> of the stack leaves the allocator
  and is translated to; at most two blocks more are taken for the tables.
\<close>

lemma virt_map_page_large:
  assumes inv: "pt_inv s B A st T" and blocks: "2 \<le> unat (pmem st s)"
    and free: "\<not> present (entry_at (pmem st) T (pd_path v) (PDT_INDEX v))"
  shows "\<exists>st' A' b. virt_map_page st T v flags PAGE_LARGE 0 = Inr (1, st') \<and> b \<in> B \<and>
    pt_inv s (B - {b}) A' st' T \<and> unat (pmem st s) \<le> unat (pmem st' s) + 3 \<and>
    (\<forall>w. same_large_page v w \<longrightarrow> translate (pmem st') T w = Some (VIRT_TO_PHYS b + (w AND 0x1FFFFF))) \<and>
    (\<forall>w. \<not> same_large_page v w \<longrightarrow> translate (pmem st') T w = translate (pmem st) T w \<and>
      entry_at (pmem st') T (pd_path w) (PDT_INDEX w) = entry_at (pmem st) T (pd_path w) (PDT_INDEX w))"
proof -
  have fr: "frames_inv s B st A" and tb: "tables_inv s B A (pmem st) T" and low: "\<forall>p\<in>A. p < 2 ^ 39"
    using inv by (simp_all add: pt_inv_def)
  have "0 < unat (pmem st s)" using blocks by simp
  from frames_alloc_2MIB [OF fr this] obtain b st1 where
    al: "phys_alloc_2MIB st = (VIRT_TO_PHYS b, st1)" "b \<in> B" "usable_block st b" "VIRT_TO_PHYS ` pool_pages b \<subseteq> A"
      "frames_inv s (B - {b}) st1 (A - VIRT_TO_PHYS ` pool_pages b)"
    and oth: "\<forall>a. a \<notin> {s, s + 8} \<longrightarrow> pmem st1 a = pmem st a" and size: "unat (pmem st s) = Suc (unat (pmem st1 s))"
    by blast
  define A1 where "A1 = A - VIRT_TO_PHYS ` pool_pages b"
  have tab: "pmem st1 a = pmem st a" if "table_cell (pmem st) T a" for a
    using that oth tables_ok [OF tb] unfolding table_cell_def table_ok_def own_cells_def by blast
  note ag = tables_agree [of "pmem st" T "pmem st1", OF tab]
  have "tables_inv s B A (pmem st1) T" using ag(5) [OF _ tb] by blast
  then have "tables_inv s (B - {b}) A1 (pmem st1) T" by (rule tables_inv_mono) (auto simp: A1_def)
  then have inv1: "pt_inv s (B - {b}) A1 st1 T" using al(5) low by (simp add: pt_inv_def A1_def)
  have "3 \<le> card A1" using frames_blocks_card [of s "B - {b}" st1 A1] inv1 size blocks by (simp add: pt_inv_def)
  moreover have pb: "VIRT_TO_PHYS b < 2 ^ 63" and b0: "VIRT_TO_PHYS b \<noteq> 0" and pal: "MASK_2MIB (VIRT_TO_PHYS b) = VIRT_TO_PHYS b"
    using block_below [OF al(3)] al(4) low al(3) by (auto simp: usable_block_def VIRT_TO_PHYS_eq_0 MASK_2MIB_phys block_base_def)
  moreover have "\<not> present (entry_at (pmem st1) T (pd_path v) (PDT_INDEX v))"
    using free ag(2) [OF _ paths(3) index_less(3)] by simp
  ultimately obtain st2 A2 where
    s2: "virt_map_phys st1 T v (VIRT_TO_PHYS b) flags PAGE_LARGE = Inr (1, st2)" "pt_inv s (B - {b}) A2 st2 T"
      "\<forall>w. translate (pmem st2) T w = (if same_large_page v w then Some (VIRT_TO_PHYS b + (w AND 0x1FFFFF))
        else translate (pmem st1) T w)"
      "\<forall>w. \<not> same_large_page v w \<longrightarrow>
        entry_at (pmem st2) T (pd_path w) (PDT_INDEX w) = entry_at (pmem st1) T (pd_path w) (PDT_INDEX w)"
      "unat (pmem st1 s) \<le> unat (pmem st2 s) + 2"
    using map_large_page [OF inv1, of "VIRT_TO_PHYS b" v flags] unfolding pal by blast
  have "virt_map_page st T v flags PAGE_LARGE 0 = Inr (1, st2)"
    using s2(1) al(1) b0 by (simp add: virt_map_page_def Let_def)
  moreover have "translate (pmem st1) T w = translate (pmem st) T w" for w using ag(3) by blast
  moreover have "entry_at (pmem st1) T (pd_path w) (PDT_INDEX w) = entry_at (pmem st) T (pd_path w) (PDT_INDEX w)" for w
    using ag(2) [OF _ paths(3) index_less(3)] by blast
  ultimately show ?thesis using s2(2-5) al(2) size
    by (intro exI [of _ st2] exI [of _ A2] exI [of _ b]) simp
qed

section \<open>The loop maps the pages\<close>

lemma large_page_range:
  assumes "MASK_2MIB v = v" and "canonical v" and "canonical a"
  shows "same_large_page v a \<longleftrightarrow> unat v \<le> unat a \<and> unat a < unat v + 2 ^ 21"
  using same_large_page_canonical [OF assms(2,3)] MASK_2MIB_eq_iff [OF assms(1)] assms(1) by simp

lemma page_below:
  assumes "MASK_2MIB pa = pa" and "KERNEL_BASE < pa"
  shows "unat (pa - 0x200000) = unat pa - 2 ^ 21" and "MASK_2MIB (pa - 0x200000) = pa - 0x200000"
    and "KERNEL_BASE \<le> pa - 0x200000"
proof -
  have pa: "unat pa mod 2 ^ 21 = 0" using assms(1) by (simp add: MASK_2MIB_id_iff)
  have gt: "0xFFFF800000000000 < unat pa" using assms(2) by (simp add: word_less_nat_alt)
  then show u: "unat (pa - 0x200000) = unat pa - 2 ^ 21" by (subst unat_sub) (simp_all add: word_le_nat_alt)
  have "2 ^ 21 \<le> unat pa" using gt by simp
  then have "(unat pa - 2 ^ 21) mod 2 ^ 21 = 0" using pa le_mod_geq by metis
  then show "MASK_2MIB (pa - 0x200000) = pa - 0x200000" unfolding MASK_2MIB_id_iff u .
  from pa obtain k where k: "unat pa = 2 ^ 21 * k" by (metis mod_eq_0_iff_dvd dvd_def)
  have "unat KERNEL_BASE mod 2 ^ 21 = 0" by simp
  then obtain c where c: "unat KERNEL_BASE = 2 ^ 21 * c" by (metis mod_eq_0_iff_dvd dvd_def)
  have "2 ^ 21 * c < 2 ^ 21 * k" using assms(2) unfolding word_less_nat_alt k c .
  then have "c \<le> k - 1" by simp
  then have "2 ^ 21 * c \<le> 2 ^ 21 * k - 2 ^ 21" by (metis diff_mult_distrib2 mult_le_mono2 nat_mult_1_right)
  then show "KERNEL_BASE \<le> pa - 0x200000" unfolding word_le_nat_alt u k c .
qed

text \<open>
  \<open>mapped_down\<close>: between the new page mark \<open>lo\<close> and the old one \<open>hi\<close> every address is
  translated into a block taken from the allocator, another one for each page; every other
  canonical address is translated as before and has the same page-directory entry.
\<close>

definition mapped_down ::
  "addr set \<Rightarrow> addr set \<Rightarrow> mem \<Rightarrow> mem \<Rightarrow> addr \<Rightarrow> u64 \<Rightarrow> u64 \<Rightarrow> bool" where
  "mapped_down B B' m m' T lo hi \<longleftrightarrow>
     (\<exists>block.
        (\<forall>a. lo \<le> a \<and> a < hi \<longrightarrow> block (MASK_2MIB a) \<in> B - B' \<and>
           translate m' T a = Some (VIRT_TO_PHYS (block (MASK_2MIB a)) + (a AND 0x1FFFFF))) \<and>
        (\<forall>a a'. lo \<le> a \<and> a < hi \<and> lo \<le> a' \<and> a' < hi \<and> block (MASK_2MIB a) = block (MASK_2MIB a') \<longrightarrow>
           MASK_2MIB a = MASK_2MIB a')) \<and>
     (\<forall>a. canonical a \<and> \<not> (lo \<le> a \<and> a < hi) \<longrightarrow> translate m' T a = translate m T a \<and>
        entry_at m' T (pd_path a) (PDT_INDEX a) = entry_at m T (pd_path a) (PDT_INDEX a))"

lemma mapped_down_refl: "mapped_down B B m m T a a"
  by (auto simp: mapped_down_def)

lemma mapped_down_step:
  assumes v: "MASK_2MIB v = v" "KERNEL_BASE \<le> v" and hi: "unat hi = unat v + 2 ^ 21" and b: "b \<in> B" "B' \<subseteq> B - {b}"
    and page: "\<forall>w. same_large_page v w \<longrightarrow> translate m1 T w = Some (VIRT_TO_PHYS b + (w AND 0x1FFFFF))"
    and rest: "\<forall>w. \<not> same_large_page v w \<longrightarrow> translate m1 T w = translate m T w \<and>
      entry_at m1 T (pd_path w) (PDT_INDEX w) = entry_at m T (pd_path w) (PDT_INDEX w)"
    and more: "mapped_down (B - {b}) B' m1 m' T lo v" and lo: "KERNEL_BASE \<le> lo" "lo \<le> v"
  shows "mapped_down B B' m m' T lo hi"
proof -
  obtain block where
    blk: "\<And>a. lo \<le> a \<Longrightarrow> a < v \<Longrightarrow> block (MASK_2MIB a) \<in> B - {b} - B' \<and>
      translate m' T a = Some (VIRT_TO_PHYS (block (MASK_2MIB a)) + (a AND 0x1FFFFF))"
    and inj: "\<And>a a'. lo \<le> a \<Longrightarrow> a < v \<Longrightarrow> lo \<le> a' \<Longrightarrow> a' < v \<Longrightarrow>
      block (MASK_2MIB a) = block (MASK_2MIB a') \<Longrightarrow> MASK_2MIB a = MASK_2MIB a'"
    and oth: "\<And>a. canonical a \<Longrightarrow> \<not> (lo \<le> a \<and> a < v) \<Longrightarrow> translate m' T a = translate m1 T a \<and>
        entry_at m' T (pd_path a) (PDT_INDEX a) = entry_at m1 T (pd_path a) (PDT_INDEX a)"
    using more unfolding mapped_down_def by blast
  have cv: "canonical v" using v(2) by (simp add: canonical_def)
  have in_page: "same_large_page v a \<longleftrightarrow> v \<le> a \<and> a < hi" if "canonical a" for a
    unfolding large_page_range [OF v(1) cv that] by (simp add: word_le_nat_alt word_less_nat_alt hi)
  have mask: "MASK_2MIB a = v \<longleftrightarrow> v \<le> a \<and> a < hi" for a
    unfolding MASK_2MIB_eq_iff [OF v(1)] by (simp add: word_le_nat_alt word_less_nat_alt hi)
  have can: "canonical a" if "lo \<le> a" for a using lo(1) that by (auto simp: canonical_def)
  have "v < hi" using hi by (simp add: word_less_nat_alt)
  show ?thesis
    unfolding mapped_down_def
  proof (intro conjI exI [of _ "block(v := b)"] allI impI; elim conjE)
    fix a assume a: "lo \<le> a" "a < hi"
    show "(block(v := b)) (MASK_2MIB a) \<in> B - B'"
      using a b blk [of a] mask [of a] by (cases "a < v") auto
    show "translate m' T a = Some (VIRT_TO_PHYS ((block(v := b)) (MASK_2MIB a)) + (a AND 0x1FFFFF))"
      using a blk [of a] mask [of a] oth [OF can [OF a(1)]] page in_page [OF can [OF a(1)]]
      by (cases "a < v") auto
    fix a' assume a': "lo \<le> a'" "a' < hi"
      and eq: "(block(v := b)) (MASK_2MIB a) = (block(v := b)) (MASK_2MIB a')"
    show "MASK_2MIB a = MASK_2MIB a'"
      using eq inj [of a a'] blk [of a] blk [of a'] a a' mask [of a] mask [of a']
      by (cases "a < v"; cases "a' < v") (auto simp: not_less)
  next
    fix a assume a: "canonical a" "\<not> (lo \<le> a \<and> a < hi)"
    then have n: "\<not> (lo \<le> a \<and> a < v)" "\<not> same_large_page v a"
      using \<open>v < hi\<close> in_page [OF a(1)] lo(2) by auto
    show "translate m' T a = translate m T a" using oth [OF a(1) n(1)] rest n(2) by simp
    show "entry_at m' T (pd_path a) (PDT_INDEX a) = entry_at m T (pd_path a) (PDT_INDEX a)"
      using oth [OF a(1) n(1)] rest n(2) by simp
  qed
qed

lemma map_down_maps:
  assumes "pt_inv s B A st T" and "MASK_2MIB (page_address wma) = page_address wma"
    and "3 * n \<le> unat (pmem st s)" and "unat KERNEL_BASE + n * 2 ^ 21 \<le> unat (page_address wma)"
    and "unat (page_address wma) - n * 2 ^ 21 \<le> unat (current_address wma)"
    and "n \<noteq> 0 \<Longrightarrow> unat (current_address wma) < unat (page_address wma) - (n - 1) * 2 ^ 21"
    and "\<And>a. unat (page_address wma) - n * 2 ^ 21 \<le> unat a \<Longrightarrow> a < page_address wma \<Longrightarrow>
      \<not> present (entry_at (pmem st) T (pd_path a) (PDT_INDEX a))"
  shows "\<exists>st' A' B' lo. map_down T st wma = Some (Inr (st', wma \<lparr> page_address := lo \<rparr>)) \<and>
    unat lo = unat (page_address wma) - n * 2 ^ 21 \<and> MASK_2MIB lo = lo \<and> KERNEL_BASE \<le> lo \<and> B' \<subseteq> B \<and>
    pt_inv s B' A' st' T \<and> mapped_down B B' (pmem st) (pmem st') T lo (page_address wma)"
  using assms
proof (induction n arbitrary: st A B wma)
  case 0
  then have "map_down T st wma = Some (Inr (st, wma))" by (intro map_down_done) (simp add: word_le_nat_alt)
  with 0 show ?case using mapped_down_refl
    by (intro exI [of _ st] exI [of _ A] exI [of _ B] exI [of _ "page_address wma"]) (simp add: word_le_nat_alt)
next
  case (Suc n)
  define hi where "hi = page_address wma"
  define v where "v = hi - 0x200000"
  have "KERNEL_BASE < hi" using Suc.prems(4) by (simp add: word_less_nat_alt hi_def)
  from page_below [OF Suc.prems(2) [folded hi_def] this, folded v_def]
  have v: "unat v = unat hi - 2 ^ 21" "MASK_2MIB v = v" "KERNEL_BASE \<le> v" .
  have hi: "unat hi = unat v + 2 ^ 21" using v(1) Suc.prems(4) by (simp add: hi_def)
  have cv: "canonical v" using v(3) by (simp add: canonical_def)
  have down: "unat hi - Suc n * 2 ^ 21 = unat v - n * 2 ^ 21" by (simp add: v(1))
  have "2 \<le> unat (pmem st s)" using Suc.prems(3) by simp
  moreover have "\<not> present (entry_at (pmem st) T (pd_path v) (PDT_INDEX v))"
    using hi by (intro Suc.prems(7)) (simp_all add: word_less_nat_alt flip: hi_def)
  ultimately obtain st1 A1 b where
    st1: "virt_map_page st T v PG_FLAG_RW PAGE_LARGE 0 = Inr (1, st1)" "b \<in> B" "pt_inv s (B - {b}) A1 st1 T"
      "unat (pmem st s) \<le> unat (pmem st1 s) + 3"
    and page: "\<forall>w. same_large_page v w \<longrightarrow> translate (pmem st1) T w = Some (VIRT_TO_PHYS b + (w AND 0x1FFFFF))"
    and rest: "\<forall>w. \<not> same_large_page v w \<longrightarrow> translate (pmem st1) T w = translate (pmem st) T w \<and>
      entry_at (pmem st1) T (pd_path w) (PDT_INDEX w) = entry_at (pmem st) T (pd_path w) (PDT_INDEX w)"
    using virt_map_page_large [OF Suc.prems(1), of v PG_FLAG_RW] by blast
  let ?wma = "wma \<lparr> page_address := v \<rparr>"
  have "\<exists>st' A' B' lo. map_down T st1 ?wma = Some (Inr (st', ?wma \<lparr> page_address := lo \<rparr>)) \<and>
    unat lo = unat (page_address ?wma) - n * 2 ^ 21 \<and> MASK_2MIB lo = lo \<and> KERNEL_BASE \<le> lo \<and> B' \<subseteq> B - {b} \<and>
    pt_inv s B' A' st' T \<and> mapped_down (B - {b}) B' (pmem st1) (pmem st') T lo (page_address ?wma)"
  proof (rule Suc.IH [OF st1(3)])
    show "3 * n \<le> unat (pmem st1 s)" using Suc.prems(3) st1(4) by simp
    show "unat KERNEL_BASE + n * 2 ^ 21 \<le> unat (page_address ?wma)"
      and "unat (page_address ?wma) - n * 2 ^ 21 \<le> unat (current_address ?wma)"
      using Suc.prems(4,5) v(1) by (simp_all add: hi_def)
    show "unat (current_address ?wma) < unat (page_address ?wma) - (n - 1) * 2 ^ 21" if "n \<noteq> 0"
      using Suc.prems(6) v(1) that by (cases n) (simp_all add: hi_def)
    show "\<not> present (entry_at (pmem st1) T (pd_path a) (PDT_INDEX a))"
      if a: "unat (page_address ?wma) - n * 2 ^ 21 \<le> unat a" "a < page_address ?wma" for a
    proof -
      have "KERNEL_BASE \<le> a" using a(1) Suc.prems(4) v(1) by (simp add: word_le_nat_alt hi_def)
      then have "\<not> same_large_page v a"
        using large_page_range [OF v(2) cv, of a] a(2) by (simp add: canonical_def word_less_nat_alt)
      moreover have "\<not> present (entry_at (pmem st) T (pd_path a) (PDT_INDEX a))"
      proof (rule Suc.prems(7) [folded hi_def])
        show "unat hi - Suc n * 2 ^ 21 \<le> unat a" using a(1) unfolding down by simp
        show "a < hi" using a(2) hi by (simp add: word_less_nat_alt)
      qed
      ultimately show ?thesis using rest by simp
    qed
  qed (simp_all add: v(2))
  then obtain st' A' B' lo where
    st': "map_down T st1 ?wma = Some (Inr (st', ?wma \<lparr> page_address := lo \<rparr>))" "unat lo = unat v - n * 2 ^ 21"
      "MASK_2MIB lo = lo" "KERNEL_BASE \<le> lo" "B' \<subseteq> B - {b}" "pt_inv s B' A' st' T"
    and more: "mapped_down (B - {b}) B' (pmem st1) (pmem st') T lo v" by auto
  have "current_address wma < hi"
    using Suc.prems(6) by (simp add: word_less_nat_alt hi_def)
  then have "map_down T st wma = Some (Inr (st', wma \<lparr> page_address := lo \<rparr>))"
    using st1(1) st'(1) by (subst map_down.simps) (simp add: Let_def v_def flip: hi_def)
  moreover have "unat lo = unat hi - Suc n * 2 ^ 21" using st'(2) v(1) by simp
  moreover have "lo \<le> v" using st'(2) by (simp add: word_le_nat_alt)
  moreover have "mapped_down B B' (pmem st) (pmem st') T lo hi"
    by (rule mapped_down_step [OF v(2,3) hi st1(2) st'(5) page rest more st'(4) \<open>lo \<le> v\<close>])
  ultimately show ?case using st'(3-6) unfolding hi_def by blast
qed

section \<open>What an allocation keeps\<close>

text \<open>
  \<open>mark_ok\<close>: the page mark is 2 MiB-aligned and not above the mark, everything handed out so far
  is mapped, and what the maximum leaves to hand out lies in the kernel half and has no
  page-directory entries below the page mark.
\<close>

abbreviation room :: "WaterMarkAllocator \<Rightarrow> u64" where
  "room wma \<equiv> max_size wma - current_size wma"

abbreviation lowest :: "WaterMarkAllocator \<Rightarrow> addr" where
  "lowest wma \<equiv> MASK_2MIB (current_address wma - room wma)"

definition mark_ok :: "mem \<Rightarrow> addr \<Rightarrow> WaterMarkAllocator \<Rightarrow> bool" where
  "mark_ok m T wma \<longleftrightarrow>
     MASK_2MIB (page_address wma) = page_address wma \<and> page_address wma \<le> current_address wma \<and>
     current_size wma \<le> max_size wma \<and> unat (current_address wma) + unat (current_size wma) < 2 ^ 64 \<and>
     room wma \<le> current_address wma \<and> KERNEL_BASE \<le> lowest wma \<and> lowest wma \<le> page_address wma \<and>
     (\<forall>a. page_address wma \<le> a \<and> a < current_address wma + current_size wma \<longrightarrow> translate m T a \<noteq> None) \<and>
     (\<forall>a. lowest wma \<le> a \<and> a < page_address wma \<longrightarrow> \<not> present (entry_at m T (pd_path a) (PDT_INDEX a)))"

text \<open>How many pages the loop maps for the mark \<open>c\<close> below the page mark \<open>p\<close>.\<close>

lemma pages_down:
  fixes p c :: u64
  assumes "MASK_2MIB p = p"
  obtains n where "unat p - n * 2 ^ 21 \<le> unat c" and "n \<noteq> 0 \<Longrightarrow> unat c < unat p - (n - 1) * 2 ^ 21"
    and "n = 0 \<or> unat p - n * 2 ^ 21 = unat (MASK_2MIB c)" and "n * 2 ^ 21 \<le> unat p"
    and "n * 2 ^ 21 \<le> unat p - unat c + (2 ^ 21 - 1)"
proof (cases "p \<le> c")
  case True
  then show ?thesis using that [of 0] by (simp add: word_le_nat_alt)
next
  case False
  obtain k where k: "unat p = 2 ^ 21 * k" using assms by (metis MASK_2MIB_id_iff mod_eq_0_iff_dvd dvd_def)
  define j where "j = unat c div 2 ^ 21"
  have j: "2 ^ 21 * j \<le> unat c" "unat c < 2 ^ 21 * j + 2 ^ 21" "unat (MASK_2MIB c) = 2 ^ 21 * j"
    using dividend_less_times_div [of "2 ^ 21" "unat c"]
    by (simp_all add: j_def unat_MASK_2MIB minus_mod_eq_mult_div)
  have "unat c < unat p" using False by (simp add: word_le_nat_alt)
  then have "unat c < 2 ^ 21 * k" unfolding k .
  then have "2 ^ 21 * j < 2 ^ 21 * k" using j(1) by (rule le_less_trans [rotated])
  then have "j < k" by simp
  then obtain n where n: "k = j + n" "n \<noteq> 0" by (metis add_diff_inverse_nat less_imp_add_positive less_numeral_extra(3))
  show ?thesis
  proof (rule that [of n])
    show "unat p - n * 2 ^ 21 \<le> unat c" using j(1) by (simp add: k n(1) add_mult_distrib2 mult.commute [of n])
    show "unat c < unat p - (n - 1) * 2 ^ 21"
      using j(2) n(2) by (cases n) (simp_all add: k n(1) add_mult_distrib2)
    show "n = 0 \<or> unat p - n * 2 ^ 21 = unat (MASK_2MIB c)" by (simp add: k n(1) j(3) add_mult_distrib2)
    show "n * 2 ^ 21 \<le> unat p" by (simp add: k n(1) add_mult_distrib2)
    show "n * 2 ^ 21 \<le> unat p - unat c + (2 ^ 21 - 1)"
      using j(2) n(2) by (simp add: k n(1) add_mult_distrib2)
  qed
qed

lemma MASK_2MIB_mono: "x \<le> y \<Longrightarrow> MASK_2MIB x \<le> MASK_2MIB y"
  unfolding word_le_nat_alt unat_MASK_2MIB minus_mod_eq_mult_div by (simp add: div_le_mono)

text \<open>The mark after an allocation of \<open>sz\<close> bytes.\<close>

abbreviation taken :: "WaterMarkAllocator \<Rightarrow> u64 \<Rightarrow> WaterMarkAllocator" where
  "taken wma sz \<equiv> wma \<lparr> current_address := current_address wma - sz, current_size := current_size wma + sz \<rparr>"

lemma taken_mark:
  assumes ok: "mark_ok m T wma" and sz: "sz \<le> room wma"
  shows "unat (current_address wma - sz) = unat (current_address wma) - unat sz"
    and "unat (current_size wma + sz) = unat (current_size wma) + unat sz"
    and "unat sz \<le> unat (current_address wma)" and "unat (current_size wma) + unat sz \<le> unat (max_size wma)"
    and "lowest (taken wma sz) = lowest wma" and "room (taken wma sz) \<le> current_address (taken wma sz)"
    and "lowest wma \<le> MASK_2MIB (current_address wma - sz)"
proof -
  have le: "current_size wma \<le> max_size wma" "room wma \<le> current_address wma" using ok by (simp_all add: mark_ok_def)
  have r: "unat (room wma) = unat (max_size wma) - unat (current_size wma)"
    using le(1) by (simp add: unat_sub word_le_nat_alt)
  show a: "unat sz \<le> unat (current_address wma)" using sz le(2) by (simp add: word_le_nat_alt)
  then show c: "unat (current_address wma - sz) = unat (current_address wma) - unat sz"
    by (simp add: unat_sub word_le_nat_alt)
  show m: "unat (current_size wma) + unat sz \<le> unat (max_size wma)"
    using sz le(1) r by (simp add: word_le_nat_alt)
  have "unat (max_size wma) < 2 ^ 64" using unsigned_less [of "max_size wma"] by simp
  then show u: "unat (current_size wma + sz) = unat (current_size wma) + unat sz"
    using m by (simp add: unat_word_ariths)
  show "lowest (taken wma sz) = lowest wma" by (simp add: algebra_simps)
  have "current_size wma + sz \<le> max_size wma" using u m by (simp add: word_le_nat_alt)
  then have r': "unat (room (taken wma sz)) = unat (max_size wma) - (unat (current_size wma) + unat sz)"
    using u by (simp add: unat_sub word_le_nat_alt)
  have "unat (max_size wma) - unat (current_size wma) \<le> unat (current_address wma)"
    using le(2) r by (simp add: word_le_nat_alt)
  then show "room (taken wma sz) \<le> current_address (taken wma sz)"
    unfolding word_le_nat_alt r' using c by simp
  show "lowest wma \<le> MASK_2MIB (current_address wma - sz)"
  proof (rule MASK_2MIB_mono)
    show "current_address wma - room wma \<le> current_address wma - sz"
      using sz le(2) a c unfolding word_le_nat_alt by (simp add: unat_sub word_le_nat_alt)
  qed
qed

lemma mark_ok_after:
  assumes ok: "mark_ok m T wma" and sz: "sz \<le> room wma"
    and lo: "MASK_2MIB lo = lo" "lo \<le> current_address wma - sz" "lowest wma \<le> lo" "lo \<le> page_address wma"
    and md: "mapped_down B B' m m' T lo (page_address wma)"
  shows "mark_ok m' T (taken wma sz \<lparr> page_address := lo \<rparr>)"
proof -
  note t = taken_mark [OF ok sz]
  have kb: "KERNEL_BASE \<le> lowest wma" using ok by (simp add: mark_ok_def)
  then have can: "canonical a" if "lowest wma \<le> a" for a using that by (auto simp: canonical_def)
  have same: "translate m' T a = translate m T a" "entry_at m' T (pd_path a) (PDT_INDEX a) = entry_at m T (pd_path a) (PDT_INDEX a)"
    if "lowest wma \<le> a" "\<not> (lo \<le> a \<and> a < page_address wma)" for a
    using md can [OF that(1)] that(2) unfolding mapped_down_def by blast+
  have new: "translate m' T a \<noteq> None" if "lo \<le> a" "a < page_address wma" for a
    using md that unfolding mapped_down_def by fastforce
  have low: "MASK_2MIB (current_address wma - sz - (max_size wma - (current_size wma + sz))) = lowest wma"
    using t(5) by simp
  have sum: "current_address wma - sz + (current_size wma + sz) = current_address wma + current_size wma" by simp
  have "translate m' T a \<noteq> None" if a: "lo \<le> a" "a < current_address wma + current_size wma" for a
  proof (cases "a < page_address wma")
    case True
    then show ?thesis using a(1) by (rule new [rotated])
  next
    case False
    then have "translate m T a \<noteq> None" using ok a(2) by (simp add: mark_ok_def)
    then show ?thesis using same(1) [of a] False lo(3) a(1) by auto
  qed
  moreover have "\<not> present (entry_at m' T (pd_path a) (PDT_INDEX a))" if "lowest wma \<le> a" "a < lo" for a
  proof -
    have "a < page_address wma" using that(2) lo(4) by simp
    then have "\<not> present (entry_at m T (pd_path a) (PDT_INDEX a))" using ok that(1) by (simp add: mark_ok_def)
    moreover have "\<not> (lo \<le> a \<and> a < page_address wma)" using that(2) by auto
    ultimately show ?thesis using same(2) [OF that(1)] by simp
  qed
  moreover have "current_size wma + sz \<le> max_size wma" using t(2,4) by (simp add: word_le_nat_alt)
  moreover have "unat (current_address wma - sz) + unat (current_size wma + sz) < 2 ^ 64"
    using t(1-3) ok by (simp add: mark_ok_def)
  moreover have "max_size wma - (current_size wma + sz) \<le> current_address wma - sz" using t(6) by simp
  moreover have "page_address (taken wma sz \<lparr> page_address := lo \<rparr>) = lo"
    and "current_address (taken wma sz \<lparr> page_address := lo \<rparr>) = current_address wma - sz"
    and "current_size (taken wma sz \<lparr> page_address := lo \<rparr>) = current_size wma + sz"
    and "max_size (taken wma sz \<lparr> page_address := lo \<rparr>) = max_size wma"
    by simp_all
  ultimately show ?thesis using lo kb unfolding mark_ok_def by (simp only: low sum) blast
qed

section \<open>Properties\<close>


text \<open>
  The kernel's mark as \<open>alloc_init\<close> leaves it, with three free blocks and an empty table: the
  first allocation maps a page below 0xFFFFFFFFFFE00000.
\<close>

lemma empty_table:
  assumes T: "MASK_4KIB T = T" and z: "\<forall>i<512. entries m (PHYS_TO_VIRT T) i = 0"
  shows "is_path is \<Longrightarrow> walk m T is = Some X \<Longrightarrow> is = [] \<and> X = T"
    and "is_path is \<Longrightarrow> i < 512 \<Longrightarrow> entry_at m T is i = 0"
proof -
  show w: "is = [] \<and> X = T" if "is_path is" "walk m T is = Some X" for "is" X
    using that z by (cases "is") (auto simp: is_path_def Let_def)
  show "entry_at m T is i = 0" if "is_path is" "i < 512" for "is" i
    using w [OF that(1)] z that(2) by (auto simp: entry_at_def split: option.splits)
qed

lemma empty_table_inv:
  assumes T: "MASK_4KIB T = T" and z: "\<forall>i<512. entries m (PHYS_TO_VIRT T) i = 0"
    and own: "\<forall>a. MASK_4KIB a = PHYS_TO_VIRT T \<longrightarrow> \<not> own_cells s B A a"
  shows "tables_inv s B A m T"
  unfolding tables_inv_def
proof (intro conjI allI impI, goal_cases)
  case (1 "is" X)
  then have "X = T" using empty_table(1) [OF T z] by blast
  then show ?case using T own entry_cell(1) [OF T] by (simp add: table_ok_def)
next
  case (2 "is" js X)
  then show ?case using empty_table(1) [OF T z] by blast
next
  case (3 "is" i)
  then show ?case using empty_table(2) [OF T z] by simp
qed

definition three_blocks :: phys where
  "three_blocks = sample_phys \<lparr> pmem := (\<lambda>_. 0)(0xFFFF800000110008 := 3, 0xFFFF800000110010 := 0xFFFF800000400000,
     0xFFFF800000400000 := 0xFFFF800000600000, 0xFFFF800000600000 := 0xFFFF800000800000) \<rparr>"

abbreviation block_list :: "addr list" where
  "block_list \<equiv> [0xFFFF800000400000, 0xFFFF800000600000, 0xFFFF800000800000]"

lemma block_list_usable: "b \<in> set block_list \<Longrightarrow> usable_block three_blocks b"
  by (auto simp: usable_block_def block_base_def MASK_2MIB_def three_blocks_def sample_phys_def)

lemma three_blocks_rep: "phys_rep three_blocks block_list [] []"
  using block_list_usable by (simp add: phys_rep_def three_blocks_def sample_phys_def stack_at_def)

abbreviation three_avail :: "addr set" where
  "three_avail \<equiv> VIRT_TO_PHYS ` avail_pages block_list []"

lemma three_avail_page:
  assumes "p \<in> three_avail"
  shows "p < 2 ^ 39" and "MASK_2MIB (PHYS_TO_VIRT p) \<in> set block_list"
proof -
  from assms obtain b q where b: "b \<in> set block_list" "q \<in> pool_pages b" "p = VIRT_TO_PHYS q"
    by (auto simp: avail_pages_def)
  have "block_base b" using usable_blockD(1) [OF block_list_usable [OF b(1)]] .
  then have m: "MASK_2MIB q = b" using b(2) by (rule pool_pages_block)
  then show "MASK_2MIB (PHYS_TO_VIRT p) \<in> set block_list" using b(1,3) by simp
  have "MASK_2MIB p = VIRT_TO_PHYS b" using m b(3) by (simp add: MASK_2MIB_VIRT_TO_PHYS)
  then have "unat p < unat (VIRT_TO_PHYS b) + 2 ^ 21"
    using MASK_2MIB_eq_iff [of "VIRT_TO_PHYS b" p] by (metis MASK_2MIB_idem)
  moreover have "unat (VIRT_TO_PHYS b) \<le> 0x800000" using b(1) by (auto simp: VIRT_TO_PHYS_def)
  ultimately show "p < 2 ^ 39" by (simp add: word_less_nat_alt)
qed

lemma three_blocks_inv: "pt_inv 0xFFFF800000110008 (set block_list) three_avail three_blocks 0x101000"
  and three_blocks_mark: "mark_ok (pmem three_blocks) 0x101000 alloc_init"
proof -
  have T: "MASK_4KIB 0x101000 = 0x101000" by (simp add: MASK_4KIB_def)
  have z: "\<forall>i<512. entries (pmem three_blocks) (PHYS_TO_VIRT 0x101000) i = 0"
  proof (intro allI impI)
    fix i :: u64 assume "i < 512"
    then have m: "MASK_4KIB (PHYS_TO_VIRT 0x101000 + 8 * i) = 0xFFFF800000101000"
      using entry_cell(1) [OF T] by (simp add: PHYS_TO_VIRT_def)
    have "PHYS_TO_VIRT 0x101000 + 8 * i \<notin> {0xFFFF800000110008, 0xFFFF800000110010, 0xFFFF800000400000, 0xFFFF800000600000}"
    proof
      assume "PHYS_TO_VIRT 0x101000 + 8 * i \<in> {0xFFFF800000110008, 0xFFFF800000110010, 0xFFFF800000400000, 0xFFFF800000600000}"
      then have "MASK_4KIB (PHYS_TO_VIRT 0x101000 + 8 * i) \<in>
        MASK_4KIB ` {0xFFFF800000110008, 0xFFFF800000110010, 0xFFFF800000400000, 0xFFFF800000600000}" by (rule imageI)
      then show False unfolding m by (simp add: MASK_4KIB_def)
    qed
    then show "entries (pmem three_blocks) (PHYS_TO_VIRT 0x101000) i = 0" by (simp add: three_blocks_def)
  qed
  have own: "\<not> own_cells 0xFFFF800000110008 (set block_list) three_avail a" if a: "MASK_4KIB a = PHYS_TO_VIRT 0x101000" for a
  proof -
    have "0x101000 \<notin> three_avail"
      using three_avail_page(2) [of "0x101000"] by (auto simp: MASK_2MIB_def PHYS_TO_VIRT_def)
    moreover have "a \<noteq> 0xFFFF800000110008" "a \<noteq> 0xFFFF800000110010"
      using a by (auto simp: MASK_4KIB_def PHYS_TO_VIRT_def)
    ultimately show ?thesis using a by (simp add: own_cells_def) (simp add: PHYS_TO_VIRT_def)
  qed
  have "tables_inv 0xFFFF800000110008 (set block_list) three_avail (pmem three_blocks) 0x101000"
    by (rule empty_table_inv [OF T z]) (use own in blast)
  moreover have "frames_inv 0xFFFF800000110008 (set block_list) three_blocks three_avail"
    unfolding frames_inv_def using three_blocks_rep
    by (intro conjI exI [of _ block_list] exI [of _ "[]"]) (simp_all add: three_blocks_def sample_phys_def)
  ultimately show "pt_inv 0xFFFF800000110008 (set block_list) three_avail three_blocks 0x101000"
    using three_avail_page(1) by (simp add: pt_inv_def)
  have "entry_at (pmem three_blocks) 0x101000 (pd_path a) (PDT_INDEX a) = 0" for a
    by (rule empty_table(2) [OF T z paths(3) index_less(3)])
  then show "mark_ok (pmem three_blocks) 0x101000 alloc_init"
    by (auto simp: mark_ok_def alloc_init_def water_mark_init_def MASK_2MIB_def)
qed


text \<open>A mark with room above its page mark.\<close>

abbreviation sample_wma :: WaterMarkAllocator where
  "sample_wma \<equiv> \<lparr> page_address = 0x200000, current_address = 0x400000, current_size = 0, max_size = 0x400000 \<rparr>"

lemma sample_wma_alloc:
  "water_mark_alloc_align kernel_table st sample_wma (push_bit 4 1) 8 =
     Inr (0x3FFFF8, st, sample_wma \<lparr> current_address := 0x3FFFF8, current_size := 8 \<rparr>)"
  "water_mark_alloc kernel_table st sample_wma 0x100 =
     Inr (0x3FFF00, st, sample_wma \<lparr> current_address := 0x3FFF00, current_size := 0x100 \<rparr>)"
  by (simp_all add: water_mark_alloc_def water_mark_alloc_align_def ALIGN_def map_down_done)

lemma low_bits_zero_iff: "(x :: u64) AND (push_bit k 1 - 1) = 0 \<longleftrightarrow> 2 ^ k dvd x"
  by (simp add: push_bit_of_1 flip: mask_eq_exp_minus_1 take_bit_eq_mask) (simp add: take_bit_eq_0_iff)

text \<open>\<open>water_mark_alloc_align\<close> aligns the old mark upwards and then subtracts the size, so it does
  not align what it returns: from an aligned mark the result of an aligned request is aligned if
  and only if the size happens to be a multiple of the alignment.\<close>

lemma water_mark_alloc_align_ignores_alignment:
  assumes "water_mark_alloc_align kernel_table st wma (push_bit k 1) sz = Inr (p, st', wma')"
    and "current_address wma AND (push_bit k 1 - 1) = 0"
  shows "p AND (push_bit k 1 - 1) = 0 \<longleftrightarrow> sz AND (push_bit k 1 - 1) = 0"
proof -
  define x :: u64 where "x = current_address wma"
  define b :: u64 where "b = push_bit k 1 - 1"
  have b: "b = mask k" by (simp add: b_def push_bit_of_1 mask_eq_exp_minus_1)
  have x: "x AND mask k = 0" using assms(2) unfolding x_def b [symmetric] b_def .
  have "ALIGN x (push_bit k 1) = x"
  proof -
    have "x + mask k = x OR mask k" using x by (simp add: disjunctive_add bit_eq_iff bit_simps)
    then have "(x + b) AND NOT b = x" using x unfolding b
      by (intro bit_word_eqI) (auto simp: bit_eq_iff bit_simps)
    then show ?thesis by (simp add: ALIGN_def b_def add_diff_eq)
  qed
  then have "p + sz = x" using water_mark_alloc_align_result(1) [OF assms(1)] by (simp add: x_def)
  moreover have "2 ^ k dvd x" using assms(2) unfolding low_bits_zero_iff x_def .
  ultimately show ?thesis unfolding low_bits_zero_iff
    by (metis dvd_add_right_iff dvd_add_left_iff)
qed

lemma water_mark_alloc_align_ignores_alignment_witness:
  "(0x3FFFF8 :: u64) AND (push_bit 4 1 - 1) = 0 \<longleftrightarrow> (8 :: u64) AND (push_bit 4 1 - 1) = 0"
  using water_mark_alloc_align_ignores_alignment [OF sample_wma_alloc(1)] by simp

end
