(* ===== verification/Interrupts.thy ===== *)
theory Interrupts
  imports Paging
begin

text \<open>
  \<open>arch/x86_64/interrupts/apic.c\<close>, \<open>tss.c\<close>, \<open>interrupts.c\<close> and \<open>interrupts.h\<close>: the
  local APIC and its timer, the task state segment, the interrupt descriptor table and the
  table of handlers.  The record \<open>cpu\<close> holds what these files write: the processor's
  registers and device registers, the bytes sent to I/O ports in their order, the descriptor
  tables and the static variables of the timer.  What the code reads from the hardware (the
  CPU identification, the state of port 0x61, the current count of the timer) is an argument.
  The addresses of handlers and stubs are the values of a \<open>u64\<close>.
\<close>

section \<open>State\<close>

record IDT_Gate =
  offset_L :: u16
  segment_selector :: u16
  ist :: u8
  gate_flags :: u8
  offset_H :: u16
  offset_HH :: u32
  gate_reserved :: u32

record TSS_Descriptor =
  tss_limit :: u16
  base1 :: u16
  base2 :: u8
  tss_flags :: u8
  limit2 :: u8
  base3 :: u8
  base4 :: u32
  tss_reserved :: u32

record TSS =
  tss_rsp :: "u64 list"
  tss_ist :: "u64 list"
  io_map_base :: u16

datatype isr =
    Default_handler
  | Serial_handler
  | Spurious_handler
  | Timer_handler
  | Keyboard_handler
  | Syscall_interrupt
  | Hda_interrupt_handler

record cpu =
  cr3 :: addr
  out8 :: "(u16 \<times> u8) list"
  lapic :: "u32 \<Rightarrow> u32"
  apic_base_msr :: "u32 \<times> u32"
  tsc_per_sec :: u32
  timer_delay :: u32
  idt :: "u64 \<Rightarrow> IDT_Gate"
  isr_table :: "u64 \<Rightarrow> isr"
  tss_seg_64 :: TSS_Descriptor
  kernel_TSS :: TSS

definition outb :: "u16 \<Rightarrow> u8 \<Rightarrow> cpu \<Rightarrow> cpu" where
  "outb port val c = c \<lparr> out8 := out8 c @ [(port, val)] \<rparr>"

definition set_lapic :: "u32 \<Rightarrow> u32 \<Rightarrow> cpu \<Rightarrow> cpu" where
  "set_lapic reg val c = c \<lparr> lapic := (lapic c)(reg := val) \<rparr>"

text \<open>The registers of the local APIC, by their byte offset.\<close>

abbreviation APIC_EOI :: u32 where "APIC_EOI \<equiv> 0xB0"
abbreviation APIC_TIMER_REG :: u32 where "APIC_TIMER_REG \<equiv> 0x320"
abbreviation APIC_LINT0_REG :: u32 where "APIC_LINT0_REG \<equiv> 0x350"
abbreviation APIC_LINT1_REG :: u32 where "APIC_LINT1_REG \<equiv> 0x360"
abbreviation APIC_PERF_CNT_REG :: u32 where "APIC_PERF_CNT_REG \<equiv> 0x340"
abbreviation APIC_TPR :: u32 where "APIC_TPR \<equiv> 0x80"
abbreviation APIC_SPURIOUS_REG :: u32 where "APIC_SPURIOUS_REG \<equiv> 0xF0"
abbreviation APIC_TIMER_DIV_REG :: u32 where "APIC_TIMER_DIV_REG \<equiv> 0x3E0"
abbreviation APIC_TIMER_INIT_REG :: u32 where "APIC_TIMER_INIT_REG \<equiv> 0x380"
abbreviation APIC_DISABLE :: u32 where "APIC_DISABLE \<equiv> 0x10000"
abbreviation APIC_NMI :: u32 where "APIC_NMI \<equiv> 0x400"
abbreviation APIC_SOFT_EN :: u32 where "APIC_SOFT_EN \<equiv> 0x100"
abbreviation APIC_VIRT_LOC :: u64 where "APIC_VIRT_LOC \<equiv> 0xFFFFFFFFFFFFF000"

abbreviation PIC_MASTER_CMD_PORT :: u16 where "PIC_MASTER_CMD_PORT \<equiv> 0x20"
abbreviation PIC_MASTER_IMR_PORT :: u16 where "PIC_MASTER_IMR_PORT \<equiv> 0x21"
abbreviation PIC_SLAVE_CMD_PORT :: u16 where "PIC_SLAVE_CMD_PORT \<equiv> 0xA0"
abbreviation PIC_SLAVE_IMR_PORT :: u16 where "PIC_SLAVE_IMR_PORT \<equiv> 0xA1"
abbreviation PIC_EOI :: u8 where "PIC_EOI \<equiv> 0x20"
abbreviation PC_SPEAKER :: u16 where "PC_SPEAKER \<equiv> 0x61"
abbreviation CMD_PORT :: u16 where "CMD_PORT \<equiv> 0x43"
abbreviation CH2_DATA_PORT :: u16 where "CH2_DATA_PORT \<equiv> 0x42"

section \<open>The two interrupt controllers and the timer\<close>

definition pic_acknowledge :: "u64 \<Rightarrow> cpu \<Rightarrow> cpu" where
  "pic_acknowledge vector c =
     (if vector \<ge> 0x20 \<and> vector < 0x30
      then let c = outb PIC_MASTER_CMD_PORT PIC_EOI c
           in if vector > 0x28 then outb PIC_SLAVE_CMD_PORT PIC_EOI c else c
      else c)"

definition pic_init :: "cpu \<Rightarrow> cpu" where
  "pic_init c =
     (let c = outb PIC_MASTER_CMD_PORT (0x10 OR 0x01) c;
          c = outb PIC_SLAVE_CMD_PORT (0x10 OR 0x01) c;
          c = outb PIC_MASTER_IMR_PORT 0x20 c;
          c = outb PIC_SLAVE_IMR_PORT 0x28 c;
          c = outb PIC_MASTER_IMR_PORT 0x04 c;
          c = outb PIC_SLAVE_IMR_PORT 0x02 c;
          c = outb PIC_MASTER_IMR_PORT 0x1 c;
          c = outb PIC_SLAVE_IMR_PORT 0x1 c;
          c = outb PIC_MASTER_IMR_PORT 0x0 c
      in outb PIC_SLAVE_IMR_PORT 0x0 c)"

text \<open>\<open>edx\<close> is what CPUID leaf 1 returned.\<close>

definition check_apic :: "u32 \<Rightarrow> bool" where
  "check_apic edx \<longleftrightarrow> edx AND 0x100 > 0"

definition enable_apic :: "cpu \<Rightarrow> cpu" where
  "enable_apic c =
     (let (eax, edx) = apic_base_msr c in c \<lparr> apic_base_msr := (eax OR 0x800, edx) \<rparr>)"

definition apic_base_address :: "cpu \<Rightarrow> u32" where
  "apic_base_address c = fst (apic_base_msr c) AND 0xFFFFF000"

definition timer_one_ms :: "cpu \<Rightarrow> u32" where
  "timer_one_ms c = tsc_per_sec c div 1000 div 128"

definition timer_set_delay :: "u32 \<Rightarrow> cpu \<Rightarrow> cpu" where
  "timer_set_delay delay c = c \<lparr> timer_delay := delay \<rparr>"

text \<open>\<open>count\<close> is the value read from the current-count register.\<close>

definition timer_get_elapsed :: "cpu \<Rightarrow> u32 \<Rightarrow> u32 res" where
  "timer_get_elapsed c count =
     kassert ''apic.c'' 156 (timer_delay c \<ge> count) (Inr (timer_delay c - count))"

definition timer_start :: "cpu \<Rightarrow> cpu" where
  "timer_start c = set_lapic APIC_TIMER_INIT_REG (timer_delay c) c"

definition timer_resume :: "u32 \<Rightarrow> cpu \<Rightarrow> cpu" where
  "timer_resume count c = set_lapic APIC_TIMER_INIT_REG count c"

definition timer_stop :: "cpu \<Rightarrow> cpu" where
  "timer_stop c = set_lapic APIC_TIMER_INIT_REG 0 c"

definition apic_eoi :: "cpu \<Rightarrow> cpu" where
  "apic_eoi c = set_lapic APIC_EOI 0 c"

text \<open>The wait for the PIT: \<open>speaker n\<close> is what the \<open>n\<close>-th read of port 0x61 returns.\<close>

partial_function (option) wait_pit :: "(nat \<Rightarrow> u8) \<Rightarrow> nat \<Rightarrow> nat option" where
  "wait_pit speaker n = (if speaker n AND 0x20 \<noteq> 0 then Some n else wait_pit speaker (Suc n))"

section \<open>Handlers and descriptor tables\<close>

definition interrupts_install_isr :: "u64 \<Rightarrow> isr \<Rightarrow> cpu \<Rightarrow> cpu" where
  "interrupts_install_isr index handler c = c \<lparr> isr_table := (isr_table c)(index := handler) \<rparr>"

definition set_idt_entry :: "u64 \<Rightarrow> u64 \<Rightarrow> cpu \<Rightarrow> cpu res" where
  "set_idt_entry index fn_loc c =
     (if index > 255 then Inl (Panic ''Bad interrupt handler!'')
      else Inr (c \<lparr> idt := (idt c)(index :=
        \<lparr> offset_L = ucast (fn_loc AND 0xFFFF),
          segment_selector = 0x10,
          ist = 0,
          gate_flags = (if index \<noteq> 0x80 then 0x8E else 0xEE),
          offset_H = ucast (drop_bit 16 fn_loc AND 0xFFFF),
          offset_HH = ucast (drop_bit 32 fn_loc AND 0xFFFFFFFF),
          gate_reserved = 0 \<rparr>) \<rparr>))"

text \<open>\<open>KERNEL_STACK_LOCATION\<close> is \<open>KERNEL_BASE + (KERNEL_LOAD_LOCATION - 0x4)\<close>.\<close>

abbreviation KERNEL_STACK_LOCATION :: u64 where
  "KERNEL_STACK_LOCATION \<equiv> KERNEL_BASE + (0x200000 - 0x4)"

definition setup_kernel_tss :: "u64 \<Rightarrow> cpu \<Rightarrow> cpu" where
  "setup_kernel_tss tss_base c =
     (let limit = 104 :: u64
      in c \<lparr> tss_seg_64 :=
               \<lparr> tss_limit = ucast (limit AND 0xFF),
                 base1 = ucast (tss_base AND 0xFFFF),
                 base2 = ucast (drop_bit 16 (tss_base AND 0xFF0000)),
                 tss_flags = 0x80 OR 0x00 OR 0x9,
                 limit2 = ucast (drop_bit 16 (limit AND 0xF0000)),
                 base3 = ucast (drop_bit 24 (tss_base AND 0xFF000000)),
                 base4 = ucast (drop_bit 32 (tss_base AND 0xFFFFFFFF00000000)),
                 tss_reserved = 0 \<rparr>,
             kernel_TSS :=
               \<lparr> tss_rsp = (replicate 3 0)[0 := KERNEL_STACK_LOCATION],
                 tss_ist = (replicate 7 0)[0 := KERNEL_STACK_LOCATION],
                 io_map_base = 104 \<rparr> \<rparr>)"

definition tss_set_context_stack :: "u64 \<Rightarrow> cpu \<Rightarrow> cpu" where
  "tss_set_context_stack location c =
     c \<lparr> kernel_TSS := (kernel_TSS c) \<lparr> tss_rsp := (tss_rsp (kernel_TSS c))[0 := location] \<rparr> \<rparr>"

definition setup_tss_descriptor :: "u64 \<Rightarrow> cpu \<Rightarrow> cpu" where
  "setup_tss_descriptor kernel_TSS_address c = setup_kernel_tss kernel_TSS_address c"


section \<open>Setting up the local APIC\<close>

text \<open>
  \<open>edx\<close> and \<open>speaker\<close> as above; \<open>count\<close> is the current count of the APIC timer when the PIT
  has run for 10 ms.
\<close>

definition calibrate_timer :: "(nat \<Rightarrow> u8) \<Rightarrow> u32 \<Rightarrow> cpu \<Rightarrow> cpu res" where
  "calibrate_timer speaker count c =
     (let c = outb PC_SPEAKER ((speaker 0 AND 0xFD) OR 1) c;
          c = outb CMD_PORT (0x80 OR 0x2 OR push_bit 4 0x3) c;
          c = outb CH2_DATA_PORT 0x9C c;
          c = outb CH2_DATA_PORT 0x2E c;
          tmp = speaker 1 AND 0xFE;
          c = outb PC_SPEAKER tmp c;
          c = outb PC_SPEAKER (tmp OR 1) c;
          c = set_lapic APIC_TIMER_INIT_REG 0xFFFFFFFF c
      in and_then (returned_by (wait_pit speaker 2)) (\<lambda>_.
         let c = set_lapic APIC_TIMER_INIT_REG 0 c;
             diff = 0xFFFFFFFF - count
         in Inr (c \<lparr> tsc_per_sec := diff * 100 * 128 \<rparr>)))"

definition apic_init ::
  "addr \<Rightarrow> u32 \<Rightarrow> (nat \<Rightarrow> u8) \<Rightarrow> u32 \<Rightarrow> phys \<Rightarrow> cpu \<Rightarrow> (phys \<times> cpu) res" where
  "apic_init kernel_table edx speaker count st c =
     (let c = pic_init c
      in if \<not> check_apic edx then Inl (Panic ''Processor does not have local APIC!'')
         else
           let apic_location = apic_base_address c
           in if apic_location = 0 then Inl (Panic (''No APIC present! '' @ newline))
              else and_then (virt_map_phys st kernel_table APIC_VIRT_LOC (ucast apic_location)
                      (PG_FLAG_RW OR PG_FLAG_PWT OR PG_FLAG_PCD) PAGE_SMALL) (\<lambda>(r, st).
                if r = 0 then Inl (Panic (''Failed APIC virtual mapping '' @ newline))
                else
                  let c = set_lapic APIC_TIMER_REG APIC_DISABLE c;
                      c = set_lapic APIC_PERF_CNT_REG APIC_NMI c;
                      c = set_lapic APIC_LINT0_REG APIC_DISABLE c;
                      c = set_lapic APIC_LINT1_REG APIC_DISABLE c;
                      c = set_lapic APIC_TPR 0 c;
                      c = enable_apic c;
                      c = set_lapic APIC_SPURIOUS_REG (39 OR APIC_SOFT_EN) c;
                      c = set_lapic APIC_TIMER_REG 32 c;
                      c = set_lapic APIC_TIMER_DIV_REG 0xA c
                  in and_then (calibrate_timer speaker count c) (\<lambda>c.
                     let c = outb PIC_SLAVE_IMR_PORT 0xFF c;
                         c = outb PIC_MASTER_IMR_PORT 0xFD c;
                         c = set_lapic APIC_LINT0_REG 0x8700 c
                     in Inr (st, interrupts_install_isr 32 Timer_handler c))))"

text \<open>
  The loop of \<open>interrupts_init\<close> that fills the descriptor table: \<open>isr_stub_table\<close> are the
  addresses of the assembly stubs.
\<close>

definition fill_idt :: "(u64 \<Rightarrow> u64) \<Rightarrow> cpu \<Rightarrow> cpu res" where
  "fill_idt isr_stub_table c =
     and_then (for_each [0..<256] (\<lambda>i c.
         and_then (set_idt_entry (of_nat i) (isr_stub_table (of_nat i)) c) (\<lambda>c.
         Inr (interrupts_install_isr (of_nat i) Default_handler c))) c) (\<lambda>c.
       let c = interrupts_install_isr 36 Serial_handler c
       in Inr (interrupts_install_isr 39 Spurious_handler c))"

section \<open>The descriptor table\<close>

text \<open>The address a gate jumps to, and the privilege level that may call it.\<close>

definition gate_target :: "IDT_Gate \<Rightarrow> u64" where
  "gate_target g = push_bit 32 (ucast (offset_HH g)) OR push_bit 16 (ucast (offset_H g)) OR ucast (offset_L g)"

definition gate_dpl :: "IDT_Gate \<Rightarrow> u8" where
  "gate_dpl g = drop_bit 5 (gate_flags g) AND 3"

lemma gate_target_set:
  assumes "set_idt_entry index fn_loc c = Inr c'"
  shows "gate_target (idt c' index) = fn_loc"
proof -
  have "push_bit 32 (ucast (ucast (drop_bit 32 fn_loc AND 0xFFFFFFFF) :: u32)) OR
      push_bit 16 (ucast (ucast (drop_bit 16 fn_loc AND 0xFFFF) :: u16)) OR
      ucast (ucast (fn_loc AND 0xFFFF) :: u16) = (fn_loc :: u64)"
  proof -
    have m: "(0xFFFFFFFF :: u64) = mask 32" "(0xFFFF :: u64) = mask 16" by (simp_all add: mask_eq_exp_minus_1)
    show ?thesis unfolding m
    proof (rule bit_word_eqI)
      fix n assume "n < LENGTH(64)"
      then show "bit (push_bit 32 (ucast (ucast (drop_bit 32 (fn_loc :: u64) AND mask 32) :: u32)) OR
          push_bit 16 (ucast (ucast (drop_bit 16 fn_loc AND mask 16) :: u16)) OR
          ucast (ucast (fn_loc AND mask 16) :: u16) :: u64) n = bit (fn_loc :: u64) n"
        by (cases "n < 16"; cases "n < 32") (simp_all add: bit_simps less_diff_conv2)
    qed
  qed
  then show ?thesis using assms by (auto simp: set_idt_entry_def gate_target_def split: if_splits)
qed


definition gate_ok :: "(u64 \<Rightarrow> u64) \<Rightarrow> cpu \<Rightarrow> u64 \<Rightarrow> bool" where
  "gate_ok stubs c v \<longleftrightarrow> gate_target (idt c v) = stubs v \<and> gate_dpl (idt c v) = (if v = 0x80 then 3 else 0)"

lemma set_idt_entry_ok:
  assumes "index \<le> 255"
  obtains c' where "set_idt_entry index (stubs index) c = Inr c'" and "gate_ok stubs c' index"
    and "\<And>v. v \<noteq> index \<Longrightarrow> idt c' v = idt c v" and "isr_table c' = isr_table c"
proof -
  obtain c' where c': "set_idt_entry index (stubs index) c = Inr c'"
    using assms by (simp add: set_idt_entry_def leD)
  moreover have "gate_dpl (idt c' index) = (if index = 0x80 then 3 else 0)"
    using c' assms by (auto simp: set_idt_entry_def gate_dpl_def leD)
  moreover have "idt c' v = idt c v" if "v \<noteq> index" for v
    using c' that by (auto simp: set_idt_entry_def split: if_splits)
  moreover have "isr_table c' = isr_table c"
    using c' by (auto simp: set_idt_entry_def split: if_splits)
  ultimately show thesis using that gate_target_set [OF c'] by (simp add: gate_ok_def)
qed

definition fill_entry :: "(u64 \<Rightarrow> u64) \<Rightarrow> nat \<Rightarrow> cpu \<Rightarrow> cpu res" where
  "fill_entry stubs i c =
     and_then (set_idt_entry (of_nat i) (stubs (of_nat i)) c) (\<lambda>c.
     Inr (interrupts_install_isr (of_nat i) Default_handler c))"

lemma fill_idt_eq:
  "fill_idt stubs c = and_then (for_each [0..<256] (fill_entry stubs) c) (\<lambda>c.
     let c = interrupts_install_isr 36 Serial_handler c
     in Inr (interrupts_install_isr 39 Spurious_handler c))"
  unfolding fill_idt_def fill_entry_def [abs_def] by (rule refl)

lemma fill_entries:
  "n \<le> 256 \<Longrightarrow> \<exists>c'. for_each [0..<n] (fill_entry stubs) c = Inr c' \<and>
     (\<forall>i<n. gate_ok stubs c' (of_nat i) \<and> isr_table c' (of_nat i) = Default_handler)"
proof (induction n)
  case 0
  then show ?case by simp
next
  case (Suc n)
  then obtain c1 where c1: "for_each [0..<n] (fill_entry stubs) c = Inr c1"
    "\<forall>i<n. gate_ok stubs c1 (of_nat i) \<and> isr_table c1 (of_nat i) = Default_handler" by auto
  have "(of_nat n :: u64) \<le> 255" using Suc.prems by (simp add: word_le_nat_alt unat_of_nat_u64)
  then obtain c2 where c2: "set_idt_entry (of_nat n) (stubs (of_nat n)) c1 = Inr c2"
    "gate_ok stubs c2 (of_nat n)" "\<And>v. v \<noteq> of_nat n \<Longrightarrow> idt c2 v = idt c1 v" "isr_table c2 = isr_table c1"
    using set_idt_entry_ok [of "of_nat n" stubs c1] by blast
  have ne: "(of_nat i :: u64) \<noteq> of_nat n" if "i < n" for i
    using that Suc.prems by (simp add: of_nat_u64_inject)
  have "gate_ok stubs (interrupts_install_isr (of_nat n) Default_handler c2) (of_nat i) \<and>
      isr_table (interrupts_install_isr (of_nat n) Default_handler c2) (of_nat i) = Default_handler"
    if "i < Suc n" for i
  proof (cases "i = n")
    case True
    with c2(2) show ?thesis by (simp add: interrupts_install_isr_def gate_ok_def)
  next
    case False
    with that ne c1(2) c2(3,4) show ?thesis by (simp add: interrupts_install_isr_def gate_ok_def)
  qed
  moreover have "fill_entry stubs n c1 = Inr (interrupts_install_isr (of_nat n) Default_handler c2)"
    by (simp add: fill_entry_def c2(1))
  ultimately show ?case using c1(1) by (simp add: for_each_append)
qed

lemma fill_idt_gates:
  "\<exists>c'. fill_idt stubs c = Inr c' \<and>
     (\<forall>i<256. gate_target (idt c' (of_nat i)) = stubs (of_nat i) \<and>
        gate_dpl (idt c' (of_nat i)) = (if i = 0x80 then 3 else 0) \<and>
        isr_table c' (of_nat i) =
          (if i = 36 then Serial_handler else if i = 39 then Spurious_handler else Default_handler))"
proof -
  obtain c1 where c1: "for_each [0..<256] (fill_entry stubs) c = Inr c1"
    "\<forall>i<256. gate_ok stubs c1 (of_nat i) \<and> isr_table c1 (of_nat i) = Default_handler"
    using fill_entries [of 256] by blast
  define c2 where "c2 = interrupts_install_isr 39 Spurious_handler (interrupts_install_isr 36 Serial_handler c1)"
  have "fill_idt stubs c = Inr c2"
    by (simp only: fill_idt_eq c1(1) and_then_simps Let_def c2_def)
  moreover have "gate_target (idt c2 (of_nat i)) = stubs (of_nat i) \<and>
      gate_dpl (idt c2 (of_nat i)) = (if i = 0x80 then 3 else 0) \<and>
      isr_table c2 (of_nat i) =
        (if i = 36 then Serial_handler else if i = 39 then Spurious_handler else Default_handler)"
    if i: "i < 256" for i
  proof -
    have eq: "(of_nat i :: u64) = of_nat k \<longleftrightarrow> i = k" if "k < 256" for k
      using i that by (intro of_nat_u64_inject) simp_all
    have "gate_ok stubs c1 (of_nat i)" "isr_table c1 (of_nat i) = Default_handler" using c1(2) i by auto
    then show ?thesis
      using eq [of 128] eq [of 36] eq [of 39]
      by (simp add: c2_def gate_ok_def interrupts_install_isr_def)
  qed
  ultimately show ?thesis by blast
qed

text \<open>C29. \<open>interrupts_init\<close> fills every gate of the descriptor table with the address of its stub,
  split over the three offset fields; only the gate of the system call may be called from user
  mode; and every vector but 36 and 39 is handled by the default handler.\<close>

theorem idt_gates_lead_to_stubs:
  "\<exists>c'. fill_idt stubs c = Inr c' \<and>
     (\<forall>i<256. gate_target (idt c' (of_nat i)) = stubs (of_nat i) \<and>
        gate_dpl (idt c' (of_nat i)) = (if i = 0x80 then 3 else 0) \<and>
        isr_table c' (of_nat i) =
          (if i = 36 then Serial_handler else if i = 39 then Spurious_handler else Default_handler))"
  by (rule fill_idt_gates)


text \<open>A processor before initialisation, for the examples.\<close>

definition reset_cpu :: cpu where
  "reset_cpu =
     (let gate = \<lparr> offset_L = 0, segment_selector = 0, ist = 0, gate_flags = 0, offset_H = 0, offset_HH = 0,
            gate_reserved = 0 \<rparr>;
          desc = \<lparr> tss_limit = 0, base1 = 0, base2 = 0, tss_flags = 0, limit2 = 0, base3 = 0, base4 = 0,
            tss_reserved = 0 \<rparr>
      in \<lparr> cr3 = 0, out8 = [], lapic = (\<lambda>_. 0), apic_base_msr = (0xFEE00000, 0), tsc_per_sec = 0,
           timer_delay = 0, idt = (\<lambda>_. gate), isr_table = (\<lambda>_. Default_handler), tss_seg_64 = desc,
           kernel_TSS = \<lparr> tss_rsp = replicate 3 0, tss_ist = replicate 7 0, io_map_base = 0 \<rparr> \<rparr>)"

theorem idt_gates_lead_to_stubs_witness:
  "\<exists>c'. fill_idt (\<lambda>v. 0xFFFF800000200000 + 16 * v) reset_cpu = Inr c' \<and>
     gate_target (idt c' 128) = 0xFFFF800000200800 \<and> gate_dpl (idt c' 128) = 3"
proof -
  obtain c' where c': "fill_idt (\<lambda>v. 0xFFFF800000200000 + 16 * v) reset_cpu = Inr c'"
    "\<forall>i<256. gate_target (idt c' (of_nat i)) = 0xFFFF800000200000 + 16 * of_nat i \<and>
        gate_dpl (idt c' (of_nat i)) = (if i = 0x80 then 3 else 0) \<and>
        isr_table c' (of_nat i) =
          (if i = 36 then Serial_handler else if i = 39 then Spurious_handler else Default_handler)"
    using idt_gates_lead_to_stubs [of "\<lambda>v. 0xFFFF800000200000 + 16 * v" reset_cpu] by blast
  from c'(2) [rule_format, of 128] have "gate_target (idt c' 128) = 0xFFFF800000200800"
    "gate_dpl (idt c' 128) = 3" by simp_all
  with c'(1) show ?thesis by blast
qed

text \<open>
  The slave controller's lines are programmed to the vectors from 0x28 on, but the interrupt of
  its first line is acknowledged at the master only.
\<close>

lemma pic_acknowledge_first_slave_line:
  "out8 (pic_acknowledge 0x28 c) = out8 c @ [(PIC_MASTER_CMD_PORT, PIC_EOI)]"
  "out8 (pic_acknowledge 0x29 c) = out8 c @ [(PIC_MASTER_CMD_PORT, PIC_EOI), (PIC_SLAVE_CMD_PORT, PIC_EOI)]"
  by (simp_all add: pic_acknowledge_def outb_def)

section \<open>The calibration of the timer\<close>

lemma calibrate_timer_result:
  "calibrate_timer speaker count c = Inr c' \<Longrightarrow>
     timer_one_ms c' = (0xFFFFFFFF - count) * 12800 div 1000 div 128"
  by (auto simp: calibrate_timer_def Let_def timer_one_ms_def mult.assoc)

text \<open>While the ticks counted in 10 ms fit, \<open>timer_one_ms\<close> is their tenth; from 335545
  ticks on, the product with 12800 wraps at 32 bits, and for that count a millisecond is 0 ticks
  long.\<close>

lemma timer_calibration_bounds:
  assumes "calibrate_timer speaker count c = Inr c'"
  shows "(unat (0xFFFFFFFF - count) \<le> 335544 \<longrightarrow>
      unat (timer_one_ms c') = unat (0xFFFFFFFF - count) div 10) \<and>
    (unat (0xFFFFFFFF - count) = 335545 \<longrightarrow> timer_one_ms c' = 0)"
proof (intro conjI impI)
  define d where "d = 0xFFFFFFFF - count"
  have r: "timer_one_ms c' = d * 12800 div 1000 div 128"
    using calibrate_timer_result [OF assms] by (simp add: d_def)
  show "unat (timer_one_ms c') = unat (0xFFFFFFFF - count) div 10"
    if "unat (0xFFFFFFFF - count) \<le> 335544"
  proof -
    have "unat (d * 12800) = unat d * 12800"
      using that by (simp add: unat_word_ariths d_def [symmetric])
    then have "unat (timer_one_ms c') = unat d * 12800 div 1000 div 128" by (simp add: r unat_div)
    also have "\<dots> = unat d div 10" by (simp add: div_mult2_eq [symmetric])
    finally show ?thesis by (simp add: d_def)
  qed
  show "timer_one_ms c' = 0" if "unat (0xFFFFFFFF - count) = 335545"
  proof -
    have "d = 335545" using that by (simp add: d_def [symmetric] word_unat_eq_iff)
    then show ?thesis by (simp add: r)
  qed
qed

lemma sample_calibration:
  "\<exists>c'. calibrate_timer (\<lambda>_. 0x20) (0xFFFFFFFF - 62500) c = Inr c'"
  by (simp add: calibrate_timer_def Let_def wait_pit.simps)

lemma timer_calibration_bounds_witness:
  "\<exists>c'. calibrate_timer (\<lambda>_. 0x20) (0xFFFFFFFF - 62500) reset_cpu = Inr c' \<and> unat (timer_one_ms c') = 6250"
proof -
  obtain c' where "calibrate_timer (\<lambda>_. 0x20) (0xFFFFFFFF - 62500) reset_cpu = Inr c'"
    using sample_calibration by blast
  with timer_calibration_bounds [OF this] show ?thesis by simp
qed

end
