(* ===== verification/Pcb.thy ===== *)
theory Pcb
  imports Interrupts Watermark NodePool
begin

text \<open>
  \<open>kernel/scheduler/pcb.h\<close> and the state of the kernel proper.  A PCB is a block of the
  allocator \<open>ba_pcbs\<close>: its pointer fields \<open>context\<close> and \<open>page_table\<close> are the cells at offsets
  0 and 8 (the first is also the link of the free stack), its narrow fields are the record
  \<open>pcbs s p\<close>.  The record \<open>kernel\<close> gathers the memory, the processor and the static variables
  of \<open>scheduler.c\<close>; \<open>queues\<close> and \<open>sleep_queue\<close> are the addresses of the static queues.
\<close>

datatype State = READY | RUNNING | SLEEPING | KILLED

datatype Priority = HIGH | NORMAL | LOW | IDLE

record PCB =
  sleep_time :: u32
  pid :: u32
  ppid :: u32
  state :: State
  priority :: Priority

primrec priority_index :: "Priority \<Rightarrow> nat" where
  "priority_index HIGH = 0"
| "priority_index NORMAL = 1"
| "priority_index LOW = 2"
| "priority_index IDLE = 3"

lemma priority_index_less: "priority_index p < 4"
  by (cases p) simp_all

lemma priority_index_inject: "priority_index p = priority_index p' \<longleftrightarrow> p = p'"
  by (cases p; cases p') simp_all

record kernel =
  ph :: phys
  kcpu :: cpu
  kernel_WaterMark :: WaterMarkAllocator
  kernel_table :: addr
  pcbs :: "addr \<Rightarrow> PCB"
  ba_pcbs :: addr
  ba_qnodes :: addr
  queues :: addr
  sleep_queue :: addr
  current_pcb :: addr
  prev_ticks :: u32
  quantum_left :: u32
  ten_ms :: u32
  one_ms :: u32

abbreviation sizeof_PCB :: u64 where "sizeof_PCB \<equiv> 40"
abbreviation sizeof_QueueNode :: u64 where "sizeof_QueueNode \<equiv> 16"
abbreviation sizeof_Queue :: u64 where "sizeof_Queue \<equiv> 24"

definition kmem :: "kernel \<Rightarrow> mem" where
  "kmem s = pmem (ph s)"

definition set_kmem :: "mem \<Rightarrow> kernel \<Rightarrow> kernel" where
  "set_kmem m s = s \<lparr> ph := (ph s) \<lparr> pmem := m \<rparr> \<rparr>"

definition set_pcb :: "addr \<Rightarrow> PCB \<Rightarrow> kernel \<Rightarrow> kernel" where
  "set_pcb p x s = s \<lparr> pcbs := (pcbs s)(p := x) \<rparr>"

definition pcb_context :: "kernel \<Rightarrow> addr \<Rightarrow> addr" where
  "pcb_context s p = kmem s p"

definition pcb_page_table :: "kernel \<Rightarrow> addr \<Rightarrow> addr" where
  "pcb_page_table s p = kmem s (p + 8)"

definition virt_switch_page_table :: "addr \<Rightarrow> kernel \<Rightarrow> kernel" where
  "virt_switch_page_table page_table s = s \<lparr> kcpu := (kcpu s) \<lparr> cr3 := page_table \<rparr> \<rparr>"

lemma kmem_set_kmem [simp]: "kmem (set_kmem m s) = m"
  by (simp add: kmem_def set_kmem_def)

lemma set_kmem_simps [simp]:
  "kcpu (set_kmem m s) = kcpu s" "pcbs (set_kmem m s) = pcbs s" "ba_pcbs (set_kmem m s) = ba_pcbs s"
  "ba_qnodes (set_kmem m s) = ba_qnodes s" "queues (set_kmem m s) = queues s"
  "sleep_queue (set_kmem m s) = sleep_queue s" "current_pcb (set_kmem m s) = current_pcb s"
  "prev_ticks (set_kmem m s) = prev_ticks s" "quantum_left (set_kmem m s) = quantum_left s"
  "one_ms (set_kmem m s) = one_ms s" "kernel_table (set_kmem m s) = kernel_table s"
  "set_kmem m' (set_kmem m s) = set_kmem m' s" "set_kmem (kmem s) s = s"
  by (simp_all add: set_kmem_def kmem_def)

lemma set_pcb_simps [simp]:
  "kmem (set_pcb p x s) = kmem s" "ba_qnodes (set_pcb p x s) = ba_qnodes s"
  "queues (set_pcb p x s) = queues s" "sleep_queue (set_pcb p x s) = sleep_queue s"
  "current_pcb (set_pcb p x s) = current_pcb s" "kcpu (set_pcb p x s) = kcpu s"
  "pcbs (set_pcb p x s) = (pcbs s)(p := x)"
  by (simp_all add: set_pcb_def kmem_def)

text \<open>
  The page tables the processor is using decide which memory a user address names; the
  kernel's own structures are reached through the window at \<open>KERNEL_BASE\<close>.
\<close>

definition user_cell :: "kernel \<Rightarrow> addr \<Rightarrow> addr res" where
  "user_cell s va = (case translate (kmem s) (cr3 (kcpu s)) va of
     None \<Rightarrow> Inl (Page_fault va) | Some pa \<Rightarrow> Inr (PHYS_TO_VIRT pa))"

definition user_read :: "kernel \<Rightarrow> addr \<Rightarrow> u64 res" where
  "user_read s va = and_then (user_cell s va) (\<lambda>a. Inr (kmem s a))"

definition user_write :: "addr \<Rightarrow> u64 \<Rightarrow> kernel \<Rightarrow> kernel res" where
  "user_write va v s = and_then (user_cell s va) (\<lambda>a. Inr (set_kmem ((kmem s)(a := v)) s))"

end
