(* ===== verification/Scheduler.thy ===== *)
theory Scheduler
  imports Pcb
begin

text \<open>
  \<open>kernel/scheduler/scheduler.c\<close>: four round-robin queues by priority, the sleep queue whose
  entries hold the time left after the entry before, and the dispatcher.  \<open>kprintf\<close> is
  compiled out.  The argument \<open>count\<close> of the functions that call \<open>timer_get_elapsed\<close> is what
  the timer's current-count register reads at that moment.  \<open>create_init_process\<close> is modelled
  with the ELF loader.
\<close>

section \<open>Setting up\<close>

abbreviation MAX_PCBS :: u64 where "MAX_PCBS \<equiv> 1024"
abbreviation MAX_QUEUE_NODES :: u64 where "MAX_QUEUE_NODES \<equiv> 2048"
abbreviation NUM_QUEUES :: nat where "NUM_QUEUES \<equiv> 4"

definition run_queue :: "kernel \<Rightarrow> nat \<Rightarrow> addr" where
  "run_queue s i = queues s + sizeof_Queue * of_nat i"

text \<open>Taking a region from the kernel's watermark allocator.\<close>

definition kernel_alloc :: "u64 \<Rightarrow> kernel \<Rightarrow> (addr \<times> kernel) res" where
  "kernel_alloc n s =
     and_then (water_mark_alloc (kernel_table s) (ph s) (kernel_WaterMark s) n) (\<lambda>(p, st, w).
       Inr (p, s \<lparr> ph := st, kernel_WaterMark := w \<rparr>))"

definition scheduler_init :: "kernel \<Rightarrow> kernel res" where
  "scheduler_init s =
     (let pcb_size_needed = sizeof_PCB * MAX_PCBS + sizeof_BlockAllocator
      in and_then (kernel_alloc pcb_size_needed s) (\<lambda>(ba_address, s).
         and_then (block_init (kmem s) ba_address pcb_size_needed sizeof_PCB) (\<lambda>(ba, m).
         let s = (set_kmem m s) \<lparr> ba_pcbs := ba \<rparr>;
             queue_node_size_needed = sizeof_QueueNode * MAX_QUEUE_NODES + sizeof_QueueNode
         in and_then (kernel_alloc queue_node_size_needed s) (\<lambda>(qn_address, s).
            and_then (block_init (kmem s) qn_address queue_node_size_needed sizeof_QueueNode) (\<lambda>(bq, m).
            let s = (set_kmem m s) \<lparr> ba_qnodes := bq \<rparr>;
                m = foldl (\<lambda>m i. queue_init m (run_queue s i)) (kmem s) [0..<NUM_QUEUES];
                m = queue_init m (sleep_queue s)
            in Inr (set_kmem m s))))))"

definition alloc_pcb :: "kernel \<Rightarrow> (addr \<times> kernel) res" where
  "alloc_pcb s =
     (let (pcb, m) = block_alloc (kmem s) (ba_pcbs s);
          s = set_kmem m s
      in if pcb = 0 then Inl (Panic ''Failed to allocate first PCB'')
         else Inr (pcb, set_pcb pcb ((pcbs s pcb) \<lparr> state := READY, priority := NORMAL \<rparr>) s))"

definition free_pcb :: "addr \<Rightarrow> kernel \<Rightarrow> kernel res" where
  "free_pcb pcb s = and_then (block_free (kmem s) (ba_pcbs s) pcb) (\<lambda>m. Inr (set_kmem m s))"

definition cleanup_pcb :: "addr \<Rightarrow> kernel \<Rightarrow> kernel res" where
  "cleanup_pcb pcb s =
     (let s = virt_switch_page_table (kernel_table s) s
      in and_then (virt_cleanup_table (ph s) (pcb_page_table s pcb)) (\<lambda>st.
         let s = s \<lparr> ph := st \<rparr>
         in Inr (set_pcb pcb ((pcbs s pcb) \<lparr> state := KILLED \<rparr>) s)))"

section \<open>Queueing\<close>

text \<open>The comparison passed to \<open>queue_enqueue_prio\<close>: it adjusts the sleep times as it compares.\<close>

definition sleep_insert :: "(addr \<Rightarrow> PCB) \<Rightarrow> addr \<Rightarrow> addr \<Rightarrow> int \<times> (addr \<Rightarrow> PCB)" where
  "sleep_insert h pcb1 pcb2 =
     (if sleep_time (h pcb1) \<le> sleep_time (h pcb2)
      then (-1, h(pcb2 := (h pcb2) \<lparr> sleep_time := sleep_time (h pcb2) - sleep_time (h pcb1) \<rparr>))
      else (1, h(pcb1 := (h pcb1) \<lparr> sleep_time := sleep_time (h pcb1) - sleep_time (h pcb2) \<rparr>)))"

text \<open>\<open>schedule\<close> always returns 1, which no caller reads.\<close>

definition schedule :: "addr \<Rightarrow> kernel \<Rightarrow> kernel res" where
  "schedule pcb s =
     (case state (pcbs s pcb) of
        READY \<Rightarrow>
          (let (node, m) = block_alloc (kmem s) (ba_qnodes s)
           in kassert ''scheduler.c'' 158 (node \<noteq> 0)
             (kassert ''scheduler.c'' 159 (priority_index (priority (pcbs s pcb)) < NUM_QUEUES)
               (let m = m(node + 8 := pcb);
                    m = queue_enqueue m (run_queue s (priority_index (priority (pcbs s pcb)))) node
                in Inr (set_kmem m s))))
      | SLEEPING \<Rightarrow>
          (let (node, m) = block_alloc (kmem s) (ba_qnodes s)
           in kassert ''scheduler.c'' 168 (node \<noteq> 0)
             (let m = m(node + 8 := pcb)
              in and_then (returned_by (queue_enqueue_prio sleep_insert m (pcbs s) (sleep_queue s) node))
                   (\<lambda>(m, h). Inr ((set_kmem m s) \<lparr> pcbs := h \<rparr>))))
      | _ \<Rightarrow> Inl (Panic ''Scheduler: Unhandled PCB state''))"

definition get_next_sleep :: "u32 \<Rightarrow> kernel \<Rightarrow> (u32 \<times> kernel) res" where
  "get_next_sleep tick_span s =
     (if queue_empty (kmem s) (sleep_queue s) then Inr (0, s)
      else
        let peek = queue_peek (kmem s) (sleep_queue s);
            pcb = kmem s (peek + 8)
        in if sleep_time (pcbs s pcb) \<le> tick_span
           then
             let s = set_pcb pcb ((pcbs s pcb) \<lparr> state := READY, sleep_time := 0 \<rparr>) s
             in and_then (schedule pcb s) (\<lambda>s.
                let (node, m) = queue_dequeue (kmem s) (sleep_queue s)
                in and_then (block_free m (ba_qnodes s) node) (\<lambda>m.
                   let s = set_kmem m s
                   in if \<not> queue_empty (kmem s) (sleep_queue s)
                      then Inr (sleep_time (pcbs s (kmem s (queue_peek (kmem s) (sleep_queue s) + 8))), s)
                      else Inr (0, s)))
           else
             let s = set_pcb pcb ((pcbs s pcb) \<lparr> sleep_time := sleep_time (pcbs s pcb) - tick_span \<rparr>) s
             in Inr (sleep_time (pcbs s pcb), s))"

section \<open>Dispatching\<close>

definition start_timer :: "kernel \<Rightarrow> kernel" where
  "start_timer s = s \<lparr> kcpu := timer_start (timer_set_delay (prev_ticks s * one_ms s) (kcpu s)) \<rparr>"

text \<open>
  The \<open>while\<close> loop over one queue: \<open>True\<close> when a process was picked (the C function returns),
  \<open>False\<close> when the queue ran empty.
\<close>

partial_function (option) pick_from :: "addr \<Rightarrow> kernel \<Rightarrow> (bool \<times> kernel) res option" where
  "pick_from q s =
     (if queue_empty (kmem s) q then Some (Inr (False, s))
      else
        let node = fst (queue_dequeue (kmem s) q);
            m = snd (queue_dequeue (kmem s) q)
        in if node = 0 then Some (Inl (Assert_failed ''scheduler.c'' 302))
           else
             let p = m (node + 8)
             in case block_free m (ba_qnodes s) node of
                  Inl e \<Rightarrow> Some (Inl e)
                | Inr m \<Rightarrow>
                    (let s = set_kmem m s
                     in case state (pcbs s p) of
                          KILLED \<Rightarrow> (case free_pcb p s of
                              Inl e \<Rightarrow> Some (Inl e)
                            | Inr s \<Rightarrow> pick_from q s)
                        | READY \<Rightarrow>
                            (let s = s \<lparr> current_pcb := p \<rparr>;
                                 s = virt_switch_page_table (pcb_page_table s (current_pcb s)) s
                             in Some (Inr (True, start_timer s)))
                        | _ \<Rightarrow> Some (Inl (Panic ''Scheduler: Unhandled case!''))))"

fun pick_next :: "nat list \<Rightarrow> kernel \<Rightarrow> kernel res" where
  "pick_next [] s = Inl (Panic ''Dispatch: Nothing left to run!'')"
| "pick_next (i # is) s =
     and_then (returned_by (pick_from (run_queue s i) s)) (\<lambda>r.
     and_then r (\<lambda>(found, s). if found then Inr s else pick_next is s))"

text \<open>What \<open>dispatch\<close> does with the process that was running.\<close>

definition retire_current :: "kernel \<Rightarrow> kernel res" where
  "retire_current s =
     (if state (pcbs s (current_pcb s)) = KILLED
      then and_then (cleanup_pcb (current_pcb s) s) (\<lambda>s. Inr (s \<lparr> current_pcb := 0, quantum_left := 10 \<rparr>))
      else if state (pcbs s (current_pcb s)) = SLEEPING \<or> quantum_left s = 0
      then and_then (schedule (current_pcb s) s) (\<lambda>s. Inr (s \<lparr> current_pcb := 0, quantum_left := 10 \<rparr>))
      else Inr s)"

definition dispatch :: "u32 \<Rightarrow> kernel \<Rightarrow> kernel res" where
  "dispatch count s =
     and_then (timer_get_elapsed (kcpu s) count) (\<lambda>ticks.
     if one_ms s = 0 then Inl Divide_error
     else
       let elapsed = ticks div one_ms s;
           tick_span = elapsed;
           s = (if tick_span > quantum_left s then s \<lparr> quantum_left := 0 \<rparr>
                else s \<lparr> quantum_left := quantum_left s - tick_span \<rparr>)
       in and_then (retire_current s) (\<lambda>s.
          let s = s \<lparr> prev_ticks := quantum_left s \<rparr>
          in and_then (get_next_sleep tick_span s) (\<lambda>(next_wakeup, s).
             let s = (if next_wakeup > 0 \<and> next_wakeup < quantum_left s
                      then s \<lparr> prev_ticks := next_wakeup \<rparr> else s)
             in if current_pcb s \<noteq> 0
                then kassert ''scheduler.c'' 287 (quantum_left s \<noteq> 0) (Inr (start_timer s))
                else kassert ''scheduler.c'' 294 (prev_ticks s > 0) (pick_next [0..<NUM_QUEUES] s))))"

definition sleep_pcb :: "u32 \<Rightarrow> addr \<Rightarrow> u32 \<Rightarrow> kernel \<Rightarrow> kernel res" where
  "sleep_pcb count pcb time s =
     (let s = (if time \<noteq> 0 then set_pcb pcb ((pcbs s pcb) \<lparr> state := SLEEPING, sleep_time := time \<rparr>) s else s)
      in dispatch count s)"

definition timer_interrupt :: "u32 \<Rightarrow> kernel \<Rightarrow> kernel res" where
  "timer_interrupt count s = dispatch count s"


section \<open>The scheduler's invariant\<close>

text \<open>
  \<open>sched_inv s n rq sl\<close>: the node allocator has \<open>n\<close> nodes, the \<open>i\<close>-th run queue holds the PCBs
  \<open>rq i\<close>, oldest first, and the sleep queue the PCBs \<open>sl\<close>.
\<close>

definition sched_queues :: "kernel \<Rightarrow> addr set" where
  "sched_queues s = insert (sleep_queue s) (run_queue s ` {..<NUM_QUEUES})"

definition sched_inv :: "kernel \<Rightarrow> nat \<Rightarrow> (nat \<Rightarrow> addr list) \<Rightarrow> addr list \<Rightarrow> bool" where
  "sched_inv s n rq sl \<longleftrightarrow>
     sleep_queue s \<notin> run_queue s ` {..<NUM_QUEUES} \<and>
     (\<exists>V. pool_rep (ba_qnodes s) n (sched_queues s) (kmem s) {} V \<and>
          (\<forall>i<NUM_QUEUES. map snd (V (run_queue s i)) = rq i) \<and> map snd (V (sleep_queue s)) = sl)"

definition queued_total :: "(nat \<Rightarrow> addr list) \<Rightarrow> addr list \<Rightarrow> nat" where
  "queued_total rq sl = length sl + (\<Sum>i<NUM_QUEUES. length (rq i))"

lemma sched_invI:
  "sleep_queue s \<notin> run_queue s ` {..<NUM_QUEUES} \<Longrightarrow>
   pool_rep (ba_qnodes s) n (sched_queues s) (kmem s) {} V \<Longrightarrow>
   (\<And>i. i < NUM_QUEUES \<Longrightarrow> map snd (V (run_queue s i)) = rq i) \<Longrightarrow>
   map snd (V (sleep_queue s)) = sl \<Longrightarrow> sched_inv s n rq sl"
  unfolding sched_inv_def by blast

lemma sched_invE:
  assumes "sched_inv s n rq sl"
  obtains V where "pool_rep (ba_qnodes s) n (sched_queues s) (kmem s) {} V"
    and "\<forall>i<NUM_QUEUES. map snd (V (run_queue s i)) = rq i" and "map snd (V (sleep_queue s)) = sl"
    and "sleep_queue s \<notin> run_queue s ` {..<NUM_QUEUES}"
  using assms unfolding sched_inv_def by blast

lemma run_queue_inject:
  "i < NUM_QUEUES \<Longrightarrow> j < NUM_QUEUES \<Longrightarrow> run_queue s i = run_queue s j \<longleftrightarrow> i = j"
proof -
  have eq: "run_queue s k = queues s + of_nat (24 * k)" for k by (simp add: run_queue_def)
  assume "i < NUM_QUEUES" "j < NUM_QUEUES"
  then show ?thesis unfolding eq by (simp only: add_left_cancel) (subst of_nat_u64_inject; simp)
qed

lemma run_queue_simps [simp]:
  "run_queue (set_kmem m s) = run_queue s" "run_queue (set_pcb p x s) = run_queue s"
  "sched_queues (set_kmem m s) = sched_queues s" "sched_queues (set_pcb p x s) = sched_queues s"
  by (rule ext, simp add: run_queue_def, rule ext, simp add: run_queue_def)
    (simp_all add: sched_queues_def run_queue_def)

lemma sched_queues_intros [simp]:
  "sleep_queue s \<in> sched_queues s" "i < NUM_QUEUES \<Longrightarrow> run_queue s i \<in> sched_queues s"
  by (auto simp: sched_queues_def)

text \<open>The invariant depends on the memory and on the places of the queues only.\<close>

lemma sched_inv_cong:
  assumes "kmem s' = kmem s" "ba_qnodes s' = ba_qnodes s" "queues s' = queues s"
    "sleep_queue s' = sleep_queue s"
  shows "sched_inv s' n rq sl = sched_inv s n rq sl"
proof -
  have "run_queue s' = run_queue s" using assms by (intro ext) (simp add: run_queue_def)
  with assms show ?thesis by (simp add: sched_inv_def sched_queues_def)
qed

lemma sched_inv_run_cong:
  "(\<And>i. i < NUM_QUEUES \<Longrightarrow> rq i = rq' i) \<Longrightarrow> sched_inv s n rq sl = sched_inv s n rq' sl"
  by (simp add: sched_inv_def)

text \<open>There is a free node while fewer than \<open>n\<close> are queued.\<close>

lemma sched_free_node:
  assumes rep: "pool_rep bn n (sched_queues s) m {} V"
    and V: "\<forall>i<NUM_QUEUES. map snd (V (run_queue s i)) = rq i" "map snd (V (sleep_queue s)) = sl"
    and lt: "queued_total rq sl < n"
  shows "used_nodes (sched_queues s) {} V \<noteq> block_addrs bn 16 n"
proof -
  have len: "length (V (run_queue s i)) = length (rq i)" if "i < NUM_QUEUES" for i
    using V(1) that by (metis length_map)
  have "length (V (sleep_queue s)) = length sl" using V(2) by (metis length_map)
  then have sl: "card (fst ` set (V (sleep_queue s))) \<le> length sl"
    by (metis card_image_le card_length finite_set le_trans)
  define A B where "A = fst ` set (V (sleep_queue s))"
    and "B = (\<Union>i<NUM_QUEUES. fst ` set (V (run_queue s i)))"
  have "card B \<le> (\<Sum>i<NUM_QUEUES. card (fst ` set (V (run_queue s i))))"
    unfolding B_def by (rule card_UN_le) simp
  also have "\<dots> \<le> (\<Sum>i<NUM_QUEUES. length (rq i))"
  proof (rule sum_mono)
    fix i assume "i \<in> {..<NUM_QUEUES}"
    then show "card (fst ` set (V (run_queue s i))) \<le> length (rq i)"
      using len [of i] by (metis card_image_le card_length finite_set le_trans lessThan_iff)
  qed
  finally have B: "card B \<le> (\<Sum>i<NUM_QUEUES. length (rq i))" .
  have used: "used_nodes (sched_queues s) {} V = A \<union> B"
    by (simp add: used_nodes_def sched_queues_def A_def B_def)
  have "card (A \<union> B) \<le> card A + card B" by (rule card_Un_le)
  with B sl have "card (used_nodes (sched_queues s) {} V) \<le> length sl + (\<Sum>i<NUM_QUEUES. length (rq i))"
    unfolding used A_def by linarith
  then have "card (used_nodes (sched_queues s) {} V) < n" using lt by (simp add: queued_total_def)
  moreover have "block_inv bn 16 n m (block_addrs bn 16 n - used_nodes (sched_queues s) {} V)"
    using rep by (simp only: pool_rep_def)
  then have "card (block_addrs bn 16 n) = n" by (rule card_block_addrs)
  ultimately show ?thesis by auto
qed


section \<open>What scheduling does to the queues\<close>

lemma queued_total_append:
  "k < NUM_QUEUES \<Longrightarrow> queued_total (rq(k := rq k @ [p])) sl = Suc (queued_total rq sl)"
proof -
  assume k: "k < NUM_QUEUES"
  have "(\<Sum>i<NUM_QUEUES. length ((rq(k := rq k @ [p])) i)) = (\<Sum>i<NUM_QUEUES. length (rq i) + (if i = k then 1 else 0))"
    by (rule sum.cong) auto
  also have "\<dots> = (\<Sum>i<NUM_QUEUES. length (rq i)) + 1" using k by (simp only: sum.distrib sum.delta finite_lessThan lessThan_iff if_True)
  finally show ?thesis by (simp add: queued_total_def)
qed

lemma schedule_ready:
  assumes inv: "sched_inv s n rq sl" and free: "queued_total rq sl < n"
    and ready: "state (pcbs s p) = READY" and k: "k = priority_index (priority (pcbs s p))"
  obtains m where "schedule p s = Inr (set_kmem m s)"
    and "sched_inv (set_kmem m s) n (rq(k := rq k @ [p])) sl"
proof -
  obtain V where rep: "pool_rep (ba_qnodes s) n (sched_queues s) (kmem s) {} V"
    and V: "\<forall>i<NUM_QUEUES. map snd (V (run_queue s i)) = rq i" "map snd (V (sleep_queue s)) = sl"
    and ne: "sleep_queue s \<notin> run_queue s ` {..<NUM_QUEUES}"
    by (rule sched_invE [OF inv])
  have k4: "k < NUM_QUEUES" by (simp add: k priority_index_less)
  have q: "run_queue s k \<in> sched_queues s" using k4 by simp
  obtain x m1 where al: "block_alloc (kmem s) (ba_qnodes s) = (x, m1)" "x \<noteq> 0"
    and rep1: "pool_rep (ba_qnodes s) n (sched_queues s) m1 (insert x {}) V"
    by (rule pool_alloc [OF rep sched_free_node [OF rep V free]])
  define m2 where "m2 = m1(x + 8 := p)"
  have "pool_rep (ba_qnodes s) n (sched_queues s) m2 (insert x {}) V"
    unfolding m2_def by (rule pool_write [OF rep1]) simp
  note rep3 = pool_enqueue(1) [OF this q, of p, simplified m2_def fun_upd_same, OF _ refl, folded m2_def, simplified]
  define m3 where "m3 = queue_enqueue m2 (run_queue s k) x"
  have "schedule p s = Inr (set_kmem m3 s)"
    using al ready k4 by (simp add: schedule_def k m2_def m3_def)
  moreover have "sched_inv (set_kmem m3 s) n (rq(k := rq k @ [p])) sl"
  proof (rule sched_invI)
    show "pool_rep (ba_qnodes (set_kmem m3 s)) n (sched_queues (set_kmem m3 s)) (kmem (set_kmem m3 s)) {}
        (V(run_queue s k := V (run_queue s k) @ [(x, p)]))"
      using rep3 by (simp add: m3_def)
    show "map snd ((V(run_queue s k := V (run_queue s k) @ [(x, p)])) (run_queue (set_kmem m3 s) i)) =
        (rq(k := rq k @ [p])) i" if "i < NUM_QUEUES" for i
      using V(1) that k4 by (cases "i = k") (simp_all add: run_queue_inject)
    show "map snd ((V(run_queue s k := V (run_queue s k) @ [(x, p)])) (sleep_queue (set_kmem m3 s))) = sl"
      using ne k4 V(2) by auto
    show "sleep_queue (set_kmem m3 s) \<notin> run_queue (set_kmem m3 s) ` {..<NUM_QUEUES}" using ne by simp
  qed
  ultimately show thesis by (rule that)
qed


text \<open>Taking the oldest entry out of a queue and giving its node back.\<close>

lemma pool_take:
  assumes rep: "pool_rep bn n Q m {} V" and q: "q \<in> Q" and v: "V q = (x, d) # v"
  obtains m1 m2 where "queue_dequeue m q = (x, m1)" and "x \<noteq> 0" and "m1 (x + 8) = d"
    and "block_free m1 bn x = Inr m2" and "pool_rep bn n Q m2 {} (V(q := v))"
proof -
  obtain m1 where m1: "queue_dequeue m q = (x, m1)" "m1 (x + 8) = d" "x \<in> block_addrs bn 16 n"
    "pool_rep bn n Q m1 (insert x {}) (V(q := v))"
    by (rule pool_dequeue [OF rep q v])
  obtain m2 where "block_free m1 bn x = Inr m2" "pool_rep bn n Q m2 {} (V(q := v))"
    by (rule pool_free [OF m1(4)]) simp
  moreover have "x \<noteq> 0" using node_apart(4) [OF pool_repD(1) [OF rep] m1(3)] .
  ultimately show thesis using that m1(1,2) by blast
qed

lemma pool_head:
  assumes rep: "pool_rep bn n Q m H V" and q: "q \<in> Q"
  shows "queue_empty m q \<longleftrightarrow> V q = []"
    and "V q = (x, d) # v \<Longrightarrow> queue_peek m q = x \<and> m (x + 8) = d"
  using pool_repD(4) [OF rep q] queue_at_empty [of m q "map fst (V q)"] queue_peek_at [of m q "map fst (V q)"]
  by (auto simp: queue_view_def queue_empty_def)

lemma pick_from_ready:
  assumes inv: "sched_inv s n rq sl" and i: "i < NUM_QUEUES" and rq: "rq i = p # ps"
    and ready: "state (pcbs s p) = READY"
  obtains m where "pick_from (run_queue s i) s = Some (Inr (True,
      start_timer (virt_switch_page_table (m (p + 8)) ((set_kmem m s) \<lparr> current_pcb := p \<rparr>))))"
    and "sched_inv (set_kmem m s) n (rq(i := ps)) sl"
proof -
  obtain V where rep: "pool_rep (ba_qnodes s) n (sched_queues s) (kmem s) {} V"
    and V: "\<forall>i<NUM_QUEUES. map snd (V (run_queue s i)) = rq i" "map snd (V (sleep_queue s)) = sl"
    and ne: "sleep_queue s \<notin> run_queue s ` {..<NUM_QUEUES}"
    by (rule sched_invE [OF inv])
  have "map snd (V (run_queue s i)) = p # ps" using V(1) i rq by simp
  then obtain x v where v: "V (run_queue s i) = (x, p) # v" "map snd v = ps" by auto
  have q: "run_queue s i \<in> sched_queues s" using i by simp
  obtain m1 m2 where m1: "queue_dequeue (kmem s) (run_queue s i) = (x, m1)" "x \<noteq> 0" "m1 (x + 8) = p"
    "block_free m1 (ba_qnodes s) x = Inr m2" "pool_rep (ba_qnodes s) n (sched_queues s) m2 {} (V(run_queue s i := v))"
    by (rule pool_take [OF rep q v(1)])
  have "\<not> queue_empty (kmem s) (run_queue s i)" using pool_head(1) [OF rep q] v(1) by simp
  then have "pick_from (run_queue s i) s = Some (Inr (True,
      start_timer (virt_switch_page_table (m2 (p + 8)) ((set_kmem m2 s) \<lparr> current_pcb := p \<rparr>))))"
    using m1 ready
    by (subst pick_from.simps) (simp add: Let_def pcb_page_table_def kmem_def set_kmem_def)
  moreover have "sched_inv (set_kmem m2 s) n (rq(i := ps)) sl"
  proof (rule sched_invI)
    show "pool_rep (ba_qnodes (set_kmem m2 s)) n (sched_queues (set_kmem m2 s)) (kmem (set_kmem m2 s)) {}
        (V(run_queue s i := v))" using m1(5) by simp
    show "map snd ((V(run_queue s i := v)) (run_queue (set_kmem m2 s) j)) = (rq(i := ps)) j"
      if "j < NUM_QUEUES" for j
      using V(1) that i v(2) by (cases "j = i") (simp_all add: run_queue_inject)
    show "map snd ((V(run_queue s i := v)) (sleep_queue (set_kmem m2 s))) = sl" using ne i V(2) by auto
    show "sleep_queue (set_kmem m2 s) \<notin> run_queue (set_kmem m2 s) ` {..<NUM_QUEUES}" using ne by simp
  qed
  ultimately show thesis by (rule that)
qed

lemma pick_from_empty:
  assumes inv: "sched_inv s n rq sl" and i: "i < NUM_QUEUES" and rq: "rq i = []"
  shows "pick_from (run_queue s i) s = Some (Inr (False, s))"
proof -
  obtain V where rep: "pool_rep (ba_qnodes s) n (sched_queues s) (kmem s) {} V"
    and V: "\<forall>i<NUM_QUEUES. map snd (V (run_queue s i)) = rq i"
    by (rule sched_invE [OF inv])
  have "V (run_queue s i) = []" using V i rq by (metis map_is_Nil_conv)
  then have "queue_empty (kmem s) (run_queue s i)" using pool_head(1) [OF rep, of "run_queue s i"] i by simp
  then show ?thesis by (subst pick_from.simps) simp
qed

text \<open>The dispatcher takes the oldest process of the first queue that holds one.\<close>

lemma pick_next_ready:
  assumes inv: "sched_inv s n rq sl" and i: "i < NUM_QUEUES" and rq: "rq i = p # ps"
    and low: "\<forall>j<i. rq j = []" and ready: "state (pcbs s p) = READY"
  obtains m where "pick_next [0..<NUM_QUEUES] s = Inr
      (start_timer (virt_switch_page_table (m (p + 8)) ((set_kmem m s) \<lparr> current_pcb := p \<rparr>)))"
    and "sched_inv (set_kmem m s) n (rq(i := ps)) sl"
proof -
  obtain m where m: "pick_from (run_queue s i) s = Some (Inr (True,
      start_timer (virt_switch_page_table (m (p + 8)) ((set_kmem m s) \<lparr> current_pcb := p \<rparr>))))"
    "sched_inv (set_kmem m s) n (rq(i := ps)) sl"
    by (rule pick_from_ready [OF inv i rq ready])
  have "pick_next ([j..<i] @ i # ks) s = Inr
      (start_timer (virt_switch_page_table (m (p + 8)) ((set_kmem m s) \<lparr> current_pcb := p \<rparr>)))"
    if "j \<le> i" for j ks
    using that
  proof (induction rule: inc_induct)
    case base
    then show ?case by (simp add: m(1))
  next
    case (step k)
    then have "[k..<i] = k # [Suc k..<i]" by (simp add: upt_conv_Cons)
    moreover have "pick_from (run_queue s k) s = Some (Inr (False, s))"
      using step.hyps i low by (intro pick_from_empty [OF inv]) auto
    ultimately show ?case using step.IH by simp
  qed
  from this [of 0 "[Suc i..<NUM_QUEUES]"] have "pick_next [0..<NUM_QUEUES] s = Inr
      (start_timer (virt_switch_page_table (m (p + 8)) ((set_kmem m s) \<lparr> current_pcb := p \<rparr>)))"
    using i by (metis upt_conv_Cons upt_add_eq_append le_add_diff_inverse less_imp_le zero_le)
  with m(2) that show thesis by blast
qed


section \<open>Waking the first sleeper\<close>

text \<open>
  What \<open>get_next_sleep\<close> does to the heap of PCBs, the run queues and the sleep queue: at most the
  first sleeper is woken, and the rest of the time that has passed is dropped.
\<close>

fun wake :: "u32 \<Rightarrow> (addr \<Rightarrow> PCB) \<Rightarrow> (nat \<Rightarrow> addr list) \<Rightarrow> addr list \<Rightarrow>
    (addr \<Rightarrow> PCB) \<times> (nat \<Rightarrow> addr list) \<times> addr list" where
  "wake span h rq [] = (h, rq, [])"
| "wake span h rq (p # ps) =
     (if sleep_time (h p) \<le> span
      then (h(p := (h p) \<lparr> state := READY, sleep_time := 0 \<rparr>),
            let k = priority_index (priority (h p)) in rq(k := rq k @ [p]), ps)
      else (h(p := (h p) \<lparr> sleep_time := sleep_time (h p) - span \<rparr>), rq, p # ps))"

fun first_sleep :: "(addr \<Rightarrow> PCB) \<Rightarrow> addr list \<Rightarrow> u32" where
  "first_sleep h [] = 0"
| "first_sleep h (p # ps) = sleep_time (h p)"

lemma set_pcbs_commute:
  "(set_kmem m (s \<lparr> pcbs := h \<rparr>)) = (set_kmem m s) \<lparr> pcbs := h \<rparr>"
  "kmem (s \<lparr> pcbs := h \<rparr>) = kmem s" "run_queue (s \<lparr> pcbs := h \<rparr>) = run_queue s"
  "sched_queues (s \<lparr> pcbs := h \<rparr>) = sched_queues s"
  by (simp_all add: set_kmem_def kmem_def run_queue_def [abs_def] sched_queues_def)

lemma sched_inv_pcbs [simp]: "sched_inv (s \<lparr> pcbs := h \<rparr>) n rq sl = sched_inv s n rq sl"
  by (rule sched_inv_cong) (simp_all add: kmem_def)

lemma sched_sleep_head:
  assumes inv: "sched_inv s n rq sl"
  shows "queue_empty (kmem s) (sleep_queue s) \<longleftrightarrow> sl = []"
    and "sl = p # ps \<Longrightarrow> kmem s (queue_peek (kmem s) (sleep_queue s) + 8) = p"
proof -
  obtain V where rep: "pool_rep (ba_qnodes s) n (sched_queues s) (kmem s) {} V"
    and V: "map snd (V (sleep_queue s)) = sl"
    by (rule sched_invE [OF inv])
  show "queue_empty (kmem s) (sleep_queue s) \<longleftrightarrow> sl = []"
    using pool_head(1) [OF rep, of "sleep_queue s"] V by auto
  assume "sl = p # ps"
  then obtain x v where "V (sleep_queue s) = (x, p) # v" using V by auto
  then show "kmem s (queue_peek (kmem s) (sleep_queue s) + 8) = p"
    using pool_head(2) [OF rep, of "sleep_queue s"] by simp
qed

lemma sched_take_sleeper:
  assumes inv: "sched_inv s n rq (p # ps)"
  obtains x m1 m2 where "queue_dequeue (kmem s) (sleep_queue s) = (x, m1)"
    and "block_free m1 (ba_qnodes s) x = Inr m2" and "sched_inv (set_kmem m2 s) n rq ps"
proof -
  obtain V where rep: "pool_rep (ba_qnodes s) n (sched_queues s) (kmem s) {} V"
    and V: "\<forall>i<NUM_QUEUES. map snd (V (run_queue s i)) = rq i" "map snd (V (sleep_queue s)) = p # ps"
    and ne: "sleep_queue s \<notin> run_queue s ` {..<NUM_QUEUES}"
    by (rule sched_invE [OF inv])
  obtain x v where v: "V (sleep_queue s) = (x, p) # v" "map snd v = ps" using V(2) by auto
  obtain m1 m2 where m: "queue_dequeue (kmem s) (sleep_queue s) = (x, m1)"
    "block_free m1 (ba_qnodes s) x = Inr m2"
    "pool_rep (ba_qnodes s) n (sched_queues s) m2 {} (V(sleep_queue s := v))"
    by (rule pool_take [OF rep _ v(1)]) simp
  have "sched_inv (set_kmem m2 s) n rq ps"
  proof (rule sched_invI)
    show "pool_rep (ba_qnodes (set_kmem m2 s)) n (sched_queues (set_kmem m2 s)) (kmem (set_kmem m2 s)) {}
        (V(sleep_queue s := v))" using m(3) by simp
    show "map snd ((V(sleep_queue s := v)) (run_queue (set_kmem m2 s) i)) = rq i" if "i < NUM_QUEUES" for i
    proof -
      have "run_queue s i \<noteq> sleep_queue s" using ne that by (metis imageI lessThan_iff)
      with V(1) that show ?thesis by simp
    qed
    show "map snd ((V(sleep_queue s := v)) (sleep_queue (set_kmem m2 s))) = ps" using v(2) by simp
    show "sleep_queue (set_kmem m2 s) \<notin> run_queue (set_kmem m2 s) ` {..<NUM_QUEUES}" using ne by simp
  qed
  with m(1,2) show thesis by (rule that)
qed

lemma get_next_sleep_wakes:
  assumes inv: "sched_inv s n rq sl" and free: "queued_total rq sl < n"
    and w: "wake span (pcbs s) rq sl = (h', rq', sl')"
  obtains m where "get_next_sleep span s = Inr (first_sleep h' sl', (set_kmem m s) \<lparr> pcbs := h' \<rparr>)"
    and "sched_inv ((set_kmem m s) \<lparr> pcbs := h' \<rparr>) n rq' sl'"
proof (cases sl)
  case Nil
  then have "get_next_sleep span s = Inr (first_sleep h' sl', (set_kmem (kmem s) s) \<lparr> pcbs := h' \<rparr>)"
    using w sched_sleep_head(1) [OF inv] by (simp add: get_next_sleep_def)
  moreover have "sched_inv ((set_kmem (kmem s) s) \<lparr> pcbs := h' \<rparr>) n rq' sl'" using Nil w inv by simp
  ultimately show thesis by (rule that)
next
  case (Cons p ps)
  have hd: "\<not> queue_empty (kmem s) (sleep_queue s)" "kmem s (queue_peek (kmem s) (sleep_queue s) + 8) = p"
    using sched_sleep_head [OF inv] Cons by simp_all
  show thesis
  proof (cases "sleep_time (pcbs s p) \<le> span")
    case False
    then have "get_next_sleep span s = Inr (first_sleep h' sl', (set_kmem (kmem s) s) \<lparr> pcbs := h' \<rparr>)"
      using w hd Cons by (auto simp: get_next_sleep_def Let_def set_pcb_def)
    moreover have "sched_inv ((set_kmem (kmem s) s) \<lparr> pcbs := h' \<rparr>) n rq' sl'"
      using False Cons w inv by auto
    ultimately show thesis by (rule that)
  next
    case True
    define s1 where "s1 = set_pcb p ((pcbs s p) \<lparr> state := READY, sleep_time := 0 \<rparr>) s"
    define k where "k = priority_index (priority (pcbs s p))"
    have h': "h' = pcbs s1" and rq': "rq' = rq(k := rq k @ [p])" and sl': "sl' = ps"
      using w True Cons by (auto simp: s1_def k_def Let_def)
    have inv1: "sched_inv s1 n rq (p # ps)" using inv Cons by (simp add: s1_def set_pcb_def)
    obtain m1 where m1: "schedule p s1 = Inr (set_kmem m1 s1)"
      and inv2: "sched_inv (set_kmem m1 s1) n rq' (p # ps)"
      unfolding rq' by (rule schedule_ready [OF inv1, of p k]) (use free Cons in \<open>simp_all add: s1_def k_def\<close>)
    obtain x m2 m3 where m3: "queue_dequeue m1 (sleep_queue s1) = (x, m2)"
      "block_free m2 (ba_qnodes s1) x = Inr m3" and inv3: "sched_inv (set_kmem m3 s1) n rq' ps"
      using sched_take_sleeper [OF inv2] by simp metis
    have "get_next_sleep span s =
        (let s = set_kmem m3 s1
         in if \<not> queue_empty (kmem s) (sleep_queue s)
            then Inr (sleep_time (pcbs s (kmem s (queue_peek (kmem s) (sleep_queue s) + 8))), s)
            else Inr (0, s))"
      using hd True m1 m3 by (simp add: get_next_sleep_def Let_def s1_def [symmetric])
    also have "\<dots> = Inr (first_sleep h' sl', set_kmem m3 s1)"
      using sched_sleep_head [OF inv3] unfolding h' sl' by (cases ps) (simp_all add: Let_def)
    also have eq: "set_kmem m3 s1 = (set_kmem m3 s) \<lparr> pcbs := h' \<rparr>"
      by (simp add: h' s1_def set_pcb_def set_pcbs_commute)
    finally show thesis using that inv3 unfolding sl' eq by blast
  qed
qed


section \<open>The dispatcher\<close>

lemma wake_ready:
  assumes "\<forall>i<NUM_QUEUES. \<forall>p\<in>set (rq i). state (h p) = READY" and "wake span h rq sl = (h', rq', sl')"
  shows "\<forall>i<NUM_QUEUES. \<forall>p\<in>set (rq' i). state (h' p) = READY"
  using assms by (cases sl) (auto simp: Let_def split: if_splits)

lemma wake_grows:
  "wake span h rq sl = (h', rq', sl') \<Longrightarrow> set (rq i) \<subseteq> set (rq' i)"
  by (cases sl) (auto simp: Let_def split: if_splits)

lemma first_nonempty:
  assumes "k < (n :: nat)" and "rq k \<noteq> []"
  obtains i p ps where "i < n" and "rq i = p # ps" and "\<forall>j<i. rq j = []"
proof -
  define i where "i = (LEAST i. rq i \<noteq> [])"
  have "rq i \<noteq> []" unfolding i_def by (rule LeastI [of _ k]) (rule assms(2))
  moreover have "i \<le> k" unfolding i_def by (rule Least_le) (rule assms(2))
  moreover have "rq j = []" if "j < i" for j using not_less_Least [OF that [unfolded i_def]] by simp
  ultimately show thesis using that [of i] assms(1) by (cases "rq i") auto
qed

text \<open>The ticks that have passed, as \<open>dispatch\<close> counts them.\<close>

definition span_of :: "kernel \<Rightarrow> u32 \<Rightarrow> u32" where
  "span_of s count = (timer_delay (kcpu s) - count) div one_ms s"

definition next_delay :: "(addr \<Rightarrow> PCB) \<Rightarrow> addr list \<Rightarrow> u32 \<Rightarrow> u32" where
  "next_delay h sl quantum =
     (let w = first_sleep h sl in if w > 0 \<and> w < quantum then w else quantum)"

lemma sched_inv_fields [simp]:
  "sched_inv (s \<lparr> quantum_left := q \<rparr>) n rq sl = sched_inv s n rq sl"
  "sched_inv (s \<lparr> prev_ticks := q \<rparr>) n rq sl = sched_inv s n rq sl"
  "sched_inv (s \<lparr> current_pcb := p \<rparr>) n rq sl = sched_inv s n rq sl"
  "sched_inv (s \<lparr> kcpu := c \<rparr>) n rq sl = sched_inv s n rq sl"
  by (rule sched_inv_cong; simp add: kmem_def)+

text \<open>The common part of \<open>dispatch\<close>: from the state after the running process was dealt with.\<close>

lemma dispatch_tail:
  assumes tick: "count \<le> timer_delay (kcpu s)" "one_ms s \<noteq> 0"
    and ret: "retire_current (s \<lparr> quantum_left := q \<rparr>) = Inr s1"
    and q: "q = (if span_of s count > quantum_left s then 0 else quantum_left s - span_of s count)"
    and inv: "sched_inv s1 n rq sl" and free: "queued_total rq sl < n"
    and w: "wake (span_of s count) (pcbs s1) rq sl = (h', rq', sl')"
  obtains m where "sched_inv ((set_kmem m s1) \<lparr> pcbs := h' \<rparr>) n rq' sl'"
    and "dispatch count s =
      (let s = (set_kmem m s1) \<lparr> pcbs := h', prev_ticks := next_delay h' sl' (quantum_left s1) \<rparr>
       in if current_pcb s \<noteq> 0
          then kassert ''scheduler.c'' 287 (quantum_left s \<noteq> 0) (Inr (start_timer s))
          else kassert ''scheduler.c'' 294 (prev_ticks s > 0) (pick_next [0..<NUM_QUEUES] s))"
proof -
  define s2 where "s2 = s1 \<lparr> prev_ticks := quantum_left s1 \<rparr>"
  obtain m where m: "get_next_sleep (span_of s count) s2 =
      Inr (first_sleep h' sl', (set_kmem m s2) \<lparr> pcbs := h' \<rparr>)"
    "sched_inv ((set_kmem m s2) \<lparr> pcbs := h' \<rparr>) n rq' sl'"
    by (rule get_next_sleep_wakes [of s2 n rq sl "span_of s count" h' rq' sl'])
      (use inv free w in \<open>simp_all add: s2_def\<close>)
  have e: "set_kmem m s2 = (set_kmem m s1) \<lparr> prev_ticks := quantum_left s1 \<rparr>"
    by (simp add: s2_def set_kmem_def)
  have e2: "(set_kmem m s2) \<lparr> pcbs := h' \<rparr> = (set_kmem m s1) \<lparr> pcbs := h', prev_ticks := quantum_left s1 \<rparr>"
    by (simp add: s2_def set_kmem_def)
  have inv': "sched_inv ((set_kmem m s1) \<lparr> pcbs := h' \<rparr>) n rq' sl'"
    using m(2) unfolding e by simp
  have "dispatch count s = and_then (get_next_sleep (span_of s count) s2) (\<lambda>(next_wakeup, s).
       let s = (if next_wakeup > 0 \<and> next_wakeup < quantum_left s
                then s \<lparr> prev_ticks := next_wakeup \<rparr> else s)
       in if current_pcb s \<noteq> 0
          then kassert ''scheduler.c'' 287 (quantum_left s \<noteq> 0) (Inr (start_timer s))
          else kassert ''scheduler.c'' 294 (prev_ticks s > 0) (pick_next [0..<NUM_QUEUES] s))"
    using tick ret q
    by (simp add: dispatch_def timer_get_elapsed_def Let_def s2_def flip: span_of_def split: if_splits)
  then have "dispatch count s =
      (let s = (set_kmem m s1) \<lparr> pcbs := h', prev_ticks := next_delay h' sl' (quantum_left s1) \<rparr>
       in if current_pcb s \<noteq> 0
          then kassert ''scheduler.c'' 287 (quantum_left s \<noteq> 0) (Inr (start_timer s))
          else kassert ''scheduler.c'' 294 (prev_ticks s > 0) (pick_next [0..<NUM_QUEUES] s))"
    unfolding m(1) e2 by (simp add: Let_def next_delay_def)
  with inv' show thesis by (rule that)
qed


lemma start_timer_simps [simp]:
  "kmem (start_timer s) = kmem s" "current_pcb (start_timer s) = current_pcb s"
  "pcbs (start_timer s) = pcbs s" "quantum_left (start_timer s) = quantum_left s"
  "cr3 (kcpu (start_timer s)) = cr3 (kcpu s)" "prev_ticks (start_timer s) = prev_ticks s"
  "timer_delay (kcpu (start_timer s)) = prev_ticks s * one_ms s"
  "lapic (kcpu (start_timer s)) APIC_TIMER_INIT_REG = prev_ticks s * one_ms s"
  "sched_inv (start_timer s) n rq sl = sched_inv s n rq sl"
  by (simp_all add: start_timer_def kmem_def timer_start_def timer_set_delay_def set_lapic_def)

lemma virt_switch_page_table_simps [simp]:
  "kmem (virt_switch_page_table t s) = kmem s" "current_pcb (virt_switch_page_table t s) = current_pcb s"
  "pcbs (virt_switch_page_table t s) = pcbs s" "quantum_left (virt_switch_page_table t s) = quantum_left s"
  "cr3 (kcpu (virt_switch_page_table t s)) = t" "prev_ticks (virt_switch_page_table t s) = prev_ticks s"
  "one_ms (virt_switch_page_table t s) = one_ms s"
  "sched_inv (virt_switch_page_table t s) n rq sl = sched_inv s n rq sl"
  by (simp_all add: virt_switch_page_table_def kmem_def)

lemma kmem_fields [simp]:
  "kmem (s \<lparr> pcbs := h \<rparr>) = kmem s" "kmem (s \<lparr> quantum_left := q \<rparr>) = kmem s"
  "kmem (s \<lparr> prev_ticks := q \<rparr>) = kmem s" "kmem (s \<lparr> current_pcb := p \<rparr>) = kmem s"
  by (simp_all add: kmem_def)

text \<open>
  What a dispatch leaves behind: the process \<open>p\<close> running in its own address space with the timer
  armed, and the queues as given.
\<close>

definition dispatched ::
  "kernel \<Rightarrow> kernel \<Rightarrow> nat \<Rightarrow> addr \<Rightarrow> (addr \<Rightarrow> PCB) \<Rightarrow> (nat \<Rightarrow> addr list) \<Rightarrow> addr list \<Rightarrow> u32 \<Rightarrow> bool" where
  "dispatched s s' n p h rq sl quantum \<longleftrightarrow>
     current_pcb s' = p \<and> pcbs s' = h \<and> sched_inv s' n rq sl \<and> quantum_left s' = quantum \<and>
     prev_ticks s' = next_delay h sl quantum \<and>
     lapic (kcpu s') APIC_TIMER_INIT_REG = next_delay h sl quantum * one_ms s"

lemma next_delay_pos: "q > 0 \<Longrightarrow> next_delay h sl q > 0"
  by (simp add: next_delay_def Let_def)

text \<open>From a state in which nobody runs, the dispatcher starts the first ready process.\<close>

lemma dispatch_picks:
  assumes inv: "sched_inv s n rq sl" and i: "i < NUM_QUEUES" and rq: "rq i = p # ps"
    and low: "\<forall>j<i. rq j = []" and ready: "state (pcbs s p) = READY"
    and delay: "prev_ticks s = next_delay (pcbs s) sl (quantum_left s)"
  shows "\<exists>s'. pick_next [0..<NUM_QUEUES] s = Inr s' \<and>
     dispatched s s' n p (pcbs s) (rq(i := ps)) sl (quantum_left s) \<and> cr3 (kcpu s') = pcb_page_table s' p"
proof -
  obtain m where m: "pick_next [0..<NUM_QUEUES] s = Inr
      (start_timer (virt_switch_page_table (m (p + 8)) ((set_kmem m s) \<lparr> current_pcb := p \<rparr>)))"
    "sched_inv (set_kmem m s) n (rq(i := ps)) sl"
    by (rule pick_next_ready [OF inv i rq low ready])
  define s' where "s' = start_timer (virt_switch_page_table (m (p + 8)) ((set_kmem m s) \<lparr> current_pcb := p \<rparr>))"
  have "dispatched s s' n p (pcbs s) (rq(i := ps)) sl (quantum_left s)" "cr3 (kcpu s') = pcb_page_table s' p"
    using m(2) by (simp_all add: s'_def dispatched_def pcb_page_table_def delay)
  with m(1) show ?thesis unfolding s'_def by blast
qed

text \<open>C7. When the quantum of a running process is over, \<open>dispatch\<close> puts it at the end of the queue
  of its priority, wakes at most the first sleeper, and starts the oldest process of the first
  queue that is not empty, in that process's address space and with a quantum of 10 ms (less
  when a sleeper is due sooner); with room for two more nodes it never stops the machine.\<close>

theorem dispatch_preempts_round_robin:
  assumes inv: "sched_inv s n rq sl" and room: "queued_total rq sl + 2 \<le> n"
    and cur: "state (pcbs s (current_pcb s)) = READY"
    and ready: "\<forall>i<NUM_QUEUES. \<forall>p\<in>set (rq i). state (pcbs s p) = READY"
    and tick: "count \<le> timer_delay (kcpu s)" "one_ms s \<noteq> 0"
    and over: "quantum_left s \<le> span_of s count"
    and k: "k = priority_index (priority (pcbs s (current_pcb s)))"
    and w: "wake (span_of s count) (pcbs s) (rq(k := rq k @ [current_pcb s])) sl = (h', rq', sl')"
  shows "\<exists>i p ps s'. i < NUM_QUEUES \<and> (\<forall>j<i. rq' j = []) \<and> rq' i = p # ps \<and>
     dispatch count s = Inr s' \<and> dispatched s s' n p h' (rq'(i := ps)) sl' 10 \<and>
     cr3 (kcpu s') = pcb_page_table s' p"
proof -
  let ?rq = "rq(k := rq k @ [current_pcb s])"
  have k4: "k < NUM_QUEUES" by (simp add: k priority_index_less)
  obtain m where m: "schedule (current_pcb s) (s \<lparr> quantum_left := 0 \<rparr>) = Inr (set_kmem m (s \<lparr> quantum_left := 0 \<rparr>))"
    "sched_inv (set_kmem m (s \<lparr> quantum_left := 0 \<rparr>)) n ?rq sl"
    by (rule schedule_ready [of "s \<lparr> quantum_left := 0 \<rparr>" n rq sl "current_pcb s" k])
      (use inv room cur k in simp_all)
  define s1 where "s1 = (set_kmem m (s \<lparr> quantum_left := 0 \<rparr>)) \<lparr> current_pcb := 0, quantum_left := 10 \<rparr>"
  have ret: "retire_current (s \<lparr> quantum_left := 0 \<rparr>) = Inr s1"
    using cur m(1) by (simp add: retire_current_def s1_def)
  have inv1: "sched_inv s1 n ?rq sl" using m(2) by (simp add: s1_def)
  have fields: "pcbs s1 = pcbs s" "current_pcb s1 = 0" "quantum_left s1 = 10" "one_ms s1 = one_ms s"
    by (simp_all add: s1_def set_kmem_def)
  have free: "queued_total ?rq sl < n" using room queued_total_append [OF k4] by simp
  have q: "0 = (if span_of s count > quantum_left s then 0 else quantum_left s - span_of s count)"
    using over by simp
  obtain m' where m': "sched_inv ((set_kmem m' s1) \<lparr> pcbs := h' \<rparr>) n rq' sl'"
    "dispatch count s =
      (let s = (set_kmem m' s1) \<lparr> pcbs := h', prev_ticks := next_delay h' sl' (quantum_left s1) \<rparr>
       in if current_pcb s \<noteq> 0
          then kassert ''scheduler.c'' 287 (quantum_left s \<noteq> 0) (Inr (start_timer s))
          else kassert ''scheduler.c'' 294 (prev_ticks s > 0) (pick_next [0..<NUM_QUEUES] s))"
    by (rule dispatch_tail [OF tick ret q inv1 free w [folded fields(1)]])
  define s2 where "s2 = (set_kmem m' s1) \<lparr> pcbs := h', prev_ticks := next_delay h' sl' 10 \<rparr>"
  have d: "dispatch count s = pick_next [0..<NUM_QUEUES] s2"
    using m'(2) next_delay_pos [of 10 h' sl'] by (simp add: fields s2_def)
  have inv2: "sched_inv s2 n rq' sl'" using m'(1) by (simp add: s2_def)
  have "\<forall>i<NUM_QUEUES. \<forall>p\<in>set (?rq i). state (pcbs s p) = READY" using ready cur by auto
  then have ready': "\<forall>i<NUM_QUEUES. \<forall>p\<in>set (rq' i). state (h' p) = READY" using w by (rule wake_ready)
  have "rq' k \<noteq> []" using wake_grows [OF w, of k] by auto
  then obtain i p ps where i: "i < NUM_QUEUES" "rq' i = p # ps" "\<forall>j<i. rq' j = []"
    by (rule first_nonempty [OF k4])
  have "\<exists>s'. pick_next [0..<NUM_QUEUES] s2 = Inr s' \<and>
     dispatched s2 s' n p (pcbs s2) (rq'(i := ps)) sl' (quantum_left s2) \<and> cr3 (kcpu s') = pcb_page_table s' p"
    by (rule dispatch_picks [OF inv2 i]) (use ready' i in \<open>simp_all add: s2_def fields\<close>)
  then obtain s' where s': "dispatch count s = Inr s'" "cr3 (kcpu s') = pcb_page_table s' p"
    "dispatched s2 s' n p h' (rq'(i := ps)) sl' 10"
    unfolding d by (auto simp: s2_def fields)
  moreover have "dispatched s s' n p h' (rq'(i := ps)) sl' 10"
    using s'(3) by (simp add: dispatched_def s2_def fields set_kmem_def)
  ultimately show ?thesis using i by blast
qed

text \<open>While the quantum lasts, \<open>dispatch\<close> leaves the running process running and the run queues
  alone, but for the first sleeper, and charges the time that has passed to the quantum.\<close>

lemma dispatch_keeps_running:
  assumes inv: "sched_inv s n rq sl" and room: "queued_total rq sl + 1 \<le> n"
    and cur: "state (pcbs s (current_pcb s)) = READY" "current_pcb s \<noteq> 0"
    and tick: "count \<le> timer_delay (kcpu s)" "one_ms s \<noteq> 0"
    and left: "span_of s count < quantum_left s"
    and w: "wake (span_of s count) (pcbs s) rq sl = (h', rq', sl')"
  shows "\<exists>s'. dispatch count s = Inr s' \<and>
     dispatched s s' n (current_pcb s) h' rq' sl' (quantum_left s - span_of s count)"
proof -
  define q where "q = quantum_left s - span_of s count"
  have q0: "q \<noteq> 0" using left by (simp add: q_def)
  define s1 where "s1 = s \<lparr> quantum_left := q \<rparr>"
  have ret: "retire_current (s \<lparr> quantum_left := q \<rparr>) = Inr s1"
    using cur q0 by (simp add: retire_current_def s1_def)
  have q: "q = (if span_of s count > quantum_left s then 0 else quantum_left s - span_of s count)"
    using left by (auto simp: q_def)
  have inv1: "sched_inv s1 n rq sl" "pcbs s1 = pcbs s" using inv by (simp_all add: s1_def)
  have free: "queued_total rq sl < n" using room by simp
  obtain m' where m': "sched_inv ((set_kmem m' s1) \<lparr> pcbs := h' \<rparr>) n rq' sl'"
    "dispatch count s =
      (let s = (set_kmem m' s1) \<lparr> pcbs := h', prev_ticks := next_delay h' sl' (quantum_left s1) \<rparr>
       in if current_pcb s \<noteq> 0
          then kassert ''scheduler.c'' 287 (quantum_left s \<noteq> 0) (Inr (start_timer s))
          else kassert ''scheduler.c'' 294 (prev_ticks s > 0) (pick_next [0..<NUM_QUEUES] s))"
    by (rule dispatch_tail [OF tick ret q inv1(1) free w [folded inv1(2)]])
  define s2 where "s2 = (set_kmem m' s1) \<lparr> pcbs := h', prev_ticks := next_delay h' sl' q \<rparr>"
  have f: "current_pcb s2 = current_pcb s" "quantum_left s2 = q" "one_ms s2 = one_ms s"
    "pcbs s2 = h'" "prev_ticks s2 = next_delay h' sl' q"
    by (simp_all add: s2_def s1_def set_kmem_def)
  have "dispatch count s = Inr (start_timer s2)"
    using m'(2) cur q0 by (simp add: s2_def s1_def)
  moreover have "sched_inv s2 n rq' sl'" using m'(1) by (simp add: s2_def)
  ultimately show ?thesis
    by (intro exI [of _ "start_timer s2"] conjI) (simp_all add: dispatched_def f q_def)
qed


section \<open>The initial state\<close>

lemma kernel_alloc_fields:
  "kernel_alloc n s = Inr (p, s') \<Longrightarrow>
     queues s' = queues s \<and> sleep_queue s' = sleep_queue s \<and> ba_pcbs s' = ba_pcbs s"
  by (auto simp: kernel_alloc_def)

lemma scheduler_init_pool:
  assumes init: "scheduler_init s = Inr s'"
    and lay: "pool_layout (ba_qnodes s') 2046 (sched_queues s')"
  shows "pool_rep (ba_qnodes s') 2046 (sched_queues s') (kmem s') {} (\<lambda>_. []) \<and>
    run_queue s' = run_queue s \<and> sleep_queue s' = sleep_queue s"
proof -
  define len :: u64 where "len = sizeof_QueueNode * MAX_QUEUE_NODES + sizeof_QueueNode"
  obtain ba_address s1 ba m1 qn_address s2 bq m2 where
    s1: "kernel_alloc (sizeof_PCB * MAX_PCBS + sizeof_BlockAllocator) s = Inr (ba_address, s1)" and
    s2: "kernel_alloc len ((set_kmem m1 s1) \<lparr> ba_pcbs := ba \<rparr>) = Inr (qn_address, s2)" and
    m2: "block_init (kmem s2) qn_address len sizeof_QueueNode = Inr (bq, m2)" and
    s': "s' = (let s = (set_kmem m2 s2) \<lparr> ba_qnodes := bq \<rparr>;
                m = foldl (\<lambda>m i. queue_init m (run_queue s i)) (kmem s) [0..<NUM_QUEUES];
                m = queue_init m (sleep_queue s)
            in set_kmem m s)"
    using init by (auto simp: scheduler_init_def len_def Let_def split: prod.splits simp del: upt_Suc)
  define s3 where "s3 = (set_kmem m2 s2) \<lparr> ba_qnodes := bq \<rparr>"
  define qs where "qs = map (run_queue s3) [0..<NUM_QUEUES] @ [sleep_queue s3]"
  have s'_eq: "s' = set_kmem (foldl queue_init (kmem s3) qs) s3"
    unfolding s' s3_def [symmetric] qs_def by (simp only: Let_def foldl_append foldl_map foldl.simps)
  have fields: "queues s3 = queues s" "sleep_queue s3 = sleep_queue s" "ba_qnodes s3 = bq" "kmem s3 = m2"
    using kernel_alloc_fields [OF s1] kernel_alloc_fields [OF s2]
    by (simp_all add: s3_def kmem_def set_kmem_def)
  have qset: "set qs = sched_queues s'" "run_queue s' = run_queue s3" "run_queue s3 = run_queue s"
    by (simp_all add: qs_def s'_eq sched_queues_def atLeast0LessThan run_queue_def [abs_def] fields)
  have b: "block_bound bq 16 2046" using lay by (simp add: pool_layout_def s'_eq fields)
  have "qn_address = bq" using m2 by (auto simp: block_init_def Let_def split: if_splits)
  then have "unat qn_address + unat len < 2 ^ 64" using b by (simp add: len_def)
  from block_init_inv [OF _ _ this, of 16 "kmem s2"] m2
  have "block_at m2 bq 16 2046 0 []" using \<open>qn_address = bq\<close> by (simp add: len_def)
  then have "block_inv bq 16 2046 m2 (block_addrs bq 16 2046)"
    unfolding block_inv_def block_addrs_def by (intro exI [of _ 0] exI [of _ "[]"])
      (simp add: block_avail_def atLeast0LessThan)
  with lay have "pool_rep bq 2046 (set qs) (foldl queue_init m2 qs) {} (\<lambda>_. [])"
    by (intro pool_rep_init) (simp_all add: qset s'_eq fields)
  then show ?thesis by (simp add: qset s'_eq fields)
qed

text \<open>C30. After \<open>scheduler_init\<close> all queues are empty and the invariant holds, but the node allocator
  has 2046 nodes, where \<open>MAX_QUEUE_NODES\<close> is 2048.\<close>

theorem scheduler_init_establishes_invariant:
  assumes init: "scheduler_init s = Inr s'"
    and lay: "pool_layout (ba_qnodes s') 2046 (sched_queues s')"
    and ne: "sleep_queue s \<notin> run_queue s ` {..<NUM_QUEUES}"
  shows "sched_inv s' 2046 (\<lambda>_. []) []"
  using scheduler_init_pool [OF init lay] ne
  by (intro sched_invI [of _ _ "\<lambda>_. []"]) simp_all


section \<open>Examples\<close>

text \<open>A small kernel, for the examples: the queues at 4096, the watermark at 4 MiB.\<close>

definition sample_kernel :: kernel where
  "sample_kernel =
     \<lparr> ph = \<lparr> pmem = (\<lambda>_. 0), pool_4KIB = 0, stack_2MIB = 0x2000 \<rparr>,
       kcpu = reset_cpu \<lparr> timer_delay := 100000 \<rparr>,
       kernel_WaterMark = sample_wma,
       kernel_table = 0x3000,
       pcbs = (\<lambda>_. \<lparr> sleep_time = 0, pid = 0, ppid = 0, state = READY, priority = NORMAL \<rparr>),
       ba_pcbs = 0, ba_qnodes = 0, queues = 0x1000, sleep_queue = 0x1100, current_pcb = 0x9000,
       prev_ticks = 10, quantum_left = 10, ten_ms = 10000, one_ms = 1000 \<rparr>"

lemma sample_alloc:
  "n < 0x200000 \<Longrightarrow> current_size w + n \<le> max_size w \<Longrightarrow> page_address w = 0x200000 \<Longrightarrow>
   0x200000 \<le> current_address w - n \<Longrightarrow>
   water_mark_alloc kt st w n = Inr (current_address w - n, st,
     w \<lparr> current_address := current_address w - n, current_size := current_size w + n \<rparr>)"
  by (simp add: water_mark_alloc_def water_mark_alloc_align_def map_down_done leD)

lemma sample_kernel_init:
  "\<exists>m w. scheduler_init sample_kernel = Inr ((set_kmem m sample_kernel)
     \<lparr> kernel_WaterMark := w, ba_pcbs := 0x3F5FD0, ba_qnodes := 0x3EDFC0 \<rparr>)"
proof -
  have a1: "kernel_alloc 41008 sample_kernel = Inr (0x3F5FD0, sample_kernel
      \<lparr> kernel_WaterMark := sample_wma \<lparr> current_address := 0x3F5FD0, current_size := 41008 \<rparr> \<rparr>)"
    by (simp add: kernel_alloc_def sample_kernel_def sample_alloc)
  have a2: "kernel_alloc 32784 ((set_kmem m (sample_kernel
      \<lparr> kernel_WaterMark := sample_wma \<lparr> current_address := 0x3F5FD0, current_size := 41008 \<rparr> \<rparr>)) \<lparr> ba_pcbs := x \<rparr>)
      = Inr (0x3EDFC0, (set_kmem m (sample_kernel
      \<lparr> kernel_WaterMark := sample_wma \<lparr> current_address := 0x3EDFC0, current_size := 73792 \<rparr> \<rparr>)) \<lparr> ba_pcbs := x \<rparr>)" for m x
    by (simp add: kernel_alloc_def sample_kernel_def sample_alloc set_kmem_def)
  obtain m1 where b1: "block_init (kmem sample_kernel) 0x3F5FD0 41008 40 = Inr (0x3F5FD0, m1)"
    by (simp add: block_init_def Let_def)
  have b2: "\<exists>m'. block_init m 0x3EDFC0 32784 16 = Inr (0x3EDFC0, m')" for m
    by (simp add: block_init_def Let_def)
  obtain m2 where b2: "block_init m1 0x3EDFC0 32784 16 = Inr (0x3EDFC0, m2)" using b2 by blast
  define s3 where "s3 = (set_kmem m2 ((set_kmem m1 (sample_kernel
      \<lparr> kernel_WaterMark := sample_wma \<lparr> current_address := 0x3EDFC0, current_size := 73792 \<rparr> \<rparr>)) \<lparr> ba_pcbs := 0x3F5FD0 \<rparr>))
      \<lparr> ba_qnodes := 0x3EDFC0 \<rparr>"
  define M where "M = queue_init (foldl (\<lambda>m i. queue_init m (run_queue s3 i)) (kmem s3) [0..<NUM_QUEUES]) (sleep_queue s3)"
  have k: "kmem (s \<lparr> kernel_WaterMark := w \<rparr>) = kmem s" "kmem (s \<lparr> ba_pcbs := x \<rparr>) = kmem s" for w s x
    by (simp_all add: kmem_def)
  have "scheduler_init sample_kernel = Inr (set_kmem M s3)"
    using a1 a2 [of "0x3F5FD0" m1] b1 b2
    by (simp add: scheduler_init_def k s3_def M_def Let_def del: upt_Suc)
  moreover have "set_kmem M s3 = (set_kmem M sample_kernel)
     \<lparr> kernel_WaterMark := sample_wma \<lparr> current_address := 0x3EDFC0, current_size := 73792 \<rparr>,
       ba_pcbs := 0x3F5FD0, ba_qnodes := 0x3EDFC0 \<rparr>"
    by (simp add: s3_def set_kmem_def)
  ultimately show ?thesis by auto
qed

lemma sample_layout:
  assumes "queues s = 0x1000" and "sleep_queue s = 0x1100"
  shows "pool_layout 0x3EDFC0 2046 (sched_queues s)" and "sleep_queue s \<notin> run_queue s ` {..<NUM_QUEUES}"
proof -
  have Q: "sched_queues s = {0x1100, 0x1000, 0x1018, 0x1030, 0x1048}"
    by (simp add: sched_queues_def run_queue_def assms lessThan_nat_numeral lessThan_Suc insert_commute)
  have b: "block_bound 0x3EDFC0 16 2046" by simp
  have low: "unat a < 0x2000" if "q \<in> sched_queues s" "a \<in> queue_cells q" for a q
    using that by (auto simp: Q queue_cells_def)
  have "unat a \<ge> 0x2000" if "a \<in> header_of 0x3EDFC0 \<union> node_cells (block_addrs 0x3EDFC0 16 2046)" for a
    using that
  proof
    assume "a \<in> header_of 0x3EDFC0" then show ?thesis by (auto simp: header_of_def)
  next
    assume "a \<in> node_cells (block_addrs 0x3EDFC0 16 2046)"
    then obtain x where x: "x \<in> block_addrs 0x3EDFC0 16 2046" "a = x \<or> a = x + 8" by (auto simp: node_cells_def)
    obtain i where "i < 2046" "unat x = unat (0x3EDFC0 :: addr) + 48 + i * 16"
      "unat (x + 8) = unat (0x3EDFC0 :: addr) + 56 + i * 16" by (rule node_addr [OF b x(1)])
    with x(2) show ?thesis by auto
  qed
  then have "queue_cells q \<inter> (header_of 0x3EDFC0 \<union> node_cells (block_addrs 0x3EDFC0 16 2046)) = {}"
    if "q \<in> sched_queues s" for q using low [OF that] by (meson disjoint_iff not_less)
  moreover have "\<forall>q\<in>sched_queues s. \<forall>q'\<in>sched_queues s. q \<noteq> q' \<longrightarrow> queue_cells q \<inter> queue_cells q' = {}"
    unfolding Q by (simp add: queue_cells_def)
  ultimately show "pool_layout 0x3EDFC0 2046 (sched_queues s)" using b by (simp add: pool_layout_def)
  show "sleep_queue s \<notin> run_queue s ` {..<NUM_QUEUES}"
    by (simp add: run_queue_def assms lessThan_nat_numeral lessThan_Suc)
qed

lemma sample_kernel_ready:
  "\<exists>s. scheduler_init sample_kernel = Inr s \<and> sched_inv s 2046 (\<lambda>_. []) [] \<and>
     pcbs s = pcbs sample_kernel \<and> kcpu s = kcpu sample_kernel \<and> current_pcb s = 0x9000 \<and>
     quantum_left s = 10 \<and> one_ms s = 1000 \<and>
     pool_layout (ba_qnodes s) 2046 (sched_queues s) \<and>
     sleep_queue sample_kernel \<notin> run_queue sample_kernel ` {..<NUM_QUEUES}"
proof -
  obtain m w where init: "scheduler_init sample_kernel = Inr ((set_kmem m sample_kernel)
     \<lparr> kernel_WaterMark := w, ba_pcbs := 0x3F5FD0, ba_qnodes := 0x3EDFC0 \<rparr>)"
    using sample_kernel_init by blast
  define s where "s = (set_kmem m sample_kernel)
     \<lparr> kernel_WaterMark := w, ba_pcbs := 0x3F5FD0, ba_qnodes := 0x3EDFC0 \<rparr>"
  have f: "queues s = 0x1000" "sleep_queue s = 0x1100" "ba_qnodes s = 0x3EDFC0"
    "queues sample_kernel = 0x1000" "sleep_queue sample_kernel = 0x1100"
    by (simp_all add: s_def sample_kernel_def set_kmem_def)
  have lay: "pool_layout (ba_qnodes s) 2046 (sched_queues s)"
    unfolding f(3) by (rule sample_layout(1) [OF f(1,2)])
  have ne: "sleep_queue sample_kernel \<notin> run_queue sample_kernel ` {..<NUM_QUEUES}"
    by (rule sample_layout(2) [OF f(4,5)])
  have run: "run_queue s = run_queue sample_kernel" by (simp add: run_queue_def [abs_def] f)
  note lay [unfolded s_def]
  have "pool_rep (ba_qnodes s) 2046 (sched_queues s) (kmem s) {} (\<lambda>_. [])"
    using scheduler_init_pool [OF init [folded s_def] lay] by simp
  then have "sched_inv s 2046 (\<lambda>_. []) []"
    using ne by (intro sched_invI [of _ _ "\<lambda>_. []"]) (simp_all add: run f)
  then show ?thesis
    using init lay ne unfolding s_def [symmetric]
    by (intro exI [of _ s]) (simp add: s_def sample_kernel_def set_kmem_def)
qed


theorem scheduler_init_establishes_invariant_witness:
  "\<exists>s. scheduler_init sample_kernel = Inr s \<and> sched_inv s 2046 (\<lambda>_. []) []"
proof -
  obtain s where s: "scheduler_init sample_kernel = Inr s" "pool_layout (ba_qnodes s) 2046 (sched_queues s)"
    "sleep_queue sample_kernel \<notin> run_queue sample_kernel ` {..<NUM_QUEUES}"
    using sample_kernel_ready by blast
  from scheduler_init_establishes_invariant [OF s] s(1) show ?thesis by blast
qed

definition sample_rq :: "nat \<Rightarrow> addr list" where
  "sample_rq i = (if i = priority_index NORMAL then [0xA000] else [])"

text \<open>Two processes of normal priority, one running and one queued.\<close>

lemma sample_two_processes:
  "\<exists>s. sched_inv s 2046 sample_rq [] \<and> pcbs s = pcbs sample_kernel \<and>
     kcpu s = kcpu sample_kernel \<and> current_pcb s = 0x9000 \<and> quantum_left s = 10 \<and> one_ms s = 1000"
proof -
  obtain s where s: "sched_inv s 2046 (\<lambda>_. []) []" "pcbs s = pcbs sample_kernel"
    "kcpu s = kcpu sample_kernel" "current_pcb s = 0x9000" "quantum_left s = 10" "one_ms s = 1000"
    using sample_kernel_ready by blast
  obtain m where m: "sched_inv (set_kmem m s) 2046 ((\<lambda>_. [])(priority_index NORMAL := [] @ [0xA000])) []"
    by (rule schedule_ready [OF s(1), of "0xA000" "priority_index NORMAL"])
      (simp_all add: s(2) sample_kernel_def queued_total_def)
  have "(\<lambda>_. [])(priority_index NORMAL := [] @ [0xA000]) = sample_rq" by (auto simp: sample_rq_def)
  with m s(2-6) show ?thesis by (intro exI [of _ "set_kmem m s"]) simp
qed

lemma sample_queued_total: "queued_total sample_rq [] = 1"
  by (simp add: queued_total_def sample_rq_def lessThan_nat_numeral lessThan_Suc)

theorem dispatch_preempts_round_robin_witness:
  "\<exists>s s'. current_pcb s = 0x9000 \<and> dispatch 0 s = Inr s' \<and> current_pcb s' = 0xA000 \<and> quantum_left s' = 10"
proof -
  obtain s where s: "sched_inv s 2046 sample_rq []" "pcbs s = pcbs sample_kernel"
    "kcpu s = kcpu sample_kernel" "current_pcb s = 0x9000" "quantum_left s = 10" "one_ms s = 1000"
    using sample_two_processes by blast
  have r: "state (pcbs s p) = READY" "priority (pcbs s p) = NORMAL" for p by (simp_all add: s(2) sample_kernel_def)
  have t: "(0 :: u32) \<le> timer_delay (kcpu s)" "one_ms s \<noteq> 0" "quantum_left s \<le> span_of s 0"
    by (simp_all add: s(3,5,6) sample_kernel_def span_of_def)
  have "\<exists>i p ps s'. i < NUM_QUEUES \<and> (\<forall>j<i. (sample_rq(priority_index NORMAL := sample_rq (priority_index NORMAL) @ [0x9000])) j = []) \<and>
      (sample_rq(priority_index NORMAL := sample_rq (priority_index NORMAL) @ [0x9000])) i = p # ps \<and> dispatch 0 s = Inr s' \<and>
      dispatched s s' 2046 p (pcbs s) ((sample_rq(priority_index NORMAL := sample_rq (priority_index NORMAL) @ [0x9000]))(i := ps)) [] 10 \<and>
      cr3 (kcpu s') = pcb_page_table s' p"
    by (rule dispatch_preempts_round_robin [OF s(1) _ r(1) _ t, of "priority_index NORMAL"])
      (simp_all only: sample_queued_total r s(4) wake.simps, simp_all)
  then obtain i p ps s' where
    i: "(sample_rq(priority_index NORMAL := sample_rq (priority_index NORMAL) @ [0x9000])) i = p # ps"
    and d: "dispatch 0 s = Inr s'" "dispatched s s' 2046 p (pcbs s) ((sample_rq(priority_index NORMAL := sample_rq (priority_index NORMAL) @ [0x9000]))(i := ps)) [] 10"
    by blast
  from i have "p = 0xA000" by (auto simp: sample_rq_def split: if_splits)
  with d s(4) show ?thesis by (auto simp: dispatched_def)
qed

lemma dispatch_keeps_running_witness:
  "\<exists>s s'. current_pcb s = 0x9000 \<and> dispatch 97000 s = Inr s' \<and> current_pcb s' = 0x9000 \<and> quantum_left s' = 7"
proof -
  obtain s where s: "sched_inv s 2046 sample_rq []" "pcbs s = pcbs sample_kernel"
    "kcpu s = kcpu sample_kernel" "current_pcb s = 0x9000" "quantum_left s = 10" "one_ms s = 1000"
    using sample_two_processes by blast
  have sp: "span_of s 97000 = 3" by (simp add: span_of_def s(3,6) sample_kernel_def)
  have r: "state (pcbs s (current_pcb s)) = READY" "current_pcb s \<noteq> 0" "(97000 :: u32) \<le> timer_delay (kcpu s)"
    "one_ms s \<noteq> 0" "span_of s 97000 < quantum_left s"
    by (simp_all add: s(2-6) sample_kernel_def sp)
  have "\<exists>s'. dispatch 97000 s = Inr s' \<and>
      dispatched s s' 2046 (current_pcb s) (pcbs s) sample_rq [] (quantum_left s - span_of s 97000)"
    by (rule dispatch_keeps_running [OF s(1) _ r]) (simp_all add: sample_queued_total)
  then show ?thesis using s(4,5) sp by (auto simp: dispatched_def)
qed

end
