(* ===== verification/SleepQueue.thy ===== *)
theory SleepQueue
  imports Scheduler
begin

text \<open>
  Insertions into the sleep queue of \<open>kernel/scheduler/scheduler.c\<close>: at the end, where the order of
  wake times is kept, and between two sleepers, where \<open>queue_enqueue_prio\<close> breaks it.
\<close>

section \<open>Inserting between two sleepers\<close>

text \<open>The processes in the sleep queue, read off the memory.\<close>

definition sleepers :: "kernel \<Rightarrow> addr list \<Rightarrow> bool" where
  "sleepers s ps \<longleftrightarrow>
     (\<exists>xs. chain (kmem s) (kmem s (sleep_queue s + 8)) xs \<and> node_data (kmem s) xs = ps)"

text \<open>A process that is to sleep longer than all others goes to the end.\<close>

lemma schedule_sleeping_last:
  assumes inv: "sched_inv s n rq sl" and free: "queued_total rq sl < n"
    and st: "state (pcbs s p) = SLEEPING"
    and scan: "scan_list sleep_insert p sl (pcbs s) = (length sl, h')"
  obtains m where "schedule p s = Inr ((set_kmem m s) \<lparr> pcbs := h' \<rparr>)"
    and "sched_inv ((set_kmem m s) \<lparr> pcbs := h' \<rparr>) n rq (sl @ [p])"
proof -
  obtain V where rep: "pool_rep (ba_qnodes s) n (sched_queues s) (kmem s) {} V"
    and V: "\<forall>i<NUM_QUEUES. map snd (V (run_queue s i)) = rq i" "map snd (V (sleep_queue s)) = sl"
    and ne: "sleep_queue s \<notin> run_queue s ` {..<NUM_QUEUES}"
    by (rule sched_invE [OF inv])
  define q where "q = sleep_queue s"
  have qQ: "q \<in> sched_queues s" by (simp add: q_def)
  obtain x m1 where al: "block_alloc (kmem s) (ba_qnodes s) = (x, m1)" "x \<noteq> 0"
    and rep1: "pool_rep (ba_qnodes s) n (sched_queues s) m1 (insert x {}) V"
    by (rule pool_alloc [OF rep sched_free_node [OF rep V free]])
  define m2 where "m2 = m1(x + 8 := p)"
  have rep2: "pool_rep (ba_qnodes s) n (sched_queues s) m2 (insert x {}) V"
    unfolding m2_def by (rule pool_write [OF rep1]) simp
  have x: "m2 (x + 8) = p" "queue_fits q x"
    using pool_fits [OF rep2 qQ] pool_repD(2) [OF rep2] by (auto simp: m2_def)
  have at: "queue_at m2 q (map fst (V q))" and "\<forall>y\<in>set (V q). m2 (fst y + 8) = snd y"
    using pool_repD(4) [OF rep2 qQ] by (simp_all add: queue_view_def)
  then have "node_data m2 (map fst (V q)) = sl"
    using V(2) by (auto simp: node_data_def q_def)
  moreover have "length (map fst (V q)) = length sl" using V(2) by (metis length_map q_def)
  ultimately have "queue_enqueue_prio sleep_insert m2 (pcbs s) q x = Some (queue_enqueue m2 q x, h')"
    using scan x by (intro queue_enqueue_prio_back_eq [OF at]) simp_all
  then have sched: "schedule p s = Inr ((set_kmem (queue_enqueue m2 q x) s) \<lparr> pcbs := h' \<rparr>)"
    using al st by (simp add: schedule_def m2_def [symmetric] q_def)
  have rep3: "pool_rep (ba_qnodes s) n (sched_queues s) (queue_enqueue m2 q x) {} (V(q := V q @ [(x, p)]))"
    by (rule pool_enqueue(1) [OF rep2 qQ _ x(1)]) simp
  have "sched_inv (set_kmem (queue_enqueue m2 q x) s) n rq (sl @ [p])"
  proof (rule sched_invI)
    show "pool_rep (ba_qnodes (set_kmem (queue_enqueue m2 q x) s)) n (sched_queues (set_kmem (queue_enqueue m2 q x) s))
        (kmem (set_kmem (queue_enqueue m2 q x) s)) {} (V(q := V q @ [(x, p)]))"
      using rep3 by simp
    show "map snd ((V(q := V q @ [(x, p)])) (run_queue (set_kmem (queue_enqueue m2 q x) s) i)) = rq i"
      if "i < NUM_QUEUES" for i
    proof -
      have "run_queue s i \<noteq> q" using ne that unfolding q_def by (metis imageI lessThan_iff)
      with V(1) that show ?thesis by simp
    qed
    show "map snd ((V(q := V q @ [(x, p)])) (sleep_queue (set_kmem (queue_enqueue m2 q x) s))) = sl @ [p]"
      using V(2) by (simp add: q_def)
    show "sleep_queue (set_kmem (queue_enqueue m2 q x) s) \<notin> run_queue (set_kmem (queue_enqueue m2 q x) s) ` {..<NUM_QUEUES}"
      using ne by simp
  qed
  with sched show thesis by (intro that) simp_all
qed

text \<open>A process that is to be put at the second of two sleepers is linked behind it.\<close>

lemma schedule_behind_second:
  assumes inv: "sched_inv s n rq [a, b]" and free: "queued_total rq [a, b] < n" and st: "state (pcbs s c) = SLEEPING"
    and scan: "scan_list sleep_insert c [a, b] (pcbs s) = (1, h)"
  obtains m where "schedule c s = Inr ((set_kmem m s) \<lparr> pcbs := h \<rparr>)" and "sleepers ((set_kmem m s) \<lparr> pcbs := h \<rparr>) [a, b, c]"
proof -
  obtain V where rep: "pool_rep (ba_qnodes s) n (sched_queues s) (kmem s) {} V"
    and V: "\<forall>i<NUM_QUEUES. map snd (V (run_queue s i)) = rq i" "map snd (V (sleep_queue s)) = [a, b]"
    by (rule sched_invE [OF inv])
  define q where "q = sleep_queue s"
  obtain xa xb where v: "V q = [(xa, a), (xb, b)]" using V(2) by (auto simp: q_def)
  have qQ: "q \<in> sched_queues s" by (simp add: q_def)
  obtain x m1 where al: "block_alloc (kmem s) (ba_qnodes s) = (x, m1)" "x \<noteq> 0"
    and rep1: "pool_rep (ba_qnodes s) n (sched_queues s) m1 (insert x {}) V"
    by (rule pool_alloc [OF rep sched_free_node [OF rep V free]])
  define m2 where "m2 = m1(x + 8 := c)"
  have rep2: "pool_rep (ba_qnodes s) n (sched_queues s) m2 (insert x {}) V"
    unfolding m2_def by (rule pool_write [OF rep1]) simp
  note b = pool_repD(1) [OF rep2]
  have nodes: "x \<in> block_addrs (ba_qnodes s) 16 n" "xa \<in> block_addrs (ba_qnodes s) 16 n"
    "xb \<in> block_addrs (ba_qnodes s) 16 n" "x \<noteq> xa" "x \<noteq> xb"
    using pool_repD(2) [OF rep2] pool_repD(3) [OF rep2 qQ] pool_repD(5) [OF rep2 qQ] v by auto
  have at: "queue_at m2 q [xa, xb]" and ab: "m2 (xa + 8) = a" "m2 (xb + 8) = b"
    using pool_repD(4) [OF rep2 qQ] v by (simp_all add: queue_view_def)
  have "m2 (x + 8) = c" by (simp add: m2_def)
  note data = ab this
  have scan2: "scan_list sleep_insert (m2 (x + 8)) (node_data m2 [xa, xb]) (pcbs s) = (1, h)"
    using scan by (simp add: node_data_def data)
  define m3 where "m3 = m2(x := m2 xb, xb := x)"
  have "queue_enqueue_prio sleep_insert m2 (pcbs s) q x = Some (m3(q := m3 q + 1), h)"
    using queue_enqueue_prio_eq [OF at _ scan2] by (simp add: m3_def Let_def)
  then have sched: "schedule c s = Inr ((set_kmem (m3(q := m3 q + 1)) s) \<lparr> pcbs := h \<rparr>)"
    using al st by (simp add: schedule_def m2_def [symmetric] q_def)
  have cells: "queue_cells q \<inter> node_cells (block_addrs (ba_qnodes s) 16 n) = {}"
    by (rule pool_queue_cells(2) [OF rep2 qQ order.refl])
  have chain3: "chain m3 (m2 (q + 8)) (take (Suc 1) [xa, xb] @ x # drop (Suc 1) [xa, xb])"
    unfolding m3_def using chain_insert_after [of m2 "m2 (q + 8)" "[xa, xb]" 1 x] at nodes al(2)
    by (simp add: queue_at_def)
  have apart: "y + 8 \<noteq> z" "y \<noteq> q" "y + 8 \<noteq> q"
    if "y \<in> block_addrs (ba_qnodes s) 16 n" "z \<in> block_addrs (ba_qnodes s) 16 n" for y z
    using node_apart(1) [OF b that(2,1)] cells that by (auto simp: queue_cells_def node_cells_def)
  have q8: "q + 8 \<noteq> q" "q + 8 \<noteq> x" "q + 8 \<noteq> xb" 
    using cells nodes by (auto simp: queue_cells_def node_cells_def)
  define m4 where "m4 = m3(q := m3 q + 1)"
  have "chain m4 (m4 (q + 8)) [xa, xb, x]"
    using chain3 apart(2) [OF nodes(1,1)] apart(2) [OF nodes(2,2)] apart(2) [OF nodes(3,3)] q8
    by (simp add: m4_def m3_def)
  moreover have "node_data m4 [xa, xb, x] = [a, b, c]"
    using apart nodes data by (simp add: m4_def m3_def node_data_def)
  ultimately have "sleepers ((set_kmem m4 s) \<lparr> pcbs := h \<rparr>) [a, b, c]"
    unfolding sleepers_def q_def by (intro exI [of _ "[xa, xb, x]"]) (simp add: set_pcbs_commute)
  with sched show thesis by (intro that) (simp_all add: m4_def)
qed

text \<open>C40. The entries of the sleep queue hold the time after the entry before.  A process \<open>c\<close> that is
  to wake between two sleepers \<open>a\<close> and \<open>b\<close>, the only ones in the queue, takes its share off \<open>b\<close>, as it
  should in front of \<open>b\<close>, but is linked behind \<open>b\<close>: \<open>b\<close> wakes too early, and \<open>c\<close> when \<open>b\<close> should have.  (A process
  that is to wake behind all sleepers is inserted correctly.)\<close>

theorem sleep_insertion_swaps_wake_times:
  assumes inv: "sched_inv s n rq [a, b]" and free: "queued_total rq [a, b] < n"
    and d: "distinct [a, b, c]" and st: "state (pcbs s c) = SLEEPING"
    and times: "sleep_time (pcbs s a) < sleep_time (pcbs s c)"
      "sleep_time (pcbs s c) - sleep_time (pcbs s a) \<le> sleep_time (pcbs s b)"
  shows "\<exists>s'. schedule c s = Inr s' \<and> sleepers s' [a, b, c] \<and>
     sleep_time (pcbs s' a) = sleep_time (pcbs s a) \<and>
     sleep_time (pcbs s' b) = sleep_time (pcbs s b) - (sleep_time (pcbs s c) - sleep_time (pcbs s a)) \<and>
     sleep_time (pcbs s' c) = sleep_time (pcbs s c) - sleep_time (pcbs s a)"
proof -
  define h where "h = (pcbs s)(c := (pcbs s c) \<lparr> sleep_time := sleep_time (pcbs s c) - sleep_time (pcbs s a) \<rparr>)"
  define h' where "h' = h(b := (h b) \<lparr> sleep_time := sleep_time (h b) - sleep_time (h c) \<rparr>)"
  have "scan_list sleep_insert c [a, b] (pcbs s) = (1, h')"
    using times d by (simp add: sleep_insert_def h_def h'_def not_le)
  from schedule_behind_second [OF inv free st this] obtain m where
    "schedule c s = Inr ((set_kmem m s) \<lparr> pcbs := h' \<rparr>)" "sleepers ((set_kmem m s) \<lparr> pcbs := h' \<rparr>) [a, b, c]" .
  moreover have "c \<noteq> b" "c \<noteq> a" "b \<noteq> a" using d by auto
  ultimately show ?thesis
    by (intro exI [of _ "(set_kmem m s) \<lparr> pcbs := h' \<rparr>"]) (simp add: h'_def h_def)
qed

text \<open>Three processes: two asleep for 10 and 30 ms, one about to sleep for 20 ms.\<close>

definition sleepy_pcbs :: "addr \<Rightarrow> PCB" where
  "sleepy_pcbs = (\<lambda>p. \<lparr> sleep_time = (if p = 0xA000 then 10 else if p = 0xB000 then 30 else 20),
     pid = 0, ppid = 0, state = SLEEPING, priority = NORMAL \<rparr>)"

lemma sample_sleepers:
  "\<exists>s. sched_inv s 2046 (\<lambda>_. []) [0xA000, 0xB000] \<and>
     pcbs s = sleepy_pcbs(0xB000 := (sleepy_pcbs 0xB000) \<lparr> sleep_time := 20 \<rparr>)"
proof -
  obtain s0 where s0: "sched_inv s0 2046 (\<lambda>_. []) []" using sample_kernel_ready by blast
  define s1 where "s1 = s0 \<lparr> pcbs := sleepy_pcbs \<rparr>"
  obtain m2 where m2: "sched_inv ((set_kmem m2 s1) \<lparr> pcbs := sleepy_pcbs \<rparr>) 2046 (\<lambda>_. []) ([] @ [0xA000])"
    by (rule schedule_sleeping_last [of s1 2046 "\<lambda>_. []" "[]" "0xA000" sleepy_pcbs])
      (use s0 in \<open>simp_all add: s1_def queued_total_def sleepy_pcbs_def\<close>)
  define s2 where "s2 = (set_kmem m2 s1) \<lparr> pcbs := sleepy_pcbs \<rparr>"
  define h where "h = sleepy_pcbs(0xB000 := (sleepy_pcbs 0xB000) \<lparr> sleep_time := 20 \<rparr>)"
  have scan: "scan_list sleep_insert 0xB000 [0xA000] sleepy_pcbs = (length [0xA000 :: addr], h)"
    by (simp add: sleep_insert_def sleepy_pcbs_def h_def)
  obtain m3 where "sched_inv ((set_kmem m3 s2) \<lparr> pcbs := h \<rparr>) 2046 (\<lambda>_. []) ([0xA000] @ [0xB000])"
    by (rule schedule_sleeping_last [of s2 2046 "\<lambda>_. []" "[0xA000]" "0xB000" h])
      (use m2 scan in \<open>simp_all add: s2_def queued_total_def sleepy_pcbs_def\<close>)
  then show ?thesis by (intro exI [of _ "(set_kmem m3 s2) \<lparr> pcbs := h \<rparr>"]) (simp add: h_def)
qed

theorem sleep_insertion_swaps_wake_times_witness:
  "\<exists>s s'. schedule 0xC000 s = Inr s' \<and> sleep_time (pcbs s 0xC000) = 20 \<and>
     sleepers s' [0xA000, 0xB000, 0xC000] \<and> sleep_time (pcbs s' 0xA000) = 10 \<and>
     sleep_time (pcbs s' 0xB000) = 10 \<and> sleep_time (pcbs s' 0xC000) = 10"
proof -
  obtain s where s: "sched_inv s 2046 (\<lambda>_. []) [0xA000, 0xB000]"
    "pcbs s = sleepy_pcbs(0xB000 := (sleepy_pcbs 0xB000) \<lparr> sleep_time := 20 \<rparr>)"
    using sample_sleepers by blast
  have t: "sleep_time (pcbs s 0xA000) = 10" "sleep_time (pcbs s 0xB000) = 20" "sleep_time (pcbs s 0xC000) = 20"
    "state (pcbs s 0xC000) = SLEEPING" by (simp_all add: s(2) sleepy_pcbs_def)
  have "\<exists>s'. schedule 0xC000 s = Inr s' \<and> sleepers s' [0xA000, 0xB000, 0xC000] \<and>
     sleep_time (pcbs s' 0xA000) = sleep_time (pcbs s 0xA000) \<and>
     sleep_time (pcbs s' 0xB000) = sleep_time (pcbs s 0xB000) - (sleep_time (pcbs s 0xC000) - sleep_time (pcbs s 0xA000)) \<and>
     sleep_time (pcbs s' 0xC000) = sleep_time (pcbs s 0xC000) - sleep_time (pcbs s 0xA000)"
    by (rule sleep_insertion_swaps_wake_times [OF s(1)]) (simp_all add: t queued_total_def)
  then obtain s' where "schedule 0xC000 s = Inr s'" "sleepers s' [0xA000, 0xB000, 0xC000]"
    "sleep_time (pcbs s' 0xA000) = 10" "sleep_time (pcbs s' 0xB000) = 10" "sleep_time (pcbs s' 0xC000) = 10"
    unfolding t by auto
  with t(3) show ?thesis by (intro exI [of _ s] exI [of _ s'] conjI)
qed

end
