(* ===== verification/CloneMap.thy ===== *)
theory CloneMap
  imports MapPage
begin

text \<open>
  What \<open>virt_clone_mapping\<close> of \<open>paging.c\<close> does for \<open>fork\<close>: the user half of an address space is
  copied, tables and pages, into pages of the allocator; the kernel half is shared.  The four loops
  of the code are instances of one loop over the entries of a table; the proof goes through the
  levels with one contract, \<open>clones\<close>, for each of them.
\<close>

section \<open>Trees of tables\<close>

text \<open>
  A tree of level 0 is a page, one of level \<open>n + 1\<close> a table whose entries lead to trees of level
  \<open>n\<close>.  In \<open>copyable\<close> no cell of the tree is free and there are no large pages; \<open>pages_of\<close> is the
  number of pages the tree consists of.
\<close>

fun target :: "nat \<Rightarrow> u64 \<Rightarrow> addr" where
  "target 0 e = ENTRY_TO_ADDR e"
| "target (Suc n) e = entry_table e"

abbreviation slot :: "mem \<Rightarrow> addr \<Rightarrow> nat \<Rightarrow> u64" where
  "slot m X i \<equiv> entries m (PHYS_TO_VIRT X) (of_nat i)"

definition slots_copyable :: "(addr \<Rightarrow> bool) \<Rightarrow> nat \<Rightarrow> nat \<Rightarrow> (addr \<Rightarrow> bool) \<Rightarrow> mem \<Rightarrow> addr \<Rightarrow> bool" where
  "slots_copyable R n N free m X \<longleftrightarrow>
     (\<forall>i<N. \<not> free (PHYS_TO_VIRT X + 8 * of_nat i) \<and>
       (present (slot m X i) \<longrightarrow> (n \<noteq> 0 \<longrightarrow> \<not> large (slot m X i)) \<and> R (target n (slot m X i))))"

primrec copyable :: "nat \<Rightarrow> (addr \<Rightarrow> bool) \<Rightarrow> mem \<Rightarrow> addr \<Rightarrow> bool" where
  "copyable 0 free m = (\<lambda>X. MASK_4KIB X = X \<and> (\<forall>a. MASK_4KIB a = PHYS_TO_VIRT X \<longrightarrow> \<not> free a))"
| "copyable (Suc n) free m = (\<lambda>X. X AND PAGE_COPY_FLAGS = 0 \<and>
     slots_copyable (copyable n free m) n 512 free m X)"

definition slots_pages :: "(addr \<Rightarrow> nat) \<Rightarrow> nat \<Rightarrow> nat \<Rightarrow> mem \<Rightarrow> addr \<Rightarrow> nat" where
  "slots_pages c n N m X = (\<Sum>i<N. if present (slot m X i) then c (target n (slot m X i)) else 0)"

primrec pages_of :: "nat \<Rightarrow> mem \<Rightarrow> addr \<Rightarrow> nat" where
  "pages_of 0 m = (\<lambda>X. 1)"
| "pages_of (Suc n) m = (\<lambda>X. 1 + slots_pages (pages_of n m) n 512 m X)"

text \<open>
  \<open>copied n m m' X Y F\<close>: the tree at \<open>Y\<close> in \<open>m'\<close> is a copy of the one at \<open>X\<close> in \<open>m\<close>, made of the
  pages \<open>F\<close>, each of which is used once.
\<close>

definition slots_copied ::
  "(addr \<Rightarrow> addr \<Rightarrow> addr set \<Rightarrow> bool) \<Rightarrow> nat \<Rightarrow> mem \<Rightarrow> mem \<Rightarrow> addr \<Rightarrow> addr \<Rightarrow> (nat \<Rightarrow> addr set) \<Rightarrow> bool" where
  "slots_copied R N m m' X Y Fs \<longleftrightarrow>
     (\<forall>i<N. \<forall>j<N. i \<noteq> j \<longrightarrow> Fs i \<inter> Fs j = {}) \<and>
     (\<forall>i<N. Y \<notin> Fs i \<and>
       (if present (slot m X i)
        then \<exists>Z. MASK_4KIB Z = Z \<and> Z < 2 ^ 39 \<and> slot m' Y i = Z OR (slot m X i AND PAGE_COPY_FLAGS) \<and>
          R (slot m X i) Z (Fs i)
        else slot m' Y i = 0 \<and> Fs i = {}))"

primrec copied :: "nat \<Rightarrow> mem \<Rightarrow> mem \<Rightarrow> addr \<Rightarrow> addr \<Rightarrow> addr set \<Rightarrow> bool" where
  "copied 0 m m' = (\<lambda>X Y F. F = {Y} \<and>
     (\<forall>d<0x1000. m' (PHYS_TO_VIRT Y + d) = m (PHYS_TO_VIRT X + d)))"
| "copied (Suc n) m m' = (\<lambda>X Y F. \<exists>Fs. F = insert Y (\<Union>i<512. Fs i) \<and>
     slots_copied (\<lambda>e. copied n m m' (target n e)) 512 m m' X Y Fs)"

lemma copied_root: "copied n m m' X Y F \<Longrightarrow> Y \<in> F"
  by (cases n) auto

lemma page_cell: "MASK_4KIB Y = Y \<Longrightarrow> (d :: u64) < 0x1000 \<Longrightarrow> MASK_4KIB (PHYS_TO_VIRT Y + d) = PHYS_TO_VIRT Y"
  by (intro MASK_4KIB_off) (simp_all add: MASK_4KIB_virt word_less_nat_alt)

lemma slot_cell:
  assumes "MASK_4KIB Y = Y" and "i < 512"
  shows "MASK_4KIB (PHYS_TO_VIRT Y + 8 * of_nat i) = PHYS_TO_VIRT Y"
  using assms by (intro entry_cell) (simp_all add: word_less_nat_alt unat_of_nat_u64)

lemma slot_inject:
  assumes "MASK_4KIB Y = Y" and "i < 512" and "j < 512"
  shows "PHYS_TO_VIRT Y + 8 * of_nat i = PHYS_TO_VIRT Y + 8 * of_nat j \<longleftrightarrow> i = j"
  using entry_cell_inject [OF assms(1,1), of "of_nat i" "of_nat j"] assms(2,3)
  by (simp add: word_less_nat_alt unat_of_nat_u64 word_unat_eq_iff)

lemma slots_copiedD:
  assumes sl: "slots_copied R N m m' X Y Fs" and i: "i < N"
  shows "Y \<notin> Fs i" and "j < N \<Longrightarrow> i \<noteq> j \<Longrightarrow> Fs i \<inter> Fs j = {}"
    and "present (slot m X i) \<Longrightarrow> \<exists>Z. MASK_4KIB Z = Z \<and> Z < 2 ^ 39 \<and>
      slot m' Y i = Z OR (slot m X i AND PAGE_COPY_FLAGS) \<and> R (slot m X i) Z (Fs i)"
    and "\<not> present (slot m X i) \<Longrightarrow> slot m' Y i = 0 \<and> Fs i = {}"
proof -
  have "if present (slot m X i) then \<exists>Z. MASK_4KIB Z = Z \<and> Z < 2 ^ 39 \<and>
      slot m' Y i = Z OR (slot m X i AND PAGE_COPY_FLAGS) \<and> R (slot m X i) Z (Fs i)
    else slot m' Y i = 0 \<and> Fs i = {}"
    using assms unfolding slots_copied_def by blast
  then show "present (slot m X i) \<Longrightarrow> \<exists>Z. MASK_4KIB Z = Z \<and> Z < 2 ^ 39 \<and>
      slot m' Y i = Z OR (slot m X i AND PAGE_COPY_FLAGS) \<and> R (slot m X i) Z (Fs i)"
    and "\<not> present (slot m X i) \<Longrightarrow> slot m' Y i = 0 \<and> Fs i = {}"
    by simp_all
  show "Y \<notin> Fs i" and "j < N \<Longrightarrow> i \<noteq> j \<Longrightarrow> Fs i \<inter> Fs j = {}"
    using assms unfolding slots_copied_def by blast+
qed

text \<open>A copy stays one as long as its pages are not written.\<close>

lemma slots_copied_agree:
  assumes "slots_copied R N m m' X Y Fs"
    and "\<And>i. i < N \<Longrightarrow> slot m'' Y i = slot m' Y i"
    and "\<And>i Z. i < N \<Longrightarrow> R (slot m X i) Z (Fs i) \<Longrightarrow> R' (slot m X i) Z (Fs i)"
  shows "slots_copied R' N m m'' X Y Fs"
  unfolding slots_copied_def
proof (intro conjI allI impI)
  show "Fs i \<inter> Fs j = {}" if "i < N" "j < N" "i \<noteq> j" for i j
    using slots_copiedD(2) [OF assms(1)] that by blast
  fix i assume i: "i < N"
  note sl = slots_copiedD [OF assms(1) i]
  show "Y \<notin> Fs i" by (rule sl(1))
  show "if present (slot m X i)
      then \<exists>Z. MASK_4KIB Z = Z \<and> Z < 2 ^ 39 \<and> slot m'' Y i = Z OR (slot m X i AND PAGE_COPY_FLAGS) \<and>
        R' (slot m X i) Z (Fs i)
      else slot m'' Y i = 0 \<and> Fs i = {}"
    using sl(3,4) assms(2,3) [OF i] by auto
qed

lemma copied_agree:
  assumes "copied n m m' X Y F" and "\<And>p a. p \<in> F \<Longrightarrow> MASK_4KIB a = PHYS_TO_VIRT p \<Longrightarrow> m'' a = m' a"
    and "\<And>p. p \<in> F \<Longrightarrow> MASK_4KIB p = p"
  shows "copied n m m'' X Y F"
  using assms
proof (induction n arbitrary: X Y F)
  case 0
  have "m'' (PHYS_TO_VIRT Y + d) = m' (PHYS_TO_VIRT Y + d)" if "d < 0x1000" for d
    using 0 page_cell [OF _ that, of Y] by simp
  with 0 show ?case by simp
next
  case (Suc n)
  from Suc.prems(1) obtain Fs where F: "F = insert Y (\<Union>i<512. Fs i)"
    and sl: "slots_copied (\<lambda>e. copied n m m' (target n e)) 512 m m' X Y Fs" by auto
  have "slots_copied (\<lambda>e. copied n m m'' (target n e)) 512 m m'' X Y Fs"
  proof (rule slots_copied_agree [OF sl])
    show "slot m'' Y i = slot m' Y i" if "i < 512" for i
      by (rule Suc.prems(2) [of Y]) (use Suc.prems(3) slot_cell [OF _ that, of Y] in \<open>simp_all add: F\<close>)
    show "copied n m m'' (target n (slot m X i)) Z (Fs i)"
      if "i < 512" "copied n m m' (target n (slot m X i)) Z (Fs i)" for i Z
      using that Suc.prems(2,3) by (intro Suc.IH [OF that(2)]) (auto simp: F)
  qed
  with F show ?case by auto
qed

section \<open>One loop\<close>

text \<open>The loop over the entries of a table, with the copying of what an entry leads to.\<close>

definition clone_slots :: "(u64 \<Rightarrow> phys \<Rightarrow> (u64 \<times> phys) res) \<Rightarrow> addr \<Rightarrow> addr \<Rightarrow> nat \<Rightarrow> phys \<Rightarrow> phys res" where
  "clone_slots child X p N = for_each [0..<N] (\<lambda>i st.
     let entry = slot (pmem st) X i
     in if present entry
        then and_then (child entry st) (\<lambda>(e, st).
          Inr (put st (PHYS_TO_VIRT p + 8 * of_nat i) (e OR (entry AND PAGE_COPY_FLAGS))))
        else Inr (put st (PHYS_TO_VIRT p + 8 * of_nat i) 0))"

text \<open>
  While an address space is copied, starting in \<open>st0\<close> with the pages \<open>A0\<close> available: the pages \<open>A\<close>
  are left, and nothing but cells of the allocator and of its pages has changed.
\<close>

definition cloning :: "addr \<Rightarrow> addr set \<Rightarrow> phys \<Rightarrow> addr set \<Rightarrow> phys \<Rightarrow> addr set \<Rightarrow> bool" where
  "cloning s B st0 A0 st A \<longleftrightarrow> frames_inv s B st A \<and> A \<subseteq> A0 \<and>
     (\<forall>a. \<not> own_cells s B A0 a \<longrightarrow> pmem st a = pmem st0 a)"

definition clone_start :: "addr \<Rightarrow> addr set \<Rightarrow> phys \<Rightarrow> addr set \<Rightarrow> bool" where
  "clone_start s B st0 A0 \<longleftrightarrow> frames_inv s B st0 A0 \<and> (\<forall>p\<in>A0. p < 2 ^ 39)"

text \<open>The contract of an operation that copies trees of level \<open>n\<close>.\<close>

definition clones :: "addr \<Rightarrow> addr set \<Rightarrow> phys \<Rightarrow> addr set \<Rightarrow> nat \<Rightarrow> (addr \<Rightarrow> phys \<Rightarrow> (u64 \<times> phys) res) \<Rightarrow> bool" where
  "clones s B st0 A0 n f \<longleftrightarrow> (\<forall>X st A. cloning s B st0 A0 st A \<and>
     copyable n (own_cells s B A0) (pmem st0) X \<and> pages_of n (pmem st0) X \<le> card A \<longrightarrow>
     (\<exists>Y st' A' F. f X st = Inr (Y, st') \<and> cloning s B st0 A0 st' A' \<and> A' \<subseteq> A \<and>
        card A' + pages_of n (pmem st0) X = card A \<and>
        (\<forall>a. \<not> own_cells s B A a \<longrightarrow> pmem st' a = pmem st a) \<and>
        F \<subseteq> A - A' \<and> copied n (pmem st0) (pmem st') X Y F))"

lemma clone_page_out:
  assumes "clone_start s B st0 A0" and "p \<in> A0" and "A \<subseteq> A0" and "p \<notin> A" and "MASK_4KIB a = PHYS_TO_VIRT p"
  shows "\<not> own_cells s B A a"
  using assms fa.own_page [of s B st0 A0 p a] own_cells_mono [of A "A0 - {p}" s B a]
  by (auto simp: clone_start_def)

lemma clone_page_cells:
  assumes "clone_start s B st0 A0" and "p \<in> A0"
  shows "MASK_4KIB p = p" and "p < 2 ^ 39"
    and "MASK_4KIB a = PHYS_TO_VIRT p \<Longrightarrow> own_cells s B A0 a"
  using assms fa.page_aligned fa.own_avail by (auto simp: clone_start_def)

lemma cloning_put:
  assumes start: "clone_start s B st0 A0" and cl: "cloning s B st0 A0 st A" and p: "p \<in> A0" "p \<notin> A"
    and a: "\<And>a. MASK_4KIB a \<noteq> PHYS_TO_VIRT p \<Longrightarrow> m a = pmem st a"
  shows "cloning s B st0 A0 (st \<lparr> pmem := m \<rparr>) A"
proof -
  have sub: "A \<subseteq> A0" using cl by (simp add: cloning_def)
  have "m a = pmem st a" if "own_cells s B A a" for a
    using a [of a] clone_page_out [OF start p(1) sub p(2)] that by blast
  then have "frames_inv s B (st \<lparr> pmem := m \<rparr>) A"
    using cl by (intro fa.write_other) (simp_all add: cloning_def)
  moreover have "m a = pmem st0 a" if "\<not> own_cells s B A0 a" for a
    using a [of a] clone_page_cells(3) [OF start p(1), of a] that cl by (auto simp: cloning_def)
  ultimately show ?thesis using sub by (simp add: cloning_def)
qed

text \<open>What an entry of the copy is.\<close>

lemma copied_entry:
  assumes Z: "MASK_4KIB Z = Z" "Z < 2 ^ 39" and e: "present e"
  shows "present (Z OR (e AND PAGE_COPY_FLAGS))" and "\<not> large (Z OR (e AND PAGE_COPY_FLAGS))"
    and "target n (Z OR (e AND PAGE_COPY_FLAGS)) = Z"
    and "(Z OR (e AND PAGE_COPY_FLAGS)) AND PAGE_COPY_FLAGS = e AND PAGE_COPY_FLAGS"
proof -
  have low: "Z AND mask 39 = Z"
    using Z(2) unfolding word_unat_eq_iff unat_and_mask by (simp add: word_less_nat_alt)
  have high: "Z AND NOT (mask 12) = Z" using Z(1) unfolding MASK_4KIB_def mask_12 .
  have Zb: "Z AND 0x7FFFFFF000 = Z"
    using low high unfolding mask_39_12 by (simp flip: and.assoc)
  have in_Zb: "Z AND w = Z AND (0x7FFFFFF000 AND w)" for w
    by (simp only: Zb and.assoc [symmetric])
  have "Z AND 1 = Z AND (0x7FFFFFF000 AND 1)" "Z AND 0x80 = Z AND (0x7FFFFFF000 AND 0x80)"
    "Z AND 0x7FFFFFFFFFFFF000 = Z AND (0x7FFFFFF000 AND 0x7FFFFFFFFFFFF000)"
    "Z AND PAGE_COPY_FLAGS = Z AND (0x7FFFFFF000 AND PAGE_COPY_FLAGS)" by (rule in_Zb)+
  moreover have "(0x7FFFFFF000 AND 1 :: u64) = 0" "(0x7FFFFFF000 AND 0x80 :: u64) = 0"
    "(0x7FFFFFF000 AND 0x7FFFFFFFFFFFF000 :: u64) = 0x7FFFFFF000" "(0x7FFFFFF000 AND PAGE_COPY_FLAGS :: u64) = 0"
    by simp_all
  ultimately have Zw: "Z AND 1 = 0" "Z AND 0x80 = 0" "Z AND 0x7FFFFFFFFFFFF000 = Z" "Z AND PAGE_COPY_FLAGS = 0"
    by (simp_all only: Zb and_zero_eq)
  have ew: "(e AND PAGE_COPY_FLAGS) AND 1 = e AND 1" "(e AND PAGE_COPY_FLAGS) AND 0x80 = 0"
    "(e AND PAGE_COPY_FLAGS) AND 0x7FFFFFF000 = 0" "(e AND PAGE_COPY_FLAGS) AND 0x7FFFFFFFFFFFF000 = 0"
    "(e AND PAGE_COPY_FLAGS) AND PAGE_COPY_FLAGS = e AND PAGE_COPY_FLAGS"
    by (simp_all add: and.assoc)
  show "present (Z OR (e AND PAGE_COPY_FLAGS))" and "\<not> large (Z OR (e AND PAGE_COPY_FLAGS))"
    and "(Z OR (e AND PAGE_COPY_FLAGS)) AND PAGE_COPY_FLAGS = e AND PAGE_COPY_FLAGS"
    unfolding bit.conj_disj_distrib2 Zw ew using e by simp_all
  show "target n (Z OR (e AND PAGE_COPY_FLAGS)) = Z"
    by (cases n) (simp_all only: target.simps ENTRY_TO_ADDR_def entry_table_def bit.conj_disj_distrib2 Zw Zb ew or.right_neutral)
qed

lemma and_then_Inr: "and_then r Inr = r"
  by (cases r) simp_all

lemma for_each_single: "for_each [k] f = f k"
  by (simp add: fun_eq_iff and_then_Inr)

lemma clone_slots_Suc:
  "clone_slots child X p (Suc k) st = and_then (clone_slots child X p k st) (\<lambda>st.
     let entry = slot (pmem st) X k
     in if present entry
        then and_then (child entry st) (\<lambda>(e, st).
          Inr (put st (PHYS_TO_VIRT p + 8 * of_nat k) (e OR (entry AND PAGE_COPY_FLAGS))))
        else Inr (put st (PHYS_TO_VIRT p + 8 * of_nat k) 0))"
  by (simp add: clone_slots_def for_each_append for_each_single)

lemma slots_copied_Suc:
  assumes "slots_copied R k m m' X Y Fs" and "\<And>i. i < k \<Longrightarrow> Fs i \<inter> F = {}" and "Y \<notin> F"
    and "if present (slot m X k)
      then \<exists>Z. MASK_4KIB Z = Z \<and> Z < 2 ^ 39 \<and> slot m' Y k = Z OR (slot m X k AND PAGE_COPY_FLAGS) \<and>
        R (slot m X k) Z F
      else slot m' Y k = 0 \<and> F = {}"
  shows "slots_copied R (Suc k) m m' X Y (Fs(k := F))"
  unfolding slots_copied_def
proof (intro conjI allI impI)
  show "(Fs(k := F)) i \<inter> (Fs(k := F)) j = {}" if "i < Suc k" "j < Suc k" "i \<noteq> j" for i j
    using slots_copiedD(2) [OF assms(1), of i j] assms(2) [of i] assms(2) [of j] that
    by (auto simp: less_Suc_eq)
  fix i assume "i < Suc k"
  then consider "i < k" | "i = k" by linarith
  then have "Y \<notin> (Fs(k := F)) i \<and> (if present (slot m X i)
      then \<exists>Z. MASK_4KIB Z = Z \<and> Z < 2 ^ 39 \<and> slot m' Y i = Z OR (slot m X i AND PAGE_COPY_FLAGS) \<and>
        R (slot m X i) Z ((Fs(k := F)) i)
      else slot m' Y i = 0 \<and> (Fs(k := F)) i = {})"
  proof cases
    case 1
    with slots_copiedD(1,3,4) [OF assms(1) 1] show ?thesis by auto
  next
    case 2
    show ?thesis unfolding 2 fun_upd_same using assms(3,4) by blast
  qed
  then show "Y \<notin> (Fs(k := F)) i" and "if present (slot m X i)
      then \<exists>Z. MASK_4KIB Z = Z \<and> Z < 2 ^ 39 \<and> slot m' Y i = Z OR (slot m X i AND PAGE_COPY_FLAGS) \<and>
        R (slot m X i) Z ((Fs(k := F)) i)
      else slot m' Y i = 0 \<and> (Fs(k := F)) i = {}" by blast+
qed

lemma clone_slots_copies:
  assumes start: "clone_start s B st0 A0" and ch: "clones s B st0 A0 n ch"
    and child: "\<And>e. (n \<noteq> 0 \<longrightarrow> \<not> large e) \<Longrightarrow> child e = ch (target n e)"
    and src: "slots_copyable (copyable n (own_cells s B A0) (pmem st0)) n N (own_cells s B A0) (pmem st0) X"
    and cl: "cloning s B st0 A0 st A" and p: "p \<in> A0" "p \<notin> A"
    and enough: "slots_pages (pages_of n (pmem st0)) n N (pmem st0) X \<le> card A" and N: "N \<le> 512"
  shows "\<exists>st' A' Fs. clone_slots child X p N st = Inr st' \<and> cloning s B st0 A0 st' A' \<and> A' \<subseteq> A \<and>
    card A' + slots_pages (pages_of n (pmem st0)) n N (pmem st0) X = card A \<and>
    (\<forall>a. \<not> own_cells s B A a \<and> MASK_4KIB a \<noteq> PHYS_TO_VIRT p \<longrightarrow> pmem st' a = pmem st a) \<and>
    (\<forall>i<N. Fs i \<subseteq> A - A') \<and>
    slots_copied (\<lambda>e. copied n (pmem st0) (pmem st') (target n e)) N (pmem st0) (pmem st') X p Fs"
  using src enough N
proof (induction N)
  case 0
  then show ?case using cl
    by (intro exI [of _ st] exI [of _ A]) (simp add: clone_slots_def slots_pages_def slots_copied_def)
next
  case (Suc k)
  define e where "e = slot (pmem st0) X k"
  define c where "c = (if present e then pages_of n (pmem st0) (target n e) else 0)"
  define x where "x = PHYS_TO_VIRT p + 8 * of_nat k"
  have pages: "slots_pages (pages_of n (pmem st0)) n (Suc k) (pmem st0) X =
      slots_pages (pages_of n (pmem st0)) n k (pmem st0) X + c"
    by (simp add: slots_pages_def c_def e_def)
  have "slots_copyable (copyable n (own_cells s B A0) (pmem st0)) n k (own_cells s B A0) (pmem st0) X"
    using Suc.prems(1) by (simp add: slots_copyable_def)
  with Suc.IH Suc.prems(2,3) obtain st1 A1 Fs where
    1: "clone_slots child X p k st = Inr st1" "cloning s B st0 A0 st1 A1" "A1 \<subseteq> A"
      "card A1 + slots_pages (pages_of n (pmem st0)) n k (pmem st0) X = card A"
    and oth: "\<forall>a. \<not> own_cells s B A a \<and> MASK_4KIB a \<noteq> PHYS_TO_VIRT p \<longrightarrow> pmem st1 a = pmem st a"
    and Fs: "\<forall>i<k. Fs i \<subseteq> A - A1"
    and sl: "slots_copied (\<lambda>e. copied n (pmem st0) (pmem st1) (target n e)) k (pmem st0) (pmem st1) X p Fs"
    unfolding pages by auto
  have e: "slot (pmem st1) X k = e" "present e \<Longrightarrow> n \<noteq> 0 \<longrightarrow> \<not> large e"
    "present e \<Longrightarrow> copyable n (own_cells s B A0) (pmem st0) (target n e)"
    using 1(2) Suc.prems(1) by (simp_all add: cloning_def slots_copyable_def e_def)
  have xp: "MASK_4KIB x = PHYS_TO_VIRT p"
    unfolding x_def using clone_page_cells(1) [OF start p(1)] Suc.prems(3) by (intro slot_cell) simp_all
  have sub: "A \<subseteq> A0" "A1 \<subseteq> A0" using cl 1(2) by (simp_all add: cloning_def)
  have "\<exists>Y st2 A2 F. (if present e then child e st1 else Inr (0, st1)) = Inr (Y, st2) \<and>
      cloning s B st0 A0 st2 A2 \<and> A2 \<subseteq> A1 \<and> card A2 + c = card A1 \<and>
      (\<forall>a. \<not> own_cells s B A1 a \<longrightarrow> pmem st2 a = pmem st1 a) \<and> F \<subseteq> A1 - A2 \<and>
      (if present e then copied n (pmem st0) (pmem st2) (target n e) Y F else F = {})"
  proof (cases "present e")
    case True
    have "pages_of n (pmem st0) (target n e) \<le> card A1"
      using 1(4) Suc.prems(2) True unfolding pages by (simp add: c_def)
    with ch 1(2) e(3) [OF True] obtain Y st2 A2 F where "ch (target n e) st1 = Inr (Y, st2)"
      "cloning s B st0 A0 st2 A2" "A2 \<subseteq> A1" "card A2 + pages_of n (pmem st0) (target n e) = card A1"
      "\<forall>a. \<not> own_cells s B A1 a \<longrightarrow> pmem st2 a = pmem st1 a" "F \<subseteq> A1 - A2"
      "copied n (pmem st0) (pmem st2) (target n e) Y F"
      unfolding clones_def by blast
    then show ?thesis using True child [OF e(2) [OF True]] by (simp add: c_def) blast
  next
    case False
    then show ?thesis using 1(2)
      by (intro exI [of _ 0] exI [of _ st1] exI [of _ A1] exI [of _ "{}"]) (simp add: c_def)
  qed
  then obtain Y st2 A2 F where
    2: "(if present e then child e st1 else Inr (0, st1)) = Inr (Y, st2)" "cloning s B st0 A0 st2 A2"
      "A2 \<subseteq> A1" "card A2 + c = card A1"
    and oth2: "\<forall>a. \<not> own_cells s B A1 a \<longrightarrow> pmem st2 a = pmem st1 a" and F: "F \<subseteq> A1 - A2"
    and cp: "if present e then copied n (pmem st0) (pmem st2) (target n e) Y F else F = {}"
    by blast
  define v where "v = (if present e then Y OR (e AND PAGE_COPY_FLAGS) else 0)"
  define st3 where "st3 = put st2 x v"
  have "clone_slots child X p (Suc k) st = Inr st3"
    unfolding clone_slots_Suc 1(1) using 2(1)
    by (auto simp: e(1) Let_def st3_def v_def x_def split: if_splits)
  moreover have "cloning s B st0 A0 st3 A2"
    unfolding st3_def put_def by (rule cloning_put [OF start 2(2) p(1)]) (use p(2) 1(3) 2(3) xp in auto)
  moreover have "A2 \<subseteq> A" using 1(3) 2(3) by blast
  moreover have "card A2 + slots_pages (pages_of n (pmem st0)) n (Suc k) (pmem st0) X = card A"
    using 1(4) 2(4) by (simp add: pages)
  moreover have "pmem st3 a = pmem st a" if "\<not> own_cells s B A a" "MASK_4KIB a \<noteq> PHYS_TO_VIRT p" for a
  proof -
    have "\<not> own_cells s B A1 a" "a \<noteq> x" using that own_cells_mono [OF 1(3), of s B a] xp by auto
    then show ?thesis using that oth oth2 by (simp add: st3_def put_def)
  qed
  moreover have "\<forall>i<Suc k. (Fs(k := F)) i \<subseteq> A - A2"
  proof (intro allI impI)
    fix i assume "i < Suc k"
    then consider "i < k" | "i = k" by linarith
    then show "(Fs(k := F)) i \<subseteq> A - A2"
    proof cases
      case 1
      then have "Fs i \<subseteq> A - A1" using Fs by blast
      with 1 2(3) show ?thesis by auto
    qed (use F 1(3) in auto)
  qed
  moreover have "slots_copied (\<lambda>e. copied n (pmem st0) (pmem st3) (target n e)) (Suc k) (pmem st0) (pmem st3) X p (Fs(k := F))"
  proof (rule slots_copied_Suc)
    have same: "pmem st3 a = pmem st1 a" if "q \<in> A0" "q \<notin> A1" "q \<noteq> p" "MASK_4KIB a = PHYS_TO_VIRT q" for a q
      using oth2 clone_page_out [OF start that(1) sub(2) that(2,4)] that(3,4) xp
      by (auto simp: st3_def put_def)
    show "slots_copied (\<lambda>e. copied n (pmem st0) (pmem st3) (target n e)) k (pmem st0) (pmem st3) X p Fs"
    proof (rule slots_copied_agree [OF sl])
      fix i assume i: "i < k"
      have "PHYS_TO_VIRT p + 8 * of_nat i \<noteq> x"
        using i Suc.prems(3) slot_inject [OF clone_page_cells(1) [OF start p(1)], of i k] by (simp add: x_def)
      moreover have "\<not> own_cells s B A1 (PHYS_TO_VIRT p + 8 * of_nat i)"
        using clone_page_out [OF start p(1) sub(2)] slot_cell [OF clone_page_cells(1) [OF start p(1)], of i] p(2) 1(3) i
          Suc.prems(3) by auto
      ultimately show "slot (pmem st3) p i = slot (pmem st1) p i" using oth2 by (simp add: st3_def put_def)
      fix Z
      assume Z: "copied n (pmem st0) (pmem st1) (target n (slot (pmem st0) X i)) Z (Fs i)"
      have "q \<in> A0 \<and> q \<notin> A1 \<and> q \<noteq> p" if "q \<in> Fs i" for q
        using that Fs i sub(1) p(2) by blast
      then show "copied n (pmem st0) (pmem st3) (target n (slot (pmem st0) X i)) Z (Fs i)"
        using same clone_page_cells(1) [OF start] by (intro copied_agree [OF Z]) blast+
    qed
    show "Fs i \<inter> F = {}" if "i < k" for i using Fs F that by blast
    show "p \<notin> F" using F 1(3) p(2) by blast
    show "if present (slot (pmem st0) X k)
      then \<exists>Z. MASK_4KIB Z = Z \<and> Z < 2 ^ 39 \<and>
        slot (pmem st3) p k = Z OR (slot (pmem st0) X k AND PAGE_COPY_FLAGS) \<and>
        copied n (pmem st0) (pmem st3) (target n (slot (pmem st0) X k)) Z F
      else slot (pmem st3) p k = 0 \<and> F = {}"
      unfolding e_def [symmetric]
    proof (cases "present e")
      case True
      then have c2: "copied n (pmem st0) (pmem st2) (target n e) Y F" using cp by simp
      have FA: "q \<in> A0 \<and> q \<noteq> p" if "q \<in> F" for q using that F sub p(2) 1(3) by blast
      have "pmem st3 a = pmem st2 a" if "q \<in> F" "MASK_4KIB a = PHYS_TO_VIRT q" for q a
        using FA [OF that(1)] that(2) xp by (auto simp: st3_def put_def)
      then have "copied n (pmem st0) (pmem st3) (target n e) Y F"
        using clone_page_cells(1) [OF start] FA by (intro copied_agree [OF c2]) blast+
      then show "if present e then \<exists>Z. MASK_4KIB Z = Z \<and> Z < 2 ^ 39 \<and>
          slot (pmem st3) p k = Z OR (e AND PAGE_COPY_FLAGS) \<and> copied n (pmem st0) (pmem st3) (target n e) Z F
        else slot (pmem st3) p k = 0 \<and> F = {}"
        using True clone_page_cells(1,2) [OF start, of Y] FA [OF copied_root [OF c2]]
        by (auto simp: st3_def put_def x_def v_def intro!: exI [of _ Y])
    qed (use cp in \<open>simp add: st3_def put_def x_def v_def\<close>)
  qed
  ultimately show ?case by blast
qed

section \<open>The levels\<close>

text \<open>Allocating a table, filling it, returning its address: the frame of the three inner functions.\<close>

definition clone_table :: "string \<Rightarrow> (u64 \<Rightarrow> phys \<Rightarrow> (u64 \<times> phys) res) \<Rightarrow> addr \<Rightarrow> phys \<Rightarrow> (u64 \<times> phys) res" where
  "clone_table error child X st =
     and_then (phys_alloc_4KIB_safe st error) (\<lambda>(p, st).
     and_then (clone_slots child X p 512 st) (\<lambda>st.
       Inr (p OR (X AND PAGE_COPY_FLAGS), st)))"

lemma phys_alloc_safe_page:
  assumes start: "clone_start s B st0 A0" and cl: "cloning s B st0 A0 st A" and ne: "A \<noteq> {}"
  shows "\<exists>p st'. phys_alloc_4KIB_safe st error = Inr (p, st') \<and> p \<in> A \<and> p \<in> A0 \<and>
    cloning s B st0 A0 st' (A - {p}) \<and> card A = Suc (card (A - {p})) \<and>
    (\<forall>a. \<not> own_cells s B A a \<longrightarrow> pmem st' a = pmem st a)"
proof -
  have fr: "frames_inv s B st A" "A \<subseteq> A0" using cl by (simp_all add: cloning_def)
  from fa.alloc_some [OF fr(1) ne] obtain p st' where
    p: "phys_alloc_4KIB st = Inr (p, st')" "p \<in> A" "frames_inv s B st' (A - {p})" by blast
  have "p \<noteq> 0" using fa.nonzero [OF fr(1)] p(2) by auto
  then have "phys_alloc_4KIB_safe st error = Inr (p, st')" using p(1) by (simp add: phys_alloc_4KIB_safe_def)
  moreover have oth: "pmem st' a = pmem st a" if "\<not> own_cells s B A a" for a
    by (rule fa.alloc_frame [OF fr(1) ne p(1) that])
  moreover have "card A = Suc (card (A - {p}))"
    using fa.finite_avail [OF fr(1)] p(2) by (metis card_Suc_Diff1)
  moreover have "pmem st' a = pmem st0 a" if "\<not> own_cells s B A0 a" for a
    using that oth [of a] own_cells_mono [OF fr(2), of s B a] cl by (auto simp: cloning_def)
  then have "cloning s B st0 A0 st' (A - {p})" using p(3) fr(2) by (auto simp: cloning_def)
  ultimately show ?thesis using p(2) fr(2) by blast
qed

lemma clones_table:
  assumes start: "clone_start s B st0 A0" and ch: "clones s B st0 A0 n ch"
    and child: "\<And>e. (n \<noteq> 0 \<longrightarrow> \<not> large e) \<Longrightarrow> child e = ch (target n e)"
  shows "clones s B st0 A0 (Suc n) (clone_table error child)"
  unfolding clones_def
proof (intro allI impI, elim conjE)
  fix X st A
  assume cl: "cloning s B st0 A0 st A" and cp: "copyable (Suc n) (own_cells s B A0) (pmem st0) X"
    and enough: "pages_of (Suc n) (pmem st0) X \<le> card A"
  then have "A \<noteq> {}" by auto
  from phys_alloc_safe_page [OF start cl this] obtain p st1 where
    1: "phys_alloc_4KIB_safe st error = Inr (p, st1)" "p \<in> A" "p \<in> A0" "cloning s B st0 A0 st1 (A - {p})"
      "card A = Suc (card (A - {p}))" and oth1: "\<forall>a. \<not> own_cells s B A a \<longrightarrow> pmem st1 a = pmem st a"
    by blast
  have "slots_pages (pages_of n (pmem st0)) n 512 (pmem st0) X \<le> card (A - {p})"
    using enough 1(5) by simp
  with clone_slots_copies [OF start ch child _ 1(4,3), of 512 X] cp obtain st2 A2 Fs where
    2: "clone_slots child X p 512 st1 = Inr st2" "cloning s B st0 A0 st2 A2" "A2 \<subseteq> A - {p}"
      "card A2 + slots_pages (pages_of n (pmem st0)) n 512 (pmem st0) X = card (A - {p})"
    and oth2: "\<forall>a. \<not> own_cells s B (A - {p}) a \<and> MASK_4KIB a \<noteq> PHYS_TO_VIRT p \<longrightarrow> pmem st2 a = pmem st1 a"
    and Fs: "\<forall>i<512. Fs i \<subseteq> A - {p} - A2"
    and sl: "slots_copied (\<lambda>e. copied n (pmem st0) (pmem st2) (target n e)) 512 (pmem st0) (pmem st2) X p Fs"
    by auto
  have "pmem st2 a = pmem st a" if a: "\<not> own_cells s B A a" for a
  proof -
    have "MASK_4KIB a \<noteq> PHYS_TO_VIRT p"
      using a 1(2) cl fa.own_avail [of s B st A p a] by (auto simp: cloning_def)
    moreover have "\<not> own_cells s B (A - {p}) a" using a own_cells_mono [of "A - {p}" A s B a] by blast
    ultimately show ?thesis using oth1 oth2 a by simp
  qed
  moreover have "clone_table error child X st = Inr (p, st2)"
    using 1(1) 2(1) cp by (simp add: clone_table_def)
  moreover have "copied (Suc n) (pmem st0) (pmem st2) X p (insert p (\<Union>i<512. Fs i))" using sl by auto
  moreover have "insert p (\<Union>i<512. Fs i) \<subseteq> A - A2" using Fs 2(3) 1(2) by auto
  moreover have "card A2 + pages_of (Suc n) (pmem st0) X = card A" using 2(4) 1(5) by simp
  ultimately show "\<exists>Y st' A' F. clone_table error child X st = Inr (Y, st') \<and> cloning s B st0 A0 st' A' \<and>
      A' \<subseteq> A \<and> card A' + pages_of (Suc n) (pmem st0) X = card A \<and>
      (\<forall>a. \<not> own_cells s B A a \<longrightarrow> pmem st' a = pmem st a) \<and> F \<subseteq> A - A' \<and>
      copied (Suc n) (pmem st0) (pmem st') X Y F"
    using 2(2,3) by blast
qed

text \<open>A page.\<close>

definition clone_page :: "addr \<Rightarrow> phys \<Rightarrow> (u64 \<times> phys) res" where
  "clone_page X st = and_then (phys_alloc_4KIB_safe st ''clone_page_table: No memory (loop)'') (\<lambda>(p, st).
     Inr (p, st \<lparr> pmem := copy_region (pmem st) (PHYS_TO_VIRT p) (PHYS_TO_VIRT X) PAGE_SMALL_SIZE \<rparr>))"

lemma clones_page:
  assumes start: "clone_start s B st0 A0"
  shows "clones s B st0 A0 0 clone_page"
  unfolding clones_def
proof (intro allI impI, elim conjE)
  fix X st A
  assume cl: "cloning s B st0 A0 st A" and cp: "copyable 0 (own_cells s B A0) (pmem st0) X"
    and enough: "pages_of 0 (pmem st0) X \<le> card A"
  then have "A \<noteq> {}" by auto
  from phys_alloc_safe_page [OF start cl this] obtain p st1 where
    1: "phys_alloc_4KIB_safe st ''clone_page_table: No memory (loop)'' = Inr (p, st1)" "p \<in> A" "p \<in> A0"
      "cloning s B st0 A0 st1 (A - {p})"
      "card A = Suc (card (A - {p}))" and oth1: "\<forall>a. \<not> own_cells s B A a \<longrightarrow> pmem st1 a = pmem st a"
    by blast
  define m where "m = copy_region (pmem st1) (PHYS_TO_VIRT p) (PHYS_TO_VIRT X) PAGE_SMALL_SIZE"
  have pal: "MASK_4KIB p = p" using clone_page_cells(1) [OF start 1(3)] .
  have other: "m a = pmem st1 a" if "MASK_4KIB a \<noteq> PHYS_TO_VIRT p" for a
    using that in_page_iff [of "PHYS_TO_VIRT p" a] pal by (simp add: m_def copy_region_def MASK_4KIB_virt)
  have "m (PHYS_TO_VIRT p + d) = pmem st0 (PHYS_TO_VIRT X + d)" if d: "d < 0x1000" for d
  proof -
    have "in_region (PHYS_TO_VIRT p + d) (PHYS_TO_VIRT p) 0x1000" using d by simp
    then have "m (PHYS_TO_VIRT p + d) = pmem st1 (PHYS_TO_VIRT X + d)" by (simp add: m_def copy_region_def)
    also have "\<dots> = pmem st0 (PHYS_TO_VIRT X + d)"
      using 1(4) cp d page_cell [OF conjunct1 [OF cp [simplified]], of d] by (auto simp: cloning_def)
    finally show ?thesis .
  qed
  then have "copied 0 (pmem st0) m X p {p}" by simp
  moreover have "cloning s B st0 A0 (st1 \<lparr> pmem := m \<rparr>) (A - {p})"
    by (rule cloning_put [OF start 1(4,3) _ other]) simp
  moreover have "m a = pmem st a" if "\<not> own_cells s B A a" for a
  proof -
    have "MASK_4KIB a \<noteq> PHYS_TO_VIRT p"
      using that 1(2) cl fa.own_avail [of s B st A p a] by (auto simp: cloning_def)
    then show ?thesis using other oth1 that by simp
  qed
  moreover have "clone_page X st = Inr (p, st1 \<lparr> pmem := m \<rparr>)" using 1(1) by (simp add: clone_page_def m_def)
  ultimately show "\<exists>Y st' A' F. clone_page X st = Inr (Y, st') \<and> cloning s B st0 A0 st' A' \<and>
      A' \<subseteq> A \<and> card A' + pages_of 0 (pmem st0) X = card A \<and>
      (\<forall>a. \<not> own_cells s B A a \<longrightarrow> pmem st' a = pmem st a) \<and> F \<subseteq> A - A' \<and>
      copied 0 (pmem st0) (pmem st') X Y F"
    using 1(2,5) by (intro exI [of _ p] exI [of _ "st1 \<lparr> pmem := m \<rparr>"] exI [of _ "A - {p}"] exI [of _ "{p}"]) auto
qed

text \<open>The functions of the code are these tables.\<close>

definition directory_child :: "u64 \<Rightarrow> phys \<Rightarrow> (u64 \<times> phys) res" where
  "directory_child e st =
     (if large e
      then and_then (phys_alloc_2MIB_safe st ''clone_page_directory: Failed to alloc 2MIB'') (\<lambda>(p, st).
        let dst = PHYS_TO_VIRT p
        in Inr (VIRT_TO_PHYS dst OR PDT_PAGE_SIZE,
             st \<lparr> pmem := copy_region (pmem st) dst (PHYS_TO_VIRT (ENTRY_TO_ADDR e)) PAGE_LARGE_SIZE \<rparr>))
      else clone_page_table (PHYS_TO_VIRT (entry_table e)) st)"

lemma or_swap: "(a OR b) OR c = a OR (c OR (b :: u64))"
  by (simp only: or.assoc or.commute [of b c])

lemma clone_page_table_eq:
  "clone_page_table (PHYS_TO_VIRT X) st =
     clone_table ''clone_page_table: No memory'' (\<lambda>e. clone_page (ENTRY_TO_ADDR e)) X st"
  by (simp add: clone_page_table_def clone_table_def clone_slots_def clone_page_def Let_def and_then_assoc
      case_prod_unfold cong: if_cong)

lemma clone_page_directory_eq:
  "clone_page_directory (PHYS_TO_VIRT X) st =
     clone_table ''clone_page_directory: No memory'' directory_child X st"
  by (simp add: clone_page_directory_def clone_table_def clone_slots_def directory_child_def Let_def and_then_assoc
      case_prod_unfold or_swap [of _ PDT_PAGE_SIZE] if_distrib [of "\<lambda>r. and_then r _"] cong: if_cong)

lemma clone_page_directory_pointer_eq:
  "clone_page_directory_pointer (PHYS_TO_VIRT X) st =
     clone_table ''clone_page_directory_pointer: No memory''
       (\<lambda>e. clone_page_directory (PHYS_TO_VIRT (entry_table e))) X st"
  by (simp add: clone_page_directory_pointer_def clone_table_def clone_slots_def Let_def case_prod_unfold cong: if_cong)

definition share_slots :: "addr \<Rightarrow> addr \<Rightarrow> phys \<Rightarrow> phys res" where
  "share_slots X p = for_each [256..<512] (\<lambda>i st. Inr (put st (PHYS_TO_VIRT p + 8 * of_nat i) (slot (pmem st) X i)))"

lemma put_twice [simp]: "put (put st a v) a w = put st a w" "pmem (put st a v) a = v"
  by (simp_all add: put_def)

lemma virt_clone_mapping_eq:
  "virt_clone_mapping st T = and_then (phys_alloc_4KIB_safe st ''virt_clone_mapping: No memory'') (\<lambda>(p, st).
     and_then (clone_slots (\<lambda>e. clone_page_directory_pointer (PHYS_TO_VIRT (entry_table e))) T p 256
       (st \<lparr> pmem := clear_cells (pmem st) (PHYS_TO_VIRT p) 0x1000 \<rparr>)) (\<lambda>st.
     and_then (share_slots T p st) (\<lambda>st. Inr (p, st))))"
  by (simp add: virt_clone_mapping_def clone_slots_def share_slots_def Let_def case_prod_unfold
      cong: if_cong del: upt_rec_numeral)

lemma clones_levels:
  assumes "clone_start s B st0 A0"
  shows "clones s B st0 A0 1 (\<lambda>X. clone_page_table (PHYS_TO_VIRT X))"
    and "clones s B st0 A0 2 (\<lambda>X. clone_page_directory (PHYS_TO_VIRT X))"
    and "clones s B st0 A0 3 (\<lambda>X. clone_page_directory_pointer (PHYS_TO_VIRT X))"
proof -
  show 1: "clones s B st0 A0 1 (\<lambda>X. clone_page_table (PHYS_TO_VIRT X))"
    unfolding clone_page_table_eq One_nat_def
    by (rule clones_table [OF assms clones_page [OF assms]]) simp
  show 2: "clones s B st0 A0 2 (\<lambda>X. clone_page_directory (PHYS_TO_VIRT X))"
    unfolding clone_page_directory_eq numeral_2_eq_2
    by (rule clones_table [OF assms 1 [unfolded One_nat_def]]) (simp add: directory_child_def fun_eq_iff)
  show "clones s B st0 A0 3 (\<lambda>X. clone_page_directory_pointer (PHYS_TO_VIRT X))"
    unfolding clone_page_directory_pointer_eq numeral_3_eq_3
    by (rule clones_table [OF assms 2 [unfolded numeral_2_eq_2]]) simp
qed

section \<open>Walking a copy\<close>

lemma unat_slot_index: "(i :: u64) < 512 \<Longrightarrow> unat i < 512"
  by (simp add: word_less_nat_alt)

text \<open>One entry of a copied table.\<close>

lemma slots_entry:
  assumes sl: "slots_copied (\<lambda>e. copied n m m' (target n e)) N m m' X Y Fs" and i: "unat i < N"
    and pr: "present (entries m (PHYS_TO_VIRT X) i)"
  obtains Z where "present (entries m' (PHYS_TO_VIRT Y) i)" and "\<not> large (entries m' (PHYS_TO_VIRT Y) i)"
    and "target n (entries m' (PHYS_TO_VIRT Y) i) = Z"
    and "entries m' (PHYS_TO_VIRT Y) i AND PAGE_COPY_FLAGS = entries m (PHYS_TO_VIRT X) i AND PAGE_COPY_FLAGS"
    and "copied n m m' (target n (entries m (PHYS_TO_VIRT X) i)) Z (Fs (unat i))"
proof -
  from slots_copiedD(3) [OF sl i] pr obtain Z where
    Z: "MASK_4KIB Z = Z" "Z < 2 ^ 39"
      "entries m' (PHYS_TO_VIRT Y) i = Z OR (entries m (PHYS_TO_VIRT X) i AND PAGE_COPY_FLAGS)"
      "copied n m m' (target n (entries m (PHYS_TO_VIRT X) i)) Z (Fs (unat i))"
    by auto
  from copied_entry [OF Z(1,2) pr] show thesis unfolding Z(3) [symmetric] by (rule that) (rule Z(4))
qed

lemma slots_absent:
  assumes "slots_copied R N m m' X Y Fs" and "unat i < N" and "\<not> present (entries m (PHYS_TO_VIRT X) i)"
  shows "entries m' (PHYS_TO_VIRT Y) i = 0"
  using slots_copiedD(4) [OF assms(1,2)] assms(3) by simp

lemma walk_slot:
  assumes sl: "slots_copied (\<lambda>e. copied n m m' (target n e)) N m m' X Y Fs" and i: "unat i < N"
    and w: "walk m' Y (i # is) = Some Z" and n: "n > 0"
  obtains Y' where "copied n m m' (target n (entries m (PHYS_TO_VIRT X) i)) Y' (Fs (unat i))"
    and "entry_table (entries m' (PHYS_TO_VIRT Y) i) = Y'" and "walk m' Y' is = Some Z"
proof -
  obtain k where k: "n = Suc k" using n by (cases n) simp_all
  have e': "is_table (entries m' (PHYS_TO_VIRT Y) i)" "walk m' (entry_table (entries m' (PHYS_TO_VIRT Y) i)) is = Some Z"
    using w by (auto simp: Let_def split: if_splits)
  then have "present (entries m (PHYS_TO_VIRT X) i)" using slots_absent [OF sl i] by fastforce
  from slots_entry [OF sl i this] show thesis using that e' unfolding k target.simps by metis
qed

lemma copied_walk:
  assumes "copied n m m' X Y F" and "length is < n" and "\<forall>i\<in>set is. i < 512" and "walk m' Y is = Some Z"
  shows "Z \<in> F"
  using assms
proof (induction n arbitrary: X Y F "is")
  case (Suc n)
  from Suc.prems(1) obtain Fs where F: "F = insert Y (\<Union>i<512. Fs i)"
    and sl: "slots_copied (\<lambda>e. copied n m m' (target n e)) 512 m m' X Y Fs" by auto
  show ?case
  proof (cases "is")
    case (Cons i js)
    then have i: "unat i < 512" and n: "n > 0" using Suc.prems(2,3) by (auto simp: unat_slot_index)
    obtain Y' where "copied n m m' (target n (entries m (PHYS_TO_VIRT X) i)) Y' (Fs (unat i))" "walk m' Y' js = Some Z"
      using walk_slot [OF sl i Suc.prems(4) [unfolded Cons] n] by blast
    then have "Z \<in> Fs (unat i)" using Suc.IH Suc.prems(2,3) Cons by auto
    then show ?thesis using i by (auto simp: F)
  qed (use Suc.prems(4) F in simp)
qed simp

lemma copied_walk_unique:
  assumes "copied n m m' X Y F" and "length is < n" "length js < n"
    and "\<forall>i\<in>set is. i < 512" "\<forall>i\<in>set js. i < 512" and "walk m' Y is = Some Z" "walk m' Y js = Some Z"
  shows "is = js"
  using assms
proof (induction n arbitrary: X Y F "is" js)
  case (Suc n)
  from Suc.prems(1) obtain Fs where F: "F = insert Y (\<Union>i<512. Fs i)"
    and sl: "slots_copied (\<lambda>e. copied n m m' (target n e)) 512 m m' X Y Fs" by auto
  have step: "\<exists>Y'. copied n m m' (target n (entries m (PHYS_TO_VIRT X) i)) Y' (Fs (unat i)) \<and>
      entry_table (entries m' (PHYS_TO_VIRT Y) i) = Y' \<and> walk m' Y' ks = Some Z \<and> Z \<in> Fs (unat i) \<and> Z \<noteq> Y"
    if k: "length (i # ks) < Suc n" "\<forall>k\<in>set (i # ks). k < 512" "walk m' Y (i # ks) = Some Z" for i ks
  proof -
    have i: "unat i < 512" and n: "n > 0" using k by (auto simp: unat_slot_index)
    obtain Y' where Y': "copied n m m' (target n (entries m (PHYS_TO_VIRT X) i)) Y' (Fs (unat i))"
      "entry_table (entries m' (PHYS_TO_VIRT Y) i) = Y'" "walk m' Y' ks = Some Z"
      using walk_slot [OF sl i k(3) n] by blast
    then have "Z \<in> Fs (unat i)" using copied_walk [OF Y'(1) _ _ Y'(3)] k by simp
    moreover have "Y \<notin> Fs (unat i)" using slots_copiedD(1) [OF sl i] .
    ultimately show ?thesis using Y' by blast
  qed
  show ?case
  proof (cases "is = [] \<or> js = []")
    case True
    then show ?thesis
      using Suc.prems(2-7) step [of "hd is" "tl is"] step [of "hd js" "tl js"] by (cases "is"; cases js) auto
  next
    case False
    then obtain i ks j ls where c: "is = i # ks" "js = j # ls" by (meson neq_Nil_conv)
    from step [of i ks] step [of j ls] Suc.prems(2-7) c obtain Y1 Y2 where
      1: "copied n m m' (target n (entries m (PHYS_TO_VIRT X) i)) Y1 (Fs (unat i))"
        "entry_table (entries m' (PHYS_TO_VIRT Y) i) = Y1" "walk m' Y1 ks = Some Z" "Z \<in> Fs (unat i)"
      and 2: "entry_table (entries m' (PHYS_TO_VIRT Y) j) = Y2" "walk m' Y2 ls = Some Z" "Z \<in> Fs (unat j)"
      by metis
    have "unat i < 512" "unat j < 512" using Suc.prems(4,5) c by (simp_all add: unat_slot_index)
    then have "unat i = unat j" using slots_copiedD(2) [OF sl, of "unat i" "unat j"] 1(4) 2(3) by blast
    then have "i = j" by (simp add: word_unat_eq_iff)
    then have "Y2 = Y1" using 1(2) 2(1) by simp
    then have "ks = ls" using Suc.IH [OF 1(1), of ks ls] Suc.prems(2-5) c 1(3) 2(2) by simp
    with \<open>i = j\<close> show ?thesis by (simp add: c)
  qed
qed simp

section \<open>Cloning an address space\<close>

text \<open>
  The user half of an address space: no cell of its tables or pages is free, and its pages are
  small.  \<open>user_pages\<close> is the number of pages in it, the tables included.
\<close>

definition user_copyable :: "addr \<Rightarrow> addr set \<Rightarrow> addr set \<Rightarrow> mem \<Rightarrow> addr \<Rightarrow> bool" where
  "user_copyable s B A m T \<longleftrightarrow>
     slots_copyable (copyable 3 (own_cells s B A) m) 3 256 (own_cells s B A) m T"

definition user_pages :: "mem \<Rightarrow> addr \<Rightarrow> nat" where
  "user_pages m T = slots_pages (pages_of 3 m) 3 256 m T"

text \<open>Writes to cells of the allocator only leave the tables alone.\<close>

lemma tables_survive:
  assumes tb: "tables_inv s B A m T" and oth: "\<And>a. \<not> own_cells s B A a \<Longrightarrow> m' a = m a"
  shows "is_path ys \<Longrightarrow> walk m' T ys = walk m T ys"
    and "is_path ys \<Longrightarrow> j < 512 \<Longrightarrow> entry_at m' T ys j = entry_at m T ys j"
    and "translate m' T v = translate m T v"
proof -
  have "m' a = m a" if "table_cell m T a" for a
    using that tables_ok [OF tb] oth by (auto simp: table_cell_def table_ok_def)
  note ag = tables_agree [of m T m', OF this]
  show "is_path ys \<Longrightarrow> walk m' T ys = walk m T ys"
    and "is_path ys \<Longrightarrow> j < 512 \<Longrightarrow> entry_at m' T ys j = entry_at m T ys j"
    and "translate m' T v = translate m T v" by (rule ag(1) ag(2) ag(3); assumption)+
qed

lemma share_slots_result:
  assumes "MASK_4KIB p = p" and "MASK_4KIB T = T" and "T \<noteq> p"
  shows "\<exists>st'. share_slots T p st = Inr st' \<and>
    (\<forall>i<512. slot (pmem st') p i = slot (pmem st) (if i < 256 then p else T) i) \<and>
    (\<forall>a. MASK_4KIB a \<noteq> PHYS_TO_VIRT p \<longrightarrow> pmem st' a = pmem st a) \<and> (\<exists>m. st' = st \<lparr> pmem := m \<rparr>)"
proof -
  have "\<exists>st'. for_each [256..<k] (\<lambda>i st. Inr (put st (PHYS_TO_VIRT p + 8 * of_nat i) (slot (pmem st) T i))) st = Inr st' \<and>
    (\<forall>i<512. slot (pmem st') p i = slot (pmem st) (if i < 256 \<or> k \<le> i then p else T) i) \<and>
    (\<forall>a. MASK_4KIB a \<noteq> PHYS_TO_VIRT p \<longrightarrow> pmem st' a = pmem st a) \<and> (\<exists>m. st' = st \<lparr> pmem := m \<rparr>)"
    if "256 \<le> k" "k \<le> 512" for k
    using that
  proof (induction k rule: nat_induct_at_least [where m = 256])
    case base
    show ?case by (intro exI [of _ st]) (auto intro: exI [of _ "pmem st"])
  next
    case (Suc k)
    then obtain st1 m1 where
      1: "for_each [256..<k] (\<lambda>i st. Inr (put st (PHYS_TO_VIRT p + 8 * of_nat i) (slot (pmem st) T i))) st = Inr st1"
        "\<forall>i<512. slot (pmem st1) p i = slot (pmem st) (if i < 256 \<or> k \<le> i then p else T) i"
        "\<forall>a. MASK_4KIB a \<noteq> PHYS_TO_VIRT p \<longrightarrow> pmem st1 a = pmem st a" "st1 = st \<lparr> pmem := m1 \<rparr>"
      by auto
    have T: "slot (pmem st1) T k = slot (pmem st) T k"
      using 1(3) slot_cell [OF assms(2), of k] assms(3) Suc.prems by simp
    define st2 where "st2 = put st1 (PHYS_TO_VIRT p + 8 * of_nat k) (slot (pmem st) T k)"
    have "slot (pmem st2) p i = slot (pmem st) (if i < 256 \<or> Suc k \<le> i then p else T) i" if "i < 512" for i
    proof (cases "i = k")
      case True
      then show ?thesis using Suc.hyps by (simp add: st2_def put_def)
    next
      case False
      then have "PHYS_TO_VIRT p + 8 * of_nat i \<noteq> PHYS_TO_VIRT p + 8 * of_nat k"
        using slot_inject [OF assms(1) that, of k] Suc.prems by simp
      then show ?thesis using 1(2) that False by (auto simp: st2_def put_def)
    qed
    moreover have "pmem st2 a = pmem st a" if "MASK_4KIB a \<noteq> PHYS_TO_VIRT p" for a
      using that 1(3) slot_cell [OF assms(1), of k] Suc.prems by (auto simp: st2_def put_def)
    moreover have "\<exists>m. st2 = st \<lparr> pmem := m \<rparr>" by (auto simp: st2_def put_def 1(4))
    ultimately show ?case using 1(1) Suc.hyps
      by (intro exI [of _ st2]) (simp add: for_each_append and_then_Inr T st2_def)
  qed
  from this [of 512] show ?thesis unfolding share_slots_def
    by (auto simp: not_le cong: if_cong simp del: upt_rec_numeral)
qed

text \<open>What the function leaves behind, in terms of trees.\<close>

definition cloned :: "addr \<Rightarrow> addr set \<Rightarrow> phys \<Rightarrow> addr set \<Rightarrow> addr \<Rightarrow> addr \<Rightarrow> phys \<Rightarrow> addr set \<Rightarrow> (nat \<Rightarrow> addr set) \<Rightarrow> bool" where
  "cloned s B st A T p st' A' Fs \<longleftrightarrow> cloning s B st A st' A' \<and> p \<in> A \<and> p \<notin> A' \<and> (\<forall>i<256. Fs i \<subseteq> A - A') \<and>
     slots_copied (\<lambda>e. copied 3 (pmem st) (pmem st') (target 3 e)) 256 (pmem st) (pmem st') T p Fs \<and>
     (\<forall>i. 256 \<le> i \<and> i < 512 \<longrightarrow> slot (pmem st') p i = slot (pmem st) T i)"

lemma root_table:
  assumes "pt_inv s B A st T" and "p \<in> A"
  shows "MASK_4KIB T = T" and "T \<noteq> p" and "i < 512 \<Longrightarrow> \<not> own_cells s B A (PHYS_TO_VIRT T + 8 * i)"
proof -
  have T: "table_ok s B A T" using tables_ok [of s B A "pmem st" T "[]" T] assms(1) by (simp add: pt_inv_def paths(1))
  then show "MASK_4KIB T = T" and c: "i < 512 \<Longrightarrow> \<not> own_cells s B A (PHYS_TO_VIRT T + 8 * i)" for i
    by (simp_all add: table_ok_def)
  show "T \<noteq> p" using c [of 0] avail_cells [of s B st A p 0] assms by (auto simp: pt_inv_def)
qed

lemma virt_clone_mapping_result:
  assumes inv: "pt_inv s B A st T" and src: "user_copyable s B A (pmem st) T"
    and enough: "user_pages (pmem st) T < card A"
  shows "\<exists>p st' A' Fs. virt_clone_mapping st T = Inr (p, st') \<and> cloned s B st A T p st' A' Fs \<and>
    card A' + Suc (user_pages (pmem st) T) = card A"
proof -
  have start: "clone_start s B st A" using inv by (simp add: pt_inv_def clone_start_def)
  then have "cloning s B st A st A" by (simp add: cloning_def clone_start_def)
  moreover have "A \<noteq> {}" using enough by auto
  ultimately obtain p st1 where
    1: "phys_alloc_4KIB_safe st ''virt_clone_mapping: No memory'' = Inr (p, st1)" "p \<in> A"
      "cloning s B st A st1 (A - {p})" "card A = Suc (card (A - {p}))"
    using phys_alloc_safe_page [OF start] by blast
  note T = root_table [OF inv 1(2)]
  have pal: "MASK_4KIB p = p" using clone_page_cells(1) [OF start 1(2)] .
  define st2 where "st2 = st1 \<lparr> pmem := clear_cells (pmem st1) (PHYS_TO_VIRT p) 0x1000 \<rparr>"
  have c2: "cloning s B st A st2 (A - {p})"
    unfolding st2_def
  proof (rule cloning_put [OF start 1(3,2)])
    show "clear_cells (pmem st1) (PHYS_TO_VIRT p) 0x1000 a = pmem st1 a" if "MASK_4KIB a \<noteq> PHYS_TO_VIRT p" for a
      using that in_page_iff [of "PHYS_TO_VIRT p" a] pal by (simp add: clear_cells_def MASK_4KIB_virt)
  qed simp
  have enough': "slots_pages (pages_of 3 (pmem st)) 3 256 (pmem st) T \<le> card (A - {p})"
    using enough 1(4) by (simp add: user_pages_def)
  have child: "clone_page_directory_pointer (PHYS_TO_VIRT (entry_table e)) =
      clone_page_directory_pointer (PHYS_TO_VIRT (target 3 e))" for e
    by (simp add: numeral_3_eq_3)
  have "p \<notin> A - {p}" "(256 :: nat) \<le> 512" by simp_all
  from clone_slots_copies [OF start clones_levels(3) [OF start] child src [unfolded user_copyable_def] c2 1(2)
      this(1) enough' this(2)]
  obtain st3 A3 Fs where
    3: "clone_slots (\<lambda>e. clone_page_directory_pointer (PHYS_TO_VIRT (entry_table e))) T p 256 st2 = Inr st3"
      "cloning s B st A st3 A3" "A3 \<subseteq> A - {p}" "card A3 + user_pages (pmem st) T = card (A - {p})"
      "\<forall>i<256. Fs i \<subseteq> A - {p} - A3"
      "slots_copied (\<lambda>e. copied 3 (pmem st) (pmem st3) (target 3 e)) 256 (pmem st) (pmem st3) T p Fs"
    by (elim exE conjE) (rule that; assumption?; simp only: user_pages_def)
  obtain st4 m where
    4: "share_slots T p st3 = Inr st4" "st4 = st3 \<lparr> pmem := m \<rparr>"
      "\<forall>i<512. slot (pmem st4) p i = slot (pmem st3) (if i < 256 then p else T) i"
      "\<forall>a. MASK_4KIB a \<noteq> PHYS_TO_VIRT p \<longrightarrow> pmem st4 a = pmem st3 a"
    using share_slots_result [OF pal T(1,2), of st3] by blast
  have c4: "cloning s B st A st4 A3"
    unfolding 4(2) by (rule cloning_put [OF start 3(2) 1(2)]) (use 3(3) 4(2,4) in auto)
  have "slots_copied (\<lambda>e. copied 3 (pmem st) (pmem st4) (target 3 e)) 256 (pmem st) (pmem st4) T p Fs"
  proof (rule slots_copied_agree [OF 3(6)])
    show "slot (pmem st4) p i = slot (pmem st3) p i" if "i < 256" for i using 4(3) that by simp
    fix i Z assume i: "i < 256" and Z: "copied 3 (pmem st) (pmem st3) (target 3 (slot (pmem st) T i)) Z (Fs i)"
    have F: "q \<in> A \<and> q \<noteq> p" if "q \<in> Fs i" for q using 3(5) i that by blast
    then have "pmem st4 a = pmem st3 a" if "q \<in> Fs i" "MASK_4KIB a = PHYS_TO_VIRT q" for q a
      using that 4(4) by auto
    then show "copied 3 (pmem st) (pmem st4) (target 3 (slot (pmem st) T i)) Z (Fs i)"
      using clone_page_cells(1) [OF start] F by (intro copied_agree [OF Z]) blast+
  qed
  moreover have "slot (pmem st4) p i = slot (pmem st) T i" if i: "256 \<le> i \<and> i < 512" for i
    using 4(3) i T(3) [of "of_nat i"] 3(2)
    by (auto simp: cloning_def word_less_nat_alt unat_of_nat_u64)
  ultimately have "cloned s B st A T p st4 A3 Fs"
    using c4 1(2) 3(3,5) by (auto simp: cloned_def)
  moreover have "virt_clone_mapping st T = Inr (p, st4)"
    using 1(1) 3(1) 4(1) by (simp add: virt_clone_mapping_eq st2_def)
  moreover have "card A3 + Suc (user_pages (pmem st) T) = card A" using 3(4) 1(4) by simp
  ultimately show ?thesis by blast
qed

text \<open>The entry a path leads to, in a tree and in its copy.\<close>

lemma entry_at_Cons:
  "entry_at m T (i # is) j =
     (let e = entries m (PHYS_TO_VIRT T) i in if is_table e then entry_at m (entry_table e) is j else 0)"
  by (simp add: entry_at_def Let_def)

lemma slots_copyableD:
  assumes "slots_copyable R n N free m X" and "unat i < N"
  shows "\<not> free (PHYS_TO_VIRT X + 8 * i)"
    and "present (entries m (PHYS_TO_VIRT X) i) \<Longrightarrow> n \<noteq> 0 \<Longrightarrow> \<not> large (entries m (PHYS_TO_VIRT X) i)"
    and "present (entries m (PHYS_TO_VIRT X) i) \<Longrightarrow> R (target n (entries m (PHYS_TO_VIRT X) i))"
proof -
  have "\<not> free (PHYS_TO_VIRT X + 8 * of_nat (unat i)) \<and> (present (slot m X (unat i)) \<longrightarrow>
      (n \<noteq> 0 \<longrightarrow> \<not> large (slot m X (unat i))) \<and> R (target n (slot m X (unat i))))"
    using assms unfolding slots_copyable_def by blast
  then show "\<not> free (PHYS_TO_VIRT X + 8 * i)"
    and "present (entries m (PHYS_TO_VIRT X) i) \<Longrightarrow> n \<noteq> 0 \<Longrightarrow> \<not> large (entries m (PHYS_TO_VIRT X) i)"
    and "present (entries m (PHYS_TO_VIRT X) i) \<Longrightarrow> R (target n (entries m (PHYS_TO_VIRT X) i))"
    by simp_all
qed

definition entry_copied :: "nat \<Rightarrow> mem \<Rightarrow> mem \<Rightarrow> addr set \<Rightarrow> u64 \<Rightarrow> u64 \<Rightarrow> bool" where
  "entry_copied k m m' F e e' \<longleftrightarrow>
     (if present e
      then (k \<noteq> 0 \<longrightarrow> \<not> large e) \<and> present e' \<and> \<not> large e' \<and> e' AND PAGE_COPY_FLAGS = e AND PAGE_COPY_FLAGS \<and>
        (\<exists>G\<subseteq>F. copied k m m' (target k e) (target k e') G)
      else e' = 0)"

lemma slots_entry_copied:
  assumes sl: "slots_copied (\<lambda>e. copied n m m' (target n e)) N m m' X Y Fs"
    and cp: "slots_copyable R n N free m X" and i: "unat i < N"
  shows "entry_copied n m m' (Fs (unat i)) (entries m (PHYS_TO_VIRT X) i) (entries m' (PHYS_TO_VIRT Y) i)"
proof (cases "present (entries m (PHYS_TO_VIRT X) i)")
  case True
  from slots_entry [OF sl i True] show ?thesis
    using slots_copyableD(2) [OF cp i True] True unfolding entry_copied_def by (metis order.refl)
next
  case False
  with slots_absent [OF sl i] show ?thesis by (simp add: entry_copied_def)
qed

lemma entry_copied_mono: "entry_copied k m m' F e e' \<Longrightarrow> F \<subseteq> F' \<Longrightarrow> entry_copied k m m' F' e e'"
  unfolding entry_copied_def by (cases "present e") (simp_all, blast)

lemma path_entry_copied:
  assumes "copied (Suc n) m m' X Y F" and "copyable (Suc n) free m X"
    and "length is \<le> n" and "\<forall>i\<in>set is. i < 512" and "j < 512"
  shows "entry_copied (n - length is) m m' F (entry_at m X is j) (entry_at m' Y is j)"
  using assms
proof (induction "is" arbitrary: n X Y F)
  case Nil
  from Nil(1) obtain Fs where F: "F = insert Y (\<Union>i<512. Fs i)"
    and sl: "slots_copied (\<lambda>e. copied n m m' (target n e)) 512 m m' X Y Fs" by auto
  have j: "unat j < 512" using Nil(5) by (rule unat_slot_index)
  from Nil(2) have cp: "slots_copyable (copyable n free m) n 512 free m X" by simp
  have "Fs (unat j) \<subseteq> F" using j by (auto simp: F)
  with slots_entry_copied [OF sl cp j] show ?case by (auto simp: entry_at_def intro: entry_copied_mono)
next
  case (Cons i "is")
  from Cons.prems(1) obtain Fs where F: "F = insert Y (\<Union>i<512. Fs i)"
    and sl: "slots_copied (\<lambda>e. copied n m m' (target n e)) 512 m m' X Y Fs" by auto
  have i: "unat i < 512" using Cons.prems(4) by (simp add: unat_slot_index)
  from Cons.prems(2) have cp: "slots_copyable (copyable n free m) n 512 free m X" by simp
  obtain k where k: "n = Suc k" using Cons.prems(3) by (cases n) simp_all
  define e e' where "e = entries m (PHYS_TO_VIRT X) i" and "e' = entries m' (PHYS_TO_VIRT Y) i"
  have ec: "entry_copied n m m' (Fs (unat i)) e e'" unfolding e_def e'_def by (rule slots_entry_copied [OF sl cp i])
  show ?case
  proof (cases "present e")
    case True
    then obtain G where t: "is_table e" "is_table e'" "G \<subseteq> Fs (unat i)"
      "copied (Suc k) m m' (entry_table e) (entry_table e') G"
      using ec unfolding entry_copied_def k by auto
    have "copyable (Suc k) free m (entry_table e)"
      using slots_copyableD(3) [OF cp i] True by (simp add: e_def k)
    from Cons.IH [OF t(4) this] have
      "entry_copied (k - length is) m m' G (entry_at m (entry_table e) is j) (entry_at m' (entry_table e') is j)"
      using Cons.prems(3-5) by (simp add: k)
    moreover have "G \<subseteq> F" using t(3) i by (auto simp: F)
    ultimately show ?thesis using t(1,2)
      by (auto simp: entry_at_Cons k Let_def simp flip: e_def e'_def intro: entry_copied_mono)
  next
    case False
    then show ?thesis using ec
      by (simp add: entry_at_Cons Let_def entry_copied_def flip: e_def e'_def)
  qed
qed

text \<open>What a virtual address of the user half means in the copy.\<close>

definition user_addr :: "u64 \<Rightarrow> bool" where
  "user_addr v \<longleftrightarrow> PML4_INDEX v < 256"

lemma cloned_user_entry:
  assumes cl: "cloned s B st A T p st' A' Fs" and src: "user_copyable s B A (pmem st) T"
    and "length is \<le> 2" and "i < 256" and "\<forall>i\<in>set is. i < 512" and "j < 512"
  shows "entry_copied (2 - length is) (pmem st) (pmem st') (Fs (unat i))
    (entry_at (pmem st) T (i # is) j) (entry_at (pmem st') p (i # is) j)"
proof -
  define e e' where "e = entries (pmem st) (PHYS_TO_VIRT T) i" and "e' = entries (pmem st') (PHYS_TO_VIRT p) i"
  have i: "unat i < 256" using assms(4) by (simp add: word_less_nat_alt)
  have sl: "slots_copied (\<lambda>e. copied 3 (pmem st) (pmem st') (target 3 e)) 256 (pmem st) (pmem st') T p Fs"
    using cl by (simp add: cloned_def)
  note cp = src [unfolded user_copyable_def]
  have ec: "entry_copied 3 (pmem st) (pmem st') (Fs (unat i)) e e'"
    unfolding e_def e'_def by (rule slots_entry_copied [OF sl cp i])
  show ?thesis
  proof (cases "present e")
    case True
    then obtain G where t: "is_table e" "is_table e'" "G \<subseteq> Fs (unat i)"
      "copied (Suc 2) (pmem st) (pmem st') (entry_table e) (entry_table e') G"
      using ec unfolding entry_copied_def by (auto simp: numeral_3_eq_3 numeral_2_eq_2)
    have "copyable (Suc 2) (own_cells s B A) (pmem st) (entry_table e)"
      using slots_copyableD(3) [OF cp i] True by (simp add: e_def numeral_3_eq_3 numeral_2_eq_2)
    from path_entry_copied [OF t(4) this assms(3,5,6)] t(1-3) show ?thesis
      by (auto simp: entry_at_Cons Let_def simp flip: e_def e'_def intro: entry_copied_mono)
  next
    case False
    then show ?thesis using ec
      by (simp add: entry_at_Cons Let_def entry_copied_def flip: e_def e'_def)
  qed
qed

lemma page_offset_less: "(v :: u64) AND 0xFFF < 0x1000"
proof -
  have "v AND 0xFFF = v AND mask 12" by (simp add: mask_eq_exp_minus_1)
  then show ?thesis using unat_low(2) [of v] by (simp add: word_less_nat_alt)
qed

lemma cloned_user_translate:
  assumes cl: "cloned s B st A T p st' A' Fs" and src: "user_copyable s B A (pmem st) T" and v: "user_addr v"
  shows "translate (pmem st) T v = None \<Longrightarrow> translate (pmem st') p v = None"
    and "translate (pmem st) T v = Some x \<Longrightarrow> \<exists>q. q \<in> A - A' \<and> translate (pmem st') p v = Some (q + (v AND 0xFFF)) \<and>
      pmem st' (PHYS_TO_VIRT (q + (v AND 0xFFF))) = pmem st (PHYS_TO_VIRT x) \<and>
      entry_at (pmem st') p (pt_path v) (PT_INDEX v) AND PAGE_COPY_FLAGS =
        entry_at (pmem st) T (pt_path v) (PT_INDEX v) AND PAGE_COPY_FLAGS"
proof -
  define pd pd' where "pd = entry_at (pmem st) T (pd_path v) (PDT_INDEX v)"
    and "pd' = entry_at (pmem st') p (pd_path v) (PDT_INDEX v)"
  define pt pt' where "pt = entry_at (pmem st) T (pt_path v) (PT_INDEX v)"
    and "pt' = entry_at (pmem st') p (pt_path v) (PT_INDEX v)"
  have i: "PML4_INDEX v < 256" using v by (simp add: user_addr_def)
  have c1: "entry_copied 1 (pmem st) (pmem st') (Fs (unat (PML4_INDEX v))) pd pd'"
    and c0: "entry_copied 0 (pmem st) (pmem st') (Fs (unat (PML4_INDEX v))) pt pt'"
    using cloned_user_entry [OF cl src _ i, of "[PDPT_INDEX v]" "PDT_INDEX v"]
      cloned_user_entry [OF cl src _ i, of "[PDPT_INDEX v, PDT_INDEX v]" "PT_INDEX v"]
    by (simp_all add: pd_def pd'_def pt_def pt'_def index_less)
  have tr: "translate (pmem st) T v = (if present pd \<and> present pt then Some (ENTRY_TO_ADDR pt + (v AND 0xFFF)) else None)"
    "translate (pmem st') p v = (if present pd' \<and> present pt' then Some (ENTRY_TO_ADDR pt' + (v AND 0xFFF)) else None)"
    using c1 by (auto simp: translate_def Let_def entry_copied_def simp flip: pd_def pd'_def pt_def pt'_def split: if_splits)
  have pr: "present pd' = present pd" "present pt' = present pt"
    using c1 c0 by (auto simp: entry_copied_def split: if_splits)
  show "translate (pmem st') p v = None" if "translate (pmem st) T v = None"
    using that by (simp add: tr pr split: if_splits)
  assume x: "translate (pmem st) T v = Some x"
  then have pt: "present pd" "present pt" "x = ENTRY_TO_ADDR pt + (v AND 0xFFF)"
    by (simp_all add: tr split: if_splits)
  from c0 pt(2) have fl: "pt' AND PAGE_COPY_FLAGS = pt AND PAGE_COPY_FLAGS"
    and cp: "ENTRY_TO_ADDR pt' \<in> Fs (unat (PML4_INDEX v))"
      "\<forall>d<0x1000. pmem st' (PHYS_TO_VIRT (ENTRY_TO_ADDR pt') + d) = pmem st (PHYS_TO_VIRT (ENTRY_TO_ADDR pt) + d)"
    by (auto simp: entry_copied_def)
  have "Fs (unat (PML4_INDEX v)) \<subseteq> A - A'"
    using cl i by (simp add: cloned_def word_less_nat_alt)
  moreover have "PHYS_TO_VIRT (y + d) = PHYS_TO_VIRT y + d" for y d by (simp add: PHYS_TO_VIRT_def)
  ultimately show "\<exists>q. q \<in> A - A' \<and> translate (pmem st') p v = Some (q + (v AND 0xFFF)) \<and>
      pmem st' (PHYS_TO_VIRT (q + (v AND 0xFFF))) = pmem st (PHYS_TO_VIRT x) \<and>
      entry_at (pmem st') p (pt_path v) (PT_INDEX v) AND PAGE_COPY_FLAGS =
        entry_at (pmem st) T (pt_path v) (PT_INDEX v) AND PAGE_COPY_FLAGS"
    using cp fl pt page_offset_less [of v] unfolding pt_def [symmetric] pt'_def [symmetric]
    by (intro exI [of _ "ENTRY_TO_ADDR pt'"]) (auto simp: tr pr)
qed

text \<open>The pages of a copy: each is reached by one path only.\<close>

lemma leaf_slot:
  assumes sl: "slots_copied (\<lambda>e. copied (Suc n) m m' (target (Suc n) e)) N m m' X Y Fs" and i: "unat i < N"
    and pr: "present (entry_at m' Y (i # is) j)"
  obtains Y' where "copied (Suc n) m m' (entry_table (entries m (PHYS_TO_VIRT X) i)) Y' (Fs (unat i))"
    and "entry_at m' Y (i # is) j = entry_at m' Y' is j" and "entry_table (entries m' (PHYS_TO_VIRT Y) i) = Y'"
proof -
  have t: "is_table (entries m' (PHYS_TO_VIRT Y) i)"
    using pr by (auto simp: entry_at_Cons Let_def split: if_splits)
  then have "present (entries m (PHYS_TO_VIRT X) i)" using slots_absent [OF sl i] by fastforce
  from slots_entry [OF sl i this] t show thesis using that
    by (auto simp: entry_at_Cons Let_def)
qed

lemma leaf_page:
  assumes "copied (Suc n) m m' X Y F" and "length is = n" and "\<forall>i\<in>set is. i < 512" and "j < 512"
    and "present (entry_at m' Y is j)"
  shows "ENTRY_TO_ADDR (entry_at m' Y is j) \<in> F"
  using assms
proof (induction n arbitrary: X Y F "is")
  case 0
  from 0(1) obtain Fs where F: "F = insert Y (\<Union>i<512. Fs i)"
    and sl: "slots_copied (\<lambda>e. copied 0 m m' (target 0 e)) 512 m m' X Y Fs" by auto
  have j: "unat j < 512" using 0(4) by (rule unat_slot_index)
  have e: "entry_at m' Y is j = entries m' (PHYS_TO_VIRT Y) j" using 0(2) by (simp add: entry_at_def)
  then have "present (entries m (PHYS_TO_VIRT X) j)" using slots_absent [OF sl j] 0(5) by fastforce
  from slots_entry [OF sl j this] have "Fs (unat j) = {ENTRY_TO_ADDR (entry_at m' Y is j)}"
    by (metis copied.simps(1) e target.simps(1))
  then show ?case using j by (auto simp: F)
next
  case (Suc n)
  from Suc.prems(1) obtain Fs where F: "F = insert Y (\<Union>i<512. Fs i)"
    and sl: "slots_copied (\<lambda>e. copied (Suc n) m m' (target (Suc n) e)) 512 m m' X Y Fs"
    unfolding copied.simps(2) [of "Suc n"] by blast
  obtain i ks where c: "is = i # ks" using Suc.prems(2) by (cases "is") simp_all
  then have i: "unat i < 512" using Suc.prems(3) by (simp add: unat_slot_index)
  from leaf_slot [OF sl i Suc.prems(5) [unfolded c]] obtain Y' where
    Y': "copied (Suc n) m m' (entry_table (entries m (PHYS_TO_VIRT X) i)) Y' (Fs (unat i))"
      "entry_at m' Y (i # ks) j = entry_at m' Y' ks j" by blast
  have "ENTRY_TO_ADDR (entry_at m' Y' ks j) \<in> Fs (unat i)"
    by (rule Suc.IH [OF Y'(1)]) (use Suc.prems(2-5) c Y'(2) in auto)
  then show ?case using i c Y'(2) by (auto simp: F)
qed

lemma leaf_unique:
  assumes "copied (Suc n) m m' X Y F" and "length is = n" "length js = n"
    and "\<forall>i\<in>set is. i < 512" "\<forall>i\<in>set js. i < 512" and "i < 512" "j < 512"
    and "present (entry_at m' Y is i)" "present (entry_at m' Y js j)"
    and "ENTRY_TO_ADDR (entry_at m' Y is i) = ENTRY_TO_ADDR (entry_at m' Y js j)"
  shows "is = js \<and> i = j"
  using assms
proof (induction n arbitrary: X Y F "is" js)
  case 0
  from 0(1) obtain Fs where F: "F = insert Y (\<Union>i<512. Fs i)"
    and sl: "slots_copied (\<lambda>e. copied 0 m m' (target 0 e)) 512 m m' X Y Fs" by auto
  have "Fs (unat k) = {ENTRY_TO_ADDR (entry_at m' Y [] k)}" if "k < 512" "present (entry_at m' Y [] k)" for k
  proof -
    have k: "unat k < 512" using that(1) by (rule unat_slot_index)
    have e: "entry_at m' Y [] k = entries m' (PHYS_TO_VIRT Y) k" by (simp add: entry_at_def)
    then have "present (entries m (PHYS_TO_VIRT X) k)" using slots_absent [OF sl k] that(2) by fastforce
    from slots_entry [OF sl k this] show ?thesis by (metis copied.simps(1) e target.simps(1))
  qed
  from this [of i] this [of j] 0 have "Fs (unat i) = Fs (unat j)" "Fs (unat i) \<noteq> {}" by auto
  then have "unat i = unat j"
    using slots_copiedD(2) [OF sl unat_slot_index [OF 0(6)] unat_slot_index [OF 0(7)]] by blast
  then show ?case using 0 by (simp add: word_unat_eq_iff)
next
  case (Suc n)
  from Suc.prems(1) obtain Fs where F: "F = insert Y (\<Union>i<512. Fs i)"
    and sl: "slots_copied (\<lambda>e. copied (Suc n) m m' (target (Suc n) e)) 512 m m' X Y Fs"
    unfolding copied.simps(2) [of "Suc n"] by blast
  obtain i0 ks j0 ls where c: "is = i0 # ks" "js = j0 # ls"
    using Suc.prems(2,3) by (cases "is"; cases js) simp_all
  have ij: "unat i0 < 512" "unat j0 < 512" using Suc.prems(4,5) c by (simp_all add: unat_slot_index)
  from leaf_slot [OF sl ij(1) Suc.prems(8) [unfolded c]] obtain Y1 where
    1: "copied (Suc n) m m' (entry_table (entries m (PHYS_TO_VIRT X) i0)) Y1 (Fs (unat i0))"
      "entry_at m' Y (i0 # ks) i = entry_at m' Y1 ks i" "entry_table (entries m' (PHYS_TO_VIRT Y) i0) = Y1" by blast
  from leaf_slot [OF sl ij(2) Suc.prems(9) [unfolded c]] obtain Y2 where
    2: "copied (Suc n) m m' (entry_table (entries m (PHYS_TO_VIRT X) j0)) Y2 (Fs (unat j0))"
      "entry_at m' Y (j0 # ls) j = entry_at m' Y2 ls j" "entry_table (entries m' (PHYS_TO_VIRT Y) j0) = Y2" by blast
  have "ENTRY_TO_ADDR (entry_at m' Y1 ks i) \<in> Fs (unat i0)"
    by (rule leaf_page [OF 1(1)]) (use Suc.prems c 1(2) in auto)
  moreover have "ENTRY_TO_ADDR (entry_at m' Y2 ls j) \<in> Fs (unat j0)"
    by (rule leaf_page [OF 2(1)]) (use Suc.prems c 2(2) in auto)
  ultimately have "unat i0 = unat j0"
    using slots_copiedD(2) [OF sl ij] Suc.prems(10) by (auto simp: c 1(2) 2(2))
  then have "i0 = j0" by (simp add: word_unat_eq_iff)
  then have "Y2 = Y1" using 1(3) 2(3) by simp
  then have "ks = ls \<and> i = j"
    by (intro Suc.IH [OF 1(1)]) (use Suc.prems c 1(2) 2(2) in auto)
  with \<open>i0 = j0\<close> show ?case by (simp add: c)
qed

text \<open>The kernel half of the copy is the one of the original.\<close>

lemma cloned_kernel_entry:
  assumes inv: "pt_inv s B A st T" and cl: "cloned s B st A T p st' A' Fs" and i: "256 \<le> i" "i < 512"
  shows "entries (pmem st') (PHYS_TO_VIRT p) i = entries (pmem st') (PHYS_TO_VIRT T) i"
proof -
  have "slot (pmem st') p (unat i) = slot (pmem st) T (unat i)"
    using cl i by (auto simp: cloned_def word_le_nat_alt word_less_nat_alt)
  moreover have "\<not> own_cells s B A (PHYS_TO_VIRT T + 8 * i)"
    using root_table(3) [OF inv, of p i] cl i(2) by (auto simp: cloned_def)
  ultimately show ?thesis using cl by (simp add: cloned_def cloning_def)
qed

lemma cloned_kernel_walk:
  assumes "pt_inv s B A st T" and "cloned s B st A T p st' A' Fs" and "256 \<le> i" "i < 512"
  shows "walk (pmem st') p (i # is) = walk (pmem st') T (i # is)"
    and "entry_at (pmem st') p (i # is) j = entry_at (pmem st') T (i # is) j"
  using cloned_kernel_entry [OF assms] by (simp_all add: entry_at_Cons)

lemma cloned_survives:
  assumes "pt_inv s B A st T" and "cloned s B st A T p st' A' Fs"
  shows "is_path ys \<Longrightarrow> walk (pmem st') T ys = walk (pmem st) T ys"
    and "is_path ys \<Longrightarrow> j < 512 \<Longrightarrow> entry_at (pmem st') T ys j = entry_at (pmem st) T ys j"
    and "translate (pmem st') T v = translate (pmem st) T v"
  using tables_survive [of s B A "pmem st" T "pmem st'"] assms by (auto simp: pt_inv_def cloned_def cloning_def)

text \<open>Where a path of the new address space leads.\<close>

lemma cloned_walk_cases:
  assumes inv: "pt_inv s B A st T" and cl: "cloned s B st A T p st' A' Fs"
    and path: "is_path is" and w: "walk (pmem st') p is = Some Z"
  obtains "is = []" "Z = p"
  | i js Y where "is = i # js" "i < 256" "Z \<in> Fs (unat i)" "walk (pmem st') Y js = Some Z"
      "entry_table (entries (pmem st') (PHYS_TO_VIRT p) i) = Y"
      "copied 3 (pmem st) (pmem st') (target 3 (entries (pmem st) (PHYS_TO_VIRT T) i)) Y (Fs (unat i))"
  | i js where "is = i # js" "256 \<le> i" "walk (pmem st) T is = Some Z" "Z \<notin> A"
proof (cases "is")
  case Nil
  then show thesis using w that(1) by simp
next
  case (Cons i js)
  have i: "i < 512" and js: "length js \<le> 2" "\<forall>i\<in>set js. i < 512" using path Cons by (simp_all add: is_path_def)
  have fr: "frames_inv s B st A" and tb: "tables_inv s B A (pmem st) T" using inv by (simp_all add: pt_inv_def)
  show thesis
  proof (cases "i < 256")
    case True
    then have u: "unat i < 256" by (simp add: word_less_nat_alt)
    have sl: "slots_copied (\<lambda>e. copied 3 (pmem st) (pmem st') (target 3 e)) 256 (pmem st) (pmem st') T p Fs"
      using cl by (simp add: cloned_def)
    obtain Y where "copied 3 (pmem st) (pmem st') (target 3 (entries (pmem st) (PHYS_TO_VIRT T) i)) Y (Fs (unat i))"
      "entry_table (entries (pmem st') (PHYS_TO_VIRT p) i) = Y" "walk (pmem st') Y js = Some Z"
      using walk_slot [OF sl u w [unfolded Cons]] by auto
    with copied_walk [OF this(1) _ js(2) this(3)] js(1) show thesis using that(2) Cons True by simp
  next
    case False
    then have k: "walk (pmem st) T is = Some Z"
      using w cloned_kernel_walk(1) [OF inv cl _ i, of js] cloned_survives(1) [OF inv cl path] Cons by (simp add: not_less)
    have "Z \<notin> A"
      using tables_ok [OF tb path k] avail_cells [OF fr, of Z 0] unfolding table_ok_def
      by (auto dest: spec [where x = 0])
    with k show thesis using that(3) Cons False by (simp add: not_less)
  qed
qed

lemma cloned_pt_inv:
  assumes inv: "pt_inv s B A st T" and cl: "cloned s B st A T p st' A' Fs" and src: "user_copyable s B A (pmem st) T"
  shows "pt_inv s B A' st' p" and "pt_inv s B A' st' T"
proof -
  have start: "clone_start s B st A" and tb: "tables_inv s B A (pmem st) T"
    using inv by (simp_all add: pt_inv_def clone_start_def)
  have sub: "A' \<subseteq> A" and p: "p \<in> A" "p \<notin> A'" and Fs: "i < 256 \<Longrightarrow> Fs (unat i) \<subseteq> A - A'"
    and sl: "slots_copied (\<lambda>e. copied 3 (pmem st) (pmem st') (target 3 e)) 256 (pmem st) (pmem st') T p Fs" for i :: u64
    using cl by (auto simp: cloned_def cloning_def word_less_nat_alt)
  have fresh: "table_ok s B A' Z" if "Z \<in> A" "Z \<notin> A'" for Z
    unfolding table_ok_def
    using clone_page_cells(1) [OF start that(1)] clone_page_out [OF start that(1) sub that(2)] entry_cell(1) by blast
  note old = tables_ok [OF tb, THEN table_ok_mono [OF _ sub]]
  have pn: "p \<notin> Fs (unat i)" if "i < 256" for i :: u64
    using slots_copiedD(1) [OF sl] that by (simp add: word_less_nat_alt)
  have "table_ok s B A' Z" if "is_path is" "walk (pmem st') p is = Some Z" for "is" Z
  proof (rule cloned_walk_cases [OF inv cl that])
    show "table_ok s B A' Z" if "Z = p" using fresh p that by simp
    show "table_ok s B A' Z" if "i < 256" "Z \<in> Fs (unat i)" for i :: u64 using fresh Fs [OF that(1)] that(2) by blast
    show "table_ok s B A' Z" if "walk (pmem st) T is = Some Z" using old [OF \<open>is_path is\<close> that] .
  qed
  moreover have "is = js" if "is_path is" "is_path js" "walk (pmem st') p is = Some Z" "walk (pmem st') p js = Some Z"
    for "is" js Z
  proof -
    show ?thesis
    proof (cases rule: cloned_walk_cases [OF inv cl that(1,3)])
      case 1
      note a = this
      show ?thesis
        by (cases rule: cloned_walk_cases [OF inv cl that(2,4)]) (use a p pn in auto)
    next
      case (2 i ks Y)
      note a = this
      show ?thesis
      proof (cases rule: cloned_walk_cases [OF inv cl that(2,4)])
        case 1
        then show ?thesis using a pn by auto
      next
        case (2 j ls Y2)
        have "unat i < 256" "unat j < 256" using a(2) 2(2) by (simp_all add: word_less_nat_alt)
        then have "unat i = unat j" using slots_copiedD(2) [OF sl, of "unat i" "unat j"] a(3) 2(3) by blast
        then have "i = j" by (simp add: word_unat_eq_iff)
        then have "Y2 = Y" using a(5) 2(5) by simp
        have "ks = ls"
          by (rule copied_walk_unique [OF a(6) _ _ _ _ a(4)]) (use that(1,2) a(1) 2(1,4) \<open>Y2 = Y\<close> in \<open>auto simp: is_path_def\<close>)
        then show ?thesis using a(1) 2(1) \<open>i = j\<close> by simp
      next
        case 3
        then show ?thesis using a(2,3) Fs by blast
      qed
    next
      case (3 i ks)
      note a = this
      show ?thesis
      proof (cases rule: cloned_walk_cases [OF inv cl that(2,4)])
        case 1
        then show ?thesis using a p by simp
      next
        case (2 j ls Y2)
        then show ?thesis using a(4) Fs by blast
      next
        case 3
        then show ?thesis using tables_unique [OF tb that(1,2)] a(3) by blast
      qed
    qed
  qed
  moreover have "\<not> (present (entry_at (pmem st') p is i) \<and> large (entry_at (pmem st') p is i))"
    if "is_path is" "length is \<le> 1" "i < 512" for "is" i
  proof -
    obtain k ks where k: "is @ [i] = k # ks" by (cases "is") simp_all
    show ?thesis
    proof (cases "k < 256")
      case True
      have "entry_copied (3 - length is) (pmem st) (pmem st') (Fs (unat k))
          (entry_at (pmem st) T is i) (entry_at (pmem st') p is i)"
      proof (cases "is")
        case Nil
        then show ?thesis using slots_entry_copied [OF sl src [unfolded user_copyable_def], of i] True k
          by (simp add: entry_at_def word_less_nat_alt)
      next
        case (Cons a as)
        with k that have "as = []" "a = k" by simp_all
        then show ?thesis using cloned_user_entry [OF cl src _ True, of "[]" i] that(3) Cons by simp
      qed
      then show ?thesis by (auto simp: entry_copied_def split: if_splits)
    next
      case False
      then have "entry_at (pmem st') p is i = entry_at (pmem st') T is i"
      proof (cases "is")
        case Nil
        then show ?thesis using cloned_kernel_entry [OF inv cl, of i] that(3) False k by (simp add: entry_at_def not_less)
      next
        case (Cons a as)
        then show ?thesis using cloned_kernel_walk(2) [OF inv cl, of a as i] that(1) False k
          by (simp add: not_less is_path_def)
      qed
      then show ?thesis using cloned_survives(2) [OF inv cl that(1,3)] tables_upper [OF tb that] by simp
    qed
  qed
  ultimately have "tables_inv s B A' (pmem st') p" unfolding tables_inv_def by blast
  moreover have fr': "frames_inv s B st' A'" "\<forall>q\<in>A'. q < 2 ^ 39"
    using cl inv by (auto simp: cloned_def cloning_def pt_inv_def)
  ultimately show "pt_inv s B A' st' p" by (simp add: pt_inv_def)
  have "tables_inv s B A' (pmem st') T"
    unfolding tables_inv_def
  proof (intro conjI allI impI, goal_cases)
    case (1 "is" X)
    then show ?case using cloned_survives(1) [OF inv cl] old by metis
  next
    case (2 "is" js X)
    then show ?case using cloned_survives(1) [OF inv cl] tables_unique [OF tb] by metis
  next
    case (3 "is" k)
    then show ?case using cloned_survives(2) [OF inv cl] tables_upper [OF tb] by metis
  qed
  with fr' show "pt_inv s B A' st' T" by (simp add: pt_inv_def)
qed

lemma cloned_frames_distinct:
  assumes cl: "cloned s B st A T p st' A' Fs" and src: "user_copyable s B A (pmem st) T"
    and v: "user_addr v" "user_addr w"
    and x: "translate (pmem st') p v = Some x" "translate (pmem st') p w = Some y" "MASK_4KIB x = MASK_4KIB y"
  shows "same_page v w"
proof -
  have sl: "slots_copied (\<lambda>e. copied (Suc 2) (pmem st) (pmem st') (target (Suc 2) e)) 256 (pmem st) (pmem st') T p Fs"
    using cl by (simp add: cloned_def numeral_3_eq_3 numeral_2_eq_2)
  have pt: "present (entry_at (pmem st') p (pt_path u) (PT_INDEX u)) \<and>
      MASK_4KIB z = ENTRY_TO_ADDR (entry_at (pmem st') p (pt_path u) (PT_INDEX u))"
    if "user_addr u" "translate (pmem st') p u = Some z" for u z
  proof -
    have "\<not> large (entry_at (pmem st') p (pd_path u) (PDT_INDEX u))"
      using cloned_user_entry [OF cl src, of "[PDPT_INDEX u]" "PML4_INDEX u" "PDT_INDEX u"] that(1)
      by (auto simp: entry_copied_def user_addr_def index_less split: if_splits)
    with that(2) have "present (entry_at (pmem st') p (pt_path u) (PT_INDEX u))"
      "z = ENTRY_TO_ADDR (entry_at (pmem st') p (pt_path u) (PT_INDEX u)) + (u AND 0xFFF)"
      by (auto simp: translate_def Let_def split: if_splits)
    moreover have "MASK_4KIB (ENTRY_TO_ADDR e + (u AND 0xFFF)) = ENTRY_TO_ADDR e" for e
      by (rule MASK_4KIB_off) (use page_offset_less [of u] in \<open>simp_all add: MASK_4KIB_def ENTRY_TO_ADDR_def and.assoc word_less_nat_alt\<close>)
    ultimately show ?thesis by simp
  qed
  note pv = pt [OF v(1) x(1)] and pw = pt [OF v(2) x(2)]
  have i: "unat (PML4_INDEX v) < 256" "unat (PML4_INDEX w) < 256"
    using v by (simp_all add: user_addr_def word_less_nat_alt)
  from leaf_slot [OF sl i(1) conjunct1 [OF pv]] obtain Y1 where
    1: "copied (Suc 2) (pmem st) (pmem st') (entry_table (entries (pmem st) (PHYS_TO_VIRT T) (PML4_INDEX v))) Y1
        (Fs (unat (PML4_INDEX v)))"
      "entry_at (pmem st') p (pt_path v) (PT_INDEX v) = entry_at (pmem st') Y1 [PDPT_INDEX v, PDT_INDEX v] (PT_INDEX v)"
      "entry_table (entries (pmem st') (PHYS_TO_VIRT p) (PML4_INDEX v)) = Y1" by blast
  from leaf_slot [OF sl i(2) conjunct1 [OF pw]] obtain Y2 where
    2: "copied (Suc 2) (pmem st) (pmem st') (entry_table (entries (pmem st) (PHYS_TO_VIRT T) (PML4_INDEX w))) Y2
        (Fs (unat (PML4_INDEX w)))"
      "entry_at (pmem st') p (pt_path w) (PT_INDEX w) = entry_at (pmem st') Y2 [PDPT_INDEX w, PDT_INDEX w] (PT_INDEX w)"
      "entry_table (entries (pmem st') (PHYS_TO_VIRT p) (PML4_INDEX w)) = Y2" by blast
  have "ENTRY_TO_ADDR (entry_at (pmem st') Y1 [PDPT_INDEX v, PDT_INDEX v] (PT_INDEX v)) \<in> Fs (unat (PML4_INDEX v))"
    by (rule leaf_page [OF 1(1)]) (use pv 1(2) in \<open>auto simp: index_less\<close>)
  moreover have "ENTRY_TO_ADDR (entry_at (pmem st') Y2 [PDPT_INDEX w, PDT_INDEX w] (PT_INDEX w)) \<in> Fs (unat (PML4_INDEX w))"
    by (rule leaf_page [OF 2(1)]) (use pw 2(2) in \<open>auto simp: index_less\<close>)
  ultimately have "unat (PML4_INDEX v) = unat (PML4_INDEX w)"
    using slots_copiedD(2) [OF sl i] pv pw x(3) by (auto simp: 1(2) 2(2))
  then have eq: "PML4_INDEX v = PML4_INDEX w" by (simp add: word_unat_eq_iff)
  then have "Y2 = Y1" using 1(3) 2(3) by simp
  have "[PDPT_INDEX v, PDT_INDEX v] = [PDPT_INDEX w, PDT_INDEX w] \<and> PT_INDEX v = PT_INDEX w"
    by (rule leaf_unique [OF 1(1)]) (use pv pw x(3) 1(2) 2(2) \<open>Y2 = Y1\<close> in \<open>auto simp: index_less\<close>)
  with eq show ?thesis by (simp add: same_page_def same_large_page_def)
qed

section \<open>Properties\<close>

text \<open>C3. Cloning an address space, as \<open>fork\<close> does: with enough pages available it returns, takes
  exactly as many pages as the user half consists of and one for the new table, and both tables are
  well-formed.  Every user address of the clone is mapped exactly when it was in the original, to a
  frame that was free before, that no other page of the clone uses, with the same content and rights;
  kernel addresses mean the same in both, and the original is as before.\<close>

theorem virt_clone_mapping_copies_address_space:
  assumes inv: "pt_inv s B A st T" and src: "user_copyable s B A (pmem st) T"
    and enough: "user_pages (pmem st) T < card A"
  shows "\<exists>p st' A'. virt_clone_mapping st T = Inr (p, st') \<and> A' \<subseteq> A \<and>
    card A' + Suc (user_pages (pmem st) T) = card A \<and> pt_inv s B A' st' p \<and> pt_inv s B A' st' T \<and>
    (\<forall>v. if user_addr v
      then case translate (pmem st) T v of
          None \<Rightarrow> translate (pmem st') p v = None
        | Some x \<Rightarrow> \<exists>q. q \<in> A - A' \<and> translate (pmem st') p v = Some (q + (v AND 0xFFF)) \<and>
            pmem st' (PHYS_TO_VIRT (q + (v AND 0xFFF))) = pmem st (PHYS_TO_VIRT x) \<and>
            entry_at (pmem st') p (pt_path v) (PT_INDEX v) AND PAGE_COPY_FLAGS =
              entry_at (pmem st) T (pt_path v) (PT_INDEX v) AND PAGE_COPY_FLAGS
      else translate (pmem st') p v = translate (pmem st) T v) \<and>
    (\<forall>v w x y. user_addr v \<and> user_addr w \<and> translate (pmem st') p v = Some x \<and> translate (pmem st') p w = Some y \<and>
      MASK_4KIB x = MASK_4KIB y \<longrightarrow> same_page v w) \<and>
    (\<forall>v. translate (pmem st') T v = translate (pmem st) T v) \<and>
    (\<forall>a. \<not> own_cells s B A a \<longrightarrow> pmem st' a = pmem st a)"
proof -
  from virt_clone_mapping_result [OF assms] obtain p st' A' Fs where
    r: "virt_clone_mapping st T = Inr (p, st')" "card A' + Suc (user_pages (pmem st) T) = card A" and
    cl: "cloned s B st A T p st' A' Fs" by blast
  have kernel: "translate (pmem st') p v = translate (pmem st) T v" if "\<not> user_addr v" for v
    using that cloned_kernel_walk(2) [OF inv cl _ index_less(1)] cloned_survives(3) [OF inv cl, of v]
    by (simp add: user_addr_def not_less translate_def)
  have user: "case translate (pmem st) T v of
          None \<Rightarrow> translate (pmem st') p v = None
        | Some x \<Rightarrow> \<exists>q. q \<in> A - A' \<and> translate (pmem st') p v = Some (q + (v AND 0xFFF)) \<and>
            pmem st' (PHYS_TO_VIRT (q + (v AND 0xFFF))) = pmem st (PHYS_TO_VIRT x) \<and>
            entry_at (pmem st') p (pt_path v) (PT_INDEX v) AND PAGE_COPY_FLAGS =
              entry_at (pmem st) T (pt_path v) (PT_INDEX v) AND PAGE_COPY_FLAGS" if "user_addr v" for v
    using cloned_user_translate [OF cl src that]
    by (cases "translate (pmem st) T v") (simp_all only: option.case)
  have "\<forall>a. \<not> own_cells s B A a \<longrightarrow> pmem st' a = pmem st a" "A' \<subseteq> A"
    using cl by (simp_all add: cloned_def cloning_def)
  moreover note cloned_pt_inv [OF inv cl src] cloned_survives(3) [OF inv cl] cloned_frames_distinct [OF cl src]
  ultimately show ?thesis using r user kernel
    by (intro exI [of _ p] exI [of _ st'] exI [of _ A'] conjI allI) (simp_all only: if_True if_False split: if_split, blast+)
qed

text \<open>
  A process with one page at \<open>0x8048000\<close>: its four tables lie at \<open>0x101000\<close> to \<open>0x104000\<close>, the page
  at \<open>0x105000\<close>, beside the allocator with one pool.
\<close>

definition process_mem :: mem where
  "process_mem = (pool_mem 2 1)(PHYS_TO_VIRT 0x101000 + 8 * 0 := 0x102007, PHYS_TO_VIRT 0x102000 + 8 * 0 := 0x103007,
     PHYS_TO_VIRT 0x103000 + 8 * 64 := 0x104007, PHYS_TO_VIRT 0x104000 + 8 * 72 := 0x105007,
     PHYS_TO_VIRT 0x105000 + 8 * 5 := 42)"

definition process_state :: phys where
  "process_state = one_page_out \<lparr> pmem := process_mem \<rparr>"

abbreviation process_pages :: "addr set" where
  "process_pages \<equiv> {0x101000, 0x102000, 0x103000, 0x104000, 0x105000}"

lemma process_page_aligned: "X \<in> process_pages \<Longrightarrow> MASK_4KIB X = X"
  by (auto simp: MASK_4KIB_def)

lemma sample_not_own:
  assumes "MASK_2MIB (MASK_4KIB a) \<noteq> sample_pool" and "MASK_4KIB a \<noteq> 0xFFFF800000110000"
  shows "\<not> own_cells 0xFFFF800000110008 {sample_pool} sample_avail a"
proof -
  have "MASK_2MIB q = sample_pool" if "q \<in> avail_pages [] [(sample_pool, 2, [])]" for q
    using that page_block(1) [OF sample_pool_base] by (auto simp: avail_pages_def pool_avail_def)
  then have "MASK_4KIB a \<notin> avail_pages [] [(sample_pool, 2, [])]" using assms(1) by blast
  moreover have "MASK_4KIB 0xFFFF800000110008 = 0xFFFF800000110000" "MASK_4KIB (0xFFFF800000110008 + 8) = 0xFFFF800000110000"
    "MASK_2MIB sample_pool = sample_pool"
    by (simp_all add: MASK_4KIB_def MASK_2MIB_def)
  ultimately show ?thesis using assms by (auto simp: own_cells_def)
qed

lemma process_page_not_own:
  assumes "X \<in> process_pages" and "MASK_4KIB a = PHYS_TO_VIRT X"
  shows "\<not> own_cells 0xFFFF800000110008 {sample_pool} sample_avail a"
  by (rule sample_not_own) (use assms in \<open>auto simp: MASK_2MIB_def PHYS_TO_VIRT_def\<close>)

lemma process_cell:
  assumes X: "X \<in> process_pages" and i: "i < 512"
  shows "process_mem (PHYS_TO_VIRT X + 8 * i) =
    (if X = 0x101000 \<and> i = 0 then 0x102007 else if X = 0x102000 \<and> i = 0 then 0x103007
     else if X = 0x103000 \<and> i = 64 then 0x104007 else if X = 0x104000 \<and> i = 72 then 0x105007
     else if X = 0x105000 \<and> i = 5 then 42 else 0)"
proof -
  have "MASK_4KIB (PHYS_TO_VIRT X + 8 * i) = PHYS_TO_VIRT X"
    by (rule entry_cell(1) [OF process_page_aligned [OF X] i])
  then have "PHYS_TO_VIRT X + 8 * i \<noteq> sample_pool + d" if "d < size_4KiB" for d
    using header_cell [OF sample_pool_base that] X by (auto simp: PHYS_TO_VIRT_def)
  from this [of 16] this [of 24] this [of 48] have "pool_mem 2 1 (PHYS_TO_VIRT X + 8 * i) = 0"
    by (simp add: pool_mem_def word_less_nat_alt)
  moreover have "PHYS_TO_VIRT X + 8 * i = PHYS_TO_VIRT Y + 8 * j \<longleftrightarrow> X = Y \<and> i = j"
    if "Y \<in> process_pages" "j < 512" for Y j
    by (rule entry_cell_inject [OF process_page_aligned [OF X] process_page_aligned [OF that(1)] i that(2)])
  moreover have "(0x101000 :: u64) \<in> process_pages" "(0x102000 :: u64) \<in> process_pages" "(0x103000 :: u64) \<in> process_pages"
    "(0x104000 :: u64) \<in> process_pages" "(0x105000 :: u64) \<in> process_pages"
    "(0 :: u64) < 512" "(64 :: u64) < 512" "(72 :: u64) < 512" "(5 :: u64) < 512" by simp_all
  ultimately show ?thesis unfolding process_mem_def fun_upd_def by (simp only: refl) auto
qed

lemma process_slot:
  assumes "X \<in> process_pages" and "i < 512"
  shows "slot process_mem X i = (if X = 0x101000 \<and> i = 0 then 0x102007 else if X = 0x102000 \<and> i = 0 then 0x103007
     else if X = 0x103000 \<and> i = 64 then 0x104007 else if X = 0x104000 \<and> i = 72 then 0x105007
     else if X = 0x105000 \<and> i = 5 then 42 else 0)"
  using process_cell [OF assms(1), of "of_nat i"] assms(2)
  by (simp add: word_less_nat_alt unat_of_nat_u64 word_unat_eq_iff)

lemma process_table_entry:
  "i < 512 \<Longrightarrow> entries process_mem (PHYS_TO_VIRT 0x101000) i = (if i = 0 then 0x102007 else 0)"
  "i < 512 \<Longrightarrow> entries process_mem (PHYS_TO_VIRT 0x102000) i = (if i = 0 then 0x103007 else 0)"
  "i < 512 \<Longrightarrow> entries process_mem (PHYS_TO_VIRT 0x103000) i = (if i = 64 then 0x104007 else 0)"
  "i < 512 \<Longrightarrow> entries process_mem (PHYS_TO_VIRT 0x104000) i = (if i = 72 then 0x105007 else 0)"
  by (simp_all add: process_cell)

lemma process_entry_table: "entry_table 0x102007 = 0x102000" "entry_table 0x103007 = 0x103000" "entry_table 0x104007 = 0x104000"
  "ENTRY_TO_ADDR 0x105007 = 0x105000"
  by (simp_all add: entry_table_def ENTRY_TO_ADDR_def)

lemma process_walk:
  assumes "is_path is" and "walk process_mem 0x101000 is = Some X"
  shows "is = [] \<and> X = 0x101000 \<or> is = [0] \<and> X = 0x102000 \<or> is = [0, 0] \<and> X = 0x103000 \<or> is = [0, 0, 64] \<and> X = 0x104000"
proof -
  consider "is = []" | i where "is = [i]" | i j where "is = [i, j]" | i j k where "is = [i, j, k]"
    using assms(1) by (cases "is"; cases "tl is"; cases "tl (tl is)") (auto simp: is_path_def)
  then show ?thesis
    using assms by cases (auto simp: is_path_def Let_def process_table_entry process_entry_table split: if_splits)
qed

lemma process_tables_inv: "tables_inv 0xFFFF800000110008 {sample_pool} sample_avail process_mem 0x101000"
  unfolding tables_inv_def
proof (intro conjI allI impI, goal_cases)
  case (1 "is" X)
  then have X: "X \<in> process_pages" using process_walk by auto
  show ?case unfolding table_ok_def
    using process_page_aligned [OF X] process_page_not_own [OF X] entry_cell(1) by blast
next
  case (2 "is" js X)
  then show ?case using process_walk [of "is" X] process_walk [of js X] by auto
next
  case (3 "is" i)
  show ?case
  proof (cases "walk process_mem 0x101000 is")
    case (Some X)
    then show ?thesis using process_walk [of "is" X] 3 by (auto simp: entry_at_def process_table_entry)
  qed (simp add: entry_at_def)
qed

lemma process_pt_inv: "pt_inv 0xFFFF800000110008 {sample_pool} sample_avail process_state 0x101000"
proof -
  have "process_mem a = pool_mem 2 1 a" if "own_cells 0xFFFF800000110008 {sample_pool} sample_avail a" for a
  proof -
    have "a \<noteq> PHYS_TO_VIRT X + 8 * i" if "X \<in> process_pages" "i < 512" for X i
      using process_page_not_own [OF that(1) entry_cell(1) [OF process_page_aligned [OF that(1)] that(2)]]
        \<open>own_cells _ _ _ a\<close> by blast
    from this [of "0x101000" 0] this [of "0x102000" 0] this [of "0x103000" 64] this [of "0x104000" 72] this [of "0x105000" 5]
    show ?thesis by (simp add: process_mem_def)
  qed
  then have "frames_inv 0xFFFF800000110008 {sample_pool} process_state sample_avail"
    unfolding process_state_def
    by (intro fa.write_other [OF sample_pages(1)]) (simp add: one_page_out_def)
  then show ?thesis using process_tables_inv sample_pages(2) by (simp add: pt_inv_def process_state_def)
qed

lemma one_slot:
  assumes sl: "\<And>i. i < N \<Longrightarrow> slot m X i = (if i = k then e else 0)" and k: "k < N" and e: "present e"
  shows "slots_pages c n N m X = c (target n e)"
    and "(\<And>i. i < N \<Longrightarrow> \<not> free (PHYS_TO_VIRT X + 8 * of_nat i)) \<Longrightarrow> (n \<noteq> 0 \<longrightarrow> \<not> large e) \<Longrightarrow> R (target n e) \<Longrightarrow>
      slots_copyable R n N free m X"
proof -
  have "slots_pages c n N m X = (\<Sum>i<N. if i = k then c (target n e) else 0)"
    unfolding slots_pages_def using sl e by (intro sum.cong) auto
  then show "slots_pages c n N m X = c (target n e)" using k by simp
  show "slots_copyable R n N free m X"
    if "\<And>i. i < N \<Longrightarrow> \<not> free (PHYS_TO_VIRT X + 8 * of_nat i)" "n \<noteq> 0 \<longrightarrow> \<not> large e" "R (target n e)"
    unfolding slots_copyable_def using sl that by auto
qed

lemma process_tree:
  assumes free: "\<And>X a. X \<in> process_pages \<Longrightarrow> MASK_4KIB a = PHYS_TO_VIRT X \<Longrightarrow> \<not> free a"
    and m: "\<And>X i. X \<in> process_pages - {0x105000} \<Longrightarrow> i < 512 \<Longrightarrow> slot m X i = slot process_mem X i"
  shows "slots_copyable (copyable 3 free m) 3 256 free m 0x101000" and "user_pages m 0x101000 = 4"
proof -
  have nf: "\<not> free (PHYS_TO_VIRT X + 8 * of_nat i)" if "X \<in> process_pages" "i < 512" for X and i :: nat
    by (rule free [OF that(1) slot_cell [OF process_page_aligned [OF that(1)] that(2)]])
  have s: "slot m 0x101000 i = (if i = 0 then 0x102007 else 0)" "slot m 0x102000 i = (if i = 0 then 0x103007 else 0)"
    "slot m 0x103000 i = (if i = 64 then 0x104007 else 0)" "slot m 0x104000 i = (if i = 72 then 0x105007 else 0)" if "i < 512" for i
    using that by (simp_all add: m process_slot)
  have page: "copyable 0 free m 0x105000"
    using free [of "0x105000"] by (simp add: MASK_4KIB_def)
  have p1: "copyable 1 free m 0x104000" "pages_of 1 m 0x104000 = 2"
    using one_slot(2) [of 512 m "0x104000" 72 "0x105007" free 0 "copyable 0 free m"] s(4) nf page
      one_slot(1) [of 512 m "0x104000" 72 "0x105007" "pages_of 0 m" 0]
    by (simp_all add: process_entry_table)
  have p2: "copyable 2 free m 0x103000" "pages_of 2 m 0x103000 = 3"
    using one_slot(2) [of 512 m "0x103000" 64 "0x104007" free 1 "copyable 1 free m"] s(3) nf p1
      one_slot(1) [of 512 m "0x103000" 64 "0x104007" "pages_of 1 m" 1]
    by (simp_all add: process_entry_table numeral_2_eq_2)
  have p3: "copyable 3 free m 0x102000" "pages_of 3 m 0x102000 = 4"
    using one_slot(2) [of 512 m "0x102000" 0 "0x103007" free 2 "copyable 2 free m"] s(2) nf p2
      one_slot(1) [of 512 m "0x102000" 0 "0x103007" "pages_of 2 m" 2]
    by (simp_all add: process_entry_table numeral_2_eq_2 numeral_3_eq_3)
  show "slots_copyable (copyable 3 free m) 3 256 free m 0x101000"
    by (rule one_slot(2) [of _ _ _ 0 "0x102007"]) (use s(1) nf p3 in \<open>simp_all add: process_entry_table numeral_3_eq_3\<close>)
  show "user_pages m 0x101000 = 4"
    unfolding user_pages_def
    by (subst one_slot(1) [of _ _ _ 0 "0x102007"]) (use s(1) p3 in \<open>simp_all add: process_entry_table numeral_3_eq_3\<close>)
qed

lemma process_copyable:
  "user_copyable 0xFFFF800000110008 {sample_pool} sample_avail process_mem 0x101000"
  "user_pages process_mem 0x101000 = 4"
  using process_tree [of "own_cells 0xFFFF800000110008 {sample_pool} sample_avail" process_mem, OF process_page_not_own]
  by (simp_all add: user_copyable_def)

theorem virt_clone_mapping_copies_address_space_witness:
  "\<exists>p st' q. virt_clone_mapping process_state 0x101000 = Inr (p, st') \<and> q \<in> sample_avail \<and>
    translate (pmem st') p 0x8048028 = Some (q + 0x28) \<and> pmem st' (PHYS_TO_VIRT (q + 0x28)) = 42 \<and>
    translate (pmem st') 0x101000 0x8048028 = Some 0x105028"
proof -
  have t: "translate process_mem 0x101000 0x8048028 = Some 0x105028"
    using process_table_entry(1,2) [of 0] process_table_entry(3) [of 64] process_table_entry(4) [of 72]
    by (simp add: translate_def entry_at_def PML4_INDEX_def PDPT_INDEX_def PDT_INDEX_def PT_INDEX_def Let_def
        process_entry_table)
  have u: "user_addr 0x8048028" by (simp add: user_addr_def PML4_INDEX_def)
  have c: "process_mem (PHYS_TO_VIRT 0x105028) = 42"
    using process_cell [of "0x105000" 5] by (simp add: PHYS_TO_VIRT_def)
  have mem: "pmem process_state = process_mem" by (simp add: process_state_def)
  have enough: "user_pages (pmem process_state) 0x101000 < card sample_avail"
    using process_copyable(2) sample_pages(4) by (simp add: mem)
  from virt_clone_mapping_copies_address_space [OF process_pt_inv process_copyable(1) [folded mem] enough]
  obtain p st' A' where r: "virt_clone_mapping process_state 0x101000 = Inr (p, st')" and
    v: "\<forall>v. if user_addr v
      then case translate process_mem 0x101000 v of
          None \<Rightarrow> translate (pmem st') p v = None
        | Some x \<Rightarrow> \<exists>q. q \<in> sample_avail - A' \<and> translate (pmem st') p v = Some (q + (v AND 0xFFF)) \<and>
            pmem st' (PHYS_TO_VIRT (q + (v AND 0xFFF))) = process_mem (PHYS_TO_VIRT x) \<and>
            entry_at (pmem st') p (pt_path v) (PT_INDEX v) AND PAGE_COPY_FLAGS =
              entry_at process_mem 0x101000 (pt_path v) (PT_INDEX v) AND PAGE_COPY_FLAGS
      else translate (pmem st') p v = translate process_mem 0x101000 v" and
    o: "\<forall>v. translate (pmem st') 0x101000 v = translate process_mem 0x101000 v"
    unfolding mem by blast
  from spec [OF v, of "0x8048028"] obtain q where "q \<in> sample_avail" "translate (pmem st') p 0x8048028 = Some (q + 0x28)"
    "pmem st' (PHYS_TO_VIRT (q + 0x28)) = 42"
    using u t c by auto
  then show ?thesis using r o t by auto
qed

end
