(* ===== verification/Elf.thy ===== *)
theory Elf
  imports Pcb MapPage
begin

text \<open>
  \<open>kernel/elf/elf.c\<close> and \<open>elf.h\<close>: loading an ELF64 executable into the address space of a
  process.  The file lies in memory; its headers are read from the cells of their fields.
  \<open>memcpy\<close> and \<open>memclr\<close> work on whole pages here, so they are \<open>copy_region\<close> and
  \<open>clear_cells\<close>.  The argument \<open>slot\<close> is the stack slot of the local variable
  \<open>memory_address\<close>, to which \<open>virt_map_page\<close> gets a pointer.
\<close>

section \<open>Headers\<close>

record ELF64_Ehdr =
  e_ident :: "u8 list"
  e_type :: u16
  e_machine :: u16
  e_version :: u32
  e_entry :: u64
  e_phoff :: u64
  e_phnum :: u16

record ELF64_Phdr =
  p_type :: u32
  p_offset :: u64
  p_vaddr :: u64
  p_filesz :: u64
  p_memsz :: u64

definition read_ehdr :: "mem \<Rightarrow> addr \<Rightarrow> ELF64_Ehdr" where
  "read_ehdr m a =
     \<lparr> e_ident = map (\<lambda>i. ucast (m (a + of_nat i))) [0..<16], e_type = ucast (m (a + 16)),
       e_machine = ucast (m (a + 18)), e_version = ucast (m (a + 20)), e_entry = m (a + 24),
       e_phoff = m (a + 32), e_phnum = ucast (m (a + 56)) \<rparr>"

definition read_phdr :: "mem \<Rightarrow> addr \<Rightarrow> ELF64_Phdr" where
  "read_phdr m a =
     \<lparr> p_type = ucast (m a), p_offset = m (a + 8), p_vaddr = m (a + 16), p_filesz = m (a + 32),
       p_memsz = m (a + 40) \<rparr>"

abbreviation sizeof_Phdr :: u64 where "sizeof_Phdr \<equiv> 56"
abbreviation PT_LOAD :: u32 where "PT_LOAD \<equiv> 1"
abbreviation ELF_NO_ERROR :: u8 where "ELF_NO_ERROR \<equiv> 0"
abbreviation ELF_ERROR_BAD_MAGIC :: u8 where "ELF_ERROR_BAD_MAGIC \<equiv> 1"
abbreviation ELF_ERROR_BAD_CLASS :: u8 where "ELF_ERROR_BAD_CLASS \<equiv> 2"
abbreviation ELF_ERROR_BAD_ENDIAN :: u8 where "ELF_ERROR_BAD_ENDIAN \<equiv> 3"
abbreviation ELF_ERROR_BAD_ABI :: u8 where "ELF_ERROR_BAD_ABI \<equiv> 4"
abbreviation ELF_ERROR_BAD_TYPE :: u8 where "ELF_ERROR_BAD_TYPE \<equiv> 5"
abbreviation ELF_ERROR_BAD_MACHINE :: u8 where "ELF_ERROR_BAD_MACHINE \<equiv> 6"
abbreviation ELF_ERROR_BAD_VERSION :: u8 where "ELF_ERROR_BAD_VERSION \<equiv> 7"
abbreviation ELF_ERROR_BAD_VADDR :: u8 where "ELF_ERROR_BAD_VADDR \<equiv> 8"

text \<open>The checks of the header in their order; \<open>ELF_NO_ERROR\<close> when all pass.\<close>

definition header_error :: "ELF64_Ehdr \<Rightarrow> u8" where
  "header_error h =
     (if e_ident h ! 0 \<noteq> 0x7F \<or> e_ident h ! 1 \<noteq> 0x45 \<or> e_ident h ! 2 \<noteq> 0x4C \<or> e_ident h ! 3 \<noteq> 0x46
      then ELF_ERROR_BAD_MAGIC
      else if e_ident h ! 4 \<noteq> 2 then ELF_ERROR_BAD_CLASS
      else if e_ident h ! 5 \<noteq> 1 then ELF_ERROR_BAD_ENDIAN
      else if e_ident h ! 7 \<noteq> 0 then ELF_ERROR_BAD_ABI
      else if e_type h \<noteq> 2 then ELF_ERROR_BAD_TYPE
      else if e_machine h \<noteq> 62 then ELF_ERROR_BAD_MACHINE
      else if e_version h \<noteq> 1 then ELF_ERROR_BAD_VERSION
      else ELF_NO_ERROR)"

section \<open>Loading\<close>

text \<open>What is put into one page: the next bytes of the file, then zeros.\<close>

definition fill_page :: "mem \<Rightarrow> addr \<Rightarrow> addr \<Rightarrow> u64 \<Rightarrow> u64 \<Rightarrow> u64 \<Rightarrow> mem" where
  "fill_page m memory_address src page_size amount_left copy_amount =
     (if amount_left > 0
      then let m = copy_region m (PHYS_TO_VIRT memory_address) src copy_amount
           in clear_cells m (PHYS_TO_VIRT (memory_address + copy_amount)) (page_size - copy_amount)
      else clear_cells m (PHYS_TO_VIRT memory_address) page_size)"

fun load_pages ::
  "nat \<Rightarrow> addr \<Rightarrow> addr \<Rightarrow> addr \<Rightarrow> u64 \<Rightarrow> u64 \<Rightarrow> u64 \<Rightarrow> u64 \<Rightarrow> u64 \<Rightarrow> phys \<Rightarrow> phys res" where
  "load_pages 0 slot page_table elf_address page_size page_size_type load_offset amount_left vaddr st = Inr st"
| "load_pages (Suc n) slot page_table elf_address page_size page_size_type load_offset amount_left vaddr st =
     and_then (virt_map_page st page_table vaddr (PG_FLAG_RW OR PG_FLAG_USER) page_size_type slot) (\<lambda>(r, st).
       if r = 0 then Inl (Panic ''ELF: Failed to map page'')
       else
         let memory_address = pmem st slot;
             copy_amount = (if page_size < amount_left then page_size else amount_left);
             st = st \<lparr> pmem := fill_page (pmem st) memory_address (elf_address + load_offset) page_size
                    amount_left copy_amount \<rparr>
         in load_pages n slot page_table elf_address page_size page_size_type (load_offset + copy_amount)
              (amount_left - copy_amount) (vaddr + copy_amount) st)"

text \<open>One program header: False is the early return with \<open>ELF_ERROR_BAD_VADDR\<close>.\<close>

definition load_segment :: "addr \<Rightarrow> addr \<Rightarrow> addr \<Rightarrow> ELF64_Phdr \<Rightarrow> phys \<Rightarrow> (bool \<times> phys) res" where
  "load_segment slot page_table elf_address cur_hdr st =
     (if p_type cur_hdr \<noteq> PT_LOAD then Inr (True, st)
      else if p_vaddr cur_hdr + p_memsz cur_hdr \<ge> KERNEL_BASE then Inr (False, st)
      else
        let big = p_memsz cur_hdr \<ge> PAGE_LARGE_SIZE;
            page_size = (if big then PAGE_LARGE_SIZE else PAGE_SMALL_SIZE);
            page_size_type = (if big then PAGE_LARGE else PAGE_SMALL);
            num_pages = p_memsz cur_hdr div page_size + 1
        in and_then (load_pages (unat num_pages) slot page_table elf_address page_size page_size_type
             (p_offset cur_hdr) (p_filesz cur_hdr) (p_vaddr cur_hdr) st) (\<lambda>st. Inr (True, st)))"

fun load_segments :: "nat \<Rightarrow> addr \<Rightarrow> addr \<Rightarrow> addr \<Rightarrow> addr \<Rightarrow> phys \<Rightarrow> (bool \<times> phys) res" where
  "load_segments 0 slot page_table elf_address phdr st = Inr (True, st)"
| "load_segments (Suc n) slot page_table elf_address phdr st =
     and_then (load_segment slot page_table elf_address (read_phdr (pmem st) phdr) st) (\<lambda>(ok, st).
       if \<not> ok then Inr (False, st)
       else load_segments n slot page_table elf_address (phdr + sizeof_Phdr) st)"

abbreviation USER_STACK_LOCATION :: u64 where "USER_STACK_LOCATION \<equiv> 0x2000000"
abbreviation USER_STACK_SIZE :: u64 where "USER_STACK_SIZE \<equiv> 0x4000"
abbreviation CONTEXT_STACK_LOCATION :: u64 where "CONTEXT_STACK_LOCATION \<equiv> USER_STACK_LOCATION + 0x1000"
abbreviation CONTEXT_STACK_SIZE :: u64 where "CONTEXT_STACK_SIZE \<equiv> PAGE_SMALL_SIZE"
abbreviation sizeof_Context :: u64 where "sizeof_Context \<equiv> 176"
abbreviation DEFAULT_EFLAGS :: u64 where "DEFAULT_EFLAGS \<equiv> 0x202"

fun map_stack :: "nat \<Rightarrow> addr \<Rightarrow> addr \<Rightarrow> addr \<Rightarrow> phys \<Rightarrow> phys res" where
  "map_stack 0 slot page_table address st = Inr st"
| "map_stack (Suc n) slot page_table address st =
     and_then (virt_map_page st page_table address (PG_FLAG_RW OR PG_FLAG_USER) PAGE_SMALL slot) (\<lambda>(r, st).
       if r = 0 then Inl (Panic ''ELF: Failed to allocate stack'')
       else
         let st = st \<lparr> pmem := clear_cells (pmem st) (PHYS_TO_VIRT (pmem st slot)) PAGE_SMALL_SIZE \<rparr>
         in map_stack n slot page_table (address + PAGE_SMALL_SIZE) st)"

text \<open>The initial registers of the process, in the fields of its \<open>Context\<close>.\<close>

definition init_context :: "mem \<Rightarrow> addr \<Rightarrow> u64 \<Rightarrow> mem" where
  "init_context m context entry =
     m(context + 136 := entry,
       context + 160 := USER_STACK_LOCATION,
       context + 48 := USER_STACK_LOCATION,
       context + 152 := DEFAULT_EFLAGS,
       context + 144 := 0x30 OR 3,
       context + 168 := 0x40 OR 3)"

definition elf_create_process :: "addr \<Rightarrow> addr \<Rightarrow> addr \<Rightarrow> addr \<Rightarrow> addr \<Rightarrow> phys \<Rightarrow> (u8 \<times> phys) res" where
  "elf_create_process ktable slot pcb elf_file page_table st =
     (let elf_address = elf_file;
          elf_hdr = read_ehdr (pmem st) elf_file
      in if header_error elf_hdr \<noteq> ELF_NO_ERROR then Inr (header_error elf_hdr, st)
         else if e_entry elf_hdr = 0 then Inl (Panic ''ELF: Bad entry point'')
         else and_then (virt_reset_table ktable st page_table) (\<lambda>st.
           let elf_hdr = read_ehdr (pmem st) elf_file;
               phdr_table = elf_address + e_phoff elf_hdr
           in and_then (load_segments (unat (e_phnum elf_hdr)) slot page_table elf_address phdr_table st) (\<lambda>(ok, st).
              if \<not> ok then Inr (ELF_ERROR_BAD_VADDR, st)
              else and_then (map_stack 4 slot page_table (USER_STACK_LOCATION - USER_STACK_SIZE) st) (\<lambda>st.
                   and_then (virt_map_page st page_table CONTEXT_STACK_LOCATION PG_FLAG_RW PAGE_SMALL slot) (\<lambda>(_, st).
                   let m = pmem st;
                       m = m(pcb := CONTEXT_STACK_LOCATION + CONTEXT_STACK_SIZE - sizeof_Context);
                       context = PHYS_TO_VIRT (m slot + CONTEXT_STACK_SIZE - sizeof_Context);
                       m = init_context m context (e_entry (read_ehdr m elf_file))
                   in Inr (ELF_NO_ERROR, st \<lparr> pmem := m \<rparr>))))))"


section \<open>A zero page stops the kernel\<close>

lemma fill_page_other:
  assumes p: "MASK_4KIB (PHYS_TO_VIRT p) = PHYS_TO_VIRT p" and f: "f < 0x1000"
    and a: "MASK_4KIB a \<noteq> PHYS_TO_VIRT p"
  shows "fill_page m p src 0x1000 amount f a = m a"
proof -
  have "\<not> in_region a (PHYS_TO_VIRT p) 0x1000" using in_page_iff [OF p] a by simp
  moreover have "unat f + unat (0x1000 - f) < 2 ^ 64" using f by (simp add: unat_sub word_less_nat_alt word_le_nat_alt)
  from in_region_split [OF this, of a "PHYS_TO_VIRT p"]
  have "in_region a (PHYS_TO_VIRT p) 0x1000 \<longleftrightarrow>
      in_region a (PHYS_TO_VIRT p) f \<or> in_region a (PHYS_TO_VIRT p + f) (0x1000 - f)" by simp
  moreover have "PHYS_TO_VIRT (p + f) = PHYS_TO_VIRT p + f" by (simp add: PHYS_TO_VIRT_def)
  ultimately show ?thesis by (simp add: fill_page_def copy_region_def clear_cells_def Let_def)
qed

lemma fill_page_keeps:
  assumes inv: "pt_inv s B A st T" and p: "MASK_4KIB p = p" and f: "f < 0x1000"
    and apart: "\<forall>a. MASK_4KIB a = PHYS_TO_VIRT p \<longrightarrow> \<not> own_cells s B A a \<and> \<not> table_cell (pmem st) T a"
  fixes src amount
  defines "st' \<equiv> st \<lparr> pmem := fill_page (pmem st) p src 0x1000 amount f \<rparr>"
  shows "pt_inv s B A st' T" and "translate (pmem st') T v = translate (pmem st) T v"
    and "slot_ok s B A st T slot \<Longrightarrow> slot_ok s B A st' T slot"
proof -
  have "MASK_4KIB (PHYS_TO_VIRT p) = PHYS_TO_VIRT p" using p by (simp add: MASK_4KIB_virt)
  then have m: "fill_page (pmem st) p src 0x1000 amount f a = pmem st a" if "own_cells s B A a \<or> table_cell (pmem st) T a" for a
    using apart that by (intro fill_page_other [OF _ f]) blast+
  note ag = pt_inv_agree [OF inv, of "fill_page (pmem st) p src 0x1000 amount f", OF m m, OF disjI1 disjI2]
  show "pt_inv s B A st' T" "translate (pmem st') T v = translate (pmem st) T v"
    using ag(1,2) by (simp_all add: st'_def)
  have "table_cell (pmem st') T a = table_cell (pmem st) T a" for a
    by (rule table_cell_cong) (use ag(3) in \<open>simp add: st'_def\<close>)
  then show "slot_ok s B A st T slot \<Longrightarrow> slot_ok s B A st' T slot" by (simp add: slot_ok_def)
qed

text \<open>A segment of more than one page and less than 2 MiB has at least two.\<close>

lemma two_pages:
  assumes "0x1000 \<le> n" and "n < PAGE_LARGE_SIZE"
  obtains k where "unat (n div 0x1000 + 1) = Suc (Suc k)"
proof -
  have "unat (n div 0x1000) = unat n div 0x1000" by (simp add: unat_div)
  moreover have "1 \<le> unat n div 0x1000" "unat n div 0x1000 < 512"
    using assms by (simp_all add: word_le_nat_alt word_less_nat_alt)
  ultimately have "unat (n div 0x1000 + 1) = Suc (unat n div 0x1000)" by (simp add: unat_word_ariths)
  then show thesis using that \<open>1 \<le> unat n div 0x1000\<close> by (metis Suc_le_D One_nat_def)
qed

text \<open>C23. The loader moves on by the bytes it copied, not by the page.  A loadable segment with a memory size
  of at least one page and less than 2 MiB, whose file part ends inside the page it begins in, makes it map
  that page a second time, which stops the kernel: from every well-formed state with eight free pages in
  which the page is not mapped, and for every user address.  (A smaller memory size counts as one page,
  wherever the segment begins, and does not stop the kernel.)\<close>

theorem elf_zero_page_stops_kernel:
  assumes inv: "pt_inv s B A st T" and pages: "8 \<le> card A" and slot: "slot_ok s B A st T slot"
    and load: "p_type hdr = PT_LOAD" "p_vaddr hdr + p_memsz hdr < KERNEL_BASE"
    and mem: "0x1000 \<le> p_memsz hdr" "p_memsz hdr < PAGE_LARGE_SIZE"
    and fits: "unat (p_vaddr hdr AND 0xFFF) + unat (p_filesz hdr) < 0x1000"
    and free: "translate (pmem st) T (p_vaddr hdr) = None"
  shows "load_segment slot T elf_address hdr st = Inl (Panic (''Address already mapped!'' @ newline))"
proof -
  define v where "v = p_vaddr hdr"
  define f where "f = p_filesz hdr"
  have f4: "f < 0x1000" using fits by (simp add: f_def word_less_nat_alt)
  obtain st1 A1 p where s1: "virt_map_page st T v (PG_FLAG_RW OR PG_FLAG_USER) PAGE_SMALL slot = Inr (1, st1)"
    "MASK_4KIB p = p" "pmem st1 slot = p" "pt_inv s B A1 st1 T" "slot_ok s B A1 st1 T slot"
    "\<forall>a. MASK_4KIB a = PHYS_TO_VIRT p \<longrightarrow> \<not> own_cells s B A1 a \<and> \<not> table_cell (pmem st1) T a"
    "\<forall>w. same_page v w \<longrightarrow> translate (pmem st1) T w = Some (p + (w AND 0xFFF))" "card A \<le> card A1 + 4"
    using virt_map_page_small [OF inv _ free slot, of "PG_FLAG_RW OR PG_FLAG_USER"] pages unfolding v_def by auto
  define st2 where "st2 = st1 \<lparr> pmem := fill_page (pmem st1) p (elf_address + p_offset hdr) 0x1000 f f \<rparr>"
  note keeps = fill_page_keeps [OF s1(4,2) f4 s1(6), where src = "elf_address + p_offset hdr" and amount = f, folded st2_def]
  have "same_page v (v + f)" using fits by (intro same_page_mask) (simp add: page_offset_add(1) v_def f_def)
  then have mapped: "translate (pmem st2) T (v + f) \<noteq> None" using s1(7) by (simp add: keeps(2))
  have "4 \<le> card A1" using s1(8) pages by simp
  note second = virt_map_page_mapped [OF keeps(1) this keeps(3) [OF s1(5)] mapped, of "PG_FLAG_RW OR PG_FLAG_USER"]
  obtain k where k: "unat (p_memsz hdr div 0x1000 + 1) = Suc (Suc k)" by (rule two_pages [OF mem])
  have cp: "(if (0x1000 :: u64) < f then 0x1000 else f) = f" using f4 by auto
  have "load_pages (Suc (Suc k)) slot T elf_address 0x1000 PAGE_SMALL (p_offset hdr) f v st =
      Inl (Panic (''Address already mapped!'' @ newline))"
    using s1(1,3) second by (simp only: load_pages.simps and_then_simps prod.case Let_def cp) (simp add: st2_def)
  moreover have "\<not> PAGE_LARGE_SIZE \<le> p_memsz hdr" "\<not> KERNEL_BASE \<le> p_vaddr hdr + p_memsz hdr"
    using mem(2) load(2) by (simp_all add: not_le)
  ultimately show ?thesis
    using load(1) k by (simp add: load_segment_def Let_def v_def f_def)
qed

definition bss_segment :: ELF64_Phdr where
  "bss_segment = \<lparr> p_type = PT_LOAD, p_offset = 0x1000, p_vaddr = 0x601000, p_filesz = 0x10, p_memsz = 0x2000 \<rparr>"

lemma sample_slot: "slot_ok 0xFFFF800000110008 {sample_pool} sample_avail one_page_out 0x101000 0x5000"
proof -
  have "VIRT_TO_PHYS (MASK_4KIB 0x5000) \<notin> sample_avail"
    using sample_pages(2) by (auto simp: VIRT_TO_PHYS_def MASK_4KIB_def)
  then have "\<not> own_cells 0xFFFF800000110008 {sample_pool} sample_avail 0x5000"
    by (simp add: own_cells_def MASK_4KIB_def)
  moreover have "\<not> table_cell (pmem one_page_out) 0x101000 0x5000"
  proof
    assume "table_cell (pmem one_page_out) 0x101000 0x5000"
    then obtain "is" X j where c: "is_path is" "walk (pool_mem 2 1) 0x101000 is = Some X" "j < 512"
      "0x5000 = PHYS_TO_VIRT X + 8 * j"
      unfolding table_cell_def one_page_out_def by auto
    have "X = 0x101000" using sample_walk [OF c(1,2)] by simp
    moreover have "MASK_4KIB (PHYS_TO_VIRT 0x101000 + 8 * j) = PHYS_TO_VIRT 0x101000"
      by (rule entry_cell(1) [OF _ c(3)]) (simp add: MASK_4KIB_def)
    ultimately have "MASK_4KIB 0x5000 = PHYS_TO_VIRT 0x101000" using c(4) by simp
    then show False by (simp add: MASK_4KIB_def PHYS_TO_VIRT_def)
  qed
  ultimately show ?thesis by (simp add: slot_ok_def)
qed

theorem elf_zero_page_stops_kernel_witness:
  "load_segment 0x5000 0x101000 0xFFFF800000300000 bss_segment one_page_out =
     Inl (Panic (''Address already mapped!'' @ newline))"
  by (rule elf_zero_page_stops_kernel [OF sample_pt_inv sample_pages(4) sample_slot])
    (simp_all add: bss_segment_def sample_unmapped)

end
