(* ===== verification/Textmode.thy ===== *)
theory Textmode
  imports Prelude
begin

text \<open>
  \<open>arch/x86_64/textmode.c\<close>: the 80 x 25 screen with a buffer of 100 pages behind it.  The
  arrays \<open>text\<close> (200000 bytes) and \<open>video\<close> (2000 cells of a character and a colour) are
  functions of the index; that every index used lies inside them is proved for all states the
  operations can reach.
\<close>

section \<open>State and operations\<close>

abbreviation MAX_X :: nat where "MAX_X \<equiv> 80"
abbreviation MAX_Y :: nat where "MAX_Y \<equiv> 25"
abbreviation NUM_PAGES :: nat where "NUM_PAGES \<equiv> 100"
abbreviation NUM_LINES :: nat where "NUM_LINES \<equiv> MAX_Y * NUM_PAGES"

record textmode =
  text_buf :: "nat \<Rightarrow> u8"
  video :: "nat \<Rightarrow> u8 \<times> u8"
  page_offset :: u32
  write_x :: u16
  write_y :: u16

definition text_mode_reset :: "textmode \<Rightarrow> textmode" where
  "text_mode_reset t = t \<lparr> write_x := 0, write_y := 0 \<rparr>"

definition init_text_mode :: "textmode \<Rightarrow> textmode" where
  "init_text_mode t = t \<lparr> write_x := 0, write_y := 0 \<rparr>"

definition clear_screen :: "textmode \<Rightarrow> textmode" where
  "clear_screen t = t \<lparr> video := (\<lambda>i. if i < MAX_X * MAX_Y then (0, 0) else video t i) \<rparr>"

text \<open>The two loops of \<open>display_page\<close>, over the lines and the columns of the screen.\<close>

definition display_page :: "u32 \<Rightarrow> textmode \<Rightarrow> textmode" where
  "display_page offset t =
     (let t = clear_screen t;
          text_y = offset * of_nat MAX_Y
      in foldl (\<lambda>t disp_y. foldl (\<lambda>t disp_x.
           let text_offset = (text_y + of_nat disp_y) * of_nat MAX_X + of_nat disp_x;
               off = disp_y * MAX_X + disp_x
           in t \<lparr> video := (video t)(off := (text_buf t (unat text_offset), 0x9)) \<rparr>)
           t [0..<MAX_X]) t [0..<MAX_Y])"

definition page_up :: "textmode \<Rightarrow> textmode" where
  "page_up t =
     (let t = (if page_offset t > 0 then t \<lparr> page_offset := page_offset t - 1 \<rparr> else t)
      in display_page (page_offset t) t)"

definition page_down :: "textmode \<Rightarrow> textmode" where
  "page_down t =
     (let max_page_offset = ucast (write_y t) div of_nat MAX_Y;
          t = (if page_offset t < max_page_offset then t \<lparr> page_offset := page_offset t + 1 \<rparr> else t)
      in display_page (page_offset t) t)"

text \<open>The cell of the cursor in the buffer and on the screen.\<close>

definition text_index :: "textmode \<Rightarrow> nat" where
  "text_index t = unat (write_y t) * MAX_X + unat (write_x t)"

definition video_index :: "textmode \<Rightarrow> nat" where
  "video_index t = unat (write_y t) mod MAX_Y * MAX_X + unat (write_x t)"

definition put_char :: "u8 \<Rightarrow> textmode \<Rightarrow> textmode" where
  "put_char c t =
     t \<lparr> text_buf := (text_buf t)(text_index t := c), video := (video t)(video_index t := (c, 0x9)) \<rparr>"

definition next_line :: "textmode \<Rightarrow> textmode" where
  "next_line t =
     (let y = write_y t + 1 in t \<lparr> write_y := (if unat y \<ge> NUM_LINES then 0 else y) \<rparr>)"

definition text_mode_char :: "u8 \<Rightarrow> textmode \<Rightarrow> textmode" where
  "text_mode_char c t =
     (let current_page = ucast (write_y t) div of_nat MAX_Y;
          t = (if current_page \<noteq> page_offset t then clear_screen (t \<lparr> page_offset := current_page \<rparr>) else t)
      in if c = 0x0D \<or> c = 0x0A then (next_line t) \<lparr> write_x := 0 \<rparr>
         else if c = 0x08
         then
           let t = (if write_x t = 0
                    then let t = t \<lparr> write_x := of_nat MAX_X \<rparr>
                         in if write_y t > 0 then t \<lparr> write_y := write_y t - 1 \<rparr> else t
                    else t);
               t = t \<lparr> write_x := write_x t - 1 \<rparr>
           in put_char 0x20 t
         else
           let t = put_char c t;
               t = t \<lparr> write_x := write_x t + 1 \<rparr>
           in if unat (write_x t) \<ge> MAX_X then next_line (t \<lparr> write_x := 0 \<rparr>) else t)"

section \<open>Reachable states\<close>

inductive text_step :: "textmode \<Rightarrow> textmode \<Rightarrow> bool" where
  char: "text_step t (text_mode_char c t)"
| up: "text_step t (page_up t)"
| down: "text_step t (page_down t)"
| clear: "text_step t (clear_screen t)"
| reset: "text_step t (text_mode_reset t)"

inductive_cases text_stepE: "text_step t t'"

text \<open>Before the first operation the static variables are zero.\<close>

inductive text_reachable :: "textmode \<Rightarrow> bool" where
  boot: "page_offset t = 0 \<Longrightarrow> text_reachable (init_text_mode t)"
| step: "text_reachable t \<Longrightarrow> text_step t t' \<Longrightarrow> text_reachable t'"

definition text_inv :: "textmode \<Rightarrow> bool" where
  "text_inv t \<longleftrightarrow> unat (write_x t) < MAX_X \<and> unat (write_y t) < NUM_LINES \<and> unat (page_offset t) < NUM_PAGES"

section \<open>What a display shows\<close>

text \<open>The character of the buffer that a page shows at a place of the screen.\<close>

definition shown :: "u32 \<Rightarrow> textmode \<Rightarrow> nat \<Rightarrow> nat \<Rightarrow> u8" where
  "shown offset t y x = text_buf t (unat ((offset * of_nat MAX_Y + of_nat y) * of_nat MAX_X + of_nat x :: u32))"

definition draw_cell :: "u32 \<Rightarrow> nat \<Rightarrow> textmode \<Rightarrow> nat \<Rightarrow> textmode" where
  "draw_cell offset y t x = t \<lparr> video := (video t)(y * MAX_X + x := (shown offset t y x, 0x9)) \<rparr>"

lemma shown_video [simp]: "shown offset (t \<lparr> video := v \<rparr>) = shown offset t"
  by (intro ext) (simp add: shown_def)

lemma draw_line:
  "foldl (draw_cell offset y) t [0..<n] =
     t \<lparr> video := (\<lambda>i. if y * MAX_X \<le> i \<and> i < y * MAX_X + n then (shown offset t y (i - y * MAX_X), 0x9) else video t i) \<rparr>"
proof (induction n)
  case 0
  have "(\<lambda>i. if y * MAX_X \<le> i \<and> i < y * MAX_X + 0 then (shown offset t y (i - y * MAX_X), 0x9) else video t i) = video t"
    by (rule ext) auto
  then show ?case by simp
next
  case (Suc n)
  have "((\<lambda>i. if y * MAX_X \<le> i \<and> i < y * MAX_X + n then (shown offset t y (i - y * MAX_X), 0x9) else video t i)
      (y * MAX_X + n := (shown offset t y n, 0x9))) =
      (\<lambda>i. if y * MAX_X \<le> i \<and> i < y * MAX_X + Suc n then (shown offset t y (i - y * MAX_X), 0x9) else video t i)"
    by (rule ext) auto
  note fold = this
  show ?case
    by (simp only: upt_Suc_append le0 foldl_append foldl.simps Suc)
      (simp add: draw_cell_def fold)
qed

lemma draw_lines:
  "foldl (\<lambda>t y. foldl (draw_cell offset y) t [0..<MAX_X]) t [0..<m] =
     t \<lparr> video := (\<lambda>i. if i < m * MAX_X then (shown offset t (i div MAX_X) (i mod MAX_X), 0x9) else video t i) \<rparr>"
proof (induction m)
  case 0
  then show ?case by simp
next
  case (Suc m)
  have "(if m * MAX_X \<le> i \<and> i < m * MAX_X + MAX_X then (shown offset t m (i - m * MAX_X), 0x9)
      else if i < m * MAX_X then (shown offset t (i div MAX_X) (i mod MAX_X), 0x9) else video t i) =
      (if i < Suc m * MAX_X then (shown offset t (i div MAX_X) (i mod MAX_X), 0x9) else video t i)" for i
  proof -
    have "i div MAX_X = m \<and> i mod MAX_X = i - m * MAX_X" if lo: "m * MAX_X \<le> i" and hi: "i < m * MAX_X + MAX_X"
    proof -
      obtain k where k: "i = m * MAX_X + k" using lo by (auto simp: le_iff_add)
      with hi have "k < MAX_X" by simp
      with k show ?thesis by simp
    qed
    then show ?thesis by auto
  qed
  note cell = this
  have upd: "t \<lparr> video := f \<rparr> \<lparr> video := g \<rparr> = t \<lparr> video := g \<rparr>" for f g by simp
  have sel: "video (t \<lparr> video := f \<rparr>) = f" for f by simp
  have "foldl (\<lambda>t y. foldl (draw_cell offset y) t [0..<MAX_X]) t [0..<Suc m] =
      foldl (draw_cell offset m) (foldl (\<lambda>t y. foldl (draw_cell offset y) t [0..<MAX_X]) t [0..<m]) [0..<MAX_X]"
    by (simp only: upt_Suc_append le0 foldl_append foldl.simps)
  also have "\<dots> = t \<lparr> video := (\<lambda>i. if i < Suc m * MAX_X
      then (shown offset t (i div MAX_X) (i mod MAX_X), 0x9) else video t i) \<rparr>"
    by (subst Suc, subst draw_line) (simp only: shown_video upd sel cell)
  finally show ?case .
qed

lemma display_page_eq:
  "display_page offset t = t \<lparr> video := (\<lambda>i. if i < MAX_Y * MAX_X
     then (shown offset t (i div MAX_X) (i mod MAX_X), 0x9) else video t i) \<rparr>"
proof -
  have "display_page offset t =
      foldl (\<lambda>t y. foldl (draw_cell offset y) t [0..<MAX_X]) (clear_screen t) [0..<MAX_Y]"
    unfolding display_page_def Let_def draw_cell_def [abs_def] shown_def by (rule refl)
  then show ?thesis unfolding draw_lines clear_screen_def by (simp add: if_distrib cong: if_cong)
qed

lemma shown_in_page:
  assumes "unat offset < NUM_PAGES" and "y < MAX_Y" and "x < MAX_X"
  shows "shown offset t y x = text_buf t ((unat offset * MAX_Y + y) * MAX_X + x)"
proof -
  have w: "(offset * of_nat MAX_Y + of_nat y) * of_nat MAX_X + of_nat x =
      (of_nat ((unat offset * MAX_Y + y) * MAX_X + x) :: u32)"
    by (simp only: of_nat_add of_nat_mult of_nat_unat ucast_id)
  have "unat offset * MAX_Y + y < NUM_LINES" using assms by simp
  then have "(unat offset * MAX_Y + y) * MAX_X + x < 2 ^ 32" using assms(3) by simp
  then have "unat (of_nat ((unat offset * MAX_Y + y) * MAX_X + x) :: u32) = (unat offset * MAX_Y + y) * MAX_X + x"
    by (simp only: unsigned_of_nat take_bit_nat_eq_self len_num1 len_bit0) (simp add: take_bit_nat_eq_self)
  then show ?thesis unfolding shown_def w by simp
qed

section \<open>The cursor stays inside the arrays\<close>

lemma text_inv_bounds:
  assumes "text_inv t"
  shows "text_index t < MAX_X * NUM_LINES" and "video_index t < MAX_X * MAX_Y"
    and "unat (page_offset t) * MAX_Y * MAX_X + MAX_Y * MAX_X \<le> MAX_X * NUM_LINES"
proof -
  have "unat (write_y t) mod MAX_Y < MAX_Y" by simp
  then show "video_index t < MAX_X * MAX_Y" using assms unfolding video_index_def text_inv_def by linarith
qed (use assms in \<open>simp_all add: text_inv_def text_index_def\<close>)

lemma unat_u16_inc: "unat (y :: u16) < 65535 \<Longrightarrow> unat (y + 1) = Suc (unat y)"
  by (simp add: unat_word_ariths)

lemma next_line_inv:
  assumes "unat (write_y t) < NUM_LINES"
  shows "unat (write_y (next_line t)) < NUM_LINES" and "write_x (next_line t) = write_x t"
    and "page_offset (next_line t) = page_offset t"
  using assms unat_u16_inc [of "write_y t"] by (auto simp: next_line_def Let_def)

lemma page_of_line:
  assumes "unat (write_y t) < NUM_LINES"
  shows "unat (ucast (write_y t) div of_nat MAX_Y :: u32) < NUM_PAGES"
proof -
  have "unat (ucast (write_y t) :: u32) = unat (write_y t)"
    by (simp add: unsigned_ucast_eq take_bit_nat_eq_self unsigned_less [THEN less_trans])
  then show ?thesis using assms by (simp add: unat_div less_mult_imp_div_less)
qed

lemma put_char_fields [simp]:
  "write_x (put_char c t) = write_x t" "write_y (put_char c t) = write_y t"
  "page_offset (put_char c t) = page_offset t"
  by (simp_all add: put_char_def)

lemma clear_screen_fields [simp]:
  "write_x (clear_screen t) = write_x t" "write_y (clear_screen t) = write_y t"
  "page_offset (clear_screen t) = page_offset t" "text_buf (clear_screen t) = text_buf t"
  by (simp_all add: clear_screen_def)

lemma display_page_fields [simp]:
  "write_x (display_page off t) = write_x t" "write_y (display_page off t) = write_y t"
  "page_offset (display_page off t) = page_offset t" "text_buf (display_page off t) = text_buf t"
  by (simp_all add: display_page_eq)

text \<open>The first step of \<open>text_mode_char\<close>: the page shown becomes the page of the cursor.\<close>

definition scrolled :: "textmode \<Rightarrow> textmode" where
  "scrolled t =
     (let current_page = ucast (write_y t) div of_nat MAX_Y
      in if current_page \<noteq> page_offset t then clear_screen (t \<lparr> page_offset := current_page \<rparr>) else t)"

lemma scrolled_fields [simp]:
  "write_x (scrolled t) = write_x t" "write_y (scrolled t) = write_y t"
  "page_offset (scrolled t) = ucast (write_y t) div of_nat MAX_Y"
  by (simp_all add: scrolled_def Let_def)

lemma text_mode_char_inv:
  assumes "text_inv t"
  shows "text_inv (text_mode_char c t)"
proof -
  let ?s = "scrolled t"
  have y: "unat (write_y ?s) < NUM_LINES" and x: "unat (write_x ?s) < MAX_X"
    using assms by (simp_all add: text_inv_def)
  have p: "unat (page_offset ?s) < NUM_PAGES"
    using page_of_line [of t] assms by (simp add: text_inv_def)
  have dec: "unat (write_y ?s - 1) < NUM_LINES" if "write_y ?s > 0"
    using that y by (simp add: unat_minus_one word_gt_0_no)
  have decx: "unat (write_x ?s - 1) < MAX_X" if "write_x ?s \<noteq> 0"
    using that x by (simp add: unat_minus_one)
  have e: "text_mode_char c t =
     (if c = 0x0D \<or> c = 0x0A then (next_line ?s) \<lparr> write_x := 0 \<rparr>
      else if c = 0x08
      then put_char 0x20
        (let t = (if write_x ?s = 0 then (if write_y ?s > 0 then ?s \<lparr> write_x := of_nat MAX_X, write_y := write_y ?s - 1 \<rparr>
             else ?s \<lparr> write_x := of_nat MAX_X \<rparr>) else ?s) in t \<lparr> write_x := write_x t - 1 \<rparr>)
      else let t = put_char c ?s; t = t \<lparr> write_x := write_x t + 1 \<rparr>
        in if unat (write_x t) \<ge> MAX_X then next_line (t \<lparr> write_x := 0 \<rparr>) else t)"
    unfolding text_mode_char_def scrolled_def Let_def by (auto simp: put_char_def)
  show ?thesis
    unfolding e using x y p dec decx next_line_inv [of ?s] next_line_inv [of "put_char c ?s \<lparr> write_x := 0 \<rparr>"]
    by (auto simp: text_inv_def Let_def)
qed

lemma page_inv:
  assumes "text_inv t"
  shows "text_inv (page_up t)" and "text_inv (page_down t)"
proof -
  have "unat (page_offset t - 1) < NUM_PAGES" if "page_offset t > 0"
  proof -
    have "page_offset t \<noteq> 0" using that by simp
    then have "unat (page_offset t - 1) = unat (page_offset t) - 1" by (rule unat_minus_one)
    then show ?thesis using assms unfolding text_inv_def by linarith
  qed
  then show "text_inv (page_up t)" using assms by (simp add: page_up_def text_inv_def Let_def)
  have "unat (page_offset t + 1) < NUM_PAGES" if "page_offset t < ucast (write_y t) div of_nat MAX_Y"
  proof -
    have "unat (page_offset t) < unat (ucast (write_y t) div of_nat MAX_Y :: u32)"
      using that by (simp add: word_less_nat_alt)
    moreover have "unat (ucast (write_y t) div of_nat MAX_Y :: u32) < NUM_PAGES"
      using page_of_line [of t] assms by (simp add: text_inv_def)
    ultimately show ?thesis by (simp add: unat_word_ariths)
  qed
  then show "text_inv (page_down t)" using assms by (simp add: page_down_def text_inv_def Let_def)
qed

lemma text_step_inv: "text_step t t' \<Longrightarrow> text_inv t \<Longrightarrow> text_inv t'"
  by (erule text_stepE) (simp_all add: text_mode_char_inv page_inv, simp_all add: text_inv_def text_mode_reset_def)

lemma text_reachable_inv: "text_reachable t \<Longrightarrow> text_inv t"
proof (induction rule: text_reachable.induct)
  case (boot t)
  then show ?case by (simp add: init_text_mode_def text_inv_def)
qed (rule text_step_inv)

section \<open>Properties\<close>

text \<open>C18. Whatever characters are written, pages turned and screens cleared after the boot, the
  cell of the cursor lies inside \<open>text\<close> and inside the video memory, and turning to the current
  page copies exactly that page's 2000 characters, all inside \<open>text\<close>.\<close>

theorem text_mode_stays_inside_arrays:
  assumes "text_reachable t"
  shows "text_index t < MAX_X * NUM_LINES \<and> video_index t < MAX_X * MAX_Y \<and>
    unat (page_offset t) * MAX_Y * MAX_X + MAX_Y * MAX_X \<le> MAX_X * NUM_LINES \<and>
    display_page (page_offset t) t = t \<lparr> video := (\<lambda>i. if i < MAX_Y * MAX_X
      then (text_buf t (unat (page_offset t) * MAX_Y * MAX_X + i), 0x9) else video t i) \<rparr>"
proof (intro conjI)
  have inv: "text_inv t" by (rule text_reachable_inv [OF assms])
  note b = text_inv_bounds [OF inv]
  show "text_index t < MAX_X * NUM_LINES" "video_index t < MAX_X * MAX_Y"
    "unat (page_offset t) * MAX_Y * MAX_X + MAX_Y * MAX_X \<le> MAX_X * NUM_LINES"
    using b by blast+
  have "(if i < MAX_Y * MAX_X then (shown (page_offset t) t (i div MAX_X) (i mod MAX_X), 0x9 :: u8) else video t i) =
      (if i < MAX_Y * MAX_X then (text_buf t (unat (page_offset t) * MAX_Y * MAX_X + i), 0x9) else video t i)" for i
  proof -
    have "shown (page_offset t) t (i div MAX_X) (i mod MAX_X) = text_buf t (unat (page_offset t) * MAX_Y * MAX_X + i)"
      if "i < MAX_Y * MAX_X"
    proof -
      have "i div MAX_X < MAX_Y" using that by (simp add: less_mult_imp_div_less)
      then have "shown (page_offset t) t (i div MAX_X) (i mod MAX_X) =
          text_buf t ((unat (page_offset t) * MAX_Y + i div MAX_X) * MAX_X + i mod MAX_X)"
        using inv by (intro shown_in_page) (simp_all add: text_inv_def)
      moreover have "(unat (page_offset t) * MAX_Y + i div MAX_X) * MAX_X + i mod MAX_X = unat (page_offset t) * MAX_Y * MAX_X + i"
        by (simp add: algebra_simps)
      ultimately show ?thesis by (simp only:)
    qed
    then show ?thesis by simp
  qed
  then show "display_page (page_offset t) t = t \<lparr> video := (\<lambda>i. if i < MAX_Y * MAX_X
      then (text_buf t (unat (page_offset t) * MAX_Y * MAX_X + i), 0x9) else video t i) \<rparr>"
    unfolding display_page_eq by presburger
qed

definition sample_text :: textmode where
  "sample_text = \<lparr> text_buf = (\<lambda>_. 0), video = (\<lambda>_. (0, 0)), page_offset = 0, write_x = 7, write_y = 3 \<rparr>"

theorem text_mode_stays_inside_arrays_witness:
  "text_index (text_mode_char 0x41 (init_text_mode sample_text)) < MAX_X * NUM_LINES"
  using text_mode_stays_inside_arrays [OF text_reachable.step [OF text_reachable.boot text_step.char]]
  by (simp add: sample_text_def)

end
