(* ===== verification/Keyboard.thy ===== *)
theory Keyboard
  imports Textmode Interrupts
begin

text \<open>
  \<open>arch/x86_64/keyboard/keyboard.c\<close>: scan codes, the shift key and the ring buffer of 256
  characters.  The byte read from the data port is an argument of the handler; the keys 1 and 2
  also turn the pages of the text screen, so the operations carry its state.
\<close>

section \<open>State and operations\<close>

record keyboard =
  key_buffer :: "nat \<Rightarrow> u8"
  next_index :: u32
  last_index :: u32
  buffer_size :: u32
  shiftdown :: bool
  ctrl_mask :: u8

abbreviation BUFFER_SIZE :: nat where "BUFFER_SIZE \<equiv> 256"

definition unshifted_table :: "u8 list" where
  "unshifted_table =
    [0, 0x1B, 0x31, 0x32, 0x33, 0x34, 0x35, 0x36,
     0x37, 0x38, 0x39, 0x30, 0x2D, 0x3D, 0x08, 0x09,
     0x71, 0x77, 0x65, 0x72, 0x74, 0x79, 0x75, 0x69,
     0x6F, 0x70, 0x5B, 0x5D, 0x0A, 0, 0x61, 0x73,
     0x64, 0x66, 0x67, 0x68, 0x6A, 0x6B, 0x6C, 0x3B,
     0x27, 0x60, 0, 0x5C, 0x7A, 0x78, 0x63, 0x76,
     0x62, 0x6E, 0x6D, 0x2C, 0x2E, 0x2F, 0, 0x2A,
     0, 0x20, 0, 0, 0, 0, 0, 0,
     0, 0, 0, 0, 0, 0, 0, 0x37,
     0x38, 0x39, 0x2D, 0x34, 0x35, 0x36, 0x2B, 0x31,
     0x32, 0x33, 0x30, 0x2E, 0, 0, 0, 0] @ replicate 40 0"

definition shifted_table :: "u8 list" where
  "shifted_table =
    [0, 0x1B, 0x21, 0x40, 0x23, 0x24, 0x25, 0x5E,
     0x26, 0x2A, 0x28, 0x29, 0x5F, 0x2B, 0x08, 0x09,
     0x51, 0x57, 0x45, 0x52, 0x54, 0x59, 0x55, 0x49,
     0x4F, 0x50, 0x7B, 0x7D, 0x0A, 0, 0x41, 0x53,
     0x44, 0x46, 0x47, 0x48, 0x4A, 0x4B, 0x4C, 0x3A,
     0x22, 0x7E, 0, 0x7C, 0x5A, 0x58, 0x43, 0x56,
     0x42, 0x4E, 0x4D, 0x3C, 0x3E, 0x3F, 0, 0x2A,
     0, 0x20, 0, 0, 0, 0, 0, 0,
     0, 0, 0, 0, 0, 0, 0, 0x37,
     0x38, 0x39, 0x2D, 0x34, 0x35, 0x36, 0x2B, 0x31,
     0x32, 0x33, 0x30, 0x2E, 0, 0, 0, 0] @ replicate 40 0"

definition scan_code_table :: "bool \<Rightarrow> u8 \<Rightarrow> u8" where
  "scan_code_table shift code = (if shift then shifted_table else unshifted_table) ! unat code"

definition keyboard_char_available :: "keyboard \<Rightarrow> bool" where
  "keyboard_char_available k \<longleftrightarrow> buffer_size k > 0"

definition keyboard_get_char :: "keyboard \<Rightarrow> u8 \<times> keyboard" where
  "keyboard_get_char k =
     (if \<not> keyboard_char_available k then (0, k)
      else
        let val = key_buffer k (unat (last_index k));
            k = k \<lparr> buffer_size := buffer_size k - 1, last_index := last_index k + 1 \<rparr>
        in (val, if unat (last_index k) \<ge> BUFFER_SIZE then k \<lparr> last_index := 0 \<rparr> else k))"

text \<open>Storing a character.\<close>

definition put_key :: "u8 \<Rightarrow> keyboard \<Rightarrow> keyboard" where
  "put_key c k =
     (let k = k \<lparr> key_buffer := (key_buffer k)(unat (next_index k) := c), buffer_size := buffer_size k + 1 \<rparr>;
          k = k \<lparr> next_index := next_index k + 1 \<rparr>
      in if unat (next_index k) \<ge> BUFFER_SIZE
         then
           let k = k \<lparr> next_index := 0 \<rparr>
           in if next_index k = last_index k
              then k \<lparr> last_index := (last_index k + 1) mod of_nat BUFFER_SIZE \<rparr> else k
         else k)"

definition check_scan_code :: "u8 \<Rightarrow> keyboard \<times> textmode \<Rightarrow> keyboard \<times> textmode" where
  "check_scan_code code s =
     (let (k, t) = s
      in if code = 0x2A \<or> code = 0x36 then (k \<lparr> shiftdown := True \<rparr>, t)
         else if code = 0xAA \<or> code = 0xB6 then (k \<lparr> shiftdown := False \<rparr>, t)
         else if code = 0x1D then (k \<lparr> ctrl_mask := 0x1F \<rparr>, t)
         else
           let k = (if code = 0x9D then k \<lparr> ctrl_mask := 0xFF \<rparr> else k)
           in if code AND 0x80 = 0
              then
                let code = scan_code_table (shiftdown k) code
                in if code \<noteq> 0
                   then (put_key code k,
                         if code = 0x31 then page_up t else if code = 0x32 then page_down t else t)
                   else (k, t)
              else (k, t))"

definition keyboard_handler :: "u64 \<Rightarrow> u8 \<Rightarrow> keyboard \<times> textmode \<Rightarrow> cpu \<Rightarrow> (keyboard \<times> textmode) \<times> cpu" where
  "keyboard_handler vector scan_code s c =
     (let s = check_scan_code scan_code s in (s, pic_acknowledge vector c))"

definition keyboard_init :: "cpu \<Rightarrow> cpu" where
  "keyboard_init c = interrupts_install_isr 33 Keyboard_handler c"

text \<open>The static variables before the first key.\<close>

definition keyboard_boot :: keyboard where
  "keyboard_boot = \<lparr> key_buffer = (\<lambda>_. 0), next_index = 0, last_index = 0, buffer_size = 0,
     shiftdown = False, ctrl_mask = 0xFF \<rparr>"

section \<open>What a keyboard promises\<close>

text \<open>
  The specification: a queue of characters and the shift key.  An event is a scan code from the
  device or a read by a process, which takes the oldest character, 0 when there is none.
\<close>

datatype key_event = Scan u8 | Read

definition key_char :: "bool \<Rightarrow> u8 \<Rightarrow> u8 list" where
  "key_char shift code =
     (if code \<in> {0x2A, 0x36, 0x1D} \<or> code \<ge> 0x80 \<or> scan_code_table shift code = 0 then []
      else [scan_code_table shift code])"

fun spec_step :: "key_event \<Rightarrow> bool \<times> u8 list \<Rightarrow> u8 list \<times> bool \<times> u8 list" where
  "spec_step (Scan code) (shift, q) =
     ([], if code \<in> {0x2A, 0x36} then True else if code \<in> {0xAA, 0xB6} then False else shift,
      q @ key_char shift code)"
| "spec_step Read (shift, q) = (case q of [] \<Rightarrow> ([0], shift, []) | c # q \<Rightarrow> ([c], shift, q))"

fun code_step :: "key_event \<Rightarrow> keyboard \<times> textmode \<Rightarrow> u8 list \<times> keyboard \<times> textmode" where
  "code_step (Scan code) s = ([], check_scan_code code s)"
| "code_step Read (k, t) = (case keyboard_get_char k of (c, k) \<Rightarrow> ([c], k, t))"

text \<open>The characters the reads return.\<close>

fun spec_reads :: "key_event list \<Rightarrow> bool \<times> u8 list \<Rightarrow> u8 list" where
  "spec_reads [] s = []"
| "spec_reads (e # es) s = (case spec_step e s of (out, s) \<Rightarrow> out @ spec_reads es s)"

fun code_reads :: "key_event list \<Rightarrow> keyboard \<times> textmode \<Rightarrow> u8 list" where
  "code_reads [] s = []"
| "code_reads (e # es) s = (case code_step e s of (out, s) \<Rightarrow> out @ code_reads es s)"

text \<open>At no moment more than \<open>n\<close> characters wait.\<close>

fun spec_bounded :: "nat \<Rightarrow> key_event list \<Rightarrow> bool \<times> u8 list \<Rightarrow> bool" where
  "spec_bounded n [] s \<longleftrightarrow> length (snd s) \<le> n"
| "spec_bounded n (e # es) s \<longleftrightarrow> length (snd s) \<le> n \<and> spec_bounded n es (snd (spec_step e s))"

section \<open>The ring buffer\<close>

text \<open>The characters the next reads return, and the ring in a regular state.\<close>

definition ring_holds :: "keyboard \<Rightarrow> u8 list \<Rightarrow> bool" where
  "ring_holds k q \<longleftrightarrow> unat (last_index k) < BUFFER_SIZE \<and> unat (buffer_size k) = length q \<and>
     (\<forall>i<length q. key_buffer k ((unat (last_index k) + i) mod BUFFER_SIZE) = q ! i)"

definition ring_inv :: "keyboard \<Rightarrow> u8 list \<Rightarrow> bool" where
  "ring_inv k q \<longleftrightarrow> ring_holds k q \<and> length q < BUFFER_SIZE \<and>
     unat (next_index k) = (unat (last_index k) + length q) mod BUFFER_SIZE"

lemma unat_u32_inc: "unat (x :: u32) \<le> BUFFER_SIZE \<Longrightarrow> unat (x + 1) = Suc (unat x)"
  by (simp add: unat_word_ariths)

lemma mod_Suc_ring: "i < BUFFER_SIZE \<Longrightarrow> (if Suc i \<ge> BUFFER_SIZE then 0 else Suc i) = Suc i mod BUFFER_SIZE"
  by (cases "i = 255") auto

lemma get_char_empty: "ring_holds k [] \<Longrightarrow> keyboard_get_char k = (0, k)"
  by (simp add: ring_holds_def keyboard_get_char_def keyboard_char_available_def unat_eq_zero)

lemma get_char_index:
  assumes "ring_holds k (c # q)"
  shows "fst (keyboard_get_char k) = c"
    and "unat (last_index (snd (keyboard_get_char k))) = Suc (unat (last_index k)) mod BUFFER_SIZE"
    and "unat (buffer_size (snd (keyboard_get_char k))) = length q"
    and "key_buffer (snd (keyboard_get_char k)) = key_buffer k"
    and "next_index (snd (keyboard_get_char k)) = next_index k"
    and "shiftdown (snd (keyboard_get_char k)) = shiftdown k"
proof -
  have l: "unat (last_index k) < BUFFER_SIZE" and s: "unat (buffer_size k) = Suc (length q)"
    and c: "key_buffer k (unat (last_index k)) = c"
    using assms by (auto simp: ring_holds_def)
  have av: "keyboard_char_available k"
    using s by (metis keyboard_char_available_def Zero_not_Suc unat_0 word_neq_0_conv)
  have s1: "unat (buffer_size k - 1) = length q"
    using s by (metis One_nat_def Zero_not_Suc diff_Suc_1 unat_0 unat_minus_one)
  have l1: "unat (last_index k + 1) = Suc (unat (last_index k))" using l by (simp add: unat_u32_inc)
  show "fst (keyboard_get_char k) = c"
    and "unat (last_index (snd (keyboard_get_char k))) = Suc (unat (last_index k)) mod BUFFER_SIZE"
    and "unat (buffer_size (snd (keyboard_get_char k))) = length q"
    and "key_buffer (snd (keyboard_get_char k)) = key_buffer k"
    and "next_index (snd (keyboard_get_char k)) = next_index k"
    and "shiftdown (snd (keyboard_get_char k)) = shiftdown k"
    using av c s1 l1 mod_Suc_ring [OF l] by (auto simp: keyboard_get_char_def Let_def split: if_splits)
qed

lemma get_char_holds:
  assumes "ring_holds k (c # q)"
  shows "ring_holds (snd (keyboard_get_char k)) q"
proof -
  note g = get_char_index [OF assms]
  have "key_buffer k ((Suc (unat (last_index k)) mod BUFFER_SIZE + i) mod BUFFER_SIZE) = q ! i" if "i < length q" for i
  proof -
    have "key_buffer k ((unat (last_index k) + Suc i) mod BUFFER_SIZE) = (c # q) ! Suc i"
      using assms that unfolding ring_holds_def by (metis Suc_less_eq length_Cons)
    then show ?thesis by (simp add: mod_add_left_eq)
  qed
  then show ?thesis by (simp add: ring_holds_def g)
qed

lemma get_char_inv:
  assumes "ring_inv k (c # q)"
  shows "ring_inv (snd (keyboard_get_char k)) q"
proof -
  have h: "ring_holds k (c # q)" using assms by (simp add: ring_inv_def)
  show ?thesis
    using assms get_char_holds [OF h] get_char_index [OF h] by (simp add: ring_inv_def mod_add_left_eq)
qed

lemma put_key_fields [simp]: "shiftdown (put_key c k) = shiftdown k"
  by (simp add: put_key_def Let_def)

lemma put_key_index:
  assumes "unat (next_index k) < BUFFER_SIZE" and "unat (buffer_size k) < BUFFER_SIZE"
  shows "unat (next_index (put_key c k)) = Suc (unat (next_index k)) mod BUFFER_SIZE"
    and "unat (buffer_size (put_key c k)) = Suc (unat (buffer_size k))"
    and "key_buffer (put_key c k) = (key_buffer k)(unat (next_index k) := c)"
    and "last_index (put_key c k) =
      (if unat (next_index k) = 255 \<and> last_index k = 0 then 1 else last_index k)"
proof -
  have n: "unat (next_index k + 1) = Suc (unat (next_index k))" using assms(1) by (simp add: unat_u32_inc)
  have b: "unat (buffer_size k + 1) = Suc (unat (buffer_size k))" using assms(2) by (simp add: unat_u32_inc)
  show "unat (next_index (put_key c k)) = Suc (unat (next_index k)) mod BUFFER_SIZE"
    and "unat (buffer_size (put_key c k)) = Suc (unat (buffer_size k))"
    and "key_buffer (put_key c k) = (key_buffer k)(unat (next_index k) := c)"
    using n b mod_Suc_ring [OF assms(1)] by (auto simp: put_key_def Let_def split: if_splits)
  show "last_index (put_key c k) =
      (if unat (next_index k) = 255 \<and> last_index k = 0 then 1 else last_index k)"
    using n assms(1) by (auto simp: put_key_def Let_def)
qed

lemma ring_distinct: "i < j \<Longrightarrow> j < BUFFER_SIZE \<Longrightarrow> (a + i) mod BUFFER_SIZE \<noteq> (a + j) mod BUFFER_SIZE" for i :: nat
proof
  assume "i < j" "j < BUFFER_SIZE" and e: "(a + i) mod BUFFER_SIZE = (a + j) mod BUFFER_SIZE"
  then have "BUFFER_SIZE dvd (a + j) - (a + i)" using mod_eq_dvd_iff_nat [of "a + i" "a + j" BUFFER_SIZE] by simp
  with \<open>i < j\<close> \<open>j < BUFFER_SIZE\<close> show False by (simp add: nat_dvd_not_less)
qed

lemma put_key_buffer:
  assumes "ring_inv k q" and "i \<le> length q"
  shows "key_buffer (put_key c k) ((unat (last_index k) + i) mod BUFFER_SIZE) = (q @ [c]) ! i"
proof -
  have n: "unat (next_index k) = (unat (last_index k) + length q) mod BUFFER_SIZE" and lq: "length q < BUFFER_SIZE"
    and h: "\<forall>i<length q. key_buffer k ((unat (last_index k) + i) mod BUFFER_SIZE) = q ! i"
    and s: "unat (buffer_size k) = length q"
    using assms(1) by (auto simp: ring_inv_def ring_holds_def)
  have kb: "key_buffer (put_key c k) = (key_buffer k)(unat (next_index k) := c)"
    using n lq s by (intro put_key_index(3)) simp_all
  show ?thesis
  proof (cases "i = length q")
    case True
    then show ?thesis by (simp add: kb n)
  next
    case False
    with assms(2) have i: "i < length q" by simp
    have "(unat (last_index k) + i) mod BUFFER_SIZE \<noteq> (unat (last_index k) + length q) mod BUFFER_SIZE"
      using ring_distinct [OF i lq] .
    then show ?thesis using h i by (simp add: kb n nth_append)
  qed
qed

lemma put_key_inv:
  assumes inv: "ring_inv k q" and room: "Suc (length q) < BUFFER_SIZE"
  shows "ring_inv (put_key c k) (q @ [c])"
proof -
  have n: "unat (next_index k) = (unat (last_index k) + length q) mod BUFFER_SIZE"
    and s: "unat (buffer_size k) = length q" and l: "unat (last_index k) < BUFFER_SIZE"
    using inv by (auto simp: ring_inv_def ring_holds_def)
  have "\<not> (unat (next_index k) = 255 \<and> last_index k = 0)" using n room by auto
  then have l': "last_index (put_key c k) = last_index k"
    using n s room by (subst put_key_index(4)) auto
  have n': "unat (next_index (put_key c k)) = Suc (unat (next_index k)) mod BUFFER_SIZE"
    and s': "unat (buffer_size (put_key c k)) = Suc (length q)"
    using n s room by (simp_all add: put_key_index)
  show ?thesis
    using room l put_key_buffer [OF inv, of _ c] by (simp add: ring_inv_def ring_holds_def l' s' n' n mod_Suc_eq less_Suc_eq_le)
qed

text \<open>The key that fills the ring while the oldest character is at index 0.\<close>

lemma put_key_overrun:
  assumes inv: "ring_inv k q" and full: "Suc (length q) = BUFFER_SIZE" and zero: "last_index k = 0"
  shows "ring_holds (put_key c k) (tl (q @ [c]) @ [hd (q @ [c])])"
proof -
  let ?q = "q @ [c]"
  have n: "unat (next_index k) = length q" and s: "unat (buffer_size k) = length q"
    using inv zero by (auto simp: ring_inv_def ring_holds_def)
  have l': "last_index (put_key c k) = 1" using n s full zero by (subst put_key_index(4)) auto
  have s': "unat (buffer_size (put_key c k)) = BUFFER_SIZE" using n s full by (simp add: put_key_index)
  have b: "key_buffer (put_key c k) i = ?q ! i" if "i < BUFFER_SIZE" for i
    using put_key_buffer [OF inv, of i c] that full zero by simp
  have "key_buffer (put_key c k) (Suc i mod BUFFER_SIZE) = (tl ?q @ [hd ?q]) ! i" if "i < BUFFER_SIZE" for i
  proof (cases "i = 255")
    case True
    moreover from full have "q \<noteq> []" by auto
    ultimately show ?thesis using b [of 0] full by (simp add: nth_append hd_conv_nth)
  next
    case False
    then show ?thesis using b [of "Suc i"] that full by (simp add: nth_append nth_tl)
  qed
  then show ?thesis using full by (simp add: ring_holds_def l' s')
qed

section \<open>The code and the specification\<close>

lemma shift_codes:
  "code = 0x2A \<or> code = 0x36 \<or> code = 0xAA \<or> code = 0xB6 \<or> code = 0x1D \<or>
   (code :: u8) \<notin> {0x2A, 0x36, 0xAA, 0xB6, 0x1D}"
  by auto

lemma high_bit: "(code AND 0x80 = 0) = (code < (0x80 :: u8))"
proof -
  have "(0x80 :: u8) = NOT (mask 7)" by (simp add: mask_eq_exp_minus_1)
  then have "unat (code AND 0x80) = unat code - unat code mod 2 ^ 7" by (simp only: unat_and_not_mask)
  then show ?thesis by (simp add: word_less_nat_alt flip: unat_eq_zero) auto
qed

text \<open>The state of the code stands for a state of the specification.\<close>

definition key_sim :: "keyboard \<times> textmode \<Rightarrow> bool \<times> u8 list \<Rightarrow> bool" where
  "key_sim s a \<longleftrightarrow> shiftdown (fst s) = fst a \<and> ring_inv (fst s) (snd a)"

lemma ring_inv_cong:
  "key_buffer k' = key_buffer k \<Longrightarrow> next_index k' = next_index k \<Longrightarrow> last_index k' = last_index k \<Longrightarrow>
   buffer_size k' = buffer_size k \<Longrightarrow> ring_inv k' q = ring_inv k q"
  by (simp add: ring_inv_def ring_holds_def)

text \<open>What a scan code does to the ring and the shift key.\<close>

lemma check_scan_code_keyboard:
  obtains k' where "fst (check_scan_code code (k, t)) = fold put_key (key_char (shiftdown k) code) k'"
    and "shiftdown k' = (if code \<in> {0x2A, 0x36} then True else if code \<in> {0xAA, 0xB6} then False else shiftdown k)"
    and "key_buffer k' = key_buffer k" and "next_index k' = next_index k" and "last_index k' = last_index k"
    and "buffer_size k' = buffer_size k"
proof -
  define k' where "k' =
    (if code = 0x2A \<or> code = 0x36 then k \<lparr> shiftdown := True \<rparr>
     else if code = 0xAA \<or> code = 0xB6 then k \<lparr> shiftdown := False \<rparr>
     else if code = 0x1D then k \<lparr> ctrl_mask := 0x1F \<rparr>
     else if code = 0x9D then k \<lparr> ctrl_mask := 0xFF \<rparr> else k)"
  have "fst (check_scan_code code (k, t)) = fold put_key (key_char (shiftdown k) code) k'"
    by (auto simp: check_scan_code_def k'_def key_char_def high_bit Let_def)
  then show thesis
    by (rule that) (simp_all add: k'_def)
qed

lemma key_sim_step:
  assumes sim: "key_sim s a" and room: "length (snd (snd (spec_step e a))) < BUFFER_SIZE"
  shows "fst (code_step e s) = fst (spec_step e a)" and "key_sim (snd (code_step e s)) (snd (spec_step e a))"
proof -
  obtain k t where s: "s = (k, t)" by (cases s)
  obtain shift q where a: "a = (shift, q)" by (cases a)
  have sh: "shiftdown k = shift" and inv: "ring_inv k q" using sim by (simp_all add: key_sim_def s a)
  have "fst (code_step e s) = fst (spec_step e a) \<and> key_sim (snd (code_step e s)) (snd (spec_step e a))"
  proof (cases e)
    case (Scan code)
    obtain k' where k': "fst (check_scan_code code (k, t)) = fold put_key (key_char (shiftdown k) code) k'"
      and sh': "shiftdown k' = (if code \<in> {0x2A, 0x36} then True else if code \<in> {0xAA, 0xB6} then False else shiftdown k)"
      and eq: "key_buffer k' = key_buffer k" "next_index k' = next_index k" "last_index k' = last_index k"
        "buffer_size k' = buffer_size k"
      by (rule check_scan_code_keyboard [of code k t])
    have inv': "ring_inv k' q" using inv ring_inv_cong [OF eq] by simp
    have "ring_inv (fold put_key (key_char shift code) k') (q @ key_char shift code) \<and>
        shiftdown (fold put_key (key_char shift code) k') = shiftdown k'"
    proof (cases "key_char shift code = []")
      case True
      then show ?thesis using inv' by simp
    next
      case False
      then obtain c where c: "key_char shift code = [c]" by (auto simp: key_char_def split: if_splits)
      with room have "Suc (length q) < BUFFER_SIZE" by (simp add: Scan a)
      with put_key_inv [OF inv'] show ?thesis by (simp add: c)
    qed
    then show ?thesis using k' sh sh' by (simp add: Scan s a key_sim_def)
  next
    case Read
    show ?thesis
    proof (cases q)
      case Nil
      then show ?thesis using get_char_empty [of k] inv sh by (simp add: Read s a key_sim_def ring_inv_def)
    next
      case (Cons c q')
      then have h: "ring_holds k (c # q')" and i: "ring_inv k (c # q')" using inv by (simp_all add: ring_inv_def)
      show ?thesis
        using get_char_index [OF h] get_char_inv [OF i] sh
        by (simp add: Read s a Cons key_sim_def split_beta)
    qed
  qed
  then show "fst (code_step e s) = fst (spec_step e a)" and "key_sim (snd (code_step e s)) (snd (spec_step e a))"
    by blast+
qed

lemma code_reads_spec:
  "key_sim s a \<Longrightarrow> spec_bounded 255 es a \<Longrightarrow> code_reads es s = spec_reads es a"
proof (induction es arbitrary: s a)
  case Nil
  then show ?case by simp
next
  case (Cons e es)
  have b: "spec_bounded 255 es (snd (spec_step e a))" using Cons.prems(2) by simp
  have "length (snd (snd (spec_step e a))) \<le> 255" using b by (cases es) simp_all
  then have room: "length (snd (snd (spec_step e a))) < BUFFER_SIZE" by simp
  note st = key_sim_step [OF Cons.prems(1) room]
  show ?case using Cons.IH [OF st(2) b] st(1) by (simp add: split_beta)
qed

lemma boot_sim: "key_sim (keyboard_boot, t) (False, [])"
  by (simp add: key_sim_def keyboard_boot_def ring_inv_def ring_holds_def)

section \<open>A full ring\<close>

lemma reads_ring: "ring_holds k q \<Longrightarrow> code_reads (replicate (length q) Read) (k, t) = q"
proof (induction q arbitrary: k)
  case Nil
  then show ?case by simp
next
  case (Cons c q)
  then show ?case
    using get_char_index(1) [OF Cons.prems] Cons.IH [OF get_char_holds [OF Cons.prems]] by (simp add: split_beta)
qed

lemma code_reads_scans:
  "code_reads (map Scan codes @ es) s = code_reads es (fold check_scan_code codes s)"
  by (induction codes arbitrary: s) simp_all

definition typed :: "u8 list \<Rightarrow> u8 list" where
  "typed codes = concat (map (key_char False) codes)"

definition prints :: "u8 \<Rightarrow> bool" where
  "prints code \<longleftrightarrow> key_char False code \<noteq> []"

lemma printsE:
  assumes "prints code"
  obtains c where "key_char False code = [c]" and "code \<notin> {0x2A, 0x36, 0xAA, 0xB6}"
  using assms by (cases "code = 0xAA"; cases "code = 0xB6") (auto simp: prints_def key_char_def split: if_splits)

lemma typed_snoc: "typed (codes @ [code]) = typed codes @ key_char False code"
  by (simp add: typed_def)

lemma length_typed: "list_all prints codes \<Longrightarrow> length (typed codes) = length codes"
  by (induction codes) (auto simp: typed_def elim!: printsE)

text \<open>One printing key: the character is stored, the shift key stays.\<close>

lemma check_printing:
  assumes "prints code" and "\<not> shiftdown k" and "key_char False code = [c]"
  shows "\<exists>k'. fst (check_scan_code code (k, t)) = put_key c k' \<and> \<not> shiftdown k' \<and> last_index k' = last_index k \<and>
    (\<forall>q. ring_inv k' q = ring_inv k q)"
proof -
  obtain k' where k': "fst (check_scan_code code (k, t)) = fold put_key (key_char (shiftdown k) code) k'"
    "shiftdown k' = (if code \<in> {0x2A, 0x36} then True else if code \<in> {0xAA, 0xB6} then False else shiftdown k)"
    and eq: "key_buffer k' = key_buffer k" "next_index k' = next_index k" "last_index k' = last_index k"
      "buffer_size k' = buffer_size k"
    by (rule check_scan_code_keyboard [of code k t])
  from assms(1) have "code \<notin> {0x2A, 0x36, 0xAA, 0xB6}" by (auto elim: printsE)
  then show ?thesis using k' assms ring_inv_cong [OF eq] eq(3) by (intro exI [of _ k']) simp
qed

lemma put_key_last:
  assumes "ring_inv k q" and "Suc (length q) < BUFFER_SIZE" and "last_index k = 0"
  shows "last_index (put_key c k) = 0"
proof -
  have "unat (next_index k) = length q" and "unat (buffer_size k) = length q"
    using assms by (auto simp: ring_inv_def ring_holds_def)
  then show ?thesis using assms by (subst put_key_index(4)) auto
qed

lemma type_keys:
  assumes "list_all prints codes" and "length codes < BUFFER_SIZE"
  shows "let k = fst (fold check_scan_code codes (keyboard_boot, t))
    in ring_inv k (typed codes) \<and> last_index k = 0 \<and> \<not> shiftdown k"
  using assms
proof (induction codes rule: rev_induct)
  case Nil
  then show ?case by (simp add: typed_def keyboard_boot_def ring_inv_def ring_holds_def)
next
  case (snoc code codes)
  obtain k u where s: "fold check_scan_code codes (keyboard_boot, t) = (k, u)" by fastforce
  have k: "ring_inv k (typed codes)" "last_index k = 0" "\<not> shiftdown k"
    using snoc by (simp_all add: s)
  obtain c where c: "key_char False code = [c]" using snoc.prems(1) by (auto elim: printsE)
  obtain k' where k': "fst (check_scan_code code (k, u)) = put_key c k'" "\<not> shiftdown k'"
    "last_index k' = last_index k" "\<forall>q. ring_inv k' q = ring_inv k q"
    using check_printing [OF _ k(3) c, of u] snoc.prems(1) by auto
  have room: "Suc (length (typed codes)) < BUFFER_SIZE"
    using snoc.prems by (simp add: length_typed)
  have inv': "ring_inv k' (typed codes)" using k(1) k'(4) by simp
  have "ring_inv (put_key c k') (typed codes @ [c])" by (rule put_key_inv [OF inv' room])
  moreover have "last_index (put_key c k') = 0"
    using put_key_last [OF inv' room] k(2) k'(3) by simp
  ultimately show ?case using k'(1,2) by (simp add: s typed_snoc c)
qed

section \<open>Properties\<close>

text \<open>C12. From the boot on, the reads of any sequence of key events return what the queue
  of the specification returns: every key in its order, with the shift key applied, and 0 when there
  is none; as long as never more than 255 characters wait.\<close>

theorem keyboard_refines_queue:
  assumes "spec_bounded 255 es (False, [])"
  shows "code_reads es (keyboard_boot, t) = spec_reads es (False, [])"
  by (rule code_reads_spec [OF boot_sim assms])

text \<open>Shift down, the key A, shift up, the key A, three reads.\<close>

definition sample_keys :: "key_event list" where
  "sample_keys = [Scan 0x2A, Scan 0x1E, Scan 0xAA, Scan 0x1E, Read, Read, Read]"

theorem keyboard_refines_queue_witness:
  "code_reads sample_keys (keyboard_boot, sample_text) = [0x41, 0x61, 0]"
proof -
  have "spec_bounded 255 sample_keys (False, [])" and r: "spec_reads sample_keys (False, []) = [0x41, 0x61, 0]"
    by (simp_all add: sample_keys_def key_char_def scan_code_table_def shifted_table_def unshifted_table_def)
  then show ?thesis using keyboard_refines_queue [of sample_keys sample_text] by simp
qed

text \<open>The ring counts 256 characters when only 255 can be told apart: after 256 keys without
  a read the start of the ring has moved past the oldest character, which is then delivered last
  instead of first.\<close>

lemma keyboard_full_ring_reorders:
  assumes "list_all prints codes" and "length codes = BUFFER_SIZE"
  shows "code_reads (map Scan codes @ replicate BUFFER_SIZE Read) (keyboard_boot, t) =
    tl (typed codes) @ [hd (typed codes)]"
proof -
  obtain first_codes code where codes: "codes = first_codes @ [code]"
    using assms(2) by (cases codes rule: rev_exhaust) auto
  obtain k u where s: "fold check_scan_code first_codes (keyboard_boot, t) = (k, u)" by fastforce
  have k: "ring_inv k (typed first_codes)" "last_index k = 0" "\<not> shiftdown k"
    using type_keys [of first_codes t] assms by (simp_all add: s codes)
  obtain c where c: "key_char False code = [c]" using assms(1) by (auto simp: codes elim: printsE)
  obtain k' where k': "fst (check_scan_code code (k, u)) = put_key c k'" "last_index k' = last_index k"
    "\<forall>q. ring_inv k' q = ring_inv k q"
    using check_printing [OF _ k(3) c, of u] assms(1) by (auto simp: codes)
  have len: "Suc (length (typed first_codes)) = BUFFER_SIZE"
    using assms by (simp add: codes length_typed)
  have t: "typed codes = typed first_codes @ [c]" by (simp add: codes typed_snoc c)
  have "ring_holds (put_key c k') (tl (typed codes) @ [hd (typed codes)])"
    unfolding t using k k' len by (intro put_key_overrun) simp_all
  from reads_ring [OF this] have "code_reads (replicate BUFFER_SIZE Read) (put_key c k', w) =
      tl (typed codes) @ [hd (typed codes)]" for w
    using len by (simp add: t)
  moreover have "fold check_scan_code codes (keyboard_boot, t) = (put_key c k', snd (check_scan_code code (k, u)))"
    using k'(1) by (simp add: codes s prod_eq_iff)
  ultimately show ?thesis unfolding code_reads_scans by simp
qed

text \<open>The key A and then 255 times the key S.\<close>

definition many_keys :: "u8 list" where
  "many_keys = 0x1E # replicate 255 0x1F"

lemma keyboard_full_ring_reorders_witness:
  "code_reads (map Scan many_keys @ replicate BUFFER_SIZE Read) (keyboard_boot, sample_text) =
    tl (typed many_keys) @ [0x61]"
proof -
  have "key_char False 0x1E = [0x61]" and "key_char False 0x1F = [0x73]"
    by (simp_all add: key_char_def scan_code_table_def unshifted_table_def)
  then have "list_all prints many_keys" and "hd (typed many_keys) = 0x61"
    by (simp_all add: many_keys_def prints_def typed_def list_all_iff)
  then show ?thesis
    using keyboard_full_ring_reorders [of many_keys sample_text] by (simp add: many_keys_def)
qed

end
