(* ===== verification/Syscalls.thy ===== *)
theory Syscalls
  imports Scheduler Elf Keyboard
begin

text \<open>
  \<open>kernel/syscalls/syscalls.c\<close>, \<open>kernel/syscalls/types.h\<close>, \<open>create_init_process\<close> of
  \<open>scheduler.c\<close>, and the initialisation and the handlers of \<open>interrupts.c\<close> and \<open>apic.c\<close> that
  work on the whole kernel.  The registers a process had at its system call are the fields of
  the \<open>Context\<close> at \<open>pcb->context\<close>, an address of the process's own address space.  \<open>count\<close> is
  the timer's current count where \<open>dispatch\<close> reads it; \<open>kprintf\<close> is compiled out of
  \<open>syscalls.c\<close>.
\<close>

section \<open>The context of a process\<close>

datatype reg =
    RDI | RSI | RDX | RCX | RBX | RAX | RBP | R8 | R9 | R10 | R11 | R12 | R13 | R14 | R15
  | VECTOR | ERROR_CODE | RIP | CS | RFLAGS | RSP | SS

primrec reg_offset :: "reg \<Rightarrow> u64" where
  "reg_offset RDI = 0" | "reg_offset RSI = 8" | "reg_offset RDX = 16" | "reg_offset RCX = 24"
| "reg_offset RBX = 32" | "reg_offset RAX = 40" | "reg_offset RBP = 48" | "reg_offset R8 = 56"
| "reg_offset R9 = 64" | "reg_offset R10 = 72" | "reg_offset R11 = 80" | "reg_offset R12 = 88"
| "reg_offset R13 = 96" | "reg_offset R14 = 104" | "reg_offset R15 = 112" | "reg_offset VECTOR = 120"
| "reg_offset ERROR_CODE = 128" | "reg_offset RIP = 136" | "reg_offset CS = 144" | "reg_offset RFLAGS = 152"
| "reg_offset RSP = 160" | "reg_offset SS = 168"

definition get_reg :: "reg \<Rightarrow> addr \<Rightarrow> kernel \<Rightarrow> u64 res" where
  "get_reg r pcb s = user_read s (pcb_context s pcb + reg_offset r)"

definition set_reg :: "reg \<Rightarrow> u64 \<Rightarrow> addr \<Rightarrow> kernel \<Rightarrow> kernel res" where
  "set_reg r v pcb s = user_write (pcb_context s pcb + reg_offset r) v s"

datatype Status = SUCCESS | FAILURE | BAD_PARAM | FEATURE_UNIMPLEMENTED

primrec status_code :: "Status \<Rightarrow> u64" where
  "status_code SUCCESS = 0" | "status_code FAILURE = 1" | "status_code BAD_PARAM = 2"
| "status_code FEATURE_UNIMPLEMENTED = 3"

section \<open>The system calls\<close>

datatype syscall = Fork | Exec | Exit | MSleep | Set_priority | Key_avail | Get_key

abbreviation NUM_SYSCALLS :: u64 where "NUM_SYSCALLS \<equiv> 7"
abbreviation SYSCALL_EXIT :: u64 where "SYSCALL_EXIT \<equiv> 2"
abbreviation SYSCALL_INT_VEC :: u64 where "SYSCALL_INT_VEC \<equiv> 0x80"

text \<open>The copy of a PCB: its two cells and its narrow fields.\<close>

definition copy_pcb :: "addr \<Rightarrow> addr \<Rightarrow> kernel \<Rightarrow> kernel" where
  "copy_pcb dst src s =
     (let m = kmem s in set_pcb dst (pcbs s src) (set_kmem (m(dst := m src, dst + 8 := m (src + 8))) s))"

definition fork :: "u32 \<Rightarrow> addr \<Rightarrow> kernel \<Rightarrow> kernel res" where
  "fork count pcb s =
     and_then (alloc_pcb s) (\<lambda>(new_pcb, s).
     if new_pcb = 0 then set_reg RAX (status_code FAILURE) pcb s
     else
       let s = copy_pcb new_pcb pcb s
       in and_then (virt_clone_mapping (ph s) (pcb_page_table s pcb)) (\<lambda>(new_page_table, st).
          let s = s \<lparr> ph := st \<rparr>;
              s = set_kmem ((kmem s)(new_pcb + 8 := new_page_table)) s
          in case virt_lookup_phys (kmem s) new_page_table (pcb_context s pcb) of
               None \<Rightarrow> Inl (Panic ''Fork: failed to lookup context location, very bad!'')
             | Some new_context_addr \<Rightarrow>
                 (let new_context = PHYS_TO_VIRT new_context_addr;
                      s = set_kmem ((kmem s)(new_pcb := pcb_context s pcb)) s
                  in and_then (set_reg RAX (status_code SUCCESS) pcb s) (\<lambda>s.
                     and_then (get_reg RDI pcb s) (\<lambda>param.
                     and_then (user_write param 0 s) (\<lambda>s.
                     let s = set_kmem ((kmem s)(new_context + reg_offset RAX := status_code SUCCESS)) s
                     in case virt_lookup_phys (kmem s) new_page_table (kmem s (new_context + reg_offset RDI)) of
                          None \<Rightarrow> Inl (Panic ''Fork: failed to lookup parameter location!'')
                        | Some pid_param_location \<Rightarrow>
                            (let s = set_kmem ((kmem s)(PHYS_TO_VIRT pid_param_location := 1)) s
                             in and_then (schedule new_pcb s) (\<lambda>s. dispatch count s))))))))"

definition exec :: "addr \<Rightarrow> kernel \<Rightarrow> kernel res" where
  "exec pcb s = Inr s"

definition exit :: "u32 \<Rightarrow> addr \<Rightarrow> kernel \<Rightarrow> kernel res" where
  "exit count pcb s = and_then (cleanup_pcb pcb s) (\<lambda>s. dispatch count s)"

definition msleep :: "u32 \<Rightarrow> addr \<Rightarrow> kernel \<Rightarrow> kernel res" where
  "msleep count pcb s =
     and_then (get_reg RDI pcb s) (\<lambda>v. let sleep_time = ucast v in sleep_pcb count pcb sleep_time s)"

definition set_priority :: "addr \<Rightarrow> kernel \<Rightarrow> kernel res" where
  "set_priority pcb s =
     and_then (get_reg RDI pcb s) (\<lambda>v.
       kassert ''syscalls.c'' 159 (v \<le> of_nat (priority_index IDLE))
         (Inr (set_pcb pcb ((pcbs s pcb) \<lparr> priority := [HIGH, NORMAL, LOW, IDLE] ! unat v \<rparr>) s)))"

definition key_avail :: "addr \<Rightarrow> kernel \<times> keyboard \<Rightarrow> (kernel \<times> keyboard) res" where
  "key_avail pcb = (\<lambda>(s, k).
     and_then (set_reg RAX (if keyboard_char_available k then 1 else 0) pcb s) (\<lambda>s. Inr (s, k)))"

definition get_key :: "addr \<Rightarrow> kernel \<times> keyboard \<Rightarrow> (kernel \<times> keyboard) res" where
  "get_key pcb = (\<lambda>(s, k). let (c, k) = keyboard_get_char k
     in and_then (set_reg RAX (ucast c) pcb s) (\<lambda>s. Inr (s, k)))"

text \<open>The table of the calls, and a call through it.\<close>

definition syscalls_init :: "(u64 \<Rightarrow> syscall) \<Rightarrow> cpu \<Rightarrow> (u64 \<Rightarrow> syscall) \<times> cpu" where
  "syscalls_init syscall_functions c =
     (syscall_functions(0 := Fork, 1 := Exec, SYSCALL_EXIT := Exit, 3 := MSleep, 4 := Set_priority,
        5 := Key_avail, 6 := Get_key),
      interrupts_install_isr SYSCALL_INT_VEC Syscall_interrupt c)"

definition call_handler :: "syscall \<Rightarrow> u32 \<Rightarrow> addr \<Rightarrow> kernel \<times> keyboard \<Rightarrow> (kernel \<times> keyboard) res" where
  "call_handler f count pcb = (\<lambda>(s, k).
     let lift = (\<lambda>r. and_then r (\<lambda>s. Inr (s, k)))
     in case f of
          Fork \<Rightarrow> lift (fork count pcb s)
        | Exec \<Rightarrow> lift (exec pcb s)
        | Exit \<Rightarrow> lift (exit count pcb s)
        | MSleep \<Rightarrow> lift (msleep count pcb s)
        | Set_priority \<Rightarrow> lift (set_priority pcb s)
        | Key_avail \<Rightarrow> key_avail pcb (s, k)
        | Get_key \<Rightarrow> get_key pcb (s, k))"

definition syscall_interrupt ::
  "(u64 \<Rightarrow> syscall) \<Rightarrow> u32 \<Rightarrow> u64 \<Rightarrow> kernel \<times> keyboard \<Rightarrow> (kernel \<times> keyboard) res" where
  "syscall_interrupt syscall_functions count vector = (\<lambda>(s, k).
     let s = s \<lparr> kcpu := timer_stop (kcpu s) \<rparr>
     in if current_pcb s = 0 then Inl (Panic ''SYSCALL: Current PCB is NULL!'')
        else
          and_then (get_reg R10 (current_pcb s) s) (\<lambda>syscall_num.
          and_then
            (if syscall_num \<ge> NUM_SYSCALLS
             then call_handler (syscall_functions SYSCALL_EXIT) count (current_pcb s) (s, k)
             else call_handler (syscall_functions syscall_num) count (current_pcb s) (s, k))
            (\<lambda>(s, k). Inr (s \<lparr> kcpu := pic_acknowledge vector (kcpu s) \<rparr>, k))))"

section \<open>The first process\<close>

text \<open>\<open>init_location\<close> is the address of the program behind the kernel, \<open>slot\<close> the stack slot of
  the loader's local variable; the final jump to \<open>isr_restore\<close> starts the process.\<close>

definition create_init_process :: "addr \<Rightarrow> addr \<Rightarrow> kernel \<Rightarrow> kernel res" where
  "create_init_process init_location slot s =
     and_then (alloc_pcb s) (\<lambda>(pcb, s).
       let s = s \<lparr> current_pcb := pcb \<rparr>
       in and_then (virt_clone_mapping (ph s) (kernel_table s)) (\<lambda>(new_page_table, st).
          let s = s \<lparr> ph := st \<rparr>;
              s = set_kmem ((kmem s)(pcb + 8 := new_page_table)) s;
              s = set_pcb pcb ((pcbs s pcb) \<lparr> state := READY \<rparr>) s;
              s = virt_switch_page_table new_page_table s
          in and_then (elf_create_process (kernel_table s) slot pcb init_location new_page_table (ph s))
               (\<lambda>(elf_error, st).
                let s = s \<lparr> ph := st \<rparr>
                in if elf_error \<noteq> ELF_NO_ERROR then Inl (Panic ''Failed to load init process!'')
                   else
                     let s = s \<lparr> one_ms := timer_one_ms (kcpu s) \<rparr>;
                         s = s \<lparr> ten_ms := one_ms s * 10 \<rparr>;
                         s = s \<lparr> quantum_left := 10, prev_ticks := 10 \<rparr>;
                         c = timer_start (timer_set_delay (quantum_left s * one_ms s) (kcpu s));
                         c = tss_set_context_stack (CONTEXT_STACK_LOCATION + CONTEXT_STACK_SIZE) c
                     in Inr (s \<lparr> kcpu := c \<rparr>))))"

text \<open>\<open>interrupts_init\<close>: \<open>init_pcb\<close> is the address of the dummy PCB.\<close>

definition interrupts_init ::
  "addr \<Rightarrow> u64 \<Rightarrow> (u64 \<Rightarrow> u64) \<Rightarrow> u32 \<Rightarrow> (nat \<Rightarrow> u8) \<Rightarrow> u32 \<Rightarrow> kernel \<Rightarrow> kernel res" where
  "interrupts_init init_pcb kernel_TSS_address isr_stub_table edx speaker count s =
     (let s = set_kmem ((kmem s)(init_pcb := 0, init_pcb + 8 := 0)) s;
          s = set_pcb init_pcb \<lparr> sleep_time = 0, pid = 0, ppid = 0, state = READY, priority = HIGH \<rparr> s;
          s = set_kmem ((kmem s)(init_pcb + 8 := kernel_table s)) s;
          s = s \<lparr> current_pcb := init_pcb \<rparr>;
          c = setup_tss_descriptor kernel_TSS_address (kcpu s)
      in and_then (fill_idt isr_stub_table c) (\<lambda>c.
         and_then (apic_init (kernel_table s) edx speaker count (ph s) c) (\<lambda>(st, c).
         Inr (s \<lparr> ph := st, kcpu := c \<rparr>))))"

section \<open>Handlers\<close>

text \<open>The handler of the timer: the interrupt is acknowledged after the switch.\<close>

definition timer_handler :: "u32 \<Rightarrow> kernel \<Rightarrow> kernel res" where
  "timer_handler count s =
     and_then (timer_interrupt count s) (\<lambda>s. Inr (s \<lparr> kcpu := apic_eoi (kcpu s) \<rparr>))"

definition serial_handler :: "u64 \<Rightarrow> kernel \<Rightarrow> kernel" where
  "serial_handler vector s = s"

text \<open>Interrupts are off in a handler, so its \<open>hlt\<close> is never left.\<close>

definition spurious_handler :: "u64 \<Rightarrow> kernel \<Rightarrow> kernel res" where
  "spurious_handler vector s = Inl Hang"

text \<open>What the default handler does apart from its output.\<close>

definition default_handler :: "u64 \<Rightarrow> kernel \<Rightarrow> kernel res" where
  "default_handler vector s =
     and_then (get_reg RIP (current_pcb s) s) (\<lambda>_.
       if vector = 14 then Inl (Panic ''Page Fault'')
       else if vector = 13 then Inl (Panic ''GPF!'')
       else Inr (s \<lparr> kcpu := pic_acknowledge vector (kcpu s) \<rparr>))"

section \<open>Reading and writing the context\<close>

lemma user_write_fields:
  assumes "user_write va v s = Inr s'"
  shows "kcpu s' = kcpu s" and "current_pcb s' = current_pcb s" and "pcbs s' = pcbs s"
  using assms by (auto simp: user_write_def)

lemma get_reg_kcpu [simp]: "get_reg r pcb (s \<lparr> kcpu := timer_stop c \<rparr>) = get_reg r pcb (s \<lparr> kcpu := c \<rparr>)"
  by (simp add: get_reg_def user_read_def user_cell_def pcb_context_def kmem_def timer_stop_def set_lapic_def)

text \<open>The table that \<open>syscalls_init\<close> fills.\<close>

definition syscall_table :: "u64 \<Rightarrow> syscall" where
  "syscall_table = fst (syscalls_init (\<lambda>_. Exit) reset_cpu)"

lemma syscall_table_simps:
  "syscall_table 0 = Fork" "syscall_table 1 = Exec" "syscall_table SYSCALL_EXIT = Exit"
  "syscall_table 3 = MSleep" "syscall_table 4 = Set_priority" "syscall_table 5 = Key_avail"
  "syscall_table 6 = Get_key"
  by (simp_all add: syscall_table_def syscalls_init_def)

lemma syscall_interrupt_eq:
  assumes "get_reg R10 (current_pcb s) s = Inr n" and "current_pcb s \<noteq> 0" and "n < NUM_SYSCALLS"
  shows "syscall_interrupt f count vector (s, k) =
    and_then (call_handler (f n) count (current_pcb s) (s \<lparr> kcpu := timer_stop (kcpu s) \<rparr>, k))
      (\<lambda>(s, k). Inr (s \<lparr> kcpu := pic_acknowledge vector (kcpu s) \<rparr>, k))"
  using assms by (auto simp: syscall_interrupt_def Let_def dest: leD)

lemma kcpu_update_same [simp]: "s \<lparr> kcpu := kcpu s \<rparr> = (s :: kernel)"
  by simp

lemma acknowledge_syscall: "pic_acknowledge SYSCALL_INT_VEC c = c"
  by (simp add: pic_acknowledge_def)

text \<open>The calls that neither block nor end the process keep the processor as it is.\<close>

lemma call_keeps_cpu:
  assumes "call_handler f count pcb (s, k) = Inr (s', k')" and "f \<in> {Exec, Set_priority, Key_avail, Get_key}"
  shows "kcpu s' = kcpu s" and "current_pcb s' = current_pcb s"
proof -
  have "kcpu s' = kcpu s \<and> current_pcb s' = current_pcb s"
  proof (cases f)
    case Exec then show ?thesis using assms by (auto simp: call_handler_def exec_def)
  next
    case Set_priority then show ?thesis using assms by (auto simp: call_handler_def set_priority_def)
  next
    case Key_avail
    then show ?thesis using assms user_write_fields by (auto simp: call_handler_def key_avail_def set_reg_def)
  next
    case Get_key
    then show ?thesis using assms user_write_fields
      by (auto simp: call_handler_def get_key_def set_reg_def split: prod.splits)
  qed (use assms in simp_all)
  then show "kcpu s' = kcpu s" and "current_pcb s' = current_pcb s" by blast+
qed

text \<open>The quantum after the time since the last dispatch is charged, and what \<open>dispatch\<close> does once
  the running process is dealt with.\<close>

definition quantum_after :: "kernel \<Rightarrow> u32 \<Rightarrow> u32" where
  "quantum_after s count =
     (if span_of s count > quantum_left s then 0 else quantum_left s - span_of s count)"

definition after_retire :: "u32 \<Rightarrow> kernel \<Rightarrow> kernel res" where
  "after_retire tick_span s =
     (let s = s \<lparr> prev_ticks := quantum_left s \<rparr>
      in and_then (get_next_sleep tick_span s) (\<lambda>(next_wakeup, s).
         let s = (if next_wakeup > 0 \<and> next_wakeup < quantum_left s
                  then s \<lparr> prev_ticks := next_wakeup \<rparr> else s)
         in if current_pcb s \<noteq> 0
            then kassert ''scheduler.c'' 287 (quantum_left s \<noteq> 0) (Inr (start_timer s))
            else kassert ''scheduler.c'' 294 (prev_ticks s > 0) (pick_next [0..<NUM_QUEUES] s)))"

lemma dispatch_eq:
  assumes "count \<le> timer_delay (kcpu s)" and "one_ms s \<noteq> 0"
  shows "dispatch count s =
    and_then (retire_current (s \<lparr> quantum_left := quantum_after s count \<rparr>)) (after_retire (span_of s count))"
proof -
  have t: "timer_get_elapsed (kcpu s) count = Inr (timer_delay (kcpu s) - count)"
    using assms(1) by (simp add: timer_get_elapsed_def)
  have q: "(if span_of s count > quantum_left s then s \<lparr> quantum_left := 0 \<rparr>
      else s \<lparr> quantum_left := quantum_left s - span_of s count \<rparr>) = s \<lparr> quantum_left := quantum_after s count \<rparr>"
    by (simp add: quantum_after_def)
  show ?thesis
    unfolding dispatch_def t and_then_simps Let_def span_of_def [symmetric] q after_retire_def
    using assms(2) by (simp only: if_False if_True)
qed

text \<open>\<open>exit\<close> deletes the address space of its process and then calls \<open>dispatch\<close>, which finds the
  process killed and deletes it again.\<close>

lemma exit_cleans_up_twice:
  assumes "current_pcb s = p" and "count \<le> timer_delay (kcpu s)" and "one_ms s \<noteq> 0"
  shows "exit count p s =
    and_then (cleanup_pcb p s) (\<lambda>s1.
    and_then (cleanup_pcb p (s1 \<lparr> quantum_left := quantum_after s count \<rparr>)) (\<lambda>s2.
      after_retire (span_of s count) (s2 \<lparr> current_pcb := 0, quantum_left := 10 \<rparr>)))"
proof (cases "cleanup_pcb p s")
  case (Inl e)
  then show ?thesis by (simp add: exit_def)
next
  case (Inr s1)
  have s1: "state (pcbs s1 p) = KILLED" "current_pcb s1 = p" "quantum_left s1 = quantum_left s"
    "one_ms s1 = one_ms s" "timer_delay (kcpu s1) = timer_delay (kcpu s)"
    using Inr assms(1)
    by (auto simp: cleanup_pcb_def Let_def set_pcb_def virt_switch_page_table_def)
  have sp: "span_of s1 count = span_of s count" "quantum_after s1 count = quantum_after s count"
    by (simp_all add: span_of_def quantum_after_def s1)
  have r: "retire_current (s1 \<lparr> quantum_left := q \<rparr>) =
      and_then (cleanup_pcb p (s1 \<lparr> quantum_left := q \<rparr>)) (\<lambda>s. Inr (s \<lparr> current_pcb := 0, quantum_left := 10 \<rparr>))" for q
    by (simp add: retire_current_def s1)
  have "dispatch count s1 = and_then (retire_current (s1 \<lparr> quantum_left := quantum_after s count \<rparr>))
      (after_retire (span_of s count))"
    using dispatch_eq [of count s1] assms(2,3) by (simp add: s1 sp)
  then show ?thesis by (simp add: exit_def Inr r and_then_assoc)
qed

text \<open>The deletion of an address space whose tables beyond the first 512 GiB are absent.\<close>

lemma for_each_skip:
  assumes "\<And>i. i \<in> set is \<Longrightarrow> f i s = Inr s"
  shows "for_each is f s = Inr s"
  using assms by (induction "is") simp_all

abbreviation cleanup_first_entry :: "phys \<Rightarrow> addr \<Rightarrow> phys res" where
  "cleanup_first_entry st q \<equiv>
     (if present (entries (pmem st) q 0)
      then cleanup_page_directory_pointer_table (PHYS_TO_VIRT (entry_table (entries (pmem st) q 0))) st else Inr st)"

lemma cleanup_low_table:
  assumes "cleanup_first_entry st q = Inr st0"
    and "\<forall>i\<in>{1..<256}. \<not> present (entries (pmem st0) q (of_nat i))"
  shows "virt_cleanup_table st (VIRT_TO_PHYS q) = phys_free_4KIB st0 (VIRT_TO_PHYS q)"
proof -
  define f where "f = (\<lambda>pml4_index st. let entry = entries (pmem st) q (of_nat pml4_index)
      in if present entry then cleanup_page_directory_pointer_table (PHYS_TO_VIRT (entry_table entry)) st else Inr st)"
  have "[0..<256] = 0 # [1..<256]" by (simp add: upt_conv_Cons)
  moreover have "f 0 st = Inr st0" using assms(1) by (auto simp: f_def Let_def split: if_splits)
  moreover have "for_each [1..<256] f st0 = Inr st0"
    using assms(2) by (intro for_each_skip) (simp add: f_def Let_def)
  ultimately have "for_each [0..<256] f st = Inr st0" by (simp only: for_each.simps and_then_simps)
  then show ?thesis unfolding virt_cleanup_table_def Let_def virt_phys f_def [unfolded Let_def, symmetric]
    by simp
qed

section \<open>Properties\<close>

text \<open>C25. A system call stops the timer, and the calls that do not dispatch (exec, set-priority,
  key-available, get-key) never start it again: the process goes on with no timer interrupt to come,
  so that nothing preempts it until it blocks.\<close>

theorem syscall_leaves_timer_stopped:
  assumes "syscall_interrupt syscall_table count SYSCALL_INT_VEC (s, k) = Inr (s', k')"
    and "get_reg R10 (current_pcb s) s = Inr n" and "n \<in> {1, 4, 5, 6}"
  shows "current_pcb s' = current_pcb s \<and> lapic (kcpu s') APIC_TIMER_INIT_REG = 0"
proof -
  have nz: "current_pcb s \<noteq> 0" using assms(1) by (auto simp: syscall_interrupt_def)
  have n: "n < NUM_SYSCALLS" and f: "syscall_table n \<in> {Exec, Set_priority, Key_avail, Get_key}"
    using assms(3) by (auto simp: syscall_table_simps)
  have "and_then (call_handler (syscall_table n) count (current_pcb s) (s \<lparr> kcpu := timer_stop (kcpu s) \<rparr>, k))
      (\<lambda>(s, k). Inr (s \<lparr> kcpu := pic_acknowledge SYSCALL_INT_VEC (kcpu s) \<rparr>, k)) = Inr (s', k')"
    using assms(1) unfolding syscall_interrupt_eq [OF assms(2) nz n] .
  then have "call_handler (syscall_table n) count (current_pcb s) (s \<lparr> kcpu := timer_stop (kcpu s) \<rparr>, k) = Inr (s', k')"
    by (auto simp: acknowledge_syscall)
  from call_keeps_cpu [OF this f] show ?thesis by (simp add: timer_stop_def set_lapic_def)
qed

text \<open>The priority a process asks for is checked with an assertion only: a value above 3 stops
  the kernel, and a valid one is stored.\<close>

lemma set_priority_trusts_caller:
  assumes "get_reg R10 (current_pcb s) s = Inr 4" and "get_reg RDI (current_pcb s) s = Inr v"
    and "current_pcb s \<noteq> 0"
  shows "syscall_interrupt syscall_table count SYSCALL_INT_VEC (s, k) =
    (if v \<le> 3
     then Inr (set_pcb (current_pcb s) ((pcbs s (current_pcb s)) \<lparr> priority := [HIGH, NORMAL, LOW, IDLE] ! unat v \<rparr>)
            (s \<lparr> kcpu := timer_stop (kcpu s) \<rparr>), k)
     else Inl (Assert_failed ''syscalls.c'' 159))"
proof -
  let ?s = "s \<lparr> kcpu := timer_stop (kcpu s) \<rparr>"
  have rdi: "get_reg RDI (current_pcb s) ?s = Inr v" using assms(2) by simp
  have "call_handler Set_priority count (current_pcb s) (?s, k) =
    (if v \<le> 3 then Inr (set_pcb (current_pcb s)
        ((pcbs s (current_pcb s)) \<lparr> priority := [HIGH, NORMAL, LOW, IDLE] ! unat v \<rparr>) ?s, k)
     else Inl (Assert_failed ''syscalls.c'' 159))"
    using rdi by (simp add: call_handler_def set_priority_def)
  then show ?thesis
    unfolding syscall_interrupt_eq [OF assms(1,3), of syscall_table count SYSCALL_INT_VEC k, simplified] syscall_table_simps
    by (simp add: acknowledge_syscall)
qed

text \<open>C24. \<open>exit\<close> frees the page tables of its process twice, and the allocator then hands one page out
  twice.  For a process whose user mappings lie in the first 512 GiB (entry 0 of its PML4, deleted as \<open>st0\<close> says),
  whose PML4 page \<open>q\<close> belongs to the first pool of the list with fewer than 509 freed pages, and whose PCB is not in that
  pool, with the timer set up: both deletions of \<open>exit\<close> go through, the second finds the freed page's link in entry 0 and frees
  only the PML4 again, and in the state in which \<open>dispatch\<close> goes on to choose the next process, the next two calls of
  \<open>phys_alloc_4KIB\<close> both return that page.\<close>

theorem exit_frees_page_table_twice:
  assumes "current_pcb s = p" and "count \<le> timer_delay (kcpu s)" and "one_ms s \<noteq> 0"
    and "pcb_page_table s p = VIRT_TO_PHYS q" and "cleanup_first_entry (ph s) q = Inr st0"
    and "\<forall>i\<in>{1..<256}. \<not> present (entries (pmem st0) q (of_nat i))"
    and "phys_rep st0 A ((b, k, fs) # Ps) E" and "q \<in> pool_pages b" and "q \<notin> pool_avail b k fs" and "length fs < 509"
    and "pmem st0 (p + 8) = kmem s (p + 8)"
    and "MASK_2MIB (p + 8) \<noteq> b"
  shows "\<exists>s2 st3 st4. exit count p s = after_retire (span_of s count) s2 \<and> current_pcb s2 = 0 \<and>
    phys_alloc_4KIB (ph s2) = Inr (VIRT_TO_PHYS q, st3) \<and> phys_alloc_4KIB st3 = Inr (VIRT_TO_PHYS q, st4)"
proof -
  let ?T = "VIRT_TO_PHYS q"
  from double_free [OF assms(7-10)] obtain m1 m2 where
    m: "phys_free_4KIB st0 ?T = Inr (st0 \<lparr> pmem := m1 \<rparr>)"
      "phys_free_4KIB (st0 \<lparr> pmem := m1 \<rparr>) ?T = Inr (st0 \<lparr> pmem := m2 \<rparr>)"
      "\<forall>a. a \<notin> {b, b + 8, q} \<longrightarrow> m1 a = pmem st0 a \<and> m2 a = pmem st0 a" "MASK_4KIB (m1 q) = m1 q"
    and al: "\<exists>st3 st4. phys_alloc_4KIB (st0 \<lparr> pmem := m2 \<rparr>) = Inr (?T, st3) \<and> phys_alloc_4KIB st3 = Inr (?T, st4)"
    by blast
  have base: "block_base b" using assms(7) usable_blockD(1) by (auto simp: phys_rep_def)
  have q: "MASK_4KIB q = q" "MASK_2MIB q = b" "q \<noteq> b" using assms(8) pool_pages_iff [OF base] by auto
  have hb: "MASK_2MIB b = b" "MASK_2MIB (b + 8) = b" "MASK_4KIB b = b" "MASK_4KIB (b + 8) = b"
    using base MASK_2MIB_cell [of b 8] header_cell [OF base, of 0] header_cell [OF base, of 8]
    by (simp_all add: block_base_def word_less_nat_alt)
  have pcb: "p + 8 \<notin> {b, b + 8, q}" using assms(12) hb(1,2) q(2) by auto
  have entry: "q + 8 * of_nat i \<notin> {b, b + 8, q}" if i: "i \<in> {1..<256}" for i
  proof -
    have T: "MASK_4KIB ?T = ?T" using q(1) by (simp add: MASK_4KIB_phys)
    have i64: "unat (of_nat i :: u64) = i" using i by (intro unat_of_nat_u64) simp
    then have "(of_nat i :: u64) < 512" using i by (simp add: word_less_nat_alt)
    then have "MASK_4KIB (q + 8 * of_nat i) = q" "q + 8 * of_nat i = q + 8 * 0 \<longleftrightarrow> (of_nat i :: u64) = 0"
      using entry_cell(1) [OF T, of "of_nat i"] entry_cell_inject [OF T T, of "of_nat i" 0] by simp_all
    moreover have "(of_nat i :: u64) \<noteq> 0" using i64 i by auto
    ultimately show ?thesis using hb(3,4) q(3) by auto
  qed
  have c1: "virt_cleanup_table (ph s) ?T = Inr (st0 \<lparr> pmem := m1 \<rparr>)"
    using cleanup_low_table [OF assms(5,6)] m(1) by simp
  have "\<not> present (m1 q)" using aligned_bits [OF m(4), of 0] by (simp add: present_iff_bit)
  then have "cleanup_first_entry (st0 \<lparr> pmem := m1 \<rparr>) q = Inr (st0 \<lparr> pmem := m1 \<rparr>)" by simp
  moreover have "\<forall>i\<in>{1..<256}. \<not> present (entries (pmem (st0 \<lparr> pmem := m1 \<rparr>)) q (of_nat i))"
    using entry m(3) assms(6) by simp
  ultimately have c2: "virt_cleanup_table (st0 \<lparr> pmem := m1 \<rparr>) ?T = Inr (st0 \<lparr> pmem := m2 \<rparr>)"
    using cleanup_low_table [of "st0 \<lparr> pmem := m1 \<rparr>" q] m(2) by simp
  have "m1 (p + 8) = ?T" using m(3) pcb assms(4,11) by (simp add: pcb_page_table_def)
  then obtain s1 s2 where s1: "cleanup_pcb p s = Inr s1" "ph s1 = st0 \<lparr> pmem := m1 \<rparr>"
    and s2: "cleanup_pcb p (s1 \<lparr> quantum_left := quantum_after s count \<rparr>) = Inr s2" "ph s2 = st0 \<lparr> pmem := m2 \<rparr>"
    using assms(4) by (simp add: cleanup_pcb_def virt_switch_page_table_def pcb_page_table_def kmem_def
        set_pcb_def c1 c2)
  then have "exit count p s = after_retire (span_of s count) (s2 \<lparr> current_pcb := 0, quantum_left := 10 \<rparr>)"
    using exit_cleans_up_twice [OF assms(1-3)] by simp
  then show ?thesis using al s2(2)
    by (intro exI [of _ "s2 \<lparr> current_pcb := 0, quantum_left := 10 \<rparr>"]) simp
qed

section \<open>Examples\<close>

text \<open>A process whose context lies at the virtual address \<open>0x5000\<close>, mapped to \<open>0x6000\<close>; its
  registers R10 and RDI are the arguments.\<close>

definition sample_memory :: "u64 \<Rightarrow> u64 \<Rightarrow> mem" where
  "sample_memory r10 rdi = (\<lambda>_. 0)
     (PHYS_TO_VIRT 0x1000 := 0x2003, PHYS_TO_VIRT 0x2000 := 0x3003, PHYS_TO_VIRT 0x3000 := 0x4003,
      PHYS_TO_VIRT 0x4028 := 0x6003, 0x9000 := 0x5000,
      PHYS_TO_VIRT 0x6000 := rdi, PHYS_TO_VIRT 0x6048 := r10)"

definition sample_process :: "u64 \<Rightarrow> u64 \<Rightarrow> kernel" where
  "sample_process r10 rdi = sample_kernel
     \<lparr> ph := \<lparr> pmem = sample_memory r10 rdi, pool_4KIB = 0, stack_2MIB = 0 \<rparr>,
       kcpu := reset_cpu \<lparr> cr3 := 0x1000 \<rparr> \<rparr>"

lemma sample_translate:
  "translate (sample_memory r10 rdi) 0x1000 0x5000 = Some 0x6000"
  "translate (sample_memory r10 rdi) 0x1000 0x5048 = Some 0x6048"
  by (simp_all add: translate_def entry_at_def sample_memory_def PML4_INDEX_def PDPT_INDEX_def
      PDT_INDEX_def PT_INDEX_def PHYS_TO_VIRT_def entry_table_def ENTRY_TO_ADDR_def Let_def)

lemma sample_process_regs:
  "current_pcb (sample_process r10 rdi) = 0x9000"
  "get_reg R10 0x9000 (sample_process r10 rdi) = Inr r10"
  "get_reg RDI 0x9000 (sample_process r10 rdi) = Inr rdi"
proof -
  let ?s = "sample_process r10 rdi"
  have m: "kmem ?s = sample_memory r10 rdi" "cr3 (kcpu ?s) = 0x1000"
    by (simp_all add: sample_process_def kmem_def)
  have c: "pcb_context ?s 0x9000 = 0x5000"
    by (simp add: pcb_context_def m sample_memory_def PHYS_TO_VIRT_def)
  show "current_pcb ?s = 0x9000" by (simp add: sample_process_def sample_kernel_def)
  show "get_reg R10 0x9000 ?s = Inr r10" "get_reg RDI 0x9000 ?s = Inr rdi"
    by (simp_all add: get_reg_def c user_read_def user_cell_def m sample_translate)
      (simp_all add: sample_memory_def PHYS_TO_VIRT_def)
qed

lemma set_priority_trusts_caller_witness:
  "syscall_interrupt syscall_table 0 SYSCALL_INT_VEC (sample_process 4 9, keyboard_boot) =
     Inl (Assert_failed ''syscalls.c'' 159)"
proof -
  let ?s = "sample_process 4 9"
  have "get_reg R10 (current_pcb ?s) ?s = Inr 4" "get_reg RDI (current_pcb ?s) ?s = Inr 9" "current_pcb ?s \<noteq> 0"
    by (simp_all add: sample_process_regs)
  from set_priority_trusts_caller [OF this] show ?thesis by simp
qed

theorem syscall_leaves_timer_stopped_witness:
  "\<exists>s' k'. syscall_interrupt syscall_table 0 SYSCALL_INT_VEC (sample_process 1 0, keyboard_boot) = Inr (s', k') \<and>
     current_pcb s' = 0x9000 \<and> lapic (kcpu s') APIC_TIMER_INIT_REG = 0"
proof -
  let ?s = "sample_process 1 0"
  have r: "get_reg R10 (current_pcb ?s) ?s = Inr 1" "current_pcb ?s \<noteq> 0" "(1 :: u64) < NUM_SYSCALLS"
    by (simp_all add: sample_process_regs)
  obtain s' k' where e: "syscall_interrupt syscall_table 0 SYSCALL_INT_VEC (?s, keyboard_boot) = Inr (s', k')"
    unfolding syscall_interrupt_eq [OF r] syscall_table_simps by (auto simp: call_handler_def exec_def)
  from syscall_leaves_timer_stopped [OF e r(1)] e show ?thesis by (auto simp: sample_process_regs)
qed

text \<open>A running process with an empty address space, whose PML4 is the first page of the sample pool.\<close>

definition exiting_process :: kernel where
  "exiting_process = sample_kernel \<lparr> ph := one_page_out \<lparr> pmem := (pool_mem 2 1)(0x9008 := VIRT_TO_PHYS (page sample_pool 1)) \<rparr> \<rparr>"

theorem exit_frees_page_table_twice_witness:
  "\<exists>s2 st3 st4. exit 0 0x9000 exiting_process = after_retire (span_of exiting_process 0) s2 \<and> current_pcb s2 = 0 \<and>
    phys_alloc_4KIB (ph s2) = Inr (0x401000, st3) \<and> phys_alloc_4KIB st3 = Inr (0x401000, st4)"
proof -
  let ?q = "page sample_pool 1"
  define m where "m = (pool_mem 2 1)(0x9008 := VIRT_TO_PHYS ?q)"
  have "VIRT_TO_PHYS (MASK_4KIB 0x9008) \<notin> sample_avail"
    using sample_pages(2) by (auto simp: VIRT_TO_PHYS_def MASK_4KIB_def)
  then have "\<not> own_cells 0xFFFF800000110008 {sample_pool} sample_avail 0x9008"
    by (simp add: own_cells_def MASK_4KIB_def)
  then have rep: "phys_rep (one_page_out \<lparr> pmem := m \<rparr>) [] [(sample_pool, 2, [])] []"
    by (intro phys_rep_own [OF one_page_out_rep]) (auto simp: m_def one_page_out_def sample_phys_def)
  have k: "current_pcb exiting_process = 0x9000" "ph exiting_process = one_page_out \<lparr> pmem := m \<rparr>"
    "one_ms exiting_process = 1000" "timer_delay (kcpu exiting_process) = 100000"
    by (simp_all add: exiting_process_def sample_kernel_def m_def)
  have z: "entries m ?q i = 0" if "i < 512" for i
  proof -
    have "MASK_4KIB (PHYS_TO_VIRT (VIRT_TO_PHYS ?q) + 8 * i) = PHYS_TO_VIRT (VIRT_TO_PHYS ?q)"
      by (rule entry_cell(1) [OF _ that]) (simp add: page_def VIRT_TO_PHYS_def MASK_4KIB_def)
    then have c: "MASK_4KIB (?q + 8 * i) = ?q" by simp
    have "?q + 8 * i \<notin> {0x9008, sample_pool + 16, sample_pool + 24, sample_pool + 48}"
    proof
      assume "?q + 8 * i \<in> {0x9008, sample_pool + 16, sample_pool + 24, sample_pool + 48}"
      then have "MASK_4KIB (?q + 8 * i) \<in> MASK_4KIB ` {0x9008, sample_pool + 16, sample_pool + 24, sample_pool + 48}"
        by (rule imageI)
      then show False unfolding c by (simp add: MASK_4KIB_def page_def)
    qed
    then show ?thesis by (simp add: m_def pool_mem_def)
  qed
  have "\<exists>s2 st3 st4. exit 0 0x9000 exiting_process = after_retire (span_of exiting_process 0) s2 \<and> current_pcb s2 = 0 \<and>
    phys_alloc_4KIB (ph s2) = Inr (VIRT_TO_PHYS ?q, st3) \<and> phys_alloc_4KIB st3 = Inr (VIRT_TO_PHYS ?q, st4)"
  proof (rule exit_frees_page_table_twice [of exiting_process "0x9000" 0 ?q "ph exiting_process" "[]" sample_pool 2 "[]" "[]" "[]"])
    show "phys_rep (ph exiting_process) [] [(sample_pool, 2, [])] []" using rep by (simp add: k)
    show "?q \<in> pool_pages sample_pool" by (auto simp: pool_pages_def)
    show "?q \<notin> pool_avail sample_pool 2 []" using sample_page_1 by (simp add: pool_avail_def)
    show "pcb_page_table exiting_process 0x9000 = VIRT_TO_PHYS ?q"
      by (simp add: pcb_page_table_def kmem_def k m_def)
    show "cleanup_first_entry (ph exiting_process) ?q = Inr (ph exiting_process)" using z [of 0] by (simp add: k)
    show "\<forall>i\<in>{1..<256}. \<not> present (entries (pmem (ph exiting_process)) ?q (of_nat i))"
    proof
      fix i :: nat assume "i \<in> {1..<256}"
      then have "(of_nat i :: u64) < 512" by (simp add: word_less_nat_alt unat_of_nat_u64)
      then show "\<not> present (entries (pmem (ph exiting_process)) ?q (of_nat i))" using z by (simp add: k)
    qed
  qed (simp_all add: k kmem_def MASK_2MIB_def)
  moreover have "VIRT_TO_PHYS ?q = 0x401000" by (simp add: page_def VIRT_TO_PHYS_def)
  ultimately show ?thesis by simp
qed

end
