(* ===== verification/Fork.thy ===== *)
theory Fork
  imports Syscalls CloneMap
begin

text \<open>
  The system call \<open>fork\<close> of \<open>kernel/syscalls/syscalls.c\<close> from the allocation of the PCB to the two
  address spaces it leaves: the composition of the block allocator, the page allocator, the cloning
  of page tables and the accesses to the memory of both processes.
\<close>

section \<open>Address spaces under writes\<close>

text \<open>Copyable trees.\<close>

lemma slots_copyable_cong:
  assumes "slots_copyable R n N free m X" and "\<And>i. i < N \<Longrightarrow> slot m' X i = slot m X i"
    and "\<And>a. free' a \<Longrightarrow> free a" and "\<And>i. i < N \<Longrightarrow> present (slot m X i) \<Longrightarrow> R (target n (slot m X i)) \<Longrightarrow> R' (target n (slot m X i))"
  shows "slots_copyable R' n N free' m' X"
  using assms unfolding slots_copyable_def by metis

lemma slots_pages_cong:
  assumes "\<And>i. i < N \<Longrightarrow> slot m' X i = slot m X i"
    and "\<And>i. i < N \<Longrightarrow> present (slot m X i) \<Longrightarrow> c' (target n (slot m X i)) = c (target n (slot m X i))"
  shows "slots_pages c' n N m' X = slots_pages c n N m X"
  unfolding slots_pages_def using assms by (intro sum.cong) auto

lemma slots_copyable_slot:
  assumes "slots_copyable R n N free m X" and "\<And>a. \<not> free a \<Longrightarrow> m' a = m a" and "i < N"
  shows "slot m' X i = slot m X i"
  using assms unfolding slots_copyable_def by metis

lemma copyable_agree:
  assumes ag: "\<And>a. \<not> free a \<Longrightarrow> m' a = m a" and sub: "\<And>a. free' a \<Longrightarrow> free a"
  shows "copyable n free m X \<Longrightarrow> copyable n free' m' X \<and> pages_of n m' X = pages_of n m X"
proof (induction n arbitrary: X)
  case 0
  then show ?case using sub by auto
next
  case (Suc n)
  then have sc: "slots_copyable (copyable n free m) n 512 free m X" and fl: "X AND PAGE_COPY_FLAGS = 0" by simp_all
  have s: "slot m' X i = slot m X i" if "i < 512" for i by (rule slots_copyable_slot [OF sc ag that])
  have "slots_copyable (copyable n free' m') n 512 free' m' X"
    by (rule slots_copyable_cong [OF sc s]) (use sub Suc.IH in auto)
  moreover have "slots_pages (pages_of n m') n 512 m' X = slots_pages (pages_of n m) n 512 m X"
    by (rule slots_pages_cong) (use s sc Suc.IH in \<open>auto simp: slots_copyable_def\<close>)
  ultimately show ?case using fl by simp
qed

lemma copyable_path:
  assumes "copyable (Suc n) free m X" and "length is \<le> n" and "\<forall>i\<in>set is. i < 512" and "j < 512"
    and "present (entry_at m X is j)"
  shows "(n - length is \<noteq> 0 \<longrightarrow> \<not> large (entry_at m X is j)) \<and>
    copyable (n - length is) free m (target (n - length is) (entry_at m X is j))"
  using assms
proof (induction "is" arbitrary: n X)
  case Nil
  then have cp: "slots_copyable (copyable n free m) n 512 free m X" by simp
  show ?case using slots_copyableD [OF cp unat_slot_index [OF Nil(4)]] Nil(5) by (simp add: entry_at_def)
next
  case (Cons i "is")
  then have cp: "slots_copyable (copyable n free m) n 512 free m X" and i: "unat i < 512"
    by (simp_all add: unat_slot_index)
  obtain k where k: "n = Suc k" using Cons.prems(2) by (cases n) simp_all
  define e where "e = entries m (PHYS_TO_VIRT X) i"
  have t: "is_table e" and en: "entry_at m X (i # is) j = entry_at m (entry_table e) is j"
    using Cons.prems(5) by (auto simp: entry_at_Cons Let_def e_def split: if_splits)
  have "copyable (Suc k) free m (entry_table e)"
    using slots_copyableD(3) [OF cp i] t by (simp add: e_def k)
  from Cons.IH [OF this] Cons.prems(2-5) show ?case by (simp add: k en)
qed

text \<open>An address of the user half: its page is small, and its cell is not free.\<close>

definition user_half :: "(addr \<Rightarrow> bool) \<Rightarrow> mem \<Rightarrow> addr \<Rightarrow> bool" where
  "user_half free m T \<longleftrightarrow> slots_copyable (copyable 3 free m) 3 256 free m T"

lemma user_half_agree:
  assumes "user_half free m T" and ag: "\<And>a. \<not> free a \<Longrightarrow> m' a = m a" and sub: "\<And>a. free' a \<Longrightarrow> free a"
  shows "user_half free' m' T" and "user_pages m' T = user_pages m T"
proof -
  note sc = assms(1) [unfolded user_half_def]
  have s: "slot m' T i = slot m T i" if "i < 256" for i by (rule slots_copyable_slot [OF sc ag that])
  show "user_half free' m' T" unfolding user_half_def
    by (rule slots_copyable_cong [OF sc s]) (use sub copyable_agree [of free m' m free', OF ag sub] in auto)
  show "user_pages m' T = user_pages m T" unfolding user_pages_def
    by (rule slots_pages_cong)
      (use s sc copyable_agree [of free m' m free', OF ag sub] in \<open>auto simp: slots_copyable_def\<close>)
qed

lemma user_half_page:
  assumes uh: "user_half free m T" and v: "user_addr v"
  shows "present (entry_at m T (pd_path v) (PDT_INDEX v)) \<Longrightarrow> \<not> large (entry_at m T (pd_path v) (PDT_INDEX v))"
    and "translate m T v = Some x \<Longrightarrow> x = ENTRY_TO_ADDR (entry_at m T (pt_path v) (PT_INDEX v)) + (v AND 0xFFF)"
    and "translate m T v = Some x \<Longrightarrow> \<not> free (PHYS_TO_VIRT x)"
proof -
  define e where "e = entries m (PHYS_TO_VIRT T) (PML4_INDEX v)"
  have i: "unat (PML4_INDEX v) < 256" using v by (simp add: user_addr_def word_less_nat_alt)
  have sub: "copyable (Suc 2) free m (entry_table e)" if "is_table e"
    using slots_copyableD(3) [OF uh [unfolded user_half_def] i] that
    by (simp add: e_def numeral_3_eq_3 numeral_2_eq_2)
  have en: "entry_at m T (PML4_INDEX v # is) j = (if is_table e then entry_at m (entry_table e) is j else 0)" for "is" j
    by (simp add: entry_at_Cons e_def Let_def)
  show pd: "\<not> large (entry_at m T (pd_path v) (PDT_INDEX v))" if "present (entry_at m T (pd_path v) (PDT_INDEX v))"
    using copyable_path [OF sub, of "[PDPT_INDEX v]" "PDT_INDEX v"] that by (auto simp: en index_less split: if_splits)
  assume x: "translate m T v = Some x"
  define pt where "pt = entry_at m T (pt_path v) (PT_INDEX v)"
  have pt: "present pt" "x = ENTRY_TO_ADDR pt + (v AND 0xFFF)"
    using x pd by (auto simp: translate_def Let_def pt_def split: if_splits)
  then show "x = ENTRY_TO_ADDR (entry_at m T (pt_path v) (PT_INDEX v)) + (v AND 0xFFF)" by (simp add: pt_def)
  have "copyable 0 free m (ENTRY_TO_ADDR pt)"
    using copyable_path [OF sub, of "[PDPT_INDEX v, PDT_INDEX v]" "PT_INDEX v"] pt(1)
    by (auto simp: pt_def en index_less split: if_splits)
  moreover have "MASK_4KIB (PHYS_TO_VIRT x) = PHYS_TO_VIRT (ENTRY_TO_ADDR pt)"
    using page_cell [of "ENTRY_TO_ADDR pt" "v AND 0xFFF"] calculation page_offset_less [of v]
    by (simp add: pt(2) PHYS_TO_VIRT_def add.assoc add.commute add.left_commute)
  ultimately show "\<not> free (PHYS_TO_VIRT x)" by simp
qed

text \<open>Another cell of the same page.\<close>

lemma translate_offset:
  assumes pd: "present (entry_at m T (pd_path v) (PDT_INDEX v)) \<Longrightarrow> \<not> large (entry_at m T (pd_path v) (PDT_INDEX v))"
    and x: "translate m T v = Some x" and d: "unat (v AND 0xFFF) + unat d < 2 ^ 12"
  shows "translate m T (v + d) = Some (x + d)" and "user_addr v \<Longrightarrow> user_addr (v + d)"
proof -
  have "same_page v (v + d)" by (intro same_page_mask) (simp add: page_offset_add(1) [OF d])
  then have ix: "PML4_INDEX (v + d) = PML4_INDEX v" "PDPT_INDEX (v + d) = PDPT_INDEX v"
    "PDT_INDEX (v + d) = PDT_INDEX v" "PT_INDEX (v + d) = PT_INDEX v"
    by (simp_all add: same_page_def same_large_page_def)
  show "user_addr (v + d)" if "user_addr v" using that by (simp add: user_addr_def ix)
  show "translate m T (v + d) = Some (x + d)"
    using x pd page_offset_add(2) [OF d] by (auto simp: translate_def ix Let_def split: if_splits)
qed

section \<open>Cells of a clone\<close>

text \<open>No page of the copy is one of its tables.\<close>

lemma leaf_not_table:
  assumes "copied (Suc n) m m' X Y F" and "length is = n" "length js \<le> n"
    and "\<forall>i\<in>set is. i < 512" "\<forall>i\<in>set js. i < 512" and "i < 512"
    and "present (entry_at m' Y is i)" and "walk m' Y js = Some Z"
  shows "ENTRY_TO_ADDR (entry_at m' Y is i) \<noteq> Z"
  using assms
proof (induction n arbitrary: X Y F "is" js)
  case 0
  from 0(1) obtain Fs where sl: "slots_copied (\<lambda>e. copied 0 m m' (target 0 e)) 512 m m' X Y Fs" by auto
  have k: "unat i < 512" using 0(6) by (rule unat_slot_index)
  have e: "entry_at m' Y is i = entries m' (PHYS_TO_VIRT Y) i" using 0(2) by (simp add: entry_at_def)
  then have "present (entries m (PHYS_TO_VIRT X) i)" using slots_absent [OF sl k] 0(7) by fastforce
  from slots_entry [OF sl k this] have "ENTRY_TO_ADDR (entry_at m' Y is i) \<in> Fs (unat i)"
    by (metis copied.simps(1) e target.simps(1) singletonI)
  moreover have "Z = Y" using 0(3,8) by simp
  ultimately show ?case using slots_copiedD(1) [OF sl k] by auto
next
  case (Suc n)
  from Suc.prems(1) obtain Fs where
    sl: "slots_copied (\<lambda>e. copied (Suc n) m m' (target (Suc n) e)) 512 m m' X Y Fs"
    unfolding copied.simps(2) [of "Suc n"] by blast
  obtain i0 ks where c: "is = i0 # ks" using Suc.prems(2) by (cases "is") simp_all
  have i0: "unat i0 < 512" using Suc.prems(4) c by (simp add: unat_slot_index)
  from leaf_slot [OF sl i0 Suc.prems(7) [unfolded c]] obtain Y1 where
    1: "copied (Suc n) m m' (entry_table (entries m (PHYS_TO_VIRT X) i0)) Y1 (Fs (unat i0))"
      "entry_at m' Y (i0 # ks) i = entry_at m' Y1 ks i" "entry_table (entries m' (PHYS_TO_VIRT Y) i0) = Y1" by blast
  have leaf: "ENTRY_TO_ADDR (entry_at m' Y1 ks i) \<in> Fs (unat i0)"
    by (rule leaf_page [OF 1(1)]) (use Suc.prems c 1(2) in auto)
  show ?case
  proof (cases js)
    case Nil
    then have "Z = Y" using Suc.prems(8) by simp
    moreover have "ENTRY_TO_ADDR (entry_at m' Y is i) \<in> Fs (unat i0)" using leaf by (simp add: c 1(2))
    ultimately show ?thesis using slots_copiedD(1) [OF sl i0] by auto
  next
    case (Cons j0 ls)
    have j0: "unat j0 < 512" using Suc.prems(5) Cons by (simp add: unat_slot_index)
    obtain Y2 where
      2: "copied (Suc n) m m' (target (Suc n) (entries m (PHYS_TO_VIRT X) j0)) Y2 (Fs (unat j0))"
        "entry_table (entries m' (PHYS_TO_VIRT Y) j0) = Y2" "walk m' Y2 ls = Some Z"
      using walk_slot [OF sl j0 Suc.prems(8) [unfolded Cons]] by blast
    have Z: "Z \<in> Fs (unat j0)" by (rule copied_walk [OF 2(1) _ _ 2(3)]) (use Suc.prems Cons in auto)
    show ?thesis
    proof (cases "i0 = j0")
      case True
      then have "Y2 = Y1" using 1(3) 2(2) by simp
      have "ENTRY_TO_ADDR (entry_at m' Y1 ks i) \<noteq> Z"
        by (rule Suc.IH [OF 1(1), of ks ls]) (use Suc.prems c Cons 1(2) 2(3) \<open>Y2 = Y1\<close> in auto)
      then show ?thesis by (simp add: c 1(2))
    next
      case False
      then have "unat i0 \<noteq> unat j0" by (simp add: word_unat_eq_iff)
      then have "Fs (unat i0) \<inter> Fs (unat j0) = {}" by (rule slots_copiedD(2) [OF sl i0 j0])
      then show ?thesis using leaf Z by (auto simp: c 1(2))
    qed
  qed
qed

text \<open>The page an address of the user half has in the clone.\<close>

lemma cloned_user_page:
  assumes cl: "cloned s B st A T p st' A' Fs" and src: "user_copyable s B A (pmem st) T"
    and v: "user_addr v" and x: "translate (pmem st') p v = Some x"
  obtains q Y where "x = q + (v AND 0xFFF)" and "q \<in> Fs (unat (PML4_INDEX v))"
    and "q = ENTRY_TO_ADDR (entry_at (pmem st') Y [PDPT_INDEX v, PDT_INDEX v] (PT_INDEX v))"
    and "present (entry_at (pmem st') Y [PDPT_INDEX v, PDT_INDEX v] (PT_INDEX v))"
    and "copied (Suc 2) (pmem st) (pmem st') (entry_table (entries (pmem st) (PHYS_TO_VIRT T) (PML4_INDEX v))) Y
      (Fs (unat (PML4_INDEX v)))"
    and "entry_table (entries (pmem st') (PHYS_TO_VIRT p) (PML4_INDEX v)) = Y"
proof -
  have sl: "slots_copied (\<lambda>e. copied (Suc 2) (pmem st) (pmem st') (target (Suc 2) e)) 256 (pmem st) (pmem st') T p Fs"
    using cl by (simp add: cloned_def numeral_3_eq_3 numeral_2_eq_2)
  have i: "unat (PML4_INDEX v) < 256" using v by (simp add: user_addr_def word_less_nat_alt)
  have "\<not> large (entry_at (pmem st') p (pd_path v) (PDT_INDEX v))"
    using cloned_user_entry [OF cl src, of "[PDPT_INDEX v]" "PML4_INDEX v" "PDT_INDEX v"] v
    by (auto simp: entry_copied_def user_addr_def index_less split: if_splits)
  with x have pt: "present (entry_at (pmem st') p (pt_path v) (PT_INDEX v))"
    "x = ENTRY_TO_ADDR (entry_at (pmem st') p (pt_path v) (PT_INDEX v)) + (v AND 0xFFF)"
    by (auto simp: translate_def Let_def split: if_splits)
  from leaf_slot [OF sl i pt(1)] obtain Y where
    1: "copied (Suc 2) (pmem st) (pmem st') (entry_table (entries (pmem st) (PHYS_TO_VIRT T) (PML4_INDEX v))) Y
        (Fs (unat (PML4_INDEX v)))"
      "entry_at (pmem st') p (pt_path v) (PT_INDEX v) = entry_at (pmem st') Y [PDPT_INDEX v, PDT_INDEX v] (PT_INDEX v)"
      "entry_table (entries (pmem st') (PHYS_TO_VIRT p) (PML4_INDEX v)) = Y" by blast
  have "ENTRY_TO_ADDR (entry_at (pmem st') Y [PDPT_INDEX v, PDT_INDEX v] (PT_INDEX v)) \<in> Fs (unat (PML4_INDEX v))"
    by (rule leaf_page [OF 1(1)]) (use pt(1) 1(2) in \<open>auto simp: index_less\<close>)
  then show thesis using that [OF pt(2) [unfolded 1(2)]] pt(1) 1 by simp
qed

text \<open>A cell of a table of the clone was one of a table of the original or free.\<close>

lemma cloned_table_cell:
  assumes inv: "pt_inv s B A st T" and cl: "cloned s B st A T p st' A' Fs" and a: "table_cell (pmem st') p a"
  shows "table_cell (pmem st) T a \<or> own_cells s B A a"
proof -
  from a obtain "is" Z j where w: "is_path is" "walk (pmem st') p is = Some Z" "j < 512" "a = PHYS_TO_VIRT Z + 8 * j"
    unfolding table_cell_def by blast
  have fr: "frames_inv s B st A" using inv by (simp add: pt_inv_def)
  have own: "own_cells s B A a" if "Z \<in> A" using avail_cells [OF fr that w(3)] by (simp add: w(4))
  show ?thesis
  proof (cases rule: cloned_walk_cases [OF inv cl w(1,2)])
    case 1
    then show ?thesis using own cl by (simp add: cloned_def)
  next
    case (2 i js Y)
    then have "Z \<in> A" using cl by (auto simp: cloned_def word_less_nat_alt)
    then show ?thesis using own by simp
  next
    case 3
    then show ?thesis using w unfolding table_cell_def by blast
  qed
qed

lemma cloned_user_cell:
  assumes inv: "pt_inv s B A st T" and cl: "cloned s B st A T p st' A' Fs" and src: "user_copyable s B A (pmem st) T"
    and v: "user_addr v" and x: "translate (pmem st') p v = Some x"
  shows "\<not> table_cell (pmem st') p (PHYS_TO_VIRT x)" and "own_cells s B A (PHYS_TO_VIRT x)"
proof -
  have start: "clone_start s B st A" using inv by (simp add: pt_inv_def clone_start_def)
  have i: "unat (PML4_INDEX v) < 256" using v by (simp add: user_addr_def word_less_nat_alt)
  have sl: "slots_copied (\<lambda>e. copied 3 (pmem st) (pmem st') (target 3 e)) 256 (pmem st) (pmem st') T p Fs"
    using cl by (simp add: cloned_def)
  obtain q Y where q: "x = q + (v AND 0xFFF)" "q \<in> Fs (unat (PML4_INDEX v))"
    "q = ENTRY_TO_ADDR (entry_at (pmem st') Y [PDPT_INDEX v, PDT_INDEX v] (PT_INDEX v))"
    "present (entry_at (pmem st') Y [PDPT_INDEX v, PDT_INDEX v] (PT_INDEX v))"
    "copied (Suc 2) (pmem st) (pmem st') (entry_table (entries (pmem st) (PHYS_TO_VIRT T) (PML4_INDEX v))) Y
      (Fs (unat (PML4_INDEX v)))"
    "entry_table (entries (pmem st') (PHYS_TO_VIRT p) (PML4_INDEX v)) = Y"
    by (rule cloned_user_page [OF cl src v x])
  have qA: "q \<in> A" using q(2) cl i by (auto simp: cloned_def)
  have mask: "MASK_4KIB (PHYS_TO_VIRT x) = PHYS_TO_VIRT q"
    using page_cell [OF clone_page_cells(1) [OF start qA] page_offset_less [of v]]
    by (simp add: q(1) PHYS_TO_VIRT_def ac_simps)
  show "own_cells s B A (PHYS_TO_VIRT x)" using clone_page_cells(3) [OF start qA mask] .
  show "\<not> table_cell (pmem st') p (PHYS_TO_VIRT x)"
  proof
    assume "table_cell (pmem st') p (PHYS_TO_VIRT x)"
    then obtain "is" Z j where w: "is_path is" "walk (pmem st') p is = Some Z" "j < 512"
      "PHYS_TO_VIRT x = PHYS_TO_VIRT Z + 8 * j" unfolding table_cell_def by blast
    have "MASK_4KIB Z = Z"
      using tables_ok [of s B A' "pmem st'" p] cloned_pt_inv(1) [OF inv cl src] w(1,2)
      by (auto simp: pt_inv_def table_ok_def)
    from entry_cell(1) [OF this w(3)] have "PHYS_TO_VIRT q = PHYS_TO_VIRT Z" using mask w(4) by simp
    then have Zq: "Z = q" by (simp add: PHYS_TO_VIRT_def)
    show False
    proof (cases rule: cloned_walk_cases [OF inv cl w(1,2)])
      case 1
      then show False using slots_copiedD(1) [OF sl i] q(2) Zq by simp
    next
      case (2 i0 js Y2)
      have i0: "unat i0 < 256" using 2(2) by (simp add: word_less_nat_alt)
      then have "unat i0 = unat (PML4_INDEX v)" using slots_copiedD(2) [OF sl i0 i] 2(3) q(2) Zq by blast
      then have "i0 = PML4_INDEX v" by (simp add: word_unat_eq_iff)
      then have "Y2 = Y" using 2(5) q(6) by simp
      have "q \<noteq> Z" unfolding q(3)
        by (rule leaf_not_table [OF q(5), of _ js])
          (use q(4) 2 w(1) \<open>Y2 = Y\<close> in \<open>auto simp: index_less is_path_def\<close>)
      then show False using Zq by simp
    next
      case 3
      then show False using qA Zq by simp
    qed
  qed
qed

section \<open>The kernel around it\<close>

text \<open>The cells of the allocator of PCBs that an allocation writes, and those of the PCBs.\<close>

definition pcb_cells :: "addr \<Rightarrow> nat \<Rightarrow> addr set" where
  "pcb_cells ba n = header_of ba \<union> (\<Union>x\<in>block_addrs ba 40 n. {x, x + 8})"

lemma pcb_apart:
  assumes b: "block_bound ba 40 n" and x: "x \<in> block_addrs ba 40 n" and y: "y \<in> block_addrs ba 40 n" and ne: "x \<noteq> y"
  shows "x \<noteq> y + 8" and "x + 8 \<noteq> y" and "x + 8 \<noteq> x" and "x \<notin> header_of ba"
    and "x + 8 \<notin> header_of ba"
proof -
  have at: "\<exists>i. unat z = unat ba + 48 + i * 40 \<and> unat (z + 8) = unat ba + 56 + i * 40" if "z \<in> block_addrs ba 40 n" for z
  proof -
    from that obtain i where i: "z = blk ba 40 i" "i < n" by (auto simp: block_addrs_def)
    then have u: "unat z = unat ba + 48 + i * 40" using unat_blk [OF b, of i] by simp
    have "Suc i * 40 \<le> n * 40" using i(2) by simp
    then have "unat z + 8 < 2 ^ 64" using b u by simp
    from unat_add_off [OF this] u show ?thesis by simp
  qed
  obtain i where i: "unat x = unat ba + 48 + i * 40" "unat (x + 8) = unat ba + 56 + i * 40" using at [OF x] by blast
  obtain j where j: "unat y = unat ba + 48 + j * 40" "unat (y + 8) = unat ba + 56 + j * 40" using at [OF y] by blast
  show "x \<noteq> y + 8"
  proof
    assume "x = y + 8"
    then have "48 + i * 40 = 56 + j * 40" using i j by simp
    then show False by presburger
  qed
  show "x + 8 \<noteq> y"
  proof
    assume "x + 8 = y"
    then have "56 + i * 40 = 48 + j * 40" using i j by simp
    then show False by presburger
  qed
  show "x + 8 \<noteq> x" by simp
  have "unat (ba + 8) = unat ba + 8" "unat (ba + 16) = unat ba + 16" "unat (ba + 24) = unat ba + 24"
    "unat (ba + 32) = unat ba + 32" "unat (ba + 40) = unat ba + 40"
    using b by (simp_all add: unat_plus_small)
  then have h: "unat a \<le> unat ba + 40" if "a \<in> header_of ba" for a using that by (force simp: header_of_def)
  show "x \<notin> header_of ba" "x + 8 \<notin> header_of ba"
    using i h [of x] h [of "x + 8"] by linarith+
qed

lemma alloc_pcb_new:
  assumes inv: "block_inv (ba_pcbs k) 40 n (kmem k) F" and ne: "F \<noteq> {}"
    and p: "p \<in> block_addrs (ba_pcbs k) 40 n" "p \<notin> F"
  obtains new m where "alloc_pcb k = Inr (new, set_pcb new ((pcbs k new) \<lparr> state := READY, priority := NORMAL \<rparr>) (set_kmem m k))"
    and "new \<in> F" and "\<And>a. a \<notin> pcb_cells (ba_pcbs k) n \<Longrightarrow> m a = kmem k a"
    and "m p = kmem k p" and "m (p + 8) = kmem k (p + 8)"
    and "p \<notin> {new, new + 8}" and "p + 8 \<notin> {new, new + 8}" and "{new, new + 8} \<subseteq> pcb_cells (ba_pcbs k) n"
proof -
  let ?ba = "ba_pcbs k"
  define new m where "new = fst (block_alloc (kmem k) ?ba)" and "m = snd (block_alloc (kmem k) ?ba)"
  have new: "new \<in> F" unfolding new_def by (rule block_alloc_inv(1) [OF inv ne])
  have nb: "new \<in> block_addrs ?ba 40 n" using new block_inv_blocks [OF inv] by blast
  have b: "block_bound ?ba 40 n" using inv by (auto simp: block_inv_def block_at_def)
  have "new \<noteq> 0" using new ba.nonzero [OF inv] by auto
  have other: "m a = kmem k a" if "a \<notin> header_of ?ba" for a
    unfolding m_def by (rule block_alloc_other [OF that])
  have "p \<noteq> new" using new p(2) by blast
  note ap = pcb_apart [OF b p(1) nb this]
  show thesis
  proof (rule that)
    show "alloc_pcb k = Inr (new, set_pcb new ((pcbs k new) \<lparr> state := READY, priority := NORMAL \<rparr>) (set_kmem m k))"
      using \<open>new \<noteq> 0\<close> by (simp add: alloc_pcb_def new_def m_def Let_def split_beta)
    show "new \<in> F" by (rule new)
    show "m a = kmem k a" if "a \<notin> pcb_cells ?ba n" for a
      using that by (intro other) (auto simp: pcb_cells_def)
    show "m p = kmem k p" "m (p + 8) = kmem k (p + 8)" using other ap(4,5) by blast+
    show "p \<notin> {new, new + 8}" "p + 8 \<notin> {new, new + 8}" using ap(1,2) \<open>p \<noteq> new\<close> by simp_all
    show "{new, new + 8} \<subseteq> pcb_cells ?ba n" using nb by (auto simp: pcb_cells_def)
  qed
qed

text \<open>
  A process as \<open>fork\<close> finds it: its page tables are well-formed, and its user memory contains neither
  free pages, nor page tables, nor PCBs.
\<close>

definition process_ok :: "addr \<Rightarrow> addr set \<Rightarrow> addr set \<Rightarrow> nat \<Rightarrow> kernel \<Rightarrow> addr \<Rightarrow> bool" where
  "process_ok s B A n k T \<longleftrightarrow> pt_inv s B A (ph k) T \<and>
     user_half (\<lambda>a. own_cells s B A a \<or> a \<in> pcb_cells (ba_pcbs k) n) (kmem k) T \<and>
     (\<forall>a\<in>pcb_cells (ba_pcbs k) n. \<not> own_cells s B A a \<and> \<not> table_cell (kmem k) T a) \<and>
     (\<forall>v x. user_addr v \<and> translate (kmem k) T v = Some x \<longrightarrow> \<not> table_cell (kmem k) T (PHYS_TO_VIRT x))"

text \<open>What a process with the page tables \<open>T\<close> reads.\<close>

definition reads_at :: "mem \<Rightarrow> addr \<Rightarrow> u64 \<Rightarrow> u64 option" where
  "reads_at m T v = map_option (\<lambda>x. m (PHYS_TO_VIRT x)) (translate m T v)"

section \<open>After the cloning\<close>

text \<open>
  What \<open>fork\<close> does once the address space is cloned: it links the new tables to the new PCB and writes
  to the contexts and the parameters of both processes.
\<close>

definition fork_finish :: "u32 \<Rightarrow> addr \<Rightarrow> addr \<Rightarrow> addr \<Rightarrow> kernel \<Rightarrow> kernel res" where
  "fork_finish count pcb new T' s =
     (let s = set_kmem ((kmem s)(new + 8 := T')) s
      in case virt_lookup_phys (kmem s) T' (pcb_context s pcb) of
           None \<Rightarrow> Inl (Panic ''Fork: failed to lookup context location, very bad!'')
         | Some new_context_addr \<Rightarrow>
             (let new_context = PHYS_TO_VIRT new_context_addr;
                  s = set_kmem ((kmem s)(new := pcb_context s pcb)) s
              in and_then (set_reg RAX (status_code SUCCESS) pcb s) (\<lambda>s.
                 and_then (get_reg RDI pcb s) (\<lambda>param.
                 and_then (user_write param 0 s) (\<lambda>s.
                 let s = set_kmem ((kmem s)(new_context + reg_offset RAX := status_code SUCCESS)) s
                 in case virt_lookup_phys (kmem s) T' (kmem s (new_context + reg_offset RDI)) of
                      None \<Rightarrow> Inl (Panic ''Fork: failed to lookup parameter location!'')
                    | Some pid_param_location \<Rightarrow>
                        (let s = set_kmem ((kmem s)(PHYS_TO_VIRT pid_param_location := 1)) s
                         in and_then (schedule new s) (\<lambda>s. dispatch count s)))))))"

lemma fork_after_clone:
  assumes "alloc_pcb k = Inr (new, k1)" and "new \<noteq> 0"
    and "virt_clone_mapping (ph (copy_pcb new p k1)) (pcb_page_table (copy_pcb new p k1) p) = Inr (T', st)"
  shows "fork count p k = fork_finish count p new T' ((copy_pcb new p k1) \<lparr> ph := st \<rparr>)"
  using assms by (simp add: fork_def fork_finish_def Let_def)

lemma lookup_agree:
  assumes tb: "tables_inv s B A m T" and tab: "\<And>a. table_cell m T a \<Longrightarrow> m' a = m a"
  shows "virt_lookup_phys m' T v = virt_lookup_phys m T v"
proof -
  have tb': "tables_inv s B A m' T" by (rule tables_agree(5) [OF tab tb])
  show ?thesis
    using tables_agree(2) [of m T m', OF tab paths(3) index_less(3)]
      tables_agree(2) [of m T m', OF tab paths(4) index_less(4)]
    by (simp add: lookup_eq [OF tb] lookup_eq [OF tb'])
qed

text \<open>The cells it writes, when the two processes agree on the place of the context and of the parameter.\<close>

definition fork_cells :: "addr \<Rightarrow> addr \<Rightarrow> addr \<Rightarrow> addr \<Rightarrow> addr \<Rightarrow> addr set" where
  "fork_cells new pc da pc' da' = {new, new + 8, PHYS_TO_VIRT (pc + 40), PHYS_TO_VIRT da, PHYS_TO_VIRT (pc' + 40), PHYS_TO_VIRT da'}"

definition fork_mem :: "mem \<Rightarrow> addr \<Rightarrow> addr \<Rightarrow> addr \<Rightarrow> addr \<Rightarrow> addr \<Rightarrow> addr \<Rightarrow> addr \<Rightarrow> mem" where
  "fork_mem m new T' c pc da pc' da' = m(new + 8 := T', new := c, PHYS_TO_VIRT (pc + 40) := 0, PHYS_TO_VIRT da := 0,
     PHYS_TO_VIRT (pc' + 40) := 0, PHYS_TO_VIRT da' := 1)"

lemma fork_mem_other: "a \<notin> fork_cells new pc da pc' da' \<Longrightarrow> fork_mem m new T' c pc da pc' da' a = m a"
  by (simp add: fork_mem_def fork_cells_def)

lemma fork_finish_result:
  assumes tb: "tables_inv s B A (kmem k) T'" and cr3: "cr3 (kcpu k) = T"
    and inert: "\<And>a. a \<in> fork_cells new pc da pc' da' \<Longrightarrow> \<not> table_cell (kmem k) T a \<and> \<not> table_cell (kmem k) T' a"
    and c: "kmem k p = c" "translate (kmem k) T c = Some pc" "translate (kmem k) T (c + 40) = Some (pc + 40)"
      "virt_lookup_phys (kmem k) T' c = Some pc'"
    and d: "kmem k (PHYS_TO_VIRT pc) = d" "kmem k (PHYS_TO_VIRT pc') = d" "translate (kmem k) T d = Some da"
      "virt_lookup_phys (kmem k) T' d = Some da'"
    and apart: "p \<notin> {new, new + 8, PHYS_TO_VIRT (pc + 40)}" "PHYS_TO_VIRT pc \<notin> {new, new + 8}"
      "PHYS_TO_VIRT pc' \<notin> {new, new + 8, PHYS_TO_VIRT (pc + 40), PHYS_TO_VIRT da}"
  shows "fork_finish count p new T' k =
    and_then (schedule new (set_kmem (fork_mem (kmem k) new T' c pc da pc' da') k)) (dispatch count)"
proof -
  let ?m = "kmem k"
  have tab: "m a = ?m a" if "\<And>a. a \<notin> fork_cells new pc da pc' da' \<Longrightarrow> m a = ?m a" "table_cell ?m T a \<or> table_cell ?m T' a" for m a
    using that inert by blast
  have tr: "translate m T v = translate ?m T v" and lk: "virt_lookup_phys m T' v = virt_lookup_phys ?m T' v"
    if "\<And>a. a \<notin> fork_cells new pc da pc' da' \<Longrightarrow> m a = ?m a" for m v
    using tables_agree(3) [of ?m T m v] lookup_agree [OF tb, of m v] tab [of m] that by blast+
  have off: "PHYS_TO_VIRT x + 40 = PHYS_TO_VIRT (x + 40)" "PHYS_TO_VIRT x \<noteq> PHYS_TO_VIRT (x + 40)" for x
    by (simp_all add: PHYS_TO_VIRT_def)
  define m1 where "m1 = ?m(new + 8 := T')"
  define m2 where "m2 = m1(new := c)"
  define m3 where "m3 = m2(PHYS_TO_VIRT (pc + 40) := 0)"
  define m4 where "m4 = m3(PHYS_TO_VIRT da := 0)"
  define m5 where "m5 = m4(PHYS_TO_VIRT (pc' + 40) := 0)"
  note defs = m1_def m2_def m3_def m4_def m5_def
  have t: "translate m T v = translate ?m T v" "virt_lookup_phys m T' v = virt_lookup_phys ?m T' v"
    if "m \<in> {m1, m2, m3, m4, m5}" for m v
    using that by (auto intro!: tr lk simp: defs fork_cells_def)
  have ctx: "m1 p = c" "m2 p = c" "m3 p = c" using c(1) apart(1) by (simp_all add: m1_def m2_def m3_def)
  have rdi: "m3 (PHYS_TO_VIRT pc) = d" using d(1) apart(2) off(2) by (simp add: m1_def m2_def m3_def)
  have rdi': "m4 (PHYS_TO_VIRT pc') = d" using d(2) apart(3) off(2) by (simp add: defs)
  have fm: "fork_mem ?m new T' c pc da pc' da' = m5(PHYS_TO_VIRT da' := 1)" by (simp add: fork_mem_def defs)
  show ?thesis
    unfolding fork_finish_def fm
    by (simp add: Let_def pcb_context_def set_reg_def get_reg_def user_read_def user_write_def user_cell_def cr3 t c d ctx rdi rdi'
        off flip: m1_def m2_def m3_def m4_def m5_def)
qed

text \<open>Up to the cloning: the memory \<open>m\<close> differs from the old one in PCBs and their allocator only.\<close>

lemma fork_to_clone:
  assumes ok: "process_ok s B A n k T" and T: "pcb_page_table k p = T"
    and inv: "block_inv (ba_pcbs k) 40 n (kmem k) F" and ne: "F \<noteq> {}"
    and p: "p \<in> block_addrs (ba_pcbs k) 40 n" "p \<notin> F" and enough: "user_pages (kmem k) T < card A"
  obtains new m T' k1 A' Fs where "fork count p k = fork_finish count p new T' k1" and "new \<in> F"
    and "p \<notin> {new, new + 8}" "p + 8 \<notin> {new, new + 8}" and "{new, new + 8} \<subseteq> pcb_cells (ba_pcbs k) n"
    and "\<And>a. a \<notin> pcb_cells (ba_pcbs k) n \<Longrightarrow> m a = kmem k a" and "m p = kmem k p" "m (p + 8) = kmem k (p + 8)"
    and "pt_inv s B A ((ph k) \<lparr> pmem := m \<rparr>) T" and "user_copyable s B A m T"
    and "cloned s B ((ph k) \<lparr> pmem := m \<rparr>) A T T' (ph k1) A' Fs"
    and "kcpu k1 = kcpu k" and "pcbs k1 = (pcbs k)(new := pcbs k p)"
proof -
  obtain new m0 where al: "alloc_pcb k = Inr (new, set_pcb new ((pcbs k new) \<lparr> state := READY, priority := NORMAL \<rparr>) (set_kmem m0 k))"
    "new \<in> F" "\<And>a. a \<notin> pcb_cells (ba_pcbs k) n \<Longrightarrow> m0 a = kmem k a" "m0 p = kmem k p" "m0 (p + 8) = kmem k (p + 8)"
    "p \<notin> {new, new + 8}" "p + 8 \<notin> {new, new + 8}" "{new, new + 8} \<subseteq> pcb_cells (ba_pcbs k) n"
    by (rule alloc_pcb_new [OF inv ne p]) (rule that; assumption)
  define k0 where "k0 = set_pcb new ((pcbs k new) \<lparr> state := READY, priority := NORMAL \<rparr>) (set_kmem m0 k)"
  define m where "m = m0(new := m0 p, new + 8 := m0 (p + 8))"
  have pn: "p \<noteq> new" using al(6) by simp
  have k0: "copy_pcb new p k0 = set_kmem m (set_pcb new (pcbs k p) k0)"
    using pn by (simp add: copy_pcb_def k0_def m_def Let_def set_pcb_def set_kmem_def kmem_def)
  have mem: "m a = kmem k a" if "a \<notin> pcb_cells (ba_pcbs k) n" for a
    using that al(3,8) by (auto simp: m_def)
  have mp: "m p = kmem k p" "m (p + 8) = kmem k (p + 8)" using al(4-7) by (simp_all add: m_def)
  have pcb: "\<not> own_cells s B A a" "\<not> table_cell (kmem k) T a" if "a \<in> pcb_cells (ba_pcbs k) n" for a
    using ok that by (simp_all add: process_ok_def)
  have pt: "pt_inv s B A ((ph k) \<lparr> pmem := m \<rparr>) T"
    by (rule pt_inv_agree(1) [of s B A "ph k" T m])
      (use ok mem pcb in \<open>auto simp: process_ok_def kmem_def\<close>)
  have uh: "user_half (\<lambda>a. own_cells s B A a \<or> a \<in> pcb_cells (ba_pcbs k) n) (kmem k) T"
    using ok by (simp add: process_ok_def)
  note ag = user_half_agree [OF uh, of m "own_cells s B A"]
  have src: "user_copyable s B A m T" "user_pages m T = user_pages (kmem k) T"
    using ag mem by (simp_all add: user_half_def user_copyable_def)
  from virt_clone_mapping_result [OF pt, simplified, OF src(1)] enough obtain T' st' A' Fs where
    r: "virt_clone_mapping ((ph k) \<lparr> pmem := m \<rparr>) T = Inr (T', st')" and
    cl: "cloned s B ((ph k) \<lparr> pmem := m \<rparr>) A T T' st' A' Fs" unfolding src(2) by auto
  define k1 where "k1 = (copy_pcb new p k0) \<lparr> ph := st' \<rparr>"
  have ph0: "ph (copy_pcb new p k0) = (ph k) \<lparr> pmem := m \<rparr>" "pcb_page_table (copy_pcb new p k0) p = T"
    unfolding k0 using T mp(2) by (simp_all add: k0_def set_pcb_def set_kmem_def pcb_page_table_def kmem_def)
  have "new \<noteq> 0" using al(2) ba.nonzero [OF inv] by auto
  have "fork count p k = fork_finish count p new T' k1"
    unfolding k1_def by (rule fork_after_clone [OF al(1) [folded k0_def] \<open>new \<noteq> 0\<close>]) (simp only: ph0 r)
  moreover have "kcpu k1 = kcpu k" "pcbs k1 = (pcbs k)(new := pcbs k p)"
    unfolding k1_def k0 by (simp_all add: k0_def set_pcb_def set_kmem_def)
  moreover have "ph k1 = st'" by (simp add: k1_def)
  ultimately show thesis using that [of new T' k1 m A' Fs] al(2,6-8) mem mp pt src(1) cl by blast
qed

text \<open>Pages of one address space again: the offset in the page, and what depends on the page only.\<close>

lemma same_page_translate:
  assumes "user_half free m T" and "user_addr v" and "same_page v w" and "v AND 0xFFF = w AND 0xFFF"
  shows "translate m T v = translate m T w"
  using user_half_page(1) [OF assms(1,2)] assms(3,4)
  by (auto simp: same_page_def same_large_page_def translate_def Let_def)

lemma cloned_cells_distinct:
  assumes cl: "cloned s B st A T p st' A' Fs" and src: "user_copyable s B A (pmem st) T"
    and uh: "user_half free m U" and v: "user_addr v" "user_addr w"
    and x: "translate (pmem st') p v = Some x" "translate (pmem st') p w = Some x"
  shows "translate m U v = translate m U w"
proof (rule same_page_translate [OF uh v(1)])
  show "same_page v w" by (rule cloned_frames_distinct [OF cl src v x refl])
  have off: "x AND 0xFFF = u AND 0xFFF" if u: "user_addr u" "translate (pmem st') p u = Some x" for u
  proof -
    obtain q Y where q: "x = q + (u AND 0xFFF)" "q = ENTRY_TO_ADDR (entry_at (pmem st') Y [PDPT_INDEX u, PDT_INDEX u] (PT_INDEX u))"
      by (rule cloned_user_page [OF cl src u])
    have "q AND 0xFFF = 0" by (simp add: q(2) ENTRY_TO_ADDR_def and.assoc)
    then have "unat (q AND 0xFFF) + unat (u AND 0xFFF) < 2 ^ 12" using page_offset_less [of u] by (simp add: word_less_nat_alt)
    from page_offset_add(2) [OF this] \<open>q AND 0xFFF = 0\<close> show ?thesis by (simp add: q(1))
  qed
  show "v AND 0xFFF = w AND 0xFFF" using off [OF v(1) x(1)] off [OF v(2) x(2)] by simp
qed

text \<open>What a look-up of a user address in a clone finds.\<close>

lemma cloned_lookup:
  assumes inv: "pt_inv s B A st T" and cl: "cloned s B st A T p st' A' Fs" and src: "user_copyable s B A (pmem st) T"
    and v: "user_addr v"
  shows "translate (pmem st') p v = Some x \<Longrightarrow> virt_lookup_phys (pmem st') p v = Some x"
    and "translate (pmem st') p v = Some x \<Longrightarrow> unat (v AND 0xFFF) + unat d < 2 ^ 12 \<Longrightarrow>
      translate (pmem st') p (v + d) = Some (x + d)"
proof -
  have small: "\<not> large (entry_at (pmem st') p (pd_path v) (PDT_INDEX v))"
    if "present (entry_at (pmem st') p (pd_path v) (PDT_INDEX v))"
    using cloned_user_entry [OF cl src, of "[PDPT_INDEX v]" "PML4_INDEX v" "PDT_INDEX v"] v that
    by (auto simp: entry_copied_def user_addr_def index_less split: if_splits)
  assume x: "translate (pmem st') p v = Some x"
  then have "\<not> large (entry_at (pmem st') p (pd_path v) (PDT_INDEX v))"
    using small by (auto simp: translate_def Let_def split: if_splits)
  moreover have "tables_inv s B A' (pmem st') p" using cloned_pt_inv(1) [OF inv cl src] by (simp add: pt_inv_def)
  ultimately show "virt_lookup_phys (pmem st') p v = Some x" using x by (intro lookup_small)
  show "translate (pmem st') p (v + d) = Some (x + d)" if "unat (v AND 0xFFF) + unat d < 2 ^ 12"
    by (rule translate_offset(1) [OF small x that])
qed

text \<open>
  Two address spaces in the memory \<open>m\<close>, of which the first, with the tables \<open>T\<close>, was there in \<open>K\<close> and
  the second is its copy in frames of \<open>own\<close>; \<open>P\<close> are cells of the kernel beside both.
\<close>

definition quiet :: "mem \<Rightarrow> addr \<Rightarrow> addr \<Rightarrow> addr \<Rightarrow> bool" where
  "quiet m T T' a \<longleftrightarrow> \<not> table_cell m T a \<and> \<not> table_cell m T' a"

definition two_spaces :: "(addr \<Rightarrow> bool) \<Rightarrow> addr set \<Rightarrow> mem \<Rightarrow> mem \<Rightarrow> addr \<Rightarrow> addr \<Rightarrow> bool" where
  "two_spaces own P K m T T' \<longleftrightarrow>
     (\<forall>v. translate m T v = translate K T v) \<and> (\<forall>a\<in>P. \<not> own a \<and> quiet m T T' a) \<and>
     (\<forall>v x. user_addr v \<longrightarrow> translate K T v = Some x \<longrightarrow>
        \<not> own (PHYS_TO_VIRT x) \<and> PHYS_TO_VIRT x \<notin> P \<and> m (PHYS_TO_VIRT x) = K (PHYS_TO_VIRT x) \<and> quiet m T T' (PHYS_TO_VIRT x)) \<and>
     (\<forall>v. user_addr v \<longrightarrow> translate K T v = None \<longrightarrow> translate m T' v = None) \<and>
     (\<forall>v x. user_addr v \<longrightarrow> translate K T v = Some x \<longrightarrow> (\<exists>x'. translate m T' v = Some x' \<and> virt_lookup_phys m T' v = Some x' \<and>
        own (PHYS_TO_VIRT x') \<and> m (PHYS_TO_VIRT x') = K (PHYS_TO_VIRT x) \<and> quiet m T T' (PHYS_TO_VIRT x'))) \<and>
     (\<forall>v w x. user_addr v \<longrightarrow> user_addr w \<longrightarrow> translate m T' v = Some x \<longrightarrow> translate m T' w = Some x \<longrightarrow>
        translate K T v = translate K T w)"

lemma cloned_two_spaces:
  assumes ok: "process_ok s B A n k T" and pt: "pt_inv s B A ((ph k) \<lparr> pmem := m \<rparr>) T" and src: "user_copyable s B A m T"
    and mem: "\<And>a. a \<notin> pcb_cells (ba_pcbs k) n \<Longrightarrow> m a = kmem k a"
    and cl: "cloned s B ((ph k) \<lparr> pmem := m \<rparr>) A T T' st' A' Fs"
  shows "two_spaces (own_cells s B A) (pcb_cells (ba_pcbs k) n) (kmem k) (pmem st') T T'"
proof -
  let ?own = "own_cells s B A" and ?P = "pcb_cells (ba_pcbs k) n" and ?K = "kmem k" and ?m = "pmem st'"
  have src': "user_copyable s B A (pmem ((ph k) \<lparr> pmem := m \<rparr>)) T" using src by simp
  have uh: "user_half (\<lambda>a. ?own a \<or> a \<in> ?P) ?K T" using ok by (simp add: process_ok_def)
  have P: "\<not> ?own a" "\<not> table_cell ?K T a" if "a \<in> ?P" for a using ok that by (simp_all add: process_ok_def)
  have m: "?m a = m a" if "\<not> ?own a" for a using cl that by (simp add: cloned_def cloning_def)
  have tb: "tables_inv s B A m T" using pt by (simp add: pt_inv_def)
  have notown: "\<not> ?own a" if "table_cell m T a" for a
    using that tables_ok [OF tb] unfolding table_cell_def table_ok_def by blast
  note K = tables_agree [of ?K T m] and M = tables_agree [of m T ?m, OF m [OF notown]]
  have Km: "m a = ?K a" if "table_cell ?K T a" for a using mem P(2) that by blast
  have cells: "table_cell ?m T a = table_cell ?K T a" for a using M(4) K(4) [OF Km] by simp
  have quiet: "quiet ?m T T' a" if "\<not> ?own a" "\<not> table_cell ?K T a" for a
    using cloned_table_cell [OF pt cl, of a] that K(4) [OF Km] by (auto simp: quiet_def cells)
  have tr: "translate ?m T v = translate ?K T v" "translate m T v = translate ?K T v" for v
    using M(3) K(3) [OF Km] by simp_all
  have user: "\<not> ?own (PHYS_TO_VIRT x) \<and> PHYS_TO_VIRT x \<notin> ?P \<and> m (PHYS_TO_VIRT x) = ?K (PHYS_TO_VIRT x) \<and>
    \<not> table_cell ?K T (PHYS_TO_VIRT x)" if "user_addr v" "translate ?K T v = Some x" for v x
    using user_half_page(3) [OF uh that] mem ok that by (auto simp: process_ok_def)
  have child: "\<exists>x'. translate ?m T' v = Some x' \<and> virt_lookup_phys ?m T' v = Some x' \<and>
      ?own (PHYS_TO_VIRT x') \<and> ?m (PHYS_TO_VIRT x') = ?K (PHYS_TO_VIRT x) \<and> quiet ?m T T' (PHYS_TO_VIRT x')"
    if v: "user_addr v" and x: "translate ?K T v = Some x" for v x
  proof -
    from cloned_user_translate(2) [OF cl src' v, of x] x obtain x' where
      x': "translate ?m T' v = Some x'" "?m (PHYS_TO_VIRT x') = m (PHYS_TO_VIRT x)" by (auto simp: tr(2))
    note c = cloned_user_cell [OF pt cl src' v x'(1)]
    have "\<not> table_cell ?m T (PHYS_TO_VIRT x')" using c(2) notown M(4) by blast
    then show ?thesis using x' c user [OF v x] cloned_lookup(1) [OF pt cl src' v x'(1)]
      by (intro exI [of _ x']) (simp add: quiet_def)
  qed
  have "translate ?m T' v = None" if "user_addr v" "translate ?K T v = None" for v
    using cloned_user_translate(1) [OF cl src' that(1)] that(2) by (simp add: tr(2))
  then show ?thesis
    unfolding two_spaces_def
    using tr(1) user child m quiet P cloned_cells_distinct [OF cl src' uh] by (intro conjI allI ballI impI; metis)
qed

lemma two_spacesD:
  assumes "two_spaces own P K m T T'"
  shows "translate m T v = translate K T v" and "a \<in> P \<Longrightarrow> \<not> own a" and "a \<in> P \<Longrightarrow> quiet m T T' a"
    and "user_addr v \<Longrightarrow> translate K T v = Some x \<Longrightarrow> \<not> own (PHYS_TO_VIRT x)"
    and "user_addr v \<Longrightarrow> translate K T v = Some x \<Longrightarrow> PHYS_TO_VIRT x \<notin> P"
    and "user_addr v \<Longrightarrow> translate K T v = Some x \<Longrightarrow> m (PHYS_TO_VIRT x) = K (PHYS_TO_VIRT x)"
    and "user_addr v \<Longrightarrow> translate K T v = Some x \<Longrightarrow> quiet m T T' (PHYS_TO_VIRT x)"
    and "user_addr v \<Longrightarrow> translate K T v = None \<Longrightarrow> translate m T' v = None"
    and "user_addr v \<Longrightarrow> user_addr w \<Longrightarrow> translate m T' v = Some x \<Longrightarrow> translate m T' w = Some x \<Longrightarrow>
      translate K T v = translate K T w"
  using assms unfolding two_spaces_def by blast+

lemma two_spaces_child:
  assumes "two_spaces own P K m T T'" and "user_addr v" and "translate K T v = Some x"
  obtains x' where "translate m T' v = Some x'" and "virt_lookup_phys m T' v = Some x'" and "own (PHYS_TO_VIRT x')"
    and "m (PHYS_TO_VIRT x') = K (PHYS_TO_VIRT x)" and "quiet m T T' (PHYS_TO_VIRT x')"
  using assms unfolding two_spaces_def by blast

text \<open>What the two processes read in the memory \<open>fork\<close> leaves.\<close>

lemma fork_mem_reads:
  assumes ts: "two_spaces own P K m T T'" and P: "new \<in> P" "new + 8 \<in> P"
    and c: "user_addr c" "user_addr (c + 40)" "translate K T (c + 40) = Some (pc + 40)" "translate m T' (c + 40) = Some (pc' + 40)"
    and d: "user_addr d" "translate K T d = Some da" "translate m T' d = Some da'" and ne: "da \<noteq> pc + 40"
  defines "m' \<equiv> fork_mem m new T' c pc da pc' da'"
  shows "a \<in> fork_cells new pc da pc' da' \<Longrightarrow> quiet m T T' a"
    and "reads_at m' T d = Some 0" and "reads_at m' T (c + 40) = Some 0" and "reads_at m' T' d = Some 1"
    and "reads_at m' T' (c + 40) = Some 0"
    and "user_addr v \<Longrightarrow> translate K T v \<notin> {Some da, Some (pc + 40)} \<Longrightarrow>
      reads_at m' T v = reads_at K T v \<and> reads_at m' T' v = reads_at K T v"
proof -
  note D = two_spacesD [OF ts]
  obtain y where y: "translate m T' (c + 40) = Some y" "own (PHYS_TO_VIRT y)" "quiet m T T' (PHYS_TO_VIRT y)"
    by (rule two_spaces_child [OF ts c(2,3)])
  obtain z where z: "translate m T' d = Some z" "own (PHYS_TO_VIRT z)" "quiet m T T' (PHYS_TO_VIRT z)"
    by (rule two_spaces_child [OF ts d(1,2)])
  have c': "own (PHYS_TO_VIRT (pc' + 40))" "quiet m T T' (PHYS_TO_VIRT (pc' + 40))" using y c(4) by simp_all
  have d': "own (PHYS_TO_VIRT da')" "quiet m T T' (PHYS_TO_VIRT da')" using z d(3) by simp_all
  show q: "quiet m T T' a" if "a \<in> fork_cells new pc da pc' da'" for a
    using that D(3) P D(7) [OF c(2,3)] D(7) [OF d(1,2)] c'(2) d'(2) by (auto simp: fork_cells_def)
  have tr: "translate m' T v = translate K T v" "translate m' T' v = translate m T' v" for v
    using tables_agree(3) [of m T m'] tables_agree(3) [of m T' m'] q D(1) fork_mem_other [of _ new pc da pc' da' m T' c]
    by (metis m'_def quiet_def)+
  have pn: "PHYS_TO_VIRT x \<notin> {new, new + 8}" if "user_addr v" "translate K T v = Some x" for v x
    using D(5) [OF that] P by auto
  have on: "\<not> own new" "\<not> own (new + 8)" using D(2) P by blast+
  have oc: "\<not> own (PHYS_TO_VIRT (pc + 40))" and od: "\<not> own (PHYS_TO_VIRT da)" using D(4) c(2,3) d(1,2) by blast+
  have sep: "PHYS_TO_VIRT (pc + 40) \<notin> {PHYS_TO_VIRT (pc' + 40), PHYS_TO_VIRT da'}"
    "PHYS_TO_VIRT da \<notin> {PHYS_TO_VIRT (pc' + 40), PHYS_TO_VIRT da'}" using oc od c'(1) d'(1) by (metis insertE singletonD)+
  have child: "da' \<noteq> pc' + 40" using D(9) [OF d(1) c(2) d(3)] c(3,4) d(2) ne by auto
  have "m' (PHYS_TO_VIRT da) = 0" "m' (PHYS_TO_VIRT (pc + 40)) = 0" "m' (PHYS_TO_VIRT da') = 1" "m' (PHYS_TO_VIRT (pc' + 40)) = 0"
    using sep child ne by (simp_all add: m'_def fork_mem_def)
  then show "reads_at m' T d = Some 0" "reads_at m' T (c + 40) = Some 0" "reads_at m' T' d = Some 1" "reads_at m' T' (c + 40) = Some 0"
    by (simp_all add: reads_at_def tr c d)
  show "reads_at m' T v = reads_at K T v \<and> reads_at m' T' v = reads_at K T v"
    if v: "user_addr v" "translate K T v \<notin> {Some da, Some (pc + 40)}" for v
  proof (cases "translate K T v")
    case None
    then show ?thesis using D(8) [OF v(1)] by (simp add: reads_at_def tr)
  next
    case (Some x)
    obtain x' where x': "translate m T' v = Some x'" "own (PHYS_TO_VIRT x')" "m (PHYS_TO_VIRT x') = K (PHYS_TO_VIRT x)"
      by (rule two_spaces_child [OF ts v(1) Some])
    have "x' \<noteq> da'" "x' \<noteq> pc' + 40" using D(9) [OF v(1) d(1), of x'] D(9) [OF v(1) c(2), of x'] x'(1) d c v(2) by auto
    moreover have "PHYS_TO_VIRT x' \<notin> {new, new + 8, PHYS_TO_VIRT (pc + 40), PHYS_TO_VIRT da}"
      using x'(2) on oc od by (metis insertE singletonD)
    ultimately have "PHYS_TO_VIRT x' \<notin> fork_cells new pc da pc' da'" by (simp add: fork_cells_def)
    moreover have "PHYS_TO_VIRT x \<notin> fork_cells new pc da pc' da'"
    proof -
      have "x \<noteq> da" "x \<noteq> pc + 40" using v(2) Some by auto
      moreover have "x \<noteq> pc' + 40" "x \<noteq> da'" using D(4) [OF v(1) Some] c'(1) d'(1) by auto
      ultimately show ?thesis using pn [OF v(1) Some] by (simp add: fork_cells_def)
    qed
    ultimately have "m' (PHYS_TO_VIRT x') = K (PHYS_TO_VIRT x)" "m' (PHYS_TO_VIRT x) = K (PHYS_TO_VIRT x)"
      using x'(3) D(6) [OF v(1) Some] by (simp_all add: fork_mem_other m'_def)
    then show ?thesis using Some x'(1) by (simp add: reads_at_def tr)
  qed
qed

lemma fork_finish_two_spaces:
  assumes ts: "two_spaces own P K (kmem k) T T'" and tb: "tables_inv s B A (kmem k) T'" and cr3: "cr3 (kcpu k) = T"
    and P: "new \<in> P" "new + 8 \<in> P" "p \<in> P" "p + 8 \<in> P" and pn: "p \<notin> {new, new + 8}" "p + 8 \<notin> {new, new + 8}"
    and m: "kmem k p = c" "kmem k (p + 8) = T"
    and c: "user_addr c" "user_addr (c + 40)" "translate K T c = Some pc" "translate K T (c + 40) = Some (pc + 40)"
      "translate (kmem k) T' c = Some pc'" "translate (kmem k) T' (c + 40) = Some (pc' + 40)"
    and d: "K (PHYS_TO_VIRT pc) = d" "user_addr d" "translate K T d = Some da" "translate (kmem k) T' d = Some da'" "da \<noteq> pc + 40"
  defines "m' \<equiv> fork_mem (kmem k) new T' c pc da pc' da'"
  shows "fork_finish count p new T' k = and_then (schedule new (set_kmem m' k)) (dispatch count)"
    and "m' new = c" "m' (new + 8) = T'" "m' p = c" "m' (p + 8) = T"
proof -
  note D = two_spacesD [OF ts]
  note R = fork_mem_reads [OF ts P(1,2) c(1,2,4,6) d(2-5)]
  obtain x where "translate (kmem k) T' c = Some x" "virt_lookup_phys (kmem k) T' c = Some x"
    "own (PHYS_TO_VIRT x)" "kmem k (PHYS_TO_VIRT x) = K (PHYS_TO_VIRT pc)"
    by (rule two_spaces_child [OF ts c(1,3)])
  then have pc': "virt_lookup_phys (kmem k) T' c = Some pc'" "own (PHYS_TO_VIRT pc')" "kmem k (PHYS_TO_VIRT pc') = d"
    using c(5) d(1) by simp_all
  obtain y where "translate (kmem k) T' (c + 40) = Some y" "own (PHYS_TO_VIRT y)"
    by (rule two_spaces_child [OF ts c(2,4)])
  then have own40: "own (PHYS_TO_VIRT (pc' + 40))" using c(6) by simp
  obtain z where "translate (kmem k) T' d = Some z" "virt_lookup_phys (kmem k) T' d = Some z" "own (PHYS_TO_VIRT z)"
    by (rule two_spaces_child [OF ts d(2,3)])
  then have da': "virt_lookup_phys (kmem k) T' d = Some da'" "own (PHYS_TO_VIRT da')" using d(4) by simp_all
  have pcb: "a \<notin> fork_cells new pc da pc' da'" if "a \<in> P" "a \<notin> {new, new + 8}" for a
    using that D(2) [OF that(1)] own40 da'(2) D(5) [OF c(2,4)] D(5) [OF d(2,3)] by (auto simp: fork_cells_def)
  have parent: "a \<notin> {new, new + 8}" if "a \<notin> P" for a using that P by auto
  have child: "a \<notin> {new, new + 8, PHYS_TO_VIRT (pc + 40), PHYS_TO_VIRT da}" if "own a" for a
    using that D(2) P D(4) [OF c(2,4)] D(4) [OF d(2,3)] by auto
  show "fork_finish count p new T' k = and_then (schedule new (set_kmem m' k)) (dispatch count)"
    unfolding m'_def
    using R(1) m(1) c pc' d da' tb cr3 D(6) [OF c(1,3)] pcb [OF P(3) pn(1)] pn(1) parent [OF D(5) [OF c(1,3)]] child [OF pc'(2)]
    by (intro fork_finish_result [where T = T and d = d and s = s and B = B and A = A])
      (simp_all add: quiet_def fork_cells_def D(1))
  have "a \<notin> PHYS_TO_VIRT ` {pc + 40, da, pc' + 40, da'}" if "a \<in> {new, new + 8}" for a
    using that parent [OF D(5) [OF c(2,4)]] parent [OF D(5) [OF d(2,3)]] child [OF own40] child [OF da'(2)] by auto
  then show "m' new = c" "m' (new + 8) = T'" by (auto simp: fork_mem_def m'_def)
  show "m' p = c" "m' (p + 8) = T"
    using m fork_mem_other [OF pcb [OF P(3) pn(1)]] fork_mem_other [OF pcb [OF P(4) pn(2)]] by (simp_all add: m'_def)
qed

section \<open>Properties\<close>

text \<open>C4. The system call \<open>fork\<close>, from the allocation of the PCB to the hand-over to the scheduler: if a PCB and
  enough pages are free, it queues a new PCB and dispatches.  The new process has the page tables \<open>T'\<close>, the context
  address and the fields of the old one.  The cell the parameter names reads 0 in the parent and 1 in the
  child, the status register 0 in both, and at every other user address both read what the parent read
  before.\<close>

theorem fork_tells_parent_and_child_apart:
  assumes ok: "process_ok s B A n k T" and T: "pcb_page_table k p = T" "cr3 (kcpu k) = T"
    and inv: "block_inv (ba_pcbs k) 40 n (kmem k) F" and ne: "F \<noteq> {}"
    and p: "p \<in> block_addrs (ba_pcbs k) 40 n" "p \<notin> F" and enough: "user_pages (kmem k) T < card A"
    and c: "pcb_context k p = c" "user_addr c" "unat (c AND 0xFFF) + 176 \<le> 2 ^ 12"
    and d: "get_reg RDI p k = Inr d" "user_addr d" "translate (kmem k) T d = Some da"
      "translate (kmem k) T (c + reg_offset RAX) \<noteq> Some da"
  shows "\<exists>new T' k'. fork count p k = and_then (schedule new k') (dispatch count) \<and> new \<in> F \<and>
    pcb_page_table k' new = T' \<and> pcb_context k' new = c \<and> pcb_page_table k' p = T \<and> pcb_context k' p = c \<and>
    pcbs k' = (pcbs k)(new := pcbs k p) \<and> kcpu k' = kcpu k \<and>
    reads_at (kmem k') T d = Some 0 \<and> reads_at (kmem k') T' d = Some 1 \<and>
    reads_at (kmem k') T (c + reg_offset RAX) = Some (status_code SUCCESS) \<and>
    reads_at (kmem k') T' (c + reg_offset RAX) = Some (status_code SUCCESS) \<and>
    (\<forall>v. user_addr v \<longrightarrow> translate (kmem k) T v \<notin> {Some da, translate (kmem k) T (c + reg_offset RAX)} \<longrightarrow>
      reads_at (kmem k') T v = reads_at (kmem k) T v \<and> reads_at (kmem k') T' v = reads_at (kmem k) T v)"
proof -
  let ?own = "own_cells s B A" and ?P = "pcb_cells (ba_pcbs k) n"
  obtain new m T' k1 A' Fs where f: "fork count p k = fork_finish count p new T' k1" "new \<in> F"
    "p \<notin> {new, new + 8}" "p + 8 \<notin> {new, new + 8}" "{new, new + 8} \<subseteq> ?P"
    "\<And>a. a \<notin> ?P \<Longrightarrow> m a = kmem k a" "m p = kmem k p" "m (p + 8) = kmem k (p + 8)"
    and pt: "pt_inv s B A ((ph k) \<lparr> pmem := m \<rparr>) T" and src: "user_copyable s B A m T"
    and cl: "cloned s B ((ph k) \<lparr> pmem := m \<rparr>) A T T' (ph k1) A' Fs"
    and k1: "kcpu k1 = kcpu k" "pcbs k1 = (pcbs k)(new := pcbs k p)"
    by (rule fork_to_clone [OF ok T(1) inv ne p enough]) (rule that; assumption)
  have ts: "two_spaces ?own ?P (kmem k) (kmem k1) T T'"
    using cloned_two_spaces [OF ok pt src f(6) cl] by (simp add: kmem_def)
  note D = two_spacesD [OF ts]
  have src': "user_copyable s B A (pmem ((ph k) \<lparr> pmem := m \<rparr>)) T" using src by simp
  have pP: "p \<in> ?P" "p + 8 \<in> ?P" using p(1) by (auto simp: pcb_cells_def)
  have m1: "kmem k1 p = c" "kmem k1 (p + 8) = T"
    using cl D(2) pP f(7,8) c(1) T(1) by (simp_all add: cloned_def cloning_def kmem_def pcb_context_def pcb_page_table_def)
  from d(1) obtain pc where pc: "translate (kmem k) T c = Some pc" "kmem k (PHYS_TO_VIRT pc) = d"
    by (auto simp: get_reg_def user_read_def user_cell_def c(1) T(2) split: option.splits)
  have off: "unat (c AND 0xFFF) + unat (40 :: u64) < 2 ^ 12" using c(3) by simp
  have uh: "user_half (\<lambda>a. ?own a \<or> a \<in> ?P) (kmem k) T" using ok by (simp add: process_ok_def)
  have c40: "translate (kmem k) T (c + 40) = Some (pc + 40)" "user_addr (c + 40)"
    using translate_offset [OF _ pc(1) off] user_half_page(1) [OF uh c(2)] c(2) by blast+
  obtain pc' where pc': "translate (kmem k1) T' c = Some pc'" by (rule two_spaces_child [OF ts c(2) pc(1)])
  have c40': "translate (kmem k1) T' (c + 40) = Some (pc' + 40)"
    using cloned_lookup(2) [OF pt cl src' c(2)] pc' off by (simp add: kmem_def)
  obtain da' where da': "translate (kmem k1) T' d = Some da'" by (rule two_spaces_child [OF ts d(2,3)])
  have ne40: "da \<noteq> pc + 40" using d(4) c40(1) by simp
  have P2: "new \<in> ?P" "new + 8 \<in> ?P" using f(5) by simp_all
  have "tables_inv s B A' (kmem k1) T'" "cr3 (kcpu k1) = T"
    using cloned_pt_inv(1) [OF pt cl src'] k1(1) T(2) by (simp_all add: pt_inv_def kmem_def)
  note R = fork_finish_two_spaces [OF ts this P2 pP f(3,4) m1 c(2) c40(2) pc(1) c40(1) pc' c40' pc(2) d(2,3) da' ne40]
    fork_mem_reads [OF ts P2 c(2) c40(2,1) c40' d(2,3) da' ne40]
  show ?thesis
    using f(1,2) k1 R c40(1)
    by (intro exI [of _ new] exI [of _ T'] exI [of _ "set_kmem (fork_mem (kmem k1) new T' c pc da pc' da') k1"])
      (simp add: pcb_context_def pcb_page_table_def)
qed

text \<open>
  The process with one page again: its PCB is the first of two blocks at \<open>pcb_base\<close>, its context lies at
  the start of the page and the parameter names a cell of the same page.
\<close>

abbreviation pcb_base :: addr where "pcb_base \<equiv> 0xFFFF900000000000"

definition forking_mem :: mem where
  "forking_mem = process_mem(PHYS_TO_VIRT 0x105000 := 0x8048200, pcb_base := pcb_base + 48, pcb_base + 8 := pcb_base + 128,
     pcb_base + 16 := pcb_base + 88, pcb_base + 24 := 40, pcb_base + 32 := 0,
     pcb_base + 48 := 0x8048000, pcb_base + 56 := 0x101000)"

definition forking_kernel :: kernel where
  "forking_kernel = sample_kernel
     \<lparr> ph := process_state \<lparr> pmem := forking_mem \<rparr>, kcpu := reset_cpu \<lparr> cr3 := 0x101000 \<rparr>, ba_pcbs := pcb_base \<rparr>"

lemma forking_blocks: "block_addrs pcb_base 40 2 = {pcb_base + 48, pcb_base + 88}"
  by (auto simp: block_addrs_def blk_def lessThan_Suc numeral_2_eq_2)

lemma forking_page: "MASK_4KIB a = pcb_base" if "a \<in> pcb_cells pcb_base 2"
  using that by (auto simp: pcb_cells_def header_of_def forking_blocks MASK_4KIB_def)

lemma forking_pcb_cell:
  assumes "a \<in> pcb_cells pcb_base 2"
  shows "\<not> own_cells 0xFFFF800000110008 {sample_pool} sample_avail a"
    and "X \<in> process_pages \<Longrightarrow> MASK_4KIB a \<noteq> PHYS_TO_VIRT X"
proof -
  show "\<not> own_cells 0xFFFF800000110008 {sample_pool} sample_avail a"
    by (rule sample_not_own) (simp_all add: forking_page [OF assms] MASK_2MIB_def)
  show "MASK_4KIB a \<noteq> PHYS_TO_VIRT X" if "X \<in> process_pages"
    using that by (auto simp: forking_page [OF assms] PHYS_TO_VIRT_def)
qed

lemma process_table_cell: "table_cell process_mem 0x101000 a \<Longrightarrow> \<exists>X\<in>process_pages - {0x105000}. MASK_4KIB a = PHYS_TO_VIRT X"
  unfolding table_cell_def using process_walk entry_cell(1) process_page_aligned by (fastforce simp del: insert_iff simp: insert_iff)

lemma process_translate:
  assumes "translate process_mem 0x101000 v = Some x"
  shows "MASK_4KIB (PHYS_TO_VIRT x) = PHYS_TO_VIRT 0x105000"
proof -
  note e = process_table_entry process_entry_table index_less entry_at_Cons entry_at_def Let_def
  have pd: "entry_at process_mem 0x101000 (pd_path v) (PDT_INDEX v) \<in> {0, 0x104007}" by (simp add: e)
  have "entry_at process_mem 0x101000 (pt_path v) (PT_INDEX v) \<in> {0, 0x105007}" by (simp add: e)
  with pd assms have "x = 0x105000 + (v AND 0xFFF)"
    by (auto simp: translate_def Let_def process_entry_table split: if_splits)
  then have "PHYS_TO_VIRT x = PHYS_TO_VIRT 0x105000 + (v AND 0xFFF)" by (simp add: PHYS_TO_VIRT_def)
  then show ?thesis using page_cell [OF process_page_aligned page_offset_less] by simp
qed

lemma forking_mem_other:
  assumes "a \<notin> pcb_cells pcb_base 2" and "a \<noteq> PHYS_TO_VIRT 0x105000"
  shows "forking_mem a = process_mem a"
  using assms by (auto simp: forking_mem_def pcb_cells_def header_of_def forking_blocks)

lemma forking_process_ok: "process_ok 0xFFFF800000110008 {sample_pool} sample_avail 2 forking_kernel 0x101000"
  and forking_user_pages: "user_pages (kmem forking_kernel) 0x101000 = 4"
  and forking_translate: "translate (kmem forking_kernel) 0x101000 v = translate process_mem 0x101000 v"
proof -
  let ?own = "own_cells 0xFFFF800000110008 {sample_pool} sample_avail"
  let ?H = "pcb_cells pcb_base 2"
  have K: "kmem forking_kernel = forking_mem" "ba_pcbs forking_kernel = pcb_base" "pmem process_state = process_mem"
    "ph forking_kernel = process_state \<lparr> pmem := forking_mem \<rparr>"
    by (simp_all add: forking_kernel_def kmem_def process_state_def)
  have tab: "forking_mem a = process_mem a" if t: "table_cell process_mem 0x101000 a" for a
  proof -
    obtain X where X: "X \<in> process_pages - {0x105000}" "MASK_4KIB a = PHYS_TO_VIRT X" using process_table_cell [OF t] by blast
    then have "a \<notin> ?H" using forking_pcb_cell(2) by blast
    moreover have "a \<noteq> PHYS_TO_VIRT 0x105000" using X by (auto simp: MASK_4KIB_def PHYS_TO_VIRT_def)
    ultimately show ?thesis by (rule forking_mem_other)
  qed
  have own: "forking_mem a = process_mem a" if "?own a" for a
  proof (rule forking_mem_other)
    show "a \<notin> ?H" using that forking_pcb_cell(1) by blast
    show "a \<noteq> PHYS_TO_VIRT 0x105000"
      using that process_page_not_own [of "0x105000" a] by (auto simp: MASK_4KIB_def PHYS_TO_VIRT_def)
  qed
  note ag = tables_agree [of process_mem "0x101000" forking_mem, OF tab]
  show tr: "translate (kmem forking_kernel) 0x101000 v = translate process_mem 0x101000 v" for v
    unfolding K using ag(3) by blast
  have pt: "pt_inv 0xFFFF800000110008 {sample_pool} sample_avail (ph forking_kernel) 0x101000"
    unfolding K(4) by (rule pt_inv_agree(1) [OF process_pt_inv]) (use own tab in \<open>simp_all add: K\<close>)
  have free: "\<not> (?own a \<or> a \<in> pcb_cells pcb_base 2)" if "X \<in> process_pages" "MASK_4KIB a = PHYS_TO_VIRT X" for X a
    using process_page_not_own [OF that] forking_pcb_cell(2) [OF _ that(1)] that(2) by blast
  have slot: "slot forking_mem X i = slot process_mem X i" if "X \<in> process_pages - {0x105000}" "i < 512" for X i
  proof (rule forking_mem_other)
    have c: "MASK_4KIB (PHYS_TO_VIRT X + 8 * of_nat i) = PHYS_TO_VIRT X"
      by (rule slot_cell) (use that process_page_aligned in auto)
    then show "PHYS_TO_VIRT X + 8 * of_nat i \<notin> ?H" using forking_pcb_cell(2) [of _ X] that(1) by auto
    show "PHYS_TO_VIRT X + 8 * of_nat i \<noteq> PHYS_TO_VIRT 0x105000"
      using c that(1) by (auto simp: MASK_4KIB_def PHYS_TO_VIRT_def)
  qed
  define fr where "fr = (\<lambda>a. ?own a \<or> a \<in> pcb_cells pcb_base 2)"
  have tree: "slots_copyable (copyable 3 fr forking_mem) 3 256 fr forking_mem 0x101000" "user_pages forking_mem 0x101000 = 4"
    by (rule process_tree [of fr forking_mem]; use free slot in \<open>simp only: fr_def; blast\<close>)+
  show "user_pages (kmem forking_kernel) 0x101000 = 4" unfolding K by (rule tree(2))
  show "process_ok 0xFFFF800000110008 {sample_pool} sample_avail 2 forking_kernel 0x101000"
    unfolding process_ok_def K(1,2) user_half_def
  proof (intro conjI ballI allI impI)
    show "\<not> ?own a" "\<not> table_cell forking_mem 0x101000 a" if "a \<in> pcb_cells pcb_base 2" for a
      using forking_pcb_cell [of a] that process_table_cell [of a] ag(4) by blast+
    show "\<not> table_cell forking_mem 0x101000 (PHYS_TO_VIRT x)"
      if "user_addr v \<and> translate forking_mem 0x101000 v = Some x" for v x
      using process_table_cell [of "PHYS_TO_VIRT x"] process_translate [of v x] that ag(3,4) by auto
  qed (use pt tree(1) [unfolded fr_def] in blast)+
qed

theorem fork_tells_parent_and_child_apart_witness:
  "\<exists>new T' k'. fork 0 (pcb_base + 48) forking_kernel = and_then (schedule new k') (dispatch 0) \<and>
    pcb_page_table k' new = T' \<and> reads_at (kmem k') 0x101000 0x8048200 = Some 0 \<and>
    reads_at (kmem k') T' 0x8048200 = Some 1 \<and> reads_at (kmem k') T' 0x8048000 = Some 0x8048200"
proof -
  let ?k = forking_kernel
  have K: "kmem ?k = forking_mem" "ba_pcbs ?k = pcb_base" "cr3 (kcpu ?k) = 0x101000"
    by (simp_all add: forking_kernel_def kmem_def)
  have pcb: "pcb_page_table ?k (pcb_base + 48) = 0x101000" "pcb_context ?k (pcb_base + 48) = 0x8048000"
    by (simp_all add: pcb_page_table_def pcb_context_def K forking_mem_def)
  have at: "block_at forking_mem pcb_base 40 2 1 []"
    by (simp add: block_at_def forking_mem_def blk_def stack_at_def PHYS_TO_VIRT_def)
  then have inv: "block_inv (ba_pcbs ?k) 40 2 (kmem ?k) (block_avail pcb_base 40 2 1 [])"
    unfolding block_inv_def K by blast
  have av: "block_avail pcb_base 40 2 1 [] = {pcb_base + 88}"
    by (simp add: block_avail_def blk_def atLeastLessThan_singleton numeral_2_eq_2)
  have t: "translate (kmem ?k) 0x101000 0x8048000 = Some 0x105000" "translate (kmem ?k) 0x101000 0x8048028 = Some 0x105028"
    "translate (kmem ?k) 0x101000 0x8048200 = Some 0x105200"
    using process_table_entry(1,2) [of 0] process_table_entry(3) [of 64] process_table_entry(4) [of 72]
    unfolding forking_translate
    by (simp_all add: translate_def entry_at_def PML4_INDEX_def PDPT_INDEX_def PDT_INDEX_def PT_INDEX_def Let_def
        process_entry_table)
  have cell: "kmem ?k (PHYS_TO_VIRT 0x105000) = 0x8048200"
    by (simp add: K forking_mem_def PHYS_TO_VIRT_def)
  have rdi: "get_reg RDI (pcb_base + 48) ?k = Inr 0x8048200"
    by (simp add: get_reg_def user_read_def user_cell_def pcb [simplified] K(3) t cell)
  have u: "user_addr 0x8048000" "user_addr 0x8048200" by (simp_all add: user_addr_def PML4_INDEX_def)
  have enough: "user_pages (kmem ?k) 0x101000 < card sample_avail"
    using sample_pages(4) by (simp add: forking_user_pages)
  have hyp: "block_avail pcb_base 40 2 1 [] \<noteq> {}" "pcb_base + 48 \<in> block_addrs (ba_pcbs ?k) 40 2"
    "pcb_base + 48 \<notin> block_avail pcb_base 40 2 1 []" "unat (0x8048000 AND 0xFFF :: u64) + 176 \<le> 2 ^ 12"
    "translate (kmem ?k) 0x101000 (0x8048000 + reg_offset RAX) \<noteq> Some 0x105200"
    by (simp_all add: av [simplified] forking_blocks K(2) t)
  obtain new T' k' where r: "fork 0 (pcb_base + 48) ?k = and_then (schedule new k') (dispatch 0)" "pcb_page_table k' new = T'"
    "reads_at (kmem k') 0x101000 0x8048200 = Some 0" "reads_at (kmem k') T' 0x8048200 = Some 1"
    "\<forall>v. user_addr v \<longrightarrow> translate (kmem ?k) 0x101000 v \<notin> {Some 0x105200, translate (kmem ?k) 0x101000 (0x8048000 + reg_offset RAX)} \<longrightarrow>
      reads_at (kmem k') 0x101000 v = reads_at (kmem ?k) 0x101000 v \<and> reads_at (kmem k') T' v = reads_at (kmem ?k) 0x101000 v"
    using fork_tells_parent_and_child_apart [where count = 0, OF forking_process_ok pcb(1) K(3) inv hyp(1-3) enough pcb(2) u(1) hyp(4) rdi u(2) t(3) hyp(5)]
    by (elim exE conjE) (rule that; assumption)
  have "reads_at (kmem k') T' 0x8048000 = Some 0x8048200"
    using r(5) [rule_format, of "0x8048000"] u(1) t by (simp add: reads_at_def cell)
  with r show ?thesis by blast
qed

end
