(* ===== verification/Kprintf.thy ===== *)
theory Kprintf
  imports Textmode
begin

text \<open>
  \<open>arch/x86_64/kprintf.c\<close>: formatted output on the text screen.  A C string is the list of its
  bytes up to the terminating NUL; the variable arguments are a list, an argument that is missing
  or of the wrong kind leaves the call undefined.  The reference functions \<open>digits_of\<close>, \<open>field\<close>
  and \<open>render\<close> say what text a format stands for.
\<close>

section \<open>The code\<close>

datatype karg = Num u64 | Str "u8 list"

definition BUFFER_LEN :: nat where "BUFFER_LEN = 21"

definition write_char :: "u8 \<Rightarrow> textmode \<Rightarrow> textmode" where
  "write_char c t = text_mode_char c t"

definition pad :: "nat \<Rightarrow> u8 \<Rightarrow> textmode \<Rightarrow> textmode" where
  "pad extra padchar t = (write_char padchar ^^ extra) t"

fun string_length :: "u8 list \<Rightarrow> nat" where
  "string_length [] = 0"
| "string_length (c # str) = string_length str + 1"

definition padstr :: "u8 list \<Rightarrow> nat \<Rightarrow> nat \<Rightarrow> bool \<Rightarrow> u8 \<Rightarrow> textmode \<Rightarrow> textmode" where
  "padstr str len width leftadjust padchar t =
     (let extra = int width - int len;
          t = (if extra > 0 \<and> \<not> leftadjust then pad (nat extra) padchar t else t);
          t = foldl (\<lambda>t i. write_char (str ! i) t) t [0..<len]
      in if extra > 0 \<and> leftadjust then pad (nat extra) padchar t else t)"

definition hexdigits :: "u8 list" where
  "hexdigits = [0x30, 0x31, 0x32, 0x33, 0x34, 0x35, 0x36, 0x37, 0x38, 0x39, 0x41, 0x42, 0x43, 0x44, 0x45, 0x46]"

text \<open>The digit loops fill the buffer from its end; their last argument is \<open>index + 1\<close>.\<close>

fun radix_loop :: "u8 list \<Rightarrow> u64 \<Rightarrow> u64 \<Rightarrow> nat \<Rightarrow> u8 list \<times> nat" where
  "radix_loop buf radix value 0 = (buf, 0)"
| "radix_loop buf radix value (Suc index) =
     (let buf = buf[index := hexdigits ! unat (value mod radix)];
          value = value div radix
      in if index \<noteq> 0 \<and> value \<noteq> 0 then radix_loop buf radix value index else (buf, index))"

definition convert_radix :: "u8 list \<Rightarrow> u8 \<Rightarrow> u64 \<Rightarrow> (u8 list \<times> nat) res" where
  "convert_radix buf radix value =
     kassert ''kprintf.c'' 185 (radix \<le> 16)
       (if radix = 0 then Inl Divide_error else Inr (radix_loop buf (ucast radix) value BUFFER_LEN))"

fun decimal_loop :: "u8 list \<Rightarrow> int \<Rightarrow> nat \<Rightarrow> u8 list \<times> nat" where
  "decimal_loop buf value 0 = (buf, 0)"
| "decimal_loop buf value (Suc index) =
     (let buf = buf[index := word_of_int (value mod 10) + 0x30];
          value = value div 10
      in if index \<noteq> 0 \<and> value \<noteq> 0 then decimal_loop buf value index else (buf, index))"

definition convert_decimal :: "u8 list \<Rightarrow> int \<Rightarrow> (u8 list \<times> nat) res" where
  "convert_decimal buf value =
     (if value = - (2 ^ 63) then Inl (Undefined ''negation of INT64_MIN'')
      else let negative = value < 0;
               value = (if value < 0 then - value else value);
               (buf, index) = decimal_loop buf value BUFFER_LEN
           in if negative
              then if index \<noteq> 0 then Inl (Panic ''convert_decimal: Bad index'')
                   else Inl (Undefined ''store before the buffer'')
              else Inr (buf, index))"

text \<open>One conversion: the buffer, the remaining arguments and the screen afterwards.\<close>

definition va_num :: "karg list \<Rightarrow> (u64 \<times> karg list) res" where
  "va_num args = (case args of Num n # args \<Rightarrow> Inr (n, args) | _ \<Rightarrow> Inl (Undefined ''va_arg''))"

definition va_str :: "karg list \<Rightarrow> (u8 list \<times> karg list) res" where
  "va_str args = (case args of Str s # args \<Rightarrow> Inr (s, args) | _ \<Rightarrow> Inl (Undefined ''va_arg''))"

definition print_radix ::
  "u8 \<Rightarrow> nat \<Rightarrow> bool \<Rightarrow> u8 \<Rightarrow> u8 list \<Rightarrow> karg list \<Rightarrow> textmode \<Rightarrow> (u8 list \<times> karg list \<times> textmode) res" where
  "print_radix radix width leftadjust padchar buffer args t =
     and_then (va_num args) (\<lambda>(n, args).
     and_then (convert_radix buffer radix n) (\<lambda>(buffer, idx).
     Inr (buffer, args, padstr (drop idx buffer) (BUFFER_LEN - idx) width leftadjust padchar t)))"

definition conversion ::
  "u8 \<Rightarrow> nat \<Rightarrow> bool \<Rightarrow> u8 \<Rightarrow> u8 list \<Rightarrow> karg list \<Rightarrow> textmode \<Rightarrow> (u8 list \<times> karg list \<times> textmode) res" where
  "conversion ch width leftadjust padchar buffer args t =
     (if ch = 0x63 \<or> ch = 0x43 then
        and_then (va_num args) (\<lambda>(c, args).
          let buffer = buffer[0 := ucast c] in Inr (buffer, args, padstr buffer 1 width leftadjust padchar t))
      else if ch = 0x64 \<or> ch = 0x44 then
        and_then (va_num args) (\<lambda>(n, args).
        and_then (convert_decimal buffer (sint n)) (\<lambda>(buffer, idx).
          Inr (buffer, args, padstr (drop idx buffer) (BUFFER_LEN - idx) width leftadjust padchar t)))
      else if ch = 0x75 \<or> ch = 0x55 then print_radix 10 width leftadjust padchar buffer args t
      else if ch = 0x73 \<or> ch = 0x53 then
        and_then (va_str args) (\<lambda>(str, args).
          Inr (buffer, args, padstr str (string_length str) width leftadjust padchar t))
      else if ch = 0x78 \<or> ch = 0x58 then print_radix 16 width leftadjust padchar buffer args t
      else if ch = 0x62 \<or> ch = 0x42 then print_radix 2 width leftadjust padchar buffer args t
      else if ch = 0x6F \<or> ch = 0x4F then print_radix 8 width leftadjust padchar buffer args t
      else if ch = 0x25 then Inr (buffer, args, write_char 0x25 t)
      else let t = write_char 0x42 t in Inl (Panic ''kprintf: Bad format string''))"

text \<open>The parts of the parser: plain text up to a percent sign, and the digits of a width.\<close>

fun plain_text :: "u8 list \<Rightarrow> textmode \<Rightarrow> textmode \<times> u8 list" where
  "plain_text [] t = (t, [])"
| "plain_text (c # fmt) t = (if c \<noteq> 0x25 then plain_text fmt (write_char c t) else (t, c # fmt))"

fun parse_width :: "nat \<Rightarrow> u8 list \<Rightarrow> (nat \<times> u8 list) res" where
  "parse_width width [] = Inr (width, [])"
| "parse_width width (ch # fmt) =
     (if 0x30 \<le> ch \<and> ch \<le> 0x39
      then let width = width * 10 + unat (ch - 0x30)
           in if width < 2 ^ 63 then parse_width width fmt else Inl (Undefined ''width overflow'')
      else Inr (width, ch # fmt))"

definition parse_flag :: "u8 \<Rightarrow> u8 list \<Rightarrow> bool \<times> u8 list" where
  "parse_flag c fmt = (case fmt of ch # rest \<Rightarrow> if ch = c then (True, rest) else (False, fmt) | [] \<Rightarrow> (False, fmt))"

lemma plain_text_shorter: "plain_text fmt t = (t', fmt') \<Longrightarrow> length fmt' \<le> length fmt"
  by (induction fmt t rule: plain_text.induct) (auto split: if_splits)

lemma parse_width_shorter: "parse_width w fmt = Inr (w', fmt') \<Longrightarrow> length fmt' \<le> length fmt"
  by (induction w fmt rule: parse_width.induct) (auto simp: Let_def split: if_splits)

lemma parse_flag_shorter: "parse_flag c fmt = (b, fmt') \<Longrightarrow> length fmt' \<le> length fmt"
  by (auto simp: parse_flag_def split: list.splits if_splits)

function kprintf_loop :: "u8 list \<Rightarrow> karg list \<Rightarrow> u8 list \<Rightarrow> textmode \<Rightarrow> textmode res" where
  "kprintf_loop fmt args buffer t =
     (if fmt = [] then Inr t
      else case plain_text fmt t of (t, fmt) \<Rightarrow>
        (case fmt of [] \<Rightarrow> Inr t
         | percent # fmt \<Rightarrow>
             (case parse_flag 0x2D fmt of (leftadjust, fmt) \<Rightarrow>
              case parse_flag 0x30 fmt of (zero, fmt) \<Rightarrow>
              case parse_width 0 fmt of
                Inl e \<Rightarrow> Inl e
              | Inr (width, fmt) \<Rightarrow>
                  (case fmt of [] \<Rightarrow> Inr t
                   | ch # fmt \<Rightarrow>
                       (case conversion ch width leftadjust (if zero then 0x30 else 0x20) buffer args t of
                          Inl e \<Rightarrow> Inl e
                        | Inr (buffer, args, t) \<Rightarrow> kprintf_loop fmt args buffer t)))))"
  by pat_completeness auto
termination
proof (relation "measure (\<lambda>(fmt, args, buffer, t). length fmt)")
  fix fmt args and buffer :: "u8 list" and t t' f1 percent f2 l f3 z f4 wf w f5 ch f6 c b r a t2
  assume p: "(t', f1) = plain_text fmt t" "f1 = percent # f2" "(l, f3) = parse_flag 0x2D f2"
    "(z, f4) = parse_flag 0x30 f3" "parse_width 0 f4 = Inr wf" "(w, f5) = wf" "f5 = ch # f6"
  have "length f1 \<le> length fmt" by (rule plain_text_shorter [OF p(1) [symmetric]])
  moreover have "length f3 \<le> length f2" by (rule parse_flag_shorter [OF p(3) [symmetric]])
  moreover have "length f4 \<le> length f3" by (rule parse_flag_shorter [OF p(4) [symmetric]])
  moreover have "length f5 \<le> length f4" by (rule parse_width_shorter [OF p(5) [folded p(6)]])
  ultimately show "((f6, a, b, t2), (fmt, args, buffer, t)) \<in> measure (\<lambda>(fmt, args, buffer, t). length fmt)"
    using p(2, 7) by simp
qed simp

declare kprintf_loop.simps [simp del]

text \<open>The conversion buffer is not initialised: its contents are an argument.\<close>

definition kprintf :: "u8 list \<Rightarrow> u8 list \<Rightarrow> karg list \<Rightarrow> textmode \<Rightarrow> textmode res" where
  "kprintf buffer fmt args t = kprintf_loop fmt args buffer t"

section \<open>What a format stands for\<close>

function digits_of :: "nat \<Rightarrow> nat \<Rightarrow> nat list" where
  "digits_of r n = (if r < 2 \<or> n < r then [n] else digits_of r (n div r) @ [n mod r])"
  by pat_completeness auto
termination by (relation "measure snd") (auto intro: div_less_dividend)

declare digits_of.simps [simp del]

abbreviation radix_text :: "nat \<Rightarrow> nat \<Rightarrow> u8 list" where
  "radix_text r n \<equiv> map (\<lambda>d. hexdigits ! d) (digits_of r n)"

text \<open>The last \<open>k\<close> elements of a list.\<close>

definition last_n :: "nat \<Rightarrow> 'a list \<Rightarrow> 'a list" where
  "last_n k xs = drop (length xs - k) xs"

definition field :: "bool \<Rightarrow> u8 \<Rightarrow> nat \<Rightarrow> u8 list \<Rightarrow> u8 list" where
  "field left padchar width s =
     (let padding = replicate (width - length s) padchar in if left then s @ padding else padding @ s)"

text \<open>A format is a list of plain characters and conversions; \<open>format_of\<close> writes it down.\<close>

datatype directive = Plain u8 | Conv bool bool nat u8

fun directive_format :: "directive \<Rightarrow> u8 list" where
  "directive_format (Plain c) = [c]"
| "directive_format (Conv left zero width ch) =
     [0x25] @ (if left then [0x2D] else []) @ (if zero then [0x30] else []) @
     (if width = 0 then [] else radix_text 10 width) @ [ch]"

definition format_of :: "directive list \<Rightarrow> u8 list" where
  "format_of ds = concat (map directive_format ds)"

fun directive_ok :: "directive \<Rightarrow> bool" where
  "directive_ok (Plain c) \<longleftrightarrow> c \<noteq> 0x25"
| "directive_ok (Conv left zero width ch) \<longleftrightarrow> width < 2 ^ 63"

text \<open>The text of a conversion; the number conversions keep the last 21 digits.\<close>

definition conv_text :: "u8 \<Rightarrow> karg list \<Rightarrow> (u8 list \<times> karg list) option" where
  "conv_text ch args =
     (case args of
        [] \<Rightarrow> None
      | Str s # args \<Rightarrow> if ch \<in> {0x73, 0x53} then Some (s, args) else None
      | Num n # args \<Rightarrow>
          if ch \<in> {0x63, 0x43} then Some ([ucast n], args)
          else if ch \<in> {0x64, 0x44} then (if 0 \<le> sint n then Some (radix_text 10 (unat n), args) else None)
          else if ch \<in> {0x75, 0x55} then Some (radix_text 10 (unat n), args)
          else if ch \<in> {0x78, 0x58} then Some (radix_text 16 (unat n), args)
          else if ch \<in> {0x62, 0x42} then Some (last_n 21 (radix_text 2 (unat n)), args)
          else if ch \<in> {0x6F, 0x4F} then Some (last_n 21 (radix_text 8 (unat n)), args)
          else None)"

fun directive_text :: "directive \<Rightarrow> karg list \<Rightarrow> (u8 list \<times> karg list) option" where
  "directive_text (Plain c) args = Some ([c], args)"
| "directive_text (Conv left zero width ch) args =
     (if ch = 0x25 then Some ([0x25], args)
      else map_option (map_prod (field left (if zero then 0x30 else 0x20) width) id) (conv_text ch args))"

fun text_of :: "directive list \<Rightarrow> karg list \<Rightarrow> u8 list option" where
  "text_of [] args = Some []"
| "text_of (d # ds) args =
     (case directive_text d args of
        None \<Rightarrow> None
      | Some (s, args) \<Rightarrow> map_option (\<lambda>s'. s @ s') (text_of ds args))"

text \<open>Writing a text on the screen.\<close>

definition written :: "textmode \<Rightarrow> u8 list \<Rightarrow> textmode" where
  "written t s = foldl (\<lambda>t c. write_char c t) t s"

section \<open>The digit loops\<close>

lemma digits_of_nonempty [simp]: "digits_of r n \<noteq> []"
  by (subst digits_of.simps) simp

lemma digits_of_bound: "2 \<le> r \<Longrightarrow> n < r ^ Suc k \<Longrightarrow> length (digits_of r n) \<le> Suc k"
proof (induction k arbitrary: n)
  case 0
  then show ?case by (subst digits_of.simps) simp
next
  case (Suc k)
  have "n div r < r ^ Suc k" using Suc.prems by (simp add: less_mult_imp_div_less mult.commute)
  then have "length (digits_of r (n div r)) \<le> Suc k" using Suc by simp
  then show ?case by (subst digits_of.simps) simp
qed

lemma radix_loop_digits:
  assumes "2 \<le> unat radix" and "i \<noteq> 0" and "i \<le> length buf"
  shows "radix_loop buf radix v i =
    (let s = last_n i (radix_text (unat radix) (unat v))
     in (take (i - length s) buf @ s @ drop i buf, i - length s))"
  using assms
proof (induction i arbitrary: buf v)
  case 0
  then show ?case by simp
next
  case (Suc i)
  let ?r = "unat radix"
  define c where "c = hexdigits ! unat (v mod radix)"
  define b where "b = buf[i := c]"
  have c: "c = hexdigits ! (unat v mod ?r)" by (simp add: c_def unat_mod_distrib)
  have b: "take i b = take i buf" "drop i b = c # drop (Suc i) buf" "length b = length buf"
    using Suc.prems by (simp_all add: b_def drop_update_swap Cons_nth_drop_Suc [symmetric])
  have upd: "b = take i buf @ [c] @ drop (Suc i) buf"
    by (metis append_Cons append_Nil append_take_drop_id b(1,2))
  have z: "v div radix = 0 \<longleftrightarrow> unat v < ?r"
    using Suc.prems(1) by (auto simp: word_unat_eq_iff unat_div_distrib div_eq_0_iff)
  show ?case
  proof (cases "i \<noteq> 0 \<and> v div radix \<noteq> 0")
    case True
    let ?ds = "radix_text ?r (unat v div ?r)"
    have ds: "radix_text ?r (unat v) = ?ds @ [c]"
      using True z Suc.prems(1) by (subst digits_of.simps) (simp add: c)
    have lst: "last_n (Suc i) (?ds @ [c]) = last_n i ?ds @ [c]" by (simp add: last_n_def)
    have "radix_loop buf radix v (Suc i) = radix_loop b radix (v div radix) i"
      using True by (simp add: b_def c_def Let_def)
    also have "\<dots> = (take (i - length (last_n i ?ds)) b @ last_n i ?ds @ drop i b, i - length (last_n i ?ds))"
      using Suc.IH [of b "v div radix"] True Suc.prems b(3) by (simp add: Let_def unat_div_distrib)
    also have "take (i - length (last_n i ?ds)) b = take (i - length (last_n i ?ds)) buf"
      by (metis b(1) diff_le_self min.absorb1 take_take)
    finally show ?thesis by (simp add: ds lst b(2))
  next
    case False
    have e: "radix_loop buf radix v (Suc i) = (b, i)"
      using False by (auto simp: b_def c_def Let_def)
    have "last_n (Suc i) (radix_text ?r (unat v)) = [c]"
    proof (cases "i = 0")
      case True
      then show ?thesis using Suc.prems(1) by (subst digits_of.simps) (auto simp: c last_n_def)
    next
      case False
      with \<open>\<not> (i \<noteq> 0 \<and> v div radix \<noteq> 0)\<close> z show ?thesis by (subst digits_of.simps) (simp add: c last_n_def)
    qed
    then show ?thesis unfolding e by (simp add: upd Let_def)
  qed
qed

lemma decimal_digit: "d < 10 \<Longrightarrow> (word_of_int (int d) + 0x30 :: u8) = hexdigits ! d"
proof -
  assume "d < 10"
  then have "d \<in> set [0..<10]" by simp
  then show ?thesis by (auto simp: hexdigits_def upt_conv_Cons numeral_eq_Suc)
qed

lemma decimal_loop_radix:
  "n < 2 ^ 64 \<Longrightarrow> decimal_loop buf (int n) i = radix_loop buf 10 (of_nat n) i"
proof (induction i arbitrary: buf n)
  case 0
  then show ?case by simp
next
  case (Suc i)
  have m: "unat (of_nat n mod 10 :: u64) = n mod 10" and q: "(of_nat n div 10 :: u64) = of_nat (n div 10)"
    using Suc.prems by (simp_all add: unat_mod_distrib unat_of_nat_u64 word_unat_eq_iff unat_div_distrib)
  have d: "word_of_int (int n mod 10) + 0x30 = hexdigits ! (n mod 10)"
    using decimal_digit [of "n mod 10"] by (simp add: zmod_int)
  have z: "(of_nat (n div 10) :: u64) = 0 \<longleftrightarrow> int n div 10 = 0"
    using Suc.prems by (subst of_nat_u64_eq_0) (auto simp: zdiv_int [symmetric])
  have "decimal_loop b (int n div 10) i = radix_loop b 10 (of_nat (n div 10)) i" for b
    using Suc.IH [of "n div 10" b] Suc.prems by (simp add: zdiv_int)
  then show ?case using z by (simp add: Let_def m q d)
qed

lemma convert_radix_eq:
  fixes v :: u64
  assumes "2 \<le> radix" and "radix \<le> 16" and "length buf = BUFFER_LEN"
  defines "s \<equiv> last_n BUFFER_LEN (radix_text (unat radix) (unat v))"
  shows "convert_radix buf radix v = Inr (take (BUFFER_LEN - length s) buf @ s, BUFFER_LEN - length s)"
proof -
  have r: "unat (ucast radix :: u64) = unat radix"
    by (simp add: unsigned_ucast_eq take_bit_nat_eq_self unsigned_less [THEN less_trans])
  have "radix \<noteq> 0" using assms(1) by auto
  moreover have "2 \<le> unat (ucast radix :: u64)" using assms(1) by (simp add: r word_le_nat_alt)
  ultimately show ?thesis
    using radix_loop_digits [of "ucast radix" BUFFER_LEN buf v] assms
    by (simp add: convert_radix_def r Let_def BUFFER_LEN_def)
qed

lemma decimal_text_length: "n < 2 ^ 64 \<Longrightarrow> length (radix_text 10 n) \<le> 20"
  using digits_of_bound [of 10 n 19] by simp

lemma last_n_all [simp]: "length s \<le> k \<Longrightarrow> last_n k s = s"
  by (simp add: last_n_def)

lemma length_last_n: "length (last_n k s) = min k (length s)"
  by (simp add: last_n_def)

lemma unat_u64_less: "unat (n :: u64) < 2 ^ 64"
  using unsigned_less [of n] by simp

lemma convert_decimal_eq:
  fixes n :: u64
  assumes "0 \<le> sint n" and "length buf = BUFFER_LEN"
  defines "s \<equiv> radix_text 10 (unat n)"
  shows "convert_decimal buf (sint n) = Inr (take (BUFFER_LEN - length s) buf @ s, BUFFER_LEN - length s)"
proof -
  have n: "sint n = int (unat n)"
    using assms(1) sint_less [of n] uint_sint [of n] by (simp add: take_bit_int_eq_self)
  have u: "unat n < 2 ^ 64" by (rule unat_u64_less)
  have "decimal_loop buf (int (unat n)) BUFFER_LEN = radix_loop buf 10 n BUFFER_LEN"
    using decimal_loop_radix [of "unat n" buf BUFFER_LEN] u by simp
  moreover have "0 \<le> uint n" by simp
  moreover from this have "uint n \<noteq> - 9223372036854775808" by linarith
  ultimately show ?thesis
    using radix_loop_digits [of 10 BUFFER_LEN buf n] decimal_text_length [OF u] assms(2)
    by (simp add: convert_decimal_def n Let_def BUFFER_LEN_def s_def)
qed

lemma convert_decimal_negative:
  assumes "sint (n :: u64) < 0" and "sint n \<noteq> - (2 ^ 63)" and "length buf = BUFFER_LEN"
  shows "convert_decimal buf (sint n) = Inl (Panic ''convert_decimal: Bad index'')"
proof -
  define v where "v = nat (- sint n)"
  have v: "- sint n = int v" "v < 2 ^ 64"
    using assms(1) sint_greater_eq [of n] by (simp_all add: v_def)
  have "decimal_loop buf (int v) BUFFER_LEN = radix_loop buf 10 (of_nat v) BUFFER_LEN"
    by (rule decimal_loop_radix [OF v(2)])
  moreover have "snd (radix_loop buf 10 (of_nat v) BUFFER_LEN) \<noteq> 0"
    using radix_loop_digits [of 10 BUFFER_LEN buf "of_nat v"] decimal_text_length [OF v(2)] assms(3)
    by (simp add: Let_def BUFFER_LEN_def unat_of_nat_u64 [OF v(2)])
  ultimately show ?thesis using assms(1,2) by (simp add: convert_decimal_def v(1) split_beta)
qed

section \<open>Fields\<close>

lemma written_append [simp]: "written t (s @ s') = written (written t s) s'"
  by (simp add: written_def)

lemma written_simps [simp]: "written t [] = t" "written t (c # s) = written (write_char c t) s"
  by (simp_all add: written_def)

lemma pad_written: "pad n c t = written t (replicate n c)"
  by (induction n arbitrary: t) (simp_all add: pad_def funpow_Suc_right del: funpow.simps(2))

lemma string_length_eq [simp]: "string_length s = length s"
  by (induction s) simp_all

lemma write_indices:
  "n \<le> length s \<Longrightarrow> foldl (\<lambda>t i. write_char (s ! i) t) t [0..<n] = written t (take n s)"
  by (induction n) (simp_all add: take_Suc_conv_app_nth)

lemma padstr_written:
  assumes "len \<le> length s"
  shows "padstr s len width left c t = written t (field left c width (take len s))"
  using assms by (auto simp: padstr_def write_indices pad_written field_def Let_def nat_diff_distrib' min_def)

lemma print_radix_written:
  assumes "2 \<le> radix" and "radix \<le> 16" and "length buffer = BUFFER_LEN"
  shows "\<exists>buffer'. length buffer' = BUFFER_LEN \<and>
    print_radix radix width left c buffer (Num n # args) t =
      Inr (buffer', args, written t (field left c width (last_n BUFFER_LEN (radix_text (unat radix) (unat n)))))"
proof -
  let ?s = "last_n BUFFER_LEN (radix_text (unat radix) (unat n))"
  have l: "length ?s \<le> BUFFER_LEN" by (simp add: length_last_n)
  have "print_radix radix width left c buffer (Num n # args) t =
      Inr (take (BUFFER_LEN - length ?s) buffer @ ?s, args, written t (field left c width ?s))"
    using convert_radix_eq [OF assms, of n] l assms(3)
    by (simp add: print_radix_def va_num_def padstr_written)
  then show ?thesis using l assms(3) by (intro exI [of _ "take (BUFFER_LEN - length ?s) buffer @ ?s"]) simp
qed

lemma conversion_written:
  assumes "conv_text ch args = Some (s, args')" and "length buffer = BUFFER_LEN"
  shows "\<exists>buffer'. length buffer' = BUFFER_LEN \<and>
    conversion ch width left c buffer args t = Inr (buffer', args', written t (field left c width s))"
proof -
  consider (str) s0 where "args = Str s0 # args'" "s = s0" "ch \<in> {0x73, 0x53}"
    | (num) n where "args = Num n # args'"
    using assms(1) by (cases args) (auto simp: conv_text_def split: karg.splits if_splits)
  then show ?thesis
  proof cases
    case str
    then show ?thesis using assms(2) by (auto simp: conversion_def va_str_def padstr_written)
  next
    case num
    note radix = print_radix_written [OF _ _ assms(2), where width = width and left = left and c = c and n = n
        and args = args' and t = t]
    have dec: "last_n BUFFER_LEN (radix_text 10 (unat n)) = radix_text 10 (unat n)"
      "last_n BUFFER_LEN (radix_text 16 (unat n)) = radix_text 16 (unat n)"
      using digits_of_bound [of 10 "unat n" 19] digits_of_bound [of 16 "unat n" 15] unat_u64_less [of n]
      by (simp_all add: BUFFER_LEN_def)
    have B: "BUFFER_LEN = 21" by (simp add: BUFFER_LEN_def)
    have "ch \<in> {0x63, 0x43} \<or> ch \<in> {0x64, 0x44} \<or> ch \<in> {0x75, 0x55} \<or> ch \<in> {0x78, 0x58} \<or>
        ch \<in> {0x62, 0x42} \<or> ch \<in> {0x6F, 0x4F}"
      using assms(1) num by (auto simp: conv_text_def split: if_splits)
    then consider "ch \<in> {0x63, 0x43}" | "ch \<in> {0x64, 0x44}" | "ch \<in> {0x75, 0x55}" | "ch \<in> {0x78, 0x58}"
      | "ch \<in> {0x62, 0x42}" | "ch \<in> {0x6F, 0x4F}" by blast
    then show ?thesis
    proof cases
      case 1
      moreover have "take 1 (buffer[0 := ucast n]) = [ucast n :: u8]"
        using assms(2) B by (cases buffer) simp_all
      ultimately show ?thesis using assms num B
        by (auto simp: conversion_def conv_text_def va_num_def Let_def padstr_written)
    next
      case 2
      then have s: "s = radix_text 10 (unat n)" and pos: "0 \<le> sint n"
        using assms(1) num by (auto simp: conv_text_def split: if_splits)
      have l: "length s \<le> BUFFER_LEN"
        using decimal_text_length [of "unat n"] unat_u64_less [of n] by (simp add: s B)
      show ?thesis using 2 num convert_decimal_eq [OF pos assms(2)] assms(2) l
        by (auto simp: conversion_def va_num_def padstr_written simp flip: s)
    next
      case 3
      then show ?thesis using assms(1) num radix [of 10] dec by (auto simp: conversion_def conv_text_def)
    next
      case 4
      then show ?thesis using assms(1) num radix [of 16] dec by (auto simp: conversion_def conv_text_def)
    next
      case 5
      then show ?thesis using assms(1) num radix [of 2] by (auto simp: conversion_def conv_text_def B)
    next
      case 6
      then show ?thesis using assms(1) num radix [of 8] by (auto simp: conversion_def conv_text_def B)
    qed
  qed
qed

section \<open>Parsing a conversion\<close>

lemma hexdigit_value:
  assumes "d < 10"
  shows "0x30 \<le> hexdigits ! d \<and> hexdigits ! d \<le> 0x39 \<and> unat (hexdigits ! d - 0x30) = d \<and> (hexdigits ! d = 0x30 \<longleftrightarrow> d = 0)"
proof -
  have "d = 0 \<or> d = 1 \<or> d = 2 \<or> d = 3 \<or> d = 4 \<or> d = 5 \<or> d = 6 \<or> d = 7 \<or> d = 8 \<or> d = 9"
    using assms by arith
  then show ?thesis by (elim disjE) (simp_all add: hexdigits_def)
qed

lemma parse_width_digits:
  "w < 2 ^ 63 \<Longrightarrow> parse_width 0 (radix_text 10 w @ rest) = parse_width w rest"
proof (induction w arbitrary: rest rule: less_induct)
  case (less w)
  show ?case
  proof (cases "w < 10")
    case True
    then have "radix_text 10 w = [hexdigits ! w]" by (subst digits_of.simps) simp
    with hexdigit_value [OF True] less.prems show ?thesis by (simp add: Let_def)
  next
    case False
    then have e: "radix_text 10 w = radix_text 10 (w div 10) @ [hexdigits ! (w mod 10)]"
      by (subst digits_of.simps) simp
    have "parse_width 0 (radix_text 10 w @ rest) = parse_width (w div 10) (hexdigits ! (w mod 10) # rest)"
      using less.IH [of "w div 10"] False less.prems by (simp add: e)
    also have "\<dots> = parse_width w rest"
      using hexdigit_value [of "w mod 10"] less.prems by (simp add: Let_def)
    finally show ?thesis .
  qed
qed

lemma width_head: "w \<noteq> 0 \<Longrightarrow> \<exists>c cs. radix_text 10 w = c # cs \<and> c \<noteq> 0x30 \<and> c \<noteq> 0x2D"
proof (induction w rule: less_induct)
  case (less w)
  show ?case
  proof (cases "w < 10")
    case True
    then have "radix_text 10 w = [hexdigits ! w]" by (subst digits_of.simps) simp
    moreover have "hexdigits ! w \<noteq> 0x30" "hexdigits ! w \<noteq> 0x2D"
      using hexdigit_value [OF True] less.prems by auto
    ultimately show ?thesis by simp
  next
    case False
    then have e: "radix_text 10 w = radix_text 10 (w div 10) @ [hexdigits ! (w mod 10)]"
      by (subst digits_of.simps) simp
    from False have "w div 10 < w" "w div 10 \<noteq> 0" by simp_all
    from less.IH [OF this] show ?thesis unfolding e by auto
  qed
qed

definition not_flag :: "u8 \<Rightarrow> bool" where
  "not_flag ch \<longleftrightarrow> ch \<noteq> 0x2D \<and> \<not> (0x30 \<le> ch \<and> ch \<le> 0x39)"

lemma parse_flag_simps:
  "parse_flag c (c # fmt) = (True, fmt)"
  "ch \<noteq> c \<Longrightarrow> parse_flag c (ch # fmt) = (False, ch # fmt)"
  by (simp_all add: parse_flag_def)

lemma kprintf_loop_Conv:
  assumes "width < 2 ^ 63" and "not_flag ch"
  shows "kprintf_loop (directive_format (Conv left zero width ch) @ rest) args buffer t =
    (case conversion ch width left (if zero then 0x30 else 0x20) buffer args t of
       Inl e \<Rightarrow> Inl e | Inr (buffer, args, t) \<Rightarrow> kprintf_loop rest args buffer t)"
proof -
  define w where "w = (if width = 0 then [] else radix_text 10 width) @ ch # rest"
  define z where "z = (if zero then [0x30] else []) @ w"
  define l where "l = (if left then [0x2D] else []) @ z"
  have fmt: "directive_format (Conv left zero width ch) @ rest = 0x25 # l"
    by (simp add: w_def z_def l_def)
  have "\<exists>c cs. w = c # cs \<and> c \<noteq> 0x30 \<and> c \<noteq> 0x2D"
    using width_head [of width] assms(2) by (cases "width = 0") (auto simp: not_flag_def w_def)
  then obtain c cs where c: "w = c # cs" "c \<noteq> 0x30" "c \<noteq> 0x2D" by blast
  have "parse_flag 0x30 z = (zero, w)"
    unfolding z_def using c by (simp add: parse_flag_simps)
  moreover have "parse_flag 0x2D l = (left, z)"
    unfolding l_def z_def using c by (simp add: parse_flag_simps)
  moreover have "parse_width 0 w = Inr (width, ch # rest)"
    unfolding w_def using parse_width_digits [OF assms(1), of "ch # rest"] assms(2) by (auto simp: not_flag_def)
  ultimately show ?thesis
    unfolding fmt by (subst kprintf_loop.simps) simp
qed

lemma kprintf_loop_Plain:
  assumes "c \<noteq> 0x25"
  shows "kprintf_loop (c # fmt) args buffer t = kprintf_loop fmt args buffer (write_char c t)"
proof (cases fmt)
  case Nil
  then show ?thesis using assms by (simp add: kprintf_loop.simps)
next
  case (Cons d ds)
  then show ?thesis using assms by (subst (1 2) kprintf_loop.simps) simp
qed

lemma conv_text_not_flag: "conv_text ch args = Some r \<Longrightarrow> not_flag ch"
  by (auto simp: conv_text_def not_flag_def split: list.splits karg.splits if_splits)

lemma kprintf_loop_format:
  assumes "text_of ds args = Some s" and "list_all directive_ok ds" and "length buffer = BUFFER_LEN"
  shows "kprintf_loop (format_of ds) args buffer t = Inr (written t s)"
  using assms
proof (induction ds arbitrary: args s buffer t)
  case Nil
  then show ?case by (simp add: format_of_def kprintf_loop.simps)
next
  case (Cons d ds)
  from Cons.prems(1) obtain s1 args1 s2 where
    d: "directive_text d args = Some (s1, args1)" and s2: "text_of ds args1 = Some s2" and s: "s = s1 @ s2"
    by (auto split: option.splits)
  have fmt: "format_of (d # ds) = directive_format d @ format_of ds" by (simp add: format_of_def)
  show ?case
  proof (cases d)
    case (Plain c)
    then show ?thesis using Cons.prems d s s2 Cons.IH [OF s2] unfolding fmt unfolding Plain
      by (auto simp: kprintf_loop_Plain)
  next
    case (Conv left zero width ch)
    let ?p = "if zero then 0x30 else 0x20 :: u8"
    have w: "width < 2 ^ 63" using Cons.prems Conv by simp
    have "not_flag ch \<and> (\<exists>buffer'. length buffer' = BUFFER_LEN \<and>
        conversion ch width left ?p buffer args t = Inr (buffer', args1, written t s1))"
    proof (cases "ch = 0x25")
      case True
      then show ?thesis using d Conv Cons.prems(3) by (auto simp: conversion_def not_flag_def)
    next
      case False
      with d Conv obtain s0 where "conv_text ch args = Some (s0, args1)" and "s1 = field left ?p width s0"
        by (auto simp: map_prod_def)
      then show ?thesis using conversion_written [OF _ Cons.prems(3)] conv_text_not_flag by blast
    qed
    then obtain buffer' where nf: "not_flag ch" and b: "length buffer' = BUFFER_LEN"
      and c: "conversion ch width left ?p buffer args t = Inr (buffer', args1, written t s1)" by blast
    show ?thesis using Cons.IH [OF s2 _ b] Cons.prems
      unfolding fmt unfolding Conv kprintf_loop_Conv [OF w nf] c by (simp add: s)
  qed
qed

section \<open>Properties\<close>

text \<open>For every radix from 2 to 16 the conversion writes, at the end of the buffer, the digits
  of the value in that radix, the last 21 of them when there are more (binary from \<open>2^21\<close> on,
  octal from \<open>2^63\<close> on), and leaves the rest of the buffer alone.\<close>

lemma convert_radix_writes_digits:
  fixes v :: u64
  assumes "2 \<le> radix" and "radix \<le> 16" and "length buf = BUFFER_LEN"
  shows "\<exists>text. text = last_n BUFFER_LEN (radix_text (unat radix) (unat v)) \<and>
    convert_radix buf radix v = Inr (take (BUFFER_LEN - length text) buf @ text, BUFFER_LEN - length text)"
  using convert_radix_eq [OF assms] by blast

definition garbage :: "u8 list" where
  "garbage = replicate BUFFER_LEN 0xCC"

lemma convert_radix_writes_digits_witness:
  "\<exists>text. text = last_n BUFFER_LEN (radix_text 2 (2 ^ 21)) \<and>
    convert_radix garbage 2 (2 ^ 21) = Inr (take (BUFFER_LEN - length text) garbage @ text, BUFFER_LEN - length text)"
  using convert_radix_writes_digits [of 2 garbage "2 ^ 21"] by (simp add: garbage_def)

text \<open>C6. A format written down from its directives is printed as they say: plain characters
  as they are, each conversion as the digits or the string of its argument, padded to its width on
  the left or the right; the call returns, whatever the conversion buffer held before.\<close>

theorem kprintf_prints_directives:
  assumes "text_of ds args = Some s" and "list_all directive_ok ds" and "length buffer = BUFFER_LEN"
  shows "kprintf buffer (format_of ds) args t = Inr (foldl (\<lambda>t c. text_mode_char c t) t s)"
  using kprintf_loop_format [OF assms] by (simp add: kprintf_def written_def write_char_def)

definition sample_format :: "directive list" where
  "sample_format = [Plain 0x41, Conv True False 5 0x64, Conv False True 4 0x78]"

theorem kprintf_prints_directives_witness:
  "kprintf garbage (format_of sample_format) [Num 42, Num 255] sample_text =
    Inr (foldl (\<lambda>t c. text_mode_char c t) sample_text [0x41, 0x34, 0x32, 0x20, 0x20, 0x20, 0x30, 0x30, 0x46, 0x46])"
proof -
  have "text_of sample_format [Num 42, Num 255] = Some [0x41, 0x34, 0x32, 0x20, 0x20, 0x20, 0x30, 0x30, 0x46, 0x46]"
    by (simp add: sample_format_def conv_text_def field_def digits_of.simps hexdigits_def Let_def)
      (simp add: numeral_2_eq_2 numeral_3_eq_3)
  then show ?thesis
    by (rule kprintf_prints_directives) (simp_all add: sample_format_def garbage_def)
qed

text \<open>Every negative number passed to a \<open>%d\<close> conversion stops the kernel: the test
  for a full buffer is inverted.\<close>

lemma kprintf_negative_decimal_panics:
  assumes "sint n < 0" and "sint n \<noteq> - (2 ^ 63)" and "length buffer = BUFFER_LEN"
  shows "kprintf buffer [0x25, 0x64] [Num n] t = Inl (Panic ''convert_decimal: Bad index'')"
proof -
  have "kprintf_loop (directive_format (Conv False False 0 0x64) @ []) [Num n] buffer t =
      Inl (Panic ''convert_decimal: Bad index'')"
    by (subst kprintf_loop_Conv)
      (simp_all add: not_flag_def conversion_def va_num_def convert_decimal_negative [OF assms])
  then show ?thesis by (simp add: kprintf_def)
qed

lemma kprintf_negative_decimal_panics_witness:
  "kprintf garbage [0x25, 0x64] [Num (- 1)] sample_text = Inl (Panic ''convert_decimal: Bad index'')"
  by (rule kprintf_negative_decimal_panics) (simp_all add: garbage_def)

end
