(* ===== verification/Devices.thy ===== *)
theory Devices
  imports Kprintf Watermark LinkedList
begin

text \<open>
  What the PCI and sound drivers share: the accesses to a device (port instructions of
  \<open>support.h\<close>, volatile reads and writes of memory that a device reads or writes too), which are
  parameters of the model, the part of the kernel's state the drivers work on, and the sequencing
  of operations that may stop the machine.
\<close>

section \<open>Sequencing\<close>

text \<open>
  A procedure takes a state to a state, a function also returns a value.  \<open>seq\<close> runs a procedure
  and then the rest, \<open>bind\<close> runs a function and hands its value to the rest.
\<close>

type_synonym 's proc = "'s \<Rightarrow> 's res"
type_synonym ('s, 'a) call = "'s \<Rightarrow> ('a \<times> 's) res"

definition seq :: "'s proc \<Rightarrow> ('s \<Rightarrow> 'b res) \<Rightarrow> 's \<Rightarrow> 'b res" where
  "seq p k s = and_then (p s) k"

definition bind :: "('s, 'a) call \<Rightarrow> ('a \<Rightarrow> 's \<Rightarrow> 'b res) \<Rightarrow> 's \<Rightarrow> 'b res" where
  "bind f k s = and_then (f s) (\<lambda>(x, s). k x s)"

definition return :: "'a \<Rightarrow> ('s, 'a) call" where
  "return x s = Inr (x, s)"

definition skip :: "'s proc" where
  "skip s = Inr s"

text \<open>An \<open>ASSERT\<close> between two statements, and a \<open>panic\<close>.\<close>

definition assert_at :: "string \<Rightarrow> nat \<Rightarrow> bool \<Rightarrow> 's proc" where
  "assert_at source_file line b s = kassert source_file line b (Inr s)"

definition panic :: "string \<Rightarrow> 's \<Rightarrow> 'b res" where
  "panic message s = Inl (Panic message)"

text \<open>The values a function returns for each element of a list, in order.\<close>

primrec collect :: "'i list \<Rightarrow> ('i \<Rightarrow> ('s, 'a) call) \<Rightarrow> ('s, 'a list) call" where
  "collect [] f = return []"
| "collect (i # is) f = bind (f i) (\<lambda>x. bind (collect is f) (\<lambda>xs. return (x # xs)))"

lemma seq_eq_Inr: "seq p k s = Inr y \<longleftrightarrow> (\<exists>s'. p s = Inr s' \<and> k s' = Inr y)"
  by (auto simp: seq_def and_then_eq_Inr)

lemma bind_eq_Inr: "bind f k s = Inr y \<longleftrightarrow> (\<exists>x s'. f s = Inr (x, s') \<and> k x s' = Inr y)"
  by (auto simp: bind_def and_then_eq_Inr)

lemma seq_eq_InrE [elim!]:
  assumes "seq p k s = Inr y" obtains s' where "p s = Inr s'" and "k s' = Inr y"
  using assms by (auto simp: seq_eq_Inr)

lemma bind_eq_InrE [elim!]:
  assumes "bind f k s = Inr y" obtains x s' where "f s = Inr (x, s')" and "k x s' = Inr y"
  using assms by (auto simp: bind_eq_Inr)

lemma return_eq_Inr [simp]: "return x s = Inr y \<longleftrightarrow> y = (x, s)"
  by (auto simp: return_def)

lemma skip_eq_Inr [simp]: "skip s = Inr s' \<longleftrightarrow> s' = s"
  by (auto simp: skip_def)

lemma assert_at_eq_Inr [simp]: "assert_at f n b s = Inr s' \<longleftrightarrow> b \<and> s' = s"
  by (auto simp: assert_at_def)

lemma panic_not_Inr [simp]: "panic m s \<noteq> Inr y"
  by (simp add: panic_def)

lemmas sequencing = seq_def bind_def return_def skip_def assert_at_def panic_def

lemma collect_length: "collect is f s = Inr (xs, s') \<Longrightarrow> length xs = length is"
  by (induction "is" arbitrary: s xs) auto

lemma collect_invariant:
  assumes "collect is f s = Inr (xs, s')" and "I s"
    and "\<And>i x s s'. i \<in> set is \<Longrightarrow> I s \<Longrightarrow> f i s = Inr (x, s') \<Longrightarrow> I s'"
  shows "I s'"
  using assms
proof (induction "is" arbitrary: s xs)
  case Nil
  then show ?case by simp
next
  case (Cons i "is")
  from Cons.prems(1) obtain x s1 ys where "f i s = Inr (x, s1)" "collect is f s1 = Inr (ys, s')" by auto
  moreover from this(1) have "I s1" using Cons.prems(2,3) by (meson list.set_intros(1))
  ultimately show ?case using Cons.IH Cons.prems(3) by (meson list.set_intros(2))
qed

text \<open>
  \<open>within R f\<close>: every run of the function stays within the relation \<open>R\<close> between the state before and
  the state after; the rules follow the structure of a function, for every reflexive and
  transitive relation.
\<close>

definition within :: "('s \<Rightarrow> 's \<Rightarrow> bool) \<Rightarrow> ('s, 'a) call \<Rightarrow> bool" where
  "within R f \<longleftrightarrow> (\<forall>s x s'. f s = Inr (x, s') \<longrightarrow> R s s')"

lemma withinD: "within R f \<Longrightarrow> f s = Inr (x, s') \<Longrightarrow> R s s'"
  by (auto simp: within_def)

lemma within_return: "reflp R \<Longrightarrow> within R (return x)"
  by (simp add: within_def reflpD)

lemma within_bind: "transp R \<Longrightarrow> within R f \<Longrightarrow> (\<And>x. within R (g x)) \<Longrightarrow> within R (bind f g)"
  unfolding within_def by (blast dest: transpD)

lemma within_seq:
  "transp R \<Longrightarrow> (\<And>s s'. p s = Inr s' \<Longrightarrow> R s s') \<Longrightarrow> within R g \<Longrightarrow> within R (seq p g)"
  unfolding within_def by (blast dest: transpD)

lemma within_collect:
  "reflp R \<Longrightarrow> transp R \<Longrightarrow> (\<And>i. within R (f i)) \<Longrightarrow> within R (collect is f)"
  by (induction "is") (auto intro!: within_bind within_return)

text \<open>\<open>returns f\<close>: the function returns from every state.\<close>

definition returns :: "('s, 'a) call \<Rightarrow> bool" where
  "returns f \<longleftrightarrow> (\<forall>s. \<exists>x s'. f s = Inr (x, s'))"

lemma returns_return: "returns (return x)"
  by (simp add: returns_def return_def)

lemma returns_bind: "returns f \<Longrightarrow> (\<And>x. returns (g x)) \<Longrightarrow> returns (bind f g)"
  unfolding returns_def bind_def by (metis and_then_simps(2) prod.case)

lemma returns_collect: "(\<And>i. returns (f i)) \<Longrightarrow> returns (collect is f)"
  by (induction "is") (auto intro!: returns_bind returns_return)

lemmas returns_intros = returns_return returns_bind returns_collect

lemmas within_intros = within_return within_bind within_seq within_collect

section \<open>Access to a device\<close>

text \<open>
  The device is a value of type \<open>'d\<close>; an access may change it, reads included.  Ports are 16 bits
  wide, memory is addressed by the virtual address.
\<close>

record 'd machine =
  port_inb :: "u16 \<Rightarrow> 'd \<Rightarrow> u8 \<times> 'd"
  port_inw :: "u16 \<Rightarrow> 'd \<Rightarrow> u16 \<times> 'd"
  port_inl :: "u16 \<Rightarrow> 'd \<Rightarrow> u32 \<times> 'd"
  port_outb :: "u16 \<Rightarrow> u8 \<Rightarrow> 'd \<Rightarrow> 'd"
  port_outw :: "u16 \<Rightarrow> u16 \<Rightarrow> 'd \<Rightarrow> 'd"
  port_outl :: "u16 \<Rightarrow> u32 \<Rightarrow> 'd \<Rightarrow> 'd"
  load8 :: "addr \<Rightarrow> 'd \<Rightarrow> u8 \<times> 'd"
  load16 :: "addr \<Rightarrow> 'd \<Rightarrow> u16 \<times> 'd"
  load32 :: "addr \<Rightarrow> 'd \<Rightarrow> u32 \<times> 'd"
  store8 :: "addr \<Rightarrow> u8 \<Rightarrow> 'd \<Rightarrow> 'd"
  store16 :: "addr \<Rightarrow> u16 \<Rightarrow> 'd \<Rightarrow> 'd"
  store32 :: "addr \<Rightarrow> u32 \<Rightarrow> 'd \<Rightarrow> 'd"
  store64 :: "addr \<Rightarrow> u64 \<Rightarrow> 'd \<Rightarrow> 'd"

section \<open>The state of the drivers\<close>

text \<open>
  \<open>stack_bytes\<close> is what the uninitialised buffer of \<open>kprintf\<close> holds, \<open>kernel_tables\<close> the root of
  the kernel's page tables.
\<close>

record 'd drivers =
  device :: 'd
  text_screen :: textmode
  stack_bytes :: "u8 list"
  memory :: phys
  kernel_tables :: addr
  kernel_WaterMark :: WaterMarkAllocator
  list_nodes :: nodes

definition on_device :: "('d \<Rightarrow> 'd) \<Rightarrow> ('d, 'z) drivers_scheme proc" where
  "on_device f s = Inr (s \<lparr> device := f (device s) \<rparr>)"

definition from_device :: "('d \<Rightarrow> 'a \<times> 'd) \<Rightarrow> (('d, 'z) drivers_scheme, 'a) call" where
  "from_device f s = (case f (device s) of (x, d) \<Rightarrow> Inr (x, s \<lparr> device := d \<rparr>))"

text \<open>A call of \<open>kprintf\<close> with a literal format.\<close>

definition kprint :: "string \<Rightarrow> karg list \<Rightarrow> ('d, 'z) drivers_scheme proc" where
  "kprint fmt args s =
     and_then (kprintf (stack_bytes s) (map of_char fmt) args (text_screen s)) (\<lambda>t.
     Inr (s \<lparr> text_screen := t \<rparr>))"

text \<open>
  A format whose conversions have no flags and no width prints whenever its arguments are of the
  right kinds.
\<close>

fun fits :: "u8 list \<Rightarrow> karg list \<Rightarrow> bool" where
  "fits [] args \<longleftrightarrow> True"
| "fits [c] args \<longleftrightarrow> c \<noteq> 0x25"
| "fits (c # ch # fmt) args \<longleftrightarrow>
     (if c \<noteq> 0x25 then fits (ch # fmt) args
      else case conv_text ch args of None \<Rightarrow> False | Some (s, args) \<Rightarrow> fits fmt args)"

lemma fits_prints:
  "fits fmt args \<Longrightarrow> length buffer = BUFFER_LEN \<Longrightarrow> \<exists>t'. kprintf_loop fmt args buffer t = Inr t'"
proof (induction fmt args arbitrary: buffer t rule: fits.induct)
  case (1 args)
  then show ?case by (simp add: kprintf_loop.simps)
next
  case (2 c args)
  then show ?case by (simp add: kprintf_loop_Plain kprintf_loop.simps)
next
  case (3 c ch fmt args)
  show ?case
  proof (cases "c = 0x25")
    case False
    then show ?thesis using 3 by (simp add: kprintf_loop_Plain)
  next
    case True
    with 3(3) obtain s args' where c: "conv_text ch args = Some (s, args')" "fits fmt args'"
      by (auto split: option.splits)
    from conversion_written [OF c(1) 3(4), of 0 False "0x20" t] obtain buffer' where
      b: "length buffer' = BUFFER_LEN"
        "conversion ch 0 False 0x20 buffer args t = Inr (buffer', args', written t (field False 0x20 0 s))"
      by blast
    have "kprintf_loop (directive_format (Conv False False 0 ch) @ fmt) args buffer t =
        kprintf_loop fmt args' buffer' (written t (field False 0x20 0 s))"
      by (subst kprintf_loop_Conv) (simp_all add: b conv_text_not_flag [OF c(1)])
    then show ?thesis using 3(2) [of "(s, args')" s args' buffer' "written t (field False 0x20 0 s)"] True c b(1)
      by simp
  qed
qed

lemma kprint_returns:
  assumes "length (stack_bytes s) = BUFFER_LEN" and "fits (map of_char fmt) args"
  shows "\<exists>t. kprint fmt args s = Inr (s \<lparr> text_screen := t \<rparr>)"
  using fits_prints [OF assms(2,1), of "text_screen s"] by (auto simp: kprint_def kprintf_def)

definition kprints :: "(string \<times> karg list) list \<Rightarrow> ('d, 'z) drivers_scheme proc" where
  "kprints calls = for_each calls (\<lambda>(fmt, args). kprint fmt args)"

text \<open>\<open>water_mark_alloc(&kernel_WaterMark, size)\<close>, and the nodes of the drivers' lists.\<close>

definition driver_alloc :: "u64 \<Rightarrow> (('d, 'z) drivers_scheme, addr) call" where
  "driver_alloc sz s =
     and_then (water_mark_alloc (kernel_tables s) (memory s) (kernel_WaterMark s) sz) (\<lambda>(p, m, w).
     Inr (p, s \<lparr> memory := m, kernel_WaterMark := w \<rparr>))"

definition insert_element ::
  "(u64 \<Rightarrow> (('d, 'z) drivers_scheme, addr) call) \<Rightarrow> linked_list \<Rightarrow> addr \<Rightarrow> u64 \<Rightarrow>
    (('d, 'z) drivers_scheme, linked_list) call" where
  "insert_element ram_alloc l element dat s =
     and_then (list_insert_next ram_alloc l element dat (list_nodes s) s) (\<lambda>(r, l, h, s).
     Inr (l, s \<lparr> list_nodes := h \<rparr>))"

text \<open>What an operation that only talks to the device, or only prints, leaves alone.\<close>

lemma on_device_eq_Inr: "on_device f s = Inr s' \<longleftrightarrow> s' = s \<lparr> device := f (device s) \<rparr>"
  by (auto simp: on_device_def)

lemma from_device_eq_Inr:
  "from_device f s = Inr (x, s') \<longleftrightarrow> x = fst (f (device s)) \<and> s' = s \<lparr> device := snd (f (device s)) \<rparr>"
  by (auto simp: from_device_def split: prod.splits)

definition same_kernel :: "('d, 'z) drivers_scheme \<Rightarrow> ('d, 'z) drivers_scheme \<Rightarrow> bool" where
  "same_kernel s s' \<longleftrightarrow> (\<exists>d t. s' = s \<lparr> device := d, text_screen := t \<rparr>)"

lemma same_kernel_refl [simp]: "same_kernel s s"
  unfolding same_kernel_def by (intro exI [of _ "device s"] exI [of _ "text_screen s"]) simp

lemma same_kernel_trans: "same_kernel s s' \<Longrightarrow> same_kernel s' s'' \<Longrightarrow> same_kernel s s''"
  unfolding same_kernel_def by fastforce

lemma same_kernel_preorder [simp, intro]: "reflp same_kernel" "transp same_kernel"
  by (auto intro: reflpI transpI same_kernel_trans)

lemma kprint_same_kernel: "kprint fmt args s = Inr s' \<Longrightarrow> same_kernel s s' \<and> device s' = device s"
proof -
  assume "kprint fmt args s = Inr s'"
  then obtain t where s': "s' = s \<lparr> text_screen := t \<rparr>" by (auto simp: kprint_def)
  then have "s' = s \<lparr> device := device s, text_screen := t \<rparr>" by simp
  with s' show ?thesis unfolding same_kernel_def by (metis drivers.select_convs(1) drivers.surjective drivers.update_convs(1,2))
qed

lemma kprints_same_kernel: "kprints calls s = Inr s' \<Longrightarrow> same_kernel s s' \<and> device s' = device s"
  unfolding kprints_def
  by (rule for_each_invariant [where I = "\<lambda>s'. same_kernel s s' \<and> device s' = device s"])
    (auto dest: kprint_same_kernel intro: same_kernel_trans)

lemma on_device_same_kernel: "on_device f s = Inr s' \<Longrightarrow> same_kernel s s'"
  unfolding on_device_def same_kernel_def
  by (intro exI [of _ "device s'"] exI [of _ "text_screen s"]) auto

lemma from_device_same_kernel: "from_device f s = Inr (x, s') \<Longrightarrow> same_kernel s s'"
  unfolding from_device_def same_kernel_def
  by (intro exI [of _ "device s'"] exI [of _ "text_screen s"]) (auto split: prod.splits)

section \<open>Allocation for good\<close>

text \<open>
  \<open>water_mark_ok\<close> holds of the kernel's allocator from \<open>alloc_init\<close> on: what it may still hand out
  lies below the mark, above address 0.
\<close>

definition water_mark_ok :: "WaterMarkAllocator \<Rightarrow> bool" where
  "water_mark_ok w \<longleftrightarrow>
     current_size w \<le> max_size w \<and> unat (max_size w) \<le> 0x400000 \<and>
     unat (max_size w) < unat (current_address w) + unat (current_size w)"

lemma alloc_init_ok: "water_mark_ok alloc_init"
  by (simp add: water_mark_ok_def alloc_init_def water_mark_init_def)

lemma driver_alloc_takes:
  assumes w: "water_mark_ok (kernel_WaterMark s)" and sz: "unat sz < 2 ^ 32"
    and al: "driver_alloc sz s = Inr (p, s')"
  shows "water_mark_ok (kernel_WaterMark s')"
    and "p = current_address (kernel_WaterMark s')" and "p \<noteq> 0"
    and "unat p + unat sz = unat (current_address (kernel_WaterMark s))"
    and "unat (current_size (kernel_WaterMark s')) = unat (current_size (kernel_WaterMark s)) + unat sz"
    and "s' = s \<lparr> memory := memory s', kernel_WaterMark := kernel_WaterMark s' \<rparr>"
proof -
  let ?w = "kernel_WaterMark s" and ?w' = "kernel_WaterMark s'"
  from al obtain m where a: "water_mark_alloc_align (kernel_tables s) (memory s) ?w 1 sz = Inr (p, m, ?w')"
    and s': "s' = s \<lparr> memory := m, kernel_WaterMark := ?w' \<rparr>"
    by (auto simp: driver_alloc_def water_mark_alloc_def)
  note r = water_mark_alloc_align_result [OF a, simplified]
  have sum: "unat (current_size ?w') = unat (current_size ?w) + unat sz"
    using w sz by (simp add: r(4) unat_word_ariths water_mark_ok_def word_le_nat_alt)
  have le: "unat (current_size ?w') \<le> unat (max_size ?w)" using r(5) by (simp add: word_le_nat_alt)
  have "sz \<le> current_address ?w"
    using w le sum by (simp add: water_mark_ok_def word_le_nat_alt)
  then have p: "unat p + unat sz = unat (current_address ?w)"
    by (simp add: r(1) unat_sub word_le_nat_alt)
  show "water_mark_ok ?w'"
    using w r(2,5,6) p sum by (simp add: water_mark_ok_def)
  show "p = current_address ?w'" by (simp add: r(2))
  show "unat p + unat sz = unat (current_address ?w)" by (rule p)
  show "unat (current_size ?w') = unat (current_size ?w) + unat sz" by (rule sum)
  have "0 < unat p" using w p sum le by (simp add: water_mark_ok_def)
  then show "p \<noteq> 0" by auto
  have "memory s' = m" by (subst s') simp
  then show "s' = s \<lparr> memory := memory s', kernel_WaterMark := ?w' \<rparr>" using s' by (simp only:)
qed

text \<open>\<open>room n w\<close>: \<open>n\<close> more bytes can be taken without mapping a page.\<close>

definition room :: "nat \<Rightarrow> WaterMarkAllocator \<Rightarrow> bool" where
  "room n w \<longleftrightarrow> water_mark_ok w \<and> unat (page_address w) + n \<le> unat (current_address w) \<and>
     unat (current_size w) + n \<le> unat (max_size w)"

lemma driver_alloc_room:
  assumes r: "room (unat sz + n) (kernel_WaterMark s)"
  shows "\<exists>p s'. driver_alloc sz s = Inr (p, s') \<and> room n (kernel_WaterMark s')"
proof -
  let ?w = "kernel_WaterMark s"
  define w where "w = ?w \<lparr> current_address := current_address ?w - sz, current_size := current_size ?w + sz \<rparr>"
  have sum: "unat (current_size ?w + sz) = unat (current_size ?w) + unat sz"
    using r by (simp add: unat_word_ariths room_def water_mark_ok_def)
  have le: "sz \<le> current_address ?w" using r by (simp add: room_def word_le_nat_alt)
  have sub: "unat (current_address ?w - sz) = unat (current_address ?w) - unat sz" by (rule unat_sub [OF le])
  have "page_address w \<le> current_address w" using r by (simp add: w_def room_def word_le_nat_alt sub le_diff_conv2)
  then have "water_mark_alloc (kernel_tables s) (memory s) ?w sz = Inr (current_address w, memory s, w)"
    using r sum by (simp add: water_mark_alloc_def water_mark_alloc_align_def Let_def w_def [symmetric]
        map_down_done room_def word_less_nat_alt)
  then have "driver_alloc sz s = Inr (current_address w, s \<lparr> memory := memory s, kernel_WaterMark := w \<rparr>)"
    by (simp add: driver_alloc_def)
  moreover have "room n w" using r sum sub by (auto simp: w_def room_def water_mark_ok_def word_le_nat_alt)
  ultimately show ?thesis by auto
qed

section \<open>Lists with nodes of the kernel's allocator\<close>

definition kernel_list :: "('d, 'z) drivers_scheme \<Rightarrow> linked_list \<Rightarrow> addr list \<Rightarrow> bool" where
  "kernel_list s l xs \<longleftrightarrow>
     list_at (list_nodes s) l xs \<and> water_mark_ok (kernel_WaterMark s) \<and>
     24 * length xs \<le> unat (current_size (kernel_WaterMark s)) \<and>
     (\<forall>x\<in>set xs. current_address (kernel_WaterMark s) \<le> x)"

lemma insert_element_head:
  assumes l: "kernel_list s l xs" and ins: "insert_element driver_alloc l 0 d s = Inr (l', s')"
  obtains x where "kernel_list s' l' (x # xs)"
    and "list_contents (list_nodes s') (x # xs) = d # list_contents (list_nodes s) xs"
    and "current_address (kernel_WaterMark s') \<le> current_address (kernel_WaterMark s)"
    and "s' = s \<lparr> memory := memory s', kernel_WaterMark := kernel_WaterMark s', list_nodes := list_nodes s' \<rparr>"
    and "x < current_address (kernel_WaterMark s)"
    and "\<And>y. current_address (kernel_WaterMark s) \<le> y \<Longrightarrow> y \<notin> set xs \<Longrightarrow> list_nodes s' y = list_nodes s y"
proof -
  let ?w = "kernel_WaterMark s"
  from ins obtain x s1 where al: "driver_alloc 24 s = Inr (x, s1)"
    by (auto simp: insert_element_def list_insert_next_def)
  have w: "water_mark_ok ?w" using l by (simp add: kernel_list_def)
  note t = driver_alloc_takes [OF w _ al, simplified]
  have s1: "list_nodes s1 = list_nodes s" by (subst t(6)) simp
  have lt: "x < current_address ?w" using t(4) by (simp add: word_less_nat_alt)
  have x: "x \<notin> set xs" using l lt unfolding kernel_list_def by (metis not_less)
  have len: "Suc (length xs) < 2 ^ 31" using l by (simp add: kernel_list_def water_mark_ok_def word_le_nat_alt)
  have "list_at (list_nodes s) l xs" using l by (simp add: kernel_list_def)
  from list_insert_next_head [where ram_alloc = driver_alloc and s = s and s' = s1 and d = d,
      OF this x t(3) len al]
  obtain l2 h2 where i: "list_insert_next driver_alloc l 0 d (list_nodes s) s = Inr (0, l2, h2, s1)"
    and la: "list_at h2 l2 (x # xs)" "list_contents h2 (x # xs) = d # list_contents (list_nodes s) xs"
    by blast
  have s': "s' = s1 \<lparr> list_nodes := h2 \<rparr>" "l' = l2" using ins i by (auto simp: insert_element_def)
  have f: "list_nodes s' = h2" "kernel_WaterMark s' = kernel_WaterMark s1" "memory s' = memory s1"
    by (simp_all add: s')
  have le: "current_address (kernel_WaterMark s') \<le> current_address ?w"
    using lt t(2) f by simp
  have "kernel_list s' l' (x # xs)"
    using l t(1,2,5) la(1) le unfolding kernel_list_def f s'(2) by (auto intro: order_trans)
  moreover have "list_contents (list_nodes s') (x # xs) = d # list_contents (list_nodes s) xs"
    using la(2) f by simp
  moreover have "s' = s \<lparr> memory := memory s', kernel_WaterMark := kernel_WaterMark s', list_nodes := list_nodes s' \<rparr>"
    unfolding f s'(1) by (subst t(6)) simp
  moreover have "list_nodes s' y = list_nodes s y" if "current_address ?w \<le> y" "y \<notin> set xs" for y
  proof -
    have "y \<noteq> x" "y \<noteq> list_head l \<or> list_head l = 0" using that lt l
      by (cases xs; auto simp: kernel_list_def list_at_def)+
    moreover have "insert_head x l ((list_nodes s)(x := (list_nodes s x) \<lparr> list_data := d \<rparr>)) =
        (l2 \<lparr> list_size := list_size l \<rparr>, h2)"
      using i al t(3) by (auto simp: list_insert_next_def insert_head_def Let_def split: if_splits)
    ultimately show ?thesis unfolding f
      by (auto simp: insert_head_def Let_def split: if_splits)
  qed
  ultimately show ?thesis using le lt that by blast
qed

lemma insert_element_returns:
  assumes "room (24 + n) (kernel_WaterMark s)"
  shows "\<exists>l' s'. insert_element driver_alloc l 0 d s = Inr (l', s') \<and> room n (kernel_WaterMark s')"
proof -
  from driver_alloc_room [of 24 n s] assms obtain x s1 where
    "driver_alloc 24 s = Inr (x, s1)" "room n (kernel_WaterMark s1)" by auto
  then show ?thesis
    by (auto simp: insert_element_def list_insert_next_def split: prod.splits)
qed

end
