(* ===== verification/Pci.thy ===== *)
theory Pci
  imports Devices
begin

text \<open>
  \<open>arch/x86_64/pci/pci.c\<close> and \<open>pci.h\<close>: the PCI bus driver.  The configuration ports are accesses of
  the device; the structures \<open>pci_config_t\<close> live in a heap of records, the list of the devices is a
  list of their addresses.  The union of header types is a datatype, so a use of the wrong member
  is an error of the model; the properties show that every listed device carries the member its
  header type names, that the scan lists exactly the functions that answer, and what size the
  probing of a base address register finds.
\<close>

section \<open>Data\<close>

record header_type_0 =
  bar_address :: "u32 list"
  bar_sizes :: "u32 list"
  cardbus_cis_pointer :: u32
  subsystem_vendor_id_of_0 :: u16
  subsystem_id :: u16
  expansion_rom_address :: u32
  capabilities_pointer :: u8
  interrupt_line_of_0 :: u8
  interrupt_pin_of_0 :: u8
  min_grant :: u8
  max_latency :: u8

record header_type_1 =
  bar_address_0 :: u32
  bar_address_1 :: u32
  primary_bus_number :: u8
  secondary_bus_number :: u8
  subordinate_bus_number_of_1 :: u8
  secondary_latency_timer :: u8
  io_base :: u8
  io_limit :: u8
  secondary_status_of_1 :: u16
  memory_base :: u16
  memory_limit :: u16
  prefetchable_memory_base :: u16
  prefetchable_memory_limit :: u16
  prefetchable_base_upper_32_bits :: u32
  prefetchable_memory_limit_upper_32_bits :: u32
  io_base_upper_16_bits :: u16
  io_limit_upper_16_bits :: u16
  capability_pointer :: u8
  expansion_rom_base_address :: u32
  interrupt_line_of_1 :: u8
  interrupt_pin_of_1 :: u8
  bridge_control_of_1 :: u16

record header_type_2 =
  cardbus_socket_base_address :: u32
  offset_of_capabilities_list :: u8
  secondary_status_of_2 :: u16
  pci_bus_number :: u8
  card_bus_number :: u8
  subordinate_bus_number_of_2 :: u8
  cardbus_latency_timer :: u8
  memory_base_address_0 :: u32
  memory_limit_0 :: u32
  memory_base_address_1 :: u32
  memory_limit_1 :: u32
  io_base_address_0 :: u32
  io_limit_0 :: u32
  io_base_address_1 :: u32
  io_limit_1 :: u32
  interrupt_line_of_2 :: u8
  interrupt_pin_of_2 :: u8
  bridge_control_of_2 :: u16
  subsystem_device_id :: u16
  subsystem_vendor_id_of_2 :: u16
  pci_legacy_mode_base_address :: u32

datatype pci_header = Uninitialised | type_0 header_type_0 | type_1 header_type_1 | type_2 header_type_2

record pci_config_t =
  bus :: u8
  slot :: u8
  func_no :: u8
  vendor_id :: u16
  device_id :: u16
  status :: u16
  command :: u16
  base_class :: u8
  sub_class :: u8
  programming_if :: u8
  revision :: u8
  BIST :: u8
  header_type :: u8
  latency_timer :: u8
  cache_line_size :: u8
  h_type :: pci_header

record 'd pci = "'d drivers" +
  configs :: "addr \<Rightarrow> pci_config_t"
  lst_pci_devices :: linked_list

section \<open>Configuration space\<close>

definition PCI_CONFIG_SPACE_PORT :: u16 where "PCI_CONFIG_SPACE_PORT = 0xCF8"
definition PCI_CONFIG_DATA_PORT :: u16 where "PCI_CONFIG_DATA_PORT = 0xCFC"
definition ENABLE_PCI_CONFIG_SPACE :: u32 where "ENABLE_PCI_CONFIG_SPACE = 0x80000000"

definition PCI_VENDOR_ID :: u8 where "PCI_VENDOR_ID = 0x0"
definition PCI_DEVICE_ID :: u8 where "PCI_DEVICE_ID = 0x2"
definition PCI_COMMAND :: u8 where "PCI_COMMAND = 0x4"
definition PCI_STATUS :: u8 where "PCI_STATUS = 0x6"
definition PCI_CLASS :: u8 where "PCI_CLASS = 0x8"
definition PCI_CACHE_LINE_SIZE :: u8 where "PCI_CACHE_LINE_SIZE = 0xC"
definition PCI_LATENCY_TIMER :: u8 where "PCI_LATENCY_TIMER = 0xD"
definition PCI_HEADER_TYPE :: u8 where "PCI_HEADER_TYPE = 0xE"
definition PCI_BIST :: u8 where "PCI_BIST = 0xF"

definition pci_address :: "u8 \<Rightarrow> u8 \<Rightarrow> u8 \<Rightarrow> u8 \<Rightarrow> u32" where
  "pci_address b dv fn offset =
     ENABLE_PCI_CONFIG_SPACE OR push_bit 16 (ucast b) OR push_bit 11 (ucast dv) OR
     push_bit 8 (ucast fn) OR ucast (offset AND 0xFC)"

definition pci_config_read_long ::
  "'d machine \<Rightarrow> u8 \<Rightarrow> u8 \<Rightarrow> u8 \<Rightarrow> u8 \<Rightarrow> (('d, 'z) drivers_scheme, u32) call" where
  "pci_config_read_long mc b dv fn offset =
     seq (on_device (port_outl mc PCI_CONFIG_SPACE_PORT (pci_address b dv fn offset)))
       (from_device (port_inl mc PCI_CONFIG_DATA_PORT))"

definition pci_config_read_word ::
  "'d machine \<Rightarrow> u8 \<Rightarrow> u8 \<Rightarrow> u8 \<Rightarrow> u8 \<Rightarrow> (('d, 'z) drivers_scheme, u16) call" where
  "pci_config_read_word mc b dv fn offset =
     seq (on_device (port_outl mc PCI_CONFIG_SPACE_PORT (pci_address b dv fn offset)))
       (from_device (port_inw mc (PCI_CONFIG_DATA_PORT + ucast (offset AND 2))))"

definition pci_config_read_byte ::
  "'d machine \<Rightarrow> u8 \<Rightarrow> u8 \<Rightarrow> u8 \<Rightarrow> u8 \<Rightarrow> (('d, 'z) drivers_scheme, u8) call" where
  "pci_config_read_byte mc b dv fn offset =
     seq (on_device (port_outl mc PCI_CONFIG_SPACE_PORT (pci_address b dv fn offset)))
       (from_device (port_inb mc (PCI_CONFIG_DATA_PORT + ucast (offset AND 3))))"

definition pci_config_write_long ::
  "'d machine \<Rightarrow> u8 \<Rightarrow> u8 \<Rightarrow> u8 \<Rightarrow> u8 \<Rightarrow> u32 \<Rightarrow> ('d, 'z) drivers_scheme proc" where
  "pci_config_write_long mc b dv fn offset val =
     seq (on_device (port_outl mc PCI_CONFIG_SPACE_PORT (pci_address b dv fn offset)))
       (on_device (port_outl mc PCI_CONFIG_DATA_PORT val))"

definition pci_config_write_word ::
  "'d machine \<Rightarrow> u8 \<Rightarrow> u8 \<Rightarrow> u8 \<Rightarrow> u8 \<Rightarrow> u16 \<Rightarrow> ('d, 'z) drivers_scheme proc" where
  "pci_config_write_word mc b dv fn offset val =
     seq (on_device (port_outl mc PCI_CONFIG_SPACE_PORT (pci_address b dv fn offset)))
       (on_device (port_outw mc (PCI_CONFIG_DATA_PORT + ucast (offset AND 2)) val))"

definition pci_config_write_byte ::
  "'d machine \<Rightarrow> u8 \<Rightarrow> u8 \<Rightarrow> u8 \<Rightarrow> u8 \<Rightarrow> u8 \<Rightarrow> ('d, 'z) drivers_scheme proc" where
  "pci_config_write_byte mc b dv fn offset val =
     seq (on_device (port_outl mc PCI_CONFIG_SPACE_PORT (pci_address b dv fn offset)))
       (on_device (port_outb mc (PCI_CONFIG_DATA_PORT + ucast (offset AND 3)) val))"

text \<open>The inline functions of \<open>pci.h\<close> take the address from a structure; the narrow reads widen.\<close>

definition pci_config_read_l :: "'d machine \<Rightarrow> pci_config_t \<Rightarrow> u8 \<Rightarrow> (('d, 'z) drivers_scheme, u32) call" where
  "pci_config_read_l mc c offset = pci_config_read_long mc (bus c) (slot c) (func_no c) offset"

definition pci_config_read_w :: "'d machine \<Rightarrow> pci_config_t \<Rightarrow> u8 \<Rightarrow> (('d, 'z) drivers_scheme, u32) call" where
  "pci_config_read_w mc c offset =
     bind (pci_config_read_word mc (bus c) (slot c) (func_no c) offset) (\<lambda>v. return (ucast v))"

definition pci_config_read_b :: "'d machine \<Rightarrow> pci_config_t \<Rightarrow> u8 \<Rightarrow> (('d, 'z) drivers_scheme, u32) call" where
  "pci_config_read_b mc c offset =
     bind (pci_config_read_byte mc (bus c) (slot c) (func_no c) offset) (\<lambda>v. return (ucast v))"

definition pci_config_write_l :: "'d machine \<Rightarrow> pci_config_t \<Rightarrow> u8 \<Rightarrow> u32 \<Rightarrow> ('d, 'z) drivers_scheme proc" where
  "pci_config_write_l mc c offset val = pci_config_write_long mc (bus c) (slot c) (func_no c) offset val"

definition pci_config_write_w :: "'d machine \<Rightarrow> pci_config_t \<Rightarrow> u8 \<Rightarrow> u16 \<Rightarrow> ('d, 'z) drivers_scheme proc" where
  "pci_config_write_w mc c offset val = pci_config_write_word mc (bus c) (slot c) (func_no c) offset val"

definition pci_config_write_b :: "'d machine \<Rightarrow> pci_config_t \<Rightarrow> u8 \<Rightarrow> u8 \<Rightarrow> ('d, 'z) drivers_scheme proc" where
  "pci_config_write_b mc c offset val = pci_config_write_byte mc (bus c) (slot c) (func_no c) offset val"

section \<open>Reading a device\<close>

definition read_type_0 ::
  "'d machine \<Rightarrow> u8 \<Rightarrow> u8 \<Rightarrow> u8 \<Rightarrow> (('d, 'z) drivers_scheme, header_type_0) call" where
  "read_type_0 mc b sl fn =
    bind (collect [0..<6] (\<lambda>i. pci_config_read_long mc b sl fn (0x10 + 4 * of_nat i))) (\<lambda>bars.
    bind (pci_config_read_long mc b sl fn 0x28) (\<lambda>v28.
    bind (pci_config_read_word mc b sl fn 0x2C) (\<lambda>v2C.
    bind (pci_config_read_word mc b sl fn 0x2E) (\<lambda>v2E.
    bind (pci_config_read_long mc b sl fn 0x30) (\<lambda>v30.
    bind (pci_config_read_byte mc b sl fn 0x34) (\<lambda>v34.
    bind (pci_config_read_byte mc b sl fn 0x3C) (\<lambda>v3C.
    bind (pci_config_read_byte mc b sl fn 0x3D) (\<lambda>v3D.
    bind (pci_config_read_byte mc b sl fn 0x3E) (\<lambda>v3E.
    bind (pci_config_read_byte mc b sl fn 0x3F) (\<lambda>v3F.
    return \<lparr>
      bar_address = bars,
      bar_sizes = replicate 6 0,
      cardbus_cis_pointer = v28,
      subsystem_vendor_id_of_0 = v2C,
      subsystem_id = v2E,
      expansion_rom_address = v30,
      capabilities_pointer = v34,
      interrupt_line_of_0 = v3C,
      interrupt_pin_of_0 = v3D,
      min_grant = v3E,
      max_latency = v3F \<rparr>))))))))))"

definition read_type_1 ::
  "'d machine \<Rightarrow> u8 \<Rightarrow> u8 \<Rightarrow> u8 \<Rightarrow> (('d, 'z) drivers_scheme, header_type_1) call" where
  "read_type_1 mc b sl fn =
    bind (pci_config_read_long mc b sl fn 0x10) (\<lambda>v10.
    bind (pci_config_read_long mc b sl fn 0x14) (\<lambda>v14.
    bind (pci_config_read_byte mc b sl fn 0x18) (\<lambda>v18.
    bind (pci_config_read_byte mc b sl fn 0x19) (\<lambda>v19.
    bind (pci_config_read_byte mc b sl fn 0x1A) (\<lambda>v1A.
    bind (pci_config_read_byte mc b sl fn 0x1B) (\<lambda>v1B.
    bind (pci_config_read_byte mc b sl fn 0x1C) (\<lambda>v1C.
    bind (pci_config_read_byte mc b sl fn 0x1D) (\<lambda>v1D.
    bind (pci_config_read_word mc b sl fn 0x1E) (\<lambda>v1E.
    bind (pci_config_read_word mc b sl fn 0x20) (\<lambda>v20.
    bind (pci_config_read_word mc b sl fn 0x22) (\<lambda>v22.
    bind (pci_config_read_word mc b sl fn 0x24) (\<lambda>v24.
    bind (pci_config_read_word mc b sl fn 0x26) (\<lambda>v26.
    bind (pci_config_read_long mc b sl fn 0x28) (\<lambda>v28.
    bind (pci_config_read_long mc b sl fn 0x2C) (\<lambda>v2C.
    bind (pci_config_read_word mc b sl fn 0x30) (\<lambda>v30.
    bind (pci_config_read_word mc b sl fn 0x32) (\<lambda>v32.
    bind (pci_config_read_byte mc b sl fn 0x34) (\<lambda>v34.
    bind (pci_config_read_long mc b sl fn 0x38) (\<lambda>v38.
    bind (pci_config_read_byte mc b sl fn 0x3C) (\<lambda>v3C.
    bind (pci_config_read_byte mc b sl fn 0x3D) (\<lambda>v3D.
    bind (pci_config_read_word mc b sl fn 0x3E) (\<lambda>v3E.
    return \<lparr>
      bar_address_0 = v10,
      bar_address_1 = v14,
      primary_bus_number = v18,
      secondary_bus_number = v19,
      subordinate_bus_number_of_1 = v1A,
      secondary_latency_timer = v1B,
      io_base = v1C,
      io_limit = v1D,
      secondary_status_of_1 = v1E,
      memory_base = v20,
      memory_limit = v22,
      prefetchable_memory_base = v24,
      prefetchable_memory_limit = v26,
      prefetchable_base_upper_32_bits = v28,
      prefetchable_memory_limit_upper_32_bits = v2C,
      io_base_upper_16_bits = v30,
      io_limit_upper_16_bits = v32,
      capability_pointer = v34,
      expansion_rom_base_address = v38,
      interrupt_line_of_1 = v3C,
      interrupt_pin_of_1 = v3D,
      bridge_control_of_1 = v3E \<rparr>))))))))))))))))))))))"

definition read_type_2 ::
  "'d machine \<Rightarrow> u8 \<Rightarrow> u8 \<Rightarrow> u8 \<Rightarrow> (('d, 'z) drivers_scheme, header_type_2) call" where
  "read_type_2 mc b sl fn =
    bind (pci_config_read_long mc b sl fn 0x10) (\<lambda>v10.
    bind (pci_config_read_byte mc b sl fn 0x14) (\<lambda>v14.
    bind (pci_config_read_word mc b sl fn 0x16) (\<lambda>v16.
    bind (pci_config_read_byte mc b sl fn 0x18) (\<lambda>v18.
    bind (pci_config_read_byte mc b sl fn 0x19) (\<lambda>v19.
    bind (pci_config_read_byte mc b sl fn 0x1A) (\<lambda>v1A.
    bind (pci_config_read_byte mc b sl fn 0x1B) (\<lambda>v1B.
    bind (pci_config_read_long mc b sl fn 0x1C) (\<lambda>v1C.
    bind (pci_config_read_long mc b sl fn 0x20) (\<lambda>v20.
    bind (pci_config_read_long mc b sl fn 0x24) (\<lambda>v24.
    bind (pci_config_read_long mc b sl fn 0x28) (\<lambda>v28.
    bind (pci_config_read_long mc b sl fn 0x2C) (\<lambda>v2C.
    bind (pci_config_read_long mc b sl fn 0x30) (\<lambda>v30.
    bind (pci_config_read_long mc b sl fn 0x34) (\<lambda>v34.
    bind (pci_config_read_long mc b sl fn 0x38) (\<lambda>v38.
    bind (pci_config_read_byte mc b sl fn 0x3C) (\<lambda>v3C.
    bind (pci_config_read_byte mc b sl fn 0x3D) (\<lambda>v3D.
    bind (pci_config_read_word mc b sl fn 0x3E) (\<lambda>v3E.
    bind (pci_config_read_word mc b sl fn 0x40) (\<lambda>v40.
    bind (pci_config_read_word mc b sl fn 0x42) (\<lambda>v42.
    bind (pci_config_read_long mc b sl fn 0x44) (\<lambda>v44.
    return \<lparr>
      cardbus_socket_base_address = v10,
      offset_of_capabilities_list = v14,
      secondary_status_of_2 = v16,
      pci_bus_number = v18,
      card_bus_number = v19,
      subordinate_bus_number_of_2 = v1A,
      cardbus_latency_timer = v1B,
      memory_base_address_0 = v1C,
      memory_limit_0 = v20,
      memory_base_address_1 = v24,
      memory_limit_1 = v28,
      io_base_address_0 = v2C,
      io_limit_0 = v30,
      io_base_address_1 = v34,
      io_limit_1 = v38,
      interrupt_line_of_2 = v3C,
      interrupt_pin_of_2 = v3D,
      bridge_control_of_2 = v3E,
      subsystem_device_id = v40,
      subsystem_vendor_id_of_2 = v42,
      pci_legacy_mode_base_address = v44 \<rparr>)))))))))))))))))))))"

text \<open>The size of one base address register: write all ones, read back, restore.\<close>

definition set_bar_size :: "nat \<Rightarrow> u32 \<Rightarrow> pci_config_t \<Rightarrow> pci_config_t" where
  "set_bar_size index sz c =
     (case h_type c of
        type_0 t \<Rightarrow> c \<lparr> h_type := type_0 (t \<lparr> bar_sizes := (bar_sizes t)[index := sz] \<rparr>) \<rparr>
      | _ \<Rightarrow> c)"

definition measure_bar ::
  "'d machine \<Rightarrow> pci_config_t \<Rightarrow> u8 \<Rightarrow> (('d, 'z) drivers_scheme, u32 \<times> u32) call" where
  "measure_bar mc c offset =
     bind (pci_config_read_long mc (bus c) (slot c) (func_no c) offset) (\<lambda>orig.
     seq (pci_config_write_long mc (bus c) (slot c) (func_no c) offset 0xFFFFFFFF) (
     bind (pci_config_read_long mc (bus c) (slot c) (func_no c) offset) (\<lambda>sz.
     seq (pci_config_write_long mc (bus c) (slot c) (func_no c) offset orig) (
     let sz = sz AND 0xFFFFFFF0; sz = NOT sz; sz = sz + 1 in return (orig, sz)))))"

definition probe_bar :: "'d machine \<Rightarrow> addr \<Rightarrow> u8 \<Rightarrow> ('d, 'z) pci_scheme proc" where
  "probe_bar mc config offset s =
     bind (measure_bar mc (configs s config) offset) (\<lambda>(orig, sz).
     seq (\<lambda>s. Inr (s \<lparr> configs := (configs s)
            (config := set_bar_size (unat ((offset - 0x10) div 4)) sz (configs s config)) \<rparr>)) (
     seq (kprint ''Orig 0x%x: %x\<newline>'' [Num (ucast offset), Num (ucast orig)])
       (kprint ''Memory size required: 0x%x\<newline>'' [Num (ucast sz)]))) s"

definition pci_get_memory_size :: "'d machine \<Rightarrow> addr \<Rightarrow> ('d, 'z) pci_scheme proc" where
  "pci_get_memory_size mc config s =
     (if header_type (configs s config) AND 0x7 = 0
      then (case h_type (configs s config) of
              type_0 t \<Rightarrow> for_each [0x10, 0x14, 0x18, 0x1C, 0x20, 0x24] (probe_bar mc config) s
            | _ \<Rightarrow> Inl (Undefined ''member type_0''))
      else Inr s)"

section \<open>Scanning the buses\<close>

definition panic_free :: "u64 \<Rightarrow> 's proc" where
  "panic_free ptr = panic ''Tried to free PCI list element''"

definition node_alloc :: "u64 \<Rightarrow> (('d, 'z) drivers_scheme, addr) call" where
  "node_alloc sz = driver_alloc sz"

text \<open>What is read of every header, and the part its type adds.\<close>

definition read_config ::
  "'d machine \<Rightarrow> u8 \<Rightarrow> u8 \<Rightarrow> u8 \<Rightarrow> u16 \<Rightarrow> u16 \<Rightarrow> (('d, 'z) drivers_scheme, pci_config_t) call" where
  "read_config mc b sl fn vendor dev =
    bind (pci_config_read_word mc b sl fn PCI_STATUS) (\<lambda>st.
    bind (pci_config_read_word mc b sl fn PCI_COMMAND) (\<lambda>cmd.
    bind (pci_config_read_long mc b sl fn PCI_CLASS) (\<lambda>cls.
    bind (pci_config_read_byte mc b sl fn PCI_CACHE_LINE_SIZE) (\<lambda>cache.
    bind (pci_config_read_byte mc b sl fn PCI_LATENCY_TIMER) (\<lambda>latency.
    bind (pci_config_read_byte mc b sl fn PCI_HEADER_TYPE) (\<lambda>header.
    bind (pci_config_read_byte mc b sl fn PCI_BIST) (\<lambda>bist.
    return \<lparr> bus = b, slot = sl, func_no = fn, vendor_id = vendor, device_id = dev,
      status = st, command = cmd,
      base_class = ucast (drop_bit 24 cls AND 0xFF), sub_class = ucast (drop_bit 16 cls AND 0xFF),
      programming_if = ucast (drop_bit 8 cls AND 0xFF), revision = ucast (cls AND 0xFF),
      BIST = bist, header_type = header, latency_timer = latency, cache_line_size = cache,
      h_type = Uninitialised \<rparr>)))))))"

definition store_config :: "addr \<Rightarrow> pci_config_t \<Rightarrow> ('d, 'z) pci_scheme proc" where
  "store_config p c s = Inr (s \<lparr> configs := (configs s)(p := c) \<rparr>)"

definition read_header :: "'d machine \<Rightarrow> addr \<Rightarrow> pci_config_t \<Rightarrow> ('d, 'z) pci_scheme proc" where
  "read_header mc p c =
     (let kind = header_type c AND 0x7 in
      if kind = 0 then
        bind (read_type_0 mc (bus c) (slot c) (func_no c)) (\<lambda>t.
        seq (store_config p (c \<lparr> h_type := type_0 t \<rparr>)) (pci_get_memory_size mc p))
      else if kind = 1 then
        bind (read_type_1 mc (bus c) (slot c) (func_no c)) (\<lambda>t. store_config p (c \<lparr> h_type := type_1 t \<rparr>))
      else if kind = 2 then
        bind (read_type_2 mc (bus c) (slot c) (func_no c)) (\<lambda>t. store_config p (c \<lparr> h_type := type_2 t \<rparr>))
      else panic ''PCI - Device found with bad header type'')"

definition insert_device :: "addr \<Rightarrow> ('d, 'z) pci_scheme proc" where
  "insert_device p s =
     bind (insert_element node_alloc (lst_pci_devices s) 0 p) (\<lambda>l s. Inr (s \<lparr> lst_pci_devices := l \<rparr>)) s"

abbreviation sizeof_pci_config :: u64 where "sizeof_pci_config \<equiv> 92"

definition scan_function :: "'d machine \<Rightarrow> u8 \<Rightarrow> u8 \<Rightarrow> u8 \<Rightarrow> ('d, 'z) pci_scheme proc" where
  "scan_function mc b sl fn =
     bind (pci_config_read_word mc b sl 0 PCI_VENDOR_ID) (\<lambda>vendor.
     if vendor = 0xFFFF then skip
     else bind (pci_config_read_word mc b sl fn PCI_DEVICE_ID) (\<lambda>dev.
     if dev = 0xFFFF then skip
     else bind (driver_alloc sizeof_pci_config) (\<lambda>p.
     seq (assert_at ''pci.c'' 99 (p \<noteq> 0)) (
     bind (read_config mc b sl fn vendor dev) (\<lambda>c.
     seq (read_header mc p c) (insert_device p))))))"

definition pci_scan_devices :: "'d machine \<Rightarrow> ('d, 'z) pci_scheme proc" where
  "pci_scan_devices mc =
     for_each [0..<256] (\<lambda>b. for_each [0..<32] (\<lambda>sl. for_each [0..<8] (\<lambda>fn.
       scan_function mc (of_nat b) (of_nat sl) (of_nat fn))))"

definition pci_init :: "'d machine \<Rightarrow> ('d, 'z) pci_scheme proc" where
  "pci_init mc s = pci_scan_devices mc (s \<lparr> lst_pci_devices := list_init \<rparr>)"

section \<open>Finding and printing devices\<close>

text \<open>The result is the address of the structure, 0 for NULL.\<close>

definition pci_find_custom :: "(pci_config_t \<Rightarrow> bool) \<Rightarrow> ('d, 'z) pci_scheme \<Rightarrow> addr res" where
  "pci_find_custom func s =
     returned_by (find_node (\<lambda>p. func (configs s p)) (list_nodes s) (list_head (lst_pci_devices s)))"

definition pci_find_by_class :: "u8 \<Rightarrow> u8 \<Rightarrow> u8 \<Rightarrow> ('d, 'z) pci_scheme \<Rightarrow> addr res" where
  "pci_find_by_class base sub prog_if s =
     returned_by (find_node
       (\<lambda>p. base_class (configs s p) = base \<and> sub_class (configs s p) = sub \<and>
            programming_if (configs s p) = prog_if)
       (list_nodes s) (list_head (lst_pci_devices s)))"

definition pci_find_by_device :: "u16 \<Rightarrow> u16 \<Rightarrow> ('d, 'z) pci_scheme \<Rightarrow> addr res" where
  "pci_find_by_device vendor dev s =
     returned_by (find_node
       (\<lambda>p. vendor_id (configs s p) = vendor \<and> device_id (configs s p) = dev)
       (list_nodes s) (list_head (lst_pci_devices s)))"

abbreviation arg :: "'a::len word \<Rightarrow> karg" where
  "arg w \<equiv> Num (ucast w)"

text \<open>The calls of \<open>kprintf\<close> that print a device.\<close>

definition dump_common :: "pci_config_t \<Rightarrow> (string \<times> karg list) list" where
  "dump_common c = [
     (''Bus: %d, Slot: %d, Function: %d\<newline>'', [arg (bus c), arg (slot c), arg (func_no c)]),
     (''Vendor ID    : %04xh - '', [arg (vendor_id c)]),
     (''Device ID  : %04xh\<newline>'', [arg (device_id c)]),
     (''Command      : %04xh - '', [arg (command c)]),
     (''Status     : %04xh\<newline>'', [arg (status c)]),
     (''Base Class   : %02xh - '', [arg (base_class c)]),
     (''Sub  Class   : %02xh\<newline>'', [arg (sub_class c)]),
     (''Prog IF      : %02xh - '', [arg (programming_if c)]),
     (''Revision     : %02xh\<newline>'', [arg (revision c)]),
     (''Cache Size   : %02xh - '', [arg (cache_line_size c)]),
     (''Latency Timer: %02xh\<newline>'', [arg (latency_timer c)]),
     (''Header Type  : %02xh - '', [arg (header_type c)]),
     (''BIST         : %02xh\<newline>'', [arg (BIST c)])]"

definition dump_type_0 :: "header_type_0 \<Rightarrow> (string \<times> karg list) list" where
  "dump_type_0 t = [
     (''Header type: 0\<newline>'', [])] @
     map (\<lambda>i. (''Bar address %d: %x\<newline>'', [Num (of_nat i), arg (bar_address t ! i)])) [0..<6] @ [
     (''Carbus pointer: %x\<newline>'', [arg (cardbus_cis_pointer t)]),
     (''Subsystem Vendor ID: %x\<newline>'', [arg (subsystem_vendor_id_of_0 t)]),
     (''Subsystem ID: %x\<newline>'', [arg (subsystem_id t)]),
     (''Expansion ROM addr: %x\<newline>'', [arg (expansion_rom_address t)]),
     (''Capabilities Pointer: %x\<newline>'', [arg (capabilities_pointer t)]),
     (''Interrupt line: %x\<newline>'', [arg (interrupt_line_of_0 t)]),
     (''Interrupt pin: %x\<newline>'', [arg (interrupt_pin_of_0 t)]),
     (''Min grant: %x\<newline>'', [arg (min_grant t)]),
     (''Max latency: %x\<newline>'', [arg (max_latency t)])]"

definition dump_type_1 :: "header_type_1 \<Rightarrow> (string \<times> karg list) list" where
  "dump_type_1 t = [
     (''\<newline>Header type: 1\<newline>'', []),
     (''Bar address 0: %x\<newline>'', [arg (bar_address_0 t)]),
     (''Bar address 1: %x\<newline>'', [arg (bar_address_1 t)]),
     (''Primary bus number: %x\<newline>'', [arg (primary_bus_number t)]),
     (''Secondary bus number: %x\<newline>'', [arg (secondary_bus_number t)]),
     (''Subordinate bus number: %x\<newline>'', [arg (subordinate_bus_number_of_1 t)]),
     (''Secondary latency timer: %x\<newline>'', [arg (secondary_latency_timer t)]),
     (''IO base: %x\<newline>'', [arg (io_base t)]),
     (''IO limit: %x\<newline>'', [arg (io_limit t)]),
     (''Secondary status: %x\<newline>'', [arg (secondary_status_of_1 t)]),
     (''Memory base: %x\<newline>'', [arg (memory_base t)]),
     (''Memory limit: %x\<newline>'', [arg (memory_limit t)]),
     (''Prefetch memory base: %x\<newline>'', [arg (prefetchable_memory_base t)]),
     (''Prefetch memory limit: %x\<newline>'', [arg (prefetchable_memory_limit t)]),
     (''Prefetch base upper 32-bits: %x\<newline>'', [arg (prefetchable_base_upper_32_bits t)]),
     (''Prefetch limit upper 32-bits: %x\<newline>'', [arg (prefetchable_memory_limit_upper_32_bits t)]),
     (''IO base upper 16-bits: %x\<newline>'', [arg (io_base_upper_16_bits t)]),
     (''IO limit upper 16-bits: %x\<newline>'', [arg (io_limit_upper_16_bits t)]),
     (''Capability pointer: %x\<newline>'', [arg (capability_pointer t)]),
     (''Expansion ROM base address: %x\<newline>'', [arg (expansion_rom_base_address t)]),
     (''Interrupt line: %x\<newline>'', [arg (interrupt_line_of_1 t)]),
     (''Interrupt pin: %x\<newline>'', [arg (interrupt_pin_of_1 t)]),
     (''Bridge control: %x\<newline>'', [arg (bridge_control_of_1 t)])]"

definition dump_type_2 :: "header_type_2 \<Rightarrow> (string \<times> karg list) list" where
  "dump_type_2 t = [
     (''Cardbus socket base address: %x\<newline>'', [arg (cardbus_socket_base_address t)]),
     (''Offset of capabilities: %x\<newline>'', [arg (offset_of_capabilities_list t)]),
     (''Secondary status: %x\<newline>'', [arg (secondary_status_of_2 t)]),
     (''PCI bus number: %x\<newline>'', [arg (pci_bus_number t)]),
     (''Cardbus bus number: %x\<newline>'', [arg (card_bus_number t)]),
     (''Subordinate bus number: %x\<newline>'', [arg (subordinate_bus_number_of_2 t)]),
     (''Cardbus latency timer: %x\<newline>'', [arg (cardbus_latency_timer t)]),
     (''Memory base address 0: %x\<newline>'', [arg (memory_base_address_0 t)]),
     (''Memory limit 0: %x\<newline>'', [arg (memory_limit_0 t)]),
     (''Memory base address 1: %x\<newline>'', [arg (memory_base_address_1 t)]),
     (''Memory limit 1: %x\<newline>'', [arg (memory_limit_1 t)]),
     (''IO base address 0: %x\<newline>'', [arg (io_base_address_0 t)]),
     (''IO limit 0: %x\<newline>'', [arg (io_limit_0 t)]),
     (''IO base address 1: %x\<newline>'', [arg (io_base_address_1 t)]),
     (''IO limit 1: %x\<newline>'', [arg (io_limit_1 t)]),
     (''Interrupt line: %x\<newline>'', [arg (interrupt_line_of_2 t)]),
     (''Interrupt pin: %x\<newline>'', [arg (interrupt_pin_of_2 t)]),
     (''Bridge control: %x\<newline>'', [arg (bridge_control_of_2 t)]),
     (''Subsystem device ID: %x\<newline>'', [arg (subsystem_device_id t)]),
     (''Subsystem vendor ID: %x\<newline>'', [arg (subsystem_vendor_id_of_2 t)]),
     (''16-bit PC card legacy base address: %x\<newline>'', [arg (pci_legacy_mode_base_address t)])]"

definition pci_dump_device :: "pci_config_t \<Rightarrow> ('d, 'z) drivers_scheme proc" where
  "pci_dump_device c =
     (let kind = header_type c AND 0x7 in
      seq (kprints (dump_common c))
        (if kind = 0 then
           (case h_type c of type_0 t \<Rightarrow> kprints (dump_type_0 t) | _ \<Rightarrow> (\<lambda>s. Inl (Undefined ''member type_0'')))
         else if kind = 1 then
           (case h_type c of type_1 t \<Rightarrow> kprints (dump_type_1 t) | _ \<Rightarrow> (\<lambda>s. Inl (Undefined ''member type_1'')))
         else if kind = 2 then
           (case h_type c of type_2 t \<Rightarrow> kprints (dump_type_2 t) | _ \<Rightarrow> (\<lambda>s. Inl (Undefined ''member type_2'')))
         else skip))"

definition pci_dump_all_devices :: "('d, 'z) pci_scheme proc" where
  "pci_dump_all_devices s =
     seq (kprint ''\<newline>PCI devices list:\<newline>'' [])
       (\<lambda>s. and_then (returned_by (each_node
          (\<lambda>p s. seq (pci_dump_device (configs s p)) (kprint ''\<newline>'' []) s)
          (list_nodes s) (list_head (lst_pci_devices s)) s)) id) s"

section \<open>What reading leaves alone\<close>

text \<open>What the three reads stay within, reading a header does.\<close>

lemma within_read_types:
  assumes "reflp R" and "transp R"
    and "\<And>off. within R (pci_config_read_long mc b sl fn off)"
    and "\<And>off. within R (pci_config_read_word mc b sl fn off)"
    and "\<And>off. within R (pci_config_read_byte mc b sl fn off)"
  shows "within R (read_type_0 mc b sl fn)" and "within R (read_type_1 mc b sl fn)"
    and "within R (read_type_2 mc b sl fn)" and "within R (read_config mc b sl fn v d)"
  unfolding read_type_0_def read_type_1_def read_type_2_def read_config_def
  by (intro within_intros assms)+

lemma quiet_read:
  "within same_kernel (pci_config_read_long mc b sl fn off)"
  "within same_kernel (pci_config_read_word mc b sl fn off)"
  "within same_kernel (pci_config_read_byte mc b sl fn off)"
  unfolding within_def pci_config_read_long_def pci_config_read_word_def pci_config_read_byte_def
  by (blast dest: on_device_same_kernel from_device_same_kernel intro: same_kernel_trans)+

lemmas quiet_read_types = within_read_types [OF same_kernel_preorder quiet_read]

lemma write_long_same_kernel: "pci_config_write_long mc b sl fn off v s = Inr s' \<Longrightarrow> same_kernel s s'"
  unfolding pci_config_write_long_def
  by (blast dest: on_device_same_kernel intro: same_kernel_trans)

lemma quiet_measure_bar: "within same_kernel (measure_bar mc c off)"
  unfolding measure_bar_def Let_def
  by (intro within_intros same_kernel_preorder quiet_read write_long_same_kernel)

lemma read_config_result:
  "read_config mc b sl fn v d s = Inr (c, s') \<Longrightarrow> bus c = b \<and> slot c = sl \<and> func_no c = fn \<and> vendor_id c = v \<and> device_id c = d"
  by (auto simp: read_config_def)

lemma read_type_0_result:
  "read_type_0 mc b sl fn s = Inr (t, s') \<Longrightarrow> length (bar_address t) = 6 \<and> length (bar_sizes t) = 6"
  by (auto simp: read_type_0_def simp del: upt_rec_numeral dest!: collect_length)

section \<open>The device list\<close>

text \<open>The abstraction: the structures of the listed devices, newest first.\<close>

definition device_list :: "('d, 'z) pci_scheme \<Rightarrow> pci_config_t list \<Rightarrow> bool" where
  "device_list s cs \<longleftrightarrow>
     (\<exists>xs. kernel_list s (lst_pci_devices s) xs \<and>
       cs = map (configs s) (list_contents (list_nodes s) xs) \<and>
       (\<forall>p\<in>set (list_contents (list_nodes s) xs). current_address (kernel_WaterMark s) \<le> p))"

definition header_typed :: "pci_config_t \<Rightarrow> bool" where
  "header_typed c \<longleftrightarrow>
     (case h_type c of
        Uninitialised \<Rightarrow> False
      | type_0 t \<Rightarrow> header_type c AND 0x7 = 0 \<and> length (bar_address t) = 6 \<and> length (bar_sizes t) = 6
      | type_1 t \<Rightarrow> header_type c AND 0x7 = 1
      | type_2 t \<Rightarrow> header_type c AND 0x7 = 2)"

definition same_device :: "pci_config_t \<Rightarrow> pci_config_t \<Rightarrow> bool" where
  "same_device c c' \<longleftrightarrow> (\<exists>h. c' = c \<lparr> h_type := h \<rparr>)"

lemma same_device_refl [simp]: "same_device c c"
  unfolding same_device_def by (metis pci_config_t.surjective pci_config_t.update_convs(16))

lemma same_device_trans: "same_device c c' \<Longrightarrow> same_device c' c'' \<Longrightarrow> same_device c c''"
  unfolding same_device_def by fastforce

lemma same_device_fields:
  "same_device c c' \<Longrightarrow> bus c' = bus c \<and> slot c' = slot c \<and> func_no c' = func_no c \<and>
    vendor_id c' = vendor_id c \<and> device_id c' = device_id c \<and> header_type c' = header_type c"
  by (auto simp: same_device_def)

definition only_config :: "addr \<Rightarrow> ('d, 'z) pci_scheme \<Rightarrow> ('d, 'z) pci_scheme \<Rightarrow> bool" where
  "only_config p s s' \<longleftrightarrow>
     list_nodes s' = list_nodes s \<and> lst_pci_devices s' = lst_pci_devices s \<and>
     kernel_WaterMark s' = kernel_WaterMark s \<and> (\<forall>q. q \<noteq> p \<longrightarrow> configs s' q = configs s q)"

lemma only_config_refl [simp]: "only_config p s s"
  by (simp add: only_config_def)

lemma only_config_trans: "only_config p s s' \<Longrightarrow> only_config p s' s'' \<Longrightarrow> only_config p s s''"
  by (simp add: only_config_def)

lemma same_kernel_only_config:
  fixes s s' :: "('d, 'z) pci_scheme"
  assumes "same_kernel s s'"
  shows "only_config p s s'" and "configs s' = configs s"
  using assms by (auto simp: same_kernel_def only_config_def)

lemma store_config_only: "store_config p c s = Inr s' \<Longrightarrow> only_config p s s' \<and> configs s' p = c"
  by (auto simp: store_config_def only_config_def)

lemma probe_bar_only:
  assumes "probe_bar mc p off s = Inr s'"
  shows "only_config p s s' \<and> (\<exists>i sz. configs s' p = set_bar_size i sz (configs s p))"
proof -
  from assms [unfolded probe_bar_def] obtain r s4 where
    1: "measure_bar mc (configs s p) off s = Inr (r, s4)" and 2: "(case r of (orig, sz) \<Rightarrow>
      seq (\<lambda>s. Inr (s \<lparr> configs := (configs s)
            (p := set_bar_size (unat ((off - 0x10) div 4)) sz (configs s p)) \<rparr>)) (
      seq (kprint ''Orig 0x%x: %x\<newline>'' [Num (ucast off), Num (ucast orig)])
       (kprint ''Memory size required: 0x%x\<newline>'' [Num (ucast sz)]))) s4 = Inr s'"
    by (rule bind_eq_InrE)
  obtain orig sz where r: "r = (orig, sz)" by fastforce
  define i where "i = unat ((off - 0x10) div 4)"
  define s5 where "s5 = s4 \<lparr> configs := (configs s4)(p := set_bar_size i sz (configs s4 p)) \<rparr>"
  from 2 obtain s6 where
    6: "kprint ''Orig 0x%x: %x\<newline>'' [Num (ucast off), Num (ucast orig)] s5 = Inr s6"
    and 7: "kprint ''Memory size required: 0x%x\<newline>'' [Num (ucast sz)] s6 = Inr s'"
    unfolding r prod.case seq_def and_then_simps s5_def i_def by (rule and_then_eq_InrE)
  have "same_kernel s s4" by (rule withinD [OF quiet_measure_bar 1])
  note q = same_kernel_only_config [OF this]
  have "only_config p s4 s5 \<and> configs s5 p = set_bar_size i sz (configs s p)"
    using q(2) by (simp add: s5_def only_config_def)
  moreover have "same_kernel s5 s'" using 6 7 by (blast dest: kprint_same_kernel intro: same_kernel_trans)
  note r = same_kernel_only_config [OF this]
  ultimately have "configs s' p = set_bar_size i sz (configs s p)" by (simp add: r(2))
  moreover have "only_config p s s'"
    using q(1) r(1) \<open>only_config p s4 s5 \<and> _\<close> by (blast intro: only_config_trans)
  ultimately show ?thesis by blast
qed

lemma set_bar_size_typed:
  "header_typed c \<Longrightarrow> header_typed (set_bar_size i sz c) \<and> same_device c (set_bar_size i sz c)"
proof (cases "h_type c")
  case (type_0 t)
  then have "same_device c (set_bar_size i sz c)"
    unfolding same_device_def set_bar_size_def by (intro exI) simp
  then show "header_typed c \<Longrightarrow> ?thesis"
    using type_0 by (simp add: header_typed_def set_bar_size_def)
qed (simp_all add: set_bar_size_def)

lemma get_memory_size_only:
  assumes "pci_get_memory_size mc p s = Inr s'" and "header_typed (configs s p)"
  shows "only_config p s s' \<and> header_typed (configs s' p) \<and> same_device (configs s p) (configs s' p)"
proof -
  have "only_config p s s' \<and> header_typed (configs s' p) \<and> same_device (configs s p) (configs s' p)"
    if "for_each [0x10, 0x14, 0x18, 0x1C, 0x20, 0x24] (probe_bar mc p) s = Inr s'"
  proof (rule for_each_invariant [OF that])
    fix i s1 s2
    assume I: "only_config p s s1 \<and> header_typed (configs s1 p) \<and> same_device (configs s p) (configs s1 p)"
      and "probe_bar mc p i s1 = Inr s2"
    from probe_bar_only [OF this(2)] obtain j sz where
      "only_config p s1 s2" "configs s2 p = set_bar_size j sz (configs s1 p)" by blast
    then show "only_config p s s2 \<and> header_typed (configs s2 p) \<and> same_device (configs s p) (configs s2 p)"
      using I set_bar_size_typed [of "configs s1 p" j sz]
      by (auto intro: only_config_trans same_device_trans)
  qed (use assms(2) in simp)
  then show ?thesis
    using assms by (auto simp: pci_get_memory_size_def split: if_splits pci_header.splits)
qed

lemma read_header_only:
  assumes "read_header mc p c s = Inr s'"
  shows "only_config p s s' \<and> header_typed (configs s' p) \<and> same_device c (configs s' p)"
proof -
  consider (0) t s1 s2 where "header_type c AND 0x7 = 0"
      "read_type_0 mc (bus c) (slot c) (func_no c) s = Inr (t, s1)"
      "store_config p (c \<lparr> h_type := type_0 t \<rparr>) s1 = Inr s2" "pci_get_memory_size mc p s2 = Inr s'"
    | (1) t s1 where "header_type c AND 0x7 = 1"
      "read_type_1 mc (bus c) (slot c) (func_no c) s = Inr (t, s1)"
      "store_config p (c \<lparr> h_type := type_1 t \<rparr>) s1 = Inr s'"
    | (2) t s1 where "header_type c AND 0x7 = 2"
      "read_type_2 mc (bus c) (slot c) (func_no c) s = Inr (t, s1)"
      "store_config p (c \<lparr> h_type := type_2 t \<rparr>) s1 = Inr s'"
    using assms by (auto simp: read_header_def Let_def split: if_splits)
  then show ?thesis
  proof cases
    case 0
    have "only_config p s s2" "configs s2 p = c \<lparr> h_type := type_0 t \<rparr>"
      using same_kernel_only_config(1) [OF withinD [OF quiet_read_types(1) 0(2)]] store_config_only [OF 0(3)]
      by (blast intro: only_config_trans)+
    moreover from this(2) have "header_typed (configs s2 p)"
      using read_type_0_result [OF 0(2)] 0(1) by (simp add: header_typed_def)
    moreover have "same_device c (c \<lparr> h_type := type_0 t \<rparr>)" by (auto simp: same_device_def)
    ultimately show ?thesis
      using get_memory_size_only [OF 0(4)] by (auto intro: only_config_trans same_device_trans)
  next
    case 1
    have "same_kernel s s1" by (rule withinD [OF quiet_read_types(2) 1(2)])
    note q = same_kernel_only_config(1) [OF this, of p] store_config_only [OF 1(3)]
    have "only_config p s s'" using q by (blast intro: only_config_trans)
    then show ?thesis using q(2) 1(1) by (auto simp: header_typed_def same_device_def)
  next
    case 2
    have "same_kernel s s1" by (rule withinD [OF quiet_read_types(3) 2(2)])
    note q = same_kernel_only_config(1) [OF this, of p] store_config_only [OF 2(3)]
    have "only_config p s s'" using q by (blast intro: only_config_trans)
    then show ?thesis using q(2) 2(1) by (auto simp: header_typed_def same_device_def)
  qed
qed

lemma device_list_same_kernel:
  fixes s s' :: "('d, 'z) pci_scheme"
  assumes "same_kernel s s'"
  shows "device_list s' cs \<longleftrightarrow> device_list s cs"
  using assms by (auto simp: same_kernel_def device_list_def kernel_list_def)

lemma device_list_init:
  assumes "water_mark_ok (kernel_WaterMark s)"
  shows "device_list (s \<lparr> lst_pci_devices := list_init \<rparr>) []"
  using assms by (auto simp: device_list_def kernel_list_def)

text \<open>A new structure at \<open>p\<close>, below everything that is listed, and its insertion.\<close>

lemma insert_device_lists:
  assumes l: "kernel_list s (lst_pci_devices s) xs"
    and c: "\<forall>q\<in>set (list_contents (list_nodes s) xs). current_address (kernel_WaterMark s) \<le> q"
    and p: "current_address (kernel_WaterMark s) \<le> p"
    and ins: "insert_device p s = Inr s'"
  shows "device_list s' (configs s p # map (configs s) (list_contents (list_nodes s) xs))"
proof -
  from ins obtain l' s1 where i: "insert_element driver_alloc (lst_pci_devices s) 0 p s = Inr (l', s1)"
    and s': "s' = s1 \<lparr> lst_pci_devices := l' \<rparr>"
    by (auto simp: insert_device_def node_alloc_def [abs_def])
  from insert_element_head [OF l i] obtain x where
    r: "kernel_list s1 l' (x # xs)" "list_contents (list_nodes s1) (x # xs) = p # list_contents (list_nodes s) xs"
      "current_address (kernel_WaterMark s1) \<le> current_address (kernel_WaterMark s)"
    and s1: "s1 = s \<lparr> memory := memory s1, kernel_WaterMark := kernel_WaterMark s1, list_nodes := list_nodes s1 \<rparr>"
    by blast
  have cf: "configs s1 = configs s" by (subst s1) simp
  have "kernel_list s' (lst_pci_devices s') (x # xs)" using r(1) by (simp add: s' kernel_list_def)
  moreover have "list_contents (list_nodes s') (x # xs) = p # list_contents (list_nodes s) xs"
    "kernel_WaterMark s' = kernel_WaterMark s1" "configs s' = configs s"
    using r(2) cf by (simp_all add: s')
  ultimately show ?thesis unfolding device_list_def using c p r(3)
    by (intro exI [of _ "x # xs"]) (auto intro: order_trans simp del: list_contents_simps)
qed

text \<open>A structure that is allocated, read and listed.\<close>

lemma listed_structure:
  assumes l2: "device_list s2 cs" and 3: "driver_alloc sizeof_pci_config s2 = Inr (p, s3)"
    and 4: "read_config mc b sl fn vendor dev s3 = Inr (c, s4)"
    and 5: "read_header mc p c s4 = Inr s5" and 6: "insert_device p s5 = Inr s'"
  shows "\<exists>c'. device_list s' (c' # cs) \<and> c' = configs s5 p \<and> header_typed c' \<and> same_device c c' \<and>
    bus c' = b \<and> slot c' = sl \<and> func_no c' = fn \<and> vendor_id c' = vendor \<and> device_id c' = dev"
proof -
  from l2 obtain xs where xs: "kernel_list s2 (lst_pci_devices s2) xs"
    "cs = map (configs s2) (list_contents (list_nodes s2) xs)"
    "\<forall>q\<in>set (list_contents (list_nodes s2) xs). current_address (kernel_WaterMark s2) \<le> q"
    by (auto simp: device_list_def)
  have w: "water_mark_ok (kernel_WaterMark s2)" using xs(1) by (simp add: kernel_list_def)
  note t = driver_alloc_takes [OF w _ 3, simplified]
  have lt: "p < current_address (kernel_WaterMark s2)" using t(4) by (simp add: word_less_nat_alt)
  have s3: "list_nodes s3 = list_nodes s2" "lst_pci_devices s3 = lst_pci_devices s2" "configs s3 = configs s2"
    by (subst t(6); simp)+
  note o4 = same_kernel_only_config [OF withinD [OF quiet_read_types(4) 4]]
  note h = read_header_only [OF 5] and cf = read_config_result [OF 4]
  have o5: "only_config p s3 s5" using o4(1) h by (blast intro: only_config_trans)
  have w5: "kernel_WaterMark s5 = kernel_WaterMark s3" using o5 by (simp add: only_config_def)
  have "current_address (kernel_WaterMark s5) \<le> x" if "x \<in> set xs" for x
    using that xs(1) lt less_imp_le [of p] order_trans unfolding w5 t(2) [symmetric] kernel_list_def by blast
  then have k5: "kernel_list s5 (lst_pci_devices s5) xs"
    using xs(1) o5 t(1,5) by (simp add: kernel_list_def only_config_def s3)
  have n5: "list_nodes s5 = list_nodes s2" "current_address (kernel_WaterMark s5) = p"
    using o5 t(2) by (simp_all add: only_config_def s3)
  have c5: "configs s5 q = configs s2 q" if "q \<in> set (list_contents (list_nodes s2) xs)" for q
    using that xs(3) lt o5 by (auto simp: only_config_def s3)
  have "device_list s' (configs s5 p # map (configs s5) (list_contents (list_nodes s5) xs))"
    using xs(3) lt by (intro insert_device_lists [OF k5 _ _ 6]) (auto simp: n5)
  moreover have "map (configs s5) (list_contents (list_nodes s5) xs) = cs"
    using c5 by (simp add: n5 xs(2))
  ultimately show ?thesis using h cf same_device_fields [of c "configs s5 p"] by auto
qed

lemma scan_function_cases:
  fixes s s' :: "('d, 'z) pci_scheme"
  assumes "scan_function mc b sl fn s = Inr s'"
  obtains (no_slot) "pci_config_read_word mc b sl 0 PCI_VENDOR_ID s = Inr (0xFFFF, s')"
    | (no_function) vendor s1 where
      "pci_config_read_word mc b sl 0 PCI_VENDOR_ID s = Inr (vendor, s1)" "vendor \<noteq> 0xFFFF"
      "pci_config_read_word mc b sl fn PCI_DEVICE_ID s1 = Inr (0xFFFF, s')"
    | (present) vendor s1 dev s2 p s3 c s4 s5 where
      "pci_config_read_word mc b sl 0 PCI_VENDOR_ID s = Inr (vendor, s1)" "vendor \<noteq> 0xFFFF"
      "pci_config_read_word mc b sl fn PCI_DEVICE_ID s1 = Inr (dev, s2)" "dev \<noteq> 0xFFFF"
      "driver_alloc sizeof_pci_config s2 = Inr (p, s3)"
      "read_config mc b sl fn vendor dev s3 = Inr (c, s4)"
      "read_header mc p c s4 = Inr s5" "insert_device p s5 = Inr s'"
proof -
  define rest :: "u16 \<Rightarrow> u16 \<Rightarrow> ('d, 'z) pci_scheme proc" where "rest = (\<lambda>vendor dev. bind (driver_alloc sizeof_pci_config) (\<lambda>p.
      seq (assert_at ''pci.c'' 99 (p \<noteq> 0)) (
      bind (read_config mc b sl fn vendor dev) (\<lambda>c. seq (read_header mc p c) (insert_device p)))))"
  from assms obtain vendor s1 where
    1: "pci_config_read_word mc b sl 0 PCI_VENDOR_ID s = Inr (vendor, s1)"
    and r1: "(if vendor = 0xFFFF then skip else bind (pci_config_read_word mc b sl fn PCI_DEVICE_ID)
      (\<lambda>dev. if dev = 0xFFFF then skip else rest vendor dev)) s1 = Inr s'"
    unfolding scan_function_def rest_def by (rule bind_eq_InrE)
  show ?thesis
  proof (cases "vendor = 0xFFFF")
    case True
    then show ?thesis using no_slot 1 r1 by simp
  next
    case False
    with r1 obtain dev s2 where
      2: "pci_config_read_word mc b sl fn PCI_DEVICE_ID s1 = Inr (dev, s2)"
      and r2: "(if dev = 0xFFFF then skip else rest vendor dev) s2 = Inr s'"
      by (simp only: if_False) (erule bind_eq_InrE)
    show ?thesis
    proof (cases "dev = 0xFFFF")
      case True
      then show ?thesis using no_function [OF 1 False] 2 r2 by simp
    next
      case devn: False
      with r2 show ?thesis using present [OF 1 False 2 devn] by (auto simp: rest_def)
    qed
  qed
qed

lemma scan_function_lists:
  assumes l: "device_list s cs" and sc: "scan_function mc b sl fn s = Inr s'"
  shows "device_list s' cs \<or> (\<exists>c. device_list s' (c # cs) \<and> header_typed c \<and> bus c = b \<and> slot c = sl \<and> func_no c = fn)"
  using sc
proof (cases rule: scan_function_cases)
  case no_slot
  then show ?thesis using l device_list_same_kernel [OF withinD [OF quiet_read(2) no_slot]] by simp
next
  case no_function
  then show ?thesis using l device_list_same_kernel [OF withinD [OF quiet_read(2)]] by metis
next
  case (present vendor s1 dev s2 p s3 c s4 s5)
  have l2: "device_list s2 cs"
    using l device_list_same_kernel [OF withinD [OF quiet_read(2)]] present(1,3) by metis
  show ?thesis using listed_structure [OF l2 present(5-8)] by blast
qed

section \<open>The configuration mechanism\<close>

text \<open>
  What the PCI specification says of the two ports: an address written to the first selects a
  register, the second reads it (words and bytes at their offset) and writes its writable bits.
  \<open>cfg d a\<close> is the contents of the register with address \<open>a\<close>, \<open>wmask a\<close> its writable bits.
\<close>

definition config_mechanism :: "'d machine \<Rightarrow> ('d \<Rightarrow> u32 \<Rightarrow> u32) \<Rightarrow> (u32 \<Rightarrow> u32) \<Rightarrow> bool" where
  "config_mechanism mc cfg wmask \<longleftrightarrow>
     (\<forall>d a. let d' = port_outl mc PCI_CONFIG_SPACE_PORT a d in
        cfg d' = cfg d \<and>
        fst (port_inl mc PCI_CONFIG_DATA_PORT d') = cfg d a \<and>
        cfg (snd (port_inl mc PCI_CONFIG_DATA_PORT d')) = cfg d \<and>
        (\<forall>k. k = 0 \<or> k = 2 \<longrightarrow>
          fst (port_inw mc (PCI_CONFIG_DATA_PORT + k) d') = ucast (drop_bit (8 * unat k) (cfg d a)) \<and>
          cfg (snd (port_inw mc (PCI_CONFIG_DATA_PORT + k) d')) = cfg d) \<and>
        (\<forall>k. k < 4 \<longrightarrow>
          fst (port_inb mc (PCI_CONFIG_DATA_PORT + k) d') = ucast (drop_bit (8 * unat k) (cfg d a)) \<and>
          cfg (snd (port_inb mc (PCI_CONFIG_DATA_PORT + k) d')) = cfg d) \<and>
        (\<forall>v. cfg (port_outl mc PCI_CONFIG_DATA_PORT v d') =
          (cfg d)(a := (v AND wmask a) OR (cfg d a AND NOT (wmask a)))))"

lemma config_mechanismD:
  assumes "config_mechanism mc cfg wmask"
  defines "sel \<equiv> port_outl mc PCI_CONFIG_SPACE_PORT"
  shows "fst (port_inl mc PCI_CONFIG_DATA_PORT (sel a d)) = cfg d a"
    and "cfg (snd (port_inl mc PCI_CONFIG_DATA_PORT (sel a d))) = cfg d"
    and "k = 0 \<or> k = 2 \<Longrightarrow> fst (port_inw mc (PCI_CONFIG_DATA_PORT + k) (sel a d)) =
      ucast (drop_bit (8 * unat k) (cfg d a))"
    and "k = 0 \<or> k = 2 \<Longrightarrow> cfg (snd (port_inw mc (PCI_CONFIG_DATA_PORT + k) (sel a d))) = cfg d"
    and "k < 4 \<Longrightarrow> cfg (snd (port_inb mc (PCI_CONFIG_DATA_PORT + k) (sel a d))) = cfg d"
    and "cfg (port_outl mc PCI_CONFIG_DATA_PORT v (sel a d)) =
      (cfg d)(a := (v AND wmask a) OR (cfg d a AND NOT (wmask a)))"
    and "k < 4 \<Longrightarrow> fst (port_inb mc (PCI_CONFIG_DATA_PORT + k) (sel a d)) =
      ucast (drop_bit (8 * unat k) (cfg d a))"
  using assms unfolding config_mechanism_def sel_def Let_def by blast+

definition same_registers ::
  "('d \<Rightarrow> u32 \<Rightarrow> u32) \<Rightarrow> ('d, 'z) drivers_scheme \<Rightarrow> ('d, 'z) drivers_scheme \<Rightarrow> bool" where
  "same_registers cfg s s' \<longleftrightarrow> cfg (device s') = cfg (device s)"

lemma same_registers_preorder [simp, intro]: "reflp (same_registers cfg)" "transp (same_registers cfg)"
  by (auto simp: same_registers_def intro: reflpI transpI)

lemma read_long_value:
  assumes "config_mechanism mc cfg wmask" and "pci_config_read_long mc b sl fn off s = Inr (v, s')"
  shows "v = cfg (device s) (pci_address b sl fn off) \<and> same_registers cfg s s'"
  using assms(2) config_mechanismD(1,2) [OF assms(1)]
  by (auto simp: pci_config_read_long_def same_registers_def on_device_eq_Inr from_device_eq_Inr)

lemma low_offset:
  fixes off :: u8
  shows "ucast (off AND 2) = (0 :: u16) \<or> ucast (off AND 2) = (2 :: u16)"
    and "unat (ucast (off AND 2) :: u16) = unat (off AND 2)" and "ucast (off AND 3) < (4 :: u16)"
    and "unat (ucast (off AND 3) :: u16) = unat (off AND 3)"
proof -
  have "off AND 2 = push_bit 1 (of_bool (bit off 1))"
    by (rule bit_word_eqI) (auto simp: bit_simps bit_2_iff)
  then have "off AND 2 = 0 \<or> off AND 2 = 2" by (simp add: push_bit_of_1)
  then show "ucast (off AND 2) = (0 :: u16) \<or> ucast (off AND 2) = (2 :: u16)"
    and "unat (ucast (off AND 2) :: u16) = unat (off AND 2)" by auto
  have "off AND 3 \<le> 3" by (rule word_and_le1)
  then show "ucast (off AND 3) < (4 :: u16)" and "unat (ucast (off AND 3) :: u16) = unat (off AND 3)"
    by (simp_all add: word_less_nat_alt word_le_nat_alt unsigned_ucast_eq take_bit_nat_eq_self)
qed

lemma read_word_value:
  assumes "config_mechanism mc cfg wmask" and "pci_config_read_word mc b sl fn off s = Inr (v, s')"
  shows "v = ucast (drop_bit (8 * unat (off AND 2)) (cfg (device s) (pci_address b sl fn off))) \<and>
    same_registers cfg s s'"
  using assms(2) config_mechanismD(3,4) [OF assms(1) low_offset(1) [of off]]
  by (auto simp: pci_config_read_word_def same_registers_def on_device_eq_Inr from_device_eq_Inr low_offset(2))

lemma read_byte_value:
  assumes "config_mechanism mc cfg wmask" and "pci_config_read_byte mc b sl fn off s = Inr (v, s')"
  shows "v = ucast (drop_bit (8 * unat (off AND 3)) (cfg (device s) (pci_address b sl fn off))) \<and>
    same_registers cfg s s'"
  using assms(2) config_mechanismD(5,7) [OF assms(1) low_offset(3) [of off]] low_offset(4) [of off]
  by (auto simp: pci_config_read_byte_def same_registers_def on_device_eq_Inr from_device_eq_Inr)

lemma write_long_value:
  assumes "config_mechanism mc cfg wmask" and "pci_config_write_long mc b sl fn off v s = Inr s'"
  shows "cfg (device s') = (let a = pci_address b sl fn off in
    (cfg (device s))(a := (v AND wmask a) OR (cfg (device s) a AND NOT (wmask a))))"
  using assms(2) config_mechanismD(6) [OF assms(1)]
  by (auto simp: pci_config_write_long_def on_device_eq_Inr Let_def)

text \<open>Probing a register leaves every register as it was.\<close>

definition bar_size_of :: "u32 \<Rightarrow> u32 \<Rightarrow> u32" where
  "bar_size_of wm v = NOT (((0xFFFFFFFF AND wm) OR (v AND NOT wm)) AND 0xFFFFFFF0) + 1"

lemma restored: "((v :: u32) AND m) OR ((w AND m OR (v AND NOT m)) AND NOT m) = v"
  by (rule bit_word_eqI) (auto simp: bit_simps)

lemma measure_bar_value:
  assumes cm: "config_mechanism mc cfg wmask"
    and m: "measure_bar mc c off s = Inr ((orig, sz), s')"
  shows "same_registers cfg s s' \<and>
    (let a = pci_address (bus c) (slot c) (func_no c) off
     in orig = cfg (device s) a \<and> sz = bar_size_of (wmask a) (cfg (device s) a))"
proof -
  define a where "a = pci_address (bus c) (slot c) (func_no c) off"
  from m obtain s1 s2 sz0 s3 where
    1: "pci_config_read_long mc (bus c) (slot c) (func_no c) off s = Inr (orig, s1)"
    and 2: "pci_config_write_long mc (bus c) (slot c) (func_no c) off 0xFFFFFFFF s1 = Inr s2"
    and 3: "pci_config_read_long mc (bus c) (slot c) (func_no c) off s2 = Inr (sz0, s3)"
    and 4: "pci_config_write_long mc (bus c) (slot c) (func_no c) off orig s3 = Inr s'"
    and sz: "sz = NOT (sz0 AND 0xFFFFFFF0) + 1"
    unfolding measure_bar_def Let_def by auto
  have v1: "orig = cfg (device s) a" "cfg (device s1) = cfg (device s)"
    using read_long_value [OF cm 1] by (simp_all add: a_def same_registers_def)
  have v2: "cfg (device s2) = (cfg (device s))(a := (0xFFFFFFFF AND wmask a) OR (orig AND NOT (wmask a)))"
    using write_long_value [OF cm 2] v1 by (simp add: a_def Let_def)
  have v3: "sz0 = (0xFFFFFFFF AND wmask a) OR (orig AND NOT (wmask a))" "cfg (device s3) = cfg (device s2)"
    using read_long_value [OF cm 3] v2 by (simp_all add: a_def same_registers_def)
  have "cfg (device s') = (cfg (device s))(a := cfg (device s) a)"
    using write_long_value [OF cm 4] v1(1) by (simp add: Let_def v3(2) v2 restored flip: a_def)
  then show ?thesis using v1(1) v3(1) sz
    by (simp add: same_registers_def Let_def bar_size_of_def flip: a_def)
qed

text \<open>A memory region of \<open>2 ^ k\<close> bytes: the address bits above are writable, the ones below read as
  zero but for the low four, which are flags.\<close>

lemma bar_size_of_memory:
  assumes "4 \<le> k" and "k < 32" and "v AND mask k AND NOT (mask 4) = 0"
  shows "bar_size_of (NOT (mask k)) v = 2 ^ k"
proof -
  have f: "0xFFFFFFF0 = (NOT (mask 4) :: u32)" by (simp add: mask_eq_exp_minus_1)
  have o: "0xFFFFFFFF = (NOT 0 :: u32)" by simp
  have "((0xFFFFFFFF AND NOT (mask k)) OR (v AND NOT (NOT (mask k)))) AND 0xFFFFFFF0 = NOT (mask k)"
    using assms unfolding f o by (auto simp: bit_eq_iff bit_simps)
  then show ?thesis by (simp add: bar_size_of_def mask_eq_exp_minus_1)
qed

text \<open>Reading a header and listing the device leave the registers alone.\<close>

lemma registers_read:
  assumes "config_mechanism mc cfg wmask"
  shows "within (same_registers cfg) (pci_config_read_long mc b sl fn off)"
    and "within (same_registers cfg) (pci_config_read_word mc b sl fn off)"
    and "within (same_registers cfg) (pci_config_read_byte mc b sl fn off)"
  unfolding within_def
  by (auto dest: read_long_value [OF assms] read_word_value [OF assms] read_byte_value [OF assms])

lemmas registers_read_types = within_read_types [OF same_registers_preorder registers_read]

lemma same_registers_device: "device s' = device s \<Longrightarrow> same_registers cfg s s'"
  by (simp add: same_registers_def)

lemma same_registers_trans: "same_registers cfg s s' \<Longrightarrow> same_registers cfg s' s'' \<Longrightarrow> same_registers cfg s s''"
  by (simp add: same_registers_def)

text \<open>Probing one register, from the structure's point of view.\<close>

lemma probe_bar_value:
  assumes cm: "config_mechanism mc cfg wmask" and pr: "probe_bar mc p off s = Inr s'"
  shows "same_registers cfg s s' \<and>
    (let c = configs s p; a = pci_address (bus c) (slot c) (func_no c) off
     in configs s' p = set_bar_size (unat ((off - 0x10) div 4)) (bar_size_of (wmask a) (cfg (device s) a)) c)"
proof -
  from pr [unfolded probe_bar_def] obtain r s4 where
    1: "measure_bar mc (configs s p) off s = Inr (r, s4)" and 2: "(case r of (orig, sz) \<Rightarrow>
      seq (\<lambda>s. Inr (s \<lparr> configs := (configs s)
            (p := set_bar_size (unat ((off - 0x10) div 4)) sz (configs s p)) \<rparr>)) (
      seq (kprint ''Orig 0x%x: %x\<newline>'' [Num (ucast off), Num (ucast orig)])
       (kprint ''Memory size required: 0x%x\<newline>'' [Num (ucast sz)]))) s4 = Inr s'"
    by (rule bind_eq_InrE)
  obtain orig sz where r: "r = (orig, sz)" by fastforce
  define s5 where "s5 = s4 \<lparr> configs := (configs s4)
      (p := set_bar_size (unat ((off - 0x10) div 4)) sz (configs s4 p)) \<rparr>"
  from 2 obtain s6 where
    6: "kprint ''Orig 0x%x: %x\<newline>'' [Num (ucast off), Num (ucast orig)] s5 = Inr s6"
    and 7: "kprint ''Memory size required: 0x%x\<newline>'' [Num (ucast sz)] s6 = Inr s'"
    unfolding r prod.case seq_def and_then_simps s5_def by (rule and_then_eq_InrE)
  have k: "same_kernel s5 s'" "device s' = device s5"
    using kprint_same_kernel [OF 6] kprint_same_kernel [OF 7] by (auto intro: same_kernel_trans)
  have q: "configs s4 = configs s"
    by (rule same_kernel_only_config(2) [OF withinD [OF quiet_measure_bar 1]])
  have "configs s' p = set_bar_size (unat ((off - 0x10) div 4)) sz (configs s p)"
    using same_kernel_only_config(2) [OF k(1)] by (simp add: s5_def q)
  moreover have "device s' = device s4" using k(2) by (simp add: s5_def)
  ultimately show ?thesis using measure_bar_value [OF cm 1 [unfolded r]]
    by (simp add: Let_def same_registers_def)
qed

lemma get_memory_size_registers:
  assumes "config_mechanism mc cfg wmask" and "pci_get_memory_size mc p s = Inr s'"
  shows "same_registers cfg s s'"
proof -
  have "same_registers cfg s s'" if "for_each [0x10, 0x14, 0x18, 0x1C, 0x20, 0x24] (probe_bar mc p) s = Inr s'"
    by (rule for_each_invariant [OF that])
      (auto simp: same_registers_def dest: probe_bar_value [OF assms(1)])
  then show ?thesis
    using assms(2) by (auto simp: pci_get_memory_size_def same_registers_def split: if_splits pci_header.splits)
qed

lemma read_header_registers:
  assumes cm: "config_mechanism mc cfg wmask" and "read_header mc p c s = Inr s'"
  shows "same_registers cfg s s'"
  using assms(2) withinD [OF registers_read_types(1) [OF cm cm cm]]
    withinD [OF registers_read_types(2) [OF cm cm cm]] withinD [OF registers_read_types(3) [OF cm cm cm]]
  by (auto simp: read_header_def Let_def store_config_def same_registers_def
      dest!: get_memory_size_registers [OF cm] split: if_splits)

lemma driver_alloc_device: "driver_alloc sz s = Inr (p, s') \<Longrightarrow> device s' = device s"
  by (auto simp: driver_alloc_def)

lemma insert_device_device: "insert_device p s = Inr s' \<Longrightarrow> device s' = device s"
  by (auto simp: insert_device_def insert_element_def list_insert_next_def node_alloc_def
      split: if_splits prod.splits dest!: driver_alloc_device)

section \<open>The whole scan\<close>

definition all_functions :: "(u8 \<times> u8 \<times> u8) list" where
  "all_functions = List.product (map of_nat [0..<256])
     (List.product (map of_nat [0..<32]) (map of_nat [0..<8]))"

lemma distinct_of_nat_u8: "n \<le> 256 \<Longrightarrow> distinct (map of_nat [0..<n] :: u8 list)"
  by (auto simp: distinct_map inj_on_def word_unat_eq_iff unsigned_of_nat take_bit_nat_eq_self)

lemma distinct_all_functions: "distinct all_functions"
  unfolding all_functions_def by (intro distinct_product distinct_of_nat_u8) simp_all

lemma for_each_map: "for_each (map g xs) f = for_each xs (\<lambda>x. f (g x))"
  by (induction xs) (simp_all add: fun_eq_iff)

lemma for_each_concat: "for_each (concat xss) f = for_each xss (\<lambda>xs. for_each xs f)"
proof (induction xss)
  case (Cons xs xss)
  show ?case by (rule ext) (simp add: for_each_append Cons.IH)
qed (simp add: fun_eq_iff)

lemma pci_scan_devices_all:
  "pci_scan_devices mc s = for_each all_functions (\<lambda>(b, sl, fn). scan_function mc b sl fn) s"
  by (simp add: pci_scan_devices_def all_functions_def product_concat_map for_each_concat for_each_map
      del: upt_rec_numeral)

definition config_word :: "(u32 \<Rightarrow> u32) \<Rightarrow> u8 \<Rightarrow> u8 \<Rightarrow> u8 \<Rightarrow> u8 \<Rightarrow> u16" where
  "config_word regs b sl fn off = ucast (drop_bit (8 * unat (off AND 2)) (regs (pci_address b sl fn off)))"

definition answers :: "(u32 \<Rightarrow> u32) \<Rightarrow> u8 \<times> u8 \<times> u8 \<Rightarrow> bool" where
  "answers regs = (\<lambda>(b, sl, fn).
     config_word regs b sl 0 PCI_VENDOR_ID \<noteq> 0xFFFF \<and> config_word regs b sl fn PCI_DEVICE_ID \<noteq> 0xFFFF)"

definition identity_of :: "pci_config_t \<Rightarrow> u8 \<times> u8 \<times> u8" where
  "identity_of c = (bus c, slot c, func_no c)"

text \<open>
  What a listed structure says of its device: each field is the register the PCI specification
  has it in, the vendor that of function 0, the sizes those of the writable bits of the base
  address registers.
\<close>

definition config_long :: "(u32 \<Rightarrow> u32) \<Rightarrow> u8 \<Rightarrow> u8 \<Rightarrow> u8 \<Rightarrow> u8 \<Rightarrow> u32" where
  "config_long regs b sl fn off = regs (pci_address b sl fn off)"

definition config_byte :: "(u32 \<Rightarrow> u32) \<Rightarrow> u8 \<Rightarrow> u8 \<Rightarrow> u8 \<Rightarrow> u8 \<Rightarrow> u8" where
  "config_byte regs b sl fn off = ucast (drop_bit (8 * unat (off AND 3)) (regs (pci_address b sl fn off)))"

definition layout_0 :: "(u32 \<Rightarrow> u32) \<Rightarrow> u8 \<Rightarrow> u8 \<Rightarrow> u8 \<Rightarrow> header_type_0" where
  "layout_0 regs b sl fn =
     (let byte = config_byte regs b sl fn; word = config_word regs b sl fn; long = config_long regs b sl fn in
      \<lparr> bar_address = [long 0x10, long 0x14, long 0x18, long 0x1C, long 0x20, long 0x24], bar_sizes = replicate 6 0,
        cardbus_cis_pointer = long 0x28, subsystem_vendor_id_of_0 = word 0x2C, subsystem_id = word 0x2E,
        expansion_rom_address = long 0x30, capabilities_pointer = byte 0x34, interrupt_line_of_0 = byte 0x3C,
        interrupt_pin_of_0 = byte 0x3D, min_grant = byte 0x3E, max_latency = byte 0x3F \<rparr>)"

definition layout_1 :: "(u32 \<Rightarrow> u32) \<Rightarrow> u8 \<Rightarrow> u8 \<Rightarrow> u8 \<Rightarrow> header_type_1" where
  "layout_1 regs b sl fn =
     (let byte = config_byte regs b sl fn; word = config_word regs b sl fn; long = config_long regs b sl fn in
      \<lparr> bar_address_0 = long 0x10, bar_address_1 = long 0x14, primary_bus_number = byte 0x18,
        secondary_bus_number = byte 0x19, subordinate_bus_number_of_1 = byte 0x1A, secondary_latency_timer = byte 0x1B,
        io_base = byte 0x1C, io_limit = byte 0x1D, secondary_status_of_1 = word 0x1E, memory_base = word 0x20,
        memory_limit = word 0x22, prefetchable_memory_base = word 0x24, prefetchable_memory_limit = word 0x26,
        prefetchable_base_upper_32_bits = long 0x28, prefetchable_memory_limit_upper_32_bits = long 0x2C,
        io_base_upper_16_bits = word 0x30, io_limit_upper_16_bits = word 0x32, capability_pointer = byte 0x34,
        expansion_rom_base_address = long 0x38, interrupt_line_of_1 = byte 0x3C, interrupt_pin_of_1 = byte 0x3D,
        bridge_control_of_1 = word 0x3E \<rparr>)"

definition layout_2 :: "(u32 \<Rightarrow> u32) \<Rightarrow> u8 \<Rightarrow> u8 \<Rightarrow> u8 \<Rightarrow> header_type_2" where
  "layout_2 regs b sl fn =
     (let byte = config_byte regs b sl fn; word = config_word regs b sl fn; long = config_long regs b sl fn in
      \<lparr> cardbus_socket_base_address = long 0x10, offset_of_capabilities_list = byte 0x14, secondary_status_of_2 = word 0x16,
        pci_bus_number = byte 0x18, card_bus_number = byte 0x19, subordinate_bus_number_of_2 = byte 0x1A,
        cardbus_latency_timer = byte 0x1B, memory_base_address_0 = long 0x1C, memory_limit_0 = long 0x20,
        memory_base_address_1 = long 0x24, memory_limit_1 = long 0x28, io_base_address_0 = long 0x2C,
        io_limit_0 = long 0x30, io_base_address_1 = long 0x34, io_limit_1 = long 0x38, interrupt_line_of_2 = byte 0x3C,
        interrupt_pin_of_2 = byte 0x3D, bridge_control_of_2 = word 0x3E, subsystem_device_id = word 0x40,
        subsystem_vendor_id_of_2 = word 0x42, pci_legacy_mode_base_address = long 0x44 \<rparr>)"

definition measured_sizes :: "(u32 \<Rightarrow> u32) \<Rightarrow> (u32 \<Rightarrow> u32) \<Rightarrow> u8 \<Rightarrow> u8 \<Rightarrow> u8 \<Rightarrow> u32 list" where
  "measured_sizes regs wmask b sl fn =
     map (\<lambda>off. let a = pci_address b sl fn off in bar_size_of (wmask a) (regs a)) [0x10, 0x14, 0x18, 0x1C, 0x20, 0x24]"

definition layout :: "(u32 \<Rightarrow> u32) \<Rightarrow> (u32 \<Rightarrow> u32) \<Rightarrow> u8 \<Rightarrow> u8 \<Rightarrow> u8 \<Rightarrow> pci_header" where
  "layout regs wmask b sl fn =
     (let kind = config_byte regs b sl fn 0xE AND 7 in
      if kind = 0 then type_0 ((layout_0 regs b sl fn) \<lparr> bar_sizes := measured_sizes regs wmask b sl fn \<rparr>)
      else if kind = 1 then type_1 (layout_1 regs b sl fn) else type_2 (layout_2 regs b sl fn))"

definition config_of :: "(u32 \<Rightarrow> u32) \<Rightarrow> (u32 \<Rightarrow> u32) \<Rightarrow> u8 \<times> u8 \<times> u8 \<Rightarrow> pci_config_t" where
  "config_of regs wmask = (\<lambda>(b, sl, fn).
     let byte = config_byte regs b sl fn; word = config_word regs b sl fn in
     \<lparr> bus = b, slot = sl, func_no = fn, vendor_id = config_word regs b sl 0 0x0, device_id = word 0x2,
       status = word 0x6, command = word 0x4, base_class = byte 0xB, sub_class = byte 0xA, programming_if = byte 0x9,
       revision = byte 0x8, BIST = byte 0xF, header_type = byte 0xE, latency_timer = byte 0xD, cache_line_size = byte 0xC,
       h_type = layout regs wmask b sl fn \<rparr>)"

definition describes :: "(u32 \<Rightarrow> u32) \<Rightarrow> (u32 \<Rightarrow> u32) \<Rightarrow> pci_config_t \<Rightarrow> bool" where
  "describes regs wmask c \<longleftrightarrow> c = config_of regs wmask (identity_of c)"

text \<open>What a sequence of reads computes from the registers, which it leaves alone.\<close>

definition reads :: "('d \<Rightarrow> u32 \<Rightarrow> u32) \<Rightarrow> (('d, 'z) drivers_scheme, 'a) call \<Rightarrow> ((u32 \<Rightarrow> u32) \<Rightarrow> 'a) \<Rightarrow> bool" where
  "reads cfg f g \<longleftrightarrow> (\<forall>s x s'. f s = Inr (x, s') \<longrightarrow> x = g (cfg (device s)) \<and> cfg (device s') = cfg (device s))"

lemma readsD: "reads cfg f g \<Longrightarrow> f s = Inr (x, s') \<Longrightarrow> x = g (cfg (device s)) \<and> cfg (device s') = cfg (device s)"
  by (auto simp: reads_def)

lemma reads_return: "reads cfg (return x) (\<lambda>_. x)"
  by (simp add: reads_def return_def)

lemma reads_bind: "reads cfg f g \<Longrightarrow> (\<And>x. reads cfg (h x) (k x)) \<Longrightarrow> reads cfg (bind f h) (\<lambda>r. k (g r) r)"
  unfolding reads_def by fastforce

lemma reads_ports:
  assumes "config_mechanism mc cfg wmask"
  shows "reads cfg (pci_config_read_long mc b sl fn off) (\<lambda>r. config_long r b sl fn off)"
    and "reads cfg (pci_config_read_word mc b sl fn off) (\<lambda>r. config_word r b sl fn off)"
    and "reads cfg (pci_config_read_byte mc b sl fn off) (\<lambda>r. config_byte r b sl fn off)"
  unfolding reads_def
  by (auto simp: same_registers_def config_long_def config_word_def config_byte_def
      dest!: read_long_value [OF assms] read_word_value [OF assms] read_byte_value [OF assms])

lemma reads_eq: "reads cfg f g \<Longrightarrow> (\<And>r. g r = g' r) \<Longrightarrow> reads cfg f g'"
  by (simp add: reads_def)

lemma reads_collect:
  "(\<And>i. reads cfg (f i) (g i)) \<Longrightarrow> reads cfg (collect xs f) (\<lambda>r. map (\<lambda>i. g i r) xs)"
proof (induction xs)
  case Nil
  then show ?case by (simp add: reads_return)
next
  case (Cons x xs)
  have "reads cfg (bind (f x) (\<lambda>y. bind (collect xs f) (\<lambda>ys. return (y # ys))))
      (\<lambda>r. g x r # map (\<lambda>i. g i r) xs)"
    by (rule reads_bind [OF Cons.prems reads_bind [OF Cons.IH [OF Cons.prems] reads_return]])
  then show ?case by simp
qed

lemma reads_layouts:
  assumes cm: "config_mechanism mc cfg wmask"
  shows "reads cfg (read_type_0 mc b sl fn) (\<lambda>r. layout_0 r b sl fn)"
    and "reads cfg (read_type_1 mc b sl fn) (\<lambda>r. layout_1 r b sl fn)"
    and "reads cfg (read_type_2 mc b sl fn) (\<lambda>r. layout_2 r b sl fn)"
proof -
  note rules = reads_bind reads_ports [OF cm] reads_return reads_collect
  have six: "map f [0..<6] = [f 0, f 1, f 2, f 3, f 4, f 5]" for f :: "nat \<Rightarrow> u32"
    by (simp add: numeral_eq_Suc)
  show "reads cfg (read_type_0 mc b sl fn) (\<lambda>r. layout_0 r b sl fn)"
    unfolding read_type_0_def
    by (rule reads_eq, (rule rules)+) (simp add: layout_0_def Let_def six del: upt_rec_numeral)
  show "reads cfg (read_type_1 mc b sl fn) (\<lambda>r. layout_1 r b sl fn)"
    unfolding read_type_1_def by (rule reads_eq, (rule rules)+) (simp add: layout_1_def Let_def)
  show "reads cfg (read_type_2 mc b sl fn) (\<lambda>r. layout_2 r b sl fn)"
    unfolding read_type_2_def by (rule reads_eq, (rule rules)+) (simp add: layout_2_def Let_def)
qed

text \<open>The four bytes of the class register.\<close>

lemma class_bytes:
  fixes w :: u32
  shows "ucast (drop_bit 24 w AND 0xFF) = (ucast (drop_bit 24 w) :: u8)"
    and "ucast (drop_bit 16 w AND 0xFF) = (ucast (drop_bit 16 w) :: u8)"
    and "ucast (drop_bit 8 w AND 0xFF) = (ucast (drop_bit 8 w) :: u8)" and "ucast (w AND 0xFF) = (ucast w :: u8)"
proof -
  have m: "(0xFF :: u32) = mask 8" by (simp add: mask_eq_exp_minus_1)
  have "ucast (x AND 0xFF) = (ucast x :: u8)" for x :: u32
    unfolding m by (rule bit_word_eqI) (simp add: bit_simps)
  then show "ucast (drop_bit 24 w AND 0xFF) = (ucast (drop_bit 24 w) :: u8)"
    "ucast (drop_bit 16 w AND 0xFF) = (ucast (drop_bit 16 w) :: u8)"
    "ucast (drop_bit 8 w AND 0xFF) = (ucast (drop_bit 8 w) :: u8)" "ucast (w AND 0xFF) = (ucast w :: u8)" by blast+
qed

lemma pci_address_class:
  "pci_address b sl fn 0x9 = pci_address b sl fn 0x8" "pci_address b sl fn 0xA = pci_address b sl fn 0x8"
  "pci_address b sl fn 0xB = pci_address b sl fn 0x8"
  by (simp_all add: pci_address_def)

lemma reads_config:
  assumes cm: "config_mechanism mc cfg wmask"
  shows "reads cfg (read_config mc b sl fn v d) (\<lambda>r. (config_of r wmask (b, sl, fn))
    \<lparr> vendor_id := v, device_id := d, h_type := Uninitialised \<rparr>)"
  unfolding read_config_def
  by (rule reads_eq, (rule reads_bind reads_ports [OF cm] reads_return)+)
    (simp add: config_of_def Let_def class_bytes config_long_def config_byte_def pci_address_class PCI_STATUS_def
      PCI_COMMAND_def PCI_CLASS_def PCI_CACHE_LINE_SIZE_def PCI_LATENCY_TIMER_def PCI_HEADER_TYPE_def PCI_BIST_def)

text \<open>Probing records the sizes of the six registers.\<close>

lemma probed_sizes:
  assumes cm: "config_mechanism mc cfg wmask"
  shows "for_each offs (probe_bar mc p) s = Inr s' \<Longrightarrow> h_type (configs s p) = type_0 t \<Longrightarrow>
    configs s' p = (configs s p) \<lparr> h_type := type_0 (t \<lparr> bar_sizes := foldl (\<lambda>sizes off. sizes[unat ((off - 0x10) div 4) :=
      (let a = pci_address (bus (configs s p)) (slot (configs s p)) (func_no (configs s p)) off
       in bar_size_of (wmask a) (cfg (device s) a))]) (bar_sizes t) offs \<rparr>) \<rparr>"
proof (induction offs arbitrary: s t)
  case Nil
  have "configs s p = (configs s p) \<lparr> h_type := type_0 t \<rparr>"
    using Nil(2) by (metis pci_config_t.surjective pci_config_t.update_convs(16) pci_config_t.select_convs(16))
  then show ?case using Nil(1) by simp
next
  case (Cons off offs)
  let ?c = "configs s p"
  from Cons.prems(1) obtain s1 where 1: "probe_bar mc p off s = Inr s1" "for_each offs (probe_bar mc p) s1 = Inr s'"
    by auto
  define a where "a = pci_address (bus ?c) (slot ?c) (func_no ?c) off"
  define t1 where "t1 = t \<lparr> bar_sizes := (bar_sizes t)[unat ((off - 0x10) div 4) := bar_size_of (wmask a) (cfg (device s) a)] \<rparr>"
  have v: "cfg (device s1) = cfg (device s)" "configs s1 p = ?c \<lparr> h_type := type_0 t1 \<rparr>"
    using probe_bar_value [OF cm 1(1)] Cons.prems(2)
    by (simp_all add: same_registers_def Let_def a_def t1_def set_bar_size_def)
  have "h_type (configs s1 p) = type_0 t1" by (simp add: v(2))
  from Cons.IH [OF 1(2) this] show ?case by (simp add: v t1_def a_def Let_def)
qed

lemma six_zeros: "replicate 6 (0 :: u32) = [0, 0, 0, 0, 0, 0]"
  by (simp add: numeral_eq_Suc)

lemma read_header_layout:
  assumes cm: "config_mechanism mc cfg wmask" and rd: "read_header mc p c s = Inr s'"
    and kind: "header_type c = config_byte (cfg (device s)) (bus c) (slot c) (func_no c) 0xE"
  shows "configs s' p = c \<lparr> h_type := layout (cfg (device s)) wmask (bus c) (slot c) (func_no c) \<rparr>"
proof -
  note L = reads_layouts [OF cm, of "bus c" "slot c" "func_no c", THEN readsD]
  consider (0) t s1 s2 where "header_type c AND 0x7 = 0"
      "read_type_0 mc (bus c) (slot c) (func_no c) s = Inr (t, s1)"
      "store_config p (c \<lparr> h_type := type_0 t \<rparr>) s1 = Inr s2" "pci_get_memory_size mc p s2 = Inr s'"
    | (1) t s1 where "header_type c AND 0x7 = 1"
      "read_type_1 mc (bus c) (slot c) (func_no c) s = Inr (t, s1)"
      "store_config p (c \<lparr> h_type := type_1 t \<rparr>) s1 = Inr s'"
    | (2) t s1 where "header_type c AND 0x7 = 2"
      "read_type_2 mc (bus c) (slot c) (func_no c) s = Inr (t, s1)"
      "store_config p (c \<lparr> h_type := type_2 t \<rparr>) s1 = Inr s'"
    using rd by (auto simp: read_header_def Let_def split: if_splits)
  then show ?thesis
  proof cases
    case 0
    have t: "t = layout_0 (cfg (device s)) (bus c) (slot c) (func_no c)" "cfg (device s1) = cfg (device s)"
      using L(1) [OF 0(2)] by simp_all
    have s2: "configs s2 p = c \<lparr> h_type := type_0 t \<rparr>" "cfg (device s2) = cfg (device s)"
      using 0(3) t(2) by (auto simp: store_config_def)
    have "for_each [0x10, 0x14, 0x18, 0x1C, 0x20, 0x24] (probe_bar mc p) s2 = Inr s'"
      using 0(1,4) s2(1) by (simp add: pci_get_memory_size_def)
    from probed_sizes [OF cm this, of t] s2 have "configs s' p = c \<lparr> h_type := type_0 (t \<lparr> bar_sizes :=
        measured_sizes (cfg (device s)) wmask (bus c) (slot c) (func_no c) \<rparr>) \<rparr>"
      by (simp add: t(1) measured_sizes_def layout_0_def Let_def six_zeros)
    then show ?thesis using 0(1) kind by (simp add: t(1) layout_def Let_def)
  next
    case 1
    then show ?thesis using L(2) [OF 1(2)] kind by (auto simp: store_config_def layout_def Let_def)
  next
    case 2
    then show ?thesis using L(3) [OF 2(2)] kind by (auto simp: store_config_def layout_def Let_def)
  qed
qed


lemma read_word_config:
  assumes "config_mechanism mc cfg wmask" and "pci_config_read_word mc b sl fn off s = Inr (v, s')"
  shows "v = config_word (cfg (device s)) b sl fn off" and "cfg (device s') = cfg (device s)"
  using read_word_value [OF assms] by (simp_all add: config_word_def same_registers_def)

lemma scan_function_answers:
  assumes cm: "config_mechanism mc cfg wmask" and l: "device_list s cs" and regs: "cfg (device s) = regs"
    and sc: "scan_function mc b sl fn s = Inr s'"
  shows "cfg (device s') = regs \<and>
    (if answers regs (b, sl, fn)
     then \<exists>c. device_list s' (c # cs) \<and> identity_of c = (b, sl, fn) \<and> describes regs wmask c
     else device_list s' cs)"
  using sc
proof (cases rule: scan_function_cases)
  case no_slot
  note r = read_word_config [OF cm no_slot]
  have "\<not> answers regs (b, sl, fn)" using r(1) regs by (simp add: answers_def)
  then show ?thesis
    using l device_list_same_kernel [OF withinD [OF quiet_read(2) no_slot]] r(2) regs by simp
next
  case (no_function vendor s1)
  note r1 = read_word_config [OF cm no_function(1)] and r2 = read_word_config [OF cm no_function(3)]
  have "\<not> answers regs (b, sl, fn)" using r1(2) r2(1) regs by (simp add: answers_def)
  moreover have "device_list s' cs"
    using l device_list_same_kernel [OF withinD [OF quiet_read(2) no_function(1)]]
      device_list_same_kernel [OF withinD [OF quiet_read(2) no_function(3)]] by simp
  ultimately show ?thesis using r1(2) r2(2) regs by simp
next
  case (present vendor s1 dev s2 p s3 c s4 s5)
  note r1 = read_word_config [OF cm present(1)] and r2 = read_word_config [OF cm present(3)]
  have "device_list s2 cs"
    using l device_list_same_kernel [OF withinD [OF quiet_read(2) present(1)]]
      device_list_same_kernel [OF withinD [OF quiet_read(2) present(3)]] by simp
  from listed_structure [OF this present(5-8)] obtain c' where
    c': "device_list s' (c' # cs)" "c' = configs s5 p" "identity_of c' = (b, sl, fn)"
      "bus c = b" "slot c = sl" "func_no c = fn" using read_config_result [OF present(6)] by (auto simp: identity_of_def)
  have r3: "cfg (device s3) = regs" using r1(2) r2(2) regs driver_alloc_device [OF present(5)] by simp
  note c = readsD [OF reads_config [OF cm] present(6)]
  have r4: "cfg (device s4) = regs" using c r3 by simp
  then have "cfg (device s') = regs"
    using read_header_registers [OF cm present(7)] insert_device_device [OF present(8)] by (simp add: same_registers_def)
  moreover have "answers regs (b, sl, fn)"
    using r1 r2 regs present(2,4) by (auto simp: answers_def)
  moreover have "describes regs wmask c'"
  proof -
    have "header_type c = config_byte regs b sl fn 0xE" using c r3 by (simp add: config_of_def Let_def)
    with read_header_layout [OF cm present(7)] c'(4-6) r4
    have "configs s5 p = c \<lparr> h_type := layout regs wmask b sl fn \<rparr>" by simp
    moreover have "vendor = config_word regs b sl 0 0" "dev = config_word regs b sl fn 2"
      using r1 r2 regs by (simp_all add: PCI_VENDOR_ID_def PCI_DEVICE_ID_def)
    ultimately have "c' = config_of regs wmask (b, sl, fn)"
      using c r3 by (simp add: c'(2) config_of_def Let_def)
    then show ?thesis unfolding describes_def c'(3) .
  qed
  ultimately show ?thesis using c'(1,3) by auto
qed

lemma scan_answers:
  assumes cm: "config_mechanism mc cfg wmask"
  shows "device_list s cs \<Longrightarrow> cfg (device s) = regs \<Longrightarrow>
    for_each fs (\<lambda>(b, sl, fn). scan_function mc b sl fn) s = Inr s' \<Longrightarrow>
    \<exists>cs'. device_list s' (cs' @ cs) \<and> map identity_of cs' = rev (filter (answers regs) fs) \<and>
      list_all (describes regs wmask) cs' \<and> cfg (device s') = regs"
proof (induction fs arbitrary: s cs)
  case Nil
  then show ?case by auto
next
  case (Cons f fs)
  obtain b sl fn where f: "f = (b, sl, fn)" by (cases f)
  from Cons.prems(3) obtain s1 where
    1: "scan_function mc b sl fn s = Inr s1"
    and 2: "for_each fs (\<lambda>(b, sl, fn). scan_function mc b sl fn) s1 = Inr s'"
    by (auto simp: f)
  note st = scan_function_answers [OF cm Cons.prems(1,2) 1]
  show ?case
  proof (cases "answers regs f")
    case True
    with st f obtain c where c: "device_list s1 (c # cs)" "identity_of c = f" "describes regs wmask c"
      "cfg (device s1) = regs" by auto
    from Cons.IH [OF c(1,4) 2] obtain cs' where
      "device_list s' ((cs' @ [c]) @ cs)" "map identity_of cs' = rev (filter (answers regs) fs)"
      "list_all (describes regs wmask) cs'" "cfg (device s') = regs" by auto
    then show ?thesis using True c by (intro exI [of _ "cs' @ [c]"]) simp
  next
    case False
    then show ?thesis using st f Cons.IH [OF _ _ 2, of cs] by auto
  qed
qed

text \<open>Searching the list.\<close>

lemma device_list_find:
  assumes "device_list s cs"
  shows "\<exists>p. pci_find_custom func s = Inr p \<and>
    (if p = 0 then \<forall>c\<in>set cs. \<not> func c else func (configs s p) \<and> configs s p \<in> set cs)"
proof -
  from assms obtain xs where xs: "kernel_list s (lst_pci_devices s) xs"
    "cs = map (configs s) (list_contents (list_nodes s) xs)"
    and ge: "\<forall>p\<in>set (list_contents (list_nodes s) xs). current_address (kernel_WaterMark s) \<le> p"
    by (auto simp: device_list_def)
  have "0 < unat (current_address (kernel_WaterMark s))"
    using xs(1) by (auto simp: kernel_list_def water_mark_ok_def word_le_nat_alt)
  then have nz: "0 \<notin> set (list_contents (list_nodes s) xs)" using ge by (auto simp: word_le_nat_alt)
  have "links (list_nodes s) (list_head (lst_pci_devices s)) xs"
    using xs(1) by (simp add: kernel_list_def list_at_def)
  then have f: "pci_find_custom func s = Inr (case List.find (\<lambda>p. func (configs s p))
      (list_contents (list_nodes s) xs) of None \<Rightarrow> 0 | Some p \<Rightarrow> p)"
    by (simp add: pci_find_custom_def find_node_links)
  show ?thesis
  proof (cases "List.find (\<lambda>p. func (configs s p)) (list_contents (list_nodes s) xs)")
    case None
    then have "pci_find_custom func s = Inr 0" using f by simp
    then show ?thesis using None xs(2) by (simp add: find_None_iff)
  next
    case (Some p)
    have "p \<in> set (list_contents (list_nodes s) xs)" "func (configs s p)"
      using Some by (auto simp: find_Some_iff)
    moreover have "pci_find_custom func s = Inr p" using f Some by simp
    ultimately show ?thesis using nz xs(2) by auto
  qed
qed

section \<open>Probing returns\<close>

lemma measure_bar_returns: "\<exists>r s'. measure_bar mc c off s = Inr (r, s')"
  by (simp add: measure_bar_def bind_def seq_def return_def Let_def pci_config_read_long_def
      pci_config_write_long_def on_device_def from_device_def split: prod.splits)

lemma probe_bar_returns:
  assumes "length (stack_bytes s) = BUFFER_LEN"
  shows "\<exists>s'. probe_bar mc p off s = Inr s' \<and> length (stack_bytes s') = BUFFER_LEN"
proof -
  from measure_bar_returns [of mc "configs s p" off s] obtain orig sz s4 where
    1: "measure_bar mc (configs s p) off s = Inr ((orig, sz), s4)" by auto
  define s5 where "s5 = s4 \<lparr> configs := (configs s4)
      (p := set_bar_size (unat ((off - 0x10) div 4)) sz (configs s4 p)) \<rparr>"
  have "stack_bytes s4 = stack_bytes s"
    using withinD [OF quiet_measure_bar 1] by (auto simp: same_kernel_def)
  then have len: "length (stack_bytes s5) = BUFFER_LEN" using assms by (simp add: s5_def)
  have "\<exists>t. kprint ''Orig 0x%x: %x\<newline>'' [Num (ucast off), Num (ucast orig)] s5 = Inr (s5 \<lparr> text_screen := t \<rparr>)"
    by (rule kprint_returns [OF len]) (simp add: conv_text_def)
  then obtain t where t: "kprint ''Orig 0x%x: %x\<newline>'' [Num (ucast off), Num (ucast orig)] s5 =
      Inr (s5 \<lparr> text_screen := t \<rparr>)" by blast
  have "\<exists>t'. kprint ''Memory size required: 0x%x\<newline>'' [Num (ucast sz)] (s5 \<lparr> text_screen := t \<rparr>) =
      Inr (s5 \<lparr> text_screen := t \<rparr> \<lparr> text_screen := t' \<rparr>)"
    by (rule kprint_returns) (simp_all add: conv_text_def len)
  then obtain t' where "kprint ''Memory size required: 0x%x\<newline>'' [Num (ucast sz)] (s5 \<lparr> text_screen := t \<rparr>) =
      Inr (s5 \<lparr> text_screen := t \<rparr> \<lparr> text_screen := t' \<rparr>)" by blast
  then have "probe_bar mc p off s = Inr (s5 \<lparr> text_screen := t \<rparr> \<lparr> text_screen := t' \<rparr>)"
    unfolding probe_bar_def bind_def 1 and_then_simps prod.case seq_def
    using t by (simp only: s5_def and_then_simps)
  then show ?thesis using len by simp
qed

text \<open>All six registers, from the first on.\<close>

lemma probe_bars:
  assumes cm: "config_mechanism mc cfg wmask" and regs: "cfg (device s) = regs"
    and c: "h_type (configs s p) = type_0 t" and len: "length (stack_bytes s) = BUFFER_LEN"
  shows "\<exists>s' t'. for_each offs (probe_bar mc p) s = Inr s' \<and> cfg (device s') = regs \<and>
    configs s' p = (configs s p) \<lparr> h_type := type_0 t' \<rparr> \<and>
    t' = t \<lparr> bar_sizes := foldl (\<lambda>sizes off. sizes[unat ((off - 0x10) div 4) :=
      (let a = pci_address (bus (configs s p)) (slot (configs s p)) (func_no (configs s p)) off
       in bar_size_of (wmask a) (regs a))]) (bar_sizes t) offs \<rparr>"
  using regs c len
proof (induction offs arbitrary: s t)
  case Nil
  have "configs s p = (configs s p) \<lparr> h_type := type_0 t \<rparr>"
    using Nil(2) by (metis pci_config_t.surjective pci_config_t.update_convs(16) pci_config_t.select_convs(16))
  then show ?case using Nil by auto
next
  case (Cons off offs)
  let ?c = "configs s p"
  from probe_bar_returns [OF Cons.prems(3)] obtain s1 where
    1: "probe_bar mc p off s = Inr s1" "length (stack_bytes s1) = BUFFER_LEN" by blast
  define a where "a = pci_address (bus ?c) (slot ?c) (func_no ?c) off"
  define t1 where "t1 = t \<lparr> bar_sizes := (bar_sizes t)[unat ((off - 0x10) div 4) := bar_size_of (wmask a) (regs a)] \<rparr>"
  have v: "cfg (device s1) = regs" "configs s1 p = ?c \<lparr> h_type := type_0 t1 \<rparr>"
    using probe_bar_value [OF cm 1(1)] Cons.prems(1,2)
    by (simp_all add: same_registers_def Let_def a_def t1_def set_bar_size_def)
  have "h_type (configs s1 p) = type_0 t1" by (simp add: v(2))
  from Cons.IH [OF v(1) this 1(2)] show ?case
    by (simp add: 1(1) v(2) t1_def a_def Let_def)
qed

text \<open>As long as the headers are of a known type and memory remains, the scan returns.\<close>

lemma returns_read:
  "returns (pci_config_read_long mc b sl fn off)"
  "returns (pci_config_read_word mc b sl fn off)"
  "returns (pci_config_read_byte mc b sl fn off)"
  by (simp_all add: returns_def pci_config_read_long_def pci_config_read_word_def pci_config_read_byte_def
      seq_def on_device_def from_device_def split: prod.splits)

lemma returns_read_types:
  "returns (read_type_0 mc b sl fn)" "returns (read_type_1 mc b sl fn)" "returns (read_type_2 mc b sl fn)"
  "returns (read_config mc b sl fn v d)"
  unfolding read_type_0_def read_type_1_def read_type_2_def read_config_def
  by (intro returns_intros returns_read)+

lemma returnsE: "returns f \<Longrightarrow> (\<And>x s'. f s = Inr (x, s') \<Longrightarrow> thesis) \<Longrightarrow> thesis"
  unfolding returns_def by blast

definition buffered :: "('d, 'z) drivers_scheme \<Rightarrow> bool" where
  "buffered s \<longleftrightarrow> length (stack_bytes s) = BUFFER_LEN"

lemma buffered_same_kernel: "same_kernel s s' \<Longrightarrow> buffered s' \<longleftrightarrow> buffered s"
  by (auto simp: same_kernel_def buffered_def)

lemma driver_alloc_buffered: "driver_alloc sz s = Inr (p, s') \<Longrightarrow> buffered s' \<longleftrightarrow> buffered s"
  by (auto simp: driver_alloc_def buffered_def)

lemma get_memory_size_returns:
  assumes "buffered s" and "header_typed (configs s p)"
  shows "\<exists>s'. pci_get_memory_size mc p s = Inr s' \<and> buffered s'"
proof (cases "header_type (configs s p) AND 0x7 = 0")
  case True
  with assms(2) obtain t where "h_type (configs s p) = type_0 t"
    by (auto simp: header_typed_def split: pci_header.splits)
  moreover have "\<exists>s'. for_each offs (probe_bar mc p) s = Inr s' \<and> buffered s'" for offs
    using assms(1)
  proof (induction offs arbitrary: s)
    case (Cons off offs)
    then show ?case using probe_bar_returns [of s mc p off] by (auto simp: buffered_def)
  qed simp
  ultimately show ?thesis using True by (simp add: pci_get_memory_size_def del: for_each.simps)
qed (use assms in \<open>simp add: pci_get_memory_size_def\<close>)

lemma read_header_returns:
  assumes "buffered s" and "header_type c AND 0x7 \<le> 2"
  shows "\<exists>s'. read_header mc p c s = Inr s' \<and> buffered s'"
proof -
  have "header_type c AND 0x7 = 0 \<or> header_type c AND 0x7 = 1 \<or> header_type c AND 0x7 = 2"
    using assms(2) by (auto simp: word_le_nat_alt word_unat_eq_iff)
  then consider (0) "header_type c AND 0x7 = 0" | (1) "header_type c AND 0x7 = 1"
    | (2) "header_type c AND 0x7 = 2" by blast
  then show ?thesis
  proof cases
    case 0
    obtain t s1 where 1: "read_type_0 mc (bus c) (slot c) (func_no c) s = Inr (t, s1)"
      by (rule returnsE [OF returns_read_types(1)])
    define s2 where "s2 = s1 \<lparr> configs := (configs s1)(p := c \<lparr> h_type := type_0 t \<rparr>) \<rparr>"
    have "buffered s2" "header_typed (configs s2 p)"
      using assms(1) buffered_same_kernel [OF withinD [OF quiet_read_types(1) 1]]
        read_type_0_result [OF 1] 0 by (simp_all add: s2_def buffered_def header_typed_def)
    from get_memory_size_returns [OF this, of mc] show ?thesis
      using 0 1 by (simp add: read_header_def Let_def bind_def seq_def store_config_def s2_def)
  next
    case 1
    obtain t s1 where 2: "read_type_1 mc (bus c) (slot c) (func_no c) s = Inr (t, s1)"
      by (rule returnsE [OF returns_read_types(2)])
    then show ?thesis
      using 1 assms(1) buffered_same_kernel [OF withinD [OF quiet_read_types(2) 2]]
      by (simp add: read_header_def Let_def bind_def store_config_def buffered_def)
  next
    case 2
    obtain t s1 where 3: "read_type_2 mc (bus c) (slot c) (func_no c) s = Inr (t, s1)"
      by (rule returnsE [OF returns_read_types(3)])
    then show ?thesis
      using 2 assms(1) buffered_same_kernel [OF withinD [OF quiet_read_types(3) 3]]
      by (simp add: read_header_def Let_def bind_def store_config_def buffered_def)
  qed
qed

lemma insert_device_returns:
  assumes "room (24 + n) (kernel_WaterMark s)" and "buffered s"
  shows "\<exists>s'. insert_device p s = Inr s' \<and> room n (kernel_WaterMark s') \<and> buffered s'"
proof -
  from driver_alloc_room [of 24 n s] assms(1) obtain x s1 where
    1: "driver_alloc 24 s = Inr (x, s1)" "room n (kernel_WaterMark s1)" by auto
  moreover have "buffered s1" using driver_alloc_buffered [OF 1(1)] assms(2) by simp
  ultimately show ?thesis
    by (auto simp: insert_device_def insert_element_def list_insert_next_def node_alloc_def bind_def
        buffered_def split: prod.splits)
qed

text \<open>The type of the header of a function.\<close>

definition header_kind :: "(u32 \<Rightarrow> u32) \<Rightarrow> u8 \<times> u8 \<times> u8 \<Rightarrow> u8" where
  "header_kind regs = (\<lambda>(b, sl, fn). ucast (drop_bit 16 (regs (pci_address b sl fn PCI_HEADER_TYPE))) AND 0x7)"

lemma read_config_header:
  assumes cm: "config_mechanism mc cfg wmask" and rd: "read_config mc b sl fn v d s = Inr (c, s')"
  shows "header_type c AND 0x7 = header_kind (cfg (device s)) (b, sl, fn)"
proof -
  have PH: "8 * unat (PCI_HEADER_TYPE AND 3) = 16" by (simp add: PCI_HEADER_TYPE_def)
  from rd show ?thesis
    by (auto simp: read_config_def header_kind_def same_registers_def PH
        dest!: read_word_value [OF cm] read_long_value [OF cm] read_byte_value [OF cm])
qed

lemma scan_function_returns:
  assumes cm: "config_mechanism mc cfg wmask" and regs: "cfg (device s) = regs" and buf: "buffered s"
    and rm: "room (if answers regs (b, sl, fn) then 116 + n else n) (kernel_WaterMark s)"
    and kind: "answers regs (b, sl, fn) \<Longrightarrow> header_kind regs (b, sl, fn) \<le> 2"
  shows "\<exists>s'. scan_function mc b sl fn s = Inr s' \<and> buffered s' \<and> room n (kernel_WaterMark s')"
proof -
  have wm: "kernel_WaterMark s' = kernel_WaterMark s" if "same_kernel s s'" for s s' :: "('a, 'c) pci_scheme"
    using that by (auto simp: same_kernel_def)
  obtain vendor s1 where 1: "pci_config_read_word mc b sl 0 PCI_VENDOR_ID s = Inr (vendor, s1)"
    by (rule returnsE [OF returns_read(2)])
  obtain dev s2 where 2: "pci_config_read_word mc b sl fn PCI_DEVICE_ID s1 = Inr (dev, s2)"
    by (rule returnsE [OF returns_read(2)])
  note r1 = read_word_config [OF cm 1] and r2 = read_word_config [OF cm 2]
  note k1 = withinD [OF quiet_read(2) 1] and k2 = withinD [OF quiet_read(2) 2]
  have b2: "buffered s1" "buffered s2" using buf buffered_same_kernel k1 k2 by blast+
  have w2: "kernel_WaterMark s1 = kernel_WaterMark s" "kernel_WaterMark s2 = kernel_WaterMark s"
    using wm [OF k1] wm [OF k2] by simp_all
  show ?thesis
  proof (cases "answers regs (b, sl, fn)")
    case False
    then have "vendor = 0xFFFF \<or> dev = 0xFFFF" using r1 r2 regs by (simp add: answers_def)
    then show ?thesis using 1 2 b2 w2 rm False
      by (auto simp: scan_function_def bind_def skip_def)
  next
    case True
    then have ids: "vendor \<noteq> 0xFFFF" "dev \<noteq> 0xFFFF" using r1 r2 regs by (simp_all add: answers_def)
    have "room (unat sizeof_pci_config + (24 + n)) (kernel_WaterMark s2)" using rm True w2 by simp
    from driver_alloc_room [OF this] obtain p s3 where
      3: "driver_alloc sizeof_pci_config s2 = Inr (p, s3)" "room (24 + n) (kernel_WaterMark s3)" by blast
    have p: "p \<noteq> 0" using driver_alloc_takes(3) [OF _ _ 3(1)] rm w2 True by (simp add: room_def)
    obtain c s4 where 4: "read_config mc b sl fn vendor dev s3 = Inr (c, s4)"
      by (rule returnsE [OF returns_read_types(4)])
    have b4: "buffered s4"
      using b2 driver_alloc_buffered [OF 3(1)] buffered_same_kernel [OF withinD [OF quiet_read_types(4) 4]] by simp
    have "header_type c AND 0x7 \<le> 2"
      using read_config_header [OF cm 4] driver_alloc_device [OF 3(1)] r1(2) r2(2) regs kind True by simp
    from read_header_returns [OF b4 this] obtain s5 where 5: "read_header mc p c s4 = Inr s5" "buffered s5" by blast
    have "kernel_WaterMark s5 = kernel_WaterMark s3"
      using read_header_only [OF 5(1)] wm [OF withinD [OF quiet_read_types(4) 4]] by (simp add: only_config_def)
    then have "room (24 + n) (kernel_WaterMark s5)" using 3(2) by simp
    from insert_device_returns [OF this 5(2)] obtain s6 where
      "insert_device p s5 = Inr s6" "room n (kernel_WaterMark s6)" "buffered s6" by blast
    then show ?thesis using 1 2 3 4 5 ids p
      by (auto simp: scan_function_def bind_def seq_def assert_at_def)
  qed
qed

lemma scan_returns:
  assumes cm: "config_mechanism mc cfg wmask"
    and kinds: "\<forall>f\<in>set fs. answers regs f \<longrightarrow> header_kind regs f \<le> 2"
  shows "device_list s cs \<Longrightarrow> cfg (device s) = regs \<Longrightarrow> buffered s \<Longrightarrow>
    room (116 * length (filter (answers regs) fs)) (kernel_WaterMark s) \<Longrightarrow>
    \<exists>s'. for_each fs (\<lambda>(b, sl, fn). scan_function mc b sl fn) s = Inr s'"
  using kinds
proof (induction fs arbitrary: s cs)
  case (Cons f fs)
  obtain b sl fn where f: "f = (b, sl, fn)" by (cases f)
  have "room (if answers regs (b, sl, fn) then 116 + 116 * length (filter (answers regs) fs)
      else 116 * length (filter (answers regs) fs)) (kernel_WaterMark s)"
    using Cons.prems(4) by (auto simp: f split: if_splits)
  from scan_function_returns [OF cm Cons.prems(2,3) this] Cons.prems(5) obtain s1 where
    1: "scan_function mc b sl fn s = Inr s1" "buffered s1"
      "room (116 * length (filter (answers regs) fs)) (kernel_WaterMark s1)"
    by (auto simp: f)
  from scan_function_answers [OF cm Cons.prems(1,2) 1(1)] obtain cs' where
    "device_list s1 cs'" "cfg (device s1) = regs" by (metis)
  from Cons.IH [OF this 1(2,3)] Cons.prems(5) 1(1) show ?case by (simp add: f)
qed simp

section \<open>A bus with one device\<close>

text \<open>The registers as a function, the selected address beside them; \<open>wm\<close> are the writable bits.\<close>

definition sample_ports :: "(u32 \<Rightarrow> u32) \<Rightarrow> (u32 \<times> (u32 \<Rightarrow> u32)) machine" where
  "sample_ports wm =
     \<lparr> port_inb = (\<lambda>port (a, r). (ucast (drop_bit (8 * unat (port - 0xCFC)) (r a)), (a, r))),
       port_inw = (\<lambda>port (a, r). (ucast (drop_bit (8 * unat (port - 0xCFC)) (r a)), (a, r))),
       port_inl = (\<lambda>port (a, r). (r a, (a, r))),
       port_outb = (\<lambda>port v d. d), port_outw = (\<lambda>port v d. d),
       port_outl = (\<lambda>port v (a, r). if port = 0xCF8 then (v, r)
          else (a, r(a := (v AND wm a) OR (r a AND NOT (wm a))))),
       load8 = (\<lambda>a d. (0, d)), load16 = (\<lambda>a d. (0, d)), load32 = (\<lambda>a d. (0, d)),
       store8 = (\<lambda>a v d. d), store16 = (\<lambda>a v d. d), store32 = (\<lambda>a v d. d), store64 = (\<lambda>a v d. d) \<rparr>"

lemma sample_config_mechanism: "config_mechanism (sample_ports wm) snd wm"
  by (auto simp: config_mechanism_def sample_ports_def PCI_CONFIG_SPACE_PORT_def PCI_CONFIG_DATA_PORT_def
      Let_def split_beta)

text \<open>Function 0 of slot 0 on bus 0 is an Intel sound controller, no other address answers.\<close>

definition sample_regs :: "u32 \<Rightarrow> u32" where
  "sample_regs a =
     (if a = 0x80000000 then 0x26688086 else if a = 0x80000008 then 0x04030001
      else if a AND NOT (mask 8) = 0x80000000 then 0 else 0xFFFFFFFF)"

definition sample_pci :: "(u32 \<times> (u32 \<Rightarrow> u32)) pci" where
  "sample_pci =
     \<lparr> device = (0, sample_regs), text_screen = sample_text, stack_bytes = garbage,
       memory = \<lparr> pmem = (\<lambda>_. 0), pool_4KIB = 0, stack_2MIB = 0 \<rparr>, kernel_tables = 0,
       kernel_WaterMark = \<lparr> page_address = 0x600000, current_address = 0x800000, current_size = 0,
         max_size = 0x400000 \<rparr>,
       list_nodes = sample_nodes,
       configs = (\<lambda>_. \<lparr> bus = 0, slot = 0, func_no = 0, vendor_id = 0, device_id = 0, status = 0,
         command = 0, base_class = 0, sub_class = 0, programming_if = 0, revision = 0, BIST = 0,
         header_type = 0, latency_timer = 0, cache_line_size = 0, h_type = Uninitialised \<rparr>),
       lst_pci_devices = list_init \<rparr>"

lemma sample_pci_simps [simp]:
  "device sample_pci = (0, sample_regs)" "length (stack_bytes sample_pci) = BUFFER_LEN"
  by (simp_all add: sample_pci_def garbage_def)

lemma pci_address_page:
  assumes "pci_address b sl fn off AND NOT (mask 8) = 0x80000000"
  shows "b = 0 \<and> sl = 0 \<and> fn = 0"
proof -
  have "bit ((2 :: u32) ^ 31) n \<Longrightarrow> n = 31" for n by (simp only: bit_exp_iff)
  then have e: "bit (0x80000000 :: u32) n \<Longrightarrow> n = 31" for n by simp
  have n: "8 \<le> n \<Longrightarrow> n < 31 \<Longrightarrow> \<not> bit (pci_address b sl fn off) n" for n
    using arg_cong [OF assms, of "\<lambda>w. bit w n"] e [of n]
    by (cases "bit (0x80000000 :: u32) n") (simp_all add: bit_and_iff bit_not_iff bit_mask_iff)
  have "\<not> bit b i" if "i < 8" for i
    using n [of "16 + i"] that by (auto simp: pci_address_def bit_simps)
  moreover have "\<not> bit sl i" if "i < 8" for i
    using n [of "11 + i"] that by (auto simp: pci_address_def bit_simps)
  moreover have "\<not> bit fn i" if "i < 8" for i
    using n [of "8 + i"] that by (auto simp: pci_address_def bit_simps)
  ultimately show ?thesis by (auto intro!: bit_word_eqI)
qed

lemma sample_answers: "answers sample_regs f \<longleftrightarrow> f = (0, 0, 0)"
proof -
  obtain b sl fn where f: "f = (b, sl, fn)" by (cases f)
  have "answers sample_regs (0, 0, 0)"
    by (simp add: answers_def config_word_def sample_regs_def pci_address_def PCI_VENDOR_ID_def
        PCI_DEVICE_ID_def ENABLE_PCI_CONFIG_SPACE_def)
  moreover have "pci_address b sl fn PCI_DEVICE_ID AND NOT (mask 8) = 0x80000000"
    if "answers sample_regs (b, sl, fn)"
  proof (rule ccontr)
    let ?a = "pci_address b sl fn PCI_DEVICE_ID"
    assume n: "?a AND NOT (mask 8) \<noteq> 0x80000000"
    have "?a \<noteq> 0x80000000" "?a \<noteq> 0x80000008"
      using n by (auto simp: mask_eq_exp_minus_1)
    then have "sample_regs ?a = 0xFFFFFFFF" using n by (simp add: sample_regs_def)
    then show False using that by (simp add: answers_def config_word_def PCI_DEVICE_ID_def)
  qed
  ultimately show ?thesis unfolding f using pci_address_page by blast
qed

lemma filter_single:
  "distinct xs \<Longrightarrow> x \<in> set xs \<Longrightarrow> (\<And>y. P y \<longleftrightarrow> y = x) \<Longrightarrow> filter P xs = [x]"
proof (induction xs)
  case (Cons y xs)
  show ?case
  proof (cases "y = x")
    case True
    then have "\<forall>z\<in>set xs. \<not> P z" using Cons.prems by auto
    then have "filter P xs = []" by (simp add: filter_empty_conv)
    moreover have "P y" using True Cons.prems(3) by blast
    ultimately show ?thesis using True by simp
  next
    case False
    then show ?thesis using Cons by simp
  qed
qed simp

lemma sample_filter: "filter (answers sample_regs) all_functions = [(0, 0, 0)]"
proof (rule filter_single [OF distinct_all_functions _ sample_answers])
  have "(0 :: u8) \<in> of_nat ` {0..<Suc n}" for n by force
  from this [of 255] this [of 31] this [of 7] show "(0, 0, 0) \<in> set all_functions"
    by (simp add: all_functions_def)
qed

section \<open>Properties\<close>



text \<open>C22. Whatever the devices answer: every structure that a search finds after the initialisation
  carries the member of the union that its header type names, with six base address registers for
  a device of type 0.\<close>

theorem pci_find_returns_typed_header:
  assumes "water_mark_ok (kernel_WaterMark s)" and "pci_init mc s = Inr s'"
  shows "\<exists>p. pci_find_custom func s' = Inr p \<and>
    (p \<noteq> 0 \<longrightarrow> func (configs s' p) \<and> header_typed (configs s' p))"
proof -
  have "\<exists>cs. device_list s' cs \<and> list_all header_typed cs"
  proof (rule for_each_invariant [OF assms(2) [unfolded pci_init_def pci_scan_devices_all]])
    show "\<exists>cs. device_list (s \<lparr> lst_pci_devices := list_init \<rparr>) cs \<and> list_all header_typed cs"
      using device_list_init [OF assms(1)] by (intro exI [of _ "[]"]) simp
  next
    fix i and s1 s2 :: "('a, 'b) pci_scheme"
    assume "\<exists>cs. device_list s1 cs \<and> list_all header_typed cs"
      and sc: "(case i of (b, sl, fn) \<Rightarrow> scan_function mc b sl fn) s1 = Inr s2"
    then obtain cs where cs: "device_list s1 cs" "list_all header_typed cs" by blast
    obtain b sl fn where i: "i = (b, sl, fn)" by (cases i)
    from scan_function_lists [OF cs(1) sc [unfolded i prod.case]] cs(2)
    show "\<exists>cs. device_list s2 cs \<and> list_all header_typed cs"
      by (metis list.pred_inject(2))
  qed
  then obtain cs where cs: "device_list s' cs" "list_all header_typed cs" by blast
  from device_list_find [OF cs(1), of func] cs(2) show ?thesis by (auto simp: list_all_iff)
qed

theorem pci_find_returns_typed_header_witness:
  "\<exists>s p. pci_init (sample_ports (\<lambda>_. 0)) sample_pci = Inr s \<and>
    pci_find_custom (\<lambda>c. vendor_id c = 0x8086) s = Inr p \<and> (p \<noteq> 0 \<longrightarrow> header_typed (configs s p))"
proof -
  have kinds: "\<forall>f\<in>set all_functions. answers (snd (device sample_pci)) f \<longrightarrow>
      header_kind (snd (device sample_pci)) f \<le> 2"
    by (simp add: sample_answers header_kind_def sample_regs_def pci_address_def PCI_HEADER_TYPE_def
        ENABLE_PCI_CONFIG_SPACE_def mask_eq_exp_minus_1)
  have room: "room (116 * length (filter (answers (snd (device sample_pci))) all_functions))
      (kernel_WaterMark sample_pci)"
    by (simp add: sample_filter) (simp add: room_def water_mark_ok_def sample_pci_def)
  have l: "device_list (sample_pci \<lparr> lst_pci_devices := list_init \<rparr>) []"
    using room device_list_init by (auto simp: room_def)
  have "\<exists>s. pci_init (sample_ports (\<lambda>_. 0)) sample_pci = Inr s"
    unfolding pci_init_def pci_scan_devices_all
    using room by (intro scan_returns [OF sample_config_mechanism kinds l]) (simp_all add: buffered_def)
  then obtain s where s: "pci_init (sample_ports (\<lambda>_. 0)) sample_pci = Inr s" by blast
  have "water_mark_ok (kernel_WaterMark sample_pci)" using room by (simp add: room_def)
  from pci_find_returns_typed_header [OF this s] show ?thesis using s by blast
qed

text \<open>C15. Probing returns, restores every register, and finds for each base address register the size
  of its memory: \<open>2 ^ k\<close> when the address bits from \<open>k\<close> on are writable and the others read as zero
  but for the flags.\<close>

theorem pci_get_memory_size_measures_bars:
  assumes "config_mechanism mc cfg wmask" and "h_type (configs s p) = type_0 t"
    and "header_type (configs s p) AND 0x7 = 0" and "length (bar_sizes t) = 6"
    and "length (stack_bytes s) = BUFFER_LEN"
  shows "\<exists>s' t'. pci_get_memory_size mc p s = Inr s' \<and> cfg (device s') = cfg (device s) \<and>
    configs s' p = (configs s p) \<lparr> h_type := type_0 t' \<rparr> \<and> bar_address t' = bar_address t \<and>
    (\<forall>i < 6. \<forall>k. let c = configs s p; a = pci_address (bus c) (slot c) (func_no c) (0x10 + 4 * of_nat i) in
      4 \<le> k \<and> k < 32 \<and> wmask a = NOT (mask k) \<and> cfg (device s) a AND mask k AND NOT (mask 4) = 0 \<longrightarrow>
      bar_sizes t' ! i = 2 ^ k)"
proof -
  let ?c = "configs s p"
  from probe_bars [OF assms(1) refl assms(2,5), of "[0x10, 0x14, 0x18, 0x1C, 0x20, 0x24]"]
  obtain s' t' where r: "for_each [0x10, 0x14, 0x18, 0x1C, 0x20, 0x24] (probe_bar mc p) s = Inr s'"
    "cfg (device s') = cfg (device s)" "configs s' p = ?c \<lparr> h_type := type_0 t' \<rparr>"
    and t': "t' = t \<lparr> bar_sizes := foldl (\<lambda>sizes off. sizes[unat ((off - 0x10) div 4) :=
      (let a = pci_address (bus ?c) (slot ?c) (func_no ?c) off
       in bar_size_of (wmask a) (cfg (device s) a))]) (bar_sizes t) [0x10, 0x14, 0x18, 0x1C, 0x20, 0x24] \<rparr>"
    by blast
  obtain b0 b1 b2 b3 b4 b5 where b: "bar_sizes t = [b0, b1, b2, b3, b4, b5]"
    using assms(4) by (auto simp: numeral_eq_Suc length_Suc_conv)
  define z where "z off = (let a = pci_address (bus ?c) (slot ?c) (func_no ?c) off
       in bar_size_of (wmask a) (cfg (device s) a))" for off
  have "bar_sizes t' = [z 0x10, z 0x14, z 0x18, z 0x1C, z 0x20, z 0x24]"
    unfolding t' z_def [symmetric] by (simp add: b)
  moreover have "i = 0 \<or> i = 1 \<or> i = 2 \<or> i = 3 \<or> i = 4 \<or> i = 5" if "i < 6" for i :: nat
    using that by arith
  ultimately have "bar_sizes t' ! i = z (0x10 + 4 * of_nat i)" if "i < 6" for i
    using that by fastforce
  then have "\<forall>i < 6. \<forall>k. let a = pci_address (bus ?c) (slot ?c) (func_no ?c) (0x10 + 4 * of_nat i) in
      4 \<le> k \<and> k < 32 \<and> wmask a = NOT (mask k) \<and> cfg (device s) a AND mask k AND NOT (mask 4) = 0 \<longrightarrow>
      bar_sizes t' ! i = 2 ^ k"
    by (simp add: z_def Let_def bar_size_of_memory)
  moreover have "pci_get_memory_size mc p s = Inr s'"
    using assms(2,3) r(1) by (simp add: pci_get_memory_size_def)
  moreover have "bar_address t' = bar_address t" unfolding t' by simp
  ultimately show ?thesis using r(2,3) unfolding Let_def by blast
qed

definition sample_type_0 :: header_type_0 where
  "sample_type_0 = \<lparr> bar_address = replicate 6 0, bar_sizes = replicate 6 0, cardbus_cis_pointer = 0,
     subsystem_vendor_id_of_0 = 0, subsystem_id = 0, expansion_rom_address = 0, capabilities_pointer = 0,
     interrupt_line_of_0 = 0, interrupt_pin_of_0 = 0, min_grant = 0, max_latency = 0 \<rparr>"

definition probed_pci :: "(u32 \<times> (u32 \<Rightarrow> u32)) pci" where
  "probed_pci = sample_pci \<lparr> configs := (\<lambda>p. (configs sample_pci p) \<lparr> h_type := type_0 sample_type_0 \<rparr>) \<rparr>"

text \<open>A region of 16 KiB, as the sound driver expects it.\<close>

theorem pci_get_memory_size_measures_bars_witness:
  "\<exists>s t. pci_get_memory_size (sample_ports (\<lambda>_. NOT (mask 14))) 0x1000 probed_pci = Inr s \<and>
    h_type (configs s 0x1000) = type_0 t \<and> bar_sizes t ! 0 = 0x4000"
proof -
  have "h_type (configs probed_pci 0x1000) = type_0 sample_type_0"
    "header_type (configs probed_pci 0x1000) AND 0x7 = 0" "length (bar_sizes sample_type_0) = 6"
    "length (stack_bytes probed_pci) = BUFFER_LEN"
    by (simp_all add: probed_pci_def sample_pci_def sample_type_0_def garbage_def)
  from pci_get_memory_size_measures_bars [OF sample_config_mechanism this]
  obtain s t where
    s: "pci_get_memory_size (sample_ports (\<lambda>_. NOT (mask 14))) 0x1000 probed_pci = Inr s"
      "configs s 0x1000 = (configs probed_pci 0x1000) \<lparr> h_type := type_0 t \<rparr>"
    and b: "\<forall>i < 6. \<forall>k. let c = configs probed_pci 0x1000;
        a = pci_address (bus c) (slot c) (func_no c) (0x10 + 4 * of_nat i) in
      4 \<le> k \<and> k < 32 \<and> NOT (mask 14) = (NOT (mask k) :: u32) \<and>
        snd (device probed_pci) a AND mask k AND NOT (mask 4) = 0 \<longrightarrow> bar_sizes t ! i = 2 ^ k"
    by blast
  from b [rule_format, of 0 14] have "bar_sizes t ! 0 = 0x4000"
    by (simp add: Let_def probed_pci_def sample_pci_def sample_regs_def pci_address_def
        ENABLE_PCI_CONFIG_SPACE_def mask_eq_exp_minus_1)
  with s show ?thesis by auto
qed

end
