(* ===== verification/Hda.thy ===== *)
theory Hda
  imports Pci
begin

text \<open>
  \<open>arch/x86_64/sound/sound.c\<close> and \<open>hda.h\<close>: the driver of the Intel High Definition Audio controller.
  Registers, the command and response rings, the descriptor lists and the sample buffers are memory
  that the controller reads or writes too, so every access to them is an access of the device.
  Structures the driver allocates for itself (widgets, output paths, streams) live in heaps of
  records.  The property theory of the driver is \<open>Sound\<close>.
\<close>

section \<open>Registers and constants\<close>

text \<open>Byte offsets of the registers; the macros of \<open>hda.h\<close> divide them by the width of the access.\<close>

definition GCAP :: u64 where "GCAP = 0x0"
definition GCTL :: u64 where "GCTL = 0x8"
definition STATESTS :: u64 where "STATESTS = 0xE"
definition INTCTL :: u64 where "INTCTL = 0x20"
definition IMM_CMD :: u64 where "IMM_CMD = 0x60"
definition IMM_RESP :: u64 where "IMM_RESP = 0x64"
definition IRS :: u64 where "IRS = 0x68"

definition CORBSIZE :: u64 where "CORBSIZE = 0x4E"
definition CORBLBASE :: u64 where "CORBLBASE = 0x40"
definition CORBUBASE :: u64 where "CORBUBASE = 0x44"
definition CORBWP :: u64 where "CORBWP = 0x48"
definition CORBRP :: u64 where "CORBRP = 0x4A"
definition CORBCTL :: u64 where "CORBCTL = 0x4C"

definition RIRBSIZE :: u64 where "RIRBSIZE = 0x5E"
definition RIRBLBASE :: u64 where "RIRBLBASE = 0x50"
definition RIRBUBASE :: u64 where "RIRBUBASE = 0x54"
definition RINTCNT :: u64 where "RINTCNT = 0x5A"
definition RIRBWP :: u64 where "RIRBWP = 0x58"
definition RIRBCTL :: u64 where "RIRBCTL = 0x5C"
definition RIRBSTS :: u64 where "RIRBSTS = 0x5D"

definition DPLBASE :: u64 where "DPLBASE = 0x70"
definition DPUBASE :: u64 where "DPUBASE = 0x74"
definition SDCTL0 :: u64 where "SDCTL0 = 0x80"

definition HDBARL :: u8 where "HDBARL = 0x10"
definition HDBARU :: u8 where "HDBARU = 0x14"

definition HDA_MEM_LOC :: addr where "HDA_MEM_LOC = 0xFFFFFFFFF0000000"
definition HDA_RING_LOC :: addr where "HDA_RING_LOC = 0xFFFFFFFFF0006000"
definition HDA_DMA_LOC :: addr where "HDA_DMA_LOC = 0xFFFFFFFFF000A000"
definition HDA_STREAM_BASE :: addr where "HDA_STREAM_BASE = 0xFFFFFFFFF000C000"
definition HDA_STREAM_DATA_BASE :: addr where "HDA_STREAM_DATA_BASE = 0xFFFFFFFFF0200000"

definition AW_TYPE_OUT_CONV :: u8 where "AW_TYPE_OUT_CONV = 0x0"
definition AW_TYPE_PIN_COMPLEX :: u8 where "AW_TYPE_PIN_COMPLEX = 0x4"

definition CORB_ENT_SIZE :: u64 where "CORB_ENT_SIZE = 4"
definition CORB_DMA_RUN :: u8 where "CORB_DMA_RUN = 0x2"
definition RIRB_ENT_SIZE :: u64 where "RIRB_ENT_SIZE = 8"
definition RIRB_DMA_RUN :: u8 where "RIRB_DMA_RUN = 0x2"

definition PCI_CMD_MASTER :: u32 where "PCI_CMD_MASTER = 0x4"
definition PCI_CMD_MEMORY :: u32 where "PCI_CMD_MEMORY = 0x2"

section \<open>Data\<close>

record CORB =
  corb_base :: addr
  corb_size :: u64
  corb_entries :: u64

record RIRB_Response =
  response :: u32
  resp_ex :: u32

record RIRB =
  rirb_base :: addr
  rirb_size :: u64
  rirb_entries :: u64
  read_ptr :: u32

record pin_capabilities =
  high_bit_rate :: u8
  display_port :: u8
  eapd_capable :: u8
  vref_control :: u8
  hdmi :: u8
  balanced_io :: u8
  input_capable :: u8
  output_capable :: u8
  headphone_drive_cap :: u8
  presence_detectable :: u8
  trigger_required :: u8
  imped_sense_capable :: u8

record amp_capabilities =
  mute_capable :: u8
  step_size :: u8
  num_steps :: u8
  amp_offset :: u8

record connection_info =
  long_form :: u8
  conn_length :: u8
  lst_conn :: linked_list

record knob_capabilities =
  knob_delta :: u8
  knob_steps :: u8

record pin_config =
  port_connectivity :: u8
  location :: u8
  default_device :: u8
  connection_type :: u8
  color :: u8
  misc :: u8
  default_assoc :: u8
  sequence :: u8

record AudioWidget =
  aw_node :: u8
  aw_type :: u8
  aw_delay :: u8
  channel_count :: u8
  cp_caps :: u8
  lr_swap :: u8
  power_control :: u8
  aw_digital :: u8
  conn_list :: u8
  unsolicit_cap :: u8
  processing_widget :: u8
  stripe :: u8
  format_override :: u8
  amp_param_override :: u8
  out_amp_present :: u8
  in_amp_present :: u8
  pin_caps :: pin_capabilities
  in_amp_caps :: amp_capabilities
  out_amp_caps :: amp_capabilities
  conn_info :: connection_info
  volume_knob :: knob_capabilities
  default_config :: pin_config

text \<open>\<open>nodes_length\<close> and \<open>widgets\<close> are the fields of \<open>nodes\<close>; \<open>widgets\<close> is the address of an array.\<close>

record AudioFunctionGroup =
  afg_codec :: u8
  afg_node :: u8
  nodes_base :: u8
  nodes_length :: u8
  widgets :: addr
  lst_outputs :: linked_list

record Stream =
  number :: u8
  sample_base_rate :: u8
  sample_base_rate_multiple :: u8
  sample_base_rate_divisor :: u8
  bits_per_sample :: u8
  number_of_channels :: u8
  data_address :: u64
  data_phys_address :: u64
  data_length :: u64
  bdl_buffer_address :: u64
  bdl_buffer_phys_address :: u64
  bdl_buffer_length :: u64

text \<open>
  The static variables of \<open>sound.c\<close> and the heaps.  \<open>phys_loc_at\<close> is the address of the variable
  through which \<open>virt_map_page\<close> returns a physical address, \<open>hda_vectors\<close> are the interrupt vectors
  the driver's handler is installed for.
\<close>

record 'd hda = "'d pci" +
  hda_corb :: CORB
  hda_rirb :: RIRB
  hda_afg :: AudioFunctionGroup
  hda_lst_streams :: linked_list
  hda_dma_phys_loc :: u64
  hda_ring_phys_loc :: u64
  pci_hda_config :: addr
  codecs_available :: u16
  hda_num_output_streams :: u8
  hda_num_input_streams :: u8
  hda_stream_regs :: addr
  hda_widgets :: "addr \<Rightarrow> AudioWidget"
  hda_arrays :: "addr \<Rightarrow> addr"
  hda_paths :: "addr \<Rightarrow> linked_list"
  hda_streams :: "addr \<Rightarrow> Stream"
  phys_loc_at :: addr
  hda_vectors :: "u64 list"

section \<open>Accesses\<close>

definition peek8 :: "'d machine \<Rightarrow> addr \<Rightarrow> (('d, 'z) drivers_scheme, u8) call" where
  "peek8 mc a = from_device (load8 mc a)"

definition peek16 :: "'d machine \<Rightarrow> addr \<Rightarrow> (('d, 'z) drivers_scheme, u16) call" where
  "peek16 mc a = from_device (load16 mc a)"

definition peek32 :: "'d machine \<Rightarrow> addr \<Rightarrow> (('d, 'z) drivers_scheme, u32) call" where
  "peek32 mc a = from_device (load32 mc a)"

definition poke8 :: "'d machine \<Rightarrow> addr \<Rightarrow> u8 \<Rightarrow> ('d, 'z) drivers_scheme proc" where
  "poke8 mc a v = on_device (store8 mc a v)"

definition poke16 :: "'d machine \<Rightarrow> addr \<Rightarrow> u16 \<Rightarrow> ('d, 'z) drivers_scheme proc" where
  "poke16 mc a v = on_device (store16 mc a v)"

definition poke32 :: "'d machine \<Rightarrow> addr \<Rightarrow> u32 \<Rightarrow> ('d, 'z) drivers_scheme proc" where
  "poke32 mc a v = on_device (store32 mc a v)"

definition poke64 :: "'d machine \<Rightarrow> addr \<Rightarrow> u64 \<Rightarrow> ('d, 'z) drivers_scheme proc" where
  "poke64 mc a v = on_device (store64 mc a v)"

text \<open>The accesses of \<open>hda_ptr_8\<close>, \<open>hda_ptr_16\<close> and \<open>hda_ptr_32\<close>, and the updates in place.\<close>

abbreviation hda_reg :: "u64 \<Rightarrow> addr" where
  "hda_reg off \<equiv> HDA_MEM_LOC + off"

definition update8 :: "'d machine \<Rightarrow> addr \<Rightarrow> (u8 \<Rightarrow> u8) \<Rightarrow> ('d, 'z) drivers_scheme proc" where
  "update8 mc a f = bind (peek8 mc a) (\<lambda>v. poke8 mc a (f v))"

definition update16 :: "'d machine \<Rightarrow> addr \<Rightarrow> (u16 \<Rightarrow> u16) \<Rightarrow> ('d, 'z) drivers_scheme proc" where
  "update16 mc a f = bind (peek16 mc a) (\<lambda>v. poke16 mc a (f v))"

definition update32 :: "'d machine \<Rightarrow> addr \<Rightarrow> (u32 \<Rightarrow> u32) \<Rightarrow> ('d, 'z) drivers_scheme proc" where
  "update32 mc a f = bind (peek32 mc a) (\<lambda>v. poke32 mc a (f v))"

text \<open>A loop with an empty body: it reads until the condition is false.\<close>

partial_function (option) spin :: "('s, bool) call \<Rightarrow> 's \<Rightarrow> 's res option" where
  "spin again s =
     (case again s of
        Inl e \<Rightarrow> Some (Inl e)
      | Inr r \<Rightarrow> if fst r then spin again (snd r) else Some (Inr (snd r)))"

definition wait_while :: "('s, bool) call \<Rightarrow> 's proc" where
  "wait_while again s = and_then (returned_by (spin again s)) id"

abbreviation "wait8 mc a f \<equiv> wait_while (bind (peek8 mc a) (\<lambda>v. return (f v)))"
abbreviation "wait16 mc a f \<equiv> wait_while (bind (peek16 mc a) (\<lambda>v. return (f v)))"
abbreviation "wait32 mc a f \<equiv> wait_while (bind (peek32 mc a) (\<lambda>v. return (f v)))"

definition hda_alloc :: "u64 \<Rightarrow> (('d, 'z) drivers_scheme, addr) call" where
  "hda_alloc sz = bind (driver_alloc sz) (\<lambda>ptr. seq (assert_at ''sound.c'' 51 (ptr \<noteq> 0)) (return ptr))"

definition hda_free :: "u64 \<Rightarrow> 's proc" where
  "hda_free ptr = panic ''Tried to free an HDA element''"

text \<open>Insertion at the head of a list of the driver.\<close>

abbreviation "hda_push l dat \<equiv> insert_element hda_alloc l 0 dat"

section \<open>The command and response rings\<close>

definition hda_disable_corb_dma :: "'d machine \<Rightarrow> ('d, 'z) drivers_scheme proc" where
  "hda_disable_corb_dma mc =
     seq (update8 mc (hda_reg CORBCTL) (\<lambda>v. v AND NOT CORB_DMA_RUN))
       (wait8 mc (hda_reg CORBCTL) (\<lambda>v. v AND CORB_DMA_RUN \<noteq> 0))"

definition hda_enable_corb_dma :: "'d machine \<Rightarrow> ('d, 'z) drivers_scheme proc" where
  "hda_enable_corb_dma mc = update8 mc (hda_reg CORBCTL) (\<lambda>v. v OR CORB_DMA_RUN)"

definition hda_disable_rirb_dma :: "'d machine \<Rightarrow> ('d, 'z) drivers_scheme proc" where
  "hda_disable_rirb_dma mc =
     seq (update8 mc (hda_reg RIRBCTL) (\<lambda>v. v AND NOT RIRB_DMA_RUN))
       (wait8 mc (hda_reg RIRBCTL) (\<lambda>v. v AND RIRB_DMA_RUN \<noteq> 0))"

definition hda_enable_rirb_dma :: "'d machine \<Rightarrow> ('d, 'z) drivers_scheme proc" where
  "hda_enable_rirb_dma mc = update8 mc (hda_reg RIRBCTL) (\<lambda>v. v OR RIRB_DMA_RUN)"

definition hda_reset_controller :: "'d machine \<Rightarrow> ('d, 'z) hda_scheme proc" where
  "hda_reset_controller mc =
     seq (hda_disable_corb_dma mc) (
     seq (hda_disable_rirb_dma mc) (
     seq (update32 mc (hda_reg GCTL) (\<lambda>v. v AND NOT 0x1)) (
     seq (wait32 mc (hda_reg GCTL) (\<lambda>v. v AND 0x1 \<noteq> 0)) (
     seq (update32 mc (hda_reg GCTL) (\<lambda>v. v OR 0x1)) (
     seq (wait32 mc (hda_reg GCTL) (\<lambda>v. v AND 0x1 = 0)) (
     bind (peek16 mc (hda_reg STATESTS)) (\<lambda>v.
     seq (\<lambda>s. Inr (s \<lparr> codecs_available := v \<rparr>))
       (kprint ''Codecs available: 0b%b\<newline>'' [Num (ucast v)]))))))))"

definition ring_buffer_size :: "u16 \<Rightarrow> u16 \<Rightarrow> u16 \<Rightarrow> u16" where
  "ring_buffer_size readptr writeptr sz =
     (if readptr > writeptr then readptr - writeptr else sz - (writeptr - readptr))"

definition rirb_has_responses :: "'d machine \<Rightarrow> (('d, 'z) hda_scheme, bool) call" where
  "rirb_has_responses mc =
     bind (peek16 mc (hda_reg RIRBWP)) (\<lambda>wp s.
     let r = hda_rirb s in
     return (rirb_entries r - ucast (ring_buffer_size (ucast (read_ptr r)) wp (ucast (rirb_entries r))) > 0) s)"

definition rirb_read_response :: "'d machine \<Rightarrow> (('d, 'z) hda_scheme, RIRB_Response) call" where
  "rirb_read_response mc =
     bind (peek8 mc (hda_reg RIRBSTS)) (\<lambda>sts.
     seq (if sts AND 0x1 \<noteq> 0 then update8 mc (hda_reg RIRBSTS) (\<lambda>v. v OR 0x1) else skip) (\<lambda>s.
     let r = hda_rirb s in
     if rirb_entries r = 0 then Inl Divide_error
     else
       let rp = ucast (ucast (read_ptr r + 1) mod rirb_entries r) :: u32;
           base = rirb_base r + 8 * ucast rp
       in bind (peek32 mc base) (\<lambda>resp.
          bind (peek32 mc (base + 4)) (\<lambda>ex.
          seq (\<lambda>s. Inr (s \<lparr> hda_rirb := (hda_rirb s) \<lparr> read_ptr := rp \<rparr> \<rparr>))
            (return \<lparr> response = resp, resp_ex = ex \<rparr>))) s))"

text \<open>The number of entries of a ring, chosen from the sizes the controller supports.\<close>

definition ring_entries :: "u8 \<Rightarrow> u8 \<times> u32" where
  "ring_entries supported_size =
     (if supported_size AND 0x4 \<noteq> 0 then (0x2, 256)
      else if supported_size AND 0x2 \<noteq> 0 then (0x1, 16) else (0x0, 2))"

definition hda_setup_corb :: "'d machine \<Rightarrow> ('d, 'z) hda_scheme proc" where
  "hda_setup_corb mc =
     bind (peek8 mc (hda_reg CORBSIZE)) (\<lambda>sz.
     seq (kprint ''CORBSZ: 0x%x\<newline>'' [Num (ucast sz)]) (
     seq (hda_disable_corb_dma mc) (
     bind (peek8 mc (hda_reg CORBSIZE)) (\<lambda>sz.
     let (code, num_entries) = ring_entries (drop_bit 4 sz) in
     seq (poke8 mc (hda_reg CORBSIZE) code) (
     seq (kprint ''CORB SIZE: %u\<newline>'' [Num (ucast num_entries)]) (
     seq (\<lambda>s. Inr (s \<lparr> hda_corb := \<lparr> corb_base = HDA_RING_LOC, corb_size = ucast num_entries * CORB_ENT_SIZE,
            corb_entries = ucast num_entries \<rparr> \<rparr>)) (
     seq (\<lambda>s. poke32 mc (hda_reg CORBLBASE) (ucast (hda_ring_phys_loc s AND 0xFFFFFFFF)) s) (
     seq (\<lambda>s. poke32 mc (hda_reg CORBUBASE) (ucast (drop_bit 32 (hda_ring_phys_loc s) AND 0xFFFFFFFF)) s) (
     bind (peek32 mc (hda_reg CORBLBASE)) (\<lambda>lo.
     bind (peek32 mc (hda_reg CORBUBASE)) (\<lambda>up.
     seq (kprint ''CORBL: 0x%x\<newline>CORBU: 0x%x\<newline>'' [Num (ucast lo), Num (ucast up)]) (
     seq (update16 mc (hda_reg CORBRP) (\<lambda>v. v OR 0x8000)) (
     seq (wait16 mc (hda_reg CORBRP) (\<lambda>v. v AND 0x8000 = 0)) (
     seq (update16 mc (hda_reg CORBRP) (\<lambda>v. v AND NOT 0x8000)) (
     seq (wait16 mc (hda_reg CORBRP) (\<lambda>v. v AND 0x8000 \<noteq> 0))
       (poke16 mc (hda_reg CORBWP) 0))))))))))))))))"

definition hda_setup_rirb :: "'d machine \<Rightarrow> ('d, 'z) hda_scheme proc" where
  "hda_setup_rirb mc =
     bind (peek8 mc (hda_reg RIRBSIZE)) (\<lambda>sz.
     seq (kprint ''RIRBSZ: 0x%x\<newline>'' [Num (ucast sz)]) (
     seq (hda_disable_rirb_dma mc) (
     bind (peek8 mc (hda_reg RIRBSIZE)) (\<lambda>sz.
     let (code, num_entries) = ring_entries (drop_bit 4 sz) in
     seq (poke8 mc (hda_reg RIRBSIZE) code) (
     seq (kprint ''RIRB SIZE: %u\<newline>'' [Num (ucast num_entries)]) (
     seq (\<lambda>s. Inr (s \<lparr> hda_rirb := \<lparr> rirb_base = HDA_RING_LOC + 2048,
            rirb_size = ucast num_entries * RIRB_ENT_SIZE, rirb_entries = ucast num_entries, read_ptr = 0 \<rparr> \<rparr>)) (
     seq (\<lambda>s. poke32 mc (hda_reg RIRBLBASE) (ucast ((hda_ring_phys_loc s + 2048) AND 0xFFFFFFFF)) s) (
     seq (\<lambda>s. poke32 mc (hda_reg RIRBUBASE)
            (ucast (drop_bit 32 (hda_ring_phys_loc s + 2048) AND 0xFFFFFFFF)) s) (
     bind (peek32 mc (hda_reg RIRBLBASE)) (\<lambda>lo.
     bind (peek32 mc (hda_reg RIRBUBASE)) (\<lambda>up.
     seq (kprint ''RIRBL: 0x%x\<newline>RIRBU: 0x%x\<newline>'' [Num (ucast lo), Num (ucast up)]) (
     seq (kprint ''RIRB BASE: 0x%x\<newline>'' [Num (HDA_RING_LOC + 2048)]) (
     seq (poke16 mc (hda_reg RINTCNT) 1) (
     seq (update16 mc (hda_reg RIRBWP) (\<lambda>v. v OR 0x8000))
       (update8 mc (hda_reg RIRBCTL) (\<lambda>v. v OR 0x1))))))))))))))))"

definition corb_send_command :: "'d machine \<Rightarrow> u32 \<Rightarrow> ('d, 'z) hda_scheme proc" where
  "corb_send_command mc cmd = (\<lambda>s.
     let num_entries = corb_entries (hda_corb s) in
     bind (peek16 mc (hda_reg CORBWP)) (\<lambda>w.
     let corb_wp = w AND 0xFF;
         full = (\<lambda>r. ring_buffer_size (r AND 0xFF) corb_wp (ucast num_entries) < 1)
     in bind (peek16 mc (hda_reg CORBRP)) (\<lambda>r.
     seq (if full r then wait16 mc (hda_reg CORBRP) full else skip) (
     if num_entries = 0 then (\<lambda>s. Inl Divide_error)
     else
       let corb_wp = ucast (ucast (corb_wp + 1) mod num_entries) :: u16 in
       seq (\<lambda>s. poke32 mc (corb_base (hda_corb s) + 4 * ucast corb_wp) cmd s)
         (poke16 mc (hda_reg CORBWP) (corb_wp AND 0xFF))))) s)"

definition poll_command :: "'d machine \<Rightarrow> u32 \<Rightarrow> (('d, 'z) hda_scheme, RIRB_Response) call" where
  "poll_command mc verb =
     seq (corb_send_command mc verb) (
     seq (wait_while (bind (rirb_has_responses mc) (\<lambda>b. return (\<not> b))))
       (rirb_read_response mc))"

definition create_verb :: "u32 \<Rightarrow> u32 \<Rightarrow> u32 \<Rightarrow> u32 \<Rightarrow> u32 \<Rightarrow> u32" where
  "create_verb cad d nid verb dat =
     push_bit 28 cad OR push_bit 27 d OR push_bit 20 nid OR push_bit 8 verb OR (dat AND 0xFFFF)"

definition hda_send_immediate_command :: "'d machine \<Rightarrow> u32 \<Rightarrow> (('d, 'z) hda_scheme, u32) call" where
  "hda_send_immediate_command mc verb =
     seq (wait16 mc (hda_reg IRS) (\<lambda>v. v AND 0x1 \<noteq> 0)) (
     bind (peek16 mc (hda_reg IRS)) (\<lambda>v.
     seq (if v AND 0x2 \<noteq> 0 then update16 mc (hda_reg IRS) (\<lambda>v. v OR 0x2) else skip) (
     seq (poke32 mc (hda_reg IMM_CMD) verb) (
     bind (peek16 mc (hda_reg IRS)) (\<lambda>v.
     seq (kprint ''IRS 1: %u\<newline>'' [Num (ucast v)]) (
     seq (update16 mc (hda_reg IRS) (\<lambda>v. v OR 0x1)) (
     bind (peek16 mc (hda_reg IRS)) (\<lambda>v.
     seq (kprint ''IRS 2: %u\<newline>'' [Num (ucast v)]) (
     seq (wait16 mc (hda_reg IRS) (\<lambda>v. v AND 0x1 \<noteq> 0)) (
     seq (wait16 mc (hda_reg IRS) (\<lambda>v. v AND 0x2 = 0)) (
     bind (peek16 mc (hda_reg IRS)) (\<lambda>v.
     seq (kprint ''IRS 3: %u\<newline>'' [Num (ucast v)]) (
     bind (peek32 mc (hda_reg IMM_RESP)) (\<lambda>resp.
     seq (update16 mc (hda_reg IRS) (\<lambda>v. v OR 0x2)) (
     bind (peek16 mc (hda_reg IRS)) (\<lambda>v.
     seq (kprint ''IRS 4: %u\<newline>'' [Num (ucast v)])
       (return resp)))))))))))))))))"

definition hda_enable_interrupts :: "'d machine \<Rightarrow> ('d, 'z) hda_scheme proc" where
  "hda_enable_interrupts mc =
     seq (update32 mc (hda_reg INTCTL) (\<lambda>v. v OR (0x80000000 OR 0x40000000)))
       (update8 mc (hda_reg RIRBCTL) (\<lambda>v. v OR 0x1))"

section \<open>Reading a widget\<close>

text \<open>\<open>(info >> n) & m\<close>, stored in a byte.\<close>

definition bits :: "nat \<Rightarrow> u32 \<Rightarrow> u32 \<Rightarrow> u8" where
  "bits n m info = ucast (drop_bit n info AND m)"

definition decode_pin_caps :: "u32 \<Rightarrow> pin_capabilities" where
  "decode_pin_caps info =
     \<lparr> high_bit_rate = bits 27 0x1 info, display_port = bits 24 0x1 info, eapd_capable = bits 16 0x1 info,
       vref_control = bits 8 0xFF info, hdmi = bits 7 0x1 info, balanced_io = bits 6 0x1 info,
       input_capable = bits 5 0x1 info, output_capable = bits 4 0x1 info,
       headphone_drive_cap = bits 3 0x1 info, presence_detectable = bits 2 0x1 info,
       trigger_required = bits 1 0x1 info, imped_sense_capable = bits 0 0x1 info \<rparr>"

definition decode_amp_caps :: "u32 \<Rightarrow> amp_capabilities" where
  "decode_amp_caps info =
     \<lparr> mute_capable = bits 31 0x1 info, step_size = bits 16 0x7F info, num_steps = bits 8 0x7F info,
       amp_offset = bits 0 0x3F info \<rparr>"

definition decode_knob :: "u32 \<Rightarrow> knob_capabilities" where
  "decode_knob info = \<lparr> knob_delta = bits 7 0x1 info, knob_steps = bits 0 0x7F info \<rparr>"

definition decode_config :: "u32 \<Rightarrow> pin_config" where
  "decode_config info =
     \<lparr> port_connectivity = bits 30 0x3 info, location = bits 24 0x3F info, default_device = bits 20 0xF info,
       connection_type = bits 16 0xF info, color = bits 12 0xF info, misc = bits 8 0xF info,
       default_assoc = bits 4 0xF info, sequence = bits 0 0xF info \<rparr>"

definition decode_widget ::
  "u8 \<Rightarrow> u32 \<Rightarrow> pin_capabilities \<Rightarrow> amp_capabilities \<Rightarrow> amp_capabilities \<Rightarrow> connection_info \<Rightarrow>
    knob_capabilities \<Rightarrow> pin_config \<Rightarrow> AudioWidget" where
  "decode_widget widget info pins iamp oamp conn knob config =
     \<lparr> aw_node = widget, aw_type = bits 20 0xF info, aw_delay = bits 16 0xF info,
       channel_count = ucast ((push_bit 1 (drop_bit 13 info AND 0x7) OR (info AND 0x1)) + 1),
       cp_caps = bits 12 0x1 info, lr_swap = bits 11 0x1 info, power_control = bits 10 0x1 info,
       aw_digital = bits 9 0x1 info, conn_list = bits 8 0x1 info, unsolicit_cap = bits 7 0x1 info,
       processing_widget = bits 6 0x1 info, stripe = bits 5 0x1 info, format_override = bits 4 0x1 info,
       amp_param_override = bits 3 0x1 info, out_amp_present = bits 2 0x1 info,
       in_amp_present = bits 1 0x1 info, pin_caps = pins, in_amp_caps = iamp, out_amp_caps = oamp,
       conn_info = conn, volume_knob = knob, default_config = config \<rparr>"

definition widget_types :: "string list" where
  "widget_types = [
     ''Audio Output'', ''Audio Input'', ''Audio Mixer'', ''Audio Selector'',
     ''Pin Complex'', ''Power Widget'', ''Volume Knob Widget'', ''Beep Generator'',
     ''Reserved'', ''Reserved'', ''Reserved'', ''Reserved'', ''Reserved'', ''Reserved'',
     ''Reserved'', ''Vendor Defined'']"

definition device_types :: "string list" where
  "device_types = [
     ''Line Out'', ''Speaker'', ''HP Out'', ''CD'',
     ''SPDIF Out'', ''Digital Other Out'', ''Modem Line Side'',
     ''Modem Handset Side'', ''Line In'', ''AUX'', ''Mic In'',
     ''Telephony'', ''SPDIF In'', ''Digital Other In'', ''Reserved'',
     ''Other'']"

text \<open>A verb to the widget's node, its response printed behind a title.\<close>

definition ask_widget ::
  "'d machine \<Rightarrow> string \<Rightarrow> u8 \<Rightarrow> u8 \<Rightarrow> u32 \<Rightarrow> u32 \<Rightarrow> (('d, 'z) hda_scheme, u32) call" where
  "ask_widget mc title codec widget verb dat =
     bind (poll_command mc (create_verb (ucast codec) 0 (ucast widget) verb dat)) (\<lambda>resp.
     seq (kprint title [Num (ucast widget), Num (ucast (response resp)), Num (ucast (resp_ex resp))])
       (return (response resp)))"

text \<open>
  The connection list comes in words of four short or two long entries; \<open>count\<close> entries of the
  word are used, fewer when the list ends.
\<close>

fun push_connections ::
  "nat \<Rightarrow> u32 \<Rightarrow> nat \<Rightarrow> u32 \<Rightarrow> linked_list \<Rightarrow> (('d, 'z) drivers_scheme, linked_list) call" where
  "push_connections 0 info_mask shift info lst = return lst"
| "push_connections (Suc count) info_mask shift info lst =
     (let dat = ucast (info AND info_mask) :: u64 in
      seq (kprint '' %u\<newline>'' [Num dat]) (
      bind (hda_push lst dat) (\<lambda>lst.
      push_connections count info_mask shift (drop_bit shift info) lst)))"

function read_connections ::
  "'d machine \<Rightarrow> u8 \<Rightarrow> u8 \<Rightarrow> bool \<Rightarrow> nat \<Rightarrow> nat \<Rightarrow> linked_list \<Rightarrow> (('d, 'z) hda_scheme, linked_list) call" where
  "read_connections mc codec widget long len n lst =
     (if n < len
      then bind (poll_command mc (create_verb (ucast codec) 0 (ucast widget) 0xF02 (of_nat n))) (\<lambda>resp.
        let count = min (if long then 2 else 4) (len - n) in
        bind (if long then push_connections count 0xFFFF 16 (response resp) lst
              else push_connections count 0xFF 8 (response resp) lst) (\<lambda>lst.
        read_connections mc codec widget long len (n + min (if long then 2 else 4) (len - n)) lst))
      else return lst)"
  by pat_completeness auto
termination by (relation "measure (\<lambda>(mc, codec, widget, long, len, n, lst). len - n)") auto

declare read_connections.simps [simp del]

definition sizeof_AudioWidget :: u64 where "sizeof_AudioWidget = 104"
definition sizeof_AudioOutputPath :: u64 where "sizeof_AudioOutputPath = 40"
definition sizeof_Stream :: u64 where "sizeof_Stream = 56"

definition read_audio_widget :: "'d machine \<Rightarrow> u8 \<Rightarrow> u8 \<Rightarrow> (('d, 'z) hda_scheme, addr) call" where
  "read_audio_widget mc codec widget =
     bind (ask_widget mc ''\<newline>Audio Widget CAP: %d - 0x%x - 0x%x\<newline>'' codec widget 0xF00 9) (\<lambda>caps.
     bind (hda_alloc sizeof_AudioWidget) (\<lambda>aw.
     seq (kprint ''Type: %s\<newline>'' [Str (map of_char (widget_types ! unat (bits 20 0xF caps)))]) (
     bind (ask_widget mc ''Audio Widget PCAP: %d - 0x%x - 0x%x\<newline>'' codec widget 0xF00 0xC) (\<lambda>pcap.
     bind (ask_widget mc ''Audio Widget ICAP: %d - 0x%x - 0x%x\<newline>'' codec widget 0xF00 0xD) (\<lambda>icap.
     bind (ask_widget mc ''Audio Widget OCAP: %d - 0x%x - 0x%x\<newline>'' codec widget 0xF00 0x12) (\<lambda>ocap.
     bind (ask_widget mc ''Audio Widget CLST: %d - 0x%x - 0x%x\<newline>'' codec widget 0xF00 0xE) (\<lambda>clst.
     let long = bits 7 0x1 clst; len = bits 0 0x7F clst in
     seq (if len > 0 then kprint ''Conn List:\<newline>'' [] else skip) (
     bind (read_connections mc codec widget (long \<noteq> 0) (unat len) 0 list_init) (\<lambda>lst.
     bind (ask_widget mc ''Audio Widget VOLK: %d - 0x%x - 0x%x\<newline>'' codec widget 0xF00 0x13) (\<lambda>volk.
     bind (ask_widget mc ''Audio Widget DEFC: %d - 0x%x - 0x%x\<newline>'' codec widget 0xF1C 0) (\<lambda>defc.
     seq (kprint ''Device Type: %s\<newline>'' [Str (map of_char (device_types ! unat (bits 20 0xF defc)))]) (
     seq (\<lambda>s. Inr (s \<lparr> hda_widgets := (hda_widgets s)(aw := decode_widget widget caps (decode_pin_caps pcap)
            (decode_amp_caps icap) (decode_amp_caps ocap)
            \<lparr> long_form = long, conn_length = len, lst_conn = lst \<rparr> (decode_knob volk) (decode_config defc)) \<rparr>))
       (return aw)))))))))))))"

section \<open>Paths from pins to converters\<close>

text \<open>\<open>afg->nodes.widgets[i]\<close>.\<close>

definition widget_at :: "('d, 'z) hda_scheme \<Rightarrow> nat \<Rightarrow> addr" where
  "widget_at s i = hda_arrays s (widgets (hda_afg s) + 8 * of_nat i)"

definition find_widget :: "('d, 'z) hda_scheme \<Rightarrow> u32 \<Rightarrow> addr" where
  "find_widget s widget =
     (case List.find (\<lambda>p. ucast (aw_node (hda_widgets s p)) = widget)
        (map (widget_at s) [0..<unat (nodes_length (hda_afg s))]) of
        None \<Rightarrow> 0 | Some aw \<Rightarrow> aw)"

text \<open>
  The recursion and its loop in one function: \<open>at = None\<close> enters a widget, \<open>at = Some node\<close> is the
  head of the loop over its connections.  The result is the one returned, and the path.
\<close>

partial_function (option) hda_dfs ::
  "addr option \<Rightarrow> addr \<Rightarrow> linked_list \<Rightarrow> ('d, 'z) hda_scheme \<Rightarrow>
    ((bool \<times> linked_list) \<times> ('d, 'z) hda_scheme) res option" where
  "hda_dfs at aw way s =
     (case at of
        None \<Rightarrow>
          (if aw_type (hda_widgets s aw) = AW_TYPE_OUT_CONV
           then Some (bind (hda_push way aw) (\<lambda>way. return (True, way)) s)
           else if conn_length (conn_info (hda_widgets s aw)) > 0
           then hda_dfs (Some (list_head (lst_conn (conn_info (hda_widgets s aw))))) aw way s
           else Some (Inr ((False, way), s)))
      | Some node \<Rightarrow>
          (if node = 0 then Some (Inr ((False, way), s))
           else
             let aw_next = find_widget s (ucast (list_data (list_nodes s node))) in
             if aw_next = 0 then Some (Inl (Assert_failed ''sound.c'' 728))
             else Option.bind (hda_dfs None aw_next way s) (\<lambda>r.
               case r of
                 Inl e \<Rightarrow> Some (Inl e)
               | Inr ((found, way), s) \<Rightarrow>
                   if found then Some (bind (hda_push way aw) (\<lambda>way. return (True, way)) s)
                   else hda_dfs (Some (list_next (list_nodes s node))) aw way s)))"

definition setup_pin :: "addr \<Rightarrow> ('d, 'z) hda_scheme proc" where
  "setup_pin aw s =
     and_then (returned_by (hda_dfs None aw list_init s)) (\<lambda>r. and_then r (\<lambda>((found, way), s).
       if \<not> found then Inr s
       else
         seq (kprint ''Path\<newline>'' []) (
         seq (\<lambda>s. and_then (returned_by (each_node
                (\<lambda>aw s. kprint '' %u\<newline>'' [Num (ucast (aw_node (hda_widgets s aw)))] s)
                (list_nodes s) (list_head way) s)) id) (
         bind (hda_alloc sizeof_AudioOutputPath) (\<lambda>aop.
         seq (\<lambda>s. Inr (s \<lparr> hda_paths := (hda_paths s)(aop := way) \<rparr>)) (\<lambda>s.
         bind (hda_push (lst_outputs (hda_afg s)) aop) (\<lambda>l s.
           Inr (s \<lparr> hda_afg := (hda_afg s) \<lparr> lst_outputs := l \<rparr> \<rparr>)) s)))) s))"

definition hda_setup_connections :: "('d, 'z) hda_scheme proc" where
  "hda_setup_connections s =
     for_each [0..<unat (nodes_length (hda_afg s))] (\<lambda>i s.
       seq (kprint ''Num widgets: %u\<newline>'' [Num (ucast (nodes_length (hda_afg s)))]) (
       seq (kprint ''Trying: %u\<newline>'' [Num (ucast (aw_node (hda_widgets s (widget_at s i))))])
         (if aw_type (hda_widgets s (widget_at s i)) = AW_TYPE_PIN_COMPLEX
          then setup_pin (widget_at s i) else skip)) s) s"

section \<open>Enumerating the codecs\<close>

definition set_afg :: "(AudioFunctionGroup \<Rightarrow> AudioFunctionGroup) \<Rightarrow> ('d, 'z) hda_scheme proc" where
  "set_afg f s = Inr (s \<lparr> hda_afg := f (hda_afg s) \<rparr>)"

text \<open>The audio function group at \<open>start_node\<close> of the codec \<open>cad\<close>: all its widgets are read.\<close>

definition read_function_group :: "'d machine \<Rightarrow> u8 \<Rightarrow> u8 \<Rightarrow> ('d, 'z) hda_scheme proc" where
  "read_function_group mc cad start_node =
     seq (set_afg (\<lambda>g. g \<lparr> afg_codec := cad, afg_node := start_node, lst_outputs := list_init \<rparr>)) (
     bind (poll_command mc (create_verb (ucast cad) 0 (ucast start_node) 0xF00 8)) (\<lambda>resp.
     seq (kprint ''AFG Caps: 0x%x - 0x%x\<newline>'' [Num (ucast (response resp)), Num (ucast (resp_ex resp))]) (
     bind (poll_command mc (create_verb (ucast cad) 0 (ucast start_node) 0xF00 4)) (\<lambda>resp.
     seq (kprint ''Sub nodes: 0x%x - 0x%x\<newline>'' [Num (ucast (response resp)), Num (ucast (resp_ex resp))]) (
     let widget_total = bits 0 0xFF (response resp); widget_start = bits 16 0xFF (response resp) in
     seq (set_afg (\<lambda>g. g \<lparr> nodes_base := widget_start, nodes_length := widget_total \<rparr>)) (
     bind (hda_alloc (ucast widget_total * 8)) (\<lambda>array.
     seq (set_afg (\<lambda>g. g \<lparr> widgets := array \<rparr>)) (
     seq (kprint ''AFG sub nodes: %u\<newline>'' [Num (ucast widget_total)])
       (for_each [0..<unat widget_total] (\<lambda>j.
          bind (read_audio_widget mc cad (widget_start + of_nat j)) (\<lambda>aw s.
            Inr (s \<lparr> hda_arrays := (hda_arrays s)(array + 8 * of_nat j := aw) \<rparr>))))))))))))"

text \<open>The nodes of a codec, up to the first function group: whether there was one.\<close>

fun search_codec :: "'d machine \<Rightarrow> u8 \<Rightarrow> nat \<Rightarrow> u8 \<Rightarrow> (('d, 'z) hda_scheme, bool) call" where
  "search_codec mc cad 0 start_node = return False"
| "search_codec mc cad (Suc total_nodes) start_node =
     bind (poll_command mc (create_verb (ucast cad) 0 (ucast start_node) 0xF00 5)) (\<lambda>resp.
     seq (kprint ''Function Type: 0x%x - 0x%x\<newline>'' [Num (ucast (response resp)), Num (ucast (resp_ex resp))]) (
     if response resp = 0x1
     then seq (read_function_group mc cad start_node) (return True)
     else search_codec mc cad total_nodes (start_node + 1)))"

text \<open>
  The loop over the addresses; \<open>cad\<close> is a variable of its own beside the index.  (A shift of
  \<open>cad\<close> beyond 31 bits wraps, as the compiler documents.)
\<close>

fun enumerate_from :: "'d machine \<Rightarrow> nat list \<Rightarrow> u8 \<Rightarrow> ('d, 'z) hda_scheme proc" where
  "enumerate_from mc [] cad = skip"
| "enumerate_from mc (i # is) cad = (\<lambda>s.
     if \<not> bit (codecs_available s) i then enumerate_from mc is (cad + 1) s
     else
       bind (poll_command mc (push_bit 28 (ucast cad) OR 0xF0000)) (\<lambda>resp.
       seq (kprint ''Response: 0x%x - 0x%x\<newline>'' [Num (ucast (response resp)), Num (ucast (resp_ex resp))]) (
       bind (poll_command mc (push_bit 28 (ucast cad) OR 0xF0004)) (\<lambda>resp.
       seq (kprint ''Response: 0x%x - 0x%x\<newline>'' [Num (ucast (response resp)), Num (ucast (resp_ex resp))]) (
       let total_nodes = bits 0 0xFF (response resp); start_node = bits 16 0xFF (response resp) in
       seq (kprint ''Sub nodes: %u\<newline>'' [Num (ucast total_nodes)]) (
       bind (search_codec mc cad (unat total_nodes) start_node) (\<lambda>found.
       enumerate_from mc is ((if found then 8 else cad) + 1))))))) s)"

definition hda_enumerate_codecs :: "'d machine \<Rightarrow> ('d, 'z) hda_scheme proc" where
  "hda_enumerate_codecs mc = (\<lambda>s.
     seq (kprint ''DMA LOC: 0x%x\<newline>'' [Num (hda_dma_phys_loc s)]) (
     seq (poke32 mc (hda_reg DPLBASE) (ucast ((hda_dma_phys_loc s AND 0xFFFFFFFF) OR 0x1))) (
     seq (poke32 mc (hda_reg DPUBASE) (ucast (drop_bit 32 (hda_dma_phys_loc s) AND 0xFFFFFFFF))) (
     seq (hda_enable_corb_dma mc) (
     seq (hda_enable_rirb_dma mc) (
     seq (enumerate_from mc [0..<8] 0) hda_setup_connections))))) s)"

text \<open>The handler halts the processor.\<close>

definition hda_interrupt_handler :: "u64 \<Rightarrow> u64 \<Rightarrow> ('d, 'z) drivers_scheme proc" where
  "hda_interrupt_handler vector error =
     seq (kprint ''GOT HDA INTERRUPT!\<newline>'' []) (\<lambda>s. Inl Hang)"

section \<open>Streams\<close>

text \<open>\<open>virt_map_page\<close> in the kernel's tables; the physical address comes back through a variable.\<close>

definition map_new_page :: "addr \<Rightarrow> u64 \<Rightarrow> u64 \<Rightarrow> (('d, 'z) hda_scheme, u64) call" where
  "map_new_page va flags sz s =
     and_then (virt_map_page (memory s) (kernel_tables s) va flags sz (phys_loc_at s)) (\<lambda>(r, m).
     Inr (pmem m (phys_loc_at s), s \<lparr> memory := m \<rparr>))"

definition setup_stream :: "nat \<Rightarrow> u64 \<Rightarrow> u64 \<Rightarrow> (('d, 'z) hda_scheme, u64 \<times> u64) call" where
  "setup_stream i stream_bdl_addr stream_data_addr =
     bind (map_new_page stream_data_addr (PG_FLAG_RW OR PG_FLAG_PCD OR PG_FLAG_PWT) PAGE_LARGE) (\<lambda>data_phys.
     let stream_data_addr = stream_data_addr + PAGE_LARGE_SIZE in
     bind (hda_alloc sizeof_Stream) (\<lambda>stream.
     bind (map_new_page stream_bdl_addr (PG_FLAG_RW OR PG_FLAG_PCD OR PG_FLAG_PWT) PAGE_SMALL) (\<lambda>bdl_phys.
     let stream_bdl_addr = stream_bdl_addr + PAGE_SMALL_SIZE in
     seq (\<lambda>s. Inr (s \<lparr> hda_streams := (hda_streams s)(stream := (hda_streams s stream)
       \<lparr> number := of_nat i,
         data_address := stream_data_addr, data_phys_address := data_phys, data_length := PAGE_LARGE_SIZE,
         bdl_buffer_address := stream_bdl_addr, bdl_buffer_phys_address := bdl_phys,
         bdl_buffer_length := PAGE_SMALL_SIZE \<rparr>) \<rparr>)) (\<lambda>s.
     bind (hda_push (hda_lst_streams s) stream) (\<lambda>l s.
       Inr ((stream_bdl_addr, stream_data_addr), s \<lparr> hda_lst_streams := l \<rparr>)) s))))"

fun setup_streams_from :: "nat list \<Rightarrow> u64 \<Rightarrow> u64 \<Rightarrow> ('d, 'z) hda_scheme proc" where
  "setup_streams_from [] stream_bdl_addr stream_data_addr = skip"
| "setup_streams_from (i # is) stream_bdl_addr stream_data_addr =
     bind (setup_stream i stream_bdl_addr stream_data_addr) (\<lambda>(bdl, dat). setup_streams_from is bdl dat)"

definition hda_setup_streams :: "'d machine \<Rightarrow> ('d, 'z) hda_scheme proc" where
  "hda_setup_streams mc =
     bind (peek16 mc (hda_reg GCAP)) (\<lambda>gcap.
     let outs = ucast (drop_bit 12 gcap AND 0xF) :: u8; ins = ucast (drop_bit 8 gcap AND 0xF) :: u8 in
     seq (\<lambda>s. Inr (s \<lparr> hda_num_output_streams := outs, hda_num_input_streams := ins,
            hda_stream_regs := HDA_MEM_LOC + SDCTL0 \<rparr>)) (
     seq (assert_at ''sound.c'' 923 (outs \<ge> 1)) (
     seq (kprint ''Supports: %u output streams %u input streams\<newline>'' [Num (ucast outs), Num (ucast ins)]) (
     seq (kprint ''Supports 64-bit addressing: %u\<newline>'' [Num (ucast (gcap AND 0x1))]) (
     seq (\<lambda>s. Inr (s \<lparr> hda_lst_streams := list_init \<rparr>))
       (setup_streams_from [0..<unat outs] HDA_STREAM_BASE HDA_STREAM_DATA_BASE))))))"

definition stream_get_format :: "Stream \<Rightarrow> u16" where
  "stream_get_format st =
     push_bit 14 (ucast (sample_base_rate st AND 0x1)) OR
     push_bit 11 (ucast (sample_base_rate_multiple st AND 0x7)) OR
     push_bit 8 (ucast (sample_base_rate_divisor st AND 0x7)) OR
     push_bit 4 (ucast (bits_per_sample st AND 0x7)) OR
     ucast (number_of_channels st AND 0xF)"

text \<open>The address of the registers of a stream, and the offsets in them.\<close>

definition stream_get_sreg :: "('d, 'z) hda_scheme \<Rightarrow> Stream \<Rightarrow> bool \<Rightarrow> addr" where
  "stream_get_sreg s st outp =
     hda_stream_regs s + 0x20 * (if outp then ucast (number st) + ucast (hda_num_input_streams s)
                                 else ucast (number st))"

definition SDCTL_STS :: u64 where "SDCTL_STS = 0x0"
definition SDCBL :: u64 where "SDCBL = 0x8"
definition SDLVI :: u64 where "SDLVI = 0xC"
definition SDFMT :: u64 where "SDFMT = 0x12"
definition SDBDP :: u64 where "SDBDP = 0x18"

definition stream_enable :: "'d machine \<Rightarrow> Stream \<Rightarrow> bool \<Rightarrow> ('d, 'z) hda_scheme proc" where
  "stream_enable mc st outp = (\<lambda>s.
     let r = stream_get_sreg s st outp in
     seq (update8 mc (r + SDCTL_STS) (\<lambda>v. v OR 0x2)) (wait8 mc (r + SDCTL_STS) (\<lambda>v. v AND 0x2 = 0)) s)"

definition stream_disable :: "'d machine \<Rightarrow> Stream \<Rightarrow> bool \<Rightarrow> ('d, 'z) hda_scheme proc" where
  "stream_disable mc st outp = (\<lambda>s.
     let r = stream_get_sreg s st outp in
     seq (update8 mc (r + SDCTL_STS) (\<lambda>v. v AND NOT 0x2)) (wait8 mc (r + SDCTL_STS) (\<lambda>v. v AND 0x2 \<noteq> 0)) s)"

definition set_stream_number :: "'d machine \<Rightarrow> addr \<Rightarrow> Stream \<Rightarrow> ('d, 'z) hda_scheme proc" where
  "set_stream_number mc r st =
     seq (update8 mc (r + SDCTL_STS + 2) (\<lambda>v. v AND 0xF))
       (update8 mc (r + SDCTL_STS + 2) (\<lambda>v. v OR push_bit 4 ((number st + 1) AND 0xF)))"

definition configure_stream :: "'d machine \<Rightarrow> Stream \<Rightarrow> bool \<Rightarrow> ('d, 'z) hda_scheme proc" where
  "configure_stream mc st outp = (\<lambda>s.
     let r = stream_get_sreg s st outp in
     seq (set_stream_number mc r st) (
     seq (update8 mc (r + SDCTL_STS) (\<lambda>v. v OR 1)) (
     seq (kprint ''\<newline>\<newline>\<newline>SREG: 0x%x\<newline>'' [Num r]) (
     seq (for_each [0..<8] (\<lambda>i. bind (peek32 mc (HDA_MEM_LOC + 0x80 + of_nat i * 0x20)) (\<lambda>v.
            kprint ''REG: 0x%x\<newline>'' [Num (ucast v)]))) (
     seq (stream_disable mc st outp) (
     seq (update32 mc (r + SDCTL_STS) (\<lambda>v. v OR 0x1)) (
     bind (peek32 mc (r + SDCTL_STS)) (\<lambda>v.
     seq (kprint ''Status1: 0x%x\<newline>'' [Num (ucast v)]) (
     seq (wait32 mc (r + SDCTL_STS) (\<lambda>v. v AND 0x1 = 0)) (
     bind (peek32 mc (r + SDCTL_STS)) (\<lambda>v.
     seq (kprint ''Status2: 0x%x\<newline>'' [Num (ucast v)]) (
     seq (update32 mc (r + SDCTL_STS) (\<lambda>v. v AND NOT 0x1)) (
     seq (wait32 mc (r + SDCTL_STS) (\<lambda>v. v AND 0x1 \<noteq> 0)) (
     seq (set_stream_number mc r st) (
     seq (update8 mc (r + SDCTL_STS + 2) (\<lambda>v. v OR 0x4)) (
     seq (poke32 mc (r + SDCBL) (ucast (bdl_buffer_length st))) (
     seq (poke16 mc (r + SDFMT) (stream_get_format st))
       (poke64 mc (r + SDBDP) (bdl_buffer_phys_address st)))))))))))))))))) s)"

section \<open>Playing a sound\<close>

text \<open>\<open>music.h\<close>.\<close>

definition small_wav :: "u8 list" where "small_wav = [0]"
definition small_wav_len :: u32 where "small_wav_len = 1"

text \<open>A verb to a widget of the function group.\<close>

definition tell_widget :: "'d machine \<Rightarrow> u8 \<Rightarrow> u32 \<Rightarrow> u32 \<Rightarrow> (('d, 'z) hda_scheme, u32) call" where
  "tell_widget mc node verb dat = (\<lambda>s.
     bind (poll_command mc (create_verb (ucast (afg_codec (hda_afg s))) 0 (ucast node) verb dat))
       (\<lambda>resp. return (response resp)) s)"

definition unmute_output :: "'d machine \<Rightarrow> AudioWidget \<Rightarrow> ('d, 'z) hda_scheme proc" where
  "unmute_output mc aw =
     (let get = push_bit 15 1 OR push_bit 13 1; dat = push_bit 15 0x1 OR push_bit 12 0x3 OR 0xA in
      bind (tell_widget mc (aw_node aw) 0xB00 get) (\<lambda>resp.
      seq (kprint ''Getting amp: 0x%x\<newline>'' [Num (ucast resp)]) (
      seq (kprint ''Setting amp: %u\<newline>'' [Num (ucast (aw_node aw))]) (
      seq (kprint ''Steps: %u - Size: %u\<newline>''
             [Num (ucast (num_steps (out_amp_caps aw))), Num (ucast (step_size (out_amp_caps aw)))]) (
      bind (tell_widget mc (aw_node aw) 0x300 dat) (\<lambda>resp.
      bind (tell_widget mc (aw_node aw) 0xB00 get) (\<lambda>resp.
      kprint ''After Set: 0x%x\<newline>'' [Num (ucast resp)])))))))"

definition enable_pin :: "'d machine \<Rightarrow> AudioWidget \<Rightarrow> ('d, 'z) hda_scheme proc" where
  "enable_pin mc aw =
     seq (kprint ''Test Pin Complex\<newline>'' []) (
     seq (assert_at ''sound.c'' 1106 (output_capable (pin_caps aw) \<noteq> 0)) (
     bind (tell_widget mc (aw_node aw) 0xF07 0) (\<lambda>resp.
     seq (kprint ''Response: 0x%x\<newline>'' [Num (ucast resp)]) (
     bind (tell_widget mc (aw_node aw) 0x707 ((resp OR 0x40) AND 0xFF)) (\<lambda>resp. skip)))))"

text \<open>The samples: each byte becomes two.\<close>

definition write_music :: "'d machine \<Rightarrow> addr \<Rightarrow> ('d, 'z) drivers_scheme proc" where
  "write_music mc music =
     for_each [0..<unat small_wav_len] (\<lambda>i.
       seq (poke8 mc (music + 2 * of_nat i) 0)
         (poke8 mc (music + 2 * of_nat i + 1) (small_wav ! i)))"

definition copy_bdl :: "'d machine \<Rightarrow> addr \<Rightarrow> addr \<Rightarrow> ('d, 'z) drivers_scheme proc" where
  "copy_bdl mc dst src =
     for_each [0, 4, 8, 12] (\<lambda>off. bind (peek32 mc (src + off)) (\<lambda>v. poke32 mc (dst + off) v))"

definition setup_converter :: "'d machine \<Rightarrow> AudioWidget \<Rightarrow> ('d, 'z) hda_scheme proc" where
  "setup_converter mc aw = (\<lambda>s.
     seq (assert_at ''sound.c'' 1120 (0 <s list_size (hda_lst_streams s))) (
     let p = list_data (list_nodes s (list_tail (hda_lst_streams s))) in
     seq (kprint ''Setting output converter - Stream %u\<newline>'' [Num (ucast (number (hda_streams s p)))]) (
     bind (tell_widget mc (aw_node aw) 0xF06 0) (\<lambda>resp.
     bind (tell_widget mc (aw_node aw) 0x72D 0) (\<lambda>resp.
     bind (tell_widget mc (aw_node aw) 0x706 (ucast (push_bit 4 (number (hda_streams s p) + 1)))) (\<lambda>resp.
     seq (\<lambda>s. Inr (s \<lparr> hda_streams := (hda_streams s)(p := (hda_streams s p)
            \<lparr> sample_base_rate := 0, sample_base_rate_multiple := 0, sample_base_rate_divisor := 0x3,
              bits_per_sample := 8, number_of_channels := 0 \<rparr>) \<rparr>)) (
     seq (\<lambda>s. configure_stream mc (hda_streams s p) True s) (
     bind (\<lambda>s. tell_widget mc (aw_node aw) 0x200 (ucast (stream_get_format (hda_streams s p))) s) (\<lambda>resp s.
     let st = hda_streams s p; bdl = bdl_buffer_address st in
     seq (poke64 mc bdl (data_phys_address st)) (
     seq (poke32 mc (bdl + 8) small_wav_len) (
     seq (poke16 mc (stream_get_sreg s st True + SDLVI) 1) (
     seq (write_music mc (data_address st))
       (copy_bdl mc (bdl + 16) bdl)))) s)))))))) s)"

definition setup_output :: "'d machine \<Rightarrow> addr \<Rightarrow> ('d, 'z) hda_scheme proc" where
  "setup_output mc p = (\<lambda>s.
     let aw = hda_widgets s p in
     seq (if out_amp_present aw \<noteq> 0 then unmute_output mc aw else skip)
       (if aw_type aw = AW_TYPE_PIN_COMPLEX then enable_pin mc aw
        else if aw_type aw = AW_TYPE_OUT_CONV then setup_converter mc aw else skip) s)"

text \<open>\<open>list_data(list_next(list_head(list)))\<close>: the second element; either access may go through NULL.\<close>

definition second_element :: "linked_list \<Rightarrow> nodes \<Rightarrow> u64 res" where
  "second_element l h =
     (if list_head l = 0 then Inl (Page_fault 8)
      else if list_next (h (list_head l)) = 0 then Inl (Page_fault 0)
      else Inr (list_data (h (list_next (h (list_head l))))))"

definition hda_test_sound :: "'d machine \<Rightarrow> ('d, 'z) hda_scheme proc" where
  "hda_test_sound mc = (\<lambda>s.
     let outputs = lst_outputs (hda_afg s) in
     seq (assert_at ''sound.c'' 1066 (0 <s list_size outputs)) (
     seq (kprint ''Paths: %u\<newline>'' [Num (ucast (list_size outputs))]) (
     bind (\<lambda>s. and_then (second_element outputs (list_nodes s)) (\<lambda>aop. Inr (aop, s))) (\<lambda>aop.
     seq (\<lambda>s. assert_at ''sound.c'' 1071 (0 <s list_size (hda_paths s aop)) s) (
     seq (\<lambda>s. and_then (returned_by (each_node (setup_output mc) (list_nodes s)
            (list_head (hda_paths s aop)) s)) id) (\<lambda>s.
     if list_tail (hda_lst_streams s) = 0 then Inl (Page_fault 0)
     else
       let st = hda_streams s (list_data (list_nodes s (list_tail (hda_lst_streams s))));
           r = stream_get_sreg s st True
       in bind (peek32 mc (r + SDCTL_STS)) (\<lambda>v.
          seq (kprint ''Stream SDCTL: 0x%x\<newline>'' [Num (ucast v)]) (
          seq (stream_enable mc st True) (
          bind (peek32 mc (r + SDCTL_STS)) (\<lambda>v.
          kprint ''Stream SDCTL2: 0x%x\<newline>'' [Num (ucast v)])))) s))))) s)"

section \<open>Initialisation\<close>

definition find_custom_first_pass :: "pci_config_t \<Rightarrow> bool" where
  "find_custom_first_pass c \<longleftrightarrow>
     vendor_id c = 0x8086 \<and> (device_id c = 0x2668 \<or> device_id c = 0x284B \<or> device_id c = 0x1C20)"

definition find_custom_second_pass :: "pci_config_t \<Rightarrow> bool" where
  "find_custom_second_pass c \<longleftrightarrow> vendor_id c = 0x8086 \<and> base_class c = 0x4 \<and> sub_class c = 0x3"

definition find_hda :: "('d, 'z) hda_scheme proc" where
  "find_hda s =
     and_then (pci_find_custom find_custom_first_pass s) (\<lambda>p.
     if p \<noteq> 0 then Inr (s \<lparr> pci_hda_config := p \<rparr>)
     else and_then (pci_find_custom find_custom_second_pass s) (\<lambda>p.
       if p \<noteq> 0 then Inr (s \<lparr> pci_hda_config := p \<rparr>)
       else Inl (Panic ''Failed to find HDA device'')))"

text \<open>The memory member of the union, which the assertion before its use makes the right one.\<close>

definition hda_header :: "pci_config_t \<Rightarrow> header_type_0 res" where
  "hda_header c = (case h_type c of type_0 t \<Rightarrow> Inr t | _ \<Rightarrow> Inl (Undefined ''member type_0''))"

definition print_hda :: "pci_config_t \<Rightarrow> header_type_0 \<Rightarrow> ('d, 'z) drivers_scheme proc" where
  "print_hda c t =
     kprints ([
       (''Found PCI Device:\<newline>'', []),
       (''Vendor: 0x%x - Device: 0x%x - Rev: 0x%x\<newline>'', [arg (vendor_id c), arg (device_id c), arg (revision c)]),
       (''Subsytem Vendor: 0x%x - Subsystem ID: 0x%x\<newline>'', [arg (subsystem_vendor_id_of_0 t), arg (subsystem_id t)]),
       (''Header Type: %d\<newline>'', [arg (header_type c)])] @
       map (\<lambda>i. (''BAR%d: 0x%x - Size: 0x%x\<newline>'',
         [Num (of_nat i), arg (bar_address t ! i), arg (bar_sizes t ! i)])) [0..<6] @ [
       (''Interrupt Line: %u\<newline>'', [arg (interrupt_line_of_0 t)]),
       (''Interrupt Pin: %u\<newline>'', [arg (interrupt_pin_of_0 t)])])"

definition clear_page :: "'d machine \<Rightarrow> addr \<Rightarrow> ('d, 'z) drivers_scheme proc" where
  "clear_page mc a = for_each [0..<512] (\<lambda>i. poke64 mc (a + 8 * of_nat i) 0)"

definition map_registers :: "'d machine \<Rightarrow> u32 \<Rightarrow> u32 \<Rightarrow> ('d, 'z) hda_scheme proc" where
  "map_registers mc pci_addr_lo pci_addr_hi =
     seq (\<lambda>s. and_then (virt_map_phys_range (memory s) (kernel_tables s) HDA_MEM_LOC
            (push_bit 32 (ucast pci_addr_hi) OR ucast (pci_addr_lo AND NOT 0xFFF))
            (PG_FLAG_RW OR PG_FLAG_PCD OR PG_FLAG_PWT) PAGE_SMALL 4) (\<lambda>(r, m). Inr (s \<lparr> memory := m \<rparr>))) (
     bind (map_new_page HDA_RING_LOC (PG_FLAG_RW OR PG_FLAG_PCD) PAGE_SMALL) (\<lambda>ring.
     seq (\<lambda>s. Inr (s \<lparr> hda_ring_phys_loc := ring \<rparr>)) (
     bind (map_new_page HDA_DMA_LOC (PG_FLAG_RW OR PG_FLAG_PCD OR PG_FLAG_PWT) PAGE_SMALL) (\<lambda>dma.
     seq (\<lambda>s. Inr (s \<lparr> hda_dma_phys_loc := dma \<rparr>)) (
     seq (clear_page mc HDA_DMA_LOC) (clear_page mc HDA_RING_LOC))))))"

text \<open>The interrupt controller: the line's bit in the mask of its chip is cleared.\<close>

definition unmask :: "'d machine \<Rightarrow> u16 \<Rightarrow> nat \<Rightarrow> string \<Rightarrow> string \<Rightarrow> ('d, 'z) drivers_scheme proc" where
  "unmask mc port n old_text new_text =
     bind (from_device (port_inb mc port)) (\<lambda>old_mask.
     seq (kprint old_text [Num (ucast old_mask)]) (
     seq (on_device (port_outb mc port (NOT (push_bit n 1) AND old_mask))) (
     bind (from_device (port_inb mc port)) (\<lambda>v. kprint new_text [Num (ucast v)]))))"

definition unmask_line :: "'d machine \<Rightarrow> u8 \<Rightarrow> ('d, 'z) hda_scheme proc" where
  "unmask_line mc interrupt_line =
     seq (assert_at ''sound.c'' 1273 (interrupt_line \<le> 15)) (
     seq (if interrupt_line \<ge> 8
          then unmask mc 0xA1 (unat (interrupt_line - 8)) ''OLD S MASK: 0b%b\<newline>'' ''NEW S MASK: 0b%b\<newline>''
          else unmask mc 0x21 (unat interrupt_line) ''OLD M MASK: 0b%b\<newline>'' ''NEW M MASK: 0b%b\<newline>'')
       (\<lambda>s. Inr (s \<lparr> hda_vectors := (ucast interrupt_line + 0x20) # (hda_vectors s) \<rparr>)))"

definition sound_init :: "'d machine \<Rightarrow> ('d, 'z) hda_scheme proc" where
  "sound_init mc =
     seq (kprint ''Initializing sound\<newline>'' []) (
     seq (pci_init mc) (
     seq find_hda (\<lambda>s.
     let c = configs s (pci_hda_config s) in
     seq (assert_at ''sound.c'' 1232 (header_type c = 0)) (
     bind (\<lambda>s. and_then (hda_header c) (\<lambda>t. Inr (t, s))) (\<lambda>t.
     seq (print_hda c t) (
     bind (pci_config_read_l mc c HDBARL) (\<lambda>lo.
     bind (pci_config_read_l mc c HDBARU) (\<lambda>hi.
     seq (assert_at ''sound.c'' 1255 (bar_sizes t ! 0 = 0x4000)) (
     seq (map_registers mc lo hi) (
     bind (pci_config_read_w mc c PCI_COMMAND) (\<lambda>cmd.
     seq (pci_config_write_w mc c PCI_COMMAND (ucast (cmd OR (PCI_CMD_MEMORY OR PCI_CMD_MASTER OR 0x20)))) (
     seq (unmask_line mc (interrupt_line_of_0 t)) (
     bind (pci_config_read_w mc c PCI_STATUS) (\<lambda>v.
     seq (kprint ''Status: 0b%b\<newline>'' [Num (ucast v)]) (
     bind (pci_config_read_w mc c PCI_COMMAND) (\<lambda>v.
     seq (kprint ''Command: 0b%b\<newline>'' [Num (ucast v)]) (
     seq (hda_reset_controller mc) (
     seq (hda_setup_corb mc) (
     seq (hda_setup_rirb mc) (
     seq (hda_setup_streams mc) (
     seq (hda_enumerate_codecs mc) (
     seq (kprint ''Playing sound...\<newline>'' [])
       (hda_test_sound mc)))))))))))))))))))) s)))"

end
