(* ===== verification/Sound.thy ===== *)
theory Sound
  imports Hda
begin

text \<open>
  What the sound driver of \<open>Hda\<close> does: the arithmetic of its rings and verbs, the search for a path
  from a pin to a converter, the streams and their buffers, and the widgets it reads.
\<close>

section \<open>The rings\<close>

text \<open>The free space of a ring is never zero, so nothing ever waits for it.\<close>

lemma ring_buffer_size_positive:
  assumes "rp < n" and "wp < n"
  shows "ring_buffer_size rp wp n \<ge> 1"
proof -
  have "ring_buffer_size rp wp n \<noteq> 0"
  proof (cases "wp < rp")
    case True
    then show ?thesis by (auto simp: ring_buffer_size_def)
  next
    case False
    then have "unat (wp - rp) = unat wp - unat rp" by (intro unat_sub) (simp add: not_less)
    with assms(2) have "wp - rp \<noteq> n" by (auto simp: word_less_nat_alt)
    then show ?thesis using False by (auto simp: ring_buffer_size_def)
  qed
  then show ?thesis by (simp add: word_le_nat_alt unat_gt_0 Suc_le_eq)
qed

text \<open>The number of entries that wait, for the ring the controller writes.\<close>

lemma ring_buffer_waiting:
  assumes "rp < n" and "wp < n"
  shows "unat n - unat (ring_buffer_size rp wp n) = (unat wp + (unat n - unat rp)) mod unat n"
proof (cases "wp < rp")
  case True
  then have "unat (rp - wp) = unat rp - unat wp" by (intro unat_sub) simp
  then show ?thesis using True assms by (simp add: ring_buffer_size_def word_less_nat_alt)
next
  case False
  then have 1: "unat (wp - rp) = unat wp - unat rp" by (intro unat_sub) (simp add: not_less)
  have "wp - rp \<le> n" using assms 1 by (simp add: word_le_nat_alt word_less_nat_alt)
  then have "unat (n - (wp - rp)) = unat n - (unat wp - unat rp)" using 1 by (simp add: unat_sub)
  moreover have "(unat wp + (unat n - unat rp)) mod unat n = unat wp - unat rp"
  proof -
    have "unat wp + (unat n - unat rp) = unat n + (unat wp - unat rp)"
      using False assms by (simp add: word_less_nat_alt not_less)
    moreover have "unat wp - unat rp < unat n" using assms by (simp add: word_less_nat_alt)
    ultimately show ?thesis by (simp only: mod_add_self1 mod_less)
  qed
  ultimately show ?thesis using False assms
    by (simp add: ring_buffer_size_def word_less_nat_alt not_less)
qed

lemma ring_entries_range:
  "snd (ring_entries x) \<in> {2, 16, 256}"
  by (simp add: ring_entries_def)

section \<open>Insertion with the driver's allocator\<close>

lemma hda_alloc_driver_alloc:
  assumes "water_mark_ok (kernel_WaterMark s)" and "unat sz < 2 ^ 32"
  shows "hda_alloc sz s = driver_alloc sz s"
proof (cases "driver_alloc sz s")
  case (Inr r)
  obtain p s' where r: "r = (p, s')" by fastforce
  with Inr driver_alloc_takes(3) [OF assms, of p s'] show ?thesis
    by (simp add: hda_alloc_def bind_def seq_def assert_at_def return_def)
qed (simp add: hda_alloc_def bind_def)

lemma hda_push_kernel:
  assumes "water_mark_ok (kernel_WaterMark s)"
  shows "hda_push l d s = insert_element driver_alloc l 0 d s"
  using hda_alloc_driver_alloc [OF assms, of 24] by (simp add: insert_element_def list_insert_next_def)

lemma room_water_mark: "room n w \<Longrightarrow> water_mark_ok w"
  by (simp add: room_def)

text \<open>One push on a list whose nodes lie below \<open>mark\<close>: everything above \<open>mark\<close> stays.\<close>

definition above :: "addr \<Rightarrow> ('d, 'z) hda_scheme \<Rightarrow> ('d, 'z) hda_scheme \<Rightarrow> bool" where
  "above mark s s' \<longleftrightarrow> (\<forall>x. mark \<le> x \<longrightarrow> list_nodes s' x = list_nodes s x) \<and>
     (\<exists>m w h. s' = s \<lparr> memory := m, kernel_WaterMark := w, list_nodes := h \<rparr>)"

lemma above_refl [simp]: "above mark s s"
  unfolding above_def
  by (intro conjI exI [of _ "memory s"] exI [of _ "kernel_WaterMark s"] exI [of _ "list_nodes s"]) simp_all

lemma above_trans: "above mark s s' \<Longrightarrow> above mark s' s'' \<Longrightarrow> above mark s s''"
  unfolding above_def by fastforce

lemma hda_push_returns:
  assumes l: "kernel_list s l xs" and lt: "\<forall>x\<in>set xs. x < mark"
    and m: "current_address (kernel_WaterMark s) \<le> mark" and r: "room (24 + n) (kernel_WaterMark s)"
  shows "\<exists>l' s' x. hda_push l d s = Inr (l', s') \<and> kernel_list s' l' (x # xs) \<and> x < mark \<and>
    list_contents (list_nodes s') (x # xs) = d # list_contents (list_nodes s) xs \<and>
    room n (kernel_WaterMark s') \<and> current_address (kernel_WaterMark s') \<le> mark \<and> above mark s s'"
proof -
  from insert_element_returns [OF r, of l d] obtain l' s' where
    i: "insert_element driver_alloc l 0 d s = Inr (l', s')" "room n (kernel_WaterMark s')" by blast
  from insert_element_head [OF l i(1)] obtain x where
    x: "kernel_list s' l' (x # xs)" "list_contents (list_nodes s') (x # xs) = d # list_contents (list_nodes s) xs"
      "current_address (kernel_WaterMark s') \<le> current_address (kernel_WaterMark s)"
      "s' = s \<lparr> memory := memory s', kernel_WaterMark := kernel_WaterMark s', list_nodes := list_nodes s' \<rparr>"
      "x < current_address (kernel_WaterMark s)"
      "\<And>y. current_address (kernel_WaterMark s) \<le> y \<Longrightarrow> y \<notin> set xs \<Longrightarrow> list_nodes s' y = list_nodes s y"
    by blast
  have "list_nodes s' y = list_nodes s y" if "mark \<le> y" for y
    using that m lt by (intro x(6)) (auto simp: not_le [symmetric])
  then have "above mark s s'" using x(4) unfolding above_def by blast
  moreover have "hda_push l d s = Inr (l', s')"
    using i(1) room_water_mark [OF r] by (simp add: hda_push_kernel)
  ultimately show ?thesis using x(1-3,5) i(2) m by (intro exI [of _ l'] exI [of _ s'] exI [of _ x]) auto
qed

section \<open>The search for a converter\<close>

text \<open>
  The graph the search walks: the connections of a widget that is no converter, as addresses of
  widgets.  The nodes of the connection lists lie above \<open>mark\<close>, those of the path below.
\<close>

definition is_converter :: "('d, 'z) hda_scheme \<Rightarrow> addr \<Rightarrow> bool" where
  "is_converter s aw \<longleftrightarrow> aw_type (hda_widgets s aw) = AW_TYPE_OUT_CONV"

definition successors :: "addr \<Rightarrow> ('d, 'z) hda_scheme \<Rightarrow> addr \<Rightarrow> addr list \<Rightarrow> bool" where
  "successors mark s aw cs \<longleftrightarrow>
     (if is_converter s aw \<or> conn_length (conn_info (hda_widgets s aw)) = 0 then cs = []
      else \<exists>xs. links (list_nodes s) (list_head (lst_conn (conn_info (hda_widgets s aw)))) xs \<and>
        (\<forall>x\<in>set xs. mark \<le> x) \<and>
        cs = map (\<lambda>d. find_widget s (ucast d)) (list_contents (list_nodes s) xs))"

definition connection_graph :: "addr \<Rightarrow> ('d, 'z) hda_scheme \<Rightarrow> addr set \<Rightarrow> (addr \<Rightarrow> addr list) \<Rightarrow> bool" where
  "connection_graph mark s W G \<longleftrightarrow>
     0 \<notin> W \<and> (\<forall>aw\<in>W. successors mark s aw (G aw) \<and> set (G aw) \<subseteq> W)"

text \<open>A path from its first widget to a converter.\<close>

fun converter_path :: "(addr \<Rightarrow> addr list) \<Rightarrow> (addr \<Rightarrow> bool) \<Rightarrow> addr list \<Rightarrow> bool" where
  "converter_path G conv [] \<longleftrightarrow> False"
| "converter_path G conv [a] \<longleftrightarrow> conv a"
| "converter_path G conv (a # b # p) \<longleftrightarrow> \<not> conv a \<and> b \<in> set (G a) \<and> converter_path G conv (b # p)"

text \<open>What the search promises for a widget.\<close>

definition searched ::
  "addr \<Rightarrow> (addr \<Rightarrow> addr list) \<Rightarrow> nat \<Rightarrow> ('d, 'z) hda_scheme \<Rightarrow> addr list set \<Rightarrow>
    ((bool \<times> linked_list) \<times> ('d, 'z) hda_scheme) res option \<Rightarrow> bool" where
  "searched mark G n s ps r \<longleftrightarrow>
     ps = {} \<and> r = Some (Inr ((False, list_init), s)) \<or>
     (\<exists>p\<in>ps. \<exists>way s' xs. r = Some (Inr ((True, way), s')) \<and> kernel_list s' way xs \<and>
       (\<forall>x\<in>set xs. x < mark) \<and> list_contents (list_nodes s') xs = p \<and>
       room n (kernel_WaterMark s') \<and> current_address (kernel_WaterMark s') \<le> mark \<and> above mark s s')"

lemma above_fields:
  assumes "above mark s s'"
  shows "hda_widgets s' = hda_widgets s" and "find_widget s' w = find_widget s w"
    and "is_converter s' = is_converter s"
proof -
  have "widget_at s' = widget_at s" "hda_widgets s' = hda_widgets s" "hda_afg s' = hda_afg s"
    using assms by (auto simp: above_def widget_at_def fun_eq_iff)
  then show "hda_widgets s' = hda_widgets s" "find_widget s' w = find_widget s w" "is_converter s' = is_converter s"
    by (simp_all add: find_widget_def is_converter_def [abs_def])
qed

lemma kernel_list_init:
  "water_mark_ok (kernel_WaterMark s) \<Longrightarrow> kernel_list s list_init []"
  by (simp add: kernel_list_def)

text \<open>The end of the search: the converter itself.\<close>

lemma dfs_converter:
  assumes c: "is_converter s aw" and r: "room (24 + n) (kernel_WaterMark s)"
    and m: "current_address (kernel_WaterMark s) \<le> mark"
  shows "searched mark G n s {p. converter_path G (is_converter s) p \<and> hd p = aw} (hda_dfs None aw list_init s)"
proof -
  from hda_push_returns [OF kernel_list_init [OF room_water_mark [OF r]] _ m r, of aw] obtain l' s' x where
    x: "hda_push list_init aw s = Inr (l', s')" "kernel_list s' l' [x]" "x < mark"
      "list_contents (list_nodes s') [x] = [aw]" "room n (kernel_WaterMark s')"
      "current_address (kernel_WaterMark s') \<le> mark" "above mark s s'" by auto
  have "hda_dfs None aw list_init s = Some (Inr ((True, l'), s'))"
    using c x(1) by (subst hda_dfs.simps) (simp add: is_converter_def bind_def return_def)
  moreover have "[aw] \<in> {p. converter_path G (is_converter s) p \<and> hd p = aw}" using c by simp
  ultimately show ?thesis unfolding searched_def using x by (intro disjI2 bexI [of _ "[aw]"]) auto
qed

text \<open>The loop over the rest of the connections, when the search from each of them is right.\<close>

lemma dfs_loop:
  assumes links: "links (list_nodes s) node xs" and above_mark: "\<forall>x\<in>set xs. mark \<le> x"
    and nz: "\<forall>d\<in>set (list_contents (list_nodes s) xs). find_widget s (ucast d) \<noteq> 0"
    and sub: "\<And>d. d \<in> set (list_contents (list_nodes s) xs) \<Longrightarrow>
      searched mark G (24 + n) s (Q (find_widget s (ucast d))) (hda_dfs None (find_widget s (ucast d)) list_init s)"
  shows "searched mark G n s
    (\<Union>d\<in>set (list_contents (list_nodes s) xs). (\<lambda>p. aw # p) ` Q (find_widget s (ucast d)))
    (hda_dfs (Some node) aw list_init s)"
  using assms
proof (induction xs arbitrary: node)
  case Nil
  then show ?case by (subst hda_dfs.simps) (simp add: searched_def)
next
  case (Cons x xs)
  define w where "w = find_widget s (ucast (list_data (list_nodes s x)))"
  have node: "node = x" "x \<noteq> 0" and rest: "links (list_nodes s) (list_next (list_nodes s x)) xs"
    using Cons.prems(1) by auto
  have w: "w \<noteq> 0" using Cons.prems(3) by (simp add: w_def)
  have sw: "searched mark G (24 + n) s (Q w) (hda_dfs None w list_init s)"
    using Cons.prems(4) [of "list_data (list_nodes s x)"] by (simp add: w_def)
  have IH: "searched mark G n s
      (\<Union>d\<in>set (list_contents (list_nodes s) xs). (\<lambda>p. aw # p) ` Q (find_widget s (ucast d)))
      (hda_dfs (Some (list_next (list_nodes s x))) aw list_init s)"
    using Cons.IH [OF rest] Cons.prems(2-4) by simp
  have unf: "hda_dfs (Some node) aw list_init s = Option.bind (hda_dfs None w list_init s) (\<lambda>r.
      case r of
        Inl e \<Rightarrow> Some (Inl e)
      | Inr ((found, way), s) \<Rightarrow>
          if found then Some (bind (hda_push way aw) (\<lambda>way. return (True, way)) s)
          else hda_dfs (Some (list_next (list_nodes s x))) aw way s)"
    using node w by (subst hda_dfs.simps) (simp add: w_def Let_def)
  from sw [unfolded searched_def] show ?case
  proof (elim disjE conjE bexE exE)
    assume "Q w = {}" "hda_dfs None w list_init s = Some (Inr ((False, list_init), s))"
    then show ?thesis using IH unf node(1) by (simp add: w_def [symmetric])
  next
    fix p way s' ys
    assume p: "p \<in> Q w" and r: "hda_dfs None w list_init s = Some (Inr ((True, way), s'))"
      and l: "kernel_list s' way ys" "\<forall>x\<in>set ys. x < mark" "list_contents (list_nodes s') ys = p"
      and rm: "room (24 + n) (kernel_WaterMark s')" and cm: "current_address (kernel_WaterMark s') \<le> mark"
      and ab: "above mark s s'"
    from hda_push_returns [OF l(1,2) cm rm, of aw] obtain l' s'' y where
      y: "hda_push way aw s' = Inr (l', s'')" "kernel_list s'' l' (y # ys)" "y < mark"
        "list_contents (list_nodes s'') (y # ys) = aw # p" "room n (kernel_WaterMark s'')"
        "current_address (kernel_WaterMark s'') \<le> mark" "above mark s' s''"
      unfolding l(3) by blast
    have "hda_dfs (Some node) aw list_init s = Some (Inr ((True, l'), s''))"
      unfolding unf r using y(1) by (simp add: bind_def return_def)
    moreover have "aw # p \<in> (\<Union>d\<in>set (list_contents (list_nodes s) (x # xs)).
        (\<lambda>p. aw # p) ` Q (find_widget s (ucast d)))" using p by (simp add: w_def)
    moreover have "\<forall>z\<in>set (y # ys). z < mark" using y(3) l(2) by simp
    ultimately show ?thesis unfolding searched_def
      using y(2,4-6) above_trans [OF ab y(7)]
      by (intro disjI2 bexI [of _ "aw # p"] exI [of _ l'] exI [of _ s''] exI [of _ "y # ys"] conjI)
  qed
qed

text \<open>By induction on the rank of the widget, every widget is searched.\<close>

lemma dfs_searched:
  assumes gr: "connection_graph mark s W G" and m: "current_address (kernel_WaterMark s) \<le> mark"
    and rank: "\<And>a c. a \<in> W \<Longrightarrow> c \<in> set (G a) \<Longrightarrow> rank c < (rank a :: nat)"
    and aw: "aw \<in> W" and rm: "room (24 * Suc (rank aw) + n) (kernel_WaterMark s)"
  shows "searched mark G n s {p. converter_path G (is_converter s) p \<and> hd p = aw} (hda_dfs None aw list_init s)"
  using aw rm
proof (induction "rank aw" arbitrary: aw n rule: less_induct)
  case less
  let ?P = "\<lambda>a. {p. converter_path G (is_converter s) p \<and> hd p = a}"
  have su: "successors mark s aw (G aw)" "set (G aw) \<subseteq> W" "0 \<notin> W"
    using gr less.prems(1) by (auto simp: connection_graph_def)
  have room_le: "room k w \<Longrightarrow> j \<le> k \<Longrightarrow> room j w" for j k w by (auto simp: room_def)
  show ?case
  proof (cases "is_converter s aw")
    case True
    have "room (24 + n) (kernel_WaterMark s)" by (rule room_le [OF less.prems(2)]) simp
    then show ?thesis by (rule dfs_converter [OF True _ m])
  next
    case nc: False
    have ps: "?P aw = (\<Union>c\<in>set (G aw). (\<lambda>p. aw # p) ` ?P c)"
    proof (intro equalityI subsetI)
      fix p assume "p \<in> ?P aw"
      then obtain b q where "p = aw # b # q" "b \<in> set (G aw)" "converter_path G (is_converter s) (b # q)"
        using nc by (cases p rule: remdups_adj.cases) auto
      then show "p \<in> (\<Union>c\<in>set (G aw). (\<lambda>p. aw # p) ` ?P c)" by force
    next
      fix p assume "p \<in> (\<Union>c\<in>set (G aw). (\<lambda>p. aw # p) ` ?P c)"
      then obtain q where q: "p = aw # q" "converter_path G (is_converter s) q" "hd q \<in> set (G aw)" by auto
      then show "p \<in> ?P aw" using nc by (cases q) auto
    qed
    show ?thesis
    proof (cases "conn_length (conn_info (hda_widgets s aw)) = 0")
      case True
      then have "G aw = []" using su(1) by (simp add: successors_def)
      moreover have "hda_dfs None aw list_init s = Some (Inr ((False, list_init), s))"
        using nc True by (subst hda_dfs.simps) (simp add: is_converter_def)
      ultimately show ?thesis using ps by (simp add: searched_def)
    next
      case False
      with su(1) nc obtain xs where
        xs: "links (list_nodes s) (list_head (lst_conn (conn_info (hda_widgets s aw)))) xs"
          "\<forall>x\<in>set xs. mark \<le> x"
          "G aw = map (\<lambda>d. find_widget s (ucast d)) (list_contents (list_nodes s) xs)"
        by (auto simp: successors_def)
      have ch: "find_widget s (ucast d) \<in> set (G aw)" if "d \<in> set (list_contents (list_nodes s) xs)" for d
        using that xs(3) by simp
      have "searched mark G (24 + n) s (?P (find_widget s (ucast d)))
          (hda_dfs None (find_widget s (ucast d)) list_init s)"
        if d: "d \<in> set (list_contents (list_nodes s) xs)" for d
      proof (rule less.hyps)
        show "rank (find_widget s (ucast d)) < rank aw" by (rule rank [OF less.prems(1) ch [OF d]])
        then show "room (24 * Suc (rank (find_widget s (ucast d))) + (24 + n)) (kernel_WaterMark s)"
          by (intro room_le [OF less.prems(2)]) simp
        show "find_widget s (ucast d) \<in> W" using ch [OF d] su(2) by blast
      qed
      moreover have "\<forall>d\<in>set (list_contents (list_nodes s) xs). find_widget s (ucast d) \<noteq> 0"
        using ch su(2,3) by fastforce
      ultimately have "searched mark G n s
          (\<Union>d\<in>set (list_contents (list_nodes s) xs). (\<lambda>p. aw # p) ` ?P (find_widget s (ucast d)))
          (hda_dfs (Some (list_head (lst_conn (conn_info (hda_widgets s aw))))) aw list_init s)"
        using dfs_loop [OF xs(1,2), where Q = ?P] by blast
      moreover have "hda_dfs None aw list_init s =
          hda_dfs (Some (list_head (lst_conn (conn_info (hda_widgets s aw))))) aw list_init s"
        using nc False by (subst hda_dfs.simps) (simp add: is_converter_def word_neq_0_conv)
      ultimately show ?thesis using ps xs(3) by simp
    qed
  qed
qed

text \<open>A widget that is its own first connection: the search never ends.\<close>

lemma dfs_cycle_never_returns:
  fixes s :: "('d, 'z) hda_scheme"
  assumes "\<not> is_converter s aw" and "conn_length (conn_info (hda_widgets s aw)) \<noteq> 0"
    and "list_head (lst_conn (conn_info (hda_widgets s aw))) = node" and "node \<noteq> 0" and "aw \<noteq> 0"
    and "find_widget s (ucast (list_data (list_nodes s node))) = aw"
  shows "hda_dfs None aw way s = None"
proof (rule ccontr)
  assume "hda_dfs None aw way s \<noteq> None"
  then obtain r where r: "hda_dfs None aw way s = Some r" by blast
  have "\<not> ((None = (None :: addr option) \<or> None = Some node) \<and> aw = aw \<and> s = s)"
  proof (rule hda_dfs.raw_induct [where P = "\<lambda>at a w s' r. \<not> ((at = None \<or> at = Some node) \<and> a = aw \<and> s' = s)",
        OF _ r])
    fix dfs :: "addr option \<Rightarrow> addr \<Rightarrow> linked_list \<Rightarrow> ('d, 'z) hda_scheme \<Rightarrow>
        ((bool \<times> linked_list) \<times> ('d, 'z) hda_scheme) res option"
    fix at a w s' r
    assume IH: "\<And>at a w s' r. dfs at a w s' = Some r \<Longrightarrow> \<not> ((at = None \<or> at = Some node) \<and> a = aw \<and> s' = s)"
      and eq: "(case at of
        None \<Rightarrow>
          (if aw_type (hda_widgets s' a) = AW_TYPE_OUT_CONV
           then Some (bind (hda_push w a) (\<lambda>way. return (True, way)) s')
           else if conn_length (conn_info (hda_widgets s' a)) > 0
           then dfs (Some (list_head (lst_conn (conn_info (hda_widgets s' a))))) a w s'
           else Some (Inr ((False, w), s')))
      | Some node \<Rightarrow>
          (if node = 0 then Some (Inr ((False, w), s'))
           else
             let aw_next = find_widget s' (ucast (list_data (list_nodes s' node))) in
             if aw_next = 0 then Some (Inl (Assert_failed ''sound.c'' 728))
             else Option.bind (dfs None aw_next w s') (\<lambda>r.
               case r of
                 Inl e \<Rightarrow> Some (Inl e)
               | Inr ((found, way), s) \<Rightarrow>
                   if found then Some (bind (hda_push way a) (\<lambda>way. return (True, way)) s)
                   else dfs (Some (list_next (list_nodes s node))) a way s))) = Some r"
    have n1: "dfs (Some node) aw w s = None" for w using IH [of "Some node" aw w s] by fastforce
    have n2: "dfs None aw w s = None" for w using IH [of None aw w s] by fastforce
    show "\<not> ((at = None \<or> at = Some node) \<and> a = aw \<and> s' = s)"
    proof
      assume at: "(at = None \<or> at = Some node) \<and> a = aw \<and> s' = s"
      then have as: "a = aw" "s' = s" by simp_all
      have nz: "0 < conn_length (conn_info (hda_widgets s aw))"
        "aw_type (hda_widgets s aw) \<noteq> AW_TYPE_OUT_CONV"
        using assms(1,2) by (simp_all add: is_converter_def word_neq_0_conv)
      note e = eq [unfolded as Let_def assms(3,6)]
      from at consider "at = None" | "at = Some node" by blast
      then show False
      proof cases
        case 1
        show ?thesis using e nz by (simp add: 1 n1)
      next
        case 2
        show ?thesis using e assms(4,5) by (simp add: 2 assms(6) n2)
      qed
    qed
  qed
  then show False by simp
qed

section \<open>Verbs\<close>

text \<open>The fields of a command, as the specification lays them out.\<close>

definition decode_verb :: "u32 \<Rightarrow> u32 \<times> u32 \<times> u32 \<times> u32" where
  "decode_verb v = (drop_bit 28 v, drop_bit 20 v AND mask 8, drop_bit 8 v AND mask 12, v AND mask 8)"

lemma high_bits_zero:
  fixes x :: "'a::len word"
  assumes "x < 2 ^ k" and "k \<le> n" and "k < LENGTH('a)"
  shows "\<not> bit x n"
proof -
  have "x AND mask k = x" by (rule less_mask_eq [OF assms(1)])
  then have "bit x n \<longleftrightarrow> n < k \<and> bit x n" by (metis bit_and_iff bit_mask_iff)
  with assms(2) show ?thesis by simp
qed

text \<open>A verb keeps its fields: for a codec address of 4 bits, a node of 8, a verb of 12 and a
  payload of 8 bits, the layout of the specification reads back from \<open>create_verb\<close> what was put in.\<close>

lemma create_verb_round_trip:
  assumes "cad < 2 ^ 4" "nid < 2 ^ 8" "verb < 2 ^ 12" "dat < 2 ^ 8"
  shows "decode_verb (create_verb cad 0 nid verb dat) = (cad, nid, verb, dat)"
proof -
  have z: "bit cad n \<Longrightarrow> n < 4" "bit nid n \<Longrightarrow> n < 8" "bit verb n \<Longrightarrow> n < 12" "bit dat n \<Longrightarrow> n < 8" for n
    using high_bits_zero [OF assms(1), of n] high_bits_zero [OF assms(2), of n]
      high_bits_zero [OF assms(3), of n] high_bits_zero [OF assms(4), of n] by (auto simp: not_less [symmetric])
  have m: "(0xFFFF :: u32) = mask 16" by (simp add: mask_eq_exp_minus_1)
  have "drop_bit 28 (create_verb cad 0 nid verb dat) = cad"
    by (intro bit_word_eqI) (auto simp: create_verb_def m bit_simps dest: z)
  moreover have "drop_bit 20 (create_verb cad 0 nid verb dat) AND mask 8 = nid"
    by (intro bit_word_eqI) (auto simp: create_verb_def m bit_simps dest: z)
  moreover have "drop_bit 8 (create_verb cad 0 nid verb dat) AND mask 12 = verb"
    by (intro bit_word_eqI) (auto simp: create_verb_def m bit_simps dest: z)
  moreover have "create_verb cad 0 nid verb dat AND mask 8 = dat"
    by (intro bit_word_eqI) (auto simp: create_verb_def m bit_simps dest: z)
  ultimately show ?thesis by (simp add: decode_verb_def)
qed

lemma create_verb_round_trip_witness:
  "decode_verb (create_verb 1 0 4 0xF00 9) = (1, 4, 0xF00, 9)"
  by (rule create_verb_round_trip) simp_all

section \<open>Fields of a widget\<close>

lemma bits_bound:
  assumes m: "m < 256"
  shows "unat (bits n m info) \<le> unat m"
proof -
  have "drop_bit n info AND m \<le> m" by (rule word_and_le1)
  with m have "unat (drop_bit n info AND m) \<le> unat m" "unat m < 256"
    by (simp_all add: word_le_nat_alt word_less_nat_alt)
  then show "unat (bits n m info) \<le> unat m"
    by (simp add: bits_def unsigned_ucast_eq take_bit_nat_eq_self)
qed

text \<open>The indices into the tables of names are in range.\<close>

lemma widget_names_in_range:
  "unat (bits 20 0xF info) < length widget_types" "unat (bits 20 0xF info) < length device_types"
  using bits_bound [of "0xF" 20 info] by (simp_all add: widget_types_def device_types_def)

section \<open>Streams\<close>

text \<open>
  A stream's page is mapped at \<open>dat\<close>, but the addresses are advanced before they are stored: the
  stream writes its samples to the page behind its own, which only the next stream maps.
\<close>

lemma setup_stream_records_next_page:
  assumes "setup_stream i bdl dat s = Inr ((bdl', dat'), s')"
  shows "\<exists>p s1 stream. map_new_page dat (PG_FLAG_RW OR PG_FLAG_PCD OR PG_FLAG_PWT) PAGE_LARGE s = Inr (p, s1) \<and>
    data_phys_address (hda_streams s' stream) = p \<and>
    data_address (hda_streams s' stream) = dat + PAGE_LARGE_SIZE \<and> number (hda_streams s' stream) = of_nat i \<and>
    bdl_buffer_address (hda_streams s' stream) = bdl + PAGE_SMALL_SIZE \<and>
    bdl' = bdl + PAGE_SMALL_SIZE \<and> dat' = dat + PAGE_LARGE_SIZE"
proof -
  have push: "hda_streams s'' = hda_streams s"
    if "hda_push l d s = Inr (l', s'')" for l d l' and s s'' :: "('d, 'z) hda_scheme"
    using that
    by (auto simp: insert_element_def list_insert_next_def hda_alloc_def driver_alloc_def bind_eq_Inr
        seq_eq_Inr Let_def split: if_splits prod.splits)
  from assms obtain p s1 stream s2 q s3 l s4 where
    1: "map_new_page dat (PG_FLAG_RW OR PG_FLAG_PCD OR PG_FLAG_PWT) PAGE_LARGE s = Inr (p, s1)"
      "hda_push (hda_lst_streams s3) stream s3 = Inr (l, s4)" "s' = s4 \<lparr> hda_lst_streams := l \<rparr>"
      "data_phys_address (hda_streams s3 stream) = p" "number (hda_streams s3 stream) = of_nat i"
      "data_address (hda_streams s3 stream) = dat + PAGE_LARGE_SIZE"
      "bdl_buffer_address (hda_streams s3 stream) = bdl + PAGE_SMALL_SIZE"
      "bdl' = bdl + PAGE_SMALL_SIZE" "dat' = dat + PAGE_LARGE_SIZE"
    unfolding setup_stream_def Let_def
    by (elim bind_eq_InrE seq_eq_InrE) fastforce
  have "hda_streams s4 = hda_streams s3" by (rule push [OF 1(2)])
  with 1 show ?thesis by (intro exI [of _ p] exI [of _ s1] exI [of _ stream]) simp
qed

section \<open>A sample driver\<close>

text \<open>
  A sound device with registers that hold what is written, two entries in each ring, and three
  widgets: a pin (node 4) connected to a mixer (3) and a converter (2), the mixer to the converter.
\<close>

definition sample_machine :: "(addr \<Rightarrow> u32) machine" where
  "sample_machine =
     \<lparr> port_inb = (\<lambda>port d. (0, d)), port_inw = (\<lambda>port d. (0, d)), port_inl = (\<lambda>port d. (0, d)),
       port_outb = (\<lambda>port v d. d), port_outw = (\<lambda>port v d. d), port_outl = (\<lambda>port v d. d),
       load8 = (\<lambda>a d. (ucast (d a), d)), load16 = (\<lambda>a d. (ucast (d a), d)), load32 = (\<lambda>a d. (d a, d)),
       store8 = (\<lambda>a v d. d(a := ucast v)), store16 = (\<lambda>a v d. d(a := ucast v)),
       store32 = (\<lambda>a v d. d(a := v)), store64 = (\<lambda>a v d. d(a := ucast v)) \<rparr>"

definition sample_widget :: "u8 \<Rightarrow> u8 \<Rightarrow> linked_list \<Rightarrow> u8 \<Rightarrow> AudioWidget" where
  "sample_widget node kind conns n =
     (decode_widget node 0 (decode_pin_caps 0) (decode_amp_caps 0) (decode_amp_caps 0)
       \<lparr> long_form = 0, conn_length = n, lst_conn = conns \<rparr> (decode_knob 0) (decode_config 0)) \<lparr> aw_type := kind \<rparr>"

definition sample_links :: "addr \<Rightarrow> addr \<Rightarrow> u32 \<Rightarrow> linked_list" where
  "sample_links a b n = \<lparr> list_size = n, list_head = a, list_tail = b \<rparr>"

definition sample_hda :: "(addr \<Rightarrow> u32) hda" where
  "sample_hda =
     \<lparr> device = (\<lambda>_. 0), text_screen = sample_text, stack_bytes = garbage,
       memory = \<lparr> pmem = (\<lambda>_. 0), pool_4KIB = 0, stack_2MIB = 0 \<rparr>, kernel_tables = 0,
       kernel_WaterMark = \<lparr> page_address = 0x600000, current_address = 0x800000, current_size = 0,
         max_size = 0x400000 \<rparr>,
       list_nodes = (\<lambda>a.
         if a = 0x900000 then \<lparr> list_data = 3, list_next = 0x900018, list_prev = 0 \<rparr>
         else if a = 0x900018 then \<lparr> list_data = 2, list_next = 0, list_prev = 0x900000 \<rparr>
         else \<lparr> list_data = 2, list_next = 0, list_prev = 0 \<rparr>),
       configs = (\<lambda>_. \<lparr> bus = 0, slot = 0, func_no = 0, vendor_id = 0, device_id = 0, status = 0,
         command = 0, base_class = 0, sub_class = 0, programming_if = 0, revision = 0, BIST = 0,
         header_type = 0, latency_timer = 0, cache_line_size = 0, h_type = Uninitialised \<rparr>),
       lst_pci_devices = list_init,
       hda_corb = \<lparr> corb_base = HDA_RING_LOC, corb_size = 8, corb_entries = 2 \<rparr>,
       hda_rirb = \<lparr> rirb_base = HDA_RING_LOC + 2048, rirb_size = 16, rirb_entries = 2, read_ptr = 0 \<rparr>,
       hda_afg = \<lparr> afg_codec = 0, afg_node = 1, nodes_base = 2, nodes_length = 3, widgets = 0x901000,
         lst_outputs = sample_links 0x902000 0x902000 1 \<rparr>,
       hda_lst_streams = list_init, hda_dma_phys_loc = 0, hda_ring_phys_loc = 0, pci_hda_config = 0,
       codecs_available = 1, hda_num_output_streams = 1, hda_num_input_streams = 0,
       hda_stream_regs = HDA_MEM_LOC + SDCTL0,
       hda_widgets = (\<lambda>a.
         if a = 0xA00000 then sample_widget 2 AW_TYPE_OUT_CONV list_init 0
         else if a = 0xA01000 then sample_widget 3 2 (sample_links 0x900030 0x900030 1) 1
         else sample_widget 4 AW_TYPE_PIN_COMPLEX (sample_links 0x900000 0x900018 2) 2),
       hda_arrays = (\<lambda>a. if a = 0x901000 then 0xA00000 else if a = 0x901008 then 0xA01000 else 0xA02000),
       hda_paths = (\<lambda>_. list_init), hda_streams = (\<lambda>_. \<lparr> number = 0, sample_base_rate = 0,
         sample_base_rate_multiple = 0, sample_base_rate_divisor = 0, bits_per_sample = 0,
         number_of_channels = 0, data_address = 0, data_phys_address = 0, data_length = 0,
         bdl_buffer_address = 0, bdl_buffer_phys_address = 0, bdl_buffer_length = 0 \<rparr>),
       phys_loc_at = 0x7000, hda_vectors = [] \<rparr>"

section \<open>Properties\<close>

text \<open>C9. From a widget of a connection graph without cycles, with room for the nodes of the path,
  the search of \<open>hda_dfs\<close> returns; it succeeds exactly when some converter can be reached through
  the connections, and the list it builds is then a path of connected widgets from the given one
  to a converter.\<close>

theorem hda_dfs_finds_converter:
  assumes "connection_graph (current_address (kernel_WaterMark s)) s W G"
    and "\<forall>a\<in>W. \<forall>c\<in>set (G a). rank c < (rank a :: nat)"
    and "aw \<in> W" and "room (24 * Suc (rank aw)) (kernel_WaterMark s)"
  shows "\<exists>found way s'. hda_dfs None aw list_init s = Some (Inr ((found, way), s')) \<and>
    (found \<longleftrightarrow> (\<exists>p. converter_path G (is_converter s) (aw # p))) \<and>
    (found \<longrightarrow> (\<exists>xs p. list_at (list_nodes s') way xs \<and> list_contents (list_nodes s') xs = aw # p \<and>
       converter_path G (is_converter s) (aw # p)))"
proof -
  have hd: "p = aw # tl p" if "converter_path G (is_converter s) p" "hd p = aw" for p
    using that by (cases p) auto
  have "searched (current_address (kernel_WaterMark s)) G 0 s
      {p. converter_path G (is_converter s) p \<and> hd p = aw} (hda_dfs None aw list_init s)"
    using assms by (intro dfs_searched [where rank = rank and W = W]) auto
  then show ?thesis
    unfolding searched_def
  proof (elim disjE conjE bexE exE)
    assume none: "{p. converter_path G (is_converter s) p \<and> hd p = aw} = {}"
    assume "hda_dfs None aw list_init s = Some (Inr ((False, list_init), s))"
    then show ?thesis using none by fastforce
  next
    fix p way s' xs
    assume p: "p \<in> {p. converter_path G (is_converter s) p \<and> hd p = aw}"
      and r: "hda_dfs None aw list_init s = Some (Inr ((True, way), s'))" "kernel_list s' way xs"
        "list_contents (list_nodes s') xs = p"
    from p hd obtain q where q: "p = aw # q" "converter_path G (is_converter s) (aw # q)" by fastforce
    have "list_at (list_nodes s') way xs" using r(2) by (simp add: kernel_list_def)
    then show ?thesis using q r
      by (intro exI [of _ True] exI [of _ way] exI [of _ s']) blast
  qed
qed

definition sample_graph :: "addr \<Rightarrow> addr list" where
  "sample_graph a =
     (if a = 0xA02000 then [0xA01000, 0xA00000] else if a = 0xA01000 then [0xA00000] else [])"

lemma sample_fields:
  "hda_afg sample_hda = \<lparr> afg_codec = 0, afg_node = 1, nodes_base = 2, nodes_length = 3, widgets = 0x901000,
     lst_outputs = sample_links 0x902000 0x902000 1 \<rparr>"
  "hda_widgets sample_hda = (\<lambda>a.
     if a = 0xA00000 then sample_widget 2 AW_TYPE_OUT_CONV list_init 0
     else if a = 0xA01000 then sample_widget 3 2 (sample_links 0x900030 0x900030 1) 1
     else sample_widget 4 AW_TYPE_PIN_COMPLEX (sample_links 0x900000 0x900018 2) 2)"
  "hda_arrays sample_hda = (\<lambda>a. if a = 0x901000 then 0xA00000 else if a = 0x901008 then 0xA01000 else 0xA02000)"
  by (simp_all add: sample_hda_def)

lemma sample_widget_fields:
  "aw_node (sample_widget node kind conns n) = node" "aw_type (sample_widget node kind conns n) = kind"
  "conn_info (sample_widget node kind conns n) = \<lparr> long_form = 0, conn_length = n, lst_conn = conns \<rparr>"
  by (simp_all add: sample_widget_def decode_widget_def)

lemma sample_finds:
  "find_widget sample_hda 2 = 0xA00000" "find_widget sample_hda 3 = 0xA01000"
proof -
  have "[0..<unat (nodes_length (hda_afg sample_hda))] = [0, 1, 2]" by (simp add: sample_fields upt_rec)
  then have "map (widget_at sample_hda) [0..<unat (nodes_length (hda_afg sample_hda))] =
      [0xA00000, 0xA01000, 0xA02000]"
    by (simp add: widget_at_def sample_fields)
  then show "find_widget sample_hda 2 = 0xA00000" "find_widget sample_hda 3 = 0xA01000"
    by (simp_all add: find_widget_def sample_fields sample_widget_fields)
qed

lemma sample_connection_graph:
  "connection_graph 0x800000 sample_hda {0xA00000, 0xA01000, 0xA02000} sample_graph"
proof -
  have l: "links (list_nodes sample_hda) 0x900000 [0x900000, 0x900018]"
    "links (list_nodes sample_hda) 0x900030 [0x900030]"
    "list_contents (list_nodes sample_hda) [0x900000, 0x900018] = [3, 2]"
    "list_contents (list_nodes sample_hda) [0x900030] = [2]"
    by (simp_all add: sample_hda_def list_contents_def)
  note ws = sample_fields(2) sample_widget_fields is_converter_def successors_def sample_graph_def
    sample_links_def AW_TYPE_OUT_CONV_def AW_TYPE_PIN_COMPLEX_def
  have "successors 0x800000 sample_hda 0xA00000 (sample_graph 0xA00000)" by (simp add: ws)
  moreover have "successors 0x800000 sample_hda 0xA01000 (sample_graph 0xA01000)"
    using l by (auto simp: ws sample_finds intro!: exI [of _ "[0x900030]"])
  moreover have "successors 0x800000 sample_hda 0xA02000 (sample_graph 0xA02000)"
    using l by (auto simp: ws sample_finds intro!: exI [of _ "[0x900000, 0x900018]"])
  ultimately show ?thesis by (simp add: connection_graph_def sample_graph_def)
qed

theorem hda_dfs_finds_converter_witness:
  "\<exists>way s' xs p. hda_dfs None 0xA02000 list_init sample_hda = Some (Inr ((True, way), s')) \<and>
     list_at (list_nodes s') way xs \<and> list_contents (list_nodes s') xs = 0xA02000 # p \<and>
     converter_path sample_graph (is_converter sample_hda) (0xA02000 # p)"
proof -
  let ?rank = "\<lambda>a :: addr. if a = 0xA02000 then 2 else if a = 0xA01000 then 1 else 0 :: nat"
  have m: "current_address (kernel_WaterMark sample_hda) = 0x800000"
    and r: "room (24 * Suc 2) (kernel_WaterMark sample_hda)"
    by (simp_all add: sample_hda_def room_def water_mark_ok_def)
  have "converter_path sample_graph (is_converter sample_hda) (0xA02000 # [0xA00000])"
    by (simp add: sample_graph_def is_converter_def sample_fields sample_widget_fields
        AW_TYPE_OUT_CONV_def AW_TYPE_PIN_COMPLEX_def)
  moreover have "\<exists>found way s'. hda_dfs None 0xA02000 list_init sample_hda = Some (Inr ((found, way), s')) \<and>
    (found \<longleftrightarrow> (\<exists>p. converter_path sample_graph (is_converter sample_hda) (0xA02000 # p))) \<and>
    (found \<longrightarrow> (\<exists>xs p. list_at (list_nodes s') way xs \<and> list_contents (list_nodes s') xs = 0xA02000 # p \<and>
       converter_path sample_graph (is_converter sample_hda) (0xA02000 # p)))"
    by (rule hda_dfs_finds_converter [where rank = ?rank, OF sample_connection_graph [folded m]])
      (use r in \<open>auto simp: sample_graph_def\<close>)
  ultimately show ?thesis by fastforce
qed

text \<open>C27. With pointers inside the ring, \<open>corb_send_command\<close> never waits: it reads the two pointers
  once, writes the command behind the write pointer and advances it, even when that entry is the
  one the controller reads next.  The pointers are then equal, so the ring counts as empty and all
  its commands are lost.\<close>

theorem corb_send_command_never_waits:
  assumes "load16 mc (hda_reg CORBWP) (device s) = (w, d)" and "load16 mc (hda_reg CORBRP) d = (r, d')"
    and "corb_entries (hda_corb s) = n" and "n \<in> {2, 16, 256}"
    and "ucast (w AND 0xFF) < n" and "ucast (r AND 0xFF) < n"
    and "w' = (ucast (ucast ((w AND 0xFF) + 1) mod n) :: u16)"
  shows "corb_send_command mc cmd s = Inr (s \<lparr> device := store16 mc (hda_reg CORBWP) w'
      (store32 mc (corb_base (hda_corb s) + 4 * ucast w') cmd d') \<rparr>) \<and>
    (w' = r AND 0xFF \<longrightarrow> ring_buffer_size (r AND 0xFF) w' (ucast n) = ucast n)"
proof -
  have n: "n \<noteq> 0" "ucast n \<in> {2, 16, 256 :: u16}" "n \<le> 256" using assms(4) by auto
  have lt: "x AND 0xFF < (ucast n :: u16)" if "ucast (x AND 0xFF) < n" for x :: u16
  proof -
    have "unat (x AND 0xFF) < 2 ^ 64" by (rule less_trans [OF unsigned_less]) simp
    then show ?thesis using that assms(4)
      by (auto simp: word_less_nat_alt unsigned_ucast_eq take_bit_nat_eq_self)
  qed
  have "ring_buffer_size (r AND 0xFF) (w AND 0xFF) (ucast n) \<ge> 1"
    using lt [OF assms(5)] lt [OF assms(6)] by (rule ring_buffer_size_positive [rotated])
  then have full: "\<not> ring_buffer_size (r AND 0xFF) (w AND 0xFF) (ucast n) < 1" by (rule leD)
  have "ucast ((w AND 0xFF) + 1) mod n < n" by (rule word_mod_less_divisor) (simp add: n(1) word_neq_0_conv [symmetric])
  then have "ucast ((w AND 0xFF) + 1) mod n < 256" using n(3) by (rule less_le_trans)
  then have "unat w' < 256" using assms(7)
    by (simp add: word_less_nat_alt unsigned_ucast_eq take_bit_nat_eq_self)
  then have "w' < 2 ^ 8" by (simp add: word_less_nat_alt)
  then have "w' AND mask 8 = w'" by (rule less_mask_eq)
  then have w'_mask: "w' AND 0xFF = w'" by (simp add: mask_eq_exp_minus_1)
  have "corb_send_command mc cmd s = Inr (s \<lparr> device := store16 mc (hda_reg CORBWP) w'
      (store32 mc (corb_base (hda_corb s) + 4 * ucast w') cmd d') \<rparr>)"
    using full n(1) w'_mask assms(7)
    by (simp add: corb_send_command_def peek16_def poke16_def poke32_def from_device_def on_device_def
        sequencing Let_def assms(1-3))
  moreover have "ring_buffer_size (r AND 0xFF) w' (ucast n) = ucast n" if "w' = r AND 0xFF"
    using that by (simp add: ring_buffer_size_def)
  ultimately show ?thesis by simp
qed

theorem corb_send_command_never_waits_witness:
  "corb_send_command sample_machine 0xF0000 sample_hda = Inr (sample_hda \<lparr> device :=
     (\<lambda>_. 0)(HDA_RING_LOC + 4 := 0xF0000, hda_reg CORBWP := 1) \<rparr>) \<and>
   ring_buffer_size 1 1 2 = 2"
proof -
  let ?s = "sample_hda \<lparr> device := (\<lambda>_. 0)(hda_reg CORBRP := 1) \<rparr>"
  have c: "hda_corb sample_hda = \<lparr> corb_base = HDA_RING_LOC, corb_size = 8, corb_entries = 2 \<rparr>"
    "device sample_hda = (\<lambda>_. 0)"
    by (simp_all add: sample_hda_def)
  have m: "load16 sample_machine a d = (ucast (d a), d)" "store16 sample_machine a v d = d(a := ucast v)"
    "store32 sample_machine a x d = d(a := x)" for a d v x
    by (simp_all add: sample_machine_def)
  have one: "ring_buffer_size 1 1 2 = 2" by (simp add: ring_buffer_size_def)
  have "corb_send_command sample_machine 0xF0000 sample_hda = Inr (sample_hda \<lparr> device :=
      store16 sample_machine (hda_reg CORBWP) 1
        (store32 sample_machine (corb_base (hda_corb sample_hda) + 4 * ucast (1 :: u16)) 0xF0000 (\<lambda>_. 0)) \<rparr>)"
    using corb_send_command_never_waits [where mc = sample_machine and s = sample_hda and w = 0 and r = 0
        and n = 2 and w' = 1 and cmd = "0xF0000"]
    by (simp add: c m)
  then show ?thesis using one by (simp add: c m)
qed

text \<open>C35. With a single output path \<open>hda_test_sound\<close> faults: it takes the second element of the
  list of paths, so the read of its data goes through the null pointer.\<close>

theorem hda_test_sound_single_path_faults:
  assumes "list_at (list_nodes s) (lst_outputs (hda_afg s)) [x]" and "length (stack_bytes s) = BUFFER_LEN"
  shows "hda_test_sound mc s = Inl (Page_fault 0)"
proof -
  let ?l = "lst_outputs (hda_afg s)"
  have l: "list_head ?l = x" "x \<noteq> 0" "list_next (list_nodes s x) = 0" "0 <s list_size ?l"
    using assms(1) by (simp_all add: list_at_def word_sless_alt)
  obtain t where t: "kprint ''Paths: %u\<newline>'' [Num (ucast (list_size ?l))] s = Inr (s \<lparr> text_screen := t \<rparr>)"
    using kprint_returns [OF assms(2), of "''Paths: %u\<newline>''" "[Num (ucast (list_size ?l))]"]
    by (auto simp: conv_text_def)
  show ?thesis
    using l t by (simp add: hda_test_sound_def second_element_def sequencing Let_def)
qed

theorem hda_test_sound_single_path_faults_witness:
  "hda_test_sound sample_machine sample_hda = Inl (Page_fault 0)"
proof (rule hda_test_sound_single_path_faults)
  show "list_at (list_nodes sample_hda) (lst_outputs (hda_afg sample_hda)) [0x902000]"
    by (simp add: list_at_def sample_fields sample_links_def) (simp add: sample_hda_def)
  show "length (stack_bytes sample_hda) = BUFFER_LEN" by (simp add: sample_hda_def garbage_def)
qed

end
