(* ===== verification/Console.thy ===== *)
theory Console
  imports Hda Syscalls
begin

text \<open>
  What the kernel tells a person: \<open>arch/x86_64/panic.c\<close>, the serial port of \<open>serial.c\<close>, and the
  dump of a process that \<open>interrupts.c\<close> prints for an interrupt without a handler of its own.
\<close>

section \<open>Panic\<close>

text \<open>The message is printed and the processor halts for ever.\<close>

definition panic_loudly :: "string \<Rightarrow> ('d, 'z) drivers_scheme proc" where
  "panic_loudly message =
     seq (kprint ''%s - PANIC  \<newline>'' [Str (map of_char message)]) (\<lambda>s. Inl Hang)"

lemma panic_never_returns: "panic_loudly message s \<noteq> Inr s'"
  by (auto simp: panic_loudly_def)

section \<open>The serial port\<close>

definition SERIAL_PORT_A :: u16 where "SERIAL_PORT_A = 0x3F8"

definition init_serial_debug :: "'d machine \<Rightarrow> ('d, 'z) drivers_scheme proc" where
  "init_serial_debug mc =
     for_each [(1, 0x00), (3, 0x80), (0, 0x03), (1, 0x00), (3, 0x03), (2, 0xC7), (4, 0x08)]
       (\<lambda>(off, v). on_device (port_outb mc (SERIAL_PORT_A + off) v))"

definition serial_transmit_empty :: "'d machine \<Rightarrow> (('d, 'z) drivers_scheme, u8) call" where
  "serial_transmit_empty mc =
     bind (from_device (port_inb mc (SERIAL_PORT_A + 5))) (\<lambda>v. return (v AND 0x20))"

definition serial_char :: "'d machine \<Rightarrow> u8 \<Rightarrow> ('d, 'z) drivers_scheme proc" where
  "serial_char mc c =
     seq (wait_while (bind (serial_transmit_empty mc) (\<lambda>v. return (v = 0))))
       (on_device (port_outb mc SERIAL_PORT_A c))"

text \<open>
  The wait ends when the port reports an empty transmitter: \<open>later n\<close> is the device after \<open>n\<close>
  reads of the status.
\<close>

lemma wait_transmitter:
  assumes "\<And>i. i < n \<Longrightarrow> \<exists>v. port_inb mc (SERIAL_PORT_A + 5) (later i) = (v, later (Suc i)) \<and> v AND 0x20 = 0"
    and "port_inb mc (SERIAL_PORT_A + 5) (later n) = (v, later (Suc n))" and "v AND 0x20 \<noteq> 0"
    and "device s = later k" and "k \<le> n"
  shows "spin (bind (serial_transmit_empty mc) (\<lambda>v. return (v = 0))) s =
    Some (Inr (s \<lparr> device := later (Suc n) \<rparr>))"
  using assms(4,5)
proof (induction "n - k" arbitrary: k s)
  case 0
  then have "device s = later n" by simp
  then show ?case using assms(2,3)
    by (subst spin.simps) (simp add: serial_transmit_empty_def from_device_def sequencing)
next
  case (Suc m)
  then have "k < n" by simp
  from assms(1) [OF this] obtain v where v: "port_inb mc (SERIAL_PORT_A + 5) (later k) = (v, later (Suc k))"
    "v AND 0x20 = 0" by blast
  have "spin (bind (serial_transmit_empty mc) (\<lambda>v. return (v = 0))) (s \<lparr> device := later (Suc k) \<rparr>) =
      Some (Inr (s \<lparr> device := later (Suc k) \<rparr> \<lparr> device := later (Suc n) \<rparr>))"
  proof (rule Suc.hyps(1))
    show "m = n - Suc k" "Suc k \<le> n" using Suc.hyps(2) by arith+
  qed simp
  then show ?case using v Suc.prems(1)
    by (subst spin.simps) (simp add: serial_transmit_empty_def from_device_def sequencing)
qed

lemma serial_char_sends:
  assumes "\<And>i. i < n \<Longrightarrow> \<exists>v. port_inb mc (SERIAL_PORT_A + 5) (later i) = (v, later (Suc i)) \<and> v AND 0x20 = 0"
    and "port_inb mc (SERIAL_PORT_A + 5) (later n) = (v, later (Suc n))" and "v AND 0x20 \<noteq> 0"
    and "device s = later 0"
  shows "serial_char mc c s = Inr (s \<lparr> device := port_outb mc SERIAL_PORT_A c (later (Suc n)) \<rparr>)"
  using wait_transmitter [where mc = mc and later = later and n = n and k = 0, OF assms] 
  by (simp add: serial_char_def wait_while_def on_device_def seq_def)

section \<open>The dump of a process\<close>

text \<open>\<open>get\<close> gives the registers of the saved context.\<close>

definition dump_context :: "(reg \<Rightarrow> u64) \<Rightarrow> ('d, 'z) drivers_scheme proc" where
  "dump_context get =
     seq (kprint ''CONTEXT DUMP:\<newline>'' []) (
     kprints (map (\<lambda>(fmt, r). (fmt, [Num (get r)])) [
       (''RDI: 0x%x\<newline>'', RDI), (''RSI: 0x%x\<newline>'', RSI), (''RAX: 0x%x\<newline>'', RAX), (''RBX: 0x%x\<newline>'', RBX),
       (''RCX: 0x%x\<newline>'', RCX), (''RDX: 0x%x\<newline>'', RDX), (''rbp: 0x%x\<newline>'', RBP), (''r8 : 0x%x\<newline>'', R8),
       (''r9 : 0x%x\<newline>'', R9), (''r10: 0x%x\<newline>'', R10), (''r11: 0x%x\<newline>'', R11), (''r12: 0x%x\<newline>'', R12),
       (''r13: 0x%x\<newline>'', R13), (''r14: 0x%x\<newline>'', R14), (''r15: 0x%x\<newline>'', R15), (''vec: 0x%x\<newline>'', VECTOR),
       (''err: 0x%x\<newline>'', ERROR_CODE), (''cs : 0x%x\<newline>'', CS), (''rfl: 0x%x\<newline>'', RFLAGS), (''rsp: 0x%x\<newline>'', RSP),
       (''ss : 0x%x\<newline>'', SS), (''rip: 0x%x\<newline>'', RIP)]))"

text \<open>What \<open>default_handler\<close> prints before it acts.\<close>

definition report_interrupt :: "u64 \<Rightarrow> u64 \<Rightarrow> addr \<Rightarrow> addr \<Rightarrow> (reg \<Rightarrow> u64) \<Rightarrow> ('d, 'z) drivers_scheme proc" where
  "report_interrupt vector code pcb context_addr get =
     seq (kprints [
       (''Interrupt! vector: %u - Code: %u \<newline>'', [Num vector, Num code]), ('' PCB: 0x%x\<newline>'', [Num pcb]),
       ('' Context: 0x%x\<newline>'', [Num context_addr]), ('' Faulting address: 0x%x\<newline>'', [Num (get RIP)])])
       (dump_context get)"

text \<open>The dump always ends, whatever the registers hold, and changes the screen only.\<close>

lemma kprints_return:
  assumes "length (stack_bytes s) = BUFFER_LEN" and "\<forall>(fmt, args)\<in>set calls. fits (map of_char fmt) args"
  shows "\<exists>t. kprints calls s = Inr (s \<lparr> text_screen := t \<rparr>)"
  using assms
proof (induction calls arbitrary: s)
  case (Cons c calls)
  obtain fmt args where c: "c = (fmt, args)" by fastforce
  with Cons.prems kprint_returns [of s fmt args] obtain t where
    t: "kprint fmt args s = Inr (s \<lparr> text_screen := t \<rparr>)" by auto
  have "\<exists>t'. kprints calls (s \<lparr> text_screen := t \<rparr>) = Inr (s \<lparr> text_screen := t \<rparr> \<lparr> text_screen := t' \<rparr>)"
    using Cons.prems by (intro Cons.IH) simp_all
  then show ?case using t c by (auto simp: kprints_def)
next
  case Nil
  show ?case by (intro exI [of _ "text_screen s"]) (simp add: kprints_def)
qed

lemma dump_context_returns:
  assumes "length (stack_bytes s) = BUFFER_LEN"
  shows "\<exists>t. dump_context get s = Inr (s \<lparr> text_screen := t \<rparr>)"
proof -
  obtain t where t: "kprint ''CONTEXT DUMP:\<newline>'' [] s = Inr (s \<lparr> text_screen := t \<rparr>)"
    using kprint_returns [OF assms, of "''CONTEXT DUMP:\<newline>''" "[]"] by auto
  show ?thesis
    unfolding dump_context_def seq_def t and_then_simps
    using kprints_return [of "s \<lparr> text_screen := t \<rparr>"] assms by (fastforce simp: conv_text_def)
qed

end
