(* ===== verification/Startup.thy ===== *)
theory Startup
  imports MemMap Syscalls Textmode
begin

text \<open>
  \<open>kernel/kmain.c\<close>: the order in which the kernel's components are brought up, on the states of all
  of them, and what they have installed when the first process is started.
\<close>

text \<open>
  The arguments are what lies outside of the C code: the addresses of the page tables of the boot
  code, the memory map, the addresses of variables and stubs, and what the hardware answers while
  the timer is calibrated.  The calls of \<open>timer_init\<close> and \<open>sound_init\<close> are commented out.
\<close>

record boot =
  boot_PML4 :: addr
  boot_PDPTE :: addr
  boot_mmap :: mmap_array
  boot_mmap_size :: nat
  boot_init_pcb :: addr
  boot_TSS :: u64
  boot_stubs :: "u64 \<Rightarrow> u64"
  boot_edx :: u32
  boot_speaker :: "nat \<Rightarrow> u8"
  boot_count :: u32
  boot_init_location :: addr
  boot_slot :: addr

definition bring_up_memory :: "boot \<Rightarrow> kernel \<times> textmode \<Rightarrow> (kernel \<times> textmode) res" where
  "bring_up_memory b = (\<lambda>(s, t).
     let s = s \<lparr> kernel_table := boot_PML4 b \<rparr>;
         t = clear_screen (init_text_mode t)
     in and_then (virt_memory_init (boot_PML4 b) (boot_PDPTE b) (ph s) (boot_mmap b) (boot_mmap_size b)) (\<lambda>st.
        Inr (s \<lparr> ph := st, kernel_WaterMark := alloc_init \<rparr>, t)))"

definition bring_up_interrupts :: "boot \<Rightarrow> kernel \<Rightarrow> kernel res" where
  "bring_up_interrupts b s =
     and_then (interrupts_init (boot_init_pcb b) (boot_TSS b) (boot_stubs b) (boot_edx b) (boot_speaker b)
       (boot_count b) s) (\<lambda>s. Inr (s \<lparr> kcpu := keyboard_init (kcpu s) \<rparr>))"

definition kmain ::
  "boot \<Rightarrow> (u64 \<Rightarrow> syscall) \<Rightarrow> kernel \<times> textmode \<Rightarrow> ((u64 \<Rightarrow> syscall) \<times> kernel \<times> textmode) res" where
  "kmain b syscall_functions st =
     and_then (bring_up_memory b st) (\<lambda>(s, t).
     and_then (bring_up_interrupts b s) (\<lambda>s.
     and_then (scheduler_init s) (\<lambda>s.
     case syscalls_init syscall_functions (kcpu s) of (syscall_functions, c) \<Rightarrow>
     and_then (create_init_process (boot_init_location b) (boot_slot b) (s \<lparr> kcpu := c \<rparr>)) (\<lambda>s.
       Inr (syscall_functions, s, t)))))"

section \<open>What is installed\<close>

text \<open>The steps behind \<open>interrupts_init\<close> leave the tables of handlers alone.\<close>

definition same_tables :: "cpu \<Rightarrow> cpu \<Rightarrow> bool" where
  "same_tables c c' \<longleftrightarrow> idt c' = idt c \<and> isr_table c' = isr_table c"

lemma scheduler_init_cpu: "scheduler_init s = Inr s' \<Longrightarrow> kcpu s' = kcpu s"
  by (auto simp: scheduler_init_def kernel_alloc_def Let_def)

lemma create_init_process_tables:
  assumes "create_init_process loc slot s = Inr s'"
  shows "same_tables (kcpu s) (kcpu s')"
proof -
  have "kcpu s2 = kcpu s" if "alloc_pcb s = Inr (p, s2)" for p s2
    using that by (auto simp: alloc_pcb_def Let_def split: prod.splits if_splits)
  then show ?thesis using assms
    by (auto simp: create_init_process_def same_tables_def Let_def timer_start_def timer_set_delay_def
        tss_set_context_stack_def set_lapic_def virt_switch_page_table_def split: if_splits prod.splits)
qed

lemma apic_init_tables:
  assumes "apic_init kt edx speaker count st c = Inr (st', c')"
  shows "idt c' = idt c \<and> isr_table c' = (isr_table c)(32 := Timer_handler)"
  using assms
  by (auto simp: apic_init_def pic_init_def calibrate_timer_def enable_apic_def set_lapic_def outb_def
      interrupts_install_isr_def Let_def split: if_splits prod.splits)

text \<open>
  When the kernel reaches its first process, the gates lead to their stubs, and behind the stubs are
  the handlers of the timer, the keyboard and the system calls, whose table is complete.
\<close>

lemma kmain_installs_handlers:
  assumes "kmain b f st = Inr (f', s', t')"
  shows "\<forall>i<256. gate_target (idt (kcpu s') (of_nat i)) = boot_stubs b (of_nat i) \<and>
      isr_table (kcpu s') (of_nat i) =
        (if i = 32 then Timer_handler else if i = 33 then Keyboard_handler
         else if i = 36 then Serial_handler else if i = 39 then Spurious_handler
         else if i = 0x80 then Syscall_interrupt else Default_handler)"
    and "f' 0 = Fork \<and> f' 1 = Exec \<and> f' SYSCALL_EXIT = Exit \<and> f' 3 = MSleep \<and> f' 4 = Set_priority \<and>
      f' 5 = Key_avail \<and> f' 6 = Get_key"
proof -
  from assms obtain s t s1 s2 c where
    k: "bring_up_interrupts b s = Inr s1" "scheduler_init s1 = Inr s2" "syscalls_init f (kcpu s2) = (f', c)"
      "create_init_process (boot_init_location b) (boot_slot b) (s2 \<lparr> kcpu := c \<rparr>) = Inr s'"
    by (cases st) (auto simp: kmain_def split: prod.splits)
  from k(1) obtain c1 c2 st1 where
    c: "fill_idt (boot_stubs b) c1 = Inr c2" and
    ap: "\<exists>kt st0 st1 c3. apic_init kt (boot_edx b) (boot_speaker b) (boot_count b) st0 c2 = Inr (st1, c3) \<and>
      kcpu s1 = keyboard_init c3"
    by (auto simp: bring_up_interrupts_def interrupts_init_def Let_def) blast
  then obtain c3 where c3: "idt c3 = idt c2" "isr_table c3 = (isr_table c2)(32 := Timer_handler)"
    "kcpu s1 = keyboard_init c3"
    using apic_init_tables by metis
  have g: "\<forall>i<256. gate_target (idt c2 (of_nat i)) = boot_stubs b (of_nat i) \<and> isr_table c2 (of_nat i) =
      (if i = 36 then Serial_handler else if i = 39 then Spurious_handler else Default_handler)"
    using fill_idt_gates [of "boot_stubs b" c1] c by auto
  have t: "idt (kcpu s') = idt c2"
    "isr_table (kcpu s') = (isr_table c2)(32 := Timer_handler, 33 := Keyboard_handler, 0x80 := Syscall_interrupt)"
    using create_init_process_tables [OF k(4)] scheduler_init_cpu [OF k(2)] k(3) c3
    by (auto simp: same_tables_def syscalls_init_def keyboard_init_def interrupts_install_isr_def)
  show "f' 0 = Fork \<and> f' 1 = Exec \<and> f' SYSCALL_EXIT = Exit \<and> f' 3 = MSleep \<and> f' 4 = Set_priority \<and>
      f' 5 = Key_avail \<and> f' 6 = Get_key"
    using k(3) by (auto simp: syscalls_init_def)
  show "\<forall>i<256. gate_target (idt (kcpu s') (of_nat i)) = boot_stubs b (of_nat i) \<and>
      isr_table (kcpu s') (of_nat i) =
        (if i = 32 then Timer_handler else if i = 33 then Keyboard_handler
         else if i = 36 then Serial_handler else if i = 39 then Spurious_handler
         else if i = 0x80 then Syscall_interrupt else Default_handler)"
  proof (intro allI impI)
    fix i :: nat assume i: "i < 256"
    have eq: "(of_nat i :: u64) = of_nat k \<longleftrightarrow> i = k" if "k < 256" for k
      using i that by (intro of_nat_u64_inject) simp_all
    show "gate_target (idt (kcpu s') (of_nat i)) = boot_stubs b (of_nat i) \<and>
      isr_table (kcpu s') (of_nat i) =
        (if i = 32 then Timer_handler else if i = 33 then Keyboard_handler
         else if i = 36 then Serial_handler else if i = 39 then Spurious_handler
         else if i = 0x80 then Syscall_interrupt else Default_handler)"
      using g i eq [of 32] eq [of 33] eq [of 128] by (auto simp: t)
  qed
qed

end
