(* ===== verification/Vga.thy ===== *)
theory Vga
  imports Prelude
begin

text \<open>
  The library of the user programs: \<open>programs/src/init/vga.c\<close> (the text screen mapped into every
  process), \<open>rand.c\<close> and \<open>string.c\<close>.  The video memory is indexed by integers, so that an access
  outside of the 2000 cells of the screen shows as one; a C string is the list of its bytes.
\<close>

section \<open>Screen\<close>

abbreviation SCREEN_X :: nat where "SCREEN_X \<equiv> 80"
abbreviation SCREEN_Y :: nat where "SCREEN_Y \<equiv> 25"

record color_t =
  fg :: "4 word"
  bg :: "3 word"
  blink :: "1 word"

record vga =
  video_cells :: "int \<Rightarrow> u8 \<times> color_t"
  info_x :: u16
  info_y :: u16
  info_color :: color_t

definition color_of :: "4 word \<Rightarrow> 3 word \<Rightarrow> color_t" where
  "color_of f b = \<lparr> fg = f, bg = b, blink = 0 \<rparr>"

definition set_cell :: "int \<Rightarrow> u8 \<Rightarrow> color_t \<Rightarrow> vga \<Rightarrow> vga" where
  "set_cell offset c color v = v \<lparr> video_cells := (video_cells v)(offset := (c, color)) \<rparr>"

definition clear_screen_vga :: "vga \<Rightarrow> vga" where
  "clear_screen_vga v = v \<lparr> video_cells :=
     (\<lambda>i. if 0 \<le> i \<and> i < int (SCREEN_X * SCREEN_Y) then (0, color_of 0 0) else video_cells v i) \<rparr>"

definition text_get_x :: "vga \<Rightarrow> u16" where "text_get_x v = info_x v"
definition text_get_y :: "vga \<Rightarrow> u16" where "text_get_y v = info_y v"

definition text_set_pos :: "u8 \<Rightarrow> u8 \<Rightarrow> vga \<Rightarrow> vga" where
  "text_set_pos x y v = v \<lparr> info_x := ucast x, info_y := ucast y \<rparr>"

definition cursor_offset :: "vga \<Rightarrow> int" where
  "cursor_offset v = uint (info_y v) * int SCREEN_X + uint (info_x v)"

definition text_mode_char_vga :: "u8 \<Rightarrow> vga \<Rightarrow> vga" where
  "text_mode_char_vga c v =
     (if c = 0x0D \<or> c = 0x0A
      then
        let v = v \<lparr> info_x := 0, info_y := info_y v + 1 \<rparr>
        in if unat (info_y v) \<ge> SCREEN_Y then v \<lparr> info_y := 0 \<rparr> else v
      else if c = 0x08
      then
        let v = (if info_x v = 0
                 then let v = v \<lparr> info_x := of_nat SCREEN_X \<rparr>
                      in if info_y v > 0 then v \<lparr> info_y := info_y v - 1 \<rparr> else v
                 else v);
            v = v \<lparr> info_x := info_x v - 1 \<rparr>
        in set_cell (cursor_offset v) 0x20 (info_color v) v
      else
        let v = set_cell (cursor_offset v) c (info_color v) v;
            v = v \<lparr> info_x := info_x v + 1 \<rparr>
        in if unat (info_x v) \<ge> SCREEN_X
           then
             let v = v \<lparr> info_x := 0, info_y := info_y v + 1 \<rparr>
             in if unat (info_y v) \<ge> SCREEN_Y then v \<lparr> info_y := 0 \<rparr> else v
           else v)"

fun text_mode_string :: "u8 list \<Rightarrow> vga \<Rightarrow> vga" where
  "text_mode_string [] v = v"
| "text_mode_string (c # str) v = text_mode_string str (text_mode_char_vga c v)"

section \<open>Random numbers\<close>

definition seed :: "u64 \<Rightarrow> u32" where
  "seed s = ucast s"

text \<open>The number and the next state of the generator.\<close>

definition random32 :: "u32 \<Rightarrow> u32 \<times> u32" where
  "random32 n = (let n = n * 1103515245 + 12345 in ((n div 65536) mod 32768, n))"

definition rand :: "u32 \<Rightarrow> u64 \<times> u32" where
  "rand n = (case random32 n of (r, n) \<Rightarrow> (ucast r, n))"

section \<open>Strings\<close>

fun strlen :: "u8 list \<Rightarrow> u64" where
  "strlen [] = 0"
| "strlen (c # str) = strlen str + 1"

fun streq :: "u8 list \<Rightarrow> u8 list \<Rightarrow> bool" where
  "streq (c1 # str1) (c2 # str2) = (if c1 \<noteq> c2 then False else streq str1 str2)"
| "streq str1 str2 \<longleftrightarrow> str1 = [] \<and> str2 = []"

lemma streq_eq: "streq s t \<longleftrightarrow> s = t"
  by (induction s t rule: streq.induct) auto

lemma strlen_eq: "strlen s = of_nat (length s)"
  by (induction s) simp_all

section \<open>The cursor stays on the screen\<close>

definition on_screen :: "vga \<Rightarrow> bool" where
  "on_screen v \<longleftrightarrow> unat (info_x v) < SCREEN_X \<and> unat (info_y v) < SCREEN_Y"

text \<open>Cells outside of the screen are the same.\<close>

definition same_outside :: "vga \<Rightarrow> vga \<Rightarrow> bool" where
  "same_outside v v' \<longleftrightarrow> (\<forall>i. i < 0 \<or> int (SCREEN_X * SCREEN_Y) \<le> i \<longrightarrow> video_cells v' i = video_cells v i)"

lemma same_outside_refl [simp, intro]: "same_outside v v"
  by (simp add: same_outside_def)

lemma same_outside_trans [trans]: "same_outside v v' \<Longrightarrow> same_outside v' v'' \<Longrightarrow> same_outside v v''"
  by (simp add: same_outside_def)

lemma same_outside_simps [simp]:
  "same_outside v (v' \<lparr> info_x := x \<rparr>) = same_outside v v'" "same_outside v (v' \<lparr> info_y := y \<rparr>) = same_outside v v'"
  "same_outside v (v' \<lparr> info_color := c \<rparr>) = same_outside v v'"
  by (simp_all add: same_outside_def)

lemma same_outside_cell:
  "same_outside v v' \<Longrightarrow> 0 \<le> i \<Longrightarrow> i < int (SCREEN_X * SCREEN_Y) \<Longrightarrow> same_outside v (set_cell i c color v')"
  by (auto simp: same_outside_def set_cell_def)

lemma set_cell_fields [simp]:
  "info_x (set_cell i c color v) = info_x v" "info_y (set_cell i c color v) = info_y v"
  "info_color (set_cell i c color v) = info_color v"
  by (simp_all add: set_cell_def)

lemma cursor_offset_bounds:
  assumes "on_screen v"
  shows "0 \<le> cursor_offset v" and "cursor_offset v < int (SCREEN_X * SCREEN_Y)"
proof -
  have "uint (info_x v) = int (unat (info_x v))" and "uint (info_y v) = int (unat (info_y v))" by simp_all
  with assms have x: "uint (info_x v) < 80" and y: "uint (info_y v) \<le> 24"
    unfolding on_screen_def by linarith+
  with x show "cursor_offset v < int (SCREEN_X * SCREEN_Y)" by (simp add: cursor_offset_def)
  show "0 \<le> cursor_offset v" by (simp add: cursor_offset_def)
qed

lemma unat_u16_add1: "unat (y :: u16) < 65535 \<Longrightarrow> unat (y + 1) = Suc (unat y)"
  by (simp add: unat_word_ariths)

text \<open>A cursor that went one line down, and back to the top after the last line.\<close>

lemma line_down:
  assumes "unat (info_y v) < SCREEN_Y"
  defines "v' \<equiv> v \<lparr> info_x := 0, info_y := info_y v + 1 \<rparr>"
  shows "on_screen (if unat (info_y v') \<ge> SCREEN_Y then v' \<lparr> info_y := 0 \<rparr> else v')"
  using assms unat_u16_add1 [of "info_y v"] by (auto simp: on_screen_def)

lemma char_on_screen:
  assumes "on_screen v"
  shows "on_screen (text_mode_char_vga c v)" and "same_outside v (text_mode_char_vga c v)"
proof -
  have x: "unat (info_x v) < SCREEN_X" and y: "unat (info_y v) < SCREEN_Y"
    using assms by (simp_all add: on_screen_def)
  have x1: "unat (info_x v + 1) = Suc (unat (info_x v))" using x by (intro unat_u16_add1) simp
  have dec: "unat (w - 1) = unat w - 1" if "w \<noteq> 0" for w :: u16 using that by (rule unat_minus_one)
  define b where "b = (let v = (if info_x v = 0
                 then let v = v \<lparr> info_x := of_nat SCREEN_X \<rparr>
                      in if info_y v > 0 then v \<lparr> info_y := info_y v - 1 \<rparr> else v
                 else v) in v \<lparr> info_x := info_x v - 1 \<rparr>)"
  have b: "on_screen b"
  proof (cases "info_x v = 0")
    case True
    then show ?thesis using y dec [of "info_y v"] by (auto simp: b_def on_screen_def Let_def)
  next
    case False
    then show ?thesis using x y dec [of "info_x v"] by (simp add: b_def on_screen_def Let_def)
  qed
  have bo: "same_outside v b" by (simp add: b_def Let_def)
  define p where "p = set_cell (cursor_offset v) c (info_color v) v"
  have p: "info_x p = info_x v" "info_y p = info_y v" by (simp_all add: p_def)
  have po: "same_outside v p"
    unfolding p_def by (rule same_outside_cell [OF same_outside_refl cursor_offset_bounds [OF assms]])
  define e where "e = (let v = p \<lparr> info_x := info_x p + 1 \<rparr>
        in if unat (info_x v) \<ge> SCREEN_X
           then let v = v \<lparr> info_x := 0, info_y := info_y v + 1 \<rparr>
                in if unat (info_y v) \<ge> SCREEN_Y then v \<lparr> info_y := 0 \<rparr> else v
           else v)"
  have e: "on_screen e"
  proof (cases "unat (info_x v + 1) \<ge> SCREEN_X")
    case True
    then show ?thesis using line_down [of p] y by (auto simp: e_def p Let_def split: if_splits)
  next
    case False
    then show ?thesis using y by (simp add: e_def p on_screen_def Let_def)
  qed
  have eo: "same_outside v e" using po by (simp add: e_def Let_def)
  have eq: "text_mode_char_vga c v =
     (if c = 0x0D \<or> c = 0x0A
      then let v = v \<lparr> info_x := 0, info_y := info_y v + 1 \<rparr>
           in if unat (info_y v) \<ge> SCREEN_Y then v \<lparr> info_y := 0 \<rparr> else v
      else if c = 0x08 then set_cell (cursor_offset b) 0x20 (info_color b) b else e)"
    unfolding text_mode_char_vga_def b_def e_def p_def Let_def by (rule refl)
  have bs: "on_screen (set_cell (cursor_offset b) 0x20 (info_color b) b)"
    "same_outside v (set_cell (cursor_offset b) 0x20 (info_color b) b)"
    using b by (simp add: on_screen_def) (rule same_outside_cell [OF bo cursor_offset_bounds [OF b]])
  show "on_screen (text_mode_char_vga c v)"
    using line_down [OF y] bs e by (simp add: eq Let_def)
  show "same_outside v (text_mode_char_vga c v)"
    using bs eo by (simp add: eq Let_def)
qed

lemma string_on_screen:
  "on_screen v \<Longrightarrow> on_screen (text_mode_string str v) \<and> same_outside v (text_mode_string str v)"
proof (induction str arbitrary: v)
  case Nil
  then show ?case by simp
next
  case (Cons c str)
  from Cons.IH [OF char_on_screen(1) [OF Cons.prems]] char_on_screen(2) [OF Cons.prems, of c]
  show ?case by (auto intro: same_outside_trans)
qed

end
