(* ===== verification/Tetris.thy ===== *)
theory Tetris
  imports Vga "HOL-Library.Signed_Division"
begin

text \<open>
  \<open>programs/src/init/tetris.c\<close>: the game.  The static variables are the record \<open>game\<close>; the
  board, indexed by column and line, is a function of two integers, so that an index outside of
  it shows as one.  The \<open>int32_t\<close> coordinates are integers (they stay between -2 and 80).
  The argument \<open>keys\<close> of an update is what \<open>get_key\<close> returns until \<open>key_available\<close> is 0.
\<close>

section \<open>Pieces\<close>

datatype piece = P_I | P_J | P_L | P_O | P_S | P_T | P_Z | P_E

primrec piece_index :: "piece \<Rightarrow> nat" where
  "piece_index P_I = 0" | "piece_index P_J = 1" | "piece_index P_L = 2" | "piece_index P_O = 3"
| "piece_index P_S = 4" | "piece_index P_T = 5" | "piece_index P_Z = 6" | "piece_index P_E = 7"

definition pieces :: "piece list" where
  "pieces = [P_I, P_J, P_L, P_O, P_S, P_T, P_Z, P_E]"

abbreviation NUM_PIECES :: u64 where "NUM_PIECES \<equiv> 7"

text \<open>The offsets of the four blocks of a piece, for each rotation.\<close>

definition block_offsets :: "(int list \<times> int list) list list" where
  "block_offsets =
    [[([-1, 0, 1, 2], [0, 0, 0, 0]),
      ([-1, 0, 1, 1], [0, 0, 0, 1]),
      ([-1, -1, 0, 1], [0, 1, 0, 0]),
      ([0, 1, 0, 1], [0, 0, 1, 1]),
      ([-1, 0, 0, 1], [1, 1, 0, 0]),
      ([-1, 0, 0, 1], [0, 0, 1, 0]),
      ([-1, 0, 0, 1], [0, 0, 1, 1])],
     [([0, 0, 0, 0], [-1, 0, 1, 2]),
      ([0, 0, 0, -1], [-1, 0, 1, 1]),
      ([-1, 0, 0, 0], [-1, -1, 0, 1]),
      ([0, 1, 0, 1], [0, 0, 1, 1]),
      ([-1, -1, 0, 0], [-1, 0, 0, 1]),
      ([0, 0, -1, 0], [-1, 0, 0, 1]),
      ([0, 0, 1, 1], [1, 0, 0, -1])],
     [([-1, 0, 1, 2], [0, 0, 0, 0]),
      ([1, 0, -1, -1], [0, 0, 0, -1]),
      ([1, 1, 0, -1], [0, -1, 0, 0]),
      ([0, 1, 0, 1], [0, 0, 1, 1]),
      ([-1, 0, 0, 1], [1, 1, 0, 0]),
      ([-1, 0, 0, 1], [0, 0, -1, 0]),
      ([-1, 0, 0, 1], [0, 0, 1, 1])],
     [([0, 0, 0, 0], [-1, 0, 1, 2]),
      ([0, 0, 0, 1], [1, 0, -1, -1]),
      ([1, 0, 0, 0], [1, 1, 0, -1]),
      ([0, 1, 0, 1], [0, 0, 1, 1]),
      ([-1, -1, 0, 0], [-1, 0, 0, 1]),
      ([0, 0, 1, 0], [-1, 0, 0, 1]),
      ([0, 0, 1, 1], [1, 0, 0, -1])]]"

definition arr_x :: "u8 \<Rightarrow> piece \<Rightarrow> nat \<Rightarrow> int" where
  "arr_x rotation p i = fst (block_offsets ! unat rotation ! piece_index p) ! i"

definition arr_y :: "u8 \<Rightarrow> piece \<Rightarrow> nat \<Rightarrow> int" where
  "arr_y rotation p i = snd (block_offsets ! unat rotation ! piece_index p) ! i"

definition piece_colors :: "piece \<Rightarrow> color_t" where
  "piece_colors p =
     [color_of 0 2, color_of 0 3, color_of 0 1, color_of 0 4, color_of 0 5, color_of 0 2, color_of 0 6, color_of 0 0]
       ! piece_index p"

section \<open>State\<close>

datatype game_state = SPAWN_BLOCK | SHIFT_DOWN_BLOCKS | LINE_CHECK | LINE_CHECK_FLASH | PAUSE | GAME_OVER

record pressed =
  quit_pressed :: bool
  rotate_pressed :: bool
  left_pressed :: bool
  right_pressed :: bool
  drop_pressed :: bool
  pause_pressed :: bool
  down_pressed :: bool

record game =
  screen :: vga
  rand_state :: u32
  gameboard :: "int \<Rightarrow> int \<Rightarrow> piece"
  current_piece :: piece
  next_piece :: piece
  gstate :: game_state
  state_pause_prev :: game_state
  quit :: bool
  full_lines :: "int \<Rightarrow> bool"
  current_rotation :: u8
  piece_origin_x :: int
  piece_origin_y :: int
  ticks :: u32
  flash_ticks :: u32
  flash_count :: u32
  ticks_per_drop :: u32
  lines_cleared :: u64
  score :: u64
  buttons :: pressed

abbreviation BOARD_X :: int where "BOARD_X \<equiv> 10"
abbreviation BOARD_Y :: int where "BOARD_Y \<equiv> 20"
abbreviation BOARD_ORIGIN_X :: int where "BOARD_ORIGIN_X \<equiv> 30"
abbreviation BOARD_ORIGIN_Y :: int where "BOARD_ORIGIN_Y \<equiv> 2"
abbreviation TICKS_PER_SEC_DEFAULT :: u32 where "TICKS_PER_SEC_DEFAULT \<equiv> 62"
abbreviation TICKS_PER_FLASH :: u32 where "TICKS_PER_FLASH \<equiv> 1"
abbreviation NUM_FLASHES :: u32 where "NUM_FLASHES \<equiv> 6"
abbreviation SCORE_LOC_X :: int where "SCORE_LOC_X \<equiv> BOARD_ORIGIN_X + BOARD_X * 2 + 4"
abbreviation SCORE_LOC_Y :: int where "SCORE_LOC_Y \<equiv> BOARD_ORIGIN_Y"
abbreviation SCORE_LEN :: nat where "SCORE_LEN \<equiv> 10"
abbreviation NEXT_PIECE_ORIGIN_X :: int where "NEXT_PIECE_ORIGIN_X \<equiv> BOARD_ORIGIN_X - 17"
abbreviation NEXT_PIECE_ORIGIN_Y :: int where "NEXT_PIECE_ORIGIN_Y \<equiv> BOARD_ORIGIN_Y"
abbreviation NEXT_PIECE_SIZE_X :: int where "NEXT_PIECE_SIZE_X \<equiv> 12"
abbreviation NEXT_PIECE_SIZE_Y :: int where "NEXT_PIECE_SIZE_Y \<equiv> 4"
abbreviation MAX_VGA_Y :: int where "MAX_VGA_Y \<equiv> BOARD_ORIGIN_Y + BOARD_Y"
abbreviation MAX_X :: int where "MAX_X \<equiv> 80"

definition background_color :: color_t where "background_color = color_of 0 0"
definition border_color :: color_t where "border_color = color_of 0 7"
definition score_color :: color_t where "score_color = color_of 7 0"
definition game_over_color :: color_t where "game_over_color = color_of 4 7"

definition SCREEN_X_TO_BOARD_X :: "int \<Rightarrow> int" where
  "SCREEN_X_TO_BOARD_X x = (x - BOARD_ORIGIN_X) sdiv 2"

definition SCREEN_Y_TO_BOARD_Y :: "int \<Rightarrow> int" where
  "SCREEN_Y_TO_BOARD_Y y = y - BOARD_ORIGIN_Y"

definition reset_tetris :: "game \<Rightarrow> game" where
  "reset_tetris g = g \<lparr> quit := False, gstate := SPAWN_BLOCK, state_pause_prev := SPAWN_BLOCK,
     current_piece := P_I, current_rotation := 0, next_piece := P_I, piece_origin_x := 0,
     piece_origin_y := 0, ticks := 0, flash_ticks := 0, flash_count := 0,
     ticks_per_drop := TICKS_PER_SEC_DEFAULT, lines_cleared := 0, score := 0 \<rparr>"

section \<open>Drawing\<close>

definition draw :: "(vga \<Rightarrow> vga) \<Rightarrow> game \<Rightarrow> game" where
  "draw f g = g \<lparr> screen := f (screen g) \<rparr>"

text \<open>The cells of a list of offsets.\<close>

definition paint :: "color_t \<Rightarrow> int list \<Rightarrow> vga \<Rightarrow> vga" where
  "paint color offs v = foldl (\<lambda>v off. set_cell off 0x20 color v) v offs"

definition game_over_text :: "u8 list" where
  "game_over_text = [0x47, 0x61, 0x6D, 0x65, 0x20, 0x4F, 0x76, 0x65, 0x72, 0x21]"

definition score_text :: "u8 list" where
  "score_text = [0x53, 0x63, 0x6F, 0x72, 0x65, 0x3A]"

definition draw_game_over :: "game \<Rightarrow> game" where
  "draw_game_over = draw (\<lambda>v.
     let start_x = BOARD_ORIGIN_X + (BOARD_X * 2 - 8) div 2;
         start_y = BOARD_ORIGIN_Y + BOARD_Y div 2
     in text_mode_string game_over_text
          (v \<lparr> info_x := of_int start_x, info_y := of_int start_y, info_color := game_over_color \<rparr>))"

text \<open>The digits of the score from the right: the loop over the digits and the one over the zeros.\<close>

fun draw_digits :: "nat \<Rightarrow> u64 \<Rightarrow> int \<Rightarrow> vga \<Rightarrow> vga" where
  "draw_digits 0 score_temp screen_x v = v"
| "draw_digits (Suc n) score_temp screen_x v =
     (if score_temp \<noteq> 0
      then draw_digits n (score_temp div 10) (screen_x - 1)
             (text_mode_char_vga (0x30 + ucast (score_temp mod 10)) (v \<lparr> info_x := of_int screen_x \<rparr>))
      else draw_digits n 0 (screen_x - 1) (text_mode_char_vga 0x30 (v \<lparr> info_x := of_int screen_x \<rparr>)))"

definition draw_score :: "game \<Rightarrow> game" where
  "draw_score g = draw (\<lambda>v.
     draw_digits SCORE_LEN (score g) (SCORE_LOC_X + int SCORE_LEN - 1) (v \<lparr> info_y := of_int SCORE_LOC_Y \<rparr>)) g"

definition draw_game_borders :: "game \<Rightarrow> game" where
  "draw_game_borders g =
     (let g = draw (\<lambda>v. text_mode_string score_text
            (v \<lparr> info_x := of_int SCORE_LOC_X, info_y := of_int (SCORE_LOC_Y - 1), info_color := score_color \<rparr>)) g;
          g = draw_score g;
          max_x = BOARD_ORIGIN_X + BOARD_X * 2;
          max_next_x = NEXT_PIECE_ORIGIN_X + NEXT_PIECE_SIZE_X + 1;
          max_next_y = NEXT_PIECE_ORIGIN_Y + NEXT_PIECE_SIZE_Y + 1
      in draw (\<lambda>v.
           let v = paint border_color (concat (map (\<lambda>x.
                     [(BOARD_ORIGIN_Y - 1) * MAX_X + x, MAX_VGA_Y * MAX_X + x]) [BOARD_ORIGIN_X - 1..max_x])) v;
               v = paint border_color (concat (map (\<lambda>y.
                     [y * MAX_X + (BOARD_ORIGIN_X - 1), y * MAX_X + max_x]) [BOARD_ORIGIN_Y - 1..MAX_VGA_Y])) v;
               v = paint border_color (concat (map (\<lambda>x.
                     [(NEXT_PIECE_ORIGIN_Y - 1) * MAX_X + x,
                      (NEXT_PIECE_ORIGIN_Y + NEXT_PIECE_SIZE_Y + 1) * MAX_X + x]) [NEXT_PIECE_ORIGIN_X - 1..max_next_x])) v
           in paint border_color (concat (map (\<lambda>y.
                     [y * MAX_X + NEXT_PIECE_ORIGIN_X - 1, y * MAX_X + max_next_x]) [NEXT_PIECE_ORIGIN_Y - 1..max_next_y])) v) g)"

definition draw_piece :: "int \<Rightarrow> int \<Rightarrow> u8 \<Rightarrow> piece \<Rightarrow> color_t \<Rightarrow> game \<Rightarrow> game" where
  "draw_piece ox oy rotation p color = draw (\<lambda>v. foldl (\<lambda>v i.
     let px = arr_x rotation p i * 2 + ox;
         py = arr_y rotation p i + oy;
         off1 = py * MAX_X + px
     in set_cell (off1 + 1) 0x20 color (set_cell off1 0x20 color v)) v [0..<4])"

definition draw_current_piece :: "game \<Rightarrow> game" where
  "draw_current_piece g =
     draw_piece (piece_origin_x g) (piece_origin_y g) (current_rotation g) (current_piece g)
       (piece_colors (current_piece g)) g"

definition draw_gameboard_line :: "int \<Rightarrow> bool \<Rightarrow> color_t \<Rightarrow> game \<Rightarrow> game" where
  "draw_gameboard_line line solid color g =
     (let sy = BOARD_ORIGIN_Y + line;
          sx = BOARD_ORIGIN_X
      in draw (\<lambda>v. foldl (\<lambda>v x.
           let which_color = (if solid then color else piece_colors (gameboard g x line));
               off1 = sy * MAX_X + (sx + x * 2)
           in set_cell (off1 + 1) 0x20 which_color (set_cell off1 0x20 which_color v)) v [0..BOARD_X - 1]) g)"

definition draw_flash_lines :: "game \<Rightarrow> game" where
  "draw_flash_lines g =
     (let solid_line = (flash_count g AND 0x1 \<noteq> 0)
      in foldl (\<lambda>g i. if full_lines g i then draw_gameboard_line i solid_line border_color g else g) g
           [0..BOARD_Y - 1])"

definition clear_next_piece_box :: "game \<Rightarrow> game" where
  "clear_next_piece_box = draw (paint background_color
     (concat (map (\<lambda>y. map (\<lambda>x. (y + NEXT_PIECE_ORIGIN_Y) * MAX_X + (x + NEXT_PIECE_ORIGIN_X))
        [0..NEXT_PIECE_SIZE_X - 1]) [0..NEXT_PIECE_SIZE_Y - 1])))"

definition draw_next_piece :: "game \<Rightarrow> game" where
  "draw_next_piece g =
     draw_piece (NEXT_PIECE_ORIGIN_X + NEXT_PIECE_SIZE_X div 2 - 1) (NEXT_PIECE_ORIGIN_Y + NEXT_PIECE_SIZE_Y div 2)
       0 (next_piece g) (piece_colors (next_piece g)) g"

section \<open>Moving the piece\<close>

definition choose_piece :: "game \<Rightarrow> game" where
  "choose_piece g =
     (case rand (rand_state g) of (r, n) \<Rightarrow>
        g \<lparr> rand_state := n, next_piece := pieces ! unat (r mod NUM_PIECES) \<rparr>)"

definition check_collision :: "game \<Rightarrow> int \<Rightarrow> int \<Rightarrow> u8 \<Rightarrow> piece \<Rightarrow> bool" where
  "check_collision g ox oy rotation p =
     list_ex (\<lambda>i.
       let px = arr_x rotation p i + ox;
           py = arr_y rotation p i + oy
       in px < 0 \<or> px \<ge> BOARD_X \<or> py < 0 \<or> py \<ge> BOARD_Y \<or> gameboard g px py \<noteq> P_E) [0..<4]"

definition shift_down :: "game \<Rightarrow> bool \<times> game" where
  "shift_down g =
     (let adjusted_origin_x = SCREEN_X_TO_BOARD_X (piece_origin_x g);
          adjusted_origin_y = SCREEN_Y_TO_BOARD_Y (piece_origin_y g)
      in if check_collision g adjusted_origin_x (adjusted_origin_y + 1) (current_rotation g) (current_piece g)
         then (True, g)
         else (False, g \<lparr> piece_origin_y := piece_origin_y g + 1 \<rparr>))"

definition update_score :: "game \<Rightarrow> game" where
  "update_score g =
     (let num_lines = of_nat (length (filter (full_lines g) [0..BOARD_Y - 1])) :: u32;
          g = g \<lparr> lines_cleared := lines_cleared g + ucast num_lines \<rparr>;
          g = (if lines_cleared g \<ge> 10
               then
                 let g = g \<lparr> ticks_per_drop := ticks_per_drop g - 1 \<rparr>
                 in if ticks_per_drop g < 10 then g \<lparr> ticks_per_drop := 10 \<rparr> else g
               else g);
          g = g \<lparr> score := score g + ucast (num_lines * 100) \<rparr>
      in draw_score g)"

definition no_buttons :: pressed where
  "no_buttons = \<lparr> quit_pressed = False, rotate_pressed = False, left_pressed = False, right_pressed = False,
     drop_pressed = False, pause_pressed = False, down_pressed = False \<rparr>"

definition press_key :: "u8 \<Rightarrow> pressed \<Rightarrow> pressed" where
  "press_key key b =
     (if key = 0x71 \<or> key = 0x51 then b \<lparr> quit_pressed := True \<rparr>
      else if key = 0x61 \<or> key = 0x41 then b \<lparr> left_pressed := True \<rparr>
      else if key = 0x64 \<or> key = 0x44 then b \<lparr> right_pressed := True \<rparr>
      else if key = 0x73 \<or> key = 0x53 then b \<lparr> down_pressed := True \<rparr>
      else if key = 0x70 \<or> key = 0x50 then b \<lparr> pause_pressed := True \<rparr>
      else if key = 0x77 \<or> key = 0x57 then b \<lparr> rotate_pressed := True \<rparr>
      else if key = 0x20 then b \<lparr> drop_pressed := True \<rparr>
      else b)"

definition update_keys :: "u8 list \<Rightarrow> game \<Rightarrow> game" where
  "update_keys keys g = g \<lparr> buttons := fold press_key keys no_buttons \<rparr>"

text \<open>The loop that looks for the first amount at which the dropped piece collides.\<close>

partial_function (option) drop_amount :: "game \<Rightarrow> int \<Rightarrow> int \<Rightarrow> int \<Rightarrow> int option" where
  "drop_amount g ox oy amount =
     (if check_collision g ox (oy + amount) (current_rotation g) (current_piece g) then Some amount
      else drop_amount g ox oy (amount + 1))"

definition handle_actions :: "game \<Rightarrow> (bool \<times> game) option" where
  "handle_actions g =
     (let adjusted_origin_x = SCREEN_X_TO_BOARD_X (piece_origin_x g);
          adjusted_origin_y = SCREEN_Y_TO_BOARD_Y (piece_origin_y g);
          rot = current_rotation g;
          p = current_piece g
      in if left_pressed (buttons g) \<and> \<not> check_collision g (adjusted_origin_x - 1) adjusted_origin_y rot p
         then Some (False, g \<lparr> piece_origin_x := piece_origin_x g - 2 \<rparr>)
         else if right_pressed (buttons g) \<and> \<not> check_collision g (adjusted_origin_x + 1) adjusted_origin_y rot p
         then Some (False, g \<lparr> piece_origin_x := piece_origin_x g + 2 \<rparr>)
         else if down_pressed (buttons g) \<and> \<not> check_collision g adjusted_origin_x (adjusted_origin_y + 1) rot p
         then Some (False, g \<lparr> piece_origin_y := piece_origin_y g + 1 \<rparr>)
         else if rotate_pressed (buttons g) \<and> \<not> check_collision g adjusted_origin_x adjusted_origin_y ((rot + 1) AND 3) p
         then Some (False, g \<lparr> current_rotation := (rot + 1) AND 3 \<rparr>)
         else if drop_pressed (buttons g)
         then (case drop_amount g adjusted_origin_x adjusted_origin_y 1 of
                 None \<Rightarrow> None
               | Some amount \<Rightarrow> Some (True, g \<lparr> piece_origin_y := piece_origin_y g + (amount - 1) \<rparr>))
         else Some (False, g))"

definition set_board :: "int \<Rightarrow> int \<Rightarrow> piece \<Rightarrow> game \<Rightarrow> game" where
  "set_board x y p g = g \<lparr> gameboard := (gameboard g)(x := (gameboard g x)(y := p)) \<rparr>"

definition place_current_block_on_board :: "game \<Rightarrow> game" where
  "place_current_block_on_board g =
     (let ox = SCREEN_X_TO_BOARD_X (piece_origin_x g);
          oy = SCREEN_Y_TO_BOARD_Y (piece_origin_y g)
      in foldl (\<lambda>g i.
           let px = arr_x (current_rotation g) (current_piece g) i;
               py = arr_y (current_rotation g) (current_piece g) i
           in set_board (px + ox) (py + oy) (current_piece g) g) g [0..<4])"

section \<open>Full lines\<close>

definition line_found :: "game \<Rightarrow> int \<Rightarrow> bool" where
  "line_found g y = list_all (\<lambda>x. gameboard g x y \<noteq> P_E) [0..BOARD_X - 1]"

definition check_for_lines :: "game \<Rightarrow> bool \<times> game" where
  "check_for_lines g =
     (let g = g \<lparr> full_lines := foldl (\<lambda>f i. f(i := False)) (full_lines g) [0..BOARD_Y - 1] \<rparr>
      in foldl (\<lambda>(found, g) y.
           if line_found g y then (True, g \<lparr> full_lines := (full_lines g)(y := True) \<rparr>) else (found, g))
           (False, g) (rev [0..BOARD_Y - 1]))"

text \<open>
  The loops of \<open>clear_lines\<close>; the natural numbers are \<open>y + 1\<close> and \<open>copy_line + 1\<close>, so that 0
  is the value -1 at which the loops stop.
\<close>

fun skip_full :: "(int \<Rightarrow> bool) \<Rightarrow> nat \<Rightarrow> nat" where
  "skip_full full 0 = 0"
| "skip_full full (Suc copy_line) = (if full (int copy_line) then skip_full full copy_line else Suc copy_line)"

definition copy_board_line :: "int \<Rightarrow> int \<Rightarrow> game \<Rightarrow> game" where
  "copy_board_line copy_line y g = foldl (\<lambda>g x. set_board x y (gameboard g x copy_line) g) g [0..BOARD_X - 1]"

definition empty_board_line :: "int \<Rightarrow> game \<Rightarrow> game" where
  "empty_board_line y g = foldl (\<lambda>g x. set_board x y P_E g) g [0..BOARD_X - 1]"

fun copy_lines :: "nat \<Rightarrow> nat \<Rightarrow> game \<Rightarrow> nat \<times> game" where
  "copy_lines 0 copy_line g = (0, g)"
| "copy_lines (Suc y) copy_line g =
     (if copy_line = 0 then (Suc y, g)
      else case skip_full (full_lines g) copy_line of
             0 \<Rightarrow> (Suc y, g)
           | Suc c \<Rightarrow> copy_lines y c
               (draw_gameboard_line (int y) False background_color (copy_board_line (int c) (int y) g)))"

fun empty_lines :: "nat \<Rightarrow> game \<Rightarrow> game" where
  "empty_lines 0 g = g"
| "empty_lines (Suc y) g =
     empty_lines y (draw_gameboard_line (int y) True background_color (empty_board_line (int y) g))"

definition clear_lines :: "game \<Rightarrow> game" where
  "clear_lines g = (case copy_lines (nat BOARD_Y) (nat BOARD_Y) g of (y, g) \<Rightarrow> empty_lines y g)"

section \<open>The game loop\<close>

definition spawn_block :: "game \<Rightarrow> game" where
  "spawn_block g =
     (let g = choose_piece (g \<lparr> current_piece := next_piece g \<rparr>);
          g = g \<lparr> piece_origin_x := BOARD_ORIGIN_X + BOARD_X, piece_origin_y := BOARD_ORIGIN_Y, current_rotation := 0 \<rparr>;
          g = draw_next_piece (clear_next_piece_box g);
          bx = SCREEN_X_TO_BOARD_X (piece_origin_x g);
          by' = SCREEN_Y_TO_BOARD_Y (piece_origin_y g)
      in if check_collision g bx by' (current_rotation g) (current_piece g)
         then g \<lparr> gstate := GAME_OVER \<rparr>
         else (draw_current_piece g) \<lparr> gstate := SHIFT_DOWN_BLOCKS, ticks := 0 \<rparr>)"

definition shift_down_blocks :: "game \<Rightarrow> game option" where
  "shift_down_blocks g =
     (let old_x = piece_origin_x g; old_y = piece_origin_y g; old_rot = current_rotation g
      in case handle_actions g of
           None \<Rightarrow> None
         | Some (dropped, g) \<Rightarrow>
             (let g = (if dropped then (place_current_block_on_board g) \<lparr> gstate := LINE_CHECK \<rparr> else g);
                  g = g \<lparr> ticks := ticks g + 1 \<rparr>;
                  g = (if ticks g \<ge> ticks_per_drop g
                       then
                         let g = g \<lparr> ticks := 0 \<rparr>;
                             (collided, g) = shift_down g
                         in if collided then (place_current_block_on_board g) \<lparr> gstate := LINE_CHECK \<rparr> else g
                       else g)
              in Some (if old_x \<noteq> piece_origin_x g \<or> old_y \<noteq> piece_origin_y g \<or> old_rot \<noteq> current_rotation g
                       then draw_current_piece (draw_piece old_x old_y old_rot (current_piece g) background_color g)
                       else g)))"

definition line_check :: "game \<Rightarrow> game" where
  "line_check g =
     (case check_for_lines g of (found, g) \<Rightarrow>
        if found then g \<lparr> flash_count := 0, flash_ticks := 0, gstate := LINE_CHECK_FLASH \<rparr>
        else g \<lparr> gstate := SPAWN_BLOCK \<rparr>)"

definition line_check_flash :: "game \<Rightarrow> game" where
  "line_check_flash g =
     (let g = g \<lparr> flash_ticks := flash_ticks g + 1 \<rparr>;
          g = (if flash_ticks g > TICKS_PER_FLASH
               then draw_flash_lines (g \<lparr> flash_ticks := 0, flash_count := flash_count g + 1 \<rparr>)
               else g)
      in if flash_count g \<ge> NUM_FLASHES
         then (update_score (clear_lines g)) \<lparr> gstate := SPAWN_BLOCK \<rparr>
         else g)"

definition toggle_pause :: "game \<Rightarrow> game" where
  "toggle_pause g =
     (if gstate g = PAUSE then g \<lparr> gstate := state_pause_prev g \<rparr>
      else g \<lparr> state_pause_prev := gstate g, gstate := PAUSE \<rparr>)"

definition update :: "u8 list \<Rightarrow> game \<Rightarrow> game option" where
  "update keys g =
     (let g = update_keys keys g
      in if quit_pressed (buttons g) then Some (g \<lparr> quit := True \<rparr>)
         else
           let g = (if pause_pressed (buttons g) then toggle_pause g else g)
           in case gstate g of
                SPAWN_BLOCK \<Rightarrow> Some (spawn_block g)
              | SHIFT_DOWN_BLOCKS \<Rightarrow> shift_down_blocks g
              | LINE_CHECK \<Rightarrow> Some (line_check g)
              | LINE_CHECK_FLASH \<Rightarrow> Some (line_check_flash g)
              | PAUSE \<Rightarrow> Some g
              | GAME_OVER \<Rightarrow> Some (draw_game_over g))"

text \<open>\<open>tetris\<close> up to its loop, with the four keys that make the seed; and the loop, over the keys
  that arrive during each tick, until the game is quit or the ticks are used up.\<close>

definition tetris_start :: "u8 \<Rightarrow> u8 \<Rightarrow> u8 \<Rightarrow> u8 \<Rightarrow> game \<Rightarrow> game" where
  "tetris_start key1 key2 key3 key4 g =
     (let g = draw clear_screen_vga g;
          g = reset_tetris g;
          g = draw_game_borders g;
          game_seed = push_bit 24 (ucast key1) OR push_bit 16 (ucast key2) OR push_bit 8 (ucast key3) OR ucast key4 :: u32;
          g = g \<lparr> rand_state := seed (scast game_seed) \<rparr>;
          g = choose_piece g
      in g \<lparr> gameboard := (\<lambda>x y. if 0 \<le> x \<and> x < BOARD_X \<and> 0 \<le> y \<and> y < BOARD_Y then P_E else gameboard g x y) \<rparr>)"

fun tetris_loop :: "u8 list list \<Rightarrow> game \<Rightarrow> game option" where
  "tetris_loop [] g = Some g"
| "tetris_loop (keys # later) g =
     (if quit g then Some g
      else case update keys g of None \<Rightarrow> None | Some g \<Rightarrow> tetris_loop later g)"

section \<open>Clearing lines\<close>

lemma draw_fields [simp]:
  "gameboard (draw f g) = gameboard g" "full_lines (draw f g) = full_lines g" "gstate (draw f g) = gstate g"
  "state_pause_prev (draw f g) = state_pause_prev g" "current_piece (draw f g) = current_piece g"
  "next_piece (draw f g) = next_piece g" "current_rotation (draw f g) = current_rotation g"
  "piece_origin_x (draw f g) = piece_origin_x g" "piece_origin_y (draw f g) = piece_origin_y g"
  "screen (draw f g) = f (screen g)"
  by (simp_all add: draw_def)

lemma gameboard_line_fields [simp]:
  "gameboard (draw_gameboard_line y b c g) = gameboard g" "full_lines (draw_gameboard_line y b c g) = full_lines g"
  by (simp_all add: draw_gameboard_line_def Let_def)

lemma set_board_fields [simp]: "full_lines (set_board x y p g) = full_lines g"
  by (simp add: set_board_def)

lemma gameboard_set_board: "gameboard (set_board x y p g) x' y' = (if x' = x \<and> y' = y then p else gameboard g x' y')"
  by (simp add: set_board_def)

lemma copy_board_fold:
  "gameboard (foldl (\<lambda>g x. set_board x y (gameboard g x c) g) g xs) x' y' =
     (if y' = y \<and> x' \<in> set xs then gameboard g x' c else gameboard g x' y')"
  by (induction xs arbitrary: x' y' rule: rev_induct) (auto simp: gameboard_set_board)

lemma empty_board_fold:
  "gameboard (foldl (\<lambda>g x. set_board x y P_E g) g xs) x' y' =
     (if y' = y \<and> x' \<in> set xs then P_E else gameboard g x' y')"
  by (induction xs rule: rev_induct) (auto simp: gameboard_set_board)

lemma fold_set_board_full [simp]:
  "full_lines (foldl (\<lambda>g x. set_board (a g x) (b g x) (q g x) g) g xs) = full_lines g"
  by (induction xs arbitrary: g) simp_all

text \<open>A line of the board, and the whole board from its top.\<close>

definition row :: "game \<Rightarrow> nat \<Rightarrow> piece list" where
  "row g y = map (\<lambda>x. gameboard g x (int y)) [0..BOARD_X - 1]"

definition rows :: "game \<Rightarrow> piece list list" where
  "rows g = map (row g) [0..<nat BOARD_Y]"

definition empty_row :: "piece list" where
  "empty_row = replicate (nat BOARD_X) P_E"

lemma row_copy:
  "row (draw_gameboard_line l b col (copy_board_line (int c) (int y) g)) y' = (if y' = y then row g c else row g y')"
  unfolding row_def copy_board_line_def gameboard_line_fields copy_board_fold by auto

lemma row_empty:
  "row (draw_gameboard_line l b col (empty_board_line (int y) g)) y' = (if y' = y then empty_row else row g y')"
proof (cases "y' = y")
  case True
  then show ?thesis
    unfolding row_def empty_board_line_def gameboard_line_fields empty_board_fold empty_row_def
    by (simp, intro replicate_eqI) auto
next
  case False
  then show ?thesis
    unfolding row_def empty_board_line_def gameboard_line_fields empty_board_fold by simp
qed

definition kept :: "game \<Rightarrow> nat \<Rightarrow> nat list" where
  "kept g c = filter (\<lambda>y. \<not> full_lines g (int y)) [0..<c]"

lemma skip_full_cases:
  obtains "skip_full (full_lines g) c = 0" and "kept g c = []"
  | c' where "skip_full (full_lines g) c = Suc c'" and "c' < c" and "kept g c = kept g c' @ [c']"
proof (induction c arbitrary: thesis)
  case 0
  then show ?case by (simp add: kept_def)
next
  case (Suc c)
  show ?case
  proof (cases "full_lines g (int c)")
    case True
    then have k: "kept g (Suc c) = kept g c" by (simp add: kept_def)
    show ?thesis
      by (rule Suc.IH) (use Suc.prems True k in auto)
  next
    case False
    then show ?thesis using Suc.prems(2) [of c] by (simp add: kept_def)
  qed
qed

lemma length_kept: "length (kept g c) \<le> c"
  unfolding kept_def by (rule order_trans [OF length_filter_le]) simp

lemma kept_less: "i < length (kept g c) \<Longrightarrow> kept g c ! i < c"
  using nth_mem [of i "kept g c"] by (auto simp: kept_def)

lemma copy_lines_rows:
  assumes "c \<le> y" and "copy_lines y c g = (y', g')"
  shows "y' = y - length (kept g c) \<and> full_lines g' = full_lines g \<and>
    (\<forall>l. row g' l = (if y' \<le> l \<and> l < y then row g (kept g c ! (l - y')) else row g l))"
  using assms
proof (induction y arbitrary: c g)
  case 0
  then show ?case by simp
next
  case (Suc y)
  show ?case
  proof (cases rule: skip_full_cases [of g c])
    case 1
    then have "copy_lines (Suc y) c g = (Suc y, g)" by simp
    then show ?thesis using Suc.prems(2) 1 by auto
  next
    case (2 c')
    define g1 where "g1 = draw_gameboard_line (int y) False background_color (copy_board_line (int c') (int y) g)"
    have full: "full_lines g1 = full_lines g" by (simp add: g1_def copy_board_line_def)
    then have k: "kept g1 = kept g" by (simp add: kept_def [abs_def])
    have row1: "row g1 l = (if l = y then row g c' else row g l)" for l
      unfolding g1_def by (rule row_copy)
    have "copy_lines y c' g1 = (y', g')" using Suc.prems(2) 2 by (simp add: g1_def)
    moreover have "c' \<le> y" using 2(2) Suc.prems(1) by simp
    ultimately have ih: "y' = y - length (kept g c')" "full_lines g' = full_lines g1"
      "\<forall>l. row g' l = (if y' \<le> l \<and> l < y then row g1 (kept g c' ! (l - y')) else row g1 l)"
      using Suc.IH [of c' g1] by (simp_all add: k)
    have len: "length (kept g c') \<le> y" using length_kept [of g c'] \<open>c' \<le> y\<close> by simp
    have "row g' l = (if y' \<le> l \<and> l < Suc y then row g (kept g c ! (l - y')) else row g l)" for l
    proof (cases "y' \<le> l \<and> l < y")
      case True
      then have i: "l - y' < length (kept g c')" using ih(1) len by arith
      then have "kept g c' ! (l - y') \<noteq> y" using kept_less [OF i] \<open>c' \<le> y\<close> by simp
      then show ?thesis using True ih(3) i by (simp add: row1 2(3) nth_append)
    next
      case False
      then show ?thesis using ih len by (auto simp: row1 2(3) nth_append)
    qed
    then show ?thesis using ih len by (simp add: full 2(3))
  qed
qed

lemma empty_lines_rows: "row (empty_lines y g) l = (if l < y then empty_row else row g l)"
proof (induction y arbitrary: g)
  case 0
  then show ?case by simp
next
  case (Suc y)
  show ?case by (simp add: Suc row_empty)
qed

lemma rows_clear_lines:
  "rows (clear_lines g) = replicate (nat BOARD_Y - length (kept g (nat BOARD_Y))) empty_row @ map (row g) (kept g (nat BOARD_Y))"
proof -
  obtain y' g' where c: "copy_lines (nat BOARD_Y) (nat BOARD_Y) g = (y', g')" by fastforce
  have r: "y' = nat BOARD_Y - length (kept g (nat BOARD_Y))"
    "row g' l = (if y' \<le> l \<and> l < nat BOARD_Y then row g (kept g (nat BOARD_Y) ! (l - y')) else row g l)" for l
    using copy_lines_rows [OF order_refl c] by blast+
  have "row (clear_lines g) l = (if l < y' then empty_row else row g' l)" for l
    unfolding clear_lines_def c by (simp add: empty_lines_rows)
  then show ?thesis
    using length_kept [of g "nat BOARD_Y"] unfolding rows_def
    by (intro nth_equalityI) (auto simp: r nth_append)
qed

lemma line_found_row: "line_found g (int y) \<longleftrightarrow> P_E \<notin> set (row g y)"
  unfolding line_found_def row_def list_all_iff set_map by force

lemma check_lines_fold:
  "foldl (\<lambda>(found, g). \<lambda>y. if line_found g y then (True, g \<lparr> full_lines := (full_lines g)(y := True) \<rparr>) else (found, g)) (b, g) ys =
     (b \<or> list_ex (line_found g) ys, g \<lparr> full_lines := (\<lambda>y. (y \<in> set ys \<and> line_found g y) \<or> full_lines g y) \<rparr>)"
proof (induction ys arbitrary: b g)
  case Nil
  then show ?case by simp
next
  case (Cons y ys)
  have lf: "line_found (g \<lparr> full_lines := f \<rparr>) = line_found g" for f by (rule ext) (simp add: line_found_def)
  have "(\<lambda>y'. (y' \<in> set ys \<and> line_found g y') \<or> ((full_lines g)(y := True)) y') =
      (\<lambda>y'. (y' \<in> set (y # ys) \<and> line_found g y') \<or> full_lines g y')" if "line_found g y"
    using that by (auto simp: fun_eq_iff)
  moreover have "(\<lambda>y'. (y' \<in> set ys \<and> line_found g y') \<or> full_lines g y') =
      (\<lambda>y'. (y' \<in> set (y # ys) \<and> line_found g y') \<or> full_lines g y')" if "\<not> line_found g y"
    using that by (auto simp: fun_eq_iff)
  ultimately show ?case by (simp add: Cons.IH lf)
qed

definition full_row :: "piece list \<Rightarrow> bool" where
  "full_row r \<longleftrightarrow> P_E \<notin> set r"

lemma check_for_lines_eq:
  "check_for_lines g = (list_ex (line_found g) [0..BOARD_Y - 1],
     g \<lparr> full_lines := (\<lambda>y. if y \<in> {0..BOARD_Y - 1} then line_found g y else full_lines g y) \<rparr>)"
proof -
  have f: "foldl (\<lambda>f i. f(i := False)) h ys = (\<lambda>y. y \<notin> set ys \<and> h y)" for h :: "int \<Rightarrow> bool" and ys
    by (induction ys arbitrary: h) (auto simp: fun_eq_iff)
  have lf: "line_found (g \<lparr> full_lines := h \<rparr>) = line_found g" for h by (rule ext) (simp add: line_found_def)
  have "(\<lambda>y. y \<in> set [0..BOARD_Y - 1] \<and> line_found g y \<or> y \<notin> set [0..BOARD_Y - 1] \<and> full_lines g y) =
      (\<lambda>y. if y \<in> {0..BOARD_Y - 1} then line_found g y else full_lines g y)"
    by (auto simp: fun_eq_iff simp del: upto_rec_numeral)
  moreover have "list_ex (line_found g) (rev [0..BOARD_Y - 1]) = list_ex (line_found g) [0..BOARD_Y - 1]"
    by (rule list_ex_rev)
  ultimately show ?thesis
    unfolding check_for_lines_def f Let_def check_lines_fold lf by (simp del: upto_rec_numeral)
qed

lemma full_after_check:
  "y < nat BOARD_Y \<Longrightarrow> full_lines (snd (check_for_lines g)) (int y) = full_row (row g y)"
  by (simp add: check_for_lines_eq line_found_row full_row_def)

lemma row_after_check: "row (snd (check_for_lines g)) = row g"
  by (rule ext) (simp add: check_for_lines_eq row_def)

lemma kept_after_check:
  "map (row g) (kept (snd (check_for_lines g)) (nat BOARD_Y)) = filter (Not \<circ> full_row) (rows g)"
proof -
  have "kept (snd (check_for_lines g)) (nat BOARD_Y) = filter (\<lambda>y. \<not> full_row (row g y)) [0..<nat BOARD_Y]"
    unfolding kept_def by (rule filter_cong) (auto simp: full_after_check)
  then show ?thesis by (simp add: rows_def filter_map o_def)
qed

text \<open>C17. Clearing the lines that the check found full removes exactly the lines without an empty
  cell, keeps the others in their order and fills up with empty lines from the top.\<close>

theorem tetris_removes_exactly_full_lines:
  "fst (check_for_lines g) = list_ex full_row (rows g) \<and>
   rows (clear_lines (snd (check_for_lines g))) =
     replicate (length (filter full_row (rows g))) empty_row @ filter (Not \<circ> full_row) (rows g)"
proof
  have "map int [0..<nat BOARD_Y] = [0..BOARD_Y - 1]" by (simp add: upt_conv_Cons numeral_eq_Suc upto.simps)
  then have "list_ex (line_found g) [0..BOARD_Y - 1] = list_ex (line_found g \<circ> int) [0..<nat BOARD_Y]"
    by (simp only: list_ex_iff set_map [symmetric] o_def flip: \<open>map int [0..<nat BOARD_Y] = [0..BOARD_Y - 1]\<close>) auto
  also have "\<dots> = list_ex full_row (rows g)"
    by (simp add: rows_def list_ex_iff line_found_row full_row_def)
  finally show "fst (check_for_lines g) = list_ex full_row (rows g)" by (simp add: check_for_lines_eq)
  have "length (filter full_row (rows g)) + length (filter (Not \<circ> full_row) (rows g)) = nat BOARD_Y"
    using sum_length_filter_compl [of full_row "rows g"] by (simp add: rows_def o_def)
  moreover have "length (kept (snd (check_for_lines g)) (nat BOARD_Y)) = length (filter (Not \<circ> full_row) (rows g))"
    unfolding kept_after_check [symmetric] by simp
  ultimately have "nat BOARD_Y - length (kept (snd (check_for_lines g)) (nat BOARD_Y)) = length (filter full_row (rows g))"
    by simp
  then show "rows (clear_lines (snd (check_for_lines g))) =
     replicate (length (filter full_row (rows g))) empty_row @ filter (Not \<circ> full_row) (rows g)"
    unfolding rows_clear_lines row_after_check kept_after_check by (rule arg_cong)
qed

section \<open>Pieces on the board\<close>

definition in_board :: "int \<Rightarrow> int \<Rightarrow> bool" where
  "in_board x y \<longleftrightarrow> 0 \<le> x \<and> x < BOARD_X \<and> 0 \<le> y \<and> y < BOARD_Y"

text \<open>The blocks of a piece at a place of the board lie inside it.\<close>

definition inside :: "int \<Rightarrow> int \<Rightarrow> u8 \<Rightarrow> piece \<Rightarrow> bool" where
  "inside ox oy r p \<longleftrightarrow> (\<forall>i<4. in_board (arr_x r p i + ox) (arr_y r p i + oy))"

lemma check_collision_iff:
  "check_collision g ox oy r p \<longleftrightarrow>
     (\<exists>i<4. \<not> in_board (arr_x r p i + ox) (arr_y r p i + oy) \<or>
        gameboard g (arr_x r p i + ox) (arr_y r p i + oy) \<noteq> P_E)"
  by (simp add: check_collision_def list_ex_iff in_board_def Let_def not_le not_less Bex_def disj_assoc)

lemma free_inside: "\<not> check_collision g ox oy r p \<Longrightarrow> inside ox oy r p"
  by (auto simp: check_collision_iff inside_def)

definition piece_ok :: "u8 \<Rightarrow> piece \<Rightarrow> bool" where
  "piece_ok r p \<longleftrightarrow> unat r < 4 \<and> p \<noteq> P_E"

lemma less_four_cases: "(n :: nat) < 4 \<Longrightarrow> n = 0 \<or> n = 1 \<or> n = 2 \<or> n = 3"
  by arith

text \<open>What the table of offsets guarantees.\<close>

lemma offsets_table:
  assumes "n < 4" and "p \<noteq> P_E"
  shows "(\<exists>i<4. snd (block_offsets ! n ! piece_index p) ! i = 0) \<and>
     (\<forall>i<4. fst (block_offsets ! n ! piece_index p) ! i \<in> {-1..2} \<and> snd (block_offsets ! n ! piece_index p) ! i \<in> {-1..2})"
proof -
  have all4: "(\<forall>i<4. Q i) \<longleftrightarrow> Q 0 \<and> Q (Suc 0) \<and> Q 2 \<and> Q 3" and ex4: "(\<exists>i<4. Q i) \<longleftrightarrow> Q 0 \<or> Q (Suc 0) \<or> Q 2 \<or> Q 3"
    for Q :: "nat \<Rightarrow> bool" using less_four_cases by (auto, force+)
  show ?thesis
    using less_four_cases [OF assms(1)] assms(2)
    by (cases p; elim disjE) (simp_all only: all4 ex4, simp_all add: block_offsets_def)
qed

lemma arr_bounds:
  assumes "piece_ok r p" and "i < 4"
  shows "arr_x r p i \<in> {-1..2}" and "arr_y r p i \<in> {-1..2}"
  using offsets_table [of "unat r" p] assms by (simp_all add: piece_ok_def arr_x_def arr_y_def)

lemma arr_y_zero:
  assumes "piece_ok r p"
  obtains i where "i < 4" and "arr_y r p i = 0"
  using offsets_table [of "unat r" p] assms by (auto simp: piece_ok_def arr_y_def)

text \<open>The drop ends, at the first place where the piece collides.\<close>

lemma drop_amount_stops:
  assumes "piece_ok (current_rotation g) (current_piece g)"
  shows "\<exists>d\<ge>a. drop_amount g ox oy a = Some d \<and>
    check_collision g ox (oy + d) (current_rotation g) (current_piece g) \<and>
    (\<forall>k. a \<le> k \<and> k < d \<longrightarrow> \<not> check_collision g ox (oy + k) (current_rotation g) (current_piece g))"
proof (induction "nat (BOARD_Y - (oy + a))" arbitrary: a rule: less_induct)
  case less
  let ?c = "\<lambda>d. check_collision g ox (oy + d) (current_rotation g) (current_piece g)"
  show ?case
  proof (cases "?c a")
    case True
    then have "drop_amount g ox oy a = Some a" by (subst drop_amount.simps) simp
    then show ?thesis using True by (intro exI [of _ a]) auto
  next
    case False
    have "oy + a < BOARD_Y"
    proof (rule ccontr)
      assume "\<not> oy + a < BOARD_Y"
      moreover obtain i where "i < 4" "arr_y (current_rotation g) (current_piece g) i = 0"
        by (rule arr_y_zero [OF assms])
      ultimately have "?c a" unfolding check_collision_iff by (intro exI [of _ i]) (simp add: in_board_def)
      with False show False ..
    qed
    then have "nat (BOARD_Y - (oy + (a + 1))) < nat (BOARD_Y - (oy + a))" by simp
    from less [OF this] obtain d where d: "a + 1 \<le> d" "drop_amount g ox oy (a + 1) = Some d" "?c d"
      "\<forall>k. a + 1 \<le> k \<and> k < d \<longrightarrow> \<not> ?c k" by blast
    have "drop_amount g ox oy a = Some d" using False d(2) by (subst drop_amount.simps) simp
    moreover have "\<not> ?c k" if "a \<le> k" "k < d" for k using that False d(4) by (cases "k = a") auto
    ultimately show ?thesis using d by (intro exI [of _ d]) auto
  qed
qed

section \<open>What a step leaves alone\<close>

text \<open>Nothing outside of the 2000 cells of the screen and of the 10 times 20 cells of the board is written.\<close>

definition frame :: "game \<Rightarrow> game \<Rightarrow> bool" where
  "frame g g' \<longleftrightarrow> same_outside (screen g) (screen g') \<and>
     (\<forall>x y. \<not> in_board x y \<longrightarrow> gameboard g' x y = gameboard g x y)"

lemma frame_refl [simp, intro]: "frame g g"
  by (simp add: frame_def)

lemma frame_trans [trans]: "frame g g' \<Longrightarrow> frame g' g'' \<Longrightarrow> frame g g''"
  by (auto simp: frame_def intro: same_outside_trans)

lemma frame_draw: "same_outside (screen g) (f (screen g)) \<Longrightarrow> frame g (draw f g)"
  by (simp add: frame_def)

lemma frame_cong: "screen h = screen g' \<Longrightarrow> gameboard h = gameboard g' \<Longrightarrow> frame g h = frame g g'"
  by (simp add: frame_def)

lemma frame_set_board: "frame g g' \<Longrightarrow> in_board x y \<Longrightarrow> frame g (set_board x y p g')"
  by (auto simp: frame_def gameboard_set_board) (simp add: set_board_def)

lemma frame_foldl: "(\<And>g i. i \<in> set xs \<Longrightarrow> frame g (f g i)) \<Longrightarrow> frame g (foldl f g xs)"
proof (induction xs arbitrary: g)
  case Nil
  then show ?case by simp
next
  case (Cons i xs)
  have "frame g (f g i)" and "frame (f g i) (foldl f (f g i) xs)" using Cons by simp_all
  then show ?case by (simp add: frame_trans)
qed

lemma same_outside_foldl:
  "(\<And>v i. i \<in> set xs \<Longrightarrow> same_outside v (f v i)) \<Longrightarrow> same_outside v (foldl f v xs)"
proof (induction xs arbitrary: v)
  case Nil
  then show ?case by simp
next
  case (Cons i xs)
  have "same_outside v (f v i)" and "same_outside (f v i) (foldl f (f v i) xs)" using Cons by simp_all
  then show ?case by (simp add: same_outside_trans)
qed

lemma paint_same_outside:
  "(\<And>i. i \<in> set offs \<Longrightarrow> 0 \<le> i \<and> i < int (SCREEN_X * SCREEN_Y)) \<Longrightarrow> same_outside v (paint color offs v)"
  unfolding paint_def by (rule same_outside_foldl) (auto intro: same_outside_cell)

lemma two_cells_same_outside:
  "0 \<le> i \<Longrightarrow> i + 1 < int (SCREEN_X * SCREEN_Y) \<Longrightarrow> same_outside v (set_cell (i + 1) c col (set_cell i c col v))"
  by (intro same_outside_cell) auto

lemma draw_piece_frame:
  assumes "\<forall>i<4. 0 \<le> (arr_y r p i + oy) * MAX_X + (arr_x r p i * 2 + ox) \<and>
      (arr_y r p i + oy) * MAX_X + (arr_x r p i * 2 + ox) + 1 < int (SCREEN_X * SCREEN_Y)"
  shows "frame g (draw_piece ox oy r p color g)"
  unfolding draw_piece_def Let_def
  by (intro frame_draw same_outside_foldl two_cells_same_outside) (use assms in auto)

lemma board_cell_on_screen:
  assumes "in_board x y"
  shows "0 \<le> (y + 2) * MAX_X + (x * 2 + 30)" and "(y + 2) * MAX_X + (x * 2 + 30) + 1 < int (SCREEN_X * SCREEN_Y)"
  using assms by (auto simp: in_board_def)

lemma draw_piece_inside:
  assumes "inside bx y r p"
  shows "frame g (draw_piece (BOARD_ORIGIN_X + 2 * bx) (y + BOARD_ORIGIN_Y) r p color g)"
proof (rule draw_piece_frame, intro allI impI)
  fix i :: nat assume "i < 4"
  then have b: "in_board (arr_x r p i + bx) (arr_y r p i + y)" using assms by (simp add: inside_def)
  show "0 \<le> (arr_y r p i + (y + BOARD_ORIGIN_Y)) * MAX_X + (arr_x r p i * 2 + (BOARD_ORIGIN_X + 2 * bx)) \<and>
      (arr_y r p i + (y + BOARD_ORIGIN_Y)) * MAX_X + (arr_x r p i * 2 + (BOARD_ORIGIN_X + 2 * bx)) + 1
        < int (SCREEN_X * SCREEN_Y)"
    using board_cell_on_screen [OF b] by (simp add: algebra_simps)
qed

lemma gameboard_line_frame:
  assumes "0 \<le> line" and "line < BOARD_Y"
  shows "frame g (draw_gameboard_line line solid color g)"
  unfolding draw_gameboard_line_def Let_def
proof (intro frame_draw same_outside_foldl two_cells_same_outside)
  fix x assume "x \<in> set [0..BOARD_X - 1]"
  then have x: "0 \<le> x" "x \<le> 9" by simp_all
  show "0 \<le> (BOARD_ORIGIN_Y + line) * MAX_X + (BOARD_ORIGIN_X + x * 2)" using x assms by simp
  show "(BOARD_ORIGIN_Y + line) * MAX_X + (BOARD_ORIGIN_X + x * 2) + 1 < int (SCREEN_X * SCREEN_Y)"
    using x assms by simp
qed

lemma draw_flash_lines_frame: "frame g (draw_flash_lines g)"
  unfolding draw_flash_lines_def Let_def
  by (rule frame_foldl) (auto intro!: gameboard_line_frame)

lemma clear_next_piece_box_frame: "frame g (clear_next_piece_box g)"
  unfolding clear_next_piece_box_def by (intro frame_draw paint_same_outside) auto

lemma draw_next_piece_frame:
  assumes "next_piece g \<noteq> P_E"
  shows "frame g (draw_next_piece g)"
  unfolding draw_next_piece_def
proof (rule draw_piece_frame, intro allI impI)
  fix i :: nat assume i: "i < 4"
  have "piece_ok 0 (next_piece g)" using assms by (simp add: piece_ok_def)
  from arr_bounds [OF this i]
  show "0 \<le> (arr_y 0 (next_piece g) i + (NEXT_PIECE_ORIGIN_Y + NEXT_PIECE_SIZE_Y div 2)) * MAX_X +
      (arr_x 0 (next_piece g) i * 2 + (NEXT_PIECE_ORIGIN_X + NEXT_PIECE_SIZE_X div 2 - 1)) \<and>
    (arr_y 0 (next_piece g) i + (NEXT_PIECE_ORIGIN_Y + NEXT_PIECE_SIZE_Y div 2)) * MAX_X +
      (arr_x 0 (next_piece g) i * 2 + (NEXT_PIECE_ORIGIN_X + NEXT_PIECE_SIZE_X div 2 - 1)) + 1 < int (SCREEN_X * SCREEN_Y)"
    by auto
qed

lemma unat_small_int: "0 \<le> i \<Longrightarrow> i < 100 \<Longrightarrow> unat (of_int i :: u16) = nat i"
proof -
  assume i: "0 \<le> i" "i < 100"
  then have "uint (of_int i :: u16) = i" by (simp add: uint_word_of_int_eq take_bit_int_eq_self)
  moreover have "int (unat (of_int i :: u16)) = uint (of_int i :: u16)" by (rule uint_nat [symmetric])
  ultimately show ?thesis by (metis nat_int)
qed

lemma digits_frame:
  assumes "int n \<le> x + 1" and "x < int SCREEN_X" and "unat (info_y v) < SCREEN_Y"
  shows "same_outside v (draw_digits n t x v)"
  using assms
proof (induction n arbitrary: t x v)
  case 0
  then show ?case by simp
next
  case (Suc n)
  have on: "on_screen (v \<lparr> info_x := of_int x \<rparr>)"
    using Suc.prems by (simp add: on_screen_def unat_small_int)
  have ch: "same_outside v (text_mode_char_vga c (v \<lparr> info_x := of_int x \<rparr>))"
    "unat (info_y (text_mode_char_vga c (v \<lparr> info_x := of_int x \<rparr>))) < SCREEN_Y" for c
    using char_on_screen [OF on, of c] by (simp_all add: on_screen_def same_outside_def)
  have "same_outside v (draw_digits n t' (x - 1) (text_mode_char_vga c (v \<lparr> info_x := of_int x \<rparr>)))" for t' c
    using same_outside_trans [OF ch(1) Suc.IH [OF _ _ ch(2)]] Suc.prems by simp
  then show ?case by simp
qed

lemma draw_score_frame: "frame g (draw_score g)"
proof -
  let ?v = "(screen g) \<lparr> info_y := of_int SCORE_LOC_Y \<rparr>"
  have "same_outside ?v (draw_digits SCORE_LEN (score g) (SCORE_LOC_X + int SCORE_LEN - 1) ?v)"
    by (rule digits_frame) simp_all
  then have "same_outside (screen g) (draw_digits SCORE_LEN (score g) (SCORE_LOC_X + int SCORE_LEN - 1) ?v)"
    by (simp add: same_outside_def)
  then show ?thesis unfolding draw_score_def by (rule frame_draw)
qed

lemma draw_game_over_frame: "frame g (draw_game_over g)"
proof -
  let ?v = "(screen g) \<lparr> info_x := of_int (BOARD_ORIGIN_X + (BOARD_X * 2 - 8) div 2),
      info_y := of_int (BOARD_ORIGIN_Y + BOARD_Y div 2), info_color := game_over_color \<rparr>"
  have "on_screen ?v" by (simp add: on_screen_def)
  from string_on_screen [OF this, of game_over_text]
  have "same_outside (screen g) (text_mode_string game_over_text ?v)" by (simp add: same_outside_def)
  then show ?thesis unfolding draw_game_over_def Let_def by (rule frame_draw)
qed

section \<open>The invariant of the game\<close>

definition board_x :: "game \<Rightarrow> int" where "board_x g = SCREEN_X_TO_BOARD_X (piece_origin_x g)"
definition board_y :: "game \<Rightarrow> int" where "board_y g = SCREEN_Y_TO_BOARD_Y (piece_origin_y g)"

text \<open>The current piece lies on free cells of the board.\<close>

definition piece_free :: "game \<Rightarrow> bool" where
  "piece_free g \<longleftrightarrow> \<not> check_collision g (board_x g) (board_y g) (current_rotation g) (current_piece g)"

definition piece_inside :: "game \<Rightarrow> bool" where
  "piece_inside g \<longleftrightarrow> inside (board_x g) (board_y g) (current_rotation g) (current_piece g)"

text \<open>The state the game is in, or will be in after the pause.\<close>

definition playing :: "game \<Rightarrow> game_state" where
  "playing g = (if gstate g = PAUSE then state_pause_prev g else gstate g)"

definition aligned :: "game \<Rightarrow> bool" where
  "aligned g \<longleftrightarrow> piece_origin_x g = BOARD_ORIGIN_X + 2 * board_x g"

definition falling_inv :: "game \<Rightarrow> bool" where
  "falling_inv g \<longleftrightarrow> piece_ok (current_rotation g) (current_piece g) \<and> aligned g \<and> piece_free g"

definition game_inv :: "game \<Rightarrow> bool" where
  "game_inv g \<longleftrightarrow> next_piece g \<noteq> P_E \<and> (playing g = SHIFT_DOWN_BLOCKS \<longrightarrow> falling_inv g)"

lemma screen_to_board [simp]: "SCREEN_X_TO_BOARD_X (BOARD_ORIGIN_X + 2 * b) = b"
  by (cases "0 \<le> b") (simp_all add: SCREEN_X_TO_BOARD_X_def signed_divide_int_def sgn_if abs_if)

lemma aligned_move:
  assumes "aligned g" and "piece_origin_x g' = piece_origin_x g + 2 * d"
  shows "board_x g' = board_x g + d" and "aligned g'"
proof -
  have "piece_origin_x g' = BOARD_ORIGIN_X + 2 * (board_x g + d)"
    using assms by (simp add: aligned_def)
  then show b: "board_x g' = board_x g + d" unfolding board_x_def [of g'] by (simp only: screen_to_board)
  show "aligned g'" using assms by (simp add: aligned_def b)
qed

lemma board_y_move: "piece_origin_y g' = piece_origin_y g + d \<Longrightarrow> board_y g' = board_y g + d"
  by (simp add: board_y_def SCREEN_Y_TO_BOARD_Y_def)

lemma piece_free_inside: "piece_free g \<Longrightarrow> piece_inside g"
  by (auto simp: piece_free_def piece_inside_def dest: free_inside)

lemma check_collision_cong: "gameboard g' = gameboard g \<Longrightarrow> check_collision g' = check_collision g"
  by (intro ext) (simp add: check_collision_def)

text \<open>The position of the piece after an action: free, and the rest of the game the same.\<close>

lemma handle_actions_step:
  assumes inv: "falling_inv g"
  shows "\<exists>b g'. handle_actions g = Some (b, g') \<and> falling_inv g' \<and> screen g' = screen g \<and>
    gameboard g' = gameboard g \<and> current_piece g' = current_piece g \<and> next_piece g' = next_piece g \<and>
    gstate g' = gstate g \<and> state_pause_prev g' = state_pause_prev g"
proof -
  let ?bx = "board_x g" and ?by = "board_y g" and ?r = "current_rotation g" and ?p = "current_piece g"
  have ok: "piece_ok ?r ?p" and al: "aligned g" and fr: "\<not> check_collision g ?bx ?by ?r ?p"
    using inv by (simp_all add: falling_inv_def piece_free_def)
  have moved: "falling_inv g'"
    if "piece_origin_x g' = piece_origin_x g + 2 * dx" "piece_origin_y g' = piece_origin_y g + dy"
      "current_piece g' = ?p" "gameboard g' = gameboard g" "piece_ok (current_rotation g') ?p"
      "\<not> check_collision g (?bx + dx) (?by + dy) (current_rotation g') ?p" for g' dx dy
    using that aligned_move [OF al that(1)] board_y_move [OF that(2)] check_collision_cong [OF that(4)]
    by (simp add: falling_inv_def piece_free_def)
  have rot: "piece_ok ((?r + 1) AND 3) ?p"
  proof -
    have "unat ((?r + 1) AND mask 2) = unat (?r + 1) mod 2 ^ 2" by (rule unat_and_mask)
    then show ?thesis using ok by (simp add: piece_ok_def mask_eq_exp_minus_1)
  qed
  have act: "handle_actions g =
     (if left_pressed (buttons g) \<and> \<not> check_collision g (?bx - 1) ?by ?r ?p
      then Some (False, g \<lparr> piece_origin_x := piece_origin_x g - 2 \<rparr>)
      else if right_pressed (buttons g) \<and> \<not> check_collision g (?bx + 1) ?by ?r ?p
      then Some (False, g \<lparr> piece_origin_x := piece_origin_x g + 2 \<rparr>)
      else if down_pressed (buttons g) \<and> \<not> check_collision g ?bx (?by + 1) ?r ?p
      then Some (False, g \<lparr> piece_origin_y := piece_origin_y g + 1 \<rparr>)
      else if rotate_pressed (buttons g) \<and> \<not> check_collision g ?bx ?by ((?r + 1) AND 3) ?p
      then Some (False, g \<lparr> current_rotation := (?r + 1) AND 3 \<rparr>)
      else if drop_pressed (buttons g)
      then (case drop_amount g ?bx ?by 1 of
              None \<Rightarrow> None
            | Some amount \<Rightarrow> Some (True, g \<lparr> piece_origin_y := piece_origin_y g + (amount - 1) \<rparr>))
      else Some (False, g))"
    unfolding handle_actions_def Let_def board_x_def board_y_def by (rule refl)
  consider (left) "left_pressed (buttons g)" "\<not> check_collision g (?bx - 1) ?by ?r ?p"
    | (right) "\<not> (left_pressed (buttons g) \<and> \<not> check_collision g (?bx - 1) ?by ?r ?p)"
        "right_pressed (buttons g)" "\<not> check_collision g (?bx + 1) ?by ?r ?p"
    | (down) "\<not> (left_pressed (buttons g) \<and> \<not> check_collision g (?bx - 1) ?by ?r ?p)"
        "\<not> (right_pressed (buttons g) \<and> \<not> check_collision g (?bx + 1) ?by ?r ?p)"
        "down_pressed (buttons g)" "\<not> check_collision g ?bx (?by + 1) ?r ?p"
    | (rotate) "\<not> (left_pressed (buttons g) \<and> \<not> check_collision g (?bx - 1) ?by ?r ?p)"
        "\<not> (right_pressed (buttons g) \<and> \<not> check_collision g (?bx + 1) ?by ?r ?p)"
        "\<not> (down_pressed (buttons g) \<and> \<not> check_collision g ?bx (?by + 1) ?r ?p)"
        "rotate_pressed (buttons g)" "\<not> check_collision g ?bx ?by ((?r + 1) AND 3) ?p"
    | (other) "\<not> (left_pressed (buttons g) \<and> \<not> check_collision g (?bx - 1) ?by ?r ?p)"
        "\<not> (right_pressed (buttons g) \<and> \<not> check_collision g (?bx + 1) ?by ?r ?p)"
        "\<not> (down_pressed (buttons g) \<and> \<not> check_collision g ?bx (?by + 1) ?r ?p)"
        "\<not> (rotate_pressed (buttons g) \<and> \<not> check_collision g ?bx ?by ((?r + 1) AND 3) ?p)"
    by blast
  then show ?thesis
  proof cases
    case left
    then have "handle_actions g = Some (False, g \<lparr> piece_origin_x := piece_origin_x g - 2 \<rparr>)"
      unfolding act by (simp only: simp_thms if_True if_False)
    moreover have "falling_inv (g \<lparr> piece_origin_x := piece_origin_x g - 2 \<rparr>)"
      by (rule moved [of _ "-1" 0]) (use left ok in simp_all)
    ultimately show ?thesis by auto
  next
    case right
    then have "handle_actions g = Some (False, g \<lparr> piece_origin_x := piece_origin_x g + 2 \<rparr>)"
      unfolding act by (simp only: simp_thms if_True if_False)
    moreover have "falling_inv (g \<lparr> piece_origin_x := piece_origin_x g + 2 \<rparr>)"
      by (rule moved [of _ 1 0]) (use right ok in simp_all)
    ultimately show ?thesis by auto
  next
    case down
    then have "handle_actions g = Some (False, g \<lparr> piece_origin_y := piece_origin_y g + 1 \<rparr>)"
      unfolding act by (simp only: simp_thms if_True if_False)
    moreover have "falling_inv (g \<lparr> piece_origin_y := piece_origin_y g + 1 \<rparr>)"
      by (rule moved [of _ 0 1]) (use down ok in simp_all)
    ultimately show ?thesis by auto
  next
    case rotate
    then have "handle_actions g = Some (False, g \<lparr> current_rotation := (?r + 1) AND 3 \<rparr>)"
      unfolding act by (simp only: simp_thms if_True if_False)
    moreover have "falling_inv (g \<lparr> current_rotation := (?r + 1) AND 3 \<rparr>)"
      by (rule moved [of _ 0 0]) (use rotate rot in simp_all)
    ultimately show ?thesis by auto
  next
    case other
    show ?thesis
    proof (cases "drop_pressed (buttons g)")
      case False
      with other have "handle_actions g = Some (False, g)"
        unfolding act by (simp only: simp_thms if_True if_False option.case)
      with inv show ?thesis by auto
    next
      case True
      obtain d where d: "1 \<le> d" "drop_amount g ?bx ?by 1 = Some d"
        "\<forall>k. 1 \<le> k \<and> k < d \<longrightarrow> \<not> check_collision g ?bx (?by + k) ?r ?p"
        using drop_amount_stops [OF ok, of 1 ?bx ?by] by blast
      have "handle_actions g = Some (True, g \<lparr> piece_origin_y := piece_origin_y g + (d - 1) \<rparr>)"
        using other True d(2) unfolding act by (simp only: simp_thms if_True if_False option.case)
      moreover have "\<not> check_collision g ?bx (?by + (d - 1)) ?r ?p"
        using d fr by (cases "d = 1") auto
      then have "falling_inv (g \<lparr> piece_origin_y := piece_origin_y g + (d - 1) \<rparr>)"
        by (intro moved [of _ 0 "d - 1"]) (use ok in simp_all)
      ultimately show ?thesis by auto
    qed
  qed
qed

lemma place_frame:
  assumes "piece_inside g"
  shows "frame g (place_current_block_on_board g)"
proof -
  have "frame h (foldl (\<lambda>g' i. set_board (arr_x (current_rotation g') (current_piece g') i + board_x g)
      (arr_y (current_rotation g') (current_piece g') i + board_y g) (current_piece g') g') h xs)"
    if "current_rotation h = current_rotation g" "current_piece h = current_piece g" "set xs \<subseteq> {..<4}" for h xs
    using that
  proof (induction xs arbitrary: h)
    case Nil
    then show ?case by simp
  next
    case (Cons i xs)
    define h' where "h' = set_board (arr_x (current_rotation h) (current_piece h) i + board_x g)
      (arr_y (current_rotation h) (current_piece h) i + board_y g) (current_piece h) h"
    have "frame h h'"
      unfolding h'_def by (rule frame_set_board) (use Cons.prems assms in \<open>auto simp: piece_inside_def inside_def\<close>)
    moreover have "current_rotation h' = current_rotation g" "current_piece h' = current_piece g"
      using Cons.prems by (simp_all add: h'_def set_board_def)
    ultimately show ?case using Cons.IH [of h'] Cons.prems(3) unfolding foldl.simps h'_def [symmetric]
      by (auto intro: frame_trans)
  qed
  from this [of g "[0..<4]"] show ?thesis
    by (simp add: place_current_block_on_board_def Let_def board_x_def board_y_def atLeast0LessThan)
qed

lemma place_only_board: "\<exists>b. place_current_block_on_board g = g \<lparr> gameboard := b \<rparr>"
proof -
  have "\<exists>b. foldl (\<lambda>g i. set_board (x g i) (y g i) (c g) g) g is = g \<lparr> gameboard := b \<rparr>"
    for x y :: "game \<Rightarrow> nat \<Rightarrow> int" and c and "is" :: "nat list"
  proof (induction "is" rule: rev_induct)
    case Nil
    have "g = g \<lparr> gameboard := gameboard g \<rparr>" by simp
    then show ?case by (simp only: foldl.simps) blast
  next
    case (snoc i "is")
    then obtain b where "foldl (\<lambda>g i. set_board (x g i) (y g i) (c g) g) g is = g \<lparr> gameboard := b \<rparr>" by blast
    then show ?case by (auto simp: set_board_def)
  qed
  then show ?thesis unfolding place_current_block_on_board_def Let_def by this
qed

lemma place_fields [simp]:
  "next_piece (place_current_block_on_board g) = next_piece g"
  "current_piece (place_current_block_on_board g) = current_piece g"
  "current_rotation (place_current_block_on_board g) = current_rotation g"
  "piece_origin_x (place_current_block_on_board g) = piece_origin_x g"
  "piece_origin_y (place_current_block_on_board g) = piece_origin_y g"
  "gstate (place_current_block_on_board g) = gstate g"
  "state_pause_prev (place_current_block_on_board g) = state_pause_prev g"
  "ticks_per_drop (place_current_block_on_board g) = ticks_per_drop g"
  using place_only_board [of g] by (elim exE; simp)+

lemma falling_inv_cong:
  "gameboard g' = gameboard g \<Longrightarrow> current_piece g' = current_piece g \<Longrightarrow> current_rotation g' = current_rotation g \<Longrightarrow>
   piece_origin_x g' = piece_origin_x g \<Longrightarrow> piece_origin_y g' = piece_origin_y g \<Longrightarrow> falling_inv g' = falling_inv g"
  by (simp add: falling_inv_def aligned_def piece_free_def board_x_def board_y_def check_collision_def)

lemma falling_inside: "falling_inv g \<Longrightarrow> piece_inside g"
  by (simp add: falling_inv_def piece_free_inside)

text \<open>Drawing a piece that lies inside the board.\<close>

lemma draw_at_frame:
  assumes "inside bx y r p" and "ox = BOARD_ORIGIN_X + 2 * bx" and "oy = y + BOARD_ORIGIN_Y"
  shows "frame g (draw_piece ox oy r p color g)"
  unfolding assms(2,3) by (rule draw_piece_inside [OF assms(1)])

lemma origin_y: "piece_origin_y g = board_y g + BOARD_ORIGIN_Y"
  by (simp add: board_y_def SCREEN_Y_TO_BOARD_Y_def)

lemma draw_current_frame:
  assumes "piece_inside g" and "aligned g"
  shows "frame g (draw_current_piece g)"
  unfolding draw_current_piece_def
  by (rule draw_at_frame [OF assms(1)[unfolded piece_inside_def] assms(2)[unfolded aligned_def] origin_y])

lemma draw_piece_fields [simp]:
  "gameboard (draw_piece ox oy r p c g) = gameboard g" "gstate (draw_piece ox oy r p c g) = gstate g"
  "state_pause_prev (draw_piece ox oy r p c g) = state_pause_prev g" "next_piece (draw_piece ox oy r p c g) = next_piece g"
  "current_piece (draw_piece ox oy r p c g) = current_piece g"
  "current_rotation (draw_piece ox oy r p c g) = current_rotation g"
  "piece_origin_x (draw_piece ox oy r p c g) = piece_origin_x g" "piece_origin_y (draw_piece ox oy r p c g) = piece_origin_y g"
  by (simp_all add: draw_piece_def)

text \<open>The part of a step after the action: placing a dropped piece, and the fall.\<close>

definition settle :: "bool \<Rightarrow> game \<Rightarrow> game" where
  "settle dropped g =
     (let g = (if dropped then (place_current_block_on_board g) \<lparr> gstate := LINE_CHECK \<rparr> else g);
          g = g \<lparr> ticks := ticks g + 1 \<rparr>
      in if ticks g \<ge> ticks_per_drop g
         then
           let g = g \<lparr> ticks := 0 \<rparr>;
               (collided, g) = shift_down g
           in if collided then (place_current_block_on_board g) \<lparr> gstate := LINE_CHECK \<rparr> else g
         else g)"

lemma shift_down_blocks_eq:
  "shift_down_blocks g =
     (case handle_actions g of None \<Rightarrow> None | Some (dropped, g') \<Rightarrow>
        (let h = settle dropped g'
         in Some (if piece_origin_x g \<noteq> piece_origin_x h \<or> piece_origin_y g \<noteq> piece_origin_y h \<or>
                     current_rotation g \<noteq> current_rotation h
                  then draw_current_piece (draw_piece (piece_origin_x g) (piece_origin_y g) (current_rotation g)
                         (current_piece h) background_color h)
                  else h)))"
  unfolding shift_down_blocks_def settle_def Let_def by (rule refl)

lemma shift_down_step:
  assumes "piece_ok (current_rotation g) (current_piece g)" and "aligned g" and "piece_inside g"
  shows "\<exists>b g'. shift_down g = (b, g') \<and> screen g' = screen g \<and> gameboard g' = gameboard g \<and>
    current_piece g' = current_piece g \<and> current_rotation g' = current_rotation g \<and> next_piece g' = next_piece g \<and>
    gstate g' = gstate g \<and> state_pause_prev g' = state_pause_prev g \<and> aligned g' \<and> piece_inside g' \<and>
    (b \<longrightarrow> g' = g) \<and> (\<not> b \<longrightarrow> falling_inv g')"
proof (cases "check_collision g (board_x g) (board_y g + 1) (current_rotation g) (current_piece g)")
  case True
  then have "shift_down g = (True, g)" by (simp add: shift_down_def board_x_def board_y_def)
  with assms show ?thesis by auto
next
  case False
  define g' where "g' = g \<lparr> piece_origin_y := piece_origin_y g + 1 \<rparr>"
  have e: "shift_down g = (False, g')" using False by (simp add: shift_down_def board_x_def board_y_def g'_def)
  have al: "board_x g' = board_x g" "aligned g'"
    using aligned_move [OF assms(2), of g' 0] by (simp_all add: g'_def)
  have y: "board_y g' = board_y g + 1" by (rule board_y_move) (simp add: g'_def)
  have "piece_free g'" using False unfolding piece_free_def al y by (simp add: g'_def check_collision_def)
  then have "falling_inv g'" using al assms(1) by (simp add: falling_inv_def g'_def)
  moreover have "screen g' = screen g \<and> gameboard g' = gameboard g \<and> current_piece g' = current_piece g \<and>
      current_rotation g' = current_rotation g \<and> next_piece g' = next_piece g \<and> gstate g' = gstate g \<and>
      state_pause_prev g' = state_pause_prev g" by (simp add: g'_def)
  ultimately show ?thesis using e al(2) falling_inside [of g'] by blast
qed

lemma settle_step:
  assumes inv: "falling_inv g" and st: "gstate g = SHIFT_DOWN_BLOCKS"
  shows "frame g (settle b g) \<and> aligned (settle b g) \<and> piece_inside (settle b g) \<and>
    current_piece (settle b g) = current_piece g \<and> next_piece (settle b g) = next_piece g \<and>
    gstate (settle b g) \<noteq> PAUSE \<and> (gstate (settle b g) = SHIFT_DOWN_BLOCKS \<longrightarrow> falling_inv (settle b g))"
proof -
  define g1 where "g1 = (if b then (place_current_block_on_board g) \<lparr> gstate := LINE_CHECK \<rparr> else g)"
  have al: "aligned g" and ok: "piece_ok (current_rotation g) (current_piece g)" and ins: "piece_inside g"
    using inv falling_inside [OF inv] by (simp_all add: falling_inv_def)
  have g1: "current_piece g1 = current_piece g" "current_rotation g1 = current_rotation g" "next_piece g1 = next_piece g"
    "piece_origin_x g1 = piece_origin_x g" "piece_origin_y g1 = piece_origin_y g"
    "gstate g1 = (if b then LINE_CHECK else SHIFT_DOWN_BLOCKS)"
    using st by (simp_all add: g1_def)
  have fr1: "frame g g1"
  proof (cases b)
    case True
    then have "frame g g1 = frame g (place_current_block_on_board g)" by (intro frame_cong) (simp_all add: g1_def)
    then show ?thesis using place_frame [OF ins] by simp
  qed (simp add: g1_def)
  have free1: "\<not> b \<Longrightarrow> falling_inv g1" using inv by (simp add: g1_def)
  define g2 where "g2 = g1 \<lparr> ticks := ticks g1 + 1 \<rparr>"
  define g3 where "g3 = g2 \<lparr> ticks := 0 \<rparr>"
  have bxy: "board_x g1 = board_x g" "board_y g1 = board_y g" "board_x g2 = board_x g" "board_y g2 = board_y g"
    "board_x g3 = board_x g" "board_y g3 = board_y g"
    by (simp_all add: board_x_def board_y_def g1 g2_def g3_def)
  have same: "piece_origin_x g2 = piece_origin_x g" "piece_origin_x g3 = piece_origin_x g"
    "current_rotation g2 = current_rotation g" "current_rotation g3 = current_rotation g"
    "current_piece g2 = current_piece g" "current_piece g3 = current_piece g"
    by (simp_all add: g2_def g3_def g1)
  have p: "aligned h" "piece_inside h" if "h = g2 \<or> h = g3" for h
    using that al ins by (auto simp: aligned_def piece_inside_def bxy same)
  have fr: "frame g g2" "frame g g3"
    using fr1 by (simp_all add: frame_def g2_def g3_def)
  show ?thesis
  proof (cases "ticks g2 \<ge> ticks_per_drop g2")
    case False
    have e: "settle b g = g2"
      using False unfolding settle_def g1_def [symmetric] Let_def g2_def [symmetric] by (simp only: if_False)
    have "falling_inv g2" if "\<not> b"
      using free1 [OF that] falling_inv_cong [of g2 g1] by (simp add: g2_def)
    then show ?thesis unfolding e using fr p [of g2] g1 by (simp add: g2_def)
  next
    case True
    have ok3: "piece_ok (current_rotation g3) (current_piece g3)" using ok by (simp add: g3_def g2_def g1)
    obtain c g4 where s: "shift_down g3 = (c, g4)" "screen g4 = screen g3" "gameboard g4 = gameboard g3"
      "current_piece g4 = current_piece g3" "current_rotation g4 = current_rotation g3" "next_piece g4 = next_piece g3"
      "gstate g4 = gstate g3" "aligned g4" "piece_inside g4" "c \<longrightarrow> g4 = g3" "\<not> c \<longrightarrow> falling_inv g4"
      using shift_down_step [OF ok3 p [of g3]] by auto
    have e: "settle b g = (if c then (place_current_block_on_board g4) \<lparr> gstate := LINE_CHECK \<rparr> else g4)"
      using True s(1) unfolding settle_def g1_def [symmetric] Let_def g2_def [symmetric] g3_def [symmetric]
      by (simp only: if_True prod.case)
    have fr4: "frame g g4" using fr(2) s(2,3) by (simp add: frame_def)
    show ?thesis
    proof (cases c)
      case True
      define h where "h = (place_current_block_on_board g4) \<lparr> gstate := LINE_CHECK \<rparr>"
      have "frame g4 h = frame g4 (place_current_block_on_board g4)" by (intro frame_cong) (simp_all add: h_def)
      then have "frame g h" using frame_trans [OF fr4] place_frame [OF s(9)] by simp
      moreover have "board_x h = board_x g4" "board_y h = board_y g4" by (simp_all add: h_def board_x_def board_y_def)
      then have "aligned h" "piece_inside h" using s(8,9) by (simp_all add: aligned_def piece_inside_def h_def)
      ultimately show ?thesis using True e s g1 by (simp add: h_def [symmetric]) (simp add: h_def g3_def g2_def)
    next
      case False
      then show ?thesis using e s fr4 g1 by (simp add: g3_def g2_def)
    qed
  qed
qed

lemma shift_down_blocks_step:
  assumes inv: "falling_inv g" and st: "gstate g = SHIFT_DOWN_BLOCKS" and nxt: "next_piece g \<noteq> P_E"
  shows "\<exists>g'. shift_down_blocks g = Some g' \<and> frame g g' \<and> game_inv g'"
proof -
  obtain b g1 where a: "handle_actions g = Some (b, g1)" "falling_inv g1" "screen g1 = screen g"
    "gameboard g1 = gameboard g" "current_piece g1 = current_piece g" "next_piece g1 = next_piece g"
    "gstate g1 = gstate g" using handle_actions_step [OF inv] by blast
  define h where "h = settle b g1"
  have h: "frame g1 h" "aligned h" "piece_inside h" "current_piece h = current_piece g" "next_piece h = next_piece g"
    "gstate h \<noteq> PAUSE" "gstate h = SHIFT_DOWN_BLOCKS \<longrightarrow> falling_inv h"
    using settle_step [OF a(2), of b] a st by (simp_all add: h_def)
  have frh: "frame g h" using h(1) a(3,4) by (simp add: frame_def)
  define d where "d = draw_piece (piece_origin_x g) (piece_origin_y g) (current_rotation g) (current_piece h) background_color h"
  have "frame h d"
    unfolding d_def h(4)
    by (rule draw_at_frame [OF falling_inside [OF inv, unfolded piece_inside_def] _ origin_y])
      (use inv in \<open>simp add: falling_inv_def aligned_def\<close>)
  moreover have "frame d (draw_current_piece d)"
  proof (rule draw_current_frame)
    have "board_x d = board_x h" "board_y d = board_y h" by (simp_all add: d_def board_x_def board_y_def)
    then show "piece_inside d" "aligned d" using h(2,3) by (simp_all add: piece_inside_def aligned_def d_def)
  qed
  ultimately have frd: "frame g (draw_current_piece d)" using frh by (blast intro: frame_trans)
  have invh: "game_inv h" using h nxt by (simp add: game_inv_def playing_def)
  have "game_inv (draw_current_piece d)"
    using invh falling_inv_cong [of "draw_current_piece d" h]
    by (simp add: game_inv_def playing_def d_def draw_current_piece_def)
  then show ?thesis
    using frh frd invh by (simp add: shift_down_blocks_eq a(1) h_def [symmetric] d_def [symmetric])
qed

lemma clear_lines_frame: "frame g (clear_lines g)"
proof -
  have copy: "frame g (copy_board_line c y g)" if "0 \<le> y" "y < BOARD_Y" for c y g
    unfolding copy_board_line_def
    by (rule frame_foldl) (use that in \<open>auto simp: in_board_def intro!: frame_set_board\<close>)
  have empty: "frame g (empty_board_line y g)" if "0 \<le> y" "y < BOARD_Y" for y g
    unfolding empty_board_line_def
    by (rule frame_foldl) (use that in \<open>auto simp: in_board_def intro!: frame_set_board\<close>)
  have e: "y \<le> nat BOARD_Y \<Longrightarrow> frame g (empty_lines y g)" for y g
  proof (induction y arbitrary: g)
    case 0
    then show ?case by simp
  next
    case (Suc y)
    let ?g = "draw_gameboard_line (int y) True background_color (empty_board_line (int y) g)"
    have "frame g ?g" using Suc.prems by (intro frame_trans [OF empty gameboard_line_frame]) simp_all
    then show ?case using Suc.IH [of ?g] Suc.prems by (auto intro: frame_trans)
  qed
  have c: "y \<le> nat BOARD_Y \<Longrightarrow> copy_lines y cl g = (y', g') \<Longrightarrow> frame g g' \<and> y' \<le> y" for y cl g y' g'
  proof (induction y arbitrary: cl g)
    case 0
    then show ?case by simp
  next
    case (Suc y)
    show ?case
    proof (cases "cl = 0 \<or> skip_full (full_lines g) cl = 0")
      case True
      then show ?thesis using Suc.prems(2) by (auto split: if_splits)
    next
      case False
      then obtain c where c: "skip_full (full_lines g) cl = Suc c" by (cases "skip_full (full_lines g) cl") auto
      let ?g = "draw_gameboard_line (int y) False background_color (copy_board_line (int c) (int y) g)"
      have "copy_lines y c ?g = (y', g')" using Suc.prems(2) False c by simp
      moreover have "frame g ?g" using Suc.prems by (intro frame_trans [OF copy gameboard_line_frame]) simp_all
      ultimately show ?thesis using Suc.IH [of c ?g] Suc.prems(1) by (auto intro: frame_trans)
    qed
  qed
  obtain y' g' where cl: "copy_lines (nat BOARD_Y) (nat BOARD_Y) g = (y', g')" by fastforce
  have "frame g g'" "frame g' (empty_lines y' g')" using c [OF order_refl cl] e [of y' g'] by simp_all
  then show ?thesis unfolding clear_lines_def cl by (auto intro: frame_trans)
qed

text \<open>Clearing and drawing lines touch neither the state of the game nor the next piece.\<close>

definition same_core :: "game \<Rightarrow> game \<Rightarrow> bool" where
  "same_core g g' \<longleftrightarrow> gstate g' = gstate g \<and> next_piece g' = next_piece g"

lemma same_core_simps [simp]:
  "same_core g g" "same_core g (draw f g') = same_core g g'"
  "same_core g (draw_gameboard_line y b c g') = same_core g g'" "same_core g (set_board x y p g') = same_core g g'"
  by (simp_all add: same_core_def draw_gameboard_line_def set_board_def Let_def)

lemma same_core_foldl: "(\<And>g i. same_core g (f g i)) \<Longrightarrow> same_core g (foldl f g xs)"
proof (induction xs arbitrary: g)
  case Nil
  then show ?case by simp
next
  case (Cons i xs)
  have "same_core g (f g i)" and "same_core (f g i) (foldl f (f g i) xs)" using Cons by simp_all
  then show ?case by (simp add: same_core_def)
qed

lemma board_line_core:
  "same_core g (copy_board_line c y g)" "same_core g (empty_board_line y g)" "same_core g (draw_flash_lines g)"
  by (simp_all add: copy_board_line_def empty_board_line_def draw_flash_lines_def Let_def same_core_foldl)

lemma clear_lines_core: "same_core g (clear_lines g)"
proof -
  have e: "same_core g (empty_lines y g)" for y g
    by (induction y arbitrary: g) (simp, use board_line_core(2) in \<open>force simp: same_core_def draw_gameboard_line_def Let_def\<close>)
  have c: "same_core g (snd (copy_lines y cl g))" for y cl g
  proof (induction y arbitrary: cl g)
    case 0
    then show ?case by simp
  next
    case (Suc y)
    have "same_core g (snd (copy_lines y c (draw_gameboard_line l b col (copy_board_line c' l' g))))" for c c' l l' b col
      using Suc.IH [of "draw_gameboard_line l b col (copy_board_line c' l' g)" c] board_line_core(1) [of g c' l']
      by (simp add: same_core_def draw_gameboard_line_def Let_def)
    then show ?case by (auto split: nat.splits)
  qed
  show ?thesis
    using c [of g "nat BOARD_Y" "nat BOARD_Y"] e [of "snd (copy_lines (nat BOARD_Y) (nat BOARD_Y) g)" "fst (copy_lines (nat BOARD_Y) (nat BOARD_Y) g)"]
    by (simp add: clear_lines_def split_beta same_core_def)
qed

lemma update_score_core: "same_core g (update_score g)"
  by (simp add: update_score_def draw_score_def same_core_def Let_def)

lemma update_score_frame: "frame g (update_score g)"
proof -
  have "\<exists>g1. update_score g = draw_score g1 \<and> screen g1 = screen g \<and> gameboard g1 = gameboard g"
    unfolding update_score_def Let_def by (intro exI conjI) (rule refl, simp_all)
  then show ?thesis using draw_score_frame unfolding frame_def by metis
qed

lemma choose_piece_ok: "next_piece (choose_piece g) \<noteq> P_E"
proof -
  have "pieces ! n \<noteq> P_E" if "n < 7" for n
  proof -
    have "n = 0 \<or> n = 1 \<or> n = 2 \<or> n = 3 \<or> n = 4 \<or> n = 5 \<or> n = 6" using that by arith
    then show ?thesis by (elim disjE) (simp_all add: pieces_def)
  qed
  moreover have "unat (r mod 7) < 7" for r :: u64 by (simp add: unat_mod_distrib)
  ultimately show ?thesis by (simp add: choose_piece_def split_beta)
qed

lemma choose_piece_fields [simp]:
  "screen (choose_piece g) = screen g" "gameboard (choose_piece g) = gameboard g"
  "current_piece (choose_piece g) = current_piece g" "gstate (choose_piece g) = gstate g"
  "state_pause_prev (choose_piece g) = state_pause_prev g"
  by (simp_all add: choose_piece_def split_beta)

lemma spawn_block_step:
  assumes nxt: "next_piece g \<noteq> P_E" and st: "gstate g \<noteq> PAUSE"
  shows "frame g (spawn_block g) \<and> game_inv (spawn_block g)"
proof -
  define g1 where "g1 = (choose_piece (g \<lparr> current_piece := next_piece g \<rparr>))
    \<lparr> piece_origin_x := BOARD_ORIGIN_X + BOARD_X, piece_origin_y := BOARD_ORIGIN_Y, current_rotation := 0 \<rparr>"
  define g2 where "g2 = draw_next_piece (clear_next_piece_box g1)"
  have n1: "next_piece g1 \<noteq> P_E" by (simp add: g1_def choose_piece_ok)
  have f1: "frame g g1" by (simp add: frame_def g1_def)
  have "frame g1 (clear_next_piece_box g1)" "next_piece (clear_next_piece_box g1) = next_piece g1"
    by (rule clear_next_piece_box_frame) (simp add: clear_next_piece_box_def)
  then have f2: "frame g g2"
    using f1 draw_next_piece_frame [of "clear_next_piece_box g1"] n1 unfolding g2_def by (auto intro: frame_trans)
  have g2: "next_piece g2 = next_piece g1" "current_piece g2 = next_piece g" "current_rotation g2 = 0"
    "piece_origin_x g2 = BOARD_ORIGIN_X + BOARD_X" "piece_origin_y g2 = BOARD_ORIGIN_Y"
    by (simp_all add: g2_def draw_next_piece_def clear_next_piece_box_def g1_def)
  have bx: "board_x g2 = 5"
    using screen_to_board [of 5] by (simp add: board_x_def g2)
  have al: "aligned g2" by (simp add: aligned_def bx g2)
  have e: "spawn_block g = (if check_collision g2 (board_x g2) (board_y g2) (current_rotation g2) (current_piece g2)
      then g2 \<lparr> gstate := GAME_OVER \<rparr> else (draw_current_piece g2) \<lparr> gstate := SHIFT_DOWN_BLOCKS, ticks := 0 \<rparr>)"
    unfolding spawn_block_def Let_def board_x_def board_y_def g1_def g2_def by (rule refl)
  show ?thesis
  proof (cases "piece_free g2")
    case False
    then have "spawn_block g = g2 \<lparr> gstate := GAME_OVER \<rparr>" by (simp add: e piece_free_def)
    then show ?thesis using f2 n1 g2 by (simp add: game_inv_def playing_def frame_def)
  next
    case True
    define g3 where "g3 = (draw_current_piece g2) \<lparr> gstate := SHIFT_DOWN_BLOCKS, ticks := 0 \<rparr>"
    have s: "spawn_block g = g3" using True by (simp add: e piece_free_def g3_def)
    have "frame g2 (draw_current_piece g2)" by (rule draw_current_frame [OF piece_free_inside [OF True] al])
    then have "frame g g3" using f2 unfolding g3_def by (auto simp: frame_def intro: same_outside_trans)
    moreover have "falling_inv g2" using True al nxt by (simp add: falling_inv_def piece_ok_def g2)
    then have "falling_inv g3"
      using falling_inv_cong [of g3 g2] by (simp add: g3_def draw_current_piece_def)
    then have "game_inv g3" using n1 g2 by (simp add: game_inv_def g3_def draw_current_piece_def)
    ultimately show ?thesis by (simp add: s)
  qed
qed

lemma line_check_step:
  assumes "next_piece g \<noteq> P_E"
  shows "frame g (line_check g) \<and> game_inv (line_check g)"
  using assms by (simp add: line_check_def check_for_lines_eq frame_def game_inv_def playing_def)

lemma line_check_flash_step:
  assumes nxt: "next_piece g \<noteq> P_E" and st: "gstate g = LINE_CHECK_FLASH"
  shows "frame g (line_check_flash g) \<and> game_inv (line_check_flash g)"
proof -
  define g1 where "g1 = g \<lparr> flash_ticks := flash_ticks g + 1 \<rparr>"
  define g2 where "g2 = (if flash_ticks g1 > TICKS_PER_FLASH
    then draw_flash_lines (g1 \<lparr> flash_ticks := 0, flash_count := flash_count g1 + 1 \<rparr>) else g1)"
  define g3 where "g3 = update_score (clear_lines g2)"
  have f1: "frame g g1" "same_core g g1" by (simp_all add: frame_def g1_def same_core_def)
  have f2: "frame g g2 \<and> same_core g g2"
  proof (cases "flash_ticks g1 > TICKS_PER_FLASH")
    case True
    define h where "h = g1 \<lparr> flash_ticks := 0, flash_count := flash_count g1 + 1 \<rparr>"
    have "frame g h" "same_core g h" using f1 by (simp_all add: h_def frame_def same_core_def)
    moreover have "g2 = draw_flash_lines h" using True by (simp add: g2_def h_def)
    ultimately show ?thesis
      using draw_flash_lines_frame [of h] board_line_core(3) [of h] by (auto intro: frame_trans simp: same_core_def)
  qed (use f1 in \<open>simp add: g2_def\<close>)
  have f3: "frame g g3 \<and> same_core g g3"
    using f2 clear_lines_frame [of g2] clear_lines_core [of g2] update_score_frame [of "clear_lines g2"]
      update_score_core [of "clear_lines g2"] unfolding g3_def
    by (auto intro: frame_trans simp: same_core_def)
  have e: "line_check_flash g = (if flash_count g2 \<ge> NUM_FLASHES then g3 \<lparr> gstate := SPAWN_BLOCK \<rparr> else g2)"
    unfolding line_check_flash_def Let_def g3_def g2_def g1_def by (rule refl)
  show ?thesis
    using f2 f3 nxt st unfolding e by (simp add: same_core_def game_inv_def playing_def frame_def)
qed

lemma draw_game_over_inv: "game_inv g \<Longrightarrow> game_inv (draw_game_over g)"
  using falling_inv_cong [of "draw_game_over g" g]
  by (simp add: game_inv_def playing_def draw_game_over_def)

lemma toggle_pause_inv:
  assumes "game_inv g"
  shows "game_inv (toggle_pause g) \<and> frame g (toggle_pause g)"
proof -
  have "falling_inv (g \<lparr> gstate := a \<rparr>) = falling_inv g"
    "falling_inv (g \<lparr> state_pause_prev := b, gstate := a \<rparr>) = falling_inv g" for a b
    by (rule falling_inv_cong; simp)+
  then show ?thesis using assms by (simp add: toggle_pause_def game_inv_def playing_def frame_def)
qed

lemma update_step:
  assumes "game_inv g"
  shows "\<exists>g'. update keys g = Some g' \<and> frame g g' \<and> game_inv g'"
proof -
  define g1 where "g1 = update_keys keys g"
  have i1: "game_inv g1" "frame g g1"
    using assms falling_inv_cong [of g1 g] by (simp_all add: g1_def update_keys_def game_inv_def playing_def frame_def)
  define g2 where "g2 = (if pause_pressed (buttons g1) then toggle_pause g1 else g1)"
  have i2: "game_inv g2" "frame g g2"
    using i1 toggle_pause_inv [OF i1(1)] by (auto simp: g2_def intro: frame_trans)
  have e: "update keys g =
     (if quit_pressed (buttons g1) then Some (g1 \<lparr> quit := True \<rparr>)
      else case gstate g2 of
             SPAWN_BLOCK \<Rightarrow> Some (spawn_block g2)
           | SHIFT_DOWN_BLOCKS \<Rightarrow> shift_down_blocks g2
           | LINE_CHECK \<Rightarrow> Some (line_check g2)
           | LINE_CHECK_FLASH \<Rightarrow> Some (line_check_flash g2)
           | PAUSE \<Rightarrow> Some g2
           | GAME_OVER \<Rightarrow> Some (draw_game_over g2))"
    unfolding update_def Let_def g1_def g2_def by (rule refl)
  have nxt: "next_piece g2 \<noteq> P_E" using i2 by (simp add: game_inv_def)
  show ?thesis
  proof (cases "quit_pressed (buttons g1)")
    case True
    have "falling_inv (g1 \<lparr> quit := True \<rparr>) = falling_inv g1" by (rule falling_inv_cong) simp_all
    then have "game_inv (g1 \<lparr> quit := True \<rparr>)" using i1(1) by (simp add: game_inv_def playing_def)
    moreover have "frame g (g1 \<lparr> quit := True \<rparr>)" using i1(2) by (simp add: frame_def)
    ultimately show ?thesis using True by (simp add: e)
  next
    case False
    show ?thesis
    proof (cases "gstate g2")
      case SPAWN_BLOCK
      then show ?thesis using False spawn_block_step [OF nxt] i2(2) by (auto simp: e intro: frame_trans)
    next
      case SHIFT_DOWN_BLOCKS
      then have "falling_inv g2" using i2(1) by (simp add: game_inv_def playing_def)
      from shift_down_blocks_step [OF this SHIFT_DOWN_BLOCKS nxt] show ?thesis
        using False SHIFT_DOWN_BLOCKS i2(2) by (auto simp: e intro: frame_trans)
    next
      case LINE_CHECK
      then show ?thesis using False line_check_step [OF nxt] i2(2) by (auto simp: e intro: frame_trans)
    next
      case LINE_CHECK_FLASH
      then show ?thesis using False line_check_flash_step [OF nxt] i2(2) by (auto simp: e intro: frame_trans)
    next
      case PAUSE
      then show ?thesis using False i2 by (simp add: e)
    next
      case GAME_OVER
      then show ?thesis
        using False draw_game_over_inv [OF i2(1)] draw_game_over_frame [of g2] i2(2) by (auto simp: e intro: frame_trans)
    qed
  qed
qed

inductive game_reachable :: "game \<Rightarrow> bool" where
  start: "game_reachable (tetris_start key1 key2 key3 key4 g)"
| tick: "game_reachable g \<Longrightarrow> update keys g = Some g' \<Longrightarrow> game_reachable g'"

lemma tetris_start_inv: "game_inv (tetris_start key1 key2 key3 key4 g)"
proof -
  have d: "gstate (draw_game_borders h) = gstate h" for h
    by (simp add: draw_game_borders_def draw_score_def Let_def)
  have g: "gstate (tetris_start key1 key2 key3 key4 g) = SPAWN_BLOCK"
    by (simp add: tetris_start_def d reset_tetris_def Let_def)
  obtain h b where "tetris_start key1 key2 key3 key4 g = (choose_piece h) \<lparr> gameboard := b \<rparr>"
    by (simp add: tetris_start_def Let_def)
  then have "next_piece (tetris_start key1 key2 key3 key4 g) \<noteq> P_E" by (simp add: choose_piece_ok)
  with g show ?thesis by (simp add: game_inv_def playing_def)
qed

lemma game_reachable_inv: "game_reachable g \<Longrightarrow> game_inv g"
proof (induction rule: game_reachable.induct)
  case (start key1 key2 key3 key4 g)
  then show ?case by (rule tetris_start_inv)
next
  case (tick g keys g')
  then show ?case using update_step [of g keys] by auto
qed

text \<open>C11. In every state that the game can reach, whatever keys arrive, the next tick ends (the
  search for the place of a dropped piece included), writes no cell outside of the screen and none
  outside of the board, and leaves a falling piece on free cells of the board.\<close>

theorem tetris_tick_safe:
  assumes "game_reachable g"
  shows "\<exists>g'. update keys g = Some g' \<and>
    (\<forall>i. i < 0 \<or> 2000 \<le> i \<longrightarrow> video_cells (screen g') i = video_cells (screen g) i) \<and>
    (\<forall>x y. \<not> (0 \<le> x \<and> x < BOARD_X \<and> 0 \<le> y \<and> y < BOARD_Y) \<longrightarrow> gameboard g' x y = gameboard g x y) \<and>
    (gstate g' = SHIFT_DOWN_BLOCKS \<longrightarrow>
      \<not> check_collision g' (SCREEN_X_TO_BOARD_X (piece_origin_x g')) (SCREEN_Y_TO_BOARD_Y (piece_origin_y g'))
          (current_rotation g') (current_piece g'))"
proof -
  obtain g' where "update keys g = Some g'" "frame g g'" "game_inv g'"
    using update_step [OF game_reachable_inv [OF assms]] by blast
  moreover from this have "gstate g' = SHIFT_DOWN_BLOCKS \<longrightarrow> piece_free g'"
    by (simp add: game_inv_def playing_def falling_inv_def)
  ultimately show ?thesis
    by (intro exI [of _ g']) (simp add: frame_def same_outside_def in_board_def piece_free_def board_x_def board_y_def)
qed

definition blank_game :: game where
  "blank_game = \<lparr> screen = \<lparr> video_cells = (\<lambda>_. (0, color_of 0 0)), info_x = 0, info_y = 0, info_color = color_of 0 0 \<rparr>,
     rand_state = 0xC001C0DE, gameboard = (\<lambda>_ _. P_I), current_piece = P_I, next_piece = P_I, gstate = SPAWN_BLOCK,
     state_pause_prev = SPAWN_BLOCK, quit = False, full_lines = (\<lambda>_. False), current_rotation = 0,
     piece_origin_x = 0, piece_origin_y = 0, ticks = 0, flash_ticks = 0, flash_count = 0, ticks_per_drop = 62,
     lines_cleared = 0, score = 0, buttons = no_buttons \<rparr>"

text \<open>The first tick after the start, with the space bar pressed.\<close>

theorem tetris_tick_safe_witness:
  "\<exists>g'. update [0x20] (tetris_start 1 2 3 4 blank_game) = Some g'"
  using tetris_tick_safe [OF game_reachable.start, of "[0x20]" 1 2 3 4 blank_game] by blast

end
