(* ===== verification/Shell.thy ===== *)
theory Shell
  imports Keyboard Tetris
begin

text \<open>
  The first user program: the system calls as a process sees them (\<open>programs/src/ulib.c\<close>), the shell
  (\<open>init/shell.c\<close>), the start of the program (\<open>init/main.c\<close>) and the part of \<open>tetris.c\<close> that waits
  for keys.  A system call is an interrupt; what it does is the kernel's side, so the calls are the
  fields of a record over a state \<open>'e\<close> of everything outside of the process.  Its keys come to the
  shell through the locale \<open>key_source\<close>, which the keyboard driver provides.
\<close>

section \<open>System calls of a process\<close>

record 'e ulib =
  ulib_fork :: "'e \<Rightarrow> u32 \<times> u32 \<times> 'e"
  ulib_msleep :: "u32 \<Rightarrow> 'e \<Rightarrow> 'e"
  ulib_set_priority :: "u8 \<Rightarrow> 'e \<Rightarrow> 'e"
  ulib_key_available :: "'e \<Rightarrow> bool \<times> 'e"
  ulib_get_key :: "'e \<Rightarrow> u8 \<times> 'e"

text \<open>The loop of \<open>read_key\<close> polls; it may never end.\<close>

partial_function (option) read_key :: "'e ulib \<Rightarrow> 'e \<Rightarrow> (u8 \<times> 'e) option" where
  "read_key u e =
     (case ulib_key_available u e of (available, e) \<Rightarrow>
        if available then Some (ulib_get_key u e) else read_key u (ulib_msleep u 0 e))"

section \<open>Tetris as a process\<close>

text \<open>The keys that wait, read until none is left.\<close>

partial_function (option) drain_keys :: "'e ulib \<Rightarrow> 'e \<Rightarrow> (u8 list \<times> 'e) option" where
  "drain_keys u e =
     (case ulib_key_available u e of (available, e) \<Rightarrow>
        if available
        then (case ulib_get_key u e of (key, e) \<Rightarrow>
          Option.bind (drain_keys u e) (\<lambda>(keys, e). Some (key # keys, e)))
        else Some ([], e))"

abbreviation TICK_DURATION :: u32 where "TICK_DURATION \<equiv> 16"

partial_function (option) tetris_run :: "'e ulib \<Rightarrow> game \<Rightarrow> 'e \<Rightarrow> (game \<times> 'e) option" where
  "tetris_run u g e =
     (if quit g then Some (g, e)
      else Option.bind (drain_keys u e) (\<lambda>(keys, e).
        Option.bind (update keys g) (\<lambda>g. tetris_run u g (ulib_msleep u TICK_DURATION e))))"

text \<open>What \<open>tetris\<close> draws before it waits for the keys of the seed is part of \<open>tetris_start\<close>: the calls
  do not depend on the screen.\<close>

definition tetris :: "'e ulib \<Rightarrow> game \<Rightarrow> 'e \<Rightarrow> (game \<times> 'e) option" where
  "tetris u g e =
     Option.bind (read_key u e) (\<lambda>(key1, e).
     Option.bind (read_key u e) (\<lambda>(key2, e).
     Option.bind (read_key u e) (\<lambda>(key3, e).
     Option.bind (read_key u e) (\<lambda>(key4, e).
       tetris_run u (tetris_start key1 key2 key3 key4 g) e))))"

section \<open>The shell\<close>

text \<open>
  The static variables.  The array of the command is a function, so that an access outside of its
  256 elements shows as one; \<open>shell_game\<close> holds the screen, the random numbers and the variables of
  tetris.
\<close>

record shell =
  shell_game :: game
  command_bytes :: "nat \<Rightarrow> u8"
  command_length :: u32

abbreviation COMMAND_SIZE :: nat where "COMMAND_SIZE \<equiv> 256"
abbreviation STR_SIZE :: u64 where "STR_SIZE \<equiv> 44"

abbreviation shell_screen :: "shell \<Rightarrow> vga" where
  "shell_screen s \<equiv> screen (shell_game s)"

definition str :: "u8 list" where
  "str = map of_char ''ABCDEFGHIJKLMNOPQRSTUVWXYZ1234567890!@#$%&*'' @ [0]"

definition text_color :: color_t where "text_color = color_of 9 0"

definition on_shell_screen :: "(vga \<Rightarrow> vga) \<Rightarrow> shell \<Rightarrow> shell" where
  "on_shell_screen f s = s \<lparr> shell_game := draw f (shell_game s) \<rparr>"

text \<open>One of the ten random characters that flash before the real one.\<close>

definition flash_char :: "'e ulib \<Rightarrow> int \<Rightarrow> shell \<times> 'e \<Rightarrow> shell \<times> 'e" where
  "flash_char u offset = (\<lambda>(s, e).
     case rand (rand_state (shell_game s)) of (r, n) \<Rightarrow>
       let s = s \<lparr> shell_game := (shell_game s) \<lparr> rand_state := n \<rparr> \<rparr>
       in (on_shell_screen (set_cell offset (str ! unat (r mod STR_SIZE)) text_color) s, ulib_msleep u 20 e))"

definition fancy_display_char :: "'e ulib \<Rightarrow> u8 \<Rightarrow> shell \<times> 'e \<Rightarrow> shell \<times> 'e" where
  "fancy_display_char u c = (\<lambda>(s, e).
     let (s, e) = (if c \<noteq> 0x20
                   then fold (\<lambda>i. flash_char u (cursor_offset (shell_screen s))) [0..<10] (s, e) else (s, e))
     in (on_shell_screen (text_mode_char_vga c) s, e))"

definition display_banner :: "'e ulib \<Rightarrow> shell \<times> 'e \<Rightarrow> shell \<times> 'e" where
  "display_banner u = fold (fancy_display_char u) (map of_char ''Welcome to Bikeshed64!'')"

definition put_on_screen :: "u8 \<Rightarrow> vga \<Rightarrow> vga" where
  "put_on_screen c v = text_mode_char_vga c (if info_y v = 0 \<and> info_x v = 0 then clear_screen_vga v else v)"

text \<open>\<open>write_char\<close> and \<open>write_string\<close> of the shell.\<close>

definition echo_char :: "u8 \<Rightarrow> shell \<Rightarrow> shell" where
  "echo_char c = on_shell_screen (put_on_screen c)"

definition write_string :: "u8 list \<Rightarrow> shell \<Rightarrow> shell" where
  "write_string = fold echo_char"

definition put_command :: "u8 \<Rightarrow> shell \<Rightarrow> shell" where
  "put_command c s = s \<lparr> command_bytes := (command_bytes s)(unat (command_length s) := c) \<rparr>"

partial_function (option) read_loop :: "'e ulib \<Rightarrow> shell \<Rightarrow> 'e \<Rightarrow> (shell \<times> 'e) option" where
  "read_loop u s e =
     (if unat (command_length s) < COMMAND_SIZE - 1
      then Option.bind (read_key u e) (\<lambda>(key, e).
        if key = 0x0A
        then if command_length s > 0 then Some (s, e) else read_loop u s e
        else if key = 0x08
        then if command_length s > 0
             then read_loop u (echo_char key (s \<lparr> command_length := command_length s - 1 \<rparr>)) e
             else read_loop u s e
        else
          let s = put_command key s
          in read_loop u (echo_char key (s \<lparr> command_length := command_length s + 1 \<rparr>)) e)
      else Some (s, e))"

definition read_command :: "'e ulib \<Rightarrow> shell \<Rightarrow> 'e \<Rightarrow> (shell \<times> 'e) option" where
  "read_command u s e =
     Option.bind (read_loop u ((write_string [0x3E] s) \<lparr> command_length := 0 \<rparr>) e) (\<lambda>(s, e).
       Some (write_string [0x0A] (put_command 0 s), e))"

text \<open>The command as a C string.\<close>

definition command_string :: "shell \<Rightarrow> u8 list" where
  "command_string s = takeWhile (\<lambda>c. c \<noteq> 0) (map (command_bytes s) [0..<COMMAND_SIZE])"

definition help_text :: "u8 list" where
  "help_text = map of_char (''Commands:\<newline>'' @ '' help - Display this text\<newline>'' @ '' tetris - Play tetris\<newline>'')"

definition check_command :: "'e ulib \<Rightarrow> shell \<Rightarrow> 'e \<Rightarrow> (shell \<times> 'e) option" where
  "check_command u s e =
     (if streq (map of_char ''help'') (command_string s) then Some (write_string help_text s, e)
      else if streq (map of_char ''tetris'') (command_string s)
      then Option.bind (tetris u (shell_game s) e) (\<lambda>(g, e).
        Some (on_shell_screen (\<lambda>v. (text_set_pos 0 0 (clear_screen_vga v)) \<lparr> info_color := text_color \<rparr>)
                (s \<lparr> shell_game := g \<rparr>), e))
      else Some (write_string (map of_char ''Unrecognized command\<newline>'') s, e))"

text \<open>\<open>shell_loop\<close>: what comes before the loop, and \<open>n\<close> rounds of it.\<close>

definition shell_start :: "'e ulib \<Rightarrow> shell \<times> 'e \<Rightarrow> shell \<times> 'e" where
  "shell_start u = (\<lambda>(s, e).
     let (s, e) = display_banner u (on_shell_screen (\<lambda>v. clear_screen_vga (text_set_pos 0 0 v)) s, e)
     in (on_shell_screen (text_set_pos 0 1) s, e))"

definition shell_round :: "'e ulib \<Rightarrow> shell \<times> 'e \<Rightarrow> (shell \<times> 'e) option" where
  "shell_round u = (\<lambda>(s, e).
     Option.bind (read_command u s e) (\<lambda>(s, e). check_command u s e))"

fun shell_loop :: "nat \<Rightarrow> 'e ulib \<Rightarrow> shell \<times> 'e \<Rightarrow> (shell \<times> 'e) option" where
  "shell_loop 0 u s = Some s"
| "shell_loop (Suc n) u s = Option.bind (shell_round u s) (shell_loop n u)"

text \<open>What \<open>main\<close> becomes: the parent runs the shell, the child only loops, and so does a parent
  whose \<open>fork\<close> failed.\<close>

datatype 'e role = Idle_loop 'e | Run_shell "shell \<times> 'e" | Fork_failed "shell \<times> 'e"

definition main_process :: "'e ulib \<Rightarrow> shell \<Rightarrow> 'e \<Rightarrow> 'e role" where
  "main_process u s e =
     (case ulib_fork u (ulib_set_priority u 3 e) of (result, pid, e) \<Rightarrow>
        if result = 0
        then if pid = 0 then Idle_loop e else Run_shell (shell_start u (s, ulib_set_priority u 0 e))
        else Fork_failed (on_shell_screen (\<lambda>v. text_mode_string (map of_char ''FAILED TO FORK!'')
               (v \<lparr> info_color := (info_color v) \<lparr> fg := 0xC, bg := 0 \<rparr> \<rparr>)) s, e))"

section \<open>Editing a line\<close>

text \<open>
  The specification of \<open>read_command\<close>: the line that a sequence of keys makes and the keys left over,
  or \<open>None\<close> when the line is not finished.
\<close>

function edit :: "u8 list \<Rightarrow> u8 list \<Rightarrow> (u8 list \<times> u8 list) option" where
  "edit line keys =
     (if length line \<ge> COMMAND_SIZE - 1 then Some (line, keys)
      else case keys of
             [] \<Rightarrow> None
           | key # keys \<Rightarrow>
               if key = 0x0A then if line \<noteq> [] then Some (line, keys) else edit line keys
               else if key = 0x08 then edit (butlast line) keys
               else edit (line @ [key]) keys)"
  by pat_completeness auto
termination by (relation "measure (\<lambda>(line, keys). length keys)") auto

declare edit.simps [simp del]

lemma edit_length: "edit line keys = Some (l, rest) \<Longrightarrow> length line \<le> COMMAND_SIZE - 1 \<Longrightarrow> length l \<le> COMMAND_SIZE - 1"
proof (induction line keys rule: edit.induct)
  case (1 line keys)
  then show ?case
    by (subst (asm) edit.simps [of line keys]) (auto split: if_splits list.splits)
qed

lemma edit_set: "edit line keys = Some (l, rest) \<Longrightarrow> set l \<subseteq> set line \<union> set keys"
proof (induction line keys rule: edit.induct)
  case (1 line keys)
  from 1(4) show ?case
    by (subst (asm) edit.simps [of line keys])
      (use 1(1-3) in \<open>auto split: if_splits list.splits dest: in_set_butlastD\<close>)
qed

section \<open>The keys a process will read\<close>

text \<open>
  The contract between the shell and what delivers its keys: while a key is pending, \<open>read_key\<close>
  returns it and takes it away.
\<close>

locale key_source =
  fixes u :: "'e ulib" and pending :: "'e \<Rightarrow> u8 list \<Rightarrow> bool"
  assumes read: "pending e (key # keys) \<Longrightarrow> \<exists>e'. read_key u e = Some (key, e') \<and> pending e' keys"

text \<open>The line in the buffer, and what reading may change: the screen and the buffer.\<close>

definition line_held :: "shell \<Rightarrow> u8 list \<Rightarrow> bool" where
  "line_held s line \<longleftrightarrow> unat (command_length s) = length line \<and> (\<forall>i<length line. command_bytes s i = line ! i)"

definition shell_frame :: "shell \<Rightarrow> shell \<Rightarrow> bool" where
  "shell_frame s s' \<longleftrightarrow> on_screen (shell_screen s') \<and> same_outside (shell_screen s) (shell_screen s') \<and>
     (\<forall>i\<ge>COMMAND_SIZE. command_bytes s' i = command_bytes s i) \<and>
     (\<exists>v. shell_game s' = (shell_game s) \<lparr> screen := v \<rparr>)"

lemma shell_frame_refl: "on_screen (shell_screen s) \<Longrightarrow> shell_frame s s"
  by (simp add: shell_frame_def) (metis game.surjective game.update_convs(1))

lemma shell_frame_trans: "shell_frame s s' \<Longrightarrow> shell_frame s' s'' \<Longrightarrow> shell_frame s s''"
  unfolding shell_frame_def by (fastforce intro: same_outside_trans)

lemma clear_screen_keeps: "on_screen v \<Longrightarrow> on_screen (clear_screen_vga v) \<and> same_outside v (clear_screen_vga v)"
  by (auto simp: on_screen_def clear_screen_vga_def same_outside_def)

lemma put_on_screen_keeps: "on_screen v \<Longrightarrow> on_screen (put_on_screen c v) \<and> same_outside v (put_on_screen c v)"
  using char_on_screen [of v c] char_on_screen [of "clear_screen_vga v" c] clear_screen_keeps [of v]
  by (auto simp: put_on_screen_def intro: same_outside_trans)

lemma echo_char_fields [simp]:
  "command_bytes (echo_char c s) = command_bytes s" "command_length (echo_char c s) = command_length s"
  by (simp_all add: echo_char_def on_shell_screen_def)

lemma echo_char_frame: "on_screen (shell_screen s) \<Longrightarrow> shell_frame s (echo_char c s)"
  using put_on_screen_keeps [of "shell_screen s" c]
  by (auto simp: shell_frame_def echo_char_def on_shell_screen_def draw_def)

lemma write_string_fields [simp]:
  "command_bytes (write_string t s) = command_bytes s" "command_length (write_string t s) = command_length s"
  by (induction t arbitrary: s) (simp_all add: write_string_def)

lemma write_string_frame: "on_screen (shell_screen s) \<Longrightarrow> shell_frame s (write_string t s)"
proof (induction t arbitrary: s)
  case (Cons c t)
  from echo_char_frame [OF Cons.prems] have f: "shell_frame s (echo_char c s)" .
  then have "on_screen (shell_screen (echo_char c s))" by (simp add: shell_frame_def)
  from shell_frame_trans [OF f Cons.IH [OF this]] show ?case by (simp add: write_string_def)
qed (simp add: write_string_def shell_frame_refl)

text \<open>A key stored behind the line, and the last one taken back.\<close>

lemma line_held_put:
  assumes "line_held s line" and "length line < COMMAND_SIZE - 1"
  shows "line_held ((put_command c s) \<lparr> command_length := command_length s + 1 \<rparr>) (line @ [c])"
    and "\<forall>i\<ge>COMMAND_SIZE. command_bytes (put_command c s) i = command_bytes s i"
proof -
  have "unat (command_length s) = length line" using assms(1) by (simp add: line_held_def)
  moreover from this assms(2) have "unat (command_length s + 1) = Suc (length line)"
    by (simp add: unat_word_ariths)
  ultimately show "line_held ((put_command c s) \<lparr> command_length := command_length s + 1 \<rparr>) (line @ [c])"
    and "\<forall>i\<ge>COMMAND_SIZE. command_bytes (put_command c s) i = command_bytes s i"
    using assms by (auto simp: line_held_def put_command_def nth_append)
qed

lemma line_held_back:
  assumes "line_held s line" and "command_length s > 0"
  shows "line_held (s \<lparr> command_length := command_length s - 1 \<rparr>) (butlast line)"
proof -
  have "unat (command_length s - 1) = unat (command_length s) - 1"
    by (rule unat_minus_one) (use assms(2) in \<open>simp add: word_neq_0_conv\<close>)
  then show ?thesis using assms(1) by (auto simp: line_held_def nth_butlast)
qed

lemma line_held_echo [simp]: "line_held (echo_char c s) line = line_held s line"
  by (simp add: line_held_def)

lemma line_held_empty: "line_held s line \<Longrightarrow> command_length s > 0 \<longleftrightarrow> line \<noteq> []"
  by (auto simp: line_held_def word_neq_0_conv [symmetric] unat_eq_zero)

text \<open>The terminated line as a C string.\<close>

lemma command_string_line:
  assumes "line_held s line" and "length line \<le> COMMAND_SIZE - 1" and "0 \<notin> set line"
  shows "command_string (put_command 0 s) = line"
proof -
  let ?f = "command_bytes (put_command 0 s)"
  have len: "unat (command_length s) = length line" using assms(1) by (simp add: line_held_def)
  have f: "map ?f [0..<length line] = line" "?f (length line) = 0"
    using assms(1) len by (auto simp: line_held_def put_command_def intro: nth_equalityI)
  have "[0..<COMMAND_SIZE] = [0..<length line] @ length line # [Suc (length line)..<COMMAND_SIZE]"
    using assms(2) upt_add_eq_append [of 0 "length line" "COMMAND_SIZE - length line"]
    by (simp add: upt_conv_Cons)
  then have "map ?f [0..<COMMAND_SIZE] = line @ 0 # map ?f [Suc (length line)..<COMMAND_SIZE]"
    using f by simp
  moreover have "takeWhile (\<lambda>c. c \<noteq> 0) (line @ 0 # ys) = line" for ys
    using assms(3) by (subst takeWhile_append2) auto
  ultimately show ?thesis by (simp add: command_string_def)
qed

context key_source
begin

lemma read_loop_edits:
  assumes "edit line keys = Some (l, rest)" and "pending e keys" and "line_held s line"
    and "on_screen (shell_screen s)"
  shows "\<exists>s' e'. read_loop u s e = Some (s', e') \<and> pending e' rest \<and> line_held s' l \<and> shell_frame s s'"
  using assms
proof (induction line keys arbitrary: s e rule: edit.induct)
  case (1 line keys)
  note h = 1(6)
  have len: "unat (command_length s) = length line" using h by (simp add: line_held_def)
  show ?case
  proof (cases "length line \<ge> COMMAND_SIZE - 1")
    case True
    then have "l = line" "rest = keys" using 1(4) by (subst (asm) edit.simps; simp)+
    moreover have "read_loop u s e = Some (s, e)" using True len by (subst read_loop.simps) simp
    ultimately show ?thesis using 1(5) h shell_frame_refl [OF 1(7)] by auto
  next
    case False
    then obtain key keys' where keys: "keys = key # keys'"
      using 1(4) by (subst (asm) edit.simps) (auto split: list.splits)
    obtain e' where e': "read_key u e = Some (key, e')" "pending e' keys'"
      using read 1(5) unfolding keys by blast
    note loop = read_loop.simps [of u s e, unfolded len e'(1)]
    note ed = 1(4) [unfolded keys, unfolded edit.simps [of line "key # keys'"], simplified]
    consider (newline) "key = 0x0A" | (bs) "key = 0x08" | (char) "key \<noteq> 0x0A" "key \<noteq> 0x08" by blast
    then show ?thesis
    proof cases
      case newline
      show ?thesis
      proof (cases "line = []")
        case True
        have "edit line keys' = Some (l, rest)" using ed newline True False by simp
        then have "\<exists>s' e''. read_loop u s e' = Some (s', e'') \<and> pending e'' rest \<and> line_held s' l \<and> shell_frame s s'"
          using "1.IH"(1) [OF False keys newline _ _ e'(2) h 1(7)] True by simp
        moreover have "read_loop u s e = read_loop u s e'"
          using loop newline True False line_held_empty [OF h] by simp
        ultimately show ?thesis by simp
      next
        case nonempty: False
        then have "read_loop u s e = Some (s, e')" "l = line" "rest = keys'"
          using loop newline False line_held_empty [OF h] ed by simp_all
        then show ?thesis using e'(2) h shell_frame_refl [OF 1(7)] by auto
      qed
    next
      case bs
      have ed: "edit (butlast line) keys' = Some (l, rest)" using ed bs False by simp
      define s1 where "s1 = (if line = [] then s else echo_char key (s \<lparr> command_length := command_length s - 1 \<rparr>))"
      have s1: "line_held s1 (butlast line)" "shell_frame s s1"
        using h line_held_back [OF h] line_held_empty [OF h] shell_frame_refl [OF 1(7)]
          echo_char_frame [of "s \<lparr> command_length := command_length s - 1 \<rparr>" key] 1(7)
        by (auto simp: s1_def shell_frame_def)
      then have "\<exists>s' e''. read_loop u s1 e' = Some (s', e'') \<and> pending e'' rest \<and> line_held s' l \<and> shell_frame s1 s'"
        using "1.IH"(2) [OF False keys _ bs ed e'(2) s1(1)] bs by (simp add: shell_frame_def)
      moreover have "read_loop u s e = read_loop u s1 e'"
        using loop bs False line_held_empty [OF h] by (simp add: s1_def)
      ultimately show ?thesis using shell_frame_trans [OF s1(2)] by auto
    next
      case char
      have ed: "edit (line @ [key]) keys' = Some (l, rest)" using ed char False by simp
      define s1 where "s1 = echo_char key ((put_command key s) \<lparr> command_length := command_length s + 1 \<rparr>)"
      have put: "line_held ((put_command key s) \<lparr> command_length := command_length s + 1 \<rparr>) (line @ [key])"
        "\<forall>i\<ge>COMMAND_SIZE. command_bytes (put_command key s) i = command_bytes s i"
        using line_held_put [OF h] False by simp_all
      have s1: "line_held s1 (line @ [key])" "shell_frame s s1"
        using put echo_char_frame [of "(put_command key s) \<lparr> command_length := command_length s + 1 \<rparr>" key] 1(7)
        by (simp_all add: s1_def shell_frame_def put_command_def)
      then have "\<exists>s' e''. read_loop u s1 e' = Some (s', e'') \<and> pending e'' rest \<and> line_held s' l \<and> shell_frame s1 s'"
        using "1.IH"(3) [OF False keys char ed e'(2) s1(1)] by (simp add: shell_frame_def)
      moreover have "read_loop u s e = read_loop u s1 e'"
        using loop char False by (simp add: s1_def Let_def put_command_def)
      ultimately show ?thesis using shell_frame_trans [OF s1(2)] by auto
    qed
  qed
qed

lemma read_command_reads:
  assumes ed: "edit [] keys = Some (l, rest)" and p: "pending e keys" and sc: "on_screen (shell_screen s)"
    and nz: "0 \<notin> set keys"
  shows "\<exists>s' e'. read_command u s e = Some (s', e') \<and> pending e' rest \<and> command_string s' = l \<and> shell_frame s s'"
proof -
  define s0 where "s0 = (write_string [0x3E] s) \<lparr> command_length := 0 \<rparr>"
  have s0: "line_held s0 []" "shell_frame s s0"
    using write_string_frame [OF sc, of "[0x3E]"] by (simp_all add: s0_def line_held_def shell_frame_def)
  then obtain s1 e1 where s1: "read_loop u s0 e = Some (s1, e1)" "pending e1 rest" "line_held s1 l"
    "shell_frame s0 s1"
    using read_loop_edits [OF ed p, of s0] by (auto simp: shell_frame_def)
  have l: "length l \<le> COMMAND_SIZE - 1" "0 \<notin> set l"
    using edit_length [OF ed] edit_set [OF ed] nz by auto
  have held: "unat (command_length s1) \<le> COMMAND_SIZE - 1" using s1(3) l(1) by (simp add: line_held_def)
  define s2 where "s2 = write_string [0x0A] (put_command 0 s1)"
  have "command_string s2 = l"
    using command_string_line [OF s1(3) l] by (simp add: s2_def command_string_def)
  moreover have "shell_frame s1 (put_command 0 s1)" "on_screen (shell_screen (put_command 0 s1))"
    using s1(4) held shell_frame_refl [of s1] by (auto simp: shell_frame_def put_command_def)
  then have "shell_frame s s2"
    using s0(2) s1(4) write_string_frame [of "put_command 0 s1" "[0x0A]"]
    unfolding s2_def by (blast intro: shell_frame_trans)
  moreover have "read_command u s e = Some (s2, e1)"
    using s1(1) by (simp add: read_command_def s0_def s2_def)
  ultimately show ?thesis using s1(2) by blast
qed

end

section \<open>The keyboard as the source of the keys\<close>

text \<open>
  The process on the kernel's keyboard: the calls end in \<open>keyboard_char_available\<close> and
  \<open>keyboard_get_char\<close>, and the interrupts of one list of scan codes arrive during each sleep.
\<close>

type_synonym typist = "(keyboard \<times> textmode) \<times> u8 list list"

definition keyboard_ulib :: "typist ulib" where
  "keyboard_ulib =
     \<lparr> ulib_fork = (\<lambda>e. (0, 1, e)),
       ulib_msleep = (\<lambda>ms (s, later). case later of
          [] \<Rightarrow> (s, []) | codes # later \<Rightarrow> (fold check_scan_code codes s, later)),
       ulib_set_priority = (\<lambda>p e. e),
       ulib_key_available = (\<lambda>(s, later). (keyboard_char_available (fst s), (s, later))),
       ulib_get_key = (\<lambda>((k, t), later). case keyboard_get_char k of (c, k) \<Rightarrow> (c, ((k, t), later))) \<rparr>"

text \<open>The characters that scan codes make, and the shift key after them.\<close>

fun characters :: "bool \<Rightarrow> u8 list \<Rightarrow> u8 list" where
  "characters shift [] = []"
| "characters shift (code # codes) =
     key_char shift code @
     characters (if code \<in> {0x2A, 0x36} then True else if code \<in> {0xAA, 0xB6} then False else shift) codes"

definition shift_after :: "bool \<Rightarrow> u8 list \<Rightarrow> bool" where
  "shift_after = foldl (\<lambda>shift code.
     if code \<in> {0x2A, 0x36} then True else if code \<in> {0xAA, 0xB6} then False else shift)"

lemma characters_append:
  "characters shift (codes @ codes') = characters shift codes @ characters (shift_after shift codes) codes'"
  by (induction codes arbitrary: shift) (simp_all add: shift_after_def)

text \<open>The keys that the process will still read, at most 255 of them.\<close>

definition still_typed :: "typist \<Rightarrow> u8 list \<Rightarrow> bool" where
  "still_typed e keys \<longleftrightarrow> length keys \<le> 255 \<and>
     (\<exists>shift q. key_sim (fst e) (shift, q) \<and> keys = q @ characters shift (concat (snd e)))"

lemma scan_codes_queue:
  assumes "key_sim s (shift, q)" and "length (q @ characters shift codes) \<le> 255"
  shows "key_sim (fold check_scan_code codes s) (shift_after shift codes, q @ characters shift codes)"
  using assms
proof (induction codes arbitrary: s shift q)
  case Nil
  then show ?case by (simp add: shift_after_def)
next
  case (Cons code codes)
  have "length (snd (snd (spec_step (Scan code) (shift, q)))) < BUFFER_SIZE"
    using Cons.prems(2) by simp
  from key_sim_step(2) [OF Cons.prems(1) this]
  have "key_sim (check_scan_code code s) (snd (spec_step (Scan code) (shift, q)))" by simp
  from Cons.IH [OF this [simplified]] Cons.prems(2) show ?case
    by (simp add: shift_after_def)
qed

lemma read_waiting_key:
  assumes "key_sim s (shift, c # q)"
  shows "\<exists>s'. read_key keyboard_ulib (s, later) = Some (c, (s', later)) \<and> key_sim s' (shift, q)"
proof -
  obtain k t where s: "s = (k, t)" by fastforce
  have h: "ring_holds k (c # q)" and i: "ring_inv k (c # q)" and sh: "shiftdown k = shift"
    using assms by (simp_all add: s key_sim_def ring_inv_def)
  have "buffer_size k \<noteq> 0" using h by (auto simp: ring_holds_def)
  then have "keyboard_char_available k" by (simp add: keyboard_char_available_def word_neq_0_conv)
  then have "read_key keyboard_ulib (s, later) = Some (c, ((snd (keyboard_get_char k), t), later))"
    using get_char_index(1) [OF h]
    by (subst read_key.simps) (simp add: s keyboard_ulib_def split_beta)
  moreover have "key_sim (snd (keyboard_get_char k), t) (shift, q)"
    using get_char_index(6) [OF h] get_char_inv [OF i] sh by (simp add: key_sim_def)
  ultimately show ?thesis by blast
qed

lemma read_after_sleep:
  assumes "key_sim s (shift, [])"
  shows "read_key keyboard_ulib (s, codes # later) =
    read_key keyboard_ulib (fold check_scan_code codes s, later)"
proof -
  have "\<not> keyboard_char_available (fst s)"
    using assms by (simp add: key_sim_def ring_inv_def ring_holds_def keyboard_char_available_def unat_eq_zero)
  then show ?thesis by (subst read_key.simps) (simp add: keyboard_ulib_def)
qed

lemma still_typed_read:
  assumes "still_typed (s, later) (key # keys)"
  shows "\<exists>e'. read_key keyboard_ulib (s, later) = Some (key, e') \<and> still_typed e' keys"
  using assms
proof (induction later arbitrary: s)
  case Nil
  then obtain shift q where q: "key_sim s (shift, q)" "key # keys = q" "length keys \<le> 254"
    by (auto simp: still_typed_def)
  with read_waiting_key [of s shift key keys "[]"] obtain s' where
    "read_key keyboard_ulib (s, []) = Some (key, (s', []))" "key_sim s' (shift, keys)" by auto
  then show ?case using q(3) by (auto simp: still_typed_def)
next
  case (Cons codes later)
  then obtain shift q where q: "key_sim s (shift, q)" "key # keys = q @ characters shift (codes @ concat later)"
    "length keys \<le> 254"
    by (auto simp: still_typed_def)
  show ?case
  proof (cases q)
    case Nil
    have "length (q @ characters shift codes) \<le> length (key # keys)"
      unfolding q(2) by (simp add: characters_append)
    then have "length (q @ characters shift codes) \<le> 255" using q(3) by simp
    from scan_codes_queue [OF q(1) this] have
      "key_sim (fold check_scan_code codes s) (shift_after shift codes, characters shift codes)" by (simp add: Nil)
    then have "still_typed (fold check_scan_code codes s, later) (key # keys)"
      unfolding still_typed_def
    proof (intro conjI exI [of _ "shift_after shift codes"] exI [of _ "characters shift codes"])
      show "length (key # keys) \<le> 255" using q(3) by simp
    qed (simp_all add: q(2) Nil characters_append)
    from Cons.IH [OF this] show ?thesis using read_after_sleep [of s shift] q(1) Nil by simp
  next
    case (Cons c q')
    with q(1) read_waiting_key [of s shift c q' "codes # later"] obtain s' where
      "read_key keyboard_ulib (s, codes # later) = Some (c, (s', codes # later))" "key_sim s' (shift, q')" by auto
    moreover have "key = c" "keys = q' @ characters shift (concat (codes # later))"
      using q(2) Cons by simp_all
    ultimately show ?thesis using q(3) by (auto simp: still_typed_def)
  qed
qed

interpretation typed_keys: key_source keyboard_ulib still_typed
  by unfold_locales (use still_typed_read in \<open>force simp: split_paired_all\<close>)

section \<open>The end of a game\<close>

lemma drain_waiting_keys:
  assumes "key_sim s (shift, q)"
  shows "\<exists>s'. drain_keys keyboard_ulib (s, later) = Some (q, (s', later)) \<and> key_sim s' (shift, [])"
  using assms
proof (induction q arbitrary: s)
  case Nil
  then have "\<not> keyboard_char_available (fst s)"
    by (simp add: key_sim_def ring_inv_def ring_holds_def keyboard_char_available_def unat_eq_zero)
  then show ?case using Nil by (subst drain_keys.simps) (simp add: keyboard_ulib_def)
next
  case (Cons c q)
  from read_waiting_key [OF Cons.prems] obtain s1 where
    s1: "read_key keyboard_ulib (s, later) = Some (c, (s1, later))" "key_sim s1 (shift, q)" by blast
  obtain k t where s: "s = (k, t)" by fastforce
  have "ring_holds k (c # q)" using Cons.prems by (simp add: s key_sim_def ring_inv_def)
  then have "buffer_size k \<noteq> 0" by (auto simp: ring_holds_def)
  then have av: "ulib_key_available keyboard_ulib (s, later) = (True, (s, later))"
    by (simp add: s keyboard_ulib_def keyboard_char_available_def word_neq_0_conv)
  then have get: "ulib_get_key keyboard_ulib (s, later) = (c, (s1, later))"
    using s1(1) by (subst (asm) read_key.simps) simp
  obtain s' where "drain_keys keyboard_ulib (s1, later) = Some (q, (s', later))" "key_sim s' (shift, [])"
    using Cons.IH [OF s1(2)] by blast
  then show ?case using av get by (subst drain_keys.simps) simp
qed

abbreviation quit_keys :: "u8 set" where "quit_keys \<equiv> {0x71, 0x51}"

lemma press_key_quit: "quit_pressed (press_key key b) \<longleftrightarrow> key \<in> quit_keys \<or> quit_pressed b"
  by (simp add: press_key_def)

lemma update_quits:
  "set keys \<inter> quit_keys \<noteq> {} \<Longrightarrow> update keys g = Some ((update_keys keys g) \<lparr> quit := True \<rparr>)"
proof -
  have f: "quit_pressed (fold press_key keys b) \<longleftrightarrow> set keys \<inter> quit_keys \<noteq> {} \<or> quit_pressed b" for b
    by (induction keys arbitrary: b) (auto simp: press_key_quit)
  assume "set keys \<inter> quit_keys \<noteq> {}"
  then show ?thesis by (simp add: update_def update_keys_def f)
qed

lemma tetris_run_quit: "quit g \<Longrightarrow> tetris_run u g e = Some (g, e)"
  by (subst tetris_run.simps) simp

text \<open>One tick: the keys that wait are used up, then the process sleeps.\<close>

lemma tetris_run_tick:
  assumes "\<not> quit g" and "key_sim s (shift, q)" and "update q g = Some g'"
  obtains s' where "tetris_run keyboard_ulib g (s, later) =
      tetris_run keyboard_ulib g' (ulib_msleep keyboard_ulib TICK_DURATION (s', later))"
    and "key_sim s' (shift, [])"
proof -
  obtain s' where "drain_keys keyboard_ulib (s, later) = Some (q, (s', later))" "key_sim s' (shift, [])"
    using drain_waiting_keys [OF assms(2)] by blast
  with assms(1,3) show thesis by (intro that [of s']) (subst tetris_run.simps, simp)
qed

lemma tetris_run_quits:
  assumes "game_inv g" and "key_sim s (shift, q)" and "length (q @ characters shift (concat later)) \<le> 255"
    and "set (q @ characters shift (concat later)) \<inter> quit_keys \<noteq> {}"
  shows "\<exists>g' e'. tetris_run keyboard_ulib g (s, later) = Some (g', e') \<and> quit g'"
  using assms
proof (induction later arbitrary: g s shift q)
  case Nil
  then have q: "set q \<inter> quit_keys \<noteq> {}" by simp
  show ?case
  proof (cases "quit g")
    case False
    obtain s1 where "tetris_run keyboard_ulib g (s, []) =
        tetris_run keyboard_ulib ((update_keys q g) \<lparr> quit := True \<rparr>)
          (ulib_msleep keyboard_ulib TICK_DURATION (s1, []))"
      by (rule tetris_run_tick [OF False Nil.prems(2) update_quits [OF q]])
    then show ?thesis by (simp add: tetris_run_quit)
  qed (simp add: tetris_run_quit)
next
  case (Cons codes later)
  show ?case
  proof (cases "quit g")
    case False
    show ?thesis
    proof (cases "set q \<inter> quit_keys = {}")
      case True
      obtain g1 where g1: "update q g = Some g1" "game_inv g1" using update_step [OF Cons.prems(1)] by blast
      obtain s1 where s1: "tetris_run keyboard_ulib g (s, codes # later) =
          tetris_run keyboard_ulib g1 (fold check_scan_code codes s1, later)" "key_sim s1 (shift, [])"
        using tetris_run_tick [OF False Cons.prems(2) g1(1), of "codes # later"]
        by (auto simp: keyboard_ulib_def)
      have "key_sim (fold check_scan_code codes s1) (shift_after shift codes, characters shift codes)"
        using scan_codes_queue [OF s1(2), of codes] Cons.prems(3) by (simp add: characters_append)
      from Cons.IH [OF g1(2) this] Cons.prems(3,4) True show ?thesis
        unfolding s1(1) by (auto simp: characters_append)
    next
      case q: False
      obtain s1 where "tetris_run keyboard_ulib g (s, codes # later) =
          tetris_run keyboard_ulib ((update_keys q g) \<lparr> quit := True \<rparr>)
            (ulib_msleep keyboard_ulib TICK_DURATION (s1, codes # later))"
        by (rule tetris_run_tick [OF False Cons.prems(2) update_quits [OF q]])
      then show ?thesis by (simp add: tetris_run_quit)
    qed
  qed (simp add: tetris_run_quit)
qed

lemma key_char_nonzero: "0 \<notin> set (key_char shift code)"
  by (simp add: key_char_def)

lemma characters_nonzero: "0 \<notin> set (characters shift codes)"
  by (induction codes arbitrary: shift) (simp_all add: key_char_nonzero)

lemma boot_still_typed:
  "length (characters False (concat later)) \<le> 255 \<Longrightarrow>
   still_typed ((keyboard_boot, t), later) (characters False (concat later))"
  using boot_sim [of t] unfolding still_typed_def by fastforce

lemma tetris_quits:
  assumes "still_typed e (key1 # key2 # key3 # key4 # keys)" and "set keys \<inter> quit_keys \<noteq> {}"
  shows "\<exists>g' e'. tetris keyboard_ulib g e = Some (g', e') \<and> quit g'"
proof -
  obtain e1 where e1: "read_key keyboard_ulib e = Some (key1, e1)" "still_typed e1 (key2 # key3 # key4 # keys)"
    using typed_keys.read [OF assms(1)] by blast
  obtain e2 where e2: "read_key keyboard_ulib e1 = Some (key2, e2)" "still_typed e2 (key3 # key4 # keys)"
    using typed_keys.read [OF e1(2)] by blast
  obtain e3 where e3: "read_key keyboard_ulib e2 = Some (key3, e3)" "still_typed e3 (key4 # keys)"
    using typed_keys.read [OF e2(2)] by blast
  obtain e4 where e4: "read_key keyboard_ulib e3 = Some (key4, e4)" "still_typed e4 keys"
    using typed_keys.read [OF e3(2)] by blast
  obtain s later where s: "e4 = (s, later)" by fastforce
  from e4(2) obtain shift q where q: "key_sim s (shift, q)" "keys = q @ characters shift (concat later)"
    "length keys \<le> 255"
    by (auto simp: still_typed_def s)
  have "\<exists>g' e'. tetris_run keyboard_ulib (tetris_start key1 key2 key3 key4 g) (s, later) = Some (g', e') \<and> quit g'"
    using q(3) assms(2) unfolding q(2) by (rule tetris_run_quits [OF tetris_start_inv q(1)])
  then show ?thesis using e1(1) e2(1) e3(1) e4(1) by (simp add: tetris_def s)
qed

section \<open>Properties\<close>

text \<open>C8. Keys typed at the keyboard reach the shell: when the scan codes, in whatever portions they
  arrive while the shell sleeps, make a finished line, one round of \<open>shell_loop\<close> reads exactly this
  line (with the corrections by backspace), leaves the other keys for later, writes nothing behind the
  256 bytes of the command nor outside of the screen, and obeys the line: \<open>help\<close> and unknown commands
  print their texts, and \<open>tetris\<close> plays until the quit key is among the keys after the seed.\<close>

theorem shell_round_obeys_typed_line:
  assumes "length (characters False (concat batches)) \<le> 255"
    and "edit [] (characters False (concat batches)) = Some (line, rest)"
    and "on_screen (shell_screen s)"
    and "line = map of_char ''tetris'' \<Longrightarrow> 4 \<le> length rest \<and> set (drop 4 rest) \<inter> {0x71, 0x51} \<noteq> {}"
  shows "\<exists>s1 e1. read_command keyboard_ulib s ((keyboard_boot, t), batches) = Some (s1, e1) \<and>
    still_typed e1 rest \<and> command_string s1 = line \<and>
    (\<forall>i\<ge>COMMAND_SIZE. command_bytes s1 i = command_bytes s i) \<and>
    same_outside (shell_screen s) (shell_screen s1) \<and>
    (if line = map of_char ''help''
     then shell_round keyboard_ulib (s, ((keyboard_boot, t), batches)) = Some (write_string help_text s1, e1)
     else if line = map of_char ''tetris''
     then \<exists>g e2 s2. tetris keyboard_ulib (shell_game s1) e1 = Some (g, e2) \<and> quit g \<and>
       shell_round keyboard_ulib (s, ((keyboard_boot, t), batches)) = Some (s2, e2) \<and>
       info_x (shell_screen s2) = 0 \<and> info_y (shell_screen s2) = 0
     else shell_round keyboard_ulib (s, ((keyboard_boot, t), batches)) =
       Some (write_string (map of_char ''Unrecognized command\<newline>'') s1, e1))"
proof -
  obtain s1 e1 where 1: "read_command keyboard_ulib s ((keyboard_boot, t), batches) = Some (s1, e1)"
    "still_typed e1 rest" "command_string s1 = line" "shell_frame s s1"
    using typed_keys.read_command_reads [OF assms(2) boot_still_typed [OF assms(1)] assms(3) characters_nonzero]
    by blast
  have "\<exists>g e2. tetris keyboard_ulib (shell_game s1) e1 = Some (g, e2) \<and> quit g"
    if tet: "line = map of_char ''tetris''"
  proof -
    obtain k1 k2 k3 k4 keys where "rest = k1 # k2 # k3 # k4 # keys" "set keys \<inter> {0x71, 0x51} \<noteq> {}"
      using assms(4) [OF tet] by (auto simp: numeral_eq_Suc Suc_le_length_iff)
    with 1(2) show ?thesis using tetris_quits by blast
  qed
  moreover have "shell_round keyboard_ulib (s, ((keyboard_boot, t), batches)) = check_command keyboard_ulib s1 e1"
    using 1(1) by (simp add: shell_round_def)
  moreover have "\<forall>i\<ge>COMMAND_SIZE. command_bytes s1 i = command_bytes s i"
    "same_outside (shell_screen s) (shell_screen s1)"
    using 1(4) by (simp_all add: shell_frame_def)
  moreover note 1(1-3)
  ultimately show ?thesis
    by (auto simp: check_command_def streq_eq on_shell_screen_def text_set_pos_def)
qed

text \<open>\<open>hx\<close>, after a while a backspace, \<open>elp\<close> and the enter key.\<close>

definition sample_typing :: "u8 list list" where
  "sample_typing = [[0x23, 0x2D], [], [0x0E, 0x12, 0x26, 0x19, 0x1C]]"

definition sample_shell :: shell where
  "sample_shell = \<lparr> shell_game = blank_game, command_bytes = (\<lambda>_. 0x55), command_length = 7 \<rparr>"

theorem shell_round_obeys_typed_line_witness:
  "\<exists>s1 e1. command_string s1 = map of_char ''help'' \<and>
     shell_round keyboard_ulib (sample_shell, ((keyboard_boot, sample_text), sample_typing)) =
       Some (write_string help_text s1, e1)"
proof -
  have "key_char False 0x23 = [0x68]" "key_char False 0x2D = [0x78]" "key_char False 0x0E = [0x08]"
    "key_char False 0x12 = [0x65]" "key_char False 0x26 = [0x6C]" "key_char False 0x19 = [0x70]"
    "key_char False 0x1C = [0x0A]"
    by (simp_all add: key_char_def scan_code_table_def unshifted_table_def)
  then have c: "characters False (concat sample_typing) = [0x68, 0x78, 0x08, 0x65, 0x6C, 0x70, 0x0A]"
    by (simp add: sample_typing_def)
  have "edit [] [0x68, 0x78, 0x08, 0x65, 0x6C, 0x70, 0x0A] = Some (map of_char ''help'', [])"
    by (simp add: edit.simps of_char_def)
  moreover have "on_screen (shell_screen sample_shell)"
    by (simp add: sample_shell_def blank_game_def on_screen_def)
  moreover have "map of_char ''help'' \<noteq> (map of_char ''tetris'' :: u8 list)"
    by (simp add: of_char_def)
  ultimately show ?thesis
    using shell_round_obeys_typed_line [of sample_typing "map of_char ''help''" "[]" sample_shell sample_text]
    by (auto simp: c)
qed

text \<open>C21. A game ends: whatever the state of the game, once four keys for the seed and a quit key
  have been or will be typed, \<open>tetris\<close> returns, although its loop, the loop that empties the
  keyboard and the waits for the seed have no bound of their own.\<close>

theorem tetris_returns_after_quit:
  assumes "length (characters False (concat batches)) \<le> 255"
    and "characters False (concat batches) = key1 # key2 # key3 # key4 # keys"
    and "0x71 \<in> set keys"
  shows "\<exists>g' e'. tetris keyboard_ulib g ((keyboard_boot, t), batches) = Some (g', e') \<and> quit g'"
proof -
  have "still_typed ((keyboard_boot, t), batches) (key1 # key2 # key3 # key4 # keys)"
    using boot_still_typed [OF assms(1)] assms(2) by simp
  moreover have "set keys \<inter> quit_keys \<noteq> {}" using assms(3) by auto
  ultimately show ?thesis by (rule tetris_quits)
qed

theorem tetris_returns_after_quit_witness:
  "\<exists>g' e'. tetris keyboard_ulib blank_game ((keyboard_boot, sample_text), [[0x1E, 0x1E], [0x1E, 0x1E], [], [0x10]]) =
     Some (g', e') \<and> quit g'"
proof -
  have k: "key_char False 0x1E = [0x61]" "key_char False 0x10 = [0x71]"
    by (simp_all add: key_char_def scan_code_table_def unshifted_table_def)
  then have "characters False (concat [[0x1E, 0x1E], [0x1E, 0x1E], [], [0x10]]) = 0x61 # 0x61 # 0x61 # 0x61 # [0x71]"
    by simp
  then show ?thesis by (rule tetris_returns_after_quit [rotated]) (simp_all add: k)
qed

end
