(* ===== verification/FancyCat.thy ===== *)
theory FancyCat
  imports Prelude "HOL-Library.Signed_Division"
begin

text \<open>
  \<open>boot/FancyCat.c\<close>: the tool that joins the kernel and the programs to the image the boot loader
  reads.  Files are lists of bytes behind their names; writing to the image and reading from an
  opened file succeed.  The specification is a reader of the format as the comment at the head of the
  file documents it, and as \<open>load_module\<close> of \<open>boot/bootloader.s\<close> reads it: a module begins with a
  header, and the next one follows after the number of sectors the header gives.
\<close>

section \<open>Building an image\<close>

abbreviation SECTOR_SIZE :: nat where "SECTOR_SIZE \<equiv> 512"

record file_header =
  hdr_location :: u32
  hdr_size :: u32

text \<open>A structure as it is written to the file, on a little-endian machine.\<close>

definition le32 :: "u32 \<Rightarrow> u8 list" where
  "le32 w = [ucast w, ucast (drop_bit 8 w), ucast (drop_bit 16 w), ucast (drop_bit 24 w)]"

definition header_bytes :: "file_header \<Rightarrow> u8 list" where
  "header_bytes h = le32 (hdr_location h) @ le32 (hdr_size h)"

text \<open>The copy goes through a buffer of 4096 bytes and ends with the first short read.\<close>

function dump_file :: "u8 list \<Rightarrow> u8 list \<Rightarrow> u8 list" where
  "dump_file src dest =
     (let buffer = take 4096 src; dest = dest @ buffer
      in if length buffer < 4096 then dest else dump_file (drop 4096 src) dest)"
  by pat_completeness auto
termination by (relation "measure (\<lambda>(src, dest). length src)") auto

declare dump_file.simps [simp del]

text \<open>\<open>number_of_sectors\<close> is an \<open>int\<close>: the sum of type \<open>unsigned long\<close> is cut to 32 bits before the division.\<close>

definition number_of_sectors :: "u64 \<Rightarrow> int" where
  "number_of_sectors file_size =
     sint (ucast (file_size + 8 + (512 - (file_size + 8) mod 512)) :: u32) sdiv 512"

definition padding :: "u64 \<Rightarrow> u8 list" where
  "padding file_size =
     (if (file_size + 8) mod 512 \<noteq> 0 then replicate (unat (512 - (file_size + 8) mod 512)) 0x22 else [])"

definition append_file :: "u32 \<Rightarrow> u8 list \<Rightarrow> u8 list \<Rightarrow> u8 list" where
  "append_file load_location file new_file =
     (let file_size = of_nat (length file) :: u64;
          hdr = \<lparr> hdr_location = load_location, hdr_size = word_of_int (number_of_sectors file_size) \<rparr>
      in dump_file file (new_file @ header_bytes hdr) @ padding file_size)"

section \<open>Arguments\<close>

text \<open>
  \<open>sscanf(s, "%x", ...)\<close>: white space, a sign, a prefix \<open>0x\<close> and hexadecimal digits, at least one;
  what follows is ignored.  A value that does not fit becomes the largest \<open>unsigned long\<close>.
\<close>

definition hex_digit :: "char \<Rightarrow> nat option" where
  "hex_digit c =
     (let n = of_char c :: nat
      in if 48 \<le> n \<and> n \<le> 57 then Some (n - 48)
         else if 65 \<le> n \<and> n \<le> 70 then Some (n - 55)
         else if 97 \<le> n \<and> n \<le> 102 then Some (n - 87) else None)"

definition white :: "char \<Rightarrow> bool" where
  "white c \<longleftrightarrow> (of_char c :: nat) \<in> {9, 10, 11, 12, 13, 32}"

definition hex_digits :: "string \<Rightarrow> nat list" where
  "hex_digits s = map (the \<circ> hex_digit) (takeWhile (\<lambda>c. hex_digit c \<noteq> None) s)"

definition hex_value :: "nat list \<Rightarrow> u64" where
  "hex_value ds = (let n = foldl (\<lambda>n d. 16 * n + d) 0 ds in if n < 2 ^ 64 then of_nat n else - 1)"

fun sign_of :: "string \<Rightarrow> bool \<times> string" where
  "sign_of (c # s) = (if c = CHR ''-'' then (True, s) else if c = CHR ''+'' then (False, s) else (False, c # s))"
| "sign_of [] = (False, [])"

fun skip_0x :: "string \<Rightarrow> string" where
  "skip_0x (c # d # s) = (if c = CHR ''0'' \<and> (d = CHR ''x'' \<or> d = CHR ''X'') then s else c # d # s)"
| "skip_0x s = s"

definition scan_hex :: "string \<Rightarrow> u32 option" where
  "scan_hex s =
     (case sign_of (dropWhile white s) of (neg, s) \<Rightarrow>
        let ds = hex_digits (skip_0x s)
        in if ds = [] then None
           else if neg then Some (ucast (- hex_value ds)) else Some (ucast (hex_value ds)))"

text \<open>
  The loop over the arguments behind the first location.  When a file cannot be opened, the null
  pointer is passed to \<open>fclose\<close> before the return.
\<close>

fun append_files :: "(string \<Rightarrow> u8 list option) \<Rightarrow> string list \<Rightarrow> u32 \<Rightarrow> u8 list \<Rightarrow> u8 list res" where
  "append_files files [] load_location new_file = Inr new_file"
| "append_files files (name # argv) load_location new_file =
     (case files name of
        None \<Rightarrow> Inl (Undefined ''fclose(NULL)'')
      | Some file \<Rightarrow>
          let new_file = append_file load_location file new_file
          in case argv of
               [] \<Rightarrow> Inr new_file
             | arg # rest \<Rightarrow>
                 (case scan_hex arg of
                    None \<Rightarrow> append_files files argv (load_location + of_nat (length file)) new_file
                  | Some new_location \<Rightarrow> append_files files rest new_location new_file))"

definition end_marker :: "u8 list" where
  "end_marker = replicate 8 0xFF @ replicate (SECTOR_SIZE - 8) 0"

text \<open>
  The exit code and the image, if there is one; \<open>argv\<close> includes the name of the program, and
  \<open>can_create\<close> says whether \<open>image.dat\<close> can be opened.
\<close>

definition fancy_cat ::
  "(string \<Rightarrow> u8 list option) \<Rightarrow> bool \<Rightarrow> string list \<Rightarrow> (nat \<times> u8 list option) res" where
  "fancy_cat files can_create argv =
     (if length argv < 3 then Inr (1, None)
      else case scan_hex (argv ! 1) of
             None \<Rightarrow> Inr (2, None)
           | Some load_location \<Rightarrow>
               if \<not> can_create then Inr (3, None)
               else and_then (append_files files (drop 2 argv) load_location []) (\<lambda>new_file.
                 Inr (0, Some (new_file @ end_marker))))"

section \<open>The image as the boot loader reads it\<close>

definition le32_at :: "nat \<Rightarrow> u8 list \<Rightarrow> u32" where
  "le32_at i img = ucast (img ! i) OR push_bit 8 (ucast (img ! (i + 1))) OR
     push_bit 16 (ucast (img ! (i + 2))) OR push_bit 24 (ucast (img ! (i + 3)))"

text \<open>The modules of an image with their locations; \<open>None\<close> when the image ends too early.\<close>

function modules :: "u8 list \<Rightarrow> (u32 \<times> u8 list) list option" where
  "modules img =
     (if length img < SECTOR_SIZE then None
      else if le32_at 0 img = - 1 then Some []
      else
        let n = unat (le32_at 4 img)
        in if n = 0 \<or> length img < n * SECTOR_SIZE then None
           else map_option ((#) (le32_at 0 img, drop 8 (take (n * SECTOR_SIZE) img)))
                  (modules (drop (n * SECTOR_SIZE) img)))"
  by pat_completeness auto
termination by (relation "measure length") auto

declare modules.simps [simp del]

text \<open>
  What the arguments ask for: the files in their order, each with the location in front of it, if
  there is one.
\<close>

fun requests :: "(string \<Rightarrow> u8 list option) \<Rightarrow> string list \<Rightarrow> u32 option \<Rightarrow> (u32 option \<times> u8 list) list" where
  "requests files [] location = []"
| "requests files (name # argv) location =
     (location, the (files name)) #
       (case argv of
          [] \<Rightarrow> []
        | arg # rest \<Rightarrow>
            (case scan_hex arg of
               None \<Rightarrow> requests files argv None
             | Some new_location \<Rightarrow> requests files rest (Some new_location)))"

text \<open>
  The locations the tool computes: a file without one gets the location before it plus the number of
  bytes of the file before it.  The comment at the head of the file has it start at the sector after
  that file instead.
\<close>

fun placements :: "(string \<Rightarrow> u8 list option) \<Rightarrow> string list \<Rightarrow> u32 \<Rightarrow> (u32 \<times> u8 list) list" where
  "placements files [] load_location = []"
| "placements files (name # argv) load_location =
     (let file = the (files name)
      in (load_location, file) #
        (case argv of
           [] \<Rightarrow> []
         | arg # rest \<Rightarrow>
             (case scan_hex arg of
                None \<Rightarrow> placements files argv (load_location + of_nat (length file))
              | Some new_location \<Rightarrow> placements files rest new_location)))"

fun all_files :: "(string \<Rightarrow> u8 list option) \<Rightarrow> string list \<Rightarrow> bool" where
  "all_files files [] \<longleftrightarrow> True"
| "all_files files (name # argv) \<longleftrightarrow> files name \<noteq> None \<and>
     (case argv of
        [] \<Rightarrow> True
      | arg # rest \<Rightarrow> if scan_hex arg = None then all_files files argv else all_files files rest)"

text \<open>The step to the next file, without a location and with one.\<close>

lemma next_file:
  assumes "argv = arg # rest"
  shows "scan_hex arg = None \<Longrightarrow> placements files (name # argv) loc =
      (loc, the (files name)) # placements files argv (loc + of_nat (length (the (files name))))"
    and "scan_hex arg = None \<Longrightarrow> requests files (name # argv) lo = (lo, the (files name)) # requests files argv None"
    and "scan_hex arg = Some n \<Longrightarrow> placements files (name # argv) loc = (loc, the (files name)) # placements files rest n"
    and "scan_hex arg = Some n \<Longrightarrow> requests files (name # argv) lo = (lo, the (files name)) # requests files rest (Some n)"
    and "fst (placements files argv loc ! 0) = loc"
  by (simp_all add: assms Let_def)

lemma requests_placements:
  "lo = None \<or> lo = Some loc \<Longrightarrow>
   list_all2 (\<lambda>r p. snd r = snd p \<and> (\<forall>l. fst r = Some l \<longrightarrow> fst p = l))
     (requests files argv lo) (placements files argv loc)"
proof (induction files argv loc arbitrary: lo rule: placements.induct)
  case (2 files name argv loc)
  show ?case
  proof (cases argv)
    case Nil
    then show ?thesis using 2(3) by auto
  next
    case (Cons arg rest)
    note step = next_file(1-4) [OF Cons]
    show ?thesis
    proof (cases "scan_hex arg")
      case None
      from 2(1) [OF refl Cons None, folded Cons, of None] 2(3) show ?thesis
        unfolding step(1) [OF None] step(2) [OF None] by auto
    next
      case (Some n)
      from 2(2) [OF refl Cons Some, of "Some n"] 2(3) show ?thesis
        unfolding step(3) [OF Some] step(4) [OF Some] by auto
    qed
  qed
qed simp

lemma placements_next:
  "Suc i < length (placements files argv loc) \<Longrightarrow> fst (requests files argv lo ! Suc i) = None \<Longrightarrow>
   fst (placements files argv loc ! Suc i) =
     fst (placements files argv loc ! i) + of_nat (length (snd (placements files argv loc ! i)))"
proof (induction files argv loc arbitrary: i lo rule: placements.induct)
  case (2 files name argv loc)
  let ?file = "the (files name)"
  show ?case
  proof (cases argv)
    case Nil
    then show ?thesis using 2(3) by simp
  next
    case (Cons arg rest)
    show ?thesis
    proof (cases "scan_hex arg")
      case None
      define next_loc where "next_loc = loc + of_nat (length ?file)"
      have ps: "placements files (name # argv) loc = (loc, ?file) # placements files argv next_loc"
        and rs: "requests files (name # argv) lo = (lo, ?file) # requests files argv None"
        using next_file(1,2) [OF Cons None] by (simp_all only: next_loc_def)
      note hd = next_file(5) [OF Cons, where files = files and loc = next_loc]
      show ?thesis
      proof (cases i)
        case 0
        then show ?thesis unfolding ps by (simp add: hd) (simp add: next_loc_def)
      next
        case (Suc j)
        have "Suc j < length (placements files argv next_loc)" "fst (requests files argv None ! Suc j) = None"
          using 2(3,4) unfolding ps rs Suc by simp_all
        from 2(1) [OF refl Cons None, folded Cons next_loc_def, OF this] show ?thesis unfolding ps Suc by simp
      qed
    next
      case (Some n)
      have ps: "placements files (name # argv) loc = (loc, ?file) # placements files rest n"
        and rs: "requests files (name # argv) lo = (lo, ?file) # requests files rest (Some n)"
        using next_file(3,4) [OF Cons Some] by simp_all
      show ?thesis
      proof (cases i)
        case 0
        then show ?thesis using 2(3,4) unfolding ps rs by (cases rest) simp_all
      next
        case (Suc j)
        have "Suc j < length (placements files rest n)" "fst (requests files rest (Some n) ! Suc j) = None"
          using 2(3,4) unfolding ps rs Suc by simp_all
        from 2(2) [OF refl Cons Some this] show ?thesis unfolding ps Suc by simp
      qed
    qed
  qed
qed simp

lemma dump_file_copies: "dump_file src dest = dest @ src"
proof (induction src dest rule: dump_file.induct)
  case (1 src dest)
  show ?case
  proof (cases "length (take 4096 src) < 4096")
    case True
    then show ?thesis by (subst dump_file.simps) (simp add: Let_def min_less_iff_disj)
  next
    case False
    then show ?thesis using 1 [OF refl refl False] by (subst dump_file.simps) (simp add: Let_def)
  qed
qed

lemma append_files_blocks:
  "all_files files argv \<Longrightarrow> append_files files argv loc out =
     Inr (out @ concat (map (\<lambda>(l, file). append_file l file []) (placements files argv loc)))"
proof (induction files argv loc out rule: append_files.induct)
  case (2 files name argv loc out)
  have app: "append_file l b out = out @ append_file l b []" for l b out
    by (simp add: append_file_def dump_file_copies Let_def)
  from 2(3) obtain b where b: "files name = Some b" by auto
  show ?case
  proof (cases argv)
    case Nil
    then show ?thesis by (simp add: b app [of _ _ out])
  next
    case (Cons arg rest)
    show ?thesis
    proof (cases "scan_hex arg")
      case None
      then have "all_files files (arg # rest)" using 2(3) Cons by simp
      from 2(1) [OF b refl Cons None] this show ?thesis
        by (simp add: b Cons None Let_def app [of _ _ out] del: append_files.simps placements.simps
            add: append_files.simps(2) [of _ name] placements.simps(2) [of _ name])
    next
      case (Some l)
      then have "all_files files rest" using 2(3) Cons by simp
      from 2(2) [OF b refl Cons Some] this show ?thesis
        by (simp add: b Cons Some app [of _ _ out])
    qed
  qed
qed simp

section \<open>One block\<close>

lemma length_le32 [simp]: "length (le32 w) = 4"
  by (simp add: le32_def)

lemma le32_at_le32: "le32_at 0 (le32 w @ ys) = w"
proof (rule bit_word_eqI)
  fix n assume "n < LENGTH(32)"
  then have "n < 8 \<or> 8 \<le> n \<and> n < 16 \<or> 16 \<le> n \<and> n < 24 \<or> 24 \<le> n \<and> n < 32" by auto
  then show "bit (le32_at 0 (le32 w @ ys)) n = bit w n"
    by (elim disjE) (auto simp: le32_at_def le32_def bit_simps)
qed

lemma le32_at_skip: "le32_at (length xs + i) (xs @ ys) = le32_at i ys"
  by (simp add: le32_at_def nth_append)

lemma header_fields:
  "le32_at 0 (header_bytes h @ ys) = hdr_location h" "le32_at 4 (header_bytes h @ ys) = hdr_size h"
  "length (header_bytes h) = 8"
proof -
  show "le32_at 0 (header_bytes h @ ys) = hdr_location h"
    using le32_at_le32 [of "hdr_location h" "le32 (hdr_size h) @ ys"] by (simp add: header_bytes_def)
  show "le32_at 4 (header_bytes h @ ys) = hdr_size h"
    using le32_at_skip [of "le32 (hdr_location h)" 0 "le32 (hdr_size h) @ ys"] le32_at_le32 [of "hdr_size h" ys]
    by (simp add: header_bytes_def)
qed (simp add: header_bytes_def)

text \<open>Files of less than 2 GB have the number of sectors that the arithmetic without bounds gives.\<close>

lemma file_size_arith:
  assumes "n + 520 < 2 ^ 31"
  shows "unat ((of_nat n :: u64) + 8) = n + 8"
    and "unat ((of_nat n + 8 :: u64) mod 512) = (n + 8) mod 512"
    and "number_of_sectors (of_nat n) = int ((n + 8) div 512) + 1"
proof -
  have s: "unat ((of_nat n :: u64) + 8) = n + 8"
    using assms by (simp add: unat_word_ariths unsigned_of_nat take_bit_nat_eq_self)
  then show "unat ((of_nat n :: u64) + 8) = n + 8" .
  from s show m: "unat ((of_nat n + 8 :: u64) mod 512) = (n + 8) mod 512" by (simp add: unat_mod)
  let ?t = "of_nat n + 8 + (512 - (of_nat n + 8) mod 512) :: u64"
  have "(of_nat n + 8 :: u64) mod 512 \<le> 512" by (simp add: word_le_nat_alt m)
  then have "unat (512 - (of_nat n + 8 :: u64) mod 512) = 512 - (n + 8) mod 512"
    by (simp add: unat_sub m)
  then have t: "unat ?t = n + 8 + (512 - (n + 8) mod 512)"
    using assms by (subst unat_add_lem [THEN iffD1]) (simp_all add: s)
  also have "\<dots> = 512 * ((n + 8) div 512 + 1)"
  proof -
    have "512 * q + r + (512 - r) = 512 * (q + 1)" if "r < 512" for q r :: nat using that by simp
    from this [of "(n + 8) mod 512" "(n + 8) div 512"] show ?thesis by (simp only: mult_div_mod_eq)
  qed
  finally have t: "unat ?t = 512 * ((n + 8) div 512 + 1)" .
  show "number_of_sectors (of_nat n) = int ((n + 8) div 512) + 1"
  proof -
    have le: "512 * ((n + 8) div 512 + 1) < 2 ^ 31"
    proof -
      have "512 * ((n + 8) div 512) \<le> n + 8" by simp
      then show ?thesis using assms by simp
    qed
    have "(ucast ?t :: u32) = of_nat (unat ?t)" by (rule of_nat_unat [symmetric])
    also have "\<dots> = of_nat (512 * ((n + 8) div 512 + 1))" by (simp only: t)
    finally have "sint (ucast ?t :: u32) = signed_take_bit 31 (int (512 * ((n + 8) div 512 + 1)))"
      by (simp only: signed_of_nat) simp
    also have "\<dots> = int (512 * ((n + 8) div 512 + 1))"
    proof (rule signed_take_bit_int_eq_self)
      show "- (2 ^ 31) \<le> int (512 * ((n + 8) div 512 + 1))" by (rule order_trans [of _ 0]) simp_all
      show "int (512 * ((n + 8) div 512 + 1)) < 2 ^ 31"
        using le by (metis of_nat_less_iff of_nat_numeral of_nat_power)
    qed
    finally show ?thesis by (simp add: number_of_sectors_def signed_divide_int_def)
  qed
qed

text \<open>A block and what the reader makes of it.\<close>

definition fill :: "nat \<Rightarrow> u8 list" where
  "fill n = replicate ((SECTOR_SIZE - (n + 8) mod SECTOR_SIZE) mod SECTOR_SIZE) 0x22"

lemma block_layout:
  fixes l :: u32
  assumes "length b + 520 < 2 ^ 31"
  defines "h \<equiv> \<lparr> hdr_location = l, hdr_size = of_nat ((length b + 8) div 512 + 1) \<rparr>"
  shows "append_file l b [] = header_bytes h @ b @ fill (length b)"
    and "unat (hdr_size h) = (length b + 8) div 512 + 1"
    and "length (append_file l b []) = SECTOR_SIZE * ((length b + 8) div 512) +
      (if (length b + 8) mod 512 = 0 then 0 else SECTOR_SIZE)"
proof -
  note fs = file_size_arith [OF assms(1)]
  have s: "word_of_int (number_of_sectors (of_nat (length b))) = (of_nat ((length b + 8) div 512 + 1) :: u32)"
    unfolding fs(3) by (metis of_int_of_nat_eq of_nat_1 of_nat_add)
  have z: "(of_nat (length b) + 8 :: u64) mod 512 = 0 \<longleftrightarrow> (length b + 8) mod 512 = 0"
    using fs(2) by (simp add: unat_eq_zero [symmetric])
  have "(of_nat (length b) + 8 :: u64) mod 512 \<le> 512" by (simp add: word_le_nat_alt fs(2))
  then have "unat (512 - (of_nat (length b) + 8 :: u64) mod 512) = 512 - (length b + 8) mod 512"
    by (simp add: unat_sub fs(2))
  then have p: "padding (of_nat (length b)) = fill (length b)"
    using z by (auto simp: padding_def fill_def)
  show lay: "append_file l b [] = header_bytes h @ b @ fill (length b)"
    by (simp add: append_file_def dump_file_copies s p h_def)
  show "unat (hdr_size h) = (length b + 8) div 512 + 1"
  proof -
    have "512 * ((length b + 8) div 512) \<le> length b + 8" by simp
    then have "(length b + 8) div 512 + 1 < 2 ^ 32" using assms(1) by simp
    moreover have "unat (of_nat k :: u32) = k" if "k < 2 ^ 32" for k
      using that by (simp add: unsigned_of_nat take_bit_nat_eq_self)
    ultimately show ?thesis by (simp only: h_def file_header.simps)
  qed
  have e: "512 * q + (if r = 0 then 0 else 512) = 512 * q + r + (512 - r) mod 512" if "r < 512" for q r :: nat
    using that by simp
  show "length (append_file l b []) = SECTOR_SIZE * ((length b + 8) div 512) +
      (if (length b + 8) mod 512 = 0 then 0 else SECTOR_SIZE)"
    using e [of "(length b + 8) mod 512" "(length b + 8) div 512"]
    by (simp add: lay header_fields(3) fill_def)
qed

lemma modules_block:
  assumes "length b + 520 < 2 ^ 31" and "(length b + 8) mod 512 \<noteq> 0" and "l \<noteq> - 1"
  shows "modules (append_file l b [] @ img) = map_option ((#) (l, b @ fill (length b))) (modules img)"
proof -
  define h where "h = \<lparr> hdr_location = l, hdr_size = of_nat ((length b + 8) div 512 + 1) :: u32 \<rparr>"
  let ?n = "(length b + 8) div 512 + 1"
  note lay = block_layout [OF assms(1), of l, folded h_def]
  have len: "length (append_file l b []) = ?n * SECTOR_SIZE" using lay(3) assms(2) by simp
  have f: "le32_at 0 (append_file l b [] @ img) = l" "unat (le32_at 4 (append_file l b [] @ img)) = ?n"
    using header_fields [of h] lay(2) by (simp_all add: lay(1)) (simp add: h_def)
  have "take (?n * SECTOR_SIZE) (append_file l b [] @ img) = append_file l b []"
    "drop (?n * SECTOR_SIZE) (append_file l b [] @ img) = img"
    using len by simp_all
  moreover have "drop 8 (append_file l b []) = b @ fill (length b)"
    using header_fields(3) [of h] by (simp add: lay(1))
  moreover have "\<not> length (append_file l b [] @ img) < ?n * SECTOR_SIZE"
    "\<not> length (append_file l b [] @ img) < SECTOR_SIZE"
    using len by simp_all
  ultimately show ?thesis
    using f assms(3) by (subst modules.simps) (simp only: Let_def, simp)
qed

lemma modules_end: "modules end_marker = Some []"
proof -
  have "le32 0xFFFFFFFF = replicate 4 0xFF" by code_simp
  moreover have "(- 1 :: u32) = 0xFFFFFFFF" by simp
  ultimately have minus_one: "le32 (- 1) = replicate 4 0xFF" by (simp only:)
  have "end_marker = header_bytes \<lparr> hdr_location = - 1, hdr_size = - 1 \<rparr> @ replicate (SECTOR_SIZE - 8) 0"
    using minus_one by (simp add: end_marker_def header_bytes_def numeral_eq_Suc)
  then have "le32_at 0 end_marker = - 1" by (metis header_fields(1) file_header.select_convs(1))
  moreover have "length end_marker = SECTOR_SIZE" by (simp add: end_marker_def)
  ultimately show ?thesis by (subst modules.simps) simp
qed

section \<open>Properties\<close>

lemmas scanning = scan_hex_def hex_digits_def hex_digit_def white_def hex_value_def of_char_def

text \<open>C10. The image that \<open>FancyCat\<close> writes can be read back: when all its files exist, hold less
  than 2 GB (and 520 bytes less still, for the header and the padding) and none of them ends exactly at the end of
  a sector, and no location, given or computed, is 0xFFFFFFFF, the reader of the documented format finds all files
  in the order of the arguments, each filled up to the next sector, and each file that has a location among
  the arguments at that location.  A file without one is found at the location of the file before it plus the
  number of bytes of that file, which is the code's rule and not the one of the comment (the next sector).\<close>

theorem fancy_cat_round_trip:
  assumes "argv = program # start # names" and "names \<noteq> []" and "scan_hex start = Some loc"
    and "all_files files names"
    and "\<forall>(l, b)\<in>set (placements files names loc). l \<noteq> - 1 \<and> length b + 520 < 2 ^ 31 \<and> (length b + 8) mod 512 \<noteq> 0"
  shows "\<exists>img ms. fancy_cat files True argv = Inr (0, Some img) \<and> modules img = Some ms \<and>
    map snd ms = map (\<lambda>(_, b). b @ fill (length b)) (requests files names (Some loc)) \<and>
    (\<forall>i<length ms. \<forall>l. fst (requests files names (Some loc) ! i) = Some l \<longrightarrow> fst (ms ! i) = l) \<and>
    (\<forall>i. Suc i < length ms \<and> fst (requests files names (Some loc) ! Suc i) = None \<longrightarrow>
      fst (ms ! Suc i) = fst (ms ! i) + of_nat (length (snd (requests files names (Some loc) ! i))))"
proof -
  let ?ps = "placements files names loc" and ?rs = "requests files names (Some loc)"
  define ms where "ms = map (\<lambda>(l, b). (l, b @ fill (length b))) ?ps"
  have m: "modules (concat (map (\<lambda>(l, b). append_file l b []) ps) @ end_marker) =
      Some (map (\<lambda>(l, b). (l, b @ fill (length b))) ps)"
    if "\<forall>(l, b)\<in>set ps. l \<noteq> - 1 \<and> length b + 520 < 2 ^ 31 \<and> (length b + 8) mod 512 \<noteq> 0" for ps
    using that by (induction ps) (auto simp: modules_end modules_block)
  have "fancy_cat files True argv = Inr (0, Some (concat (map (\<lambda>(l, b). append_file l b []) ?ps) @ end_marker))"
    using assms(1-4) append_files_blocks [OF assms(4), of loc "[]"]
    by (cases names) (simp_all add: fancy_cat_def)
  moreover note m [OF assms(5), folded ms_def]
  moreover have rel: "list_all2 (\<lambda>r p. snd r = snd p \<and> (\<forall>l. fst r = Some l \<longrightarrow> fst p = l)) ?rs ?ps"
    by (rule requests_placements) simp
  then have len: "length ?rs = length ?ps" and nth: "\<And>i. i < length ?ps \<Longrightarrow>
      snd (?rs ! i) = snd (?ps ! i) \<and> (\<forall>l. fst (?rs ! i) = Some l \<longrightarrow> fst (?ps ! i) = l)"
    by (simp_all add: list_all2_conv_all_nth)
  then have "map snd ms = map (\<lambda>(_, b). b @ fill (length b)) ?rs"
    by (intro nth_equalityI) (simp_all add: ms_def split_beta)
  moreover have "\<forall>i<length ms. \<forall>l. fst (?rs ! i) = Some l \<longrightarrow> fst (ms ! i) = l"
    using nth by (simp add: ms_def split_beta)
  moreover have "\<forall>i. Suc i < length ms \<and> fst (?rs ! Suc i) = None \<longrightarrow>
      fst (ms ! Suc i) = fst (ms ! i) + of_nat (length (snd (?rs ! i)))"
    using nth placements_next [of _ files names loc "Some loc"] by (simp add: ms_def split_beta)
  ultimately show ?thesis by blast
qed

theorem fancy_cat_round_trip_witness:
  "\<exists>img. fancy_cat (\<lambda>name. if name = ''kernel'' then Some [1, 2, 3] else if name = ''init'' then Some [4] else None)
       True [''FancyCat'', ''0x200000'', ''kernel'', ''0x400000'', ''init'', ''kernel''] = Inr (0, Some img) \<and>
     modules img = Some [(0x200000, [1, 2, 3] @ fill 3), (0x400000, [4] @ fill 1), (0x400001, [1, 2, 3] @ fill 3)]"
proof -
  let ?files = "\<lambda>name. if name = ''kernel'' then Some [1, 2, 3 :: u8] else if name = ''init'' then Some [4] else None"
  let ?names = "[''kernel'', ''0x400000'', ''init'', ''kernel'']"
  let ?rs = "[(Some (0x200000 :: u32), [1, 2, 3 :: u8]), (Some 0x400000, [4]), (None, [1, 2, 3])]"
  have s: "scan_hex ''0x200000'' = Some 0x200000" "scan_hex ''0x400000'' = Some 0x400000"
    "scan_hex ''init'' = None" "scan_hex ''kernel'' = None"
    by (simp_all add: scanning)
  have p: "placements ?files ?names 0x200000 = [(0x200000, [1, 2, 3]), (0x400000, [4]), (0x400001, [1, 2, 3])]"
    and q: "requests ?files ?names (Some 0x200000) = ?rs"
    by (simp_all add: s)
  have "?names \<noteq> []" and "all_files ?files ?names"
    and "\<forall>(l, b)\<in>set (placements ?files ?names 0x200000). l \<noteq> - 1 \<and> length b + 520 < 2 ^ 31 \<and> (length b + 8) mod 512 \<noteq> 0"
    unfolding p by (simp_all add: s)
  from fancy_cat_round_trip [OF refl this(1) s(1) this(2,3), where program = "''FancyCat''", unfolded q]
  obtain img ms where i: "fancy_cat ?files True (''FancyCat'' # ''0x200000'' # ?names) = Inr (0, Some img)"
    "modules img = Some ms"
    "map snd ms = map (\<lambda>(_, b). b @ fill (length b)) ?rs"
    "\<forall>i<length ms. \<forall>l. fst (?rs ! i) = Some l \<longrightarrow>
      fst (ms ! i) = l"
    "\<forall>i. Suc i < length ms \<and> fst (?rs ! Suc i) = None \<longrightarrow>
      fst (ms ! Suc i) = fst (ms ! i) + of_nat (length (snd (?rs ! i)))"
    by blast
  from arg_cong [OF i(3), of length] have "length ms = 3" by simp
  then obtain a b c where ms: "ms = [a, b, c]" by (auto simp: numeral_3_eq_3 length_Suc_conv)
  have "fst a = 0x200000" "fst b = 0x400000" "fst c = 0x400001"
    using i(4) [THEN spec, of 0] i(4) [THEN spec, of 1] i(5) [THEN spec, of 1] by (simp_all add: ms)
  moreover have "snd a = [1, 2, 3] @ fill 3" "snd b = [4] @ fill 1" "snd c = [1, 2, 3] @ fill 3"
    using i(3) by (simp_all add: ms numeral_3_eq_3)
  ultimately have "ms = [(0x200000, [1, 2, 3] @ fill 3), (0x400000, [4] @ fill 1), (0x400001, [1, 2, 3] @ fill 3)]"
    by (simp add: ms prod_eq_iff)
  with i(1,2) show ?thesis by auto
qed

text \<open>C28. A file that ends exactly at the end of a sector gets a sector too many in its header: the
  reader takes the sector of the next header, here the end marker, for data of the file and then
  finds no header any more.\<close>

theorem fancy_cat_exact_fit_loses_end_marker:
  assumes "scan_hex start = Some loc" and "loc \<noteq> - 1" and "files name = Some b"
    and "length b + 520 < 2 ^ 31" and "(length b + 8) mod 512 = 0"
  shows "\<exists>img. fancy_cat files True [program, start, name] = Inr (0, Some img) \<and>
    drop (length b + 8) img = end_marker \<and>
    unat (le32_at 4 img) * SECTOR_SIZE = length b + 8 + length end_marker \<and> modules img = None"
proof -
  let ?n = "(length b + 8) div 512 + 1"
  define h where "h = \<lparr> hdr_location = loc, hdr_size = of_nat ?n :: u32 \<rparr>"
  define img where "img = append_file loc b [] @ end_marker"
  note lay = block_layout [OF assms(4), of loc, folded h_def]
  have img: "img = header_bytes h @ b @ end_marker" using assms(5) by (simp add: img_def lay(1) fill_def)
  have e: "length end_marker = SECTOR_SIZE" by (simp add: end_marker_def)
  have n: "?n * SECTOR_SIZE = length b + 8 + SECTOR_SIZE" using assms(5) by (simp add: dvd_eq_mod_eq_0 [symmetric])
  have f: "le32_at 0 img = loc" "unat (le32_at 4 img) = ?n" "length img = ?n * SECTOR_SIZE"
    using header_fields [of h] lay(2) e n by (simp_all add: img) (simp add: h_def)
  have "modules [] = None" by (subst modules.simps) simp
  then have "modules img = None"
    using f assms(2) by (subst modules.simps) (simp add: Let_def)
  moreover have "drop (length b + 8) img = end_marker" using header_fields(3) [of h] by (simp add: img)
  moreover have "fancy_cat files True [program, start, name] = Inr (0, Some img)"
    using assms(1,3) append_files_blocks [of files "[name]" loc "[]"] by (simp add: fancy_cat_def img_def)
  ultimately show ?thesis using f(2) n e by (intro exI [of _ img]) simp
qed

theorem fancy_cat_exact_fit_loses_end_marker_witness:
  "\<exists>img. fancy_cat (\<lambda>name. Some (replicate 504 0x90)) True [''FancyCat'', ''0x200000'', ''kernel''] = Inr (0, Some img) \<and>
     modules img = None"
proof -
  have "scan_hex ''0x200000'' = Some 0x200000" by (simp add: scanning)
  from fancy_cat_exact_fit_loses_end_marker [OF this, where files = "\<lambda>name. Some (replicate 504 0x90)"
      and name = "''kernel''" and program = "''FancyCat''"]
  show ?thesis by auto
qed

text \<open>A file whose name begins with a hexadecimal digit is taken for a location.\<close>

lemma file_name_taken_for_location:
  "append_files files [''kernel.b'', ''bootscreen'', ''init''] loc out =
     (case files ''kernel.b'' of
        None \<Rightarrow> Inl (Undefined ''fclose(NULL)'')
      | Some file \<Rightarrow> append_files files [''init''] 0xB (append_file loc file out))"
proof -
  have "scan_hex ''bootscreen'' = Some 0xB" by (simp add: scanning)
  then show ?thesis by (simp add: Let_def split: option.splits)
qed

end
