(* ===== verification/Spec2Isabelle.thy ===== *)
theory Spec2Isabelle
  imports Klib Stack Queue LinkedList Allocator Block Addr PhysAlloc Frames Paging MemMap NodePool Watermark
    Interrupts Pcb Scheduler SleepQueue MapPage CloneMap Elf Fork Textmode Kprintf Keyboard Syscalls Devices Pci Hda Sound
    Console Startup Vga Tetris Shell FancyCat
begin

text \<open>
  \<^bold>\<open>Bikeshed64\<close> is a small 64-bit kernel in C with one user program and the tool that builds its boot
  image.  This development models its C code, function by function, and proves what the functions do,
  errors and defects included.  Paths below are relative to \<open>src/kernel/src/\<close> unless they begin with
  \<open>boot/\<close> or \<open>programs/\<close>, which are relative to \<open>src/\<close>.

  \<^bold>\<open>How the program is put together.\<close>  The boot loader reads the image of \<open>boot/FancyCat.c\<close> and
  enters \<open>kernel/kmain.c\<close>.  \<open>physical.c\<close> reads the memory map of the BIOS, builds the direct map of
  all RAM at \<open>KERNEL_BASE\<close> and gives the usable blocks to the page allocator \<open>phys_alloc.c\<close>; \<open>paging.c\<close>
  takes the tables of the address spaces from it, and the watermark allocator maps pages with
  \<open>paging.c\<close> for the tables of the kernel.  The scheduler keeps its queue nodes in a block allocator and
  its processes in a table, both taken from the watermark allocator; \<open>elf.c\<close> builds the first process;
  interrupts and system calls enter through the stubs of the IDT and end in \<open>dispatch\<close>.  The screen,
  the keyboard, the PCI bus and the sound driver stand beside them.  The user program is a shell that
  reads keys through system calls and plays Tetris.

  \<^bold>\<open>Conventions.\<close>  Integers keep their width as words; \<open>int\<close> of the user program is an integer where
  the code stays inside its range.  Memory in which the kernel keeps linked structures is a map from
  addresses to 64-bit cells (\<open>mem\<close>), each field of a structure at the address it has in C; aliasing is
  therefore that of the code.  \<open>Klib\<close> has a memory of bytes and derives the cell view from it.
  Structures that nothing reaches through differently typed pointers live in heaps of records.  Every
  operation that can stop the machine returns \<open>kerror + 'a\<close> (\<open>res\<close>): \<open>panic\<close>, a failed \<open>ASSERT\<close> with
  file and line, a page fault through NULL, a general protection fault at an address that is not canonical,
  a division by zero, a halt, or what C leaves undefined.  The one address tested for being canonical is that of the
  block \<open>phys_free_2MIB\<close> pushes, which it computes from its argument; the other pointers of the kernel point into
  the window at \<open>KERNEL_BASE\<close> or are taken to be mapped.  A store to a 32-bit field that has a cell of its own
  sets the whole cell, as the writes of a process identifier through a user pointer in \<open>fork\<close> do.
  Loops over data are recursion; a loop that may not end is a \<open>partial_function (option)\<close>, so that not
  returning is the value \<open>None\<close> and every statement that such a function returns is proved as one.
  There is no fuel anywhere.  What hardware answers is an argument.
\<close>

text \<open>
  \<^bold>\<open>Foundations.\<close>
  \<^item> \<open>Prelude\<close>: machine types of \<open>inttypes.h\<close>, outcomes and their sequencing, cell memory, chains of
    nodes, arithmetic of addresses; the locale \<open>source\<close> (a container one takes elements from).
  \<^item> \<open>Addr\<close>: the macros of \<open>virt_memory/paging.h\<close> for alignment, masks and the window at \<open>KERNEL_BASE\<close>.
  \<^item> \<open>Klib\<close>: \<open>memclr\<close>, \<open>memset\<close>, \<open>memcpy\<close> and \<open>clamp\<close> of \<open>kernel/klib.c\<close>, loop by loop, and that they do
    what their names say exactly when the size does not wrap.

  \<^bold>\<open>Data structures\<close> (\<open>kernel/data_structures/\<close>).
  \<^item> \<open>Stack\<close> and \<open>Queue\<close>: \<open>stack.c\<close> and \<open>queue.c\<close> on cell memory, abstracted to the list of their nodes;
    locales \<open>lifo\<close> and \<open>fifo\<close>, interpreted as \<open>st\<close> and \<open>qu\<close>; every legal run of queue operations is
    the run on the list.  The insertion by priority is shown to
    follow its order where it does and to lose a node where it does.
  \<^item> \<open>LinkedList\<close>: \<open>linkedlist.c\<close>; its two function pointers are arguments.
  \<^item> \<open>Allocator\<close>, \<open>Block\<close>: the contract of an allocator of equal blocks (locales \<open>allocator\<close> and
    \<open>freeing_allocator\<close>) and \<open>block.c\<close>, interpreted as \<open>ba\<close>.
  \<^item> \<open>Watermark\<close>: \<open>watermark.c\<close> on top of paging: with enough free blocks the loop that maps pages ends, each page
    gets a block of its own, and what is handed out stays mapped (\<open>mark_ok\<close>, \<open>mapped_down\<close>); \<open>NodePool\<close>: several queues over one block allocator, and
    where each node is after each step.

  \<^bold>\<open>Memory\<close> (\<open>arch/x86_64/virt_memory/\<close>).
  \<^item> \<open>PhysAlloc\<close>: \<open>phys_alloc.c\<close>.  The invariant \<open>phys_inv\<close> names the set of free pages; the interpretation
    \<open>pa\<close> of \<open>allocator\<close> gives what allocation and release do to it.  Releasing the last page of a pool faults, and a
    page released twice is handed out twice.
  \<^item> \<open>Frames\<close>: what paging relies on (locale \<open>frame_allocator\<close>, interpreted on \<open>PhysAlloc\<close> as \<open>fa\<close>): an
    allocation leaves everybody else's cells alone, and others may write theirs.
  \<^item> \<open>Paging\<close>: \<open>paging.c\<close>.  The specification is \<open>translate\<close>, the walk of the processor; mapping refines
    an update of that partial function, look-up reads it.  \<open>MapPage\<close> maps fresh pages in sequence.
  \<^item> \<open>CloneMap\<close>: \<open>virt_clone_mapping\<close>.  Page tables as trees; one contract, \<open>clones\<close>, holds of the copy of a
    page and of a table on each level, and gives that the clone has the content of the original in
    frames of its own.
  \<^item> \<open>MemMap\<close>: \<open>physical.c\<close>; the usable RAM avoids the kernel, and the direct map, with the static tables of
    \<open>prekernel.s\<close>, is the identity as far as its page directories reach.

  \<^bold>\<open>Processes.\<close>
  \<^item> \<open>Interrupts\<close>: \<open>interrupts/apic.c\<close>, \<open>tss.c\<close>, \<open>interrupts.c\<close>; gates lead to their stubs, the timer's
    calibration has no overflow.
  \<^item> \<open>Pcb\<close>, \<open>Scheduler\<close>, \<open>SleepQueue\<close>: \<open>kernel/scheduler/\<close> on the record \<open>kernel\<close> of the whole kernel
    state, with the invariant of the queues; one round of \<open>dispatch\<close> is round robin within a priority.
  \<^item> \<open>Elf\<close>: \<open>kernel/elf/elf.c\<close>, the checks of the header and the loading of segments and stacks, with all
    their error returns and panics; proved is when a segment with zeros beyond its file part makes the
    kernel panic.
  \<^item> \<open>Syscalls\<close>: \<open>kernel/syscalls/syscalls.c\<close> and the handlers of \<open>interrupts.c\<close>, with the registers of a
    process in its saved context; \<open>create_init_process\<close>.  \<open>exit\<close> is followed into the page allocator.
  \<^item> \<open>Fork\<close>: the system call across its components: block allocator, page allocator, cloning, and the writes
    to both processes; what each of them reads afterwards.
  \<^item> \<open>Startup\<close>: \<open>kernel/kmain.c\<close>, the initialisations in their order on the states of all components.

  \<^bold>\<open>Devices.\<close>
  \<^item> \<open>Textmode\<close>: \<open>textmode.c\<close>, an inductive step relation and an invariant of the reachable states.
  \<^item> \<open>Kprintf\<close>: \<open>kprintf.c\<close> against \<open>render\<close>, a specification of what a format stands for.
  \<^item> \<open>Keyboard\<close>: \<open>keyboard.c\<close>, the ring refines a queue of characters until it overflows.
  \<^item> \<open>Devices\<close>: port and memory accesses of the drivers (\<open>support.h\<close>) as the fields of a record \<open>machine\<close>
    over a state \<open>'d\<close> of the device, the part of the kernel's state that drivers use, and the relations
    \<open>within\<close> and \<open>returns\<close> in which the lemmas about drivers are stated.
  \<^item> \<open>Pci\<close>: \<open>pci/pci.c\<close>.  The hypothesis \<open>config_mechanism\<close> states the documented behaviour of the two
    configuration ports; an instance of it is given and used by the witnesses.
  \<^item> \<open>Hda\<close>, \<open>Sound\<close>: \<open>sound/sound.c\<close> and what it does; the depth-first search against reachability in the
    connection graph, the rings, the streams.
  \<^item> \<open>Console\<close>: \<open>panic.c\<close>, \<open>serial.c\<close> and the dump of a process.

  \<^bold>\<open>User program and tools.\<close>
  \<^item> \<open>Vga\<close>: \<open>programs/src/init/vga.c\<close>, \<open>rand.c\<close>, \<open>string.c\<close>; \<open>Tetris\<close>: \<open>tetris.c\<close>, with the reachable states of
    the game as an inductive predicate: no access outside the board or the screen, every drop ends, and
    full lines are removed as a filter would.
  \<^item> \<open>Shell\<close>: \<open>ulib.c\<close>, \<open>shell.c\<close>, \<open>main.c\<close> and the loop of \<open>tetris.c\<close> that waits for keys.  System calls are
    the fields of a record; the locale \<open>key_source\<close> says what the shell needs of them, and the keyboard
    driver provides it (\<open>typed_keys\<close>).
  \<^item> \<open>FancyCat\<close>: \<open>boot/FancyCat.c\<close> on lists of bytes, against a reader of the documented format; the rule for
    files without a location is the code's, which is not the documented one.
\<close>

text \<open>
  \<^bold>\<open>Bounds.\<close>  Sizes and numbers of steps are those of the code: 1024 processes, 2048 queue nodes, 4
  priorities, tables of 512 entries, 256 keys, 100 pages of text, a board of the size of \<open>tetris.c\<close>.  Where a
  theorem bounds an address or a size, the bound is a hypothesis that names the object, and the witness
  of the theorem meets it with concrete values.

  \<^bold>\<open>Not modelled.\<close>
  \<^item> Assembly: the boot loader, the switch to long mode, the interrupt stubs and \<open>startup.s\<close>.  Their effects
    on which C code relies (addresses of tables and stubs, the saved context) are arguments.
  \<^item> \<open>atomic.h\<close>: inline assembly that no code uses.
  \<^item> The TLB, and with it the need for \<open>invlpg\<close>; caches and the order of memory accesses.
  \<^item> The copy of printed text to the serial port in builds for QEMU, debug output that is compiled out, and
    the messages that the functions of \<open>apic.c\<close> print.
  \<^item> Failing writes, seeks and reads of opened files in FancyCat, and the messages it prints.
  \<^item> Section, symbol and dynamic structures of \<open>elf.h\<close>, which no code uses.
  \<^item> Devices themselves: what a controller does with a command is the business of the parameter.
\<close>

end
